(* ===== verification/Afs_Prelude.thy ===== *)
theory Afs_Prelude
  imports Main "HOL-Library.Word"
begin

text \<open>
  The shared vocabulary of the development.

  \<^item> Machine integers: \<open>u8\<close>, \<open>u16\<close>, \<open>u32\<close>, \<open>u64\<close> are the C types \<open>uint8_t\<close> \dots
    \<open>uint64_t\<close>; arithmetic on them wraps as in C.
  \<^item> Memory: a buffer is a list of bytes; \<open>blit\<close> is \<open>memcpy\<close> into the middle of a buffer;
    \<open>le_word\<close> and \<open>le_bytes\<close> are the little-endian load and store that the code gets by
    casting byte pointers (the driver only runs on little-endian machines, see
    \<open>IsLittleEndian\<close> in \<open>src/src/lib/cauchy_rs.c\<close>).
  \<^item> The kernel: everything the driver asks the kernel for is a field of the record
    \<open>kernel\<close>, so each theorem holds for every behaviour of these services: the stream of
    random bytes, which allocations succeed, what uninitialised memory holds, which block
    I/Os succeed, the bytes of the passive device, and the digests of the kernel crypto API.
\<close>

unbundle bit_operations_syntax

named_theorems afs_len \<open>lengths of the buffers the operations return\<close>
named_theorems afs_frame \<open>state an operation leaves unchanged\<close>

type_synonym u8 = "8 word"
type_synonym u16 = "16 word"
type_synonym u32 = "32 word"
type_synonym u64 = "64 word"
type_synonym bytes = "8 word list"

section \<open>Buffers\<close>

definition blit :: "'a list \<Rightarrow> nat \<Rightarrow> 'a list \<Rightarrow> 'a list" where
  "blit dst off src = take off dst @ src @ drop (off + length src) dst"

definition sub :: "'a list \<Rightarrow> nat \<Rightarrow> nat \<Rightarrow> 'a list" where
  "sub xs off n = take n (drop off xs)"

lemma length_blit [simp, afs_len]:
  "off + length src \<le> length dst \<Longrightarrow> length (blit dst off src) = length dst"
  by (simp add: blit_def)

lemma length_sub [simp, afs_len]: "off + n \<le> length xs \<Longrightarrow> length (sub xs off n) = n"
  by (simp add: sub_def)

lemma nth_sub [simp]: "i < n \<Longrightarrow> off + n \<le> length xs \<Longrightarrow> sub xs off n ! i = xs ! (off + i)"
  by (simp add: sub_def)

lemma nth_blit:
  assumes "off + length src \<le> length dst" and "i < length dst"
  shows "blit dst off src ! i =
    (if off \<le> i \<and> i < off + length src then src ! (i - off) else dst ! i)"
  using assms by (auto simp: blit_def nth_append min_def)

lemma sub_blit_same [simp]:
  "off + length src \<le> length dst \<Longrightarrow> sub (blit dst off src) off (length src) = src"
  by (simp add: sub_def blit_def)

lemma sub_blit_same_len:
  "off + n \<le> length dst \<Longrightarrow> length src = n \<Longrightarrow> sub (blit dst off src) off n = src"
  by (simp add: sub_def blit_def)

lemma sub_blit_disjoint:
  assumes "off + length src \<le> length dst" and "off' + n \<le> length dst"
    and "off' + n \<le> off \<or> off + length src \<le> off'"
  shows "sub (blit dst off src) off' n = sub dst off' n"
  using assms by (intro nth_equalityI) (auto simp: nth_blit)

lemma blit_whole [simp]: "length src = length dst \<Longrightarrow> blit dst 0 src = src"
  by (simp add: blit_def)

lemma sub_whole [simp]: "length xs = n \<Longrightarrow> sub xs 0 n = xs"
  by (simp add: sub_def)

section \<open>Little-endian words\<close>

definition le_bytes :: "nat \<Rightarrow> 'a::len word \<Rightarrow> bytes" where
  "le_bytes n w = map (\<lambda>i. ucast (drop_bit (8 * i) w)) [0..<n]"

fun le_word :: "bytes \<Rightarrow> 'a::len word" where
  "le_word [] = 0"
| "le_word (b # bs) = ucast b OR push_bit 8 (le_word bs)"

lemma length_le_bytes [simp, afs_len]: "length (le_bytes n w) = n"
  by (simp add: le_bytes_def)

lemma bit_le_word:
  "bit (le_word bs :: 'a::len word) k \<longleftrightarrow>
     k < LENGTH('a) \<and> k div 8 < length bs \<and> bit (bs ! (k div 8)) (k mod 8)"
proof (induction bs arbitrary: k)
  case Nil
  show ?case by simp
next
  case (Cons b bs)
  show ?case
  proof (cases "k < 8")
    case True
    then show ?thesis by (auto simp: bit_simps)
  next
    case False
    then have "k = k - 8 + 8" by simp
    then obtain j where j: "k = j + 8" ..
    have "\<not> bit b (j + 8)" by (auto dest: bit_imp_le_length)
    moreover have "(j + 8) div 8 = Suc (j div 8)" by simp
    ultimately show ?thesis
      using Cons.IH [of j] by (auto simp: bit_simps j)
  qed
qed

lemma bit_nth_le_bytes:
  "i < n \<Longrightarrow> bit (le_bytes n w ! i) k \<longleftrightarrow> k < 8 \<and> bit w (8 * i + k)"
  by (auto simp: le_bytes_def bit_simps ac_simps dest: bit_imp_le_length)

lemma le_word_le_bytes:
  assumes "LENGTH('a) \<le> 8 * n"
  shows "le_word (le_bytes n w) = (w :: 'a::len word)"
proof (rule bit_word_eqI)
  fix k assume k: "k < LENGTH('a)"
  with assms have kn: "k div 8 < n" by auto
  show "bit (le_word (le_bytes n w) :: 'a word) k \<longleftrightarrow> bit w k"
    using k kn by (simp add: bit_le_word bit_nth_le_bytes)
qed

lemma le_bytes_le_word:
  assumes "length bs = n" and "8 * n \<le> LENGTH('a)"
  shows "le_bytes n (le_word bs :: 'a::len word) = bs"
proof (rule nth_equalityI)
  show "length (le_bytes n (le_word bs :: 'a word)) = length bs" using assms by simp
next
  fix i assume "i < length (le_bytes n (le_word bs :: 'a word))"
  then have i: "i < n" by simp
  show "le_bytes n (le_word bs :: 'a word) ! i = bs ! i"
  proof (rule bit_word_eqI)
    fix k assume "k < LENGTH(8)"
    then have "8 * i + k < LENGTH('a)" "k < 8" using i assms by simp_all
    then show "bit (le_bytes n (le_word bs :: 'a word) ! i) k \<longleftrightarrow> bit (bs ! i) k"
      using i assms by (simp add: bit_nth_le_bytes bit_le_word)
  qed
qed

lemma le_word_xor:
  assumes "length as = length bs"
  shows "(le_word (map2 (XOR) as bs) :: 'a::len word) = le_word as XOR le_word bs"
  using assms by (intro bit_word_eqI) (auto simp: bit_le_word bit_simps)

text \<open>A byte buffer read through a \<open>uint64_t *\<close>, and back.\<close>

fun u64s :: "nat \<Rightarrow> bytes \<Rightarrow> u64 list" where
  "u64s 0 bs = []"
| "u64s (Suc n) bs = le_word (take 8 bs) # u64s n (drop 8 bs)"

definition u64s_bytes :: "u64 list \<Rightarrow> bytes" where
  "u64s_bytes ws = concat (map (le_bytes 8) ws)"

lemma length_u64s [simp, afs_len]: "length (u64s n bs) = n"
  by (induction n arbitrary: bs) simp_all

lemma length_u64s_bytes [simp, afs_len]: "length (u64s_bytes ws) = 8 * length ws"
  by (induction ws) (simp_all add: u64s_bytes_def)

lemma u64s_u64s_bytes [simp]: "u64s (length ws) (u64s_bytes ws @ bs) = ws"
  by (induction ws) (simp_all add: u64s_bytes_def le_word_le_bytes)

lemma u64s_u64s_bytes' [simp]: "u64s (length ws) (u64s_bytes ws) = ws"
  using u64s_u64s_bytes [of ws "[]"] by simp

lemma u64s_bytes_u64s: "length bs = 8 * n \<Longrightarrow> u64s_bytes (u64s n bs) = bs"
proof (induction n arbitrary: bs)
  case 0
  then show ?case by (simp add: u64s_bytes_def)
next
  case (Suc n)
  then have "u64s_bytes (u64s n (drop 8 bs)) = drop 8 bs" by simp
  moreover have "le_bytes 8 (le_word (take 8 bs) :: u64) = take 8 bs"
    using Suc.prems by (intro le_bytes_le_word) auto
  ultimately show ?case by (simp add: u64s_bytes_def)
qed

lemma word_xor_eq_0: "a XOR b = 0 \<longleftrightarrow> a = (b :: 'a::len word)"
proof
  assume "a XOR b = 0"
  then have "(a XOR b) XOR b = b" by simp
  then show "a = b" by (simp add: xor.assoc)
qed simp

text \<open>Widening conversions keep the value.\<close>

lemma unat_ucast_up:
  "LENGTH('a) \<le> LENGTH('b) \<Longrightarrow> unat (ucast (w :: 'a::len word) :: 'b::len word) = unat w"
  by (simp add: unsigned_ucast_eq take_bit_nat_eq_self_iff
      less_le_trans [OF unsigned_less power_increasing])

lemma unat_ucast_u32: "unat (ucast (w :: u32) :: u64) = unat w"
  by (simp add: unat_ucast_up)

section \<open>The kernel services\<close>

text \<open>
  \<open>k_dev\<close> is the passive block device, byte by byte; \<open>k_io n\<close> says whether the \<open>n\<close>-th
  submitted bio succeeds; \<open>k_rand\<close> is the byte stream behind \<open>get_random_bytes\<close>;
  \<open>k_alloc n\<close> says whether the \<open>n\<close>-th allocation returns memory and \<open>k_junk n\<close> what that
  memory holds; \<open>k_sha1\<close>, \<open>k_sha256\<close> and \<open>k_sha512\<close> are the digests of the kernel
  crypto API.
\<close>

record kernel =
  k_dev :: "nat \<Rightarrow> u8"
  k_io :: "nat \<Rightarrow> bool"
  k_ios :: nat
  k_rand :: "nat \<Rightarrow> u8"
  k_rpos :: nat
  k_alloc :: "nat \<Rightarrow> bool"
  k_junk :: "nat \<Rightarrow> nat \<Rightarrow> u8"
  k_allocs :: nat
  k_sha1 :: "bytes \<Rightarrow> bytes"
  k_sha256 :: "bytes \<Rightarrow> bytes"
  k_sha512 :: "bytes \<Rightarrow> bytes"

text \<open>\<open>kmalloc\<close>, \<open>vmalloc\<close> and \<open>__get_free_page\<close>: \<open>None\<close> when there is no memory,
  otherwise a buffer with unspecified contents.\<close>

definition kmalloc :: "nat \<Rightarrow> kernel \<Rightarrow> bytes option \<times> kernel" where
  "kmalloc n k =
     (if k_alloc k (k_allocs k) then Some (map (k_junk k (k_allocs k)) [0..<n]) else None,
      k\<lparr>k_allocs := Suc (k_allocs k)\<rparr>)"

definition get_random_bytes :: "nat \<Rightarrow> kernel \<Rightarrow> bytes \<times> kernel" where
  "get_random_bytes n k =
     (map (\<lambda>i. k_rand k (k_rpos k + i)) [0..<n], k\<lparr>k_rpos := k_rpos k + n\<rparr>)"

text \<open>Named hypotheses on the services, used by the theorems that need them.\<close>

definition alloc_ok :: "kernel \<Rightarrow> bool" where
  "alloc_ok k \<longleftrightarrow> (\<forall>n. k_alloc k n)"

definition io_ok :: "kernel \<Rightarrow> bool" where
  "io_ok k \<longleftrightarrow> (\<forall>n. k_io k n)"

definition digests_ok :: "kernel \<Rightarrow> bool" where
  "digests_ok k \<longleftrightarrow> (\<forall>d. length (k_sha1 k d) = 20 \<and> length (k_sha256 k d) = 32
     \<and> length (k_sha512 k d) = 64)"

lemma length_get_random_bytes [simp, afs_len]: "length (fst (get_random_bytes n k)) = n"
  by (simp add: get_random_bytes_def)

lemma get_random_bytes_frame [simp, afs_frame]:
  "k_dev (snd (get_random_bytes n k)) = k_dev k"
  "k_io (snd (get_random_bytes n k)) = k_io k"
  "k_ios (snd (get_random_bytes n k)) = k_ios k"
  "k_rand (snd (get_random_bytes n k)) = k_rand k"
  "k_alloc (snd (get_random_bytes n k)) = k_alloc k"
  "k_rpos (snd (get_random_bytes n k)) = k_rpos k + n"
  by (simp_all add: get_random_bytes_def)

lemma kmalloc_frame [simp, afs_frame]:
  "k_dev (snd (kmalloc n k)) = k_dev k"
  "k_io (snd (kmalloc n k)) = k_io k"
  "k_rand (snd (kmalloc n k)) = k_rand k"
  "k_rpos (snd (kmalloc n k)) = k_rpos k"
  "k_alloc (snd (kmalloc n k)) = k_alloc k"
  by (simp_all add: kmalloc_def)

lemma kmalloc_ok: "alloc_ok k \<Longrightarrow> \<exists>b. fst (kmalloc n k) = Some b \<and> length b = n"
  by (simp add: kmalloc_def alloc_ok_def)

lemma kmalloc_length [afs_len]: "fst (kmalloc n k) = Some b \<Longrightarrow> length b = n"
  by (auto simp: kmalloc_def split: if_splits)

lemma kmalloc_Some: "kmalloc n k = (Some b, k') \<Longrightarrow> length b = n"
  by (auto simp: kmalloc_def split: if_splits)

lemma alloc_ok_tick [simp]: "alloc_ok (k\<lparr>k_allocs := n\<rparr>) = alloc_ok k"
  by (simp add: alloc_ok_def)

lemma kmalloc_alloc_ok:
  "alloc_ok k \<Longrightarrow> kmalloc n k =
     (Some (map (k_junk k (k_allocs k)) [0..<n]), k\<lparr>k_allocs := Suc (k_allocs k)\<rparr>)"
  by (simp add: kmalloc_def alloc_ok_def)

text \<open>A concrete kernel, on which the theorems about a run are exercised.\<close>

definition demo_kernel :: kernel where
  "demo_kernel = \<lparr>k_dev = (\<lambda>_. 0), k_io = (\<lambda>_. True), k_ios = 0,
     k_rand = (\<lambda>n. of_nat (n div 4)), k_rpos = 0, k_alloc = (\<lambda>_. True),
     k_junk = (\<lambda>_ _. 0), k_allocs = 0, k_sha1 = (\<lambda>_. replicate 20 0),
     k_sha256 = (\<lambda>_. replicate 32 0), k_sha512 = (\<lambda>_. replicate 64 0)\<rparr>"

text \<open>Error numbers, as the driver returns them.\<close>

definition ENOENT :: int where "ENOENT = 2"
definition EIO :: int where "EIO = 5"
definition ENXIO :: int where "ENXIO = 6"
definition ENOMEM :: int where "ENOMEM = 12"
definition EINVAL :: int where "EINVAL = 22"
definition ENOSPC :: int where "ENOSPC = 28"

lemmas errno_defs = ENOENT_def EIO_def ENXIO_def ENOMEM_def EINVAL_def ENOSPC_def

end
