(* ===== verification/Afs_Bit_Vector.thy ===== *)
theory Afs_Bit_Vector
  imports Afs_Prelude
begin

text \<open>
  The bit vector of \<open>src/src/lib/bit_vector.c\<close>: a byte array with one bit per block. A
  vector pointer is a \<open>bit_vector_t option\<close> (\<open>None\<close> is \<open>NULL\<close>); every operation returns
  its C status code next to the new vector. The operations are interpreted as an
  implementation of the interface \<open>bit_store\<close>, a finite set of indices.
\<close>

section \<open>The structure and its operations\<close>

record bit_vector_t =
  bv_array :: bytes
  bv_length :: u64

text \<open>The macros \<open>BIT_VECTOR_BITS_TO_BYTES\<close>, \<open>BIT_VECTOR_GET_BYTE_INDEX\<close> and
  \<open>BIT_VECTOR_GET_BIT_INDEX\<close>.\<close>

definition BIT_VECTOR_BITS_TO_BYTES :: "u64 \<Rightarrow> u64" where
  "BIT_VECTOR_BITS_TO_BYTES b = b div 8 + 1"

definition BIT_VECTOR_GET_BYTE_INDEX :: "u64 \<Rightarrow> nat" where
  "BIT_VECTOR_GET_BYTE_INDEX i = unat (i div 8)"

definition BIT_VECTOR_GET_BIT_INDEX :: "u64 \<Rightarrow> nat" where
  "BIT_VECTOR_GET_BIT_INDEX i = unat (i AND 7)"

text \<open>The kernel's \<open>set_bit\<close>, \<open>clear_bit\<close> and \<open>test_bit\<close> on a little-endian machine: bit
  \<open>i\<close> of the array is bit \<open>i mod 8\<close> of byte \<open>i div 8\<close>.\<close>

definition set_bit_at :: "u64 \<Rightarrow> bytes \<Rightarrow> bytes" where
  "set_bit_at i a =
     a[BIT_VECTOR_GET_BYTE_INDEX i :=
         set_bit (BIT_VECTOR_GET_BIT_INDEX i) (a ! BIT_VECTOR_GET_BYTE_INDEX i)]"

definition clear_bit_at :: "u64 \<Rightarrow> bytes \<Rightarrow> bytes" where
  "clear_bit_at i a =
     a[BIT_VECTOR_GET_BYTE_INDEX i :=
         unset_bit (BIT_VECTOR_GET_BIT_INDEX i) (a ! BIT_VECTOR_GET_BYTE_INDEX i)]"

definition test_bit_at :: "u64 \<Rightarrow> bytes \<Rightarrow> bool" where
  "test_bit_at i a = bit (a ! BIT_VECTOR_GET_BYTE_INDEX i) (BIT_VECTOR_GET_BIT_INDEX i)"

definition bit_vector_create :: "u64 \<Rightarrow> kernel \<Rightarrow> bit_vector_t option \<times> kernel" where
  "bit_vector_create len k =
     (let (vector, k) = kmalloc 24 k in
      case vector of
        None \<Rightarrow> (None, k)
      | Some _ \<Rightarrow>
          (let (array, k) = kmalloc (unat (BIT_VECTOR_BITS_TO_BYTES len)) k in
           case array of
             None \<Rightarrow> (None, k)
           | Some a \<Rightarrow>
               (Some \<lparr>bv_array = replicate (unat (BIT_VECTOR_BITS_TO_BYTES len)) 0,
                      bv_length = len\<rparr>, k)))"

definition bit_vector_set :: "bit_vector_t option \<Rightarrow> u64 \<Rightarrow> int \<times> bit_vector_t option" where
  "bit_vector_set vector index =
     (case vector of
        None \<Rightarrow> (- EINVAL, None)
      | Some v \<Rightarrow>
          if index > bv_length v then (- EINVAL, Some v)
          else (0, Some (v\<lparr>bv_array := set_bit_at index (bv_array v)\<rparr>)))"

definition bit_vector_clear :: "bit_vector_t option \<Rightarrow> u64 \<Rightarrow> int \<times> bit_vector_t option" where
  "bit_vector_clear vector index =
     (case vector of
        None \<Rightarrow> (- EINVAL, None)
      | Some v \<Rightarrow>
          if index > bv_length v then (- EINVAL, Some v)
          else (0, Some (v\<lparr>bv_array := clear_bit_at index (bv_array v)\<rparr>)))"

definition bit_vector_get :: "bit_vector_t option \<Rightarrow> u64 \<Rightarrow> int" where
  "bit_vector_get vector index =
     (case vector of
        None \<Rightarrow> - EINVAL
      | Some v \<Rightarrow>
          if index > bv_length v then - EINVAL
          else if test_bit_at index (bv_array v) then 1 else 0)"

section \<open>Memory safety and the set interface\<close>

text \<open>The invariant \<open>bit_vector_create\<close> establishes: the array has one byte more than
  \<open>length / 8\<close>, and the length is far from the end of the 64-bit range.\<close>

definition bv_wf :: "bit_vector_t \<Rightarrow> bool" where
  "bv_wf v \<longleftrightarrow> length (bv_array v) = unat (bv_length v) div 8 + 1"

definition bv_ok :: "bit_vector_t option \<Rightarrow> bool" where
  "bv_ok vector \<longleftrightarrow> (case vector of None \<Rightarrow> False | Some v \<Rightarrow> bv_wf v)"

definition bv_accepts :: "bit_vector_t option \<Rightarrow> u64 \<Rightarrow> bool" where
  "bv_accepts vector i \<longleftrightarrow> (case vector of None \<Rightarrow> False | Some v \<Rightarrow> i \<le> bv_length v)"

lemma byte_index_eq: "BIT_VECTOR_GET_BYTE_INDEX i = unat i div 8"
  by (simp add: BIT_VECTOR_GET_BYTE_INDEX_def unat_div)

lemma bit_index_eq: "BIT_VECTOR_GET_BIT_INDEX i = unat i mod 8"
proof -
  have "unat (i AND 7) = unat (take_bit 3 i)"
    by (simp add: take_bit_eq_mask mask_eq_exp_minus_1)
  also have "\<dots> = unat i mod 8"
    by (simp add: take_bit_eq_mod unat_mod)
  finally show ?thesis by (simp add: BIT_VECTOR_GET_BIT_INDEX_def)
qed

lemmas bit_at_defs = set_bit_at_def clear_bit_at_def test_bit_at_def byte_index_eq bit_index_eq

lemma bit_index_eqI: "unat i div 8 = unat j div 8 \<Longrightarrow> unat i mod 8 = unat j mod 8 \<Longrightarrow> i = (j :: u64)"
  by (metis div_mult_mod_eq unsigned_word_eqI)

lemma test_set_bit_at:
  assumes "unat i div 8 < length a"
  shows "test_bit_at j (set_bit_at i a) \<longleftrightarrow> i = j \<or> test_bit_at j a"
  using assms by (auto simp: bit_at_defs nth_list_update bit_set_bit_iff dest: bit_index_eqI)

lemma test_clear_bit_at:
  assumes "unat i div 8 < length a"
  shows "test_bit_at j (clear_bit_at i a) \<longleftrightarrow> i \<noteq> j \<and> test_bit_at j a"
  using assms by (auto simp: bit_at_defs nth_list_update bit_unset_bit_iff dest: bit_index_eqI)

lemma length_bit_at [simp, afs_len]:
  "length (set_bit_at i a) = length a" "length (clear_bit_at i a) = length a"
  by (simp_all add: set_bit_at_def clear_bit_at_def)

lemma bv_accepts_in_array:
  assumes "bv_wf v" and "i \<le> bv_length v"
  shows "unat i div 8 < length (bv_array v)"
  using assms by (auto simp: bv_wf_def word_le_nat_alt intro: div_le_mono less_Suc_eq_le [THEN iffD2])

text \<open>What a client may rely on: a set of indices with lookup, insertion and removal.\<close>

locale bit_store =
  fixes member :: "'v \<Rightarrow> 'i \<Rightarrow> bool"
    and enter :: "'v \<Rightarrow> 'i \<Rightarrow> 'v"
    and leave :: "'v \<Rightarrow> 'i \<Rightarrow> 'v"
    and accepts :: "'v \<Rightarrow> 'i \<Rightarrow> bool"
    and invar :: "'v \<Rightarrow> bool"
  assumes member_enter: "invar v \<Longrightarrow> accepts v i \<Longrightarrow> accepts v j \<Longrightarrow>
      member (enter v i) j \<longleftrightarrow> i = j \<or> member v j"
    and member_leave: "invar v \<Longrightarrow> accepts v i \<Longrightarrow> accepts v j \<Longrightarrow>
      member (leave v i) j \<longleftrightarrow> i \<noteq> j \<and> member v j"
    and accepts_enter: "accepts (enter v i) j \<longleftrightarrow> accepts v j"
    and accepts_leave: "accepts (leave v i) j \<longleftrightarrow> accepts v j"
    and invar_enter: "invar v \<Longrightarrow> invar (enter v i)"
    and invar_leave: "invar v \<Longrightarrow> invar (leave v i)"
    and enter_rejected: "\<not> accepts v i \<Longrightarrow> enter v i = v"
begin

text \<open>Entering a whole list of indices, as the mount path does for every carrier block.\<close>

lemma invar_foldl_enter: "invar v \<Longrightarrow> invar (foldl enter v is)"
  by (induction "is" arbitrary: v) (auto intro: invar_enter)

lemma accepts_foldl_enter: "accepts (foldl enter v is) j \<longleftrightarrow> accepts v j"
  by (induction "is" arbitrary: v) (auto simp: accepts_enter)

lemma member_foldl_enter:
  assumes "invar v" and "accepts v j"
  shows "member (foldl enter v is) j \<longleftrightarrow> j \<in> set is \<or> member v j"
  using assms
proof (induction "is" arbitrary: v)
  case Nil
  then show ?case by simp
next
  case (Cons i "is")
  have step: "member (enter v i) j \<longleftrightarrow> i = j \<or> member v j"
  proof (cases "accepts v i")
    case True
    with Cons.prems show ?thesis by (simp add: member_enter)
  next
    case False
    with Cons.prems show ?thesis by (auto simp: enter_rejected)
  qed
  have "member (foldl enter (enter v i) is) j \<longleftrightarrow> j \<in> set is \<or> member (enter v i) j"
    using Cons.prems by (intro Cons.IH) (auto simp: accepts_enter intro: invar_enter)
  with step show ?case by auto
qed

lemma leave_enter_restores:
  assumes "invar v" "accepts v i" "accepts v j" "\<not> member v i"
  shows "member (leave (enter v i) i) j \<longleftrightarrow> member v j"
  using assms by (auto simp: member_leave member_enter accepts_enter invar_enter)

end

lemma bit_vector_get_member:
  "bv_accepts v i \<Longrightarrow> bit_vector_get v i = 1 \<longleftrightarrow> test_bit_at i (bv_array (the v))"
  by (auto simp: bit_vector_get_def bv_accepts_def split: option.splits)

interpretation bv: bit_store
  "\<lambda>v i. bit_vector_get v i = 1" "\<lambda>v i. snd (bit_vector_set v i)"
  "\<lambda>v i. snd (bit_vector_clear v i)" bv_accepts bv_ok
proof (unfold_locales, goal_cases)
  case (1 v i j)
  then show ?case
    by (auto simp: bv_ok_def bv_accepts_def bit_vector_set_def bit_vector_get_def not_less
        bv_accepts_in_array test_set_bit_at split: option.splits)
next
  case (2 v i j)
  then show ?case
    by (auto simp: bv_ok_def bv_accepts_def bit_vector_clear_def bit_vector_get_def not_less
        bv_accepts_in_array test_clear_bit_at split: option.splits)
qed (auto simp: bv_ok_def bv_accepts_def bv_wf_def bit_vector_set_def bit_vector_clear_def
    not_le split: option.splits if_splits)

section \<open>Properties\<close>

lemma bits_to_bytes: "unat (BIT_VECTOR_BITS_TO_BYTES len) = unat len div 8 + 1"
proof -
  have "unat (len div 8) < 2 ^ 61"
    using unsigned_less [of len, where ?'a = nat] by (simp add: unat_div less_mult_imp_div_less)
  then show ?thesis
    by (simp add: BIT_VECTOR_BITS_TO_BYTES_def unat_div unat_word_ariths)
qed

lemma bit_vector_create_result:
  assumes "fst (bit_vector_create len k) = Some v"
  shows "bv_wf v" and "bv_length v = len" and "bv_array v = replicate (unat len div 8 + 1) 0"
  using assms
  by (auto simp: bit_vector_create_def bits_to_bytes bv_wf_def split: option.splits prod.splits)

lemma bit_vector_create_empty:
  assumes "fst (bit_vector_create len k) = Some v" and "i \<le> len"
  shows "bit_vector_get (Some v) i = 0"
proof -
  have "unat i div 8 < unat len div 8 + 1"
    using assms(2) by (simp add: word_le_nat_alt div_le_mono less_Suc_eq_le)
  then show ?thesis
    using assms(2) bit_vector_create_result [OF assms(1)]
    by (auto simp: bit_vector_get_def test_bit_at_def byte_index_eq dest: leD simp del: replicate_Suc)
qed

end
