(* ===== verification/Afs_Allocation.thy ===== *)
theory Afs_Allocation
  imports Afs_Bit_Vector
begin

text \<open>
  Block allocation, \<open>src/src/dm_afs_allocation.c\<close> and the structures of
  \<open>src/include/dm_afs_modules.h\<close>. The allocation vector is a bit vector over indices into
  the free list of the passive file system; \<open>acquire_block\<close> draws random indices until it
  finds a clear bit or draws its first index again. It is a
  \<^theory_text>\<open>partial_function\<close>: \<open>None\<close> stands for a call that never returns or that faults
  (a free list of length 0, an index beyond the list).
\<close>

section \<open>Structures\<close>

record afs_passive_fs =
  block_list :: "u32 list"
  list_len :: u32
  sectors_per_block :: u8
  total_blocks :: u32
  data_start_off :: u32
  blocks_in_tuple :: u8

type_synonym afs_allocation_vector = "bit_vector_t option"

definition AFS_INVALID_BLOCK :: u32 where
  "AFS_INVALID_BLOCK = 0xFFFFFFFF"

section \<open>Operations\<close>

definition random_block_index :: "afs_passive_fs \<Rightarrow> kernel \<Rightarrow> (u32 \<times> kernel) option" where
  "random_block_index fs k =
     (let (raw, k) = get_random_bytes 4 k;
          block_num = le_word raw :: u32
      in if list_len fs = 0 then None else Some (block_num mod list_len fs, k))"

definition allocation_get :: "afs_allocation_vector \<Rightarrow> u32 \<Rightarrow> u8" where
  "allocation_get vector index =
     (let ret = bit_vector_get vector (ucast index);
          ret = (if ret < 0 then 0 else ret)
      in if ret \<noteq> 0 then 1 else 0)"

definition allocation_set ::
  "afs_allocation_vector \<Rightarrow> u32 \<Rightarrow> bool \<times> afs_allocation_vector" where
  "allocation_set vector index =
     (if allocation_get vector index \<noteq> 0 then (False, vector)
      else (let (ret, vector) = bit_vector_set vector (ucast index)
            in if ret \<noteq> 0 then (False, vector) else (True, vector)))"

definition allocation_free ::
  "afs_allocation_vector \<Rightarrow> u32 \<Rightarrow> afs_allocation_vector" where
  "allocation_free vector index = snd (bit_vector_clear vector (ucast index))"

definition block_list_at :: "afs_passive_fs \<Rightarrow> u32 \<Rightarrow> u32 option" where
  "block_list_at fs i =
     (if unat i < length (block_list fs) then Some (block_list fs ! unat i) else None)"

partial_function (option) acquire_loop ::
  "afs_passive_fs \<Rightarrow> u32 \<Rightarrow> u32 \<Rightarrow> afs_allocation_vector \<Rightarrow> kernel \<Rightarrow>
   (u32 \<times> afs_allocation_vector \<times> kernel) option" where
  "acquire_loop fs current_num block_num vector k =
     (case allocation_set vector block_num of (ok, vector') \<Rightarrow>
        if ok then
          (case block_list_at fs block_num of
             None \<Rightarrow> None
           | Some ret \<Rightarrow> Some (ret, vector', k))
        else
          (case random_block_index fs k of
             None \<Rightarrow> None
           | Some (block_num', k') \<Rightarrow>
               if block_num' \<noteq> current_num
               then acquire_loop fs current_num block_num' vector' k'
               else Some (AFS_INVALID_BLOCK, vector', k')))"

declare acquire_loop.simps [code]

definition acquire_block ::
  "afs_passive_fs \<Rightarrow> afs_allocation_vector \<Rightarrow> kernel \<Rightarrow>
   (u32 \<times> afs_allocation_vector \<times> kernel) option" where
  "acquire_block fs vector k =
     (case random_block_index fs k of
        None \<Rightarrow> None
      | Some (block_num, k) \<Rightarrow> acquire_loop fs block_num block_num vector k)"

section \<open>The allocation vector as a set of indices\<close>

definition taken :: "afs_allocation_vector \<Rightarrow> u32 \<Rightarrow> bool" where
  "taken vector i \<longleftrightarrow> allocation_get vector i = 1"

definition vec_accepts :: "afs_allocation_vector \<Rightarrow> u32 \<Rightarrow> bool" where
  "vec_accepts vector i \<longleftrightarrow> bv_accepts vector (ucast i)"

lemma ucast_u32_u64_eq [simp]: "(ucast (i :: u32) :: u64) = ucast j \<longleftrightarrow> i = j"
proof
  assume "(ucast i :: u64) = ucast j"
  then have "unat (ucast i :: u64) = unat (ucast j :: u64)" by simp
  then show "i = j" by (auto simp: unat_ucast_u32 intro: unsigned_word_eqI)
qed simp

lemma allocation_get_01: "allocation_get v i = 0 \<or> allocation_get v i = 1"
  by (simp add: allocation_get_def Let_def)

lemma taken_iff: "taken v i \<longleftrightarrow> bit_vector_get v (ucast i) = 1"
  by (auto simp: taken_def allocation_get_def bit_vector_get_def errno_defs split: option.splits)

lemma not_taken_iff: "allocation_get v i \<noteq> 0 \<longleftrightarrow> taken v i"
  using allocation_get_01 [of v i] by (auto simp: taken_def)

lemma allocation_set_eq:
  "allocation_set v i =
     (if taken v i \<or> \<not> vec_accepts v i then (False, v)
      else (True, snd (bit_vector_set v (ucast i))))"
proof (cases "taken v i")
  case True
  then show ?thesis by (simp add: allocation_set_def not_taken_iff)
next
  case False
  then show ?thesis
    by (auto simp: allocation_set_def not_taken_iff vec_accepts_def bv_accepts_def
        bit_vector_set_def errno_defs not_le split: option.splits)
qed

interpretation av: bit_store taken "\<lambda>v i. snd (allocation_set v i)" allocation_free
  vec_accepts bv_ok
proof (unfold_locales, goal_cases)
  case (1 v i j)
  then show ?case
    by (auto simp: allocation_set_eq vec_accepts_def taken_iff bv.member_enter)
next
  case (2 v i j)
  then show ?case
    by (auto simp: allocation_free_def vec_accepts_def taken_iff bv.member_leave)
next
  case (3 v i j)
  then show ?case by (simp add: allocation_set_eq vec_accepts_def bv.accepts_enter)
next
  case (4 v i j)
  then show ?case by (simp add: allocation_free_def vec_accepts_def bv.accepts_leave)
next
  case (5 v i)
  then show ?case by (simp add: allocation_set_eq bv.invar_enter)
next
  case (6 v i)
  then show ?case by (simp add: allocation_free_def bv.invar_leave)
next
  case (7 v i)
  then show ?case by (simp add: allocation_set_eq)
qed

section \<open>What acquire_block does\<close>

text \<open>A usable free list: not empty, no longer than its array, and every index of it fits
  the allocation vector.\<close>

definition fs_wf :: "afs_passive_fs \<Rightarrow> bool" where
  "fs_wf fs \<longleftrightarrow> list_len fs \<noteq> 0 \<and> unat (list_len fs) \<le> length (block_list fs)"

definition vec_covers :: "afs_allocation_vector \<Rightarrow> afs_passive_fs \<Rightarrow> bool" where
  "vec_covers v fs \<longleftrightarrow> bv_ok v \<and> (\<forall>i < list_len fs. vec_accepts v i)"

text \<open>The \<open>n\<close>-th index that \<open>random_block_index\<close> draws from a kernel state.\<close>

definition draw :: "afs_passive_fs \<Rightarrow> kernel \<Rightarrow> nat \<Rightarrow> u32" where
  "draw fs k n =
     le_word (map (\<lambda>i. k_rand k (k_rpos k + 4 * n + i)) [0..<4]) mod list_len fs"

definition after_draws :: "nat \<Rightarrow> kernel \<Rightarrow> kernel" where
  "after_draws n k = k\<lparr>k_rpos := k_rpos k + 4 * n\<rparr>"

lemma random_block_index_draw:
  "list_len fs \<noteq> 0 \<Longrightarrow> random_block_index fs k = Some (draw fs k 0, after_draws 1 k)"
  by (simp add: random_block_index_def get_random_bytes_def draw_def after_draws_def)

lemma draw_after [simp]: "draw fs (after_draws m k) n = draw fs k (m + n)"
  by (simp add: draw_def after_draws_def algebra_simps)

lemma draw_less: "list_len fs \<noteq> 0 \<Longrightarrow> draw fs k n < list_len fs"
  by (simp add: draw_def word_mod_less_divisor word_gt_0)

definition acquire_spec ::
  "afs_passive_fs \<Rightarrow> afs_allocation_vector \<Rightarrow> u32 \<Rightarrow> afs_allocation_vector \<Rightarrow> bool" where
  "acquire_spec fs v b v' \<longleftrightarrow>
     (\<exists>i. \<not> taken v i \<and> vec_accepts v i \<and> block_list_at fs i = Some b
        \<and> v' = snd (allocation_set v i))
     \<or> b = AFS_INVALID_BLOCK \<and> v' = v"

lemma acquire_spec_invalid [simp]: "acquire_spec fs v AFS_INVALID_BLOCK v"
  by (simp add: acquire_spec_def)

lemma acquire_loop_outcome:
  assumes "acquire_loop fs c bn v k = Some r"
  shows "acquire_spec fs v (fst r) (fst (snd r))"
proof (rule acquire_loop.raw_induct [where P = "\<lambda>fs c bn v k r.
    acquire_spec fs v (fst r) (fst (snd r))", OF _ assms])
  fix loop fs c bn v k r
  assume IH: "\<And>fs c bn v k r. loop fs c bn v k = Some r \<Longrightarrow>
      acquire_spec fs v (fst r) (fst (snd r))"
    and eq: "(case allocation_set v bn of (ok, vector') \<Rightarrow>
        if ok then
          (case block_list_at fs bn of
             None \<Rightarrow> None
           | Some ret \<Rightarrow> Some (ret, vector', k))
        else
          (case random_block_index fs k of
             None \<Rightarrow> None
           | Some (block_num', k') \<Rightarrow>
               if block_num' \<noteq> c
               then loop fs c block_num' vector' k'
               else Some (AFS_INVALID_BLOCK, vector', k'))) = Some r"
  show "acquire_spec fs v (fst r) (fst (snd r))"
  proof (cases "taken v bn \<or> \<not> vec_accepts v bn")
    case True
    then have "allocation_set v bn = (False, v)" by (simp add: allocation_set_eq)
    with eq show ?thesis
      by (auto split: option.splits prod.splits if_splits dest: IH)
  next
    case False
    then have "allocation_set v bn = (True, snd (allocation_set v bn))"
      by (simp add: allocation_set_eq)
    with eq False show ?thesis
      by (auto split: option.splits prod.splits simp: acquire_spec_def)
  qed
qed

lemma acquire_block_outcome:
  assumes "acquire_block fs v k = Some (b, v', k')"
  shows "acquire_spec fs v b v'"
  using assms acquire_loop_outcome
  by (fastforce simp: acquire_block_def split: option.splits prod.splits)

text \<open>Enough randomness gives a result: as soon as some draw is a free index, or repeats the
  first one, the loop stops.\<close>

lemma acquire_loop_returns:
  assumes "fs_wf fs" and "vec_covers v fs"
    and "bn < list_len fs"
    and "\<not> taken v (draw fs k n) \<or> draw fs k n = c"
  shows "\<exists>r. acquire_loop fs c bn v k = Some r"
  using assms(3,4)
proof (induction n arbitrary: bn k)
  case 0
  then show ?case
    using assms(1,2) draw_less [of fs k 0]
    by (subst acquire_loop.simps, subst acquire_loop.simps)
      (auto simp: allocation_set_eq fs_wf_def vec_covers_def block_list_at_def word_less_nat_alt
        random_block_index_draw split: option.splits)
next
  case (Suc n)
  let ?k = "after_draws 1 k"
  have ne: "list_len fs \<noteq> 0" using assms(1) by (simp add: fs_wf_def)
  have "\<exists>r. acquire_loop fs c (draw fs k 0) v ?k = Some r"
    using Suc.prems(2) draw_less [OF ne] by (intro Suc.IH) simp_all
  then show ?case
    using Suc.prems(1) assms(1,2)
    by (subst acquire_loop.simps)
      (auto simp: allocation_set_eq fs_wf_def vec_covers_def block_list_at_def word_less_nat_alt
        random_block_index_draw)
qed

lemma acquire_block_returns:
  assumes "fs_wf fs" and "vec_covers v fs"
    and "\<not> taken v (draw fs k (Suc n)) \<or> draw fs k (Suc n) = draw fs k 0"
  shows "\<exists>r. acquire_block fs v k = Some r"
proof -
  have ne: "list_len fs \<noteq> 0" using assms(1) by (simp add: fs_wf_def)
  have "\<exists>r. acquire_loop fs (draw fs k 0) (draw fs k 0) v (after_draws 1 k) = Some r"
    using assms draw_less [OF ne] by (intro acquire_loop_returns [where n = n]) simp_all
  then show ?thesis by (simp add: acquire_block_def random_block_index_draw [OF ne])
qed

text \<open>Acquiring keeps the vector well formed, never frees an index, and takes at most one.\<close>

lemma acquire_spec_keeps:
  assumes "acquire_spec fs v b v'" and "bv_ok v"
  shows "bv_ok v'" and "vec_accepts v' j = vec_accepts v j"
    and "vec_accepts v j \<Longrightarrow> taken v j \<Longrightarrow> taken v' j"
  using assms by (auto simp: acquire_spec_def av.invar_enter av.accepts_enter av.member_enter)

lemma acquire_spec_fresh:
  assumes "acquire_spec fs v b v'" and "bv_ok v" and "b \<noteq> AFS_INVALID_BLOCK"
  obtains i where "block_list_at fs i = Some b" "vec_accepts v i" "\<not> taken v i" "taken v' i"
    "\<And>j. vec_accepts v j \<Longrightarrow> j \<noteq> i \<Longrightarrow> taken v' j = taken v j"
  using assms by (auto simp: acquire_spec_def av.member_enter)

text \<open>Acquiring a block consumes random bytes and nothing else of the kernel.\<close>

lemma acquire_loop_kernel:
  assumes "acquire_loop fs c bn v k = Some r"
  shows "\<exists>n. snd (snd r) = k\<lparr>k_rpos := n\<rparr>"
proof (rule acquire_loop.raw_induct [where P = "\<lambda>fs c bn v k r. \<exists>n. snd (snd r) = k\<lparr>k_rpos := n\<rparr>", OF _ assms])
  fix loop fs c bn v k r
  assume IH: "\<And>fs c bn v k r. loop fs c bn v k = Some r \<Longrightarrow> \<exists>n. snd (snd r) = k\<lparr>k_rpos := n\<rparr>"
    and eq: "(case allocation_set v bn of (ok, vector') \<Rightarrow>
        if ok then
          (case block_list_at fs bn of
             None \<Rightarrow> None
           | Some ret \<Rightarrow> Some (ret, vector', k))
        else
          (case random_block_index fs k of
             None \<Rightarrow> None
           | Some (block_num', k') \<Rightarrow>
               if block_num' \<noteq> c
               then loop fs c block_num' vector' k'
               else Some (AFS_INVALID_BLOCK, vector', k'))) = Some r"
  obtain ok v' where set: "allocation_set v bn = (ok, v')" by fastforce
  show "\<exists>n. snd (snd r) = k\<lparr>k_rpos := n\<rparr>"
  proof (cases ok)
    case True
    then have "snd (snd r) = k\<lparr>k_rpos := k_rpos k\<rparr>" using eq set by (auto split: option.splits)
    then show ?thesis by blast
  next
    case False
    then obtain b k1 where draw: "random_block_index fs k = Some (b, k1)" using eq set by (auto split: option.splits)
    then obtain n where n: "k1 = k\<lparr>k_rpos := n\<rparr>"
      by (auto simp: random_block_index_def get_random_bytes_def split: if_splits)
    show ?thesis
    proof (cases "b = c")
      case True
      then have "snd (snd r) = k1" using eq set False draw by auto
      then show ?thesis using n by blast
    next
      case False
      then have "loop fs c b v' k1 = Some r" using eq set \<open>\<not> ok\<close> draw by simp
      then show ?thesis using IH n by fastforce
    qed
  qed
qed

lemma acquire_block_kernel:
  assumes "acquire_block fs v k = Some (b, v', k')"
  shows "\<exists>n. k' = k\<lparr>k_rpos := n\<rparr>"
proof -
  obtain bn k1 where r: "random_block_index fs k = Some (bn, k1)" and l: "acquire_loop fs bn bn v k1 = Some (b, v', k')"
    using assms by (auto simp: acquire_block_def split: option.splits)
  have "\<exists>n. k1 = k\<lparr>k_rpos := n\<rparr>"
    using r by (auto simp: random_block_index_def get_random_bytes_def split: if_splits)
  then show ?thesis using acquire_loop_kernel [OF l] by auto
qed

section \<open>Properties\<close>

text \<open>C12: a block that \<open>acquire_block\<close> hands out is an entry of the free list whose bit was
  clear; exactly that bit is set afterwards and every other bit is unchanged.\<close>

theorem acquire_block_takes_one:
  assumes "acquire_block fs v k = Some (b, v', k')" and "bv_ok v" and "b \<noteq> AFS_INVALID_BLOCK"
  shows "\<exists>i. block_list_at fs i = Some b \<and> \<not> taken v i \<and> taken v' i
           \<and> (\<forall>j. vec_accepts v j \<and> j \<noteq> i \<longrightarrow> taken v' j = taken v j)"
proof -
  have "acquire_spec fs v b v'" using assms(1) by (rule acquire_block_outcome)
  then show ?thesis using assms(2,3) by (rule acquire_spec_fresh) blast
qed

definition demo_fs :: afs_passive_fs where
  "demo_fs = \<lparr>block_list = [7, 9, 12], list_len = 3, sectors_per_block = 8,
     total_blocks = 16, data_start_off = 0, blocks_in_tuple = 0\<rparr>"

definition demo_vec :: afs_allocation_vector where
  "demo_vec = Some \<lparr>bv_array = [1], bv_length = 4\<rparr>"

theorem acquire_block_takes_one_witness:
  "\<exists>i. block_list_at demo_fs i = Some 9 \<and> \<not> taken demo_vec i
     \<and> taken (Some \<lparr>bv_array = [3], bv_length = 4\<rparr>) i
     \<and> (\<forall>j. vec_accepts demo_vec j \<and> j \<noteq> i \<longrightarrow>
           taken (Some \<lparr>bv_array = [3], bv_length = 4\<rparr>) j = taken demo_vec j)"
proof -
  have "map_option (\<lambda>(b, v, k). (b, v)) (acquire_block demo_fs demo_vec demo_kernel) =
      Some (9, Some \<lparr>bv_array = [3], bv_length = 4\<rparr>)"
    by code_simp
  then obtain k' where run: "acquire_block demo_fs demo_vec demo_kernel =
      Some (9, Some \<lparr>bv_array = [3], bv_length = 4\<rparr>, k')"
    by (auto split: prod.splits)
  show ?thesis
    using acquire_block_takes_one [OF run]
    by (simp add: demo_vec_def bv_ok_def bv_wf_def AFS_INVALID_BLOCK_def)
qed

text \<open>C18: with a usable free list, \<open>acquire_block\<close> returns as soon as the random stream
  offers a free index or repeats its first draw.\<close>

theorem acquire_block_terminates:
  assumes "fs_wf fs" and "vec_covers v fs"
    and "\<exists>n. \<not> taken v (draw fs k (Suc n)) \<or> draw fs k (Suc n) = draw fs k 0"
  shows "acquire_block fs v k \<noteq> None"
  using acquire_block_returns [OF assms(1,2)] assms(3) by blast

theorem acquire_block_terminates_witness:
  "acquire_block demo_fs demo_vec demo_kernel \<noteq> None"
proof (rule acquire_block_terminates)
  show "fs_wf demo_fs" by (simp add: fs_wf_def demo_fs_def)
  have "vec_accepts demo_vec i" if "i < 3" for i
    using that by (simp add: vec_accepts_def bv_accepts_def demo_vec_def word_le_nat_alt
        word_less_nat_alt unat_ucast_u32)
  then show "vec_covers demo_vec demo_fs"
    by (simp add: vec_covers_def bv_ok_def bv_wf_def demo_vec_def demo_fs_def)
  have "\<not> taken demo_vec (draw demo_fs demo_kernel (Suc 0))" by code_simp
  then show "\<exists>n. \<not> taken demo_vec (draw demo_fs demo_kernel (Suc n))
      \<or> draw demo_fs demo_kernel (Suc n) = draw demo_fs demo_kernel 0" by blast
qed

text \<open>\<open>acquire_block\<close> can report that there is no free block while free blocks remain:
  when the first index it draws is taken and is drawn again next, the call returns
  \<open>AFS_INVALID_BLOCK\<close>, whatever the other bits say.\<close>

theorem acquire_block_gives_up_early:
  assumes "list_len fs \<noteq> 0" and "taken v (draw fs k 0)" and "draw fs k 1 = draw fs k 0"
  shows "acquire_block fs v k = Some (AFS_INVALID_BLOCK, v, after_draws 2 k)"
proof -
  have "after_draws 1 (after_draws 1 k) = after_draws 2 k" by (simp add: after_draws_def)
  then show ?thesis
    using assms
    by (simp add: acquire_block_def random_block_index_draw acquire_loop.simps allocation_set_eq)
qed

theorem acquire_block_gives_up_early_witness:
  "\<not> taken demo_vec 1 \<and>
   acquire_block demo_fs demo_vec (demo_kernel\<lparr>k_rand := \<lambda>_. 0\<rparr>) =
     Some (AFS_INVALID_BLOCK, demo_vec, after_draws 2 (demo_kernel\<lparr>k_rand := \<lambda>_. 0\<rparr>))"
proof
  show "\<not> taken demo_vec 1" by code_simp
  show "acquire_block demo_fs demo_vec (demo_kernel\<lparr>k_rand := \<lambda>_. 0\<rparr>) =
     Some (AFS_INVALID_BLOCK, demo_vec, after_draws 2 (demo_kernel\<lparr>k_rand := \<lambda>_. 0\<rparr>))"
    by (rule acquire_block_gives_up_early) (simp add: demo_fs_def, code_simp, code_simp)
qed

end
