(* ===== verification/Afs_GF.thy ===== *)
theory Afs_GF
  imports Afs_Prelude
begin

text \<open>
  The field GF(256) behind both coding libraries. Both libraries multiply through tables of
  logarithms and exponentials of the generator 2; they differ in the reduction polynomial
  (\<open>0x11d\<close> in \<open>src/src/lib/libgfshare.c\<close>, \<open>0x14d\<close> in \<open>src/src/lib/cauchy_rs.c\<close>).
  The locale \<open>gf_tables\<close> says what a pair of tables must satisfy and derives the field
  laws from it; the libraries' theories interpret it on their own tables.
\<close>

section \<open>Multiplication by the generator\<close>

definition xtime :: "u8 \<Rightarrow> u8 \<Rightarrow> u8" where
  "xtime p a = push_bit 1 a XOR (if bit a 7 then p else 0)"

lemma xtime_0 [simp]: "xtime p 0 = 0"
  by (simp add: xtime_def)

lemma xtime_xor: "xtime p (a XOR b) = xtime p a XOR xtime p b"
  by (simp add: xtime_def push_bit_xor bit_simps xor.assoc xor.left_commute)

lemma xtime_pow_0 [simp]: "(xtime p ^^ n) 0 = 0"
  by (induction n) simp_all

lemma xtime_pow_xor: "(xtime p ^^ n) (a XOR b) = (xtime p ^^ n) a XOR (xtime p ^^ n) b"
  by (induction n) (simp_all add: xtime_xor)

lemma xtime_pow_inj_1:
  assumes "bit p 0" and "xtime p a = 0"
  shows "a = 0"
proof (cases "bit a 7")
  case True
  moreover have "\<not> bit (push_bit 1 a) 0" by (simp only: bit_push_bit_iff) simp
  ultimately have "bit (xtime p a) 0" using assms(1) by (simp add: xtime_def bit_xor_iff)
  then show ?thesis using assms(2) by simp
next
  case False
  have "\<not> bit a n" for n
  proof (cases "n < 7")
    case True
    then have "bit (push_bit 1 a) (Suc n) = bit a n" by (simp only: bit_push_bit_iff) simp
    then have "bit (xtime p a) (Suc n) = bit a n" using False by (simp add: xtime_def bit_xor_iff)
    then show ?thesis using assms(2) by simp
  next
    case False': False
    then show ?thesis using False bit_imp_le_length [of a n] by (cases "n = 7") auto
  qed
  then show ?thesis by (intro bit_word_eqI) simp
qed

lemma xtime_pow_inj: "bit p 0 \<Longrightarrow> (xtime p ^^ n) a = (xtime p ^^ n) b \<longleftrightarrow> a = b"
proof
  assume p: "bit p 0" and eq: "(xtime p ^^ n) a = (xtime p ^^ n) b"
  have z: "(xtime p ^^ n) c = 0 \<Longrightarrow> c = 0" for c
    by (induction n) (auto dest: xtime_pow_inj_1 [OF p])
  have "(xtime p ^^ n) (a XOR b) = 0" using eq by (simp add: xtime_pow_xor)
  then show "a = b" using z word_xor_eq_0 by blast
qed simp

text \<open>A table of powers: each entry follows from the one before.\<close>

fun chain :: "u8 \<Rightarrow> bytes \<Rightarrow> bool" where
  "chain p (a # b # xs) = (b = xtime p a \<and> chain p (b # xs))"
| "chain p _ = True"

lemma chain_nth: "chain p xs \<Longrightarrow> Suc i < length xs \<Longrightarrow> xs ! Suc i = xtime p (xs ! i)"
proof (induction p xs arbitrary: i rule: chain.induct)
  case (1 p a b xs)
  then show ?case by (cases i) auto
qed auto

text \<open>The order of the generator: when \<open>2 ^ 255 = 1\<close> and no power with a proper divisor of 255
  as exponent is 1, the first 255 powers are different.\<close>

lemma xtime_order_gcd:
  assumes "bit p 0" and "(xtime p ^^ m) 1 = 1" and "(xtime p ^^ n) 1 = 1"
  shows "(xtime p ^^ gcd m n) 1 = 1"
  using assms(2,3)
proof (induction "m + n" arbitrary: m n rule: less_induct)
  case less
  have sub: "(xtime p ^^ (b - a)) 1 = 1"
    if "a \<le> b" "(xtime p ^^ a) 1 = 1" "(xtime p ^^ b) 1 = 1" for a b
  proof -
    have "(xtime p ^^ a) ((xtime p ^^ (b - a)) 1) = (xtime p ^^ a) 1"
      using that by (simp flip: funpow_add [unfolded fun_eq_iff o_def, rule_format])
    then show ?thesis using xtime_pow_inj [OF assms(1)] by blast
  qed
  consider "m = 0" | "n = 0" | "0 < m" "0 < n" "m \<le> n" | "0 < m" "0 < n" "n \<le> m" by linarith
  then show ?case
  proof cases
    case 3
    then have "(xtime p ^^ gcd m (n - m)) 1 = 1"
      using less.hyps [of m "n - m"] sub [of m n] less.prems by simp
    moreover have "gcd m (n - m) = gcd m n"
      using 3(3) gcd_diff1_nat [of m n] by (simp add: gcd.commute)
    ultimately show ?thesis by simp
  next
    case 4
    then have "(xtime p ^^ gcd (m - n) n) 1 = 1"
      using less.hyps [of "m - n" n] sub [of n m] less.prems by simp
    then show ?thesis using 4 by (simp add: gcd_diff1_nat)
  qed (use less.prems in auto)
qed

lemma divides_255: "d dvd 255 \<Longrightarrow> d < 255 \<Longrightarrow> d dvd 85 \<or> d dvd 51 \<or> d dvd (15 :: nat)"
proof -
  assume d: "d dvd 255" "d < 255"
  have "\<forall>d < 255. d dvd (255 :: nat) \<longrightarrow> d dvd 85 \<or> d dvd 51 \<or> d dvd 15" by code_simp
  then show ?thesis using d by blast
qed

lemma xtime_powers_inj:
  assumes "bit p 0" and "(xtime p ^^ 255) 1 = 1" and "(xtime p ^^ 85) 1 \<noteq> 1"
    and "(xtime p ^^ 51) 1 \<noteq> 1" and "(xtime p ^^ 15) 1 \<noteq> 1"
  shows "inj_on (\<lambda>n. (xtime p ^^ n) 1) {..<255}"
proof (rule inj_onI)
  have mult: "(xtime p ^^ n) 1 = 1" if "(xtime p ^^ d) 1 = 1" "d dvd n" for d n
  proof -
    have "(xtime p ^^ (d * q)) 1 = 1" for q
      by (induction q) (simp_all add: funpow_add that(1))
    then show ?thesis using that(2) by (auto elim: dvdE)
  qed
  have main: "i = j" if "i \<le> j" "j < 255" "(xtime p ^^ i) 1 = (xtime p ^^ j) 1" for i j
  proof (rule ccontr)
    assume "i \<noteq> j"
    then have d: "0 < j - i" "j - i < 255" using that by auto
    have "(xtime p ^^ i) ((xtime p ^^ (j - i)) 1) = (xtime p ^^ i) 1"
      using that by (simp flip: funpow_add [unfolded fun_eq_iff o_def, rule_format])
    then have "(xtime p ^^ (j - i)) 1 = 1" using xtime_pow_inj [OF assms(1)] by blast
    then have one: "(xtime p ^^ gcd (j - i) 255) 1 = 1"
      using xtime_order_gcd [OF assms(1)] assms(2) by blast
    have "gcd (j - i) 255 \<le> j - i" using d by (intro gcd_le1_nat) simp
    then have "gcd (j - i) 255 < 255" using d by linarith
    then have "gcd (j - i) 255 dvd 85 \<or> gcd (j - i) 255 dvd 51 \<or> gcd (j - i) 255 dvd 15"
      by (intro divides_255) simp_all
    then show False using mult [OF one] assms(3-5) by blast
  qed
  fix i j assume "i \<in> {..<255 :: nat}" "j \<in> {..<255}" "(xtime p ^^ i) 1 = (xtime p ^^ j) 1"
  then show "i = j" using main [of i j] main [of j i] by (cases "i \<le> j") auto
qed

section \<open>Logarithm and exponential tables\<close>

locale gf_tables =
  fixes p :: u8
    and lg :: "u8 \<Rightarrow> nat"
    and ex :: "nat \<Rightarrow> u8"
    and top :: nat
  assumes top: "254 \<le> top" "top \<le> 255"
    and ex_0: "ex 0 = 1"
    and ex_Suc: "i < 254 \<Longrightarrow> ex (Suc i) = xtime p (ex i)"
    and ex_254: "xtime p (ex 254) = 1"
    and ex_mod: "i \<le> 2 * top \<Longrightarrow> ex i = ex (i mod 255)"
    and ex_lg: "a \<noteq> 0 \<Longrightarrow> ex (lg a) = a"
    and lg_le: "a \<noteq> 0 \<Longrightarrow> lg a \<le> top"
begin

definition pw :: "nat \<Rightarrow> u8" where
  "pw n = (xtime p ^^ n) 1"

definition mul :: "u8 \<Rightarrow> u8 \<Rightarrow> u8" where
  "mul a b = (if a = 0 \<or> b = 0 then 0 else ex (lg a + lg b))"

definition inv :: "u8 \<Rightarrow> u8" where
  "inv a = (if a = 0 then 0 else ex (255 - lg a))"

lemma pw_add: "pw (m + n) = (xtime p ^^ m) (pw n)"
  by (simp add: pw_def funpow_add)

lemma ex_small: "i < 255 \<Longrightarrow> ex i = pw i"
proof (induction i)
  case 0
  then show ?case by (simp add: ex_0 pw_def)
next
  case (Suc i)
  then have "ex (Suc i) = xtime p (pw i)" using ex_Suc [of i] by simp
  then show ?case by (simp add: pw_def)
qed

lemma pw_255: "pw 255 = 1"
proof -
  have "pw (1 + 254) = (xtime p ^^ 1) (pw 254)" by (rule pw_add)
  then show ?thesis using ex_254 ex_small [of 254] by simp
qed

lemma pw_mult_255: "pw (255 * m) = 1"
proof (induction m)
  case (Suc m)
  have "pw (255 * m + 255) = (xtime p ^^ (255 * m)) 1" by (simp add: pw_add pw_255)
  with Suc show ?case by (simp add: pw_def add.commute)
qed (simp add: pw_def)

lemma pw_mod: "pw (n mod 255) = pw n"
proof -
  have "pw n = pw (n mod 255 + 255 * (n div 255))" by simp
  also have "\<dots> = (xtime p ^^ (n mod 255)) 1" by (simp only: pw_add pw_mult_255)
  also have "\<dots> = pw (n mod 255)" by (simp only: pw_def)
  finally show ?thesis ..
qed

lemma ex_pw: "i \<le> 2 * top \<Longrightarrow> ex i = pw i"
  by (simp add: ex_mod [of i] ex_small pw_mod)

lemma pw_lg: "a \<noteq> 0 \<Longrightarrow> pw (lg a) = a"
  using ex_lg [of a] lg_le [of a] ex_pw [of "lg a"] by simp

lemma pw_nonzero: "pw n \<noteq> 0"
proof
  assume "pw n = 0"
  then have "pw (254 * n + n) = 0" by (simp only: pw_add xtime_pow_0)
  moreover have "254 * n + n = 255 * n" by simp
  ultimately show False using pw_mult_255 [of n] by simp
qed

lemma pw_add_commute: "(xtime p ^^ m) (pw n) = (xtime p ^^ n) (pw m)"
  by (simp add: pw_add [symmetric] add.commute)

lemma mul_xtime: "a \<noteq> 0 \<Longrightarrow> mul a b = (xtime p ^^ lg a) b"
proof (cases "b = 0")
  case False
  assume a: "a \<noteq> 0"
  have "lg a + lg b \<le> 2 * top" using lg_le [OF a] lg_le [OF False] by simp
  then have "mul a b = pw (lg a + lg b)" using a False by (simp add: mul_def ex_pw)
  then show ?thesis by (simp add: pw_add pw_lg False)
qed (simp add: mul_def)

lemma mul_pw: "mul (pw i) (pw j) = pw (i + j)"
proof -
  have "mul (pw i) (pw j) = (xtime p ^^ lg (pw i)) (pw j)"
    by (simp add: mul_xtime pw_nonzero)
  also have "\<dots> = (xtime p ^^ j) (pw (lg (pw i)))" by (rule pw_add_commute)
  also have "\<dots> = (xtime p ^^ j) (pw i)" by (simp add: pw_lg pw_nonzero)
  finally show ?thesis by (simp add: pw_add [symmetric] add.commute)
qed

lemma mul_commute: "mul a b = mul b a"
  by (simp add: mul_def add.commute)

lemma mul_zero: "mul a 0 = 0" "mul 0 a = 0"
  by (simp_all add: mul_def)

lemma mul_assoc: "mul (mul a b) c = mul a (mul b c)"
proof (cases "a = 0 \<or> b = 0 \<or> c = 0")
  case True
  then show ?thesis by (auto simp: mul_zero)
next
  case False
  then have "a = pw (lg a)" "b = pw (lg b)" "c = pw (lg c)" by (simp_all add: pw_lg)
  then show ?thesis by (metis mul_pw add.assoc)
qed

lemma mul_one: "mul 1 a = a"
proof (cases "a = 0")
  case False
  have one: "(1 :: u8) = pw 0" by (simp add: pw_def)
  have "mul (pw 0) (pw (lg a)) = pw (lg a)" by (simp add: mul_pw)
  then show ?thesis by (simp add: one [symmetric] pw_lg False)
qed (simp add: mul_zero)

lemma mul_xor: "mul a (b XOR c) = mul a b XOR mul a c"
  by (cases "a = 0") (simp_all add: mul_zero mul_xtime xtime_pow_xor)

lemma xor_mul: "mul (b XOR c) a = mul b a XOR mul c a"
  by (simp add: mul_commute [of _ a] mul_xor)

lemma mul_inv: "a \<noteq> 0 \<Longrightarrow> mul a (inv a) = 1"
proof -
  assume a: "a \<noteq> 0"
  have le: "lg a \<le> 255" "255 - lg a \<le> 2 * top" using lg_le [OF a] top by simp_all
  have "mul a (inv a) = mul (pw (lg a)) (pw (255 - lg a))"
    using a le by (simp add: inv_def ex_pw pw_lg)
  also have "\<dots> = pw 255" using le by (simp add: mul_pw)
  finally show ?thesis by (simp add: pw_255)
qed

lemma mul_eq_0: "mul a b = 0 \<longleftrightarrow> a = 0 \<or> b = 0"
proof
  assume "mul a b = 0"
  then show "a = 0 \<or> b = 0"
    by (metis mul_assoc mul_commute mul_inv mul_one mul_zero(1))
qed (auto simp: mul_zero)

lemma ex_lg_add: "a \<noteq> 0 \<Longrightarrow> b \<noteq> 0 \<Longrightarrow> ex (lg a + lg b) = mul a b"
  by (simp add: mul_def)

lemma ex_mul: "i \<le> 2 * top \<Longrightarrow> j \<le> 2 * top \<Longrightarrow> mul (ex i) (ex j) = pw (i + j)"
  by (simp add: ex_pw mul_pw)

end

section \<open>Interpolation\<close>

text \<open>The divided difference of \<open>g\<close> over the points \<open>S\<close>; it vanishes on polynomials of degree
  below \<open>card S - 1\<close>.\<close>

definition divdiff :: "'a::field set \<Rightarrow> ('a \<Rightarrow> 'a) \<Rightarrow> 'a" where
  "divdiff S g = (\<Sum>x\<in>S. g x / (\<Prod>y\<in>S - {x}. x - y))"

lemma divdiff_add: "divdiff S (\<lambda>x. f x + g x) = divdiff S f + divdiff S g"
  by (simp add: divdiff_def add_divide_distrib sum.distrib)

lemma divdiff_scale: "divdiff S (\<lambda>x. c * g x) = c * divdiff S g"
  by (simp add: divdiff_def sum_distrib_left mult.assoc)

lemma divdiff_factor:
  assumes "finite S" and "b \<in> S"
  shows "divdiff S (\<lambda>x. (x - b) * g x) = divdiff (S - {b}) g"
proof -
  have "(x - b) * g x / (\<Prod>y\<in>S - {x}. x - y) = g x / (\<Prod>y\<in>S - {b} - {x}. x - y)"
    if "x \<in> S - {b}" for x
  proof -
    have "(\<Prod>y\<in>S - {x}. x - y) = (x - b) * (\<Prod>y\<in>S - {x} - {b}. x - y)"
      using that assms by (intro prod.remove) auto
    moreover have "S - {x} - {b} = S - {b} - {x}" by auto
    ultimately show ?thesis using that by simp
  qed
  then have "(\<Sum>x\<in>S - {b}. (x - b) * g x / (\<Prod>y\<in>S - {x}. x - y)) = divdiff (S - {b}) g"
    unfolding divdiff_def by (rule sum.cong [OF refl])
  then show ?thesis
    unfolding divdiff_def by (simp add: sum.remove [OF assms])
qed

lemma divdiff_swap:
  assumes "finite S" and "a \<in> S" and "b \<in> S"
  shows "(a - b) * divdiff S g = divdiff (S - {b}) g - divdiff (S - {a}) g"
proof -
  have "divdiff S (\<lambda>x. (x - b) * g x) = divdiff S (\<lambda>x. (x - a) * g x + (a - b) * g x)"
    by (simp add: divdiff_def algebra_simps)
  then show ?thesis
    by (simp add: divdiff_add divdiff_scale divdiff_factor assms)
qed

lemma divdiff_power:
  assumes "finite S" and "card S = Suc n"
  shows "divdiff S (\<lambda>x. x ^ n) = 1 \<and> (\<forall>k < n. divdiff S (\<lambda>x. x ^ k) = 0)"
  using assms
proof (induction n arbitrary: S)
  case 0
  then obtain a where "S = {a}" by (auto simp: card_1_singleton_iff)
  then show ?case by (simp add: divdiff_def)
next
  case (Suc n)
  then have "2 \<le> card S" by simp
  then obtain a b where ab: "a \<in> S" "b \<in> S" "a \<noteq> b"
    by (metis Suc.prems(2) card_2_iff' card_le_Suc0_iff_eq Suc.prems(1) not_less_eq_eq numeral_2_eq_2)
  have card: "card (S - {a}) = Suc n" "card (S - {b}) = Suc n"
    using ab Suc.prems by simp_all
  have IH: "divdiff (S - {c}) (\<lambda>x. x ^ n) = 1" "k < n \<Longrightarrow> divdiff (S - {c}) (\<lambda>x. x ^ k) = 0"
    if "c = a \<or> c = b" for c k
    using Suc.IH [of "S - {c}"] that card Suc.prems(1) by auto
  have zero: "divdiff S (\<lambda>x. x ^ k) = 0" if "k < Suc n" for k
  proof -
    have "(a - b) * divdiff S (\<lambda>x. x ^ k) = 0"
      using divdiff_swap [OF Suc.prems(1) ab(1,2), of "\<lambda>x. x ^ k"] IH that
      by (cases "k = n") auto
    then show ?thesis using ab(3) by simp
  qed
  have "divdiff S (\<lambda>x. x ^ Suc n) = divdiff S (\<lambda>x. (x - b) * x ^ n + b * x ^ n)"
    by (simp add: algebra_simps)
  also have "\<dots> = 1"
    using IH zero [of n] by (simp add: divdiff_add divdiff_scale divdiff_factor Suc.prems(1) ab)
  finally show ?case using zero by simp
qed

text \<open>A polynomial by its coefficients, highest first, evaluated by Horner's rule.\<close>

definition horner :: "'a::field list \<Rightarrow> 'a \<Rightarrow> 'a" where
  "horner cs x = foldl (\<lambda>acc c. acc * x + c) 0 cs"

lemma horner_snoc: "horner (cs @ [c]) x = horner cs x * x + c"
  by (simp add: horner_def)

lemma horner_0: "cs \<noteq> [] \<Longrightarrow> horner cs 0 = last cs"
  by (cases cs rule: rev_cases) (simp_all add: horner_snoc)

lemma divdiff_horner:
  assumes "finite S" and "length cs + k < card S"
  shows "divdiff S (\<lambda>x. x ^ k * horner cs x) = 0"
  using assms(2)
proof (induction cs arbitrary: k rule: rev_induct)
  case Nil
  then show ?case by (simp add: horner_def divdiff_def)
next
  case (snoc c cs)
  obtain n where n: "card S = Suc n" using snoc.prems by (cases "card S") auto
  have "divdiff S (\<lambda>x. x ^ k * horner (cs @ [c]) x) =
      divdiff S (\<lambda>x. x ^ Suc k * horner cs x + c * x ^ k)"
    by (simp add: horner_snoc algebra_simps)
  also have "\<dots> = 0"
    using snoc.IH [of "Suc k"] snoc.prems divdiff_power [OF assms(1) n] n
    by (simp add: divdiff_add divdiff_scale)
  finally show ?case .
qed

text \<open>Lagrange interpolation at 0.\<close>

lemma interpolate_0:
  assumes "finite S" and "0 \<notin> S" and "card S = length cs" and "cs \<noteq> []"
  shows "(\<Sum>x\<in>S. horner cs x * (\<Prod>y\<in>S - {x}. y / (y - x))) = last cs"
proof -
  let ?T = "insert 0 S"
  let ?P = "\<Prod>y\<in>S. - y"
  have P: "?P \<noteq> 0" using assms by simp
  have "divdiff ?T (horner cs) = 0"
    using divdiff_horner [of ?T cs 0] assms by simp
  moreover have "divdiff ?T (horner cs) =
      horner cs 0 / ?P + (\<Sum>x\<in>S. horner cs x / (\<Prod>y\<in>?T - {x}. x - y))"
    using assms by (simp add: divdiff_def)
  moreover have "horner cs x / (\<Prod>y\<in>?T - {x}. x - y) =
      - (horner cs x * (\<Prod>y\<in>S - {x}. y / (y - x))) / ?P" if x: "x \<in> S" for x
  proof -
    have "x \<noteq> 0" using x assms(2) by auto
    then have "?T - {x} = insert 0 (S - {x})" by auto
    then have 1: "(\<Prod>y\<in>?T - {x}. x - y) = x * (\<Prod>y\<in>S - {x}. x - y)"
      using assms by simp
    have 2: "?P = - x * (\<Prod>y\<in>S - {x}. - y)" using x assms(1) by (simp add: prod.remove)
    have "(\<Prod>y\<in>S - {x}. y / (y - x)) = (\<Prod>y\<in>S - {x}. - y / (x - y))"
      by (rule prod.cong) (auto simp: field_simps)
    then have 3: "(\<Prod>y\<in>S - {x}. y / (y - x)) = (\<Prod>y\<in>S - {x}. - y) / (\<Prod>y\<in>S - {x}. x - y)"
      by (simp only: prod_dividef)
    have "(\<Prod>y\<in>S - {x}. - y) \<noteq> 0" using P 2 by simp
    then show ?thesis unfolding 1 2 3 using \<open>x \<noteq> 0\<close> by (simp add: field_simps)
  qed
  ultimately have "horner cs 0 / ?P =
      (\<Sum>x\<in>S. horner cs x * (\<Prod>y\<in>S - {x}. y / (y - x))) / ?P"
    by (simp add: sum_divide_distrib sum_negf eq_neg_iff_add_eq_0)
  then show ?thesis using P by (simp add: horner_0 assms(4))
qed

end
