(* ===== verification/Afs_Gfshare.thy ===== *)
theory Afs_Gfshare
  imports Afs_Gf_Tables
begin

text \<open>
  Shamir secret sharing over GF(256), \<open>src/src/lib/libgfshare.c\<close>: the context, the random
  coefficients drawn from Speck128/128 in counter mode, the splitting and the recombination
  loops. The main result is that recombination returns the secret from any subset of at least
  \<open>threshold\<close> shares, for every threshold, every secret and every random stream.
\<close>

section \<open>The context\<close>

record gfshare_ctx =
  sharecount :: u32
  threshold :: u32
  maxsize :: u32
  size :: u32
  sharenrs :: bytes
  buffer :: bytes

section \<open>Random coefficients\<close>

definition ROR :: "u64 \<Rightarrow> nat \<Rightarrow> u64" where
  "ROR x r = drop_bit r x OR push_bit (64 - r) x"

definition ROL :: "u64 \<Rightarrow> nat \<Rightarrow> u64" where
  "ROL x r = push_bit r x OR drop_bit (64 - r) x"

text \<open>The macro \<open>R(x, y, k)\<close> assigns to its first two arguments.\<close>

definition R_macro :: "u64 \<Rightarrow> u64 \<Rightarrow> u64 \<Rightarrow> u64 \<times> u64" where
  "R_macro x y k = (let x = ROR x 8; x = x + y; x = x XOR k; y = ROL y 3; y = y XOR x in (x, y))"

definition speck_encrypt_rng :: "u64 \<times> u64 \<Rightarrow> u64 \<times> u64 \<Rightarrow> u64 \<times> u64" where
  "speck_encrypt_rng pt K =
     (let y = fst pt; x = snd pt; b = fst K; a = snd K; (x, y) = R_macro x y b;
          (x, y, a, b) = fold (\<lambda>i (x, y, a, b).
             let (a, b) = R_macro a b (of_nat i); (x, y) = R_macro x y b in (x, y, a, b))
            [0..<31] (x, y, a, b)
      in (y, x))"

text \<open>One turn of the loop of \<open>generate_block_ctr\<close> stores one 16-byte block at word index \<open>j\<close>.\<close>

definition rng_step :: "u64 \<times> u64 \<Rightarrow> bytes \<times> u64 \<times> nat \<Rightarrow> bytes \<times> u64 \<times> nat" where
  "rng_step key st = (case st of (out, ctr0, j) \<Rightarrow>
     let output = speck_encrypt_rng (ctr0, 0) key;
         out = blit out (8 * (j + 1)) (le_bytes 8 (snd output));
         out = blit out (8 * j) (le_bytes 8 (fst output))
     in (out, ctr0 + 1, j + 2))"

definition generate_block_ctr :: "nat \<Rightarrow> bytes \<Rightarrow> bytes \<Rightarrow> bytes" where
  "generate_block_ctr output_length output_block seed =
     (let rounds = (of_nat (output_length div 16) :: u32);
          key = (le_word (sub seed 0 8), le_word (sub seed 8 8))
      in fst ((rng_step key ^^ unat rounds) (output_block, 0, 0)))"

definition get_seed_64 :: "kernel \<Rightarrow> bytes \<times> kernel" where
  "get_seed_64 k = get_random_bytes 16 k"

definition gfshare_fill_rand :: "bytes \<Rightarrow> nat \<Rightarrow> kernel \<Rightarrow> bytes \<times> kernel" where
  "gfshare_fill_rand buf count k =
     (let (key, k) = get_seed_64 k in (generate_block_ctr count buf key, k))"

definition gfshare_fill_rand_using_random_bytes :: "bytes \<Rightarrow> nat \<Rightarrow> kernel \<Rightarrow> bytes \<times> kernel" where
  "gfshare_fill_rand_using_random_bytes buf count k =
     (let (r, k) = get_random_bytes count k in (blit buf 0 r, k))"

section \<open>Preparation\<close>

definition gfshare_ctx_init_core ::
  "bytes \<Rightarrow> u32 \<Rightarrow> u32 \<Rightarrow> u64 \<Rightarrow> kernel \<Rightarrow> gfshare_ctx option \<times> kernel" where
  "gfshare_ctx_init_core nrs shcount thresh maxsz k =
     (if maxsz < 1 \<or> thresh < 1 \<or> thresh > shcount then (None, k)
      else case kmalloc 40 k of
        (None, k) \<Rightarrow> (None, k)
      | (Some _, k) \<Rightarrow> (case kmalloc (unat shcount) k of
          (None, k) \<Rightarrow> (None, k)
        | (Some nrmem, k) \<Rightarrow> (case kmalloc (unat (ucast shcount * maxsz)) k of
            (None, k) \<Rightarrow> (None, k)
          | (Some buf, k) \<Rightarrow>
              (Some \<lparr>sharecount = shcount, threshold = thresh, maxsize = ucast maxsz,
                 size = ucast maxsz, sharenrs = blit nrmem 0 (take (unat shcount) nrs),
                 buffer = buf\<rparr>, k))))"

definition gfshare_ctx_init_enc ::
  "bytes \<Rightarrow> u32 \<Rightarrow> u32 \<Rightarrow> u64 \<Rightarrow> kernel \<Rightarrow> gfshare_ctx option \<times> kernel" where
  "gfshare_ctx_init_enc nrs shcount thresh maxsz k =
     (if \<exists>i \<in> set [0..<unat shcount]. nrs ! i = 0 then (None, k)
      else gfshare_ctx_init_core nrs shcount thresh maxsz k)"

definition gfshare_ctx_init_dec ::
  "bytes \<Rightarrow> u32 \<Rightarrow> u32 \<Rightarrow> u64 \<Rightarrow> kernel \<Rightarrow> gfshare_ctx option \<times> kernel" where
  "gfshare_ctx_init_dec nrs shcount thresh maxsz k =
     gfshare_ctx_init_core nrs shcount thresh maxsz k"

definition gfshare_ctx_setsize :: "gfshare_ctx \<Rightarrow> u64 \<Rightarrow> int \<times> gfshare_ctx" where
  "gfshare_ctx_setsize ctx sz =
     (if sz < 1 \<or> sz \<ge> ucast (maxsize ctx) then (1, ctx) else (0, ctx\<lparr>size := ucast sz\<rparr>))"

text \<open>\<open>gfshare_ctx_free\<close> scrubs the buffers before it gives them back: what the memory holds when
  it is returned to the kernel.\<close>

definition gfshare_ctx_free :: "gfshare_ctx \<Rightarrow> kernel \<Rightarrow> (bytes \<times> bytes) \<times> kernel" where
  "gfshare_ctx_free ctx k =
     (let (buf, k) = gfshare_fill_rand (buffer ctx) (unat (sharecount ctx * maxsize ctx)) k;
          (nrs, k) = gfshare_fill_rand_using_random_bytes (sharenrs ctx) (unat (sharecount ctx)) k;
          (c, k) = gfshare_fill_rand_using_random_bytes (replicate 40 0) 40 k
      in ((nrs, buf), k))"

section \<open>Splitting\<close>

definition gfshare_ctx_enc_setsecret :: "gfshare_ctx \<Rightarrow> bytes \<Rightarrow> kernel \<Rightarrow> gfshare_ctx \<times> kernel" where
  "gfshare_ctx_enc_setsecret ctx secret k =
     (let n = (threshold ctx - 1) * maxsize ctx;
          buf = blit (buffer ctx) (unat n) (take (unat (size ctx)) secret);
          (buf, k) = gfshare_fill_rand buf (unat n) k
      in (ctx\<lparr>buffer := buf\<rparr>, k))"

text \<open>The byte step of the inner loop, the loop over \<open>pos\<close>, and the loop over \<open>coefficient\<close>.\<close>

definition share_byte :: "nat \<Rightarrow> u8 \<Rightarrow> u8 \<Rightarrow> u8" where
  "share_byte ilog b c =
     (if b \<noteq> 0 then exps ! (ilog + unat (logs ! unat b)) else b) XOR c"

definition share_add :: "nat \<Rightarrow> gfshare_ctx \<Rightarrow> bytes \<Rightarrow> nat \<Rightarrow> bytes" where
  "share_add ilog ctx share coefficient =
     (let off = unat (of_nat coefficient * maxsize ctx)
      in blit share 0 (map (\<lambda>pos. share_byte ilog (share ! pos) (buffer ctx ! (off + pos)))
           [0..<unat (size ctx)]))"

definition get_share :: "gfshare_ctx \<Rightarrow> nat \<Rightarrow> bytes \<Rightarrow> bytes" where
  "get_share ctx i share =
     (let ilog = unat (logs ! unat (sharenrs ctx ! i));
          share = blit share 0 (sub (buffer ctx) 0 (unat (size ctx)))
      in foldl (share_add ilog ctx) share [1..<unat (threshold ctx)])"

definition gfshare_ctx_enc_getshares ::
  "gfshare_ctx \<Rightarrow> bytes \<Rightarrow> bytes list \<Rightarrow> kernel \<Rightarrow> bytes list \<times> gfshare_ctx \<times> kernel" where
  "gfshare_ctx_enc_getshares ctx secret shares k =
     (let n = (threshold ctx - 1) * maxsize ctx;
          buf = blit (buffer ctx) (unat n) (take (unat (size ctx)) secret);
          (buf, k) = gfshare_fill_rand buf (unat n) k;
          ctx = ctx\<lparr>buffer := buf\<rparr>
      in (map (\<lambda>i. get_share ctx i (shares ! i)) [0..<unat (sharecount ctx)], ctx, k))"

section \<open>Recombination\<close>

definition gfshare_ctx_dec_newshares :: "gfshare_ctx \<Rightarrow> bytes \<Rightarrow> gfshare_ctx" where
  "gfshare_ctx_dec_newshares ctx nrs =
     ctx\<lparr>sharenrs := blit (sharenrs ctx) 0 (take (unat (sharecount ctx)) nrs)\<rparr>"

definition gfshare_ctx_dec_giveshare :: "gfshare_ctx \<Rightarrow> u8 \<Rightarrow> bytes \<Rightarrow> int \<times> gfshare_ctx" where
  "gfshare_ctx_dec_giveshare ctx sharenr share =
     (if ucast sharenr \<ge> sharecount ctx then (1, ctx)
      else (0, ctx\<lparr>buffer := blit (buffer ctx) (unat (ucast sharenr * maxsize ctx))
                   (take (unat (size ctx)) share)\<rparr>))"

text \<open>The inner loop of the interpolation: \<open>Li_top\<close> and \<open>Li_bottom\<close> for the share \<open>i\<close>. The code
  counts a skipped share down and up again, so \<open>jn\<close> stays the same.\<close>

function li_loop :: "gfshare_ctx \<Rightarrow> nat \<Rightarrow> nat \<Rightarrow> nat \<Rightarrow> u32 \<times> u32 \<Rightarrow> u32 \<times> u32" where
  "li_loop ctx i jn j st =
     (if jn < unat (threshold ctx) \<and> j < unat (sharecount ctx)
      then if i = j then li_loop ctx i (jn + 1) (j + 1) st
        else if sharenrs ctx ! j = 0 then li_loop ctx i jn (j + 1) st
        else (case st of (Li_top, Li_bottom) \<Rightarrow>
          li_loop ctx i (jn + 1) (j + 1)
            (Li_top + ucast (logs ! unat (sharenrs ctx ! j)),
             Li_bottom + ucast (logs ! unat (sharenrs ctx ! i XOR sharenrs ctx ! j))))
      else st)"
  by pat_completeness auto
termination by (relation "measure (\<lambda>(ctx, i, jn, j, st). unat (sharecount ctx) - j)") auto

declare li_loop.simps [simp del]

definition li_log :: "gfshare_ctx \<Rightarrow> nat \<Rightarrow> u32" where
  "li_log ctx i =
     (let (Li_top, Li_bottom) = li_loop ctx i 0 0 (0, 0);
          Li_bottom = Li_bottom mod 0xff;
          Li_top = Li_top + (0xff - Li_bottom)
      in Li_top mod 0xff)"

definition add_share :: "gfshare_ctx \<Rightarrow> nat \<Rightarrow> bytes \<Rightarrow> bytes" where
  "add_share ctx i secretbuf =
     (let Li_top = unat (li_log ctx i); off = unat (maxsize ctx * of_nat i)
      in blit secretbuf 0 (map (\<lambda>j. let b = buffer ctx ! (off + j) in
           if b \<noteq> 0 then secretbuf ! j XOR exps ! (Li_top + unat (logs ! unat b))
           else secretbuf ! j) [0..<unat (size ctx)]))"

text \<open>The outer loop, shared by \<open>gfshare_ctx_dec_extract\<close> and \<open>gfshare_ctx_dec_decode\<close>.\<close>

function dec_loop :: "gfshare_ctx \<Rightarrow> nat \<Rightarrow> nat \<Rightarrow> bytes \<Rightarrow> bytes" where
  "dec_loop ctx n i secretbuf =
     (if n < unat (threshold ctx) \<and> i < unat (sharecount ctx)
      then if sharenrs ctx ! i = 0 then dec_loop ctx n (i + 1) secretbuf
        else dec_loop ctx (n + 1) (i + 1) (add_share ctx i secretbuf)
      else secretbuf)"
  by pat_completeness auto
termination by (relation "measure (\<lambda>(ctx, n, i, s). unat (sharecount ctx) - i)") auto

declare dec_loop.simps [simp del]

definition gfshare_ctx_dec_extract :: "gfshare_ctx \<Rightarrow> bytes \<Rightarrow> bytes" where
  "gfshare_ctx_dec_extract ctx secretbuf =
     dec_loop ctx 0 0 (blit secretbuf 0 (replicate (unat (size ctx)) 0))"

definition gfshare_ctx_dec_decode ::
  "gfshare_ctx \<Rightarrow> bytes \<Rightarrow> bytes list \<Rightarrow> bytes \<Rightarrow> bytes \<times> gfshare_ctx" where
  "gfshare_ctx_dec_decode ctx nrs shares secretbuf =
     (let ctx = ctx\<lparr>sharenrs := blit (sharenrs ctx) 0 (take (unat (sharecount ctx)) nrs)\<rparr>;
          secretbuf = blit secretbuf 0 (replicate (unat (size ctx)) 0);
          buf = fold (\<lambda>i buf. blit buf (unat (of_nat i * maxsize ctx))
                   (take (unat (size ctx)) (shares ! i))) [0..<unat (sharecount ctx)] (buffer ctx);
          ctx = ctx\<lparr>buffer := buf\<rparr>
      in (dec_loop ctx 0 0 secretbuf, ctx))"

section \<open>The field of the shares\<close>

typedef gfe = "UNIV :: u8 set" morphisms byte_of Gfe
  by simp

lemmas gfe_simps [simp] = Gfe_inverse [simplified] byte_of_inverse

lemma gfe_eqI: "byte_of a = byte_of b \<Longrightarrow> a = b"
  by (simp add: byte_of_inject)

instantiation gfe :: field
begin

definition zero_gfe :: gfe where
  "zero_gfe = Gfe 0"

definition one_gfe :: gfe where
  "one_gfe = Gfe 1"

definition plus_gfe :: "gfe \<Rightarrow> gfe \<Rightarrow> gfe" where
  "plus_gfe a b = Gfe (byte_of a XOR byte_of b)"

definition minus_gfe :: "gfe \<Rightarrow> gfe \<Rightarrow> gfe" where
  "minus_gfe a b = Gfe (byte_of a XOR byte_of b)"

definition uminus_gfe :: "gfe \<Rightarrow> gfe" where
  "uminus_gfe a = a"

definition times_gfe :: "gfe \<Rightarrow> gfe \<Rightarrow> gfe" where
  "times_gfe a b = Gfe (gs.mul (byte_of a) (byte_of b))"

definition inverse_gfe :: "gfe \<Rightarrow> gfe" where
  "inverse_gfe a = Gfe (gs.inv (byte_of a))"

definition divide_gfe :: "gfe \<Rightarrow> gfe \<Rightarrow> gfe" where
  "divide_gfe a b = a * inverse b"

lemmas gfe_ops = zero_gfe_def one_gfe_def plus_gfe_def minus_gfe_def uminus_gfe_def
  times_gfe_def inverse_gfe_def

instance
proof
  fix a b c :: gfe
  show "a * b * c = a * (b * c)" by (simp add: gfe_ops gs.mul_assoc)
  show "a * b = b * a" by (simp add: gfe_ops gs.mul_commute)
  show "1 * a = a" by (simp add: gfe_ops gs.mul_one)
  show "a + b + c = a + (b + c)" by (simp add: gfe_ops xor.assoc)
  show "a + b = b + a" by (simp add: gfe_ops xor.commute)
  show "0 + a = a" by (simp add: gfe_ops)
  show "- a + a = 0" by (simp add: gfe_ops)
  show "a - b = a + - b" by (simp add: gfe_ops)
  show "(a + b) * c = a * c + b * c" by (simp add: gfe_ops gs.xor_mul)
  show "(0 :: gfe) \<noteq> 1" by (simp add: gfe_ops Gfe_inject)
  show "inverse a * a = 1" if "a \<noteq> 0"
    using that gs.mul_inv [of "byte_of a"]
    by (simp add: gfe_ops gs.mul_commute) (metis byte_of_inverse)
  show "a div b = a * inverse b" by (simp add: divide_gfe_def)
  show "inverse (0 :: gfe) = 0" by (simp add: gfe_ops gs.inv_def)
qed

end

lemma Gfe_0 [simp]: "Gfe 0 = 0"
  by (simp add: zero_gfe_def)

lemma Gfe_eq_0 [simp]: "Gfe a = 0 \<longleftrightarrow> a = 0"
  using Gfe_inject [of a 0] by simp

lemma Gfe_xor: "Gfe (a XOR b) = Gfe a + Gfe b" "Gfe (a XOR b) = Gfe a - Gfe b"
  by (simp_all add: plus_gfe_def minus_gfe_def)

lemma Gfe_mul: "Gfe (gs.mul a b) = Gfe a * Gfe b"
  by (simp add: times_gfe_def)

lemma Gfe_pw_add: "Gfe (gs.pw (m + n)) = Gfe (gs.pw m) * Gfe (gs.pw n)"
  by (simp add: Gfe_mul [symmetric] gs.mul_pw)

lemma Gfe_log: "a \<noteq> 0 \<Longrightarrow> Gfe (gs.pw (unat (logs ! unat a))) = Gfe a"
  by (simp add: gs.pw_lg)

lemma Gfe_pw_sum_list:
  "\<forall>a \<in> set as. a \<noteq> 0 \<Longrightarrow>
   Gfe (gs.pw (\<Sum>a\<leftarrow>as. unat (logs ! unat a))) = (\<Prod>a\<leftarrow>as. Gfe a)"
  by (induction as) (simp_all add: Gfe_pw_add Gfe_log, simp add: gs.pw_def one_gfe_def)

lemma Gfe_pw_quotient:
  "Gfe (gs.pw ((t + (255 - b mod 255)) mod 255)) = Gfe (gs.pw t) / Gfe (gs.pw b)"
proof -
  have "Gfe (gs.pw (255 - b mod 255)) * Gfe (gs.pw (b mod 255)) = 1"
    by (simp add: Gfe_pw_add [symmetric] gs.pw_255 one_gfe_def)
  then have "Gfe (gs.pw (255 - b mod 255)) = 1 / Gfe (gs.pw b)"
    by (simp add: gs.pw_mod field_simps gs.pw_nonzero)
  then show ?thesis by (simp only: gs.pw_mod Gfe_pw_add) simp
qed

lemma exps_pw: "i < 510 \<Longrightarrow> exps ! i = gs.pw i"
  using exps_mod [of i] gs.ex_small [of "i mod 255"] by (simp add: gs.pw_mod)

section \<open>Contexts\<close>

text \<open>A context as the initialisers leave it, for sizes that fit 32 bits.\<close>

definition ctx_ok :: "gfshare_ctx \<Rightarrow> bool" where
  "ctx_ok ctx \<longleftrightarrow> 1 \<le> unat (threshold ctx) \<and> unat (threshold ctx) \<le> unat (sharecount ctx) \<and>
     unat (size ctx) \<le> unat (maxsize ctx) \<and>
     unat (sharecount ctx) * unat (maxsize ctx) < 2 ^ 32 \<and>
     length (buffer ctx) = unat (sharecount ctx) * unat (maxsize ctx) \<and>
     length (sharenrs ctx) = unat (sharecount ctx)"

lemma init_core_ok:
  assumes "gfshare_ctx_init_core nrs shcount thresh maxsz k = (Some ctx, k')"
    and "unat shcount * unat maxsz < 2 ^ 32" and "unat shcount \<le> length nrs"
  shows "ctx_ok ctx" and "sharenrs ctx = take (unat shcount) nrs" and "sharecount ctx = shcount"
    and "threshold ctx = thresh" and "maxsize ctx = ucast maxsz" and "size ctx = ucast maxsz"
    and "unat (maxsize ctx) = unat maxsz"
proof -
  have t: "\<not> maxsz < 1" "\<not> thresh < 1" "\<not> shcount < thresh"
    using assms(1) by (auto simp: gfshare_ctx_init_core_def split: if_splits)
  then have t': "1 \<le> unat thresh" "unat thresh \<le> unat shcount"
    by (simp_all add: word_less_nat_alt)
  then have "unat maxsz \<le> unat shcount * unat maxsz" by simp
  then have small: "unat maxsz < 2 ^ 32" using assms(2) by (rule le_less_trans)
  have mx: "unat (ucast maxsz :: u32) = unat maxsz"
    using small by (simp add: unsigned_ucast_eq take_bit_nat_eq_self)
  have "unat (ucast shcount * maxsz) = unat shcount * unat maxsz"
    using assms(2) by (simp add: unat_word_ariths unat_ucast_u32)
  then show "ctx_ok ctx" "sharenrs ctx = take (unat shcount) nrs" "sharecount ctx = shcount"
    "threshold ctx = thresh" "maxsize ctx = ucast maxsz" "size ctx = ucast maxsz"
    "unat (maxsize ctx) = unat maxsz"
    using assms t t' mx
    by (auto simp: gfshare_ctx_init_core_def ctx_ok_def split: prod.splits option.splits
        dest!: kmalloc_Some)
qed

section \<open>Shares are values of a polynomial\<close>

text \<open>The random fill keeps the length of the buffer and everything behind the bytes it is asked
  to fill.\<close>

lemma rng_steps_frame:
  assumes "16 * n \<le> length out"
  shows "case (rng_step key ^^ n) (out, c, 0) of (out', c', j) \<Rightarrow>
    j = 2 * n \<and> length out' = length out \<and> drop (16 * n) out' = drop (16 * n) out"
  using assms
proof (induction n)
  case (Suc n)
  then show ?case
    by (auto simp: rng_step_def Let_def split: prod.splits)
       (auto simp: blit_def drop_drop [symmetric] simp del: drop_drop)
qed simp

lemma generate_block_ctr_frame:
  assumes "n \<le> length out" and "n < 2 ^ 32"
  shows "length (generate_block_ctr n out seed) = length out"
    and "drop n (generate_block_ctr n out seed) = drop n out"
proof -
  have u: "unat (of_nat (n div 16) :: u32) = n div 16"
    using assms(2) by (simp add: unsigned_of_nat take_bit_nat_eq_self)
  have le: "16 * (n div 16) \<le> n" by simp
  then have "16 * (n div 16) \<le> length out" using assms(1) by linarith
  note frame = rng_steps_frame [OF this, of "(le_word (sub seed 0 8), le_word (sub seed 8 8))" 0]
  show "length (generate_block_ctr n out seed) = length out"
    using frame by (simp add: generate_block_ctr_def u Let_def split: prod.splits)
  have "drop (n - 16 * (n div 16)) (drop (16 * (n div 16)) (generate_block_ctr n out seed)) =
      drop (n - 16 * (n div 16)) (drop (16 * (n div 16)) out)"
    using frame by (simp add: generate_block_ctr_def u Let_def del: drop_drop split: prod.splits)
  then show "drop n (generate_block_ctr n out seed) = drop n out" using le by simp
qed

lemma gfshare_fill_rand_frame:
  assumes "gfshare_fill_rand buf n k = (buf', k')" and "n \<le> length buf" and "n < 2 ^ 32"
  shows "length buf' = length buf" and "drop n buf' = drop n buf"
  using assms(1) generate_block_ctr_frame [OF assms(2,3)]
  by (auto simp: gfshare_fill_rand_def split: prod.splits)

text \<open>The polynomial of the byte at \<open>pos\<close>: the random coefficients, then the secret.\<close>

definition share_coeffs :: "gfshare_ctx \<Rightarrow> nat \<Rightarrow> gfe list" where
  "share_coeffs ctx pos =
     map (\<lambda>c. Gfe (buffer ctx ! (c * unat (maxsize ctx) + pos))) [0..<unat (threshold ctx)]"

lemma share_byte_field:
  "x \<noteq> 0 \<Longrightarrow> Gfe (share_byte (unat (logs ! unat x)) b c) = Gfe b * Gfe x + Gfe c"
  by (cases "b = 0")
     (simp_all add: share_byte_def gs.ex_lg_add Gfe_xor(1) Gfe_mul mult.commute)

lemma unat_mult_ok:
  assumes "ctx_ok ctx" and "i < unat (sharecount ctx)"
  shows "unat (of_nat i * maxsize ctx) = i * unat (maxsize ctx)"
    and "unat (maxsize ctx * of_nat i) = i * unat (maxsize ctx)"
    and "i * unat (maxsize ctx) + unat (size ctx) \<le> length (buffer ctx)"
proof -
  have i: "unat (of_nat i :: u32) = i"
    using assms(2) unsigned_less [of "sharecount ctx", where ?'a = nat]
    by (simp add: unsigned_of_nat take_bit_nat_eq_self)
  have "Suc i * unat (maxsize ctx) \<le> unat (sharecount ctx) * unat (maxsize ctx)"
    using assms(2) by (intro mult_right_mono) simp_all
  then have le: "i * unat (maxsize ctx) + unat (maxsize ctx) \<le> unat (sharecount ctx) * unat (maxsize ctx)"
    by simp
  then have "i * unat (maxsize ctx) < 2 ^ 32" using assms(1) by (simp add: ctx_ok_def)
  then show "unat (of_nat i * maxsize ctx) = i * unat (maxsize ctx)"
      "unat (maxsize ctx * of_nat i) = i * unat (maxsize ctx)"
    using i by (simp_all add: unat_word_ariths mult.commute)
  show "i * unat (maxsize ctx) + unat (size ctx) \<le> length (buffer ctx)"
    using le assms(1) unfolding ctx_ok_def by linarith
qed

lemma share_add_nth:
  assumes "ctx_ok ctx" and "c < unat (sharecount ctx)" and "unat (size ctx) \<le> length share"
  shows "length (share_add ilog ctx share c) = length share"
    and "pos < unat (size ctx) \<Longrightarrow> share_add ilog ctx share c ! pos =
      share_byte ilog (share ! pos) (buffer ctx ! (c * unat (maxsize ctx) + pos))"
    and "drop (unat (size ctx)) (share_add ilog ctx share c) = drop (unat (size ctx)) share"
  using assms by (simp_all add: share_add_def Let_def unat_mult_ok nth_blit)
    (simp add: blit_def)

lemma get_share_horner:
  assumes ctx: "ctx_ok ctx" and x: "sharenrs ctx ! i \<noteq> 0" and len: "unat (size ctx) \<le> length share"
  shows "length (get_share ctx i share) = length share"
    and "pos < unat (size ctx) \<Longrightarrow>
      Gfe (get_share ctx i share ! pos) = horner (share_coeffs ctx pos) (Gfe (sharenrs ctx ! i))"
proof -
  let ?x = "sharenrs ctx ! i"
  let ?ilog = "unat (logs ! unat ?x)"
  let ?s = "blit share 0 (sub (buffer ctx) 0 (unat (size ctx)))"
  let ?cs = "\<lambda>n pos. map (\<lambda>c. Gfe (buffer ctx ! (c * unat (maxsize ctx) + pos))) [0..<n]"
  have t: "1 \<le> unat (threshold ctx)" "unat (threshold ctx) \<le> unat (sharecount ctx)"
    using ctx by (simp_all add: ctx_ok_def)
  have buf: "unat (size ctx) \<le> length (buffer ctx)" using unat_mult_ok(3) [OF ctx, of 0] t by simp
  have loop: "length (foldl (share_add ?ilog ctx) ?s [1..<n]) = length share \<and>
      (\<forall>pos < unat (size ctx). Gfe (foldl (share_add ?ilog ctx) ?s [1..<n] ! pos) =
        horner (?cs n pos) (Gfe ?x))" if "1 \<le> n" "n \<le> unat (sharecount ctx)" for n
    using that
  proof (induction n rule: dec_induct)
    case base
    show ?case using buf len by (simp add: nth_blit horner_def)
  next
    case (step n)
    then show ?case
      using share_add_nth [OF ctx, of n] len
      by (simp add: horner_snoc share_byte_field x)
  qed
  from loop [OF t] show "length (get_share ctx i share) = length share"
    by (simp add: get_share_def)
  from loop [OF t] show "pos < unat (size ctx) \<Longrightarrow>
      Gfe (get_share ctx i share ! pos) = horner (share_coeffs ctx pos) (Gfe ?x)"
    by (simp add: get_share_def share_coeffs_def)
qed

section \<open>Recombination interpolates\<close>

text \<open>The shares the loops use: the first \<open>threshold\<close> indices whose share number is not 0.\<close>

definition avail :: "gfshare_ctx \<Rightarrow> nat \<Rightarrow> nat list" where
  "avail ctx i = filter (\<lambda>j. sharenrs ctx ! j \<noteq> 0) [i..<unat (sharecount ctx)]"

definition used :: "gfshare_ctx \<Rightarrow> nat list" where
  "used ctx = take (unat (threshold ctx)) (avail ctx 0)"

lemma avail_step:
  "avail ctx i = (if i < unat (sharecount ctx)
     then (if sharenrs ctx ! i = 0 then avail ctx (i + 1) else i # avail ctx (i + 1)) else [])"
  by (simp add: avail_def upt_conv_Cons)

lemma dec_loop_used:
  "dec_loop ctx n i s = fold (add_share ctx) (take (unat (threshold ctx) - n) (avail ctx i)) s"
proof (induction ctx n i s rule: dec_loop.induct)
  case (1 ctx n i s)
  then show ?case
    by (subst dec_loop.simps, subst avail_step) (auto simp: take_Cons' Suc_diff_Suc)
qed

text \<open>The sums of logarithms that the inner loop builds.\<close>

definition li_sums :: "gfshare_ctx \<Rightarrow> nat \<Rightarrow> nat list \<Rightarrow> u32 \<times> u32" where
  "li_sums ctx i js =
     (of_nat (\<Sum>j\<leftarrow>js. unat (logs ! unat (sharenrs ctx ! j))),
      of_nat (\<Sum>j\<leftarrow>js. unat (logs ! unat (sharenrs ctx ! i XOR sharenrs ctx ! j))))"

lemma li_loop_used:
  assumes "sharenrs ctx ! i \<noteq> 0"
  shows "li_loop ctx i n j (a, b) =
    (let (a', b') = li_sums ctx i (filter (\<lambda>j. j \<noteq> i) (take (unat (threshold ctx) - n) (avail ctx j)))
     in (a + a', b + b'))"
  using assms
proof (induction ctx i n j "(a, b)" arbitrary: a b rule: li_loop.induct)
  case (1 ctx i n j)
  have take_S: "n < t \<Longrightarrow> take (t - n) (x # xs) = x # take (t - Suc n) xs" for t x and xs :: "nat list"
    by (simp add: take_Cons' Suc_diff_Suc)
  consider "n < unat (threshold ctx) \<and> j < unat (sharecount ctx)" "i = j"
    | "n < unat (threshold ctx) \<and> j < unat (sharecount ctx)" "i \<noteq> j" "sharenrs ctx ! j = 0"
    | "n < unat (threshold ctx) \<and> j < unat (sharecount ctx)" "i \<noteq> j" "sharenrs ctx ! j \<noteq> 0"
    | "\<not> (n < unat (threshold ctx) \<and> j < unat (sharecount ctx))" by blast
  then show ?case
  proof cases
    case 1
    then show ?thesis
      using "1.hyps"(1) [OF 1] "1.prems"
      by (subst li_loop.simps, subst avail_step) (simp add: take_S)
  next
    case 2
    then show ?thesis
      using "1.hyps"(2) [OF 2] "1.prems"
      by (subst li_loop.simps, subst avail_step) simp
  next
    case 3
    then show ?thesis
      using "1.hyps"(3) [OF 3 refl] "1.prems"
      by (subst li_loop.simps, subst avail_step) (simp add: take_S li_sums_def ac_simps)
  next
    case 4
    then show ?thesis
      by (subst li_loop.simps, subst avail_step) (auto simp: li_sums_def)
  qed
qed

text \<open>The share numbers that are present are pairwise different.\<close>

definition nrs_distinct :: "gfshare_ctx \<Rightarrow> bool" where
  "nrs_distinct ctx \<longleftrightarrow> distinct (filter (\<lambda>x. x \<noteq> 0) (sharenrs ctx))"

lemma used_facts:
  assumes "ctx_ok ctx" and "nrs_distinct ctx"
  shows "distinct (used ctx)"
    and "\<And>i. i \<in> set (used ctx) \<Longrightarrow> i < unat (sharecount ctx) \<and> sharenrs ctx ! i \<noteq> 0"
    and "inj_on (\<lambda>i. sharenrs ctx ! i) (set (used ctx))"
    and "length (used ctx) \<le> 256"
proof -
  show d: "distinct (used ctx)" by (simp add: used_def avail_def)
  show "\<And>i. i \<in> set (used ctx) \<Longrightarrow> i < unat (sharecount ctx) \<and> sharenrs ctx ! i \<noteq> 0"
    by (auto simp: used_def avail_def dest!: in_set_takeD)
  have len: "length (sharenrs ctx) = unat (sharecount ctx)" using assms(1) by (simp add: ctx_ok_def)
  have "map (\<lambda>i. sharenrs ctx ! i) (avail ctx 0) = filter (\<lambda>x. x \<noteq> 0) (sharenrs ctx)"
    unfolding avail_def len [symmetric]
    by (subst (5) map_nth [symmetric], subst filter_map) (simp add: o_def)
  then have "distinct (map (\<lambda>i. sharenrs ctx ! i) (used ctx))"
    using assms(2) by (simp add: used_def nrs_distinct_def take_map [symmetric])
  then show inj: "inj_on (\<lambda>i. sharenrs ctx ! i) (set (used ctx))"
    by (simp add: distinct_map)
  have "length (used ctx) = card ((\<lambda>i. sharenrs ctx ! i) ` set (used ctx))"
    using d inj by (simp add: card_image distinct_card)
  also have "\<dots> \<le> card (UNIV :: u8 set)" by (rule card_mono) auto
  finally show "length (used ctx) \<le> 256" by (simp add: card_word)
qed

lemma sum_logs_less: "length js \<le> 256 \<Longrightarrow> (\<Sum>j\<leftarrow>js. unat (logs ! unat (f j :: u8))) < 2 ^ 31"
proof -
  assume "length js \<le> 256"
  moreover have "(\<Sum>j\<leftarrow>js. unat (logs ! unat (f j))) \<le> (\<Sum>j\<leftarrow>js. 255)"
    by (rule sum_list_mono) (meson less_imp_le logs_255)
  ultimately show ?thesis by (simp add: sum_list_triv)
qed

lemma li_log_nat:
  assumes "ctx_ok ctx" and "nrs_distinct ctx" and "i \<in> set (used ctx)"
  shows "unat (li_log ctx i) =
    ((\<Sum>j\<leftarrow>filter (\<lambda>j. j \<noteq> i) (used ctx). unat (logs ! unat (sharenrs ctx ! j))) +
     (255 - (\<Sum>j\<leftarrow>filter (\<lambda>j. j \<noteq> i) (used ctx).
        unat (logs ! unat (sharenrs ctx ! i XOR sharenrs ctx ! j))) mod 255)) mod 255"
proof -
  note u = used_facts [OF assms(1,2)]
  define js where "js = filter (\<lambda>j. j \<noteq> i) (used ctx)"
  have len: "length js \<le> 256"
    using u(4) length_filter_le [of "\<lambda>j. j \<noteq> i" "used ctx"] unfolding js_def by linarith
  define t where "t = (\<Sum>j\<leftarrow>js. unat (logs ! unat (sharenrs ctx ! j)))"
  define b where "b = (\<Sum>j\<leftarrow>js. unat (logs ! unat (sharenrs ctx ! i XOR sharenrs ctx ! j)))"
  have tb: "t < 2 ^ 31" "b < 2 ^ 31" unfolding t_def b_def by (rule sum_logs_less [OF len])+
  have nz: "sharenrs ctx ! i \<noteq> 0" using u(2) assms(3) by blast
  have run: "li_loop ctx i 0 0 (0, 0) = (of_nat t, of_nat b)"
    using li_loop_used [OF nz, of 0 0 0 0]
    by (simp add: li_sums_def t_def b_def js_def used_def)
  have ub: "unat (of_nat b mod 0xff :: u32) = b mod 255"
    using tb by (simp add: unat_mod unsigned_of_nat take_bit_nat_eq_self)
  have "unat (0xff - of_nat b mod 0xff :: u32) = 255 - b mod 255"
    by (subst unat_sub) (simp_all add: ub word_le_nat_alt)
  moreover have "t + (255 - b mod 255) < 2 ^ 32" using tb by simp
  ultimately have "unat (of_nat t + (0xff - of_nat b mod 0xff) :: u32) = t + (255 - b mod 255)"
    using tb by (simp add: unat_word_ariths unsigned_of_nat take_bit_nat_eq_self)
  then show ?thesis
    by (simp add: li_log_def run unat_mod t_def [symmetric] b_def [symmetric] js_def [symmetric])
qed

lemma prod_list_distinct: "distinct js \<Longrightarrow> (\<Prod>j\<leftarrow>js. f j) = (\<Prod>j\<in>set js. f j)"
  for f :: "nat \<Rightarrow> gfe"
  by (induction js) simp_all

lemma li_log_field:
  assumes "ctx_ok ctx" and "nrs_distinct ctx" and "i \<in> set (used ctx)"
  shows "Gfe (gs.pw (unat (li_log ctx i))) = (\<Prod>j\<in>set (used ctx) - {i}.
    Gfe (sharenrs ctx ! j) / (Gfe (sharenrs ctx ! j) - Gfe (sharenrs ctx ! i)))"
proof -
  note u = used_facts [OF assms(1,2)]
  define js where "js = filter (\<lambda>j. j \<noteq> i) (used ctx)"
  have js: "set js = set (used ctx) - {i}" "distinct js" using u(1) by (auto simp: js_def)
  have top: "\<forall>a \<in> set (map (\<lambda>j. sharenrs ctx ! j) js). a \<noteq> 0" using u(2) by (auto simp: js)
  have bot: "\<forall>a \<in> set (map (\<lambda>j. sharenrs ctx ! i XOR sharenrs ctx ! j) js). a \<noteq> 0"
  proof -
    have "sharenrs ctx ! i XOR sharenrs ctx ! j \<noteq> 0" if "j \<in> set js" for j
    proof -
      have "sharenrs ctx ! i \<noteq> sharenrs ctx ! j"
        using inj_onD [OF u(3), of i j] that assms(3) by (auto simp: js)
      then show ?thesis by (simp add: word_xor_eq_0)
    qed
    then show ?thesis by auto
  qed
  have "Gfe (gs.pw (unat (li_log ctx i))) =
      (\<Prod>j\<leftarrow>js. Gfe (sharenrs ctx ! j)) / (\<Prod>j\<leftarrow>js. Gfe (sharenrs ctx ! i XOR sharenrs ctx ! j))"
    unfolding li_log_nat [OF assms] Gfe_pw_quotient
    using Gfe_pw_sum_list [OF top] Gfe_pw_sum_list [OF bot]
    by (simp add: js_def o_def)
  also have "\<dots> = (\<Prod>j\<in>set js. Gfe (sharenrs ctx ! j) /
      (Gfe (sharenrs ctx ! j) - Gfe (sharenrs ctx ! i)))"
    by (simp add: prod_list_distinct js(2) prod_dividef Gfe_xor(2) [symmetric] xor.commute)
  finally show ?thesis by (simp add: js)
qed

lemma li_log_255: "unat (li_log ctx i) < 255"
  by (simp add: li_log_def Let_def unat_mod split: prod.splits)

lemma add_share_field:
  assumes "ctx_ok ctx" and "i < unat (sharecount ctx)" and "unat (size ctx) \<le> length s"
  shows "length (add_share ctx i s) = length s"
    and "pos < unat (size ctx) \<Longrightarrow> Gfe (add_share ctx i s ! pos) = Gfe (s ! pos) +
      Gfe (buffer ctx ! (i * unat (maxsize ctx) + pos)) * Gfe (gs.pw (unat (li_log ctx i)))"
proof -
  have mul: "Gfe (exps ! (unat (li_log ctx i) + unat (logs ! unat b))) =
      Gfe b * Gfe (gs.pw (unat (li_log ctx i)))" if "b \<noteq> 0" for b :: u8
    using that li_log_255 [of ctx i] logs_255 [of b]
    by (simp add: exps_pw Gfe_pw_add Gfe_log mult.commute)
  show "length (add_share ctx i s) = length s"
    using assms by (simp add: add_share_def Let_def)
  show "pos < unat (size ctx) \<Longrightarrow> Gfe (add_share ctx i s ! pos) = Gfe (s ! pos) +
      Gfe (buffer ctx ! (i * unat (maxsize ctx) + pos)) * Gfe (gs.pw (unat (li_log ctx i)))"
    using assms by (simp add: add_share_def Let_def nth_blit unat_mult_ok Gfe_xor(1) mul)
qed

lemma fold_add_share:
  assumes "ctx_ok ctx" and "\<forall>i \<in> set is. i < unat (sharecount ctx)"
    and "unat (size ctx) \<le> length s"
  shows "length (fold (add_share ctx) is s) = length s \<and>
    (\<forall>pos < unat (size ctx). Gfe (fold (add_share ctx) is s ! pos) = Gfe (s ! pos) +
      (\<Sum>i\<leftarrow>is. Gfe (buffer ctx ! (i * unat (maxsize ctx) + pos)) * Gfe (gs.pw (unat (li_log ctx i)))))"
  using assms(2,3)
  by (induction "is" arbitrary: s) (simp_all add: add_share_field assms(1) ac_simps)

text \<open>When the buffer holds values of a polynomial with \<open>threshold\<close> coefficients, the outer loop
  adds up the Lagrange sum, which is the last coefficient.\<close>

lemma dec_loop_interpolates:
  assumes ctx: "ctx_ok ctx" and dist: "nrs_distinct ctx"
    and enough: "unat (threshold ctx) \<le> length (avail ctx 0)"
    and cs: "length cs = unat (threshold ctx)"
    and len: "unat (size ctx) \<le> length s" and pos: "pos < unat (size ctx)" and s0: "s ! pos = 0"
    and poly: "\<And>i. i \<in> set (used ctx) \<Longrightarrow>
      Gfe (buffer ctx ! (i * unat (maxsize ctx) + pos)) = horner cs (Gfe (sharenrs ctx ! i))"
  shows "Gfe (dec_loop ctx 0 0 s ! pos) = last cs"
proof -
  note u = used_facts [OF ctx dist]
  let ?x = "\<lambda>i. Gfe (sharenrs ctx ! i)"
  let ?S = "?x ` set (used ctx)"
  have inj: "inj_on ?x (set (used ctx))" using u(3) by (auto simp: inj_on_def Gfe_inject)
  have S: "finite ?S" "0 \<notin> ?S" using u(2) by auto
  have "card ?S = length (used ctx)" using inj u(1) by (simp add: card_image distinct_card)
  then have card: "card ?S = length cs" using enough cs by (simp add: used_def)
  have "cs \<noteq> []" using cs ctx by (auto simp: ctx_ok_def)
  have sum: "(\<Sum>i\<leftarrow>used ctx. f i) = (\<Sum>i\<in>set (used ctx). f i)" for f :: "nat \<Rightarrow> gfe"
    using u(1) by (simp add: sum_list_distinct_conv_sum_set)
  have "\<forall>i \<in> set (used ctx). i < unat (sharecount ctx)" using u(2) by blast
  then have "Gfe (dec_loop ctx 0 0 s ! pos) =
      (\<Sum>i\<in>set (used ctx). horner cs (?x i) * Gfe (gs.pw (unat (li_log ctx i))))"
    using fold_add_share [OF ctx _ len] pos s0 poly
    by (simp add: dec_loop_used used_def [symmetric] sum)
  also have "\<dots> = (\<Sum>i\<in>set (used ctx). horner cs (?x i) * (\<Prod>y\<in>?S - {?x i}. y / (y - ?x i)))"
  proof (rule sum.cong [OF refl])
    fix i assume i: "i \<in> set (used ctx)"
    have "?S - {?x i} = ?x ` (set (used ctx) - {i})" using inj i by (auto dest: inj_onD)
    then have "(\<Prod>y\<in>?S - {?x i}. y / (y - ?x i)) =
        (\<Prod>j\<in>set (used ctx) - {i}. ?x j / (?x j - ?x i))"
      by (simp add: prod.reindex inj_on_subset [OF inj])
    then show "horner cs (?x i) * Gfe (gs.pw (unat (li_log ctx i))) =
        horner cs (?x i) * (\<Prod>y\<in>?S - {?x i}. y / (y - ?x i))"
      using li_log_field [OF ctx dist i] by simp
  qed
  also have "\<dots> = (\<Sum>x\<in>?S. horner cs x * (\<Prod>y\<in>?S - {x}. y / (y - x)))"
    by (simp add: sum.reindex [OF inj])
  also have "\<dots> = last cs" using S card \<open>cs \<noteq> []\<close> by (rule interpolate_0)
  finally show ?thesis .
qed

section \<open>Splitting and recombining\<close>

text \<open>Copying the shares into the slots of the buffer.\<close>

lemma fill_slots:
  assumes "n * m \<le> length buf" and "\<And>i. i < n \<Longrightarrow> length (f i) \<le> m"
  shows "length (fold (\<lambda>i buf. blit buf (i * m) (f i)) [0..<n] buf) = length buf"
    and "i < n \<Longrightarrow> pos < length (f i) \<Longrightarrow>
      fold (\<lambda>i buf. blit buf (i * m) (f i)) [0..<n] buf ! (i * m + pos) = f i ! pos"
proof -
  let ?b = "\<lambda>n. fold (\<lambda>i buf. blit buf (i * m) (f i)) [0..<n] buf"
  have "length (?b n) = length buf \<and>
      (\<forall>i < n. \<forall>pos < length (f i). ?b n ! (i * m + pos) = f i ! pos)"
    using assms
  proof (induction n)
    case (Suc n)
    have fit: "n * m + length (f n) \<le> length buf" using Suc.prems(1) Suc.prems(2) [of n] by simp
    have IH: "length (?b n) = length buf"
        "\<And>i pos. i < n \<Longrightarrow> pos < length (f i) \<Longrightarrow> ?b n ! (i * m + pos) = f i ! pos"
      using Suc by auto
    have "blit (?b n) (n * m) (f n) ! (i * m + pos) = f i ! pos"
      if "i < n" "pos < length (f i)" for i pos
    proof -
      have "Suc i * m \<le> n * m" using that by (intro mult_right_mono) simp_all
      moreover have "pos < m" using that Suc.prems(2) [of i] by simp
      ultimately have "i * m + pos < n * m" by simp
      then show ?thesis
        using nth_blit [of "n * m" "f n" "?b n" "i * m + pos"] IH that fit by simp
    qed
    then show ?case using IH fit by (auto simp: nth_blit less_Suc_eq)
  qed simp
  then show "length (?b n) = length buf"
    "i < n \<Longrightarrow> pos < length (f i) \<Longrightarrow> ?b n ! (i * m + pos) = f i ! pos" by blast+
qed

lemma getshares_polynomial:
  assumes run: "gfshare_ctx_enc_getshares ctx secret shares k = (out, ctx', k')"
    and ctx: "ctx_ok ctx" and nz: "\<forall>i < unat (sharecount ctx). sharenrs ctx ! i \<noteq> 0"
    and secret: "unat (size ctx) \<le> length secret"
    and shares: "\<forall>i < unat (sharecount ctx). unat (size ctx) \<le> length (shares ! i)"
  shows "\<forall>pos < unat (size ctx). \<exists>cs. length cs = unat (threshold ctx) \<and> last cs = Gfe (secret ! pos) \<and>
      (\<forall>i < unat (sharecount ctx). Gfe (out ! i ! pos) = horner cs (Gfe (sharenrs ctx ! i)))"
    and "length out = unat (sharecount ctx)"
    and "i < unat (sharecount ctx) \<Longrightarrow> length (out ! i) = length (shares ! i)"
proof -
  define t where "t = unat (threshold ctx) - 1"
  define n where "n = unat ((threshold ctx - 1) * maxsize ctx)"
  define buf where "buf = blit (buffer ctx) n (take (unat (size ctx)) secret)"
  have t: "t < unat (sharecount ctx)" "unat (threshold ctx) = Suc t" "1 \<le> threshold ctx"
    using ctx by (auto simp: t_def ctx_ok_def word_le_nat_alt)
  have "threshold ctx - 1 = of_nat t"
    using t(2,3) by (metis t_def unat_sub unsigned_1 of_nat_unat ucast_id)
  then have n: "n = t * unat (maxsize ctx)" by (simp add: n_def unat_mult_ok [OF ctx t(1)])
  have fit: "n + unat (size ctx) \<le> length (buffer ctx)"
    using unat_mult_ok(3) [OF ctx t(1)] by (simp add: n)
  obtain buf' k1 where fill: "gfshare_fill_rand buf n k = (buf', k1)" by fastforce
  have len: "length buf = length (buffer ctx)" using fit secret by (simp add: buf_def min_absorb2)
  have n32: "n < 2 ^ 32" using fit ctx by (simp add: ctx_ok_def)
  note frame = gfshare_fill_rand_frame [OF fill _ n32]
  have res: "ctx' = ctx\<lparr>buffer := buf'\<rparr>"
    "out = map (\<lambda>i. get_share (ctx\<lparr>buffer := buf'\<rparr>) i (shares ! i)) [0..<unat (sharecount ctx)]"
    using run fill by (auto simp: gfshare_ctx_enc_getshares_def Let_def n_def buf_def)
  have ctx': "ctx_ok ctx'" using ctx frame(1) fit len by (simp add: ctx_ok_def res)
  have sec: "buf' ! (n + pos) = secret ! pos" if "pos < unat (size ctx)" for pos
  proof -
    have "buf' ! (n + pos) = drop n buf' ! pos" using that fit len frame(1) by simp
    also have "\<dots> = buf ! (n + pos)" using that fit len frame(2) by simp
    also have "\<dots> = secret ! pos"
      using that fit secret by (simp add: buf_def nth_blit min_absorb2)
    finally show ?thesis .
  qed
  show "\<forall>pos < unat (size ctx). \<exists>cs. length cs = unat (threshold ctx) \<and> last cs = Gfe (secret ! pos) \<and>
      (\<forall>i < unat (sharecount ctx). Gfe (out ! i ! pos) = horner cs (Gfe (sharenrs ctx ! i)))"
  proof (intro allI impI, rule exI, intro conjI allI impI)
    fix pos assume pos: "pos < unat (size ctx)"
    show "length (share_coeffs ctx' pos) = unat (threshold ctx)"
      by (simp add: share_coeffs_def res)
    show "last (share_coeffs ctx' pos) = Gfe (secret ! pos)"
      using sec [OF pos] t(2) by (simp add: share_coeffs_def res n)
    fix i assume i: "i < unat (sharecount ctx)"
    then show "Gfe (out ! i ! pos) = horner (share_coeffs ctx' pos) (Gfe (sharenrs ctx ! i))"
      using get_share_horner(2) [OF ctx', of i "shares ! i" pos] nz shares pos by (simp add: res)
  qed
  show "length out = unat (sharecount ctx)" by (simp add: res)
  show "i < unat (sharecount ctx) \<Longrightarrow> length (out ! i) = length (shares ! i)"
    using get_share_horner(1) [OF ctx', of i "shares ! i"] nz shares by (simp add: res)
qed

section \<open>Properties\<close>

lemma init_enc_core:
  assumes "gfshare_ctx_init_enc nrs n t m k = (Some ctx, k')"
  shows "gfshare_ctx_init_core nrs n t m k = (Some ctx, k')" and "\<forall>i < unat n. nrs ! i \<noteq> 0"
  using assms by (auto simp: gfshare_ctx_init_enc_def split: if_splits)

lemma dec_decode_interpolates:
  assumes ctx: "ctx_ok ctx" and nrs: "length nrs = unat (sharecount ctx)"
    and dist: "distinct (filter (\<lambda>x. x \<noteq> 0) nrs)"
    and enough: "unat (threshold ctx) \<le> length (filter (\<lambda>x. x \<noteq> 0) nrs)"
    and shares: "\<forall>i < unat (sharecount ctx). unat (size ctx) \<le> length (shares ! i)"
    and buf: "unat (size ctx) \<le> length secretbuf" and pos: "pos < unat (size ctx)"
    and cs: "length cs = unat (threshold ctx)"
    and poly: "\<forall>i < unat (sharecount ctx). nrs ! i \<noteq> 0 \<longrightarrow>
      Gfe (shares ! i ! pos) = horner cs (Gfe (nrs ! i))"
  shows "Gfe (fst (gfshare_ctx_dec_decode ctx nrs shares secretbuf) ! pos) = last cs"
proof -
  let ?n = "unat (sharecount ctx)" and ?m = "unat (maxsize ctx)" and ?sz = "unat (size ctx)"
  define b where "b = fold (\<lambda>i buf. blit buf (i * ?m) (take ?sz (shares ! i))) [0..<?n] (buffer ctx)"
  define ctx' where "ctx' = ctx\<lparr>sharenrs := nrs, buffer := b\<rparr>"
  have szm: "?sz \<le> ?m" and lb: "length (buffer ctx) = ?n * ?m" and ln: "length (sharenrs ctx) = ?n"
    using ctx by (simp_all add: ctx_ok_def)
  note slots = fill_slots [of ?n ?m "buffer ctx" "\<lambda>i. take ?sz (shares ! i)"]
  have b: "length b = length (buffer ctx)"
      "\<And>i. i < ?n \<Longrightarrow> b ! (i * ?m + pos) = shares ! i ! pos"
    using slots szm lb shares pos by (simp_all add: b_def)
  have "fold (\<lambda>i buf. blit buf (unat (of_nat i * maxsize ctx)) (take ?sz (shares ! i))) [0..<?n]
      (buffer ctx) = b"
    unfolding b_def by (rule fold_cong) (simp_all add: unat_mult_ok [OF ctx])
  then have dec: "fst (gfshare_ctx_dec_decode ctx nrs shares secretbuf) =
      dec_loop ctx' 0 0 (blit secretbuf 0 (replicate ?sz 0))"
    by (simp add: gfshare_ctx_dec_decode_def Let_def ctx'_def nrs ln)
  have "map (\<lambda>j. nrs ! j) (filter (\<lambda>j. nrs ! j \<noteq> 0) [0..<?n]) = filter (\<lambda>x. x \<noteq> 0) nrs"
    unfolding nrs [symmetric] by (subst (5) map_nth [symmetric], subst filter_map) (simp add: o_def)
  then have av: "length (avail ctx' 0) = length (filter (\<lambda>x. x \<noteq> 0) nrs)"
    by (metis avail_def ctx'_def gfshare_ctx.select_convs(1,5) gfshare_ctx.update_convs(5,6)
        gfshare_ctx.surjective length_map)
  have ok: "ctx_ok ctx'" "nrs_distinct ctx'"
    using ctx dist b(1) nrs by (simp_all add: ctx_ok_def nrs_distinct_def ctx'_def)
  show ?thesis
    unfolding dec
  proof (rule dec_loop_interpolates [OF ok])
    show "unat (threshold ctx') \<le> length (avail ctx' 0)" using enough av by (simp add: ctx'_def)
    show "length cs = unat (threshold ctx')" using cs by (simp add: ctx'_def)
    show "unat (size ctx') \<le> length (blit secretbuf 0 (replicate ?sz 0))"
      using buf by (simp add: ctx'_def)
    show "pos < unat (size ctx')" using pos by (simp add: ctx'_def)
    show "blit secretbuf 0 (replicate ?sz 0) ! pos = 0" using pos buf by (simp add: nth_blit)
    fix i assume "i \<in> set (used ctx')"
    then have "i < ?n \<and> nrs ! i \<noteq> 0" using used_facts(2) [OF ok] by (auto simp: ctx'_def)
    then show "Gfe (buffer ctx' ! (i * unat (maxsize ctx') + pos)) =
        horner cs (Gfe (sharenrs ctx' ! i))"
      using b(2) poly by (simp add: ctx'_def)
  qed
qed

lemma length_dec_decode:
  "unat (size ctx) \<le> length secretbuf \<Longrightarrow>
   length (fst (gfshare_ctx_dec_decode ctx nrs shares secretbuf)) = length secretbuf"
proof -
  assume le: "unat (size ctx) \<le> length secretbuf"
  have "length (fold (add_share c) is s) = length s" if "unat (size c) \<le> length s" for c s "is"
    using that by (induction "is" arbitrary: s) (simp_all add: add_share_def Let_def)
  then show ?thesis using le by (simp add: gfshare_ctx_dec_decode_def Let_def dec_loop_used)
qed

text \<open>C11: any \<open>threshold\<close> shares give the secret back. The shares come from
  \<open>gfshare_ctx_enc_getshares\<close> with distinct share numbers, whatever the random stream and the
  fresh memory hold. The decoder gets the same numbers with 0 for each missing share; as long
  as \<open>threshold\<close> of them are left, \<open>gfshare_ctx_dec_decode\<close> writes the secret, whatever the
  missing shares contain. The threshold, the number of shares and the size are arbitrary.\<close>

theorem gfshare_roundtrip:
  assumes enc: "gfshare_ctx_init_enc nrs n t m k = (Some ctx, k1)"
    and out: "gfshare_ctx_enc_getshares ctx secret bufs k1 = (shares, ctx1, k2)"
    and dec: "gfshare_ctx_init_dec nrs0 n t m k3 = (Some dctx, k4)"
    and sizes: "unat n * unat m < 2 ^ 32" "unat n \<le> length nrs" "unat n \<le> length nrs0"
    and nrs: "distinct (take (unat n) nrs)"
    and secret: "length secret = unat m" "\<forall>i < unat n. unat m \<le> length (bufs ! i)"
    and present: "length nrs' = unat n" "\<forall>i < unat n. nrs' ! i = 0 \<or> nrs' ! i = nrs ! i"
      "unat t \<le> length (filter (\<lambda>x. x \<noteq> 0) nrs')"
    and shares: "\<forall>i < unat n. unat m \<le> length (shares' ! i)"
      "\<forall>i < unat n. nrs' ! i \<noteq> 0 \<longrightarrow> shares' ! i = shares ! i"
    and buf: "length secretbuf = unat m"
  shows "fst (gfshare_ctx_dec_decode dctx nrs' shares' secretbuf) = secret"
proof -
  note c = init_core_ok [OF init_enc_core(1) [OF enc] sizes(1,2)]
  note d = init_core_ok [OF dec [unfolded gfshare_ctx_init_dec_def] sizes(1,3)]
  have nrs_ctx: "sharenrs ctx ! i = nrs ! i" "sharenrs ctx ! i \<noteq> 0" if "i < unat n" for i
    using c(2) that init_enc_core(2) [OF enc] by simp_all
  have dist: "distinct (filter (\<lambda>x. x \<noteq> 0) nrs')"
  proof -
    have idx: "distinct (filter (\<lambda>i. nrs' ! i \<noteq> 0) [0..<unat n])" by simp
    have "inj_on ((!) nrs') (set (filter (\<lambda>i. nrs' ! i \<noteq> 0) [0..<unat n]))"
      using nrs present(2) sizes(2) by (auto simp: inj_on_def distinct_conv_nth) metis
    moreover have "filter (\<lambda>x. x \<noteq> 0) nrs' = map ((!) nrs') (filter (\<lambda>i. nrs' ! i \<noteq> 0) [0..<unat n])"
      unfolding present(1) [symmetric]
      by (subst (1) map_nth [symmetric], subst filter_map) (simp add: o_def)
    ultimately show ?thesis using idx by (simp add: distinct_map)
  qed
  have sz: "unat (size ctx) = unat m" "unat (size dctx) = unat m" "unat (maxsize dctx) = unat m"
    using c(5-7) d(5-7) by simp_all
  have "fst (gfshare_ctx_dec_decode dctx nrs' shares' secretbuf) ! pos = secret ! pos"
    if pos: "pos < unat m" for pos
  proof -
    obtain cs where cs: "length cs = unat t" "last cs = Gfe (secret ! pos)"
        "\<forall>i < unat n. Gfe (shares ! i ! pos) = horner cs (Gfe (nrs ! i))"
      using getshares_polynomial(1) [OF out c(1)] nrs_ctx secret pos sz c(3,4) by auto
    have "Gfe (fst (gfshare_ctx_dec_decode dctx nrs' shares' secretbuf) ! pos) = last cs"
      by (rule dec_decode_interpolates [OF d(1)])
        (use present shares buf pos cs sz d(3,4) dist in auto)
    then show ?thesis using cs(2) by (simp add: Gfe_inject)
  qed
  then show ?thesis
    using secret(1) buf sz(2) by (intro nth_equalityI) (simp_all add: length_dec_decode)
qed

lemma init_core_Some:
  assumes "alloc_ok k" and "1 \<le> m" and "1 \<le> t" and "t \<le> n"
  shows "\<exists>ctx k'. gfshare_ctx_init_core nrs n t m k = (Some ctx, k') \<and> alloc_ok k'"
  using assms by (auto simp: gfshare_ctx_init_core_def kmalloc_alloc_ok not_less)

lemma demo_alloc_ok [simp]: "alloc_ok demo_kernel"
  by (simp add: alloc_ok_def demo_kernel_def)

theorem gfshare_roundtrip_witness:
  "\<exists>ctx k1 shares ctx1 k2 dctx k4.
     gfshare_ctx_init_enc [48, 49, 50, 51] 4 2 16 demo_kernel = (Some ctx, k1) \<and>
     gfshare_ctx_enc_getshares ctx (replicate 16 42) (replicate 4 (replicate 16 0)) k1
       = (shares, ctx1, k2) \<and>
     gfshare_ctx_init_dec [48, 49, 50, 51] 4 2 16 demo_kernel = (Some dctx, k4) \<and>
     fst (gfshare_ctx_dec_decode dctx [0, 49, 0, 51]
       [replicate 16 7, shares ! 1, replicate 16 9, shares ! 3] (replicate 16 0)) = replicate 16 42"
proof -
  have init: "gfshare_ctx_init_enc [48, 49, 50, 51] 4 2 16 demo_kernel =
      gfshare_ctx_init_core [48, 49, 50, 51] 4 2 16 demo_kernel"
    by (simp add: gfshare_ctx_init_enc_def upt_rec)
  obtain ctx k1 where core: "gfshare_ctx_init_core [48, 49, 50, 51] 4 2 16 demo_kernel = (Some ctx, k1)"
    using init_core_Some [of demo_kernel 16 2 4 "[48, 49, 50, 51]"] by auto
  have enc: "gfshare_ctx_init_enc [48, 49, 50, 51] 4 2 16 demo_kernel = (Some ctx, k1)"
    using init core by simp
  have dec: "gfshare_ctx_init_dec [48, 49, 50, 51] 4 2 16 demo_kernel = (Some ctx, k1)"
    using core by (simp add: gfshare_ctx_init_dec_def)
  obtain shares ctx1 k2 where out: "gfshare_ctx_enc_getshares ctx (replicate 16 42)
      (replicate 4 (replicate 16 0)) k1 = (shares, ctx1, k2)"
    by (cases "gfshare_ctx_enc_getshares ctx (replicate 16 42) (replicate 4 (replicate 16 0)) k1")
  note c = init_core_ok [OF core]
  have four: "i < 4 \<longleftrightarrow> i = 0 \<or> i = 1 \<or> i = 2 \<or> i = (3 :: nat)" for i by auto
  have len: "length (shares ! i) = 16" if "i < 4" for i
    using getshares_polynomial(3) [OF out] c that by (simp add: four)
  have "fst (gfshare_ctx_dec_decode ctx [0, 49, 0, 51]
      [replicate 16 7, shares ! 1, replicate 16 9, shares ! 3] (replicate 16 0)) = replicate 16 42"
    by (rule gfshare_roundtrip [OF enc out dec]) (use len [of 1] len [of 3] in \<open>auto simp: four\<close>)
  then show ?thesis using enc out dec by blast
qed

text \<open>One step of the evaluation is a bijection in the coefficient: for a share number
  \<open>x \<noteq> 0\<close> and a share byte \<open>v\<close>, every secret byte \<open>s\<close> is explained by exactly one
  coefficient \<open>r\<close>. The code draws the coefficients from a generator with a seed of 16 bytes, so this says nothing about
  the secrecy of a share as a whole.\<close>

theorem gfshare_one_share_hides:
  assumes "(x :: u8) \<noteq> 0"
  shows "\<exists>!r. share_byte (unat (logs ! unat x)) r s = v"
proof -
  have iff: "share_byte (unat (logs ! unat x)) r s = v \<longleftrightarrow> Gfe r = (Gfe v - Gfe s) / Gfe x" for r
  proof -
    have "share_byte (unat (logs ! unat x)) r s = v \<longleftrightarrow> Gfe r * Gfe x + Gfe s = Gfe v"
      using share_byte_field [OF assms, of r s] by (metis Gfe_inject UNIV_I)
    then show ?thesis using assms by (simp add: field_simps eq_diff_eq)
  qed
  show ?thesis
    unfolding iff
  proof (rule ex1I)
    show "Gfe (byte_of ((Gfe v - Gfe s) / Gfe x)) = (Gfe v - Gfe s) / Gfe x" by simp
    show "r = byte_of ((Gfe v - Gfe s) / Gfe x)" if "Gfe r = (Gfe v - Gfe s) / Gfe x" for r
      using that [symmetric] by simp
  qed
qed

theorem gfshare_one_share_hides_witness:
  "\<exists>!r. share_byte (unat (logs ! unat (49 :: u8))) r 42 = 7"
  by (rule gfshare_one_share_hides) simp

lemma word_ge_1: "1 \<le> x \<longleftrightarrow> x \<noteq> (0 :: 'a::len word)"
  using word_less_1 [of x] by (simp add: not_less [symmetric])

text \<open>the initialiser of the splitter refuses share number 0, a zero size, a zero threshold
  and a threshold above the number of shares, and then allocates nothing; otherwise, when memory
  lasts, it returns a context that satisfies the invariant of the loops.\<close>

theorem gfshare_init_enc_guards:
  assumes "alloc_ok k" and "unat n * unat m < 2 ^ 32" and "unat n \<le> length nrs"
  shows "if 0 \<in> set (take (unat n) nrs) \<or> m = 0 \<or> t = 0 \<or> n < t
    then gfshare_ctx_init_enc nrs n t m k = (None, k)
    else \<exists>ctx k'. gfshare_ctx_init_enc nrs n t m k = (Some ctx, k') \<and> ctx_ok ctx \<and>
           sharenrs ctx = take (unat n) nrs \<and> threshold ctx = t \<and> sharecount ctx = n"
proof -
  have zero: "(\<exists>i \<in> set [0..<unat n]. nrs ! i = 0) \<longleftrightarrow> 0 \<in> set (take (unat n) nrs)"
    using assms(3) by (auto simp: in_set_conv_nth)
  show ?thesis
  proof (cases "0 \<in> set (take (unat n) nrs) \<or> m = 0 \<or> t = 0 \<or> n < t")
    case True
    then show ?thesis
      using zero by (auto simp: gfshare_ctx_init_enc_def gfshare_ctx_init_core_def word_less_1)
  next
    case False
    then obtain ctx k' where "gfshare_ctx_init_core nrs n t m k = (Some ctx, k')"
      using init_core_Some [OF assms(1), of m t n nrs] by (auto simp: word_ge_1 not_less)
    then show ?thesis
      using False zero init_core_ok [OF _ assms(2,3)] by (auto simp: gfshare_ctx_init_enc_def)
  qed
qed

theorem gfshare_init_enc_guards_witness:
  "\<exists>ctx k'. gfshare_ctx_init_enc [48, 49, 50, 51] 4 2 4096 demo_kernel = (Some ctx, k') \<and> ctx_ok ctx \<and>
     sharenrs ctx = [48, 49, 50, 51] \<and> threshold ctx = 2 \<and> sharecount ctx = 4"
  using gfshare_init_enc_guards [of demo_kernel 4 4096 "[48, 49, 50, 51]" 2] by simp

end
