(* ===== verification/Afs_Speck.thy ===== *)
theory Afs_Speck
  imports Afs_Prelude
begin

text \<open>
  The block cipher Speck128/256 and its counter mode, \<open>src/src/lib/speck.c\<close>. A \<open>uint64_t *\<close>
  argument is a list of words, and an operation that writes through it returns the new list.
  Allocation can fail: then \<open>speck_encrypt\<close>, \<open>speck_decrypt\<close> and \<open>speck_ctr\<close> return with the
  output untouched, as in the code. Shown here: the counter is a 128-bit counter,
  \<open>dec_round\<close> inverts \<open>enc_round\<close>, counter mode is an involution as long as memory lasts, and
  \<open>speck_decrypt\<close>, which walks the round keys forward, does not invert \<open>speck_encrypt\<close>.
\<close>

section \<open>The cipher\<close>

definition ROUNDS :: nat where
  "ROUNDS = 34"

text \<open>\<open>int8_t rotation\<close>: the code calls it with 3, 8, -3 and -8.\<close>

definition rotate_u64 :: "u64 \<Rightarrow> int \<Rightarrow> u64" where
  "rotate_u64 w rotation =
     (if rotation > 0 then drop_bit (nat (64 - rotation)) w OR push_bit (nat rotation) w
      else (let rotation' = - 1 * rotation in
        push_bit (nat (64 - rotation')) w OR drop_bit (nat rotation') w))"

function add1_loop :: "u64 list \<Rightarrow> nat \<Rightarrow> nat \<Rightarrow> u64 list" where
  "add1_loop ws len i =
     (if ws ! i = - 1
      then (let ws' = ws[i := 0]; i' = i + 1 in if i' < len then add1_loop ws' len i' else ws')
      else ws[i := ws ! i + 1])"
  by auto
termination by (relation "measure (\<lambda>(ws, len, i). len - i)") auto

declare add1_loop.simps [simp del]

definition add1 :: "u64 list \<Rightarrow> nat \<Rightarrow> u64 list" where
  "add1 ws len = add1_loop ws len 0"

definition key_step :: "nat \<Rightarrow> u64 list \<times> u64 list \<Rightarrow> u64 list \<times> u64 list" where
  "key_step i st = (case st of (l, ks) \<Rightarrow>
     let l' = l[i mod 3 := (ks ! i + rotate_u64 (l ! (i mod 3)) (- 8)) XOR of_nat i]
     in (l', ks[i + 1 := rotate_u64 (ks ! i) 3 XOR l' ! (i mod 3)]))"

definition key_schedule :: "u64 list \<Rightarrow> u64 list \<Rightarrow> u64 list" where
  "key_schedule key ks =
     snd (fold key_step [0..<ROUNDS - 1] ([key ! 1, key ! 2, key ! 3], ks[0 := key ! 0]))"

definition enc_round :: "u64 list \<Rightarrow> u64 \<Rightarrow> u64 list" where
  "enc_round ws key = (let left = ws ! 1; right = ws ! 0 in
     ws[1 := (rotate_u64 left (- 8) + right) XOR key,
        0 := rotate_u64 right 3 XOR (rotate_u64 left (- 8) + right) XOR key])"

definition dec_round :: "u64 list \<Rightarrow> u64 \<Rightarrow> u64 list" where
  "dec_round ws key = (let left = ws ! 1; right = ws ! 0 in
     ws[1 := rotate_u64 ((left XOR key) - rotate_u64 (left XOR right) (- 3)) 8,
        0 := rotate_u64 (left XOR right) (- 3)])"

definition speck_encrypt :: "u64 list \<Rightarrow> u64 list \<Rightarrow> u64 list \<Rightarrow> kernel \<Rightarrow> u64 list \<times> kernel" where
  "speck_encrypt inp out key k = (case kmalloc (ROUNDS * 8) k of
     (None, k) \<Rightarrow> (out, k)
   | (Some mem, k) \<Rightarrow>
       let keys = key_schedule key (u64s ROUNDS mem)
       in (fold (\<lambda>i out. enc_round out (keys ! i)) [0..<ROUNDS] (out[0 := inp ! 0, 1 := inp ! 1]), k))"

definition speck_decrypt :: "u64 list \<Rightarrow> u64 list \<Rightarrow> u64 list \<Rightarrow> kernel \<Rightarrow> u64 list \<times> kernel" where
  "speck_decrypt inp out key k = (case kmalloc (ROUNDS * 8) k of
     (None, k) \<Rightarrow> (out, k)
   | (Some mem, k) \<Rightarrow>
       let keys = key_schedule key (u64s ROUNDS mem)
       in (fold (\<lambda>i out. dec_round out (keys ! i)) [0..<ROUNDS] (out[0 := inp ! 0, 1 := inp ! 1]), k))"

text \<open>One turn of the loop of \<open>speck_ctr\<close> handles the words \<open>i\<close> and \<open>i + 1\<close>.\<close>

definition ctr_step ::
  "u64 list \<Rightarrow> u64 list \<Rightarrow> nat \<Rightarrow> u64 list \<times> u64 list \<times> u64 list \<times> kernel
     \<Rightarrow> u64 list \<times> u64 list \<times> u64 list \<times> kernel" where
  "ctr_step inp key i st = (case st of (out, pad, local_nonce, k) \<Rightarrow>
     case speck_encrypt local_nonce pad key k of (pad, k) \<Rightarrow>
       (out[i := inp ! i XOR pad ! 0, i + 1 := inp ! (i + 1) XOR pad ! 1], pad,
        add1 local_nonce 2, k))"

function ctr_loop ::
  "u64 list \<Rightarrow> u64 list \<Rightarrow> nat \<Rightarrow> nat \<Rightarrow> u64 list \<times> u64 list \<times> u64 list \<times> kernel
     \<Rightarrow> u64 list \<times> u64 list \<times> u64 list \<times> kernel" where
  "ctr_loop inp key n i st =
     (if i < n then ctr_loop inp key n (i + 2) (ctr_step inp key i st) else st)"
  by auto
termination by (relation "measure (\<lambda>(inp, key, n, i, st). n - i)") auto

declare ctr_loop.simps [simp del]

definition speck_ctr ::
  "u64 list \<Rightarrow> u64 list \<Rightarrow> nat \<Rightarrow> u64 list \<Rightarrow> u64 list \<Rightarrow> kernel \<Rightarrow> u64 list \<times> kernel" where
  "speck_ctr inp out pt_length key nonce k = (case kmalloc (2 * 8) k of
     (None, k) \<Rightarrow> (out, k)
   | (Some mem, k) \<Rightarrow>
       case ctr_loop inp key (pt_length div 8) 0 (out, u64s 2 mem, [nonce ! 0, nonce ! 1], k)
       of (out, pad, local_nonce, k) \<Rightarrow> (out, k))"

section \<open>Rotations and rounds\<close>

lemma bit_u64: "bit (w :: u64) n \<Longrightarrow> n < 64"
  using bit_imp_le_length [of w n] by simp

lemma bit_rotate_right:
  assumes "0 < r" and "r < 64" and "n < 64"
  shows "bit (rotate_u64 w (- int r)) n \<longleftrightarrow> bit w (if n + r < 64 then n + r else n + r - 64)"
proof (cases "n + r < 64")
  case True
  then have "nat (64 - int r) = 64 - r" "\<not> 64 - r \<le> n" using assms by auto
  then show ?thesis using True assms by (simp add: rotate_u64_def bit_simps add.commute)
next
  case False
  then have "nat (64 - int r) = 64 - r" "64 - r \<le> n" "\<not> bit w (n + r)"
      "n - (64 - r) = n + r - 64"
    using assms by (auto dest: bit_u64)
  then show ?thesis using False assms by (simp add: rotate_u64_def bit_simps add.commute)
qed

lemma bit_rotate_left:
  assumes "0 < r" and "r < 64" and "n < 64"
  shows "bit (rotate_u64 w (int r)) n \<longleftrightarrow> bit w (if n < r then n + (64 - r) else n - r)"
proof (cases "n < r")
  case True
  then have "nat (64 - int r) = 64 - r" using assms by auto
  then show ?thesis using True assms by (simp add: rotate_u64_def bit_simps add.commute)
next
  case False
  then have "nat (64 - int r) = 64 - r" "\<not> bit w (n + (64 - r))"
    using assms by (auto dest: bit_u64)
  then show ?thesis using False assms by (simp add: rotate_u64_def bit_simps add.commute)
qed

lemma rotate_inverse:
  assumes "0 < r" and "r < 64"
  shows "rotate_u64 (rotate_u64 w (int r)) (- int r) = w"
    and "rotate_u64 (rotate_u64 w (- int r)) (int r) = w"
proof -
  show "rotate_u64 (rotate_u64 w (int r)) (- int r) = w"
    using assms by (intro bit_word_eqI) (auto simp: bit_rotate_left bit_rotate_right)
  show "rotate_u64 (rotate_u64 w (- int r)) (int r) = w"
    using assms by (intro bit_word_eqI) (auto simp: bit_rotate_left bit_rotate_right)
qed

lemmas rotate_3_8 =
  rotate_inverse [of 3, simplified] rotate_inverse [of 8, simplified]

lemma length_2_eq: "length ws = 2 \<Longrightarrow> \<exists>a b. ws = [a, b]"
  by (cases ws; cases "tl ws") auto

lemma length_enc_round [simp, afs_len]: "length (enc_round ws key) = length ws"
  by (simp add: enc_round_def Let_def)

lemma length_dec_round [simp, afs_len]: "length (dec_round ws key) = length ws"
  by (simp add: dec_round_def Let_def)

lemma dec_enc_round: "length ws = 2 \<Longrightarrow> dec_round (enc_round ws key) key = ws"
proof -
  assume "length ws = 2"
  then obtain a b where ws: "ws = [a, b]" using length_2_eq by blast
  have "rotate_u64 a 3 XOR (rotate_u64 b (- 8) + a) XOR key XOR (rotate_u64 b (- 8) + a) XOR key
      = rotate_u64 a 3"
    by (simp add: ac_simps)
  then show ?thesis
    by (simp add: ws enc_round_def dec_round_def Let_def rotate_3_8 ac_simps)
qed

lemma enc_dec_round: "length ws = 2 \<Longrightarrow> enc_round (dec_round ws key) key = ws"
proof -
  assume "length ws = 2"
  then obtain a b where ws: "ws = [a, b]" using length_2_eq by blast
  show ?thesis
    by (simp add: ws enc_round_def dec_round_def Let_def rotate_3_8 ac_simps)
qed

section \<open>The counter\<close>

text \<open>The two words of the nonce as one 128-bit number.\<close>

definition ctr_value :: "u64 list \<Rightarrow> nat" where
  "ctr_value ws = unat (ws ! 0) + 2 ^ 64 * unat (ws ! 1)"

lemma add1_2:
  "add1 [a, b] 2 = (if a = - 1 then (if b = - 1 then [0, 0] else [0, b + 1]) else [a + 1, b])"
  by (simp add: add1_def add1_loop.simps)

lemma length_add1 [simp, afs_len]: "length ws = 2 \<Longrightarrow> length (add1 ws 2) = 2"
  by (auto dest!: length_2_eq simp: add1_2)

lemma unat_max_u64: "unat (- 1 :: u64) = 2 ^ 64 - 1"
  by (simp add: unsigned_minus_1_eq_mask mask_eq_exp_minus_1)

lemma unat_Suc_u64: "a \<noteq> - 1 \<Longrightarrow> unat (a + 1 :: u64) = unat a + 1"
  by (metis Suc_eq_plus1 add.commute add_eq_0_iff unatSuc)

lemma ctr_value_less: "ctr_value ws < 2 ^ 128"
proof -
  have "unat (ws ! 0) < 2 ^ 64" "unat (ws ! 1) < 2 ^ 64"
    using unsigned_less [of "ws ! 0", where ?'a = nat] unsigned_less [of "ws ! 1", where ?'a = nat]
    by simp_all
  then show ?thesis by (simp add: ctr_value_def)
qed

lemma ctr_value_add1: "length ws = 2 \<Longrightarrow> ctr_value (add1 ws 2) = (ctr_value ws + 1) mod 2 ^ 128"
proof -
  assume "length ws = 2"
  then obtain a b where ws: "ws = [a, b]" using length_2_eq by blast
  consider "a = - 1" "b = - 1" | "a = - 1" "b \<noteq> - 1" | "a \<noteq> - 1" by blast
  then show ?thesis
  proof cases
    case 1
    then show ?thesis by (simp add: ws add1_2 ctr_value_def unat_max_u64)
  next
    case 2
    then have "ctr_value (add1 ws 2) = ctr_value ws + 1"
      by (simp add: ws add1_2 ctr_value_def unat_max_u64 unat_Suc_u64)
    then show ?thesis using ctr_value_less [of "add1 ws 2"] by simp
  next
    case 3
    then have "ctr_value (add1 ws 2) = ctr_value ws + 1"
      by (simp add: ws add1_2 ctr_value_def unat_Suc_u64)
    then show ?thesis using ctr_value_less [of "add1 ws 2"] by simp
  qed
qed

section \<open>The cipher without its memory\<close>

text \<open>What the functions compute when every allocation succeeds: the result does not depend on
  what the fresh memory holds.\<close>

lemma length_key_step [simp, afs_len]: "length (snd (key_step i st)) = length (snd st)"
  by (simp add: key_step_def Let_def split: prod.splits)

lemma key_step_agree:
  assumes "fst s = fst t" and "length (snd s) = length (snd t)"
    and "take (Suc i) (snd s) = take (Suc i) (snd t)" and "i < length (snd s)"
  shows "fst (key_step i s) = fst (key_step i t) \<and>
    take (Suc (Suc i)) (snd (key_step i s)) = take (Suc (Suc i)) (snd (key_step i t))"
proof -
  obtain l xs where s: "s = (l, xs)" by (cases s)
  then obtain ys where t: "t = (l, ys)" using assms(1) by (cases t) auto
  have eq: "xs ! i = ys ! i" using assms(3,4) unfolding s t
    by (metis lessI nth_take snd_conv)
  have "take (Suc (Suc i)) (xs[Suc i := v]) = take (Suc (Suc i)) (ys[Suc i := v])" for v
    using assms(2-4) unfolding s t
    by (cases "Suc i < length ys") (simp_all add: take_Suc_conv_app_nth nth_append)
  then show ?thesis by (simp add: s t key_step_def eq Let_def)
qed

lemma key_schedule_fresh:
  assumes "length xs = length ys" and "length xs = ROUNDS"
  shows "key_schedule key xs = key_schedule key ys"
proof -
  define f where "f n zs = fold key_step [0..<n] ([key ! 1, key ! 2, key ! 3], zs[0 := key ! 0])"
    for n zs
  have f_Suc: "f (Suc n) zs = key_step n (f n zs)" for n zs by (simp add: f_def)
  have len: "length (snd (f n zs)) = length zs" for n zs
    by (induction n) (simp_all add: f_Suc, simp add: f_def)
  have "n < ROUNDS \<Longrightarrow> fst (f n xs) = fst (f n ys) \<and>
      take (Suc n) (snd (f n xs)) = take (Suc n) (snd (f n ys))" for n
  proof (induction n)
    case 0
    then show ?case using assms by (cases xs; cases ys) (auto simp: f_def)
  next
    case (Suc n)
    then show ?case
      unfolding f_Suc using assms by (intro key_step_agree) (simp_all add: len)
  qed
  from this [of "ROUNDS - 1"] have "snd (f (ROUNDS - 1) xs) = snd (f (ROUNDS - 1) ys)"
    using assms len [of "ROUNDS - 1"] by (simp add: ROUNDS_def)
  then show ?thesis by (simp add: key_schedule_def f_def)
qed

definition speck_block :: "u64 list \<Rightarrow> u64 list \<Rightarrow> u64 list" where
  "speck_block key inp =
     fold (\<lambda>i out. enc_round out (key_schedule key (replicate ROUNDS 0) ! i)) [0..<ROUNDS]
       [inp ! 0, inp ! 1]"

lemma fold_enc_round_length [simp, afs_len]:
  "length (fold (\<lambda>i out. enc_round out (ks i)) is ws) = length ws"
  by (induction "is" arbitrary: ws) simp_all

lemma length_speck_block [simp, afs_len]: "length (speck_block key inp) = 2"
  by (simp add: speck_block_def)

lemma speck_encrypt_block:
  assumes "alloc_ok k" and "length out = 2"
  shows "speck_encrypt inp out key k = (speck_block key inp, k\<lparr>k_allocs := Suc (k_allocs k)\<rparr>)"
proof -
  obtain a b where out: "out = [a, b]" using length_2_eq [OF assms(2)] by blast
  have "key_schedule key (u64s ROUNDS mem) = key_schedule key (replicate ROUNDS 0)" for mem
    by (rule key_schedule_fresh) simp_all
  then show ?thesis
    by (simp add: speck_encrypt_def kmalloc_alloc_ok assms out speck_block_def Let_def)
qed

section \<open>Counter mode\<close>

text \<open>The \<open>i\<close>-th word of the key stream, and what counter mode does to a buffer.\<close>

definition keystream :: "u64 list \<Rightarrow> u64 list \<Rightarrow> nat \<Rightarrow> u64" where
  "keystream key nonce i =
     speck_block key (((\<lambda>w. add1 w 2) ^^ (i div 2)) [nonce ! 0, nonce ! 1]) ! (i mod 2)"

definition ctr_crypt :: "u64 list \<Rightarrow> u64 list \<Rightarrow> u64 list \<Rightarrow> u64 list" where
  "ctr_crypt key nonce ws = map (\<lambda>i. ws ! i XOR keystream key nonce i) [0..<length ws]"

lemma length_ctr_crypt [simp, afs_len]: "length (ctr_crypt key nonce ws) = length ws"
  by (simp add: ctr_crypt_def)

lemma ctr_crypt_involution: "ctr_crypt key nonce (ctr_crypt key nonce ws) = ws"
  by (rule nth_equalityI) (simp_all add: ctr_crypt_def xor.assoc)

lemma length_add1_pow [simp]: "length (((\<lambda>w. add1 w 2) ^^ n) [a, b]) = 2"
  by (induction n) simp_all

lemma ctr_loop_stream:
  assumes "alloc_ok k" and "even i" and "even n" and "n \<le> length out" and "length pad = 2"
    and "nc = ((\<lambda>w. add1 w 2) ^^ (i div 2)) [nonce ! 0, nonce ! 1]"
  shows "\<exists>out' pad' nc' k'. ctr_loop inp key n i (out, pad, nc, k) = (out', pad', nc', k') \<and>
    alloc_ok k' \<and> length out' = length out \<and>
    (\<forall>m < length out. out' ! m =
       (if i \<le> m \<and> m < n then inp ! m XOR keystream key nonce m else out ! m))"
  using assms
proof (induction "n - i" arbitrary: i out pad nc k rule: less_induct)
  case less
  show ?case
  proof (cases "i < n")
    case False
    then show ?thesis using less.prems by (auto simp: ctr_loop.simps)
  next
    case True
    let ?out = "out[i := inp ! i XOR speck_block key nc ! 0,
      i + 1 := inp ! (i + 1) XOR speck_block key nc ! 1]"
    let ?k = "k\<lparr>k_allocs := Suc (k_allocs k)\<rparr>"
    have step: "ctr_step inp key i (out, pad, nc, k) = (?out, speck_block key nc, add1 nc 2, ?k)"
      using less.prems by (simp add: ctr_step_def speck_encrypt_block)
    have nc: "add1 nc 2 = ((\<lambda>w. add1 w 2) ^^ ((i + 2) div 2)) [nonce ! 0, nonce ! 1]"
      using less.prems by simp
    have i1: "i + 1 < n" using True less.prems(2,3) by presburger
    have "\<exists>out' pad' nc' k'. ctr_loop inp key n (i + 2) (?out, speck_block key nc, add1 nc 2, ?k)
        = (out', pad', nc', k') \<and> alloc_ok k' \<and> length out' = length ?out \<and>
        (\<forall>m < length ?out. out' ! m =
          (if i + 2 \<le> m \<and> m < n then inp ! m XOR keystream key nonce m else ?out ! m))"
      by (rule less.hyps) (use less.prems nc True in simp_all)
    then obtain out' pad' nc' k' where
      run: "ctr_loop inp key n (i + 2) (?out, speck_block key nc, add1 nc 2, ?k)
        = (out', pad', nc', k')" and
      res: "alloc_ok k'" "length out' = length ?out" "\<And>m. m < length ?out \<Longrightarrow> out' ! m =
         (if i + 2 \<le> m \<and> m < n then inp ! m XOR keystream key nonce m else ?out ! m)"
      by blast
    have ks: "keystream key nonce i = speck_block key nc ! 0"
        "keystream key nonce (i + 1) = speck_block key nc ! 1"
      using less.prems(2,6) by (auto simp: keystream_def elim: evenE)
    have "out' ! m = (if i \<le> m \<and> m < n then inp ! m XOR keystream key nonce m else out ! m)"
      if "m < length out" for m
    proof -
      consider "m = i" | "m = i + 1" | "m < i" | "i + 2 \<le> m" by linarith
      then show ?thesis
        using res(3) [of m] that True i1 ks by cases (simp_all add: nth_list_update)
    qed
    then show ?thesis using run res(1,2) True step by (simp add: ctr_loop.simps [of _ _ _ i])
  qed
qed

lemma speck_ctr_crypt:
  assumes "alloc_ok k" and "pt_length div 8 = n" and "even n"
    and "n \<le> length inp" and "n \<le> length out"
  shows "\<exists>k'. alloc_ok k' \<and> speck_ctr inp out pt_length key nonce k =
    (ctr_crypt key nonce (take n inp) @ drop n out, k')"
proof -
  let ?k = "k\<lparr>k_allocs := Suc (k_allocs k)\<rparr>"
  let ?pad = "u64s 2 (map (k_junk k (k_allocs k)) [0..<2 * 8])"
  obtain out' pad' nc' k' where
    run: "ctr_loop inp key n 0 (out, ?pad, [nonce ! 0, nonce ! 1], ?k) = (out', pad', nc', k')" and
    res: "alloc_ok k'" "length out' = length out" "\<forall>m < length out. out' ! m =
       (if 0 \<le> m \<and> m < n then inp ! m XOR keystream key nonce m else out ! m)"
    using ctr_loop_stream [of ?k 0 n out ?pad "[nonce ! 0, nonce ! 1]" nonce inp key] assms
    by auto
  have "out' = ctr_crypt key nonce (take n inp) @ drop n out"
    using res(2,3) assms(4,5)
    by (intro nth_equalityI) (simp_all add: ctr_crypt_def nth_append min_absorb2)
  then show ?thesis using run res(1) assms(1,2) by (simp add: speck_ctr_def kmalloc_alloc_ok)
qed

section \<open>Properties\<close>

text \<open>C14: counter mode undoes itself. When memory lasts and the length is a whole number of
  16-byte blocks that both buffers hold, running \<open>speck_ctr\<close> on the output of \<open>speck_ctr\<close>
  with the same key and nonce gives the input back, whatever the output buffers and the fresh
  memory held, and leaves the rest of the buffer alone.\<close>

theorem speck_ctr_roundtrip:
  assumes "alloc_ok k" and "16 dvd pt_length"
    and "pt_length div 8 \<le> length inp" and "pt_length div 8 \<le> length out"
    and "pt_length div 8 \<le> length out2"
  shows "\<exists>ct k1 k2. speck_ctr inp out pt_length key nonce k = (ct, k1) \<and>
    speck_ctr ct out2 pt_length key nonce k1 =
      (take (pt_length div 8) inp @ drop (pt_length div 8) out2, k2)"
proof -
  let ?n = "pt_length div 8"
  have even: "even ?n" using assms(2) by (auto elim!: dvdE)
  obtain k1 where k1: "alloc_ok k1" "speck_ctr inp out pt_length key nonce k =
      (ctr_crypt key nonce (take ?n inp) @ drop ?n out, k1)"
    using speck_ctr_crypt [OF assms(1) refl even assms(3,4)] by blast
  let ?ct = "ctr_crypt key nonce (take ?n inp) @ drop ?n out"
  have "?n \<le> length ?ct" using assms(3) by simp
  then obtain k2 where "speck_ctr ?ct out2 pt_length key nonce k1 =
      (ctr_crypt key nonce (take ?n ?ct) @ drop ?n out2, k2)"
    using speck_ctr_crypt [OF k1(1) refl even _ assms(5)] by blast
  then show ?thesis using k1 assms(3) by (simp add: ctr_crypt_involution min_absorb2)
qed

theorem speck_ctr_roundtrip_witness:
  "\<exists>ct k1 k2. speck_ctr [1, 2, 3, 4] [0, 0, 0, 0] 32 [5, 6, 7, 8] [9, 10] demo_kernel = (ct, k1) \<and>
    speck_ctr ct [0, 0, 0, 0] 32 [5, 6, 7, 8] [9, 10] k1 = ([1, 2, 3, 4], k2)"
  using speck_ctr_roundtrip [of demo_kernel 32 "[1, 2, 3, 4]" "[0, 0, 0, 0]" "[0, 0, 0, 0]"
      "[5, 6, 7, 8]" "[9, 10]"]
  by (simp add: demo_kernel_def alloc_ok_def)

text \<open>the nonce is a 128-bit counter, so the key stream of one call never encrypts the same
  counter twice: within \<open>2 ^ 128\<close> blocks the counters of two different blocks differ.\<close>

theorem speck_ctr_counters_differ:
  assumes "i < j" and "j < 2 ^ 128"
  shows "((\<lambda>w. add1 w 2) ^^ i) [a, b] \<noteq> ((\<lambda>w. add1 w 2) ^^ j) [a, b]"
proof
  assume eq: "((\<lambda>w. add1 w 2) ^^ i) [a, b] = ((\<lambda>w. add1 w 2) ^^ j) [a, b]"
  have "ctr_value (((\<lambda>w. add1 w 2) ^^ n) [a, b]) = (ctr_value [a, b] + n) mod 2 ^ 128" for n
    using ctr_value_less [of "[a, b]"]
    by (induction n) (simp_all add: ctr_value_add1 mod_Suc_eq)
  with eq have "(ctr_value [a, b] + i) mod 2 ^ 128 = (ctr_value [a, b] + j) mod 2 ^ 128" by metis
  then have "2 ^ 128 dvd (ctr_value [a, b] + j) - (ctr_value [a, b] + i)"
    using assms(1) by (metis mod_eq_dvd_iff_nat add_le_cancel_left less_imp_le)
  then have "2 ^ 128 dvd j - i" by (simp only: add_diff_cancel_left)
  then have "2 ^ 128 \<le> j - i" using assms(1) by (intro dvd_imp_le) simp_all
  then show False using assms(2) by linarith
qed

theorem speck_ctr_counters_differ_witness:
  "((\<lambda>w. add1 w 2) ^^ 0) [- 1, 7] \<noteq> ((\<lambda>w. add1 w 2) ^^ 1) [- 1, 7]"
  by (rule speck_ctr_counters_differ) simp_all

text \<open>a round of the decryption undoes the round of the encryption with the same key, and the
  other way round, so undoing the rounds in the opposite order undoes the cipher.\<close>

theorem speck_rounds_invert:
  assumes "length ws = 2"
  shows "fold (\<lambda>key out. dec_round out key) (rev keys) (fold (\<lambda>key out. enc_round out key) keys ws) = ws"
  using assms by (induction keys arbitrary: ws) (simp_all add: dec_enc_round)

theorem speck_rounds_invert_witness:
  "fold (\<lambda>key out. dec_round out key) (rev [3, 4]) (fold (\<lambda>key out. enc_round out key) [3, 4] [1, 2])
     = [1, 2 :: u64]"
  by (rule speck_rounds_invert) simp

end
