(* ===== verification/Afs_Cauchy_Tables.thy ===== *)
theory Afs_Cauchy_Tables
  imports Afs_GF
begin

text \<open>
  The tables of the Cauchy Reed-Solomon library, \<open>src/src/lib/cauchy_rs.c\<close>: how \<open>gf_init\<close>
  computes the exponentials, logarithms, products, quotients, inverses and squares of GF(256),
  and the partial products for the vector instructions. An array of fixed size is a function on
  indices. The tables live in \<open>GFContext\<close>, which is zero until \<open>gf_init\<close> runs
  (\<open>gf_ctx_zero\<close>); \<open>gf_ready\<close> says that they were computed.
\<close>

section \<open>The context\<close>

record gf_ctx =
  TABLE_LO_Y :: "nat \<Rightarrow> bytes"
  TABLE_HI_Y :: "nat \<Rightarrow> bytes"
  GF_MUL_TABLE :: "nat \<Rightarrow> u8"
  GF_DIV_TABLE :: "nat \<Rightarrow> u8"
  GF_INV_TABLE :: "nat \<Rightarrow> u8"
  GF_SQR_TABLE :: "nat \<Rightarrow> u8"
  GF_LOG_TABLE :: "nat \<Rightarrow> u16"
  GF_EXP_TABLE :: "nat \<Rightarrow> u8"
  Polynomial :: u32
  CpuHasSSSE3 :: bool
  Initialized :: bool

definition gf_ctx_zero :: gf_ctx where
  "gf_ctx_zero = \<lparr>TABLE_LO_Y = (\<lambda>_. replicate 16 0), TABLE_HI_Y = (\<lambda>_. replicate 16 0),
     GF_MUL_TABLE = (\<lambda>_. 0), GF_DIV_TABLE = (\<lambda>_. 0), GF_INV_TABLE = (\<lambda>_. 0),
     GF_SQR_TABLE = (\<lambda>_. 0), GF_LOG_TABLE = (\<lambda>_. 0), GF_EXP_TABLE = (\<lambda>_. 0),
     Polynomial = 0, CpuHasSSSE3 = False, Initialized = False\<rparr>"

section \<open>Scalar operations\<close>

definition gf_add :: "u8 \<Rightarrow> u8 \<Rightarrow> u8" where
  "gf_add x y = x XOR y"

definition gf_mul :: "gf_ctx \<Rightarrow> u8 \<Rightarrow> u8 \<Rightarrow> u8" where
  "gf_mul c x y = GF_MUL_TABLE c (256 * unat y + unat x)"

definition gf_div :: "gf_ctx \<Rightarrow> u8 \<Rightarrow> u8 \<Rightarrow> u8" where
  "gf_div c x y = GF_DIV_TABLE c (256 * unat y + unat x)"

definition gf_inv :: "gf_ctx \<Rightarrow> u8 \<Rightarrow> u8" where
  "gf_inv c x = GF_INV_TABLE c (unat x)"

definition gf_sqr :: "gf_ctx \<Rightarrow> u8 \<Rightarrow> u8" where
  "gf_sqr c x = GF_SQR_TABLE c (unat x)"

section \<open>Initialisation\<close>

definition GF_GEN_POLY :: bytes where
  "GF_GEN_POLY = [0x8e, 0x95, 0x96, 0xa6, 0xaf, 0xb1, 0xb2, 0xb4,
     0xb8, 0xc3, 0xc6, 0xd4, 0xe1, 0xe7, 0xf3, 0xfa]"

definition kDefaultPolynomialIndex :: int where
  "kDefaultPolynomialIndex = 3"

definition gf_poly_init :: "int \<Rightarrow> gf_ctx \<Rightarrow> gf_ctx" where
  "gf_poly_init polynomialIndex c =
     (let polynomialIndex = (if polynomialIndex < 0 \<or> polynomialIndex \<ge> 16
                             then kDefaultPolynomialIndex else polynomialIndex)
      in c\<lparr>Polynomial := push_bit 1 (ucast (GF_GEN_POLY ! nat polynomialIndex)) OR 1\<rparr>)"

definition explog_step :: "u32 \<Rightarrow> nat \<Rightarrow> (nat \<Rightarrow> u8) \<times> (nat \<Rightarrow> u16) \<Rightarrow> (nat \<Rightarrow> u8) \<times> (nat \<Rightarrow> u16)" where
  "explog_step poly jj st = (case st of (exptab, logtab) \<Rightarrow>
     let next = ucast (exptab (jj - 1)) * 2;
         next = (if next \<ge> 256 then next XOR poly else next);
         exptab = exptab(jj := ucast next)
     in (exptab, logtab(unat (exptab jj) := of_nat jj)))"

definition gf_explog_init :: "gf_ctx \<Rightarrow> gf_ctx" where
  "gf_explog_init c =
     (let poly = Polynomial c;
          logtab = (GF_LOG_TABLE c)(0 := 512);
          exptab = (GF_EXP_TABLE c)(0 := 1);
          (exptab, logtab) = fold (explog_step poly) [1..<255] (exptab, logtab);
          exptab = exptab(255 := exptab 0);
          logtab = logtab(unat (exptab 255) := 255);
          exptab = fold (\<lambda>jj exptab. exptab(jj := exptab (jj mod 255))) [256..<2 * 255] exptab;
          exptab = exptab(2 * 255 := 1);
          exptab = fold (\<lambda>jj exptab. exptab(jj := 0)) [2 * 255 + 1..<4 * 255] exptab
      in c\<lparr>GF_EXP_TABLE := exptab, GF_LOG_TABLE := logtab\<rparr>)"

text \<open>The row of the tables for one \<open>y\<close>; the code advances \<open>m\<close> and \<open>d\<close> by 256 per row.\<close>

definition muldiv_row :: "gf_ctx \<Rightarrow> nat \<Rightarrow> gf_ctx" where
  "muldiv_row c y =
     (let log_y = (ucast (GF_LOG_TABLE c y) :: u8);
          log_yn = 255 - log_y;
          m = (GF_MUL_TABLE c)(256 * y := 0);
          d = (GF_DIV_TABLE c)(256 * y := 0);
          log_x = (\<lambda>x. unat (GF_LOG_TABLE c x));
          m = fold (\<lambda>x m. m(256 * y + x := GF_EXP_TABLE c (log_x x + unat log_y))) [1..<256] m;
          d = fold (\<lambda>x d. d(256 * y + x := GF_EXP_TABLE c (log_x x + unat log_yn))) [1..<256] d
      in c\<lparr>GF_MUL_TABLE := m, GF_DIV_TABLE := d\<rparr>)"

definition gf_muldiv_init :: "gf_ctx \<Rightarrow> gf_ctx" where
  "gf_muldiv_init c =
     (let m = fold (\<lambda>x m. m(x := 0)) [0..<256] (GF_MUL_TABLE c);
          d = fold (\<lambda>x d. d(x := 0)) [0..<256] (GF_DIV_TABLE c)
      in foldl muldiv_row (c\<lparr>GF_MUL_TABLE := m, GF_DIV_TABLE := d\<rparr>) [1..<256])"

definition gf_inv_init :: "gf_ctx \<Rightarrow> gf_ctx" where
  "gf_inv_init c =
     c\<lparr>GF_INV_TABLE := fold (\<lambda>x t. t(x := gf_div c 1 (of_nat x))) [0..<256] (GF_INV_TABLE c)\<rparr>"

definition gf_sqr_init :: "gf_ctx \<Rightarrow> gf_ctx" where
  "gf_sqr_init c =
     c\<lparr>GF_SQR_TABLE := fold (\<lambda>x t. t(x := gf_mul c (of_nat x) (of_nat x))) [0..<256] (GF_SQR_TABLE c)\<rparr>"

definition gf_mul_mem_init :: "gf_ctx \<Rightarrow> gf_ctx" where
  "gf_mul_mem_init c =
     c\<lparr>TABLE_LO_Y := fold (\<lambda>y t. t(y := map (\<lambda>x. gf_mul c (of_nat x) (of_nat y)) [0..<16]))
           [0..<256] (TABLE_LO_Y c),
       TABLE_HI_Y := fold (\<lambda>y t. t(y := map (\<lambda>x. gf_mul c (push_bit 4 (of_nat x)) (of_nat y)) [0..<16]))
           [0..<256] (TABLE_HI_Y c)\<rparr>"

definition IsLittleEndian :: bool where
  "IsLittleEndian \<longleftrightarrow> (0x01020304 :: u32) = le_word [4, 3, 2, 1]"

text \<open>\<open>has_ssse3\<close> is the answer of the \<open>cpuid\<close> instruction, which \<open>gf_architecture_init\<close> stores.\<close>

definition gf_architecture_init :: "bool \<Rightarrow> gf_ctx \<Rightarrow> gf_ctx" where
  "gf_architecture_init has_ssse3 c = c\<lparr>CpuHasSSSE3 := has_ssse3\<rparr>"

definition gf_init :: "bool \<Rightarrow> gf_ctx \<Rightarrow> int \<times> gf_ctx" where
  "gf_init has_ssse3 c =
     (if Initialized c then (0, c)
      else let c = c\<lparr>Initialized := True\<rparr> in
        if \<not> IsLittleEndian then (- 2, c)
        else let c = gf_architecture_init has_ssse3 c;
                 c = gf_poly_init kDefaultPolynomialIndex c;
                 c = gf_explog_init c;
                 c = gf_muldiv_init c;
                 c = gf_inv_init c;
                 c = gf_sqr_init c;
                 c = gf_mul_mem_init c
             in (0, c))"

definition cauchy_init :: "bool \<Rightarrow> gf_ctx \<Rightarrow> int \<times> gf_ctx" where
  "cauchy_init has_ssse3 c = gf_init has_ssse3 c"

section \<open>The powers of 2 modulo 0x14d\<close>

definition powers :: bytes where
  "powers =
    [
     0x01, 0x02, 0x04, 0x08, 0x10, 0x20, 0x40, 0x80, 0x4d, 0x9a, 0x79, 0xf2, 0xa9, 0x1f, 0x3e, 0x7c,
     0xf8, 0xbd, 0x37, 0x6e, 0xdc, 0xf5, 0xa7, 0x03, 0x06, 0x0c, 0x18, 0x30, 0x60, 0xc0, 0xcd, 0xd7,
     0xe3, 0x8b, 0x5b, 0xb6, 0x21, 0x42, 0x84, 0x45, 0x8a, 0x59, 0xb2, 0x29, 0x52, 0xa4, 0x05, 0x0a,
     0x14, 0x28, 0x50, 0xa0, 0x0d, 0x1a, 0x34, 0x68, 0xd0, 0xed, 0x97, 0x63, 0xc6, 0xc1, 0xcf, 0xd3,
     0xeb, 0x9b, 0x7b, 0xf6, 0xa1, 0x0f, 0x1e, 0x3c, 0x78, 0xf0, 0xad, 0x17, 0x2e, 0x5c, 0xb8, 0x3d,
     0x7a, 0xf4, 0xa5, 0x07, 0x0e, 0x1c, 0x38, 0x70, 0xe0, 0x8d, 0x57, 0xae, 0x11, 0x22, 0x44, 0x88,
     0x5d, 0xba, 0x39, 0x72, 0xe4, 0x85, 0x47, 0x8e, 0x51, 0xa2, 0x09, 0x12, 0x24, 0x48, 0x90, 0x6d,
     0xda, 0xf9, 0xbf, 0x33, 0x66, 0xcc, 0xd5, 0xe7, 0x83, 0x4b, 0x96, 0x61, 0xc2, 0xc9, 0xdf, 0xf3,
     0xab, 0x1b, 0x36, 0x6c, 0xd8, 0xfd, 0xb7, 0x23, 0x46, 0x8c, 0x55, 0xaa, 0x19, 0x32, 0x64, 0xc8,
     0xdd, 0xf7, 0xa3, 0x0b, 0x16, 0x2c, 0x58, 0xb0, 0x2d, 0x5a, 0xb4, 0x25, 0x4a, 0x94, 0x65, 0xca,
     0xd9, 0xff, 0xb3, 0x2b, 0x56, 0xac, 0x15, 0x2a, 0x54, 0xa8, 0x1d, 0x3a, 0x74, 0xe8, 0x9d, 0x77,
     0xee, 0x91, 0x6f, 0xde, 0xf1, 0xaf, 0x13, 0x26, 0x4c, 0x98, 0x7d, 0xfa, 0xb9, 0x3f, 0x7e, 0xfc,
     0xb5, 0x27, 0x4e, 0x9c, 0x75, 0xea, 0x99, 0x7f, 0xfe, 0xb1, 0x2f, 0x5e, 0xbc, 0x35, 0x6a, 0xd4,
     0xe5, 0x87, 0x43, 0x86, 0x41, 0x82, 0x49, 0x92, 0x69, 0xd2, 0xe9, 0x9f, 0x73, 0xe6, 0x81, 0x4f,
     0x9e, 0x71, 0xe2, 0x89, 0x5f, 0xbe, 0x31, 0x62, 0xc4, 0xc5, 0xc7, 0xc3, 0xcb, 0xdb, 0xfb, 0xbb,
     0x3b, 0x76, 0xec, 0x95, 0x67, 0xce, 0xd1, 0xef, 0x93, 0x6b, 0xd6, 0xe1, 0x8f, 0x53, 0xa6]"

lemma powers_chain: "chain 0x4d powers"
  by (simp add: powers_def xtime_def)

lemma powers_length: "length powers = 255"
  by (simp add: powers_def)

lemma powers_nth: "i < 255 \<Longrightarrow> powers ! i = (xtime 0x4d ^^ i) 1"
proof (induction i)
  case 0
  show ?case by (simp add: powers_def)
next
  case (Suc i)
  then show ?case using chain_nth [OF powers_chain, of i] by (simp add: powers_length)
qed

lemma power_255: "(xtime 0x4d ^^ 255) 1 = 1"
proof -
  have "(xtime 0x4d ^^ Suc 254) 1 = xtime 0x4d (powers ! 254)"
    using powers_nth [of 254] by (simp only: funpow.simps o_apply)
  also have "\<dots> = 1" by (simp add: powers_def xtime_def)
  finally show ?thesis by simp
qed

lemma powers_inj: "inj_on (\<lambda>n. (xtime 0x4d ^^ n) 1) {..<255}"
proof (rule xtime_powers_inj [OF _ power_255])
  show "(xtime 0x4d ^^ 85) 1 \<noteq> 1" using powers_nth [of 85] by (simp add: powers_def)
  show "(xtime 0x4d ^^ 51) 1 \<noteq> 1" using powers_nth [of 51] by (simp add: powers_def)
  show "(xtime 0x4d ^^ 15) 1 \<noteq> 1" using powers_nth [of 15] by (simp add: powers_def)
qed simp

lemma powers_nonzero: "(xtime 0x4d ^^ n) 1 \<noteq> 0"
proof
  assume "(xtime 0x4d ^^ n) 1 = 0"
  then have "(xtime 0x4d ^^ n) 1 = (xtime 0x4d ^^ n) 0" by simp
  then show False using xtime_pow_inj [of "0x4d" n 1 0] by simp
qed

lemma powers_surj: "a \<noteq> 0 \<Longrightarrow> \<exists>i < 255. a = (xtime 0x4d ^^ i) 1"
proof -
  assume "a \<noteq> 0"
  let ?P = "(\<lambda>n. (xtime 0x4d ^^ n) 1) ` {..<255}"
  have "?P \<subseteq> UNIV - {0 :: u8}" using powers_nonzero by auto
  moreover have "card ?P = card (UNIV - {0 :: u8})"
    using powers_inj by (simp add: card_image card_word)
  ultimately have "?P = UNIV - {0 :: u8}" by (intro card_subset_eq) simp_all
  then show ?thesis using \<open>a \<noteq> 0\<close> by blast
qed

section \<open>Exponentials and logarithms\<close>

lemma fold_upd:
  assumes "inj_on g (set xs)"
  shows "x \<in> set xs \<Longrightarrow> fold (\<lambda>x f. f(g x := v x)) xs f (g x) = v x"
    and "i \<notin> g ` set xs \<Longrightarrow> fold (\<lambda>x f. f(g x := v x)) xs f i = f i"
proof -
  have "(\<forall>x \<in> set xs. fold (\<lambda>x f. f(g x := v x)) xs f (g x) = v x) \<and>
      (\<forall>i. i \<notin> g ` set xs \<longrightarrow> fold (\<lambda>x f. f(g x := v x)) xs f i = f i)"
    using assms
  proof (induction xs rule: rev_induct)
    case (snoc y ys)
    then show ?case by (auto simp: inj_on_def)
  qed simp
  then show "x \<in> set xs \<Longrightarrow> fold (\<lambda>x f. f(g x := v x)) xs f (g x) = v x"
    "i \<notin> g ` set xs \<Longrightarrow> fold (\<lambda>x f. f(g x := v x)) xs f i = f i" by auto
qed

lemma unat_u8_256: "unat (a :: u8) < 256"
  using unsigned_less [of a, where ?'a = nat] by simp

lemma explog_next:
  "ucast (let next = ucast (a :: u8) * 2 :: u32
     in if next \<ge> 256 then next XOR 0x14d else next) = xtime 0x4d a"
proof -
  have u: "unat (ucast a * 2 :: u32) = 2 * unat a"
    using unat_u8_256 [of a] by (simp add: unat_word_ariths unat_ucast_up)
  have "bit a 7 \<longleftrightarrow> odd (unat a div 128)"
    using bit_unsigned_iff [of a 7, where ?'a = nat] by (simp add: bit_iff_odd)
  then have bit7: "bit a 7 \<longleftrightarrow> 128 \<le> unat a"
    using unat_u8_256 [of a] div_nat_eqI [of 128 1 "unat a"] by (cases "128 \<le> unat a") auto
  have "(256 :: u32) \<le> ucast a * 2 \<longleftrightarrow> bit a 7"
    using u bit7 by (simp add: word_le_nat_alt)
  moreover have "ucast (ucast a * 2 :: u32) = (push_bit 1 a :: u8)"
  proof -
    have "ucast (push_bit 1 (ucast a) :: u32) = (push_bit 1 a :: u8)"
      by (rule bit_word_eqI) (simp only: bit_unsigned_iff bit_push_bit_iff, auto)
    then show ?thesis by simp
  qed
  moreover have "ucast (x XOR y :: u32) = (ucast x XOR ucast y :: u8)" for x y
    by (rule bit_word_eqI) (simp add: bit_simps)
  moreover have "a * 2 XOR 333 = a * 2 XOR (77 :: u8)"
    by (rule arg_cong [where f = "\<lambda>x. a * 2 XOR x"]) simp
  ultimately show ?thesis by (simp add: xtime_def)
qed

lemma explog_step_eq:
  "explog_step 0x14d (Suc n) (e, l) =
    (e(Suc n := xtime 0x4d (e n)), l(unat (xtime 0x4d (e n)) := of_nat (Suc n)))"
  by (simp add: explog_step_def explog_next [symmetric] Let_def)

lemma explog_loop:
  assumes "n < 255" and "e 0 = 1"
  shows "case fold (explog_step 0x14d) [1..<Suc n] (e, l) of (e', l') \<Rightarrow>
    (\<forall>i \<le> n. e' i = (xtime 0x4d ^^ i) 1) \<and>
    (\<forall>i. 1 \<le> i \<longrightarrow> i \<le> n \<longrightarrow> l' (unat ((xtime 0x4d ^^ i) 1)) = of_nat i)"
  using assms
proof (induction n)
  case 0
  then show ?case by simp
next
  case (Suc n)
  obtain e' l' where st: "fold (explog_step 0x14d) [1..<Suc n] (e, l) = (e', l')" by fastforce
  have IH: "\<And>i. i \<le> n \<Longrightarrow> e' i = (xtime 0x4d ^^ i) 1"
      "\<And>i. 1 \<le> i \<Longrightarrow> i \<le> n \<Longrightarrow> l' (unat ((xtime 0x4d ^^ i) 1)) = of_nat i"
    using Suc st by auto
  have "explog_step 0x14d (Suc n) (e', l') =
      (e'(Suc n := (xtime 0x4d ^^ Suc n) 1), l'(unat ((xtime 0x4d ^^ Suc n) 1) := of_nat (Suc n)))"
    using IH(1) [of n] by (simp add: explog_step_eq)
  moreover have "unat ((xtime 0x4d ^^ i) 1) \<noteq> unat ((xtime 0x4d ^^ Suc n) 1)" if "i \<le> n" for i
    using inj_onD [OF powers_inj, of i "Suc n"] that Suc.prems
    by (auto dest!: unsigned_word_eqI)
  ultimately show ?case
    using st IH by (auto simp: le_Suc_eq)
qed

definition gf_tables_ready :: "gf_ctx \<Rightarrow> bool" where
  "gf_tables_ready c \<longleftrightarrow> (\<forall>i \<le> 510. GF_EXP_TABLE c i = (xtime 0x4d ^^ (i mod 255)) 1) \<and>
     (\<forall>a. a \<noteq> 0 \<longrightarrow> unat (GF_LOG_TABLE c (unat a)) \<le> 255 \<and>
        (xtime 0x4d ^^ unat (GF_LOG_TABLE c (unat a))) 1 = (a :: u8))"

lemma fold_copy:
  assumes "n \<le> m" and "m \<le> 510" and "255 < n"
  shows "fold (\<lambda>jj e. e(jj := e (jj mod 255))) [n..<m] (e :: nat \<Rightarrow> u8) i =
    (if n \<le> i \<and> i < m then e (i mod 255) else e i)"
  using assms(1,2)
proof (induction m arbitrary: i rule: dec_induct)
  case (step m)
  let ?f = "fold (\<lambda>jj e. e(jj := e (jj mod 255))) [n..<m] e"
  have "m mod 255 < n" using assms(3) mod_less_divisor [of 255 m] by linarith
  then have "?f (m mod 255) = e (m mod 255)"
    using step.IH [of "m mod 255"] step.prems by (simp del: fun_upd_apply)
  moreover have "?f i = (if n \<le> i \<and> i < m then e (i mod 255) else e i)"
    using step.IH [of i] step.prems by (simp del: fun_upd_apply)
  moreover have "fold (\<lambda>jj e. e(jj := e (jj mod 255))) [n..<Suc m] e = ?f(m := ?f (m mod 255))"
    using step.hyps by (simp del: fun_upd_apply)
  ultimately show ?case
    using step.hyps(1) by (cases "i = m") (simp_all add: less_Suc_eq fun_upd_same fun_upd_other
      del: upt_Suc fun_upd_apply)
qed simp

lemma gf_explog_init_ready:
  assumes "Polynomial c = 0x14d"
  shows "gf_tables_ready (gf_explog_init c)"
proof -
  let ?e0 = "(GF_EXP_TABLE c)(0 := 1)" and ?l0 = "(GF_LOG_TABLE c)(0 := 512)"
  obtain e l where st: "fold (explog_step 0x14d) [1..<255] (?e0, ?l0) = (e, l)" by fastforce
  have loop: "\<And>i. i \<le> 254 \<Longrightarrow> e i = (xtime 0x4d ^^ i) 1"
      "\<And>i. 1 \<le> i \<Longrightarrow> i \<le> 254 \<Longrightarrow> l (unat ((xtime 0x4d ^^ i) 1)) = of_nat i"
    using explog_loop [of 254 ?e0 ?l0] st by (auto simp del: upt_rec_numeral)
  let ?e1 = "e(255 := e 0)"
  let ?e2 = "fold (\<lambda>jj e. e(jj := e (jj mod 255))) [256..<510] ?e1"
  let ?e3 = "fold (\<lambda>jj e. e(jj := 0)) [511..<1020] (?e2(510 := 1))"
  have e0: "e 0 = 1" using loop(1) [of 0] by simp
  have init: "gf_explog_init c = c\<lparr>GF_EXP_TABLE := ?e3, GF_LOG_TABLE := l(unat (1 :: u8) := 255)\<rparr>"
    using assms st e0 by (simp add: gf_explog_init_def Let_def del: upt_rec_numeral)
  have e3: "?e3 i = (xtime 0x4d ^^ (i mod 255)) 1" if i: "i \<le> 510" for i
  proof -
    have "?e3 i = (?e2(510 := 1)) i"
      using fold_upd(2) [of "\<lambda>x. x" "[511..<1020]" i "\<lambda>_. 0" "?e2(510 := 1)"] i
      by (simp del: upt_rec_numeral fun_upd_apply)
    also have "\<dots> = (xtime 0x4d ^^ (i mod 255)) 1"
    proof (cases "i < 256")
      case True
      then show ?thesis
        using loop(1) [of i] e0
        by (cases "i = 255") (simp_all add: fold_copy del: upt_rec_numeral)
    next
      case False
      have "i mod 255 \<le> 254" "i mod 255 \<noteq> 255" using mod_less_divisor [of 255 i] by linarith+
      then show ?thesis
        using False i loop(1) [of "i mod 255"] 
        by (cases "i = 510") (simp_all add: fold_copy del: upt_rec_numeral)
    qed
    finally show ?thesis .
  qed
  have lg: "unat ((l(unat (1 :: u8) := 255)) (unat a)) \<le> 255 \<and>
      (xtime 0x4d ^^ unat ((l(unat (1 :: u8) := 255)) (unat a))) 1 = a" if a: "a \<noteq> 0" for a :: u8
  proof (cases "a = 1")
    case True
    then show ?thesis using power_255 by simp
  next
    case False
    obtain i where i: "i < 255" "a = (xtime 0x4d ^^ i) 1" using powers_surj [OF a] by blast
    then have "i \<noteq> 0" using False by (metis funpow_0)
    then have "l (unat a) = of_nat i" using loop(2) [of i] i by simp
    moreover have "unat (of_nat i :: u16) = i"
      using i by (simp add: unsigned_of_nat take_bit_nat_eq_self)
    moreover have "unat a \<noteq> 1" using False by (metis unsigned_1 unsigned_word_eqI)
    ultimately show ?thesis using i by simp
  qed
  show ?thesis
    unfolding gf_tables_ready_def init using e3 lg by (simp del: upt_rec_numeral fun_upd_apply)
qed

lemma gf_poly_init_default: "Polynomial (gf_poly_init kDefaultPolynomialIndex c) = 0x14d"
  by (simp add: gf_poly_init_def kDefaultPolynomialIndex_def GF_GEN_POLY_def)

text \<open>The tables that the initialisation computes, as an instance of the interface.\<close>

definition std_ctx :: gf_ctx where
  "std_ctx = gf_explog_init (gf_poly_init kDefaultPolynomialIndex gf_ctx_zero)"

lemma std_ctx_ready: "gf_tables_ready std_ctx"
  unfolding std_ctx_def by (intro gf_explog_init_ready gf_poly_init_default)

interpretation cm: gf_tables "0x4d" "\<lambda>a. unat (GF_LOG_TABLE std_ctx (unat a))" "GF_EXP_TABLE std_ctx" 255
proof unfold_locales
  have ex: "GF_EXP_TABLE std_ctx i = (xtime 0x4d ^^ (i mod 255)) 1" if "i \<le> 510" for i
    using std_ctx_ready that by (simp add: gf_tables_ready_def)
  show "GF_EXP_TABLE std_ctx 0 = 1" using ex [of 0] by simp
  show "GF_EXP_TABLE std_ctx (Suc i) = xtime 0x4d (GF_EXP_TABLE std_ctx i)" if "i < 254" for i
    using that ex [of i] ex [of "Suc i"] by simp
  have "(xtime 0x4d ^^ Suc 254) 1 = xtime 0x4d (GF_EXP_TABLE std_ctx 254)"
    using ex [of 254] by (simp only: funpow.simps o_apply) simp
  then show "xtime 0x4d (GF_EXP_TABLE std_ctx 254) = 1" using power_255 by simp
  show "GF_EXP_TABLE std_ctx i = GF_EXP_TABLE std_ctx (i mod 255)" if "i \<le> 2 * 255" for i
    using that ex [of i] ex [of "i mod 255"] mod_less_divisor [of 255 i] by simp
  show "GF_EXP_TABLE std_ctx (unat (GF_LOG_TABLE std_ctx (unat a))) = a" if a: "a \<noteq> 0" for a :: u8
  proof -
    let ?l = "unat (GF_LOG_TABLE std_ctx (unat a))"
    have l: "?l \<le> 255" "(xtime 0x4d ^^ ?l) 1 = a"
      using std_ctx_ready a by (simp_all add: gf_tables_ready_def)
    have "(xtime 0x4d ^^ (?l mod 255)) 1 = (xtime 0x4d ^^ ?l) 1"
      using l(1) power_255 by (cases "?l = 255") simp_all
    then show ?thesis using ex [of ?l] l by simp
  qed
  show "unat (GF_LOG_TABLE std_ctx (unat a)) \<le> 255" if "a \<noteq> 0" for a :: u8
    using std_ctx_ready that by (simp add: gf_tables_ready_def)
qed simp_all

section \<open>Products and quotients\<close>

declare upt_rec_numeral [simp del]

lemma ready_exp_mul:
  assumes "gf_tables_ready c" and "x \<noteq> 0" and "y \<noteq> 0"
  shows "GF_EXP_TABLE c (unat (GF_LOG_TABLE c (unat x)) + unat (ucast (GF_LOG_TABLE c (unat y)) :: u8))
      = cm.mul x y"
    and "GF_EXP_TABLE c (unat (GF_LOG_TABLE c (unat x)) + unat (255 - ucast (GF_LOG_TABLE c (unat y)) :: u8))
      = cm.mul x (cm.inv y)"
proof -
  let ?lx = "unat (GF_LOG_TABLE c (unat x))" and ?ly = "unat (GF_LOG_TABLE c (unat y))"
  have lx: "?lx \<le> 255" "cm.pw ?lx = x" and ly: "?ly \<le> 255" "cm.pw ?ly = y"
    using assms by (simp_all add: gf_tables_ready_def cm.pw_def)
  have ex: "GF_EXP_TABLE c i = cm.pw i" if "i \<le> 510" for i
    using assms(1) that by (simp add: gf_tables_ready_def cm.pw_def [symmetric] cm.pw_mod)
  have u: "unat (ucast (GF_LOG_TABLE c (unat y)) :: u8) = ?ly"
    using ly(1) by (simp add: unsigned_ucast_eq take_bit_nat_eq_self)
  have "unat (255 - ucast (GF_LOG_TABLE c (unat y)) :: u8) = 255 - ?ly"
    using ly(1) by (subst unat_sub) (simp_all add: word_le_nat_alt u)
  moreover have "cm.pw (?lx + (255 - ?ly)) = cm.mul x (cm.inv y)"
  proof -
    have "cm.mul (cm.pw (?lx + (255 - ?ly))) y = x"
      using cm.mul_pw [of "?lx + (255 - ?ly)" ?ly] cm.mul_pw [of ?lx 255] ly lx
      by (simp add: cm.pw_255 cm.mul_commute [of _ 1] cm.mul_one)
    then show ?thesis
      using cm.mul_inv [OF assms(3)] by (metis cm.mul_assoc cm.mul_commute cm.mul_one)
  qed
  ultimately show "GF_EXP_TABLE c (?lx + unat (255 - ucast (GF_LOG_TABLE c (unat y)) :: u8))
      = cm.mul x (cm.inv y)"
    using ex lx(1) by simp
  show "GF_EXP_TABLE c (?lx + unat (ucast (GF_LOG_TABLE c (unat y)) :: u8)) = cm.mul x y"
    using ex u lx ly cm.mul_pw [of ?lx ?ly] by simp
qed

lemma unat_of_nat_u8: "n < 256 \<Longrightarrow> unat (of_nat n :: u8) = n"
  by (simp add: unsigned_of_nat take_bit_nat_eq_self)

lemma of_nat_u8_nonzero: "0 < n \<Longrightarrow> n < 256 \<Longrightarrow> (of_nat n :: u8) \<noteq> 0"
  using unat_of_nat_u8 [of n] by auto

text \<open>A row of a table filled with \<open>f\<close>.\<close>

lemma row_fill:
  assumes "v 0 = 0"
  shows "fold (\<lambda>x m. m(256 * y + x := v x)) [1..<256] (m(256 * y := 0)) i =
    (if 256 * y \<le> i \<and> i < 256 * y + 256 then v (i - 256 * y) else (m :: nat \<Rightarrow> u8) i)"
proof -
  have inj: "inj_on (\<lambda>x. 256 * y + x) (set [1..<256])" by (auto simp: inj_on_def)
  note upd = fold_upd [OF inj, of _ v "m(256 * y := 0)"]
  show ?thesis
  proof (cases "256 * y < i \<and> i < 256 * y + 256")
    case True
    then have mem: "i - 256 * y \<in> set [1..<256]" by auto
    show ?thesis using upd(1) [OF mem] True by simp
  next
    case False
    then have "i \<notin> (\<lambda>x. 256 * y + x) ` set [1..<256]" by auto
    then show ?thesis using upd(2) False assms by auto
  qed
qed

lemma muldiv_row_tables:
  assumes "gf_tables_ready c" and "0 < y" and "y < 256"
  shows "GF_MUL_TABLE (muldiv_row c y) i = (if 256 * y \<le> i \<and> i < 256 * y + 256
      then cm.mul (of_nat (i - 256 * y)) (of_nat y) else GF_MUL_TABLE c i)"
    and "GF_DIV_TABLE (muldiv_row c y) i = (if 256 * y \<le> i \<and> i < 256 * y + 256
      then cm.mul (of_nat (i - 256 * y)) (cm.inv (of_nat y)) else GF_DIV_TABLE c i)"
proof -
  have y: "of_nat y \<noteq> (0 :: u8)" "unat (of_nat y :: u8) = y"
    using assms(2,3) by (simp_all add: of_nat_u8_nonzero unat_of_nat_u8 del: of_nat_eq_0_iff)
  have cell: "GF_EXP_TABLE c (unat (GF_LOG_TABLE c x) + unat (ucast (GF_LOG_TABLE c y) :: u8))
        = cm.mul (of_nat x) (of_nat y)"
      "GF_EXP_TABLE c (unat (GF_LOG_TABLE c x) + unat (255 - ucast (GF_LOG_TABLE c y) :: u8))
        = cm.mul (of_nat x) (cm.inv (of_nat y))" if "x \<in> set [1..<256]" for x
    using ready_exp_mul [OF assms(1), of "of_nat x" "of_nat y"] that y
    by (simp_all add: of_nat_u8_nonzero unat_of_nat_u8 del: of_nat_eq_0_iff)
  have "fold (\<lambda>x m. m(256 * y + x := GF_EXP_TABLE c (unat (GF_LOG_TABLE c x) +
        unat (ucast (GF_LOG_TABLE c y) :: u8)))) [1..<256] ((GF_MUL_TABLE c)(256 * y := 0)) =
      fold (\<lambda>x m. m(256 * y + x := cm.mul (of_nat x) (of_nat y))) [1..<256]
        ((GF_MUL_TABLE c)(256 * y := 0))"
    by (rule fold_cong) (simp_all add: cell del: fun_upd_apply)
  then show "GF_MUL_TABLE (muldiv_row c y) i = (if 256 * y \<le> i \<and> i < 256 * y + 256
      then cm.mul (of_nat (i - 256 * y)) (of_nat y) else GF_MUL_TABLE c i)"
    by (simp add: muldiv_row_def Let_def row_fill cm.mul_zero
        del: fun_upd_apply One_nat_def of_nat_diff)
  have "fold (\<lambda>x m. m(256 * y + x := GF_EXP_TABLE c (unat (GF_LOG_TABLE c x) +
        unat (255 - ucast (GF_LOG_TABLE c y) :: u8)))) [1..<256] ((GF_DIV_TABLE c)(256 * y := 0)) =
      fold (\<lambda>x m. m(256 * y + x := cm.mul (of_nat x) (cm.inv (of_nat y)))) [1..<256]
        ((GF_DIV_TABLE c)(256 * y := 0))"
    by (rule fold_cong) (simp_all add: cell del: fun_upd_apply)
  then show "GF_DIV_TABLE (muldiv_row c y) i = (if 256 * y \<le> i \<and> i < 256 * y + 256
      then cm.mul (of_nat (i - 256 * y)) (cm.inv (of_nat y)) else GF_DIV_TABLE c i)"
    by (simp add: muldiv_row_def Let_def row_fill cm.mul_zero
        del: fun_upd_apply One_nat_def of_nat_diff)
qed

lemma muldiv_row_frame [simp, afs_frame]:
  "GF_EXP_TABLE (muldiv_row c y) = GF_EXP_TABLE c" "GF_LOG_TABLE (muldiv_row c y) = GF_LOG_TABLE c"
  "gf_tables_ready (muldiv_row c y) = gf_tables_ready c"
  by (simp_all add: muldiv_row_def Let_def gf_tables_ready_def)

lemma muldiv_rows:
  assumes "gf_tables_ready c" and "n < 256"
    and "\<forall>i < 256. GF_MUL_TABLE c i = 0 \<and> GF_DIV_TABLE c i = 0"
  shows "gf_tables_ready (foldl muldiv_row c [1..<Suc n]) \<and> (\<forall>y \<le> n. \<forall>x < 256.
      GF_MUL_TABLE (foldl muldiv_row c [1..<Suc n]) (256 * y + x) = cm.mul (of_nat x) (of_nat y) \<and>
      GF_DIV_TABLE (foldl muldiv_row c [1..<Suc n]) (256 * y + x) =
        cm.mul (of_nat x) (cm.inv (of_nat y)))"
  using assms(2)
proof (induction n)
  case 0
  then show ?case using assms(1,3) by (simp add: cm.mul_zero cm.inv_def)
next
  case (Suc n)
  let ?c = "foldl muldiv_row c [1..<Suc n]"
  have IH: "gf_tables_ready ?c"
      "\<And>y x. y \<le> n \<Longrightarrow> x < 256 \<Longrightarrow> GF_MUL_TABLE ?c (256 * y + x) = cm.mul (of_nat x) (of_nat y) \<and>
        GF_DIV_TABLE ?c (256 * y + x) = cm.mul (of_nat x) (cm.inv (of_nat y))"
    using Suc by auto
  have "GF_MUL_TABLE (muldiv_row ?c (Suc n)) (256 * y + x) = cm.mul (of_nat x) (of_nat y) \<and>
      GF_DIV_TABLE (muldiv_row ?c (Suc n)) (256 * y + x) = cm.mul (of_nat x) (cm.inv (of_nat y))"
    if "y \<le> Suc n" "x < 256" for x y
  proof (cases "y = Suc n")
    case True
    then show ?thesis
      using muldiv_row_tables [OF IH(1), of "Suc n"] that Suc.prems by simp
  next
    case False
    then have "\<not> 256 * Suc n \<le> 256 * y + x" "y \<le> n" using that by auto
    then show ?thesis
      using muldiv_row_tables [OF IH(1), of "Suc n"] IH(2) that Suc.prems by auto
  qed
  then show ?case using IH(1) by simp
qed

text \<open>A context whose tables hold the field operations.\<close>

definition gf_ready :: "gf_ctx \<Rightarrow> bool" where
  "gf_ready c \<longleftrightarrow> (\<forall>x y. gf_mul c x y = cm.mul x y \<and> gf_div c x y = cm.mul x (cm.inv y)) \<and>
     (\<forall>x. gf_inv c x = cm.inv x \<and> gf_sqr c x = cm.mul x x) \<and>
     (\<forall>y. TABLE_LO_Y c (unat y) = map (\<lambda>x. cm.mul (of_nat x) (y :: u8)) [0..<16] \<and>
          TABLE_HI_Y c (unat y) = map (\<lambda>x. cm.mul (push_bit 4 (of_nat x)) y) [0..<16])"

lemma gf_muldiv_init_ready:
  assumes "gf_tables_ready c"
  shows "gf_mul (gf_muldiv_init c) x y = cm.mul x y"
    and "gf_div (gf_muldiv_init c) x y = cm.mul x (cm.inv y)"
proof -
  let ?m = "fold (\<lambda>x m. m(x := 0)) [0..<256] (GF_MUL_TABLE c)"
  let ?d = "fold (\<lambda>x d. d(x := 0)) [0..<256] (GF_DIV_TABLE c)"
  let ?c = "c\<lparr>GF_MUL_TABLE := ?m, GF_DIV_TABLE := ?d\<rparr>"
  have inj: "inj_on (\<lambda>x. x) (set [0..<256 :: nat])" by simp
  have zero: "?m i = 0 \<and> ?d i = 0" if "i < 256" for i
    using fold_upd(1) [OF inj, of i "\<lambda>_. 0 :: u8"] that by simp
  have "gf_tables_ready ?c" using assms by (simp add: gf_tables_ready_def)
  note rows = muldiv_rows [OF this, of 255]
  have rows: "GF_MUL_TABLE (gf_muldiv_init c) (256 * y + x) = cm.mul (of_nat x) (of_nat y)"
      "GF_DIV_TABLE (gf_muldiv_init c) (256 * y + x) = cm.mul (of_nat x) (cm.inv (of_nat y))"
    if "y \<le> 255" "x < 256" for x y
    using rows that zero by (simp_all add: gf_muldiv_init_def Let_def)
  have "unat y \<le> 255" using unat_u8_256 [of y] by simp
  then show "gf_mul (gf_muldiv_init c) x y = cm.mul x y"
      "gf_div (gf_muldiv_init c) x y = cm.mul x (cm.inv y)"
    using rows [of "unat y" "unat x"] unat_u8_256 [of x]
    by (simp_all add: gf_mul_def gf_div_def)
qed

lemma fold_upd_of_nat:
  "fold (\<lambda>x t. t(x := v (of_nat x))) [0..<256] t (unat (y :: u8)) = v y"
  using fold_upd(1) [of "\<lambda>x. x" "[0..<256]" "unat y" "\<lambda>x. v (of_nat x)" t] unat_u8_256 [of y] by simp

lemma gf_init_ready:
  assumes "\<not> Initialized c"
  shows "fst (gf_init has_ssse3 c) = 0" and "gf_ready (snd (gf_init has_ssse3 c))"
    and "CpuHasSSSE3 (snd (gf_init has_ssse3 c)) = has_ssse3"
proof -
  define c0 where "c0 = gf_explog_init (gf_poly_init kDefaultPolynomialIndex
    (gf_architecture_init has_ssse3 (c\<lparr>Initialized := True\<rparr>)))"
  have "gf_tables_ready c0"
    unfolding c0_def by (intro gf_explog_init_ready gf_poly_init_default)
  note md = gf_muldiv_init_ready [OF this]
  have le: IsLittleEndian by (simp add: IsLittleEndian_def)
  let ?c = "gf_mul_mem_init (gf_sqr_init (gf_inv_init (gf_muldiv_init c0)))"
  have init: "gf_init has_ssse3 c = (0, ?c)"
    using assms le by (simp add: gf_init_def Let_def c0_def)
  have mul: "gf_mul (c\<lparr>GF_INV_TABLE := t\<rparr>) = gf_mul c" "gf_mul (c\<lparr>GF_SQR_TABLE := t\<rparr>) = gf_mul c"
      "gf_mul (c\<lparr>TABLE_LO_Y := l, TABLE_HI_Y := h\<rparr>) = gf_mul c"
      "gf_div (c\<lparr>GF_INV_TABLE := t\<rparr>) = gf_div c" "gf_div (c\<lparr>GF_SQR_TABLE := t\<rparr>) = gf_div c"
      "gf_div (c\<lparr>TABLE_LO_Y := l, TABLE_HI_Y := h\<rparr>) = gf_div c" for c t l h
    by (simp_all add: fun_eq_iff gf_mul_def gf_div_def)
  show "fst (gf_init has_ssse3 c) = 0" by (simp add: init)
  have one: "cm.mul 1 (cm.inv x) = cm.inv x" for x by (simp add: cm.mul_one)
  show "gf_ready (snd (gf_init has_ssse3 c))"
    unfolding init snd_conv gf_ready_def
    by (simp add: gf_mul_mem_init_def gf_sqr_init_def gf_inv_init_def mul md gf_inv_def gf_sqr_def
        fold_upd_of_nat [where v = cm.inv] fold_upd_of_nat [where v = "\<lambda>x. cm.mul x x"]
        fold_upd_of_nat [where v = "\<lambda>y. map (\<lambda>x. cm.mul (of_nat x) y) [0..<16]"]
        fold_upd_of_nat [where v = "\<lambda>y. map (\<lambda>x. cm.mul (push_bit 4 (of_nat x)) y) [0..<16]"]
        one del: fun_upd_apply)
  have "CpuHasSSSE3 (muldiv_row c y) = CpuHasSSSE3 c" for c y
    by (simp add: muldiv_row_def Let_def)
  then have rows: "CpuHasSSSE3 (foldl muldiv_row c ys) = CpuHasSSSE3 c" for c ys
    by (induction ys arbitrary: c) simp_all
  show "CpuHasSSSE3 (snd (gf_init has_ssse3 c)) = has_ssse3"
    by (simp add: init gf_mul_mem_init_def gf_sqr_init_def gf_inv_init_def gf_muldiv_init_def rows
        Let_def c0_def gf_explog_init_def gf_poly_init_def gf_architecture_init_def split: prod.splits)
qed

section \<open>The field of the code\<close>

typedef gfc = "UNIV :: u8 set" morphisms byte_of_gfc Gfc
  by simp

lemmas gfc_simps [simp] = Gfc_inverse [simplified] byte_of_gfc_inverse

instantiation gfc :: field
begin

definition zero_gfc :: gfc where
  "zero_gfc = Gfc 0"

definition one_gfc :: gfc where
  "one_gfc = Gfc 1"

definition plus_gfc :: "gfc \<Rightarrow> gfc \<Rightarrow> gfc" where
  "plus_gfc a b = Gfc (byte_of_gfc a XOR byte_of_gfc b)"

definition minus_gfc :: "gfc \<Rightarrow> gfc \<Rightarrow> gfc" where
  "minus_gfc a b = Gfc (byte_of_gfc a XOR byte_of_gfc b)"

definition uminus_gfc :: "gfc \<Rightarrow> gfc" where
  "uminus_gfc a = a"

definition times_gfc :: "gfc \<Rightarrow> gfc \<Rightarrow> gfc" where
  "times_gfc a b = Gfc (cm.mul (byte_of_gfc a) (byte_of_gfc b))"

definition inverse_gfc :: "gfc \<Rightarrow> gfc" where
  "inverse_gfc a = Gfc (cm.inv (byte_of_gfc a))"

definition divide_gfc :: "gfc \<Rightarrow> gfc \<Rightarrow> gfc" where
  "divide_gfc a b = a * inverse b"

lemmas gfc_ops = zero_gfc_def one_gfc_def plus_gfc_def minus_gfc_def uminus_gfc_def
  times_gfc_def inverse_gfc_def

instance
proof
  fix a b c :: gfc
  show "a * b * c = a * (b * c)" by (simp add: gfc_ops cm.mul_assoc)
  show "a * b = b * a" by (simp add: gfc_ops cm.mul_commute)
  show "1 * a = a" by (simp add: gfc_ops cm.mul_one)
  show "a + b + c = a + (b + c)" by (simp add: gfc_ops xor.assoc)
  show "a + b = b + a" by (simp add: gfc_ops xor.commute)
  show "0 + a = a" by (simp add: gfc_ops)
  show "- a + a = 0" by (simp add: gfc_ops)
  show "a - b = a + - b" by (simp add: gfc_ops)
  show "(a + b) * c = a * c + b * c" by (simp add: gfc_ops cm.xor_mul)
  show "(0 :: gfc) \<noteq> 1" by (simp add: gfc_ops Gfc_inject)
  show "inverse a * a = 1" if "a \<noteq> 0"
    using that cm.mul_inv [of "byte_of_gfc a"]
    by (simp add: gfc_ops cm.mul_commute) (metis byte_of_gfc_inverse)
  show "a div b = a * inverse b" by (simp add: divide_gfc_def)
  show "inverse (0 :: gfc) = 0" by (simp add: gfc_ops cm.inv_def)
qed

end

lemma Gfc_0 [simp]: "Gfc 0 = 0"
  by (simp add: zero_gfc_def)

lemma Gfc_1 [simp]: "Gfc 1 = 1"
  by (simp add: one_gfc_def)

lemma Gfc_eq_0 [simp]: "Gfc a = 0 \<longleftrightarrow> a = 0"
  using Gfc_inject [of a 0] by simp

lemma Gfc_eq [simp]: "Gfc a = Gfc b \<longleftrightarrow> a = b"
  by (simp add: Gfc_inject)

lemma gfc_char2: "a + a = 0" "a - b = a + b" "- a = a" for a b :: gfc
  by (simp_all add: plus_gfc_def minus_gfc_def uminus_gfc_def)

text \<open>The scalar operations of a ready context are the field operations.\<close>

lemma ready_ops:
  assumes "gf_ready c"
  shows "Gfc (gf_add x y) = Gfc x + Gfc y" "Gfc (gf_mul c x y) = Gfc x * Gfc y"
    "Gfc (gf_div c x y) = Gfc x / Gfc y" "Gfc (gf_inv c x) = inverse (Gfc x)"
    "Gfc (GF_INV_TABLE c (unat x)) = inverse (Gfc x)"
  using assms
  by (simp_all add: gf_ready_def gf_add_def plus_gfc_def times_gfc_def divide_gfc_def inverse_gfc_def
      gf_inv_def)

section \<open>Properties\<close>

lemma cm_mul_2: "cm.mul 2 x = xtime 0x4d x"
proof (cases "x = 0")
  case False
  have two: "cm.pw 1 = 2" by (simp add: cm.pw_def xtime_def)
  obtain j where j: "x = cm.pw j" using cm.pw_lg [OF False] by metis
  have "cm.mul (cm.pw 1) (cm.pw j) = cm.pw (1 + j)" by (rule cm.mul_pw)
  then show ?thesis using two j by (simp add: cm.pw_def)
qed (simp add: cm.mul_zero)

text \<open>C16: the tables that \<open>gf_init\<close> computes make GF(256) a field: \<open>gf_mul\<close> is associative,
  commutative, distributes over \<open>gf_add\<close>, has 1 as unit and multiplies by 2 modulo the
  polynomial 0x14d; \<open>gf_inv\<close> inverts; \<open>gf_div\<close> undoes \<open>gf_mul\<close>; \<open>gf_sqr\<close> squares.\<close>

theorem gf_init_field:
  assumes "\<not> Initialized c0" and "gf_init has_ssse3 c0 = (r, c)"
  shows "r = 0 \<and> gf_mul c x (gf_mul c y z) = gf_mul c (gf_mul c x y) z \<and>
    gf_mul c x y = gf_mul c y x \<and> gf_mul c 1 x = x \<and> gf_mul c 2 x = xtime 0x4d x \<and>
    gf_mul c x (gf_add y z) = gf_add (gf_mul c x y) (gf_mul c x z) \<and>
    (x \<noteq> 0 \<longrightarrow> gf_mul c x (gf_inv c x) = 1) \<and> (y \<noteq> 0 \<longrightarrow> gf_div c (gf_mul c x y) y = x) \<and>
    gf_sqr c x = gf_mul c x x"
proof -
  have r: "r = 0" and c: "gf_ready c" using gf_init_ready [OF assms(1)] assms(2) by (metis fst_conv, metis snd_conv)
  have "cm.mul (cm.mul x y) (cm.inv y) = x" if "y \<noteq> 0"
    using cm.mul_inv [OF that] by (metis cm.mul_assoc cm.mul_commute cm.mul_one)
  then show ?thesis
    using r c cm.mul_inv [of x] cm.mul_commute [of x y] cm.mul_assoc [of x y z]
    by (simp add: gf_ready_def gf_add_def cm.mul_one cm.mul_xor cm_mul_2)
qed

theorem gf_init_field_witness:
  "gf_mul (snd (gf_init True gf_ctx_zero)) 7 (gf_inv (snd (gf_init True gf_ctx_zero)) 7) = 1"
  using gf_init_field [of gf_ctx_zero True 0 "snd (gf_init True gf_ctx_zero)" 7 0 0]
    gf_init_ready(1) [of gf_ctx_zero True]
  by (simp add: gf_ctx_zero_def prod_eq_iff)

end
