(* ===== verification/Afs_Cauchy_Mem.thy ===== *)
theory Afs_Cauchy_Mem
  imports Afs_Cauchy_Tables
begin

text \<open>
  The bulk operations of \<open>src/src/lib/cauchy_rs.c\<close> on blocks of memory, for the x86 build of the
  module (SSE, no AVX2): unrolled loops over 16-byte vectors, table lookups by \<open>pshufb\<close>, 8- and
  4-byte words and a switch for the last bytes. Each is shown to act byte by byte. A vector is
  the list of its 16 bytes, lowest address first; \<open>n\<close> is the argument \<open>bytes\<close>, which is never
  negative.
\<close>

section \<open>Vector instructions\<close>

definition vector_xor :: "bytes \<Rightarrow> bytes \<Rightarrow> bytes" where
  "vector_xor x y = map2 (XOR) x y"

definition vector_and :: "bytes \<Rightarrow> bytes \<Rightarrow> bytes" where
  "vector_and x y = map2 (AND) x y"

definition vector_srli_epi64 :: "bytes \<Rightarrow> nat \<Rightarrow> bytes" where
  "vector_srli_epi64 x n = u64s_bytes (map (drop_bit n) (u64s 2 x))"

definition vector_shuffle_epi8 :: "bytes \<Rightarrow> bytes \<Rightarrow> bytes" where
  "vector_shuffle_epi8 x y = map (\<lambda>m. if bit m 7 then 0 else x ! unat (m AND 0x0f)) y"

definition vector_set :: "u8 \<Rightarrow> bytes" where
  "vector_set x = replicate 16 x"

section \<open>The loops\<close>

text \<open>\<open>while (bytes >= w) { *z = op(*z, *x, *y); bytes -= w, ++z, ++x, ++y; }\<close>, followed by the rest
  of the function on what the pointers then point to.\<close>

function vec_loop ::
  "nat \<Rightarrow> (bytes \<Rightarrow> bytes \<Rightarrow> bytes \<Rightarrow> bytes) \<Rightarrow> (nat \<Rightarrow> bytes \<Rightarrow> bytes \<Rightarrow> bytes \<Rightarrow> bytes)
     \<Rightarrow> nat \<Rightarrow> bytes \<Rightarrow> bytes \<Rightarrow> bytes \<Rightarrow> bytes" where
  "vec_loop w op rest n z x y =
     (if 0 < w \<and> w \<le> n
      then op (take w z) (take w x) (take w y) @
        vec_loop w op rest (n - w) (drop w z) (drop w x) (drop w y)
      else rest n z x y)"
  by pat_completeness auto
termination by (relation "measure (\<lambda>(w, op, rest, n, z, x, y). n)") auto

declare vec_loop.simps [simp del]

text \<open>Four vectors at a time, as the loops over 64 bytes do.\<close>

definition four_vectors :: "(bytes \<Rightarrow> bytes \<Rightarrow> bytes \<Rightarrow> bytes) \<Rightarrow> bytes \<Rightarrow> bytes \<Rightarrow> bytes \<Rightarrow> bytes" where
  "four_vectors op z x y =
     op (sub z 0 16) (sub x 0 16) (sub y 0 16) @ op (sub z 16 16) (sub x 16 16) (sub y 16 16) @
     op (sub z 32 16) (sub x 32 16) (sub y 32 16) @ op (sub z 48 16) (sub x 48 16) (sub y 48 16)"

text \<open>The end of the functions: a block of 8 bytes, a block of 4 bytes, and the switch.\<close>

definition tail_bytes :: "(u8 \<Rightarrow> u8 \<Rightarrow> u8 \<Rightarrow> u8) \<Rightarrow> nat \<Rightarrow> nat \<Rightarrow> bytes \<Rightarrow> bytes \<Rightarrow> bytes \<Rightarrow> bytes" where
  "tail_bytes f offset n z x y =
     (let upd = (\<lambda>i z. z[i := f (z ! i) (x ! i) (y ! i)]);
          z = (if 3 \<le> n AND 3 then upd (offset + 2) z else z);
          z = (if 2 \<le> n AND 3 then upd (offset + 1) z else z)
      in if 1 \<le> n AND 3 then upd offset z else z)"

definition tail_four ::
  "(u32 \<Rightarrow> u32 \<Rightarrow> u32 \<Rightarrow> u32) \<Rightarrow> nat \<Rightarrow> nat \<Rightarrow> bytes \<Rightarrow> bytes \<Rightarrow> bytes \<Rightarrow> bytes" where
  "tail_four f offset n z x y =
     (if n AND 4 \<noteq> 0 then blit z offset (le_bytes 4
        (f (le_word (sub z offset 4)) (le_word (sub x offset 4)) (le_word (sub y offset 4)))) else z)"

definition tail_eight ::
  "(u64 \<Rightarrow> u64 \<Rightarrow> u64 \<Rightarrow> u64) \<Rightarrow> nat \<Rightarrow> bytes \<Rightarrow> bytes \<Rightarrow> bytes \<Rightarrow> bytes" where
  "tail_eight f n z x y =
     (if n AND 8 \<noteq> 0 then blit z 0 (le_bytes 8
        (f (le_word (sub z 0 8)) (le_word (sub x 0 8)) (le_word (sub y 0 8)))) else z)"

definition gf_add_mem :: "bytes \<Rightarrow> bytes \<Rightarrow> nat \<Rightarrow> bytes" where
  "gf_add_mem z x n =
     (let v = (\<lambda>z x y. vector_xor z x)
      in vec_loop 64 (four_vectors v) (vec_loop 16 v (\<lambda>n z x y.
           let eight = n AND 8; four = n AND 4;
               z = tail_eight (\<lambda>z x y. z XOR x) n z x y;
               z = tail_four (\<lambda>z x y. z XOR x) eight n z x y
           in tail_bytes (\<lambda>z x y. z XOR x) (eight + four) n z x y)) n z x x)"

definition gf_add2_mem :: "bytes \<Rightarrow> bytes \<Rightarrow> bytes \<Rightarrow> nat \<Rightarrow> bytes" where
  "gf_add2_mem z x y n =
     vec_loop 16 (\<lambda>z x y. vector_xor z (vector_xor x y)) (\<lambda>n z x y.
       let eight = n AND 8; four = n AND 4;
           z = tail_eight (\<lambda>z x y. z XOR (x XOR y)) n z x y;
           z = tail_four (\<lambda>z x y. z XOR (x XOR y)) eight n z x y
       in tail_bytes (\<lambda>z x y. z XOR (x XOR y)) (eight + four) n z x y) n z x y"

definition gf_addset_mem :: "bytes \<Rightarrow> bytes \<Rightarrow> bytes \<Rightarrow> nat \<Rightarrow> bytes" where
  "gf_addset_mem z x y n =
     (let v = (\<lambda>z x y. vector_xor x y)
      in vec_loop 64 (four_vectors v) (vec_loop 16 v (\<lambda>n z x y.
           let eight = n AND 8; four = n AND 4;
               z = tail_eight (\<lambda>z x y. x XOR y) n z x y;
               z = tail_four (\<lambda>z x y. x XOR y) eight n z x y
           in tail_bytes (\<lambda>z x y. x XOR y) (eight + four) n z x y)) n z x y)"

text \<open>Sixteen products by table lookup, and the words put together from eight and four lookups.\<close>

definition mul_vector :: "gf_ctx \<Rightarrow> u8 \<Rightarrow> bytes \<Rightarrow> bytes" where
  "mul_vector c y x0 =
     (let table_lo_y = TABLE_LO_Y c (unat y); table_hi_y = TABLE_HI_Y c (unat y);
          clr_mask = vector_set 0x0f;
          l0 = vector_and x0 clr_mask;
          x0 = vector_srli_epi64 x0 4;
          h0 = vector_and x0 clr_mask;
          l0 = vector_shuffle_epi8 table_lo_y l0;
          h0 = vector_shuffle_epi8 table_hi_y h0
      in vector_xor l0 h0)"

definition mul_word64 :: "(u8 \<Rightarrow> u8) \<Rightarrow> bytes \<Rightarrow> u64" where
  "mul_word64 table x =
     (let word = ucast (table (x ! 0));
          word = word OR push_bit 8 (ucast (table (x ! 1)));
          word = word OR push_bit 16 (ucast (table (x ! 2)));
          word = word OR push_bit 24 (ucast (table (x ! 3)));
          word = word OR push_bit 32 (ucast (table (x ! 4)));
          word = word OR push_bit 40 (ucast (table (x ! 5)));
          word = word OR push_bit 48 (ucast (table (x ! 6)))
      in word OR push_bit 56 (ucast (table (x ! 7))))"

definition mul_word32 :: "(u8 \<Rightarrow> u8) \<Rightarrow> bytes \<Rightarrow> u32" where
  "mul_word32 table x =
     (let word = ucast (table (x ! 0));
          word = word OR push_bit 8 (ucast (table (x ! 1)));
          word = word OR push_bit 16 (ucast (table (x ! 2)))
      in word OR push_bit 24 (ucast (table (x ! 3))))"

text \<open>The scalar part of \<open>gf_mul_mem\<close> and \<open>gf_muladd_mem\<close>; \<open>f\<close> combines the old byte with the
  product, \<open>f8\<close> and \<open>f4\<close> do so for words.\<close>

definition mul_scalar ::
  "(u64 \<Rightarrow> u64 \<Rightarrow> u64) \<Rightarrow> (u32 \<Rightarrow> u32 \<Rightarrow> u32) \<Rightarrow> (u8 \<Rightarrow> u8 \<Rightarrow> u8) \<Rightarrow> (u8 \<Rightarrow> u8)
     \<Rightarrow> nat \<Rightarrow> bytes \<Rightarrow> bytes \<Rightarrow> bytes \<Rightarrow> bytes" where
  "mul_scalar f8 f4 f table =
     vec_loop 8 (\<lambda>z x y. le_bytes 8 (f8 (le_word z) (mul_word64 table x))) (\<lambda>n z x y.
       let four = n AND 4;
           z = (if four \<noteq> 0 then blit z 0 (le_bytes 4 (f4 (le_word (sub z 0 4)) (mul_word32 table (sub x 0 4))))
                else z)
       in tail_bytes (\<lambda>z x y. f z (table x)) four n z x y)"

definition gf_mul_mem :: "gf_ctx \<Rightarrow> bytes \<Rightarrow> bytes \<Rightarrow> u8 \<Rightarrow> nat \<Rightarrow> bytes" where
  "gf_mul_mem c z x y n =
     (if y \<le> 1 then (if y = 0 then blit z 0 (replicate n 0) else blit z 0 (take n x))
      else let table = (\<lambda>b. GF_MUL_TABLE c (256 * unat y + unat b));
               scalar = mul_scalar (\<lambda>_ w. w) (\<lambda>_ w. w) (\<lambda>_ p. p) table
           in if 16 \<le> n \<and> CpuHasSSSE3 c
              then vec_loop 16 (\<lambda>z x _. mul_vector c y x) scalar n z x x
              else scalar n z x x)"

definition gf_muladd_mem :: "gf_ctx \<Rightarrow> bytes \<Rightarrow> u8 \<Rightarrow> bytes \<Rightarrow> nat \<Rightarrow> bytes" where
  "gf_muladd_mem c z y x n =
     (if y \<le> 1 then (if y = 1 then gf_add_mem z x n else z)
      else let table = (\<lambda>b. GF_MUL_TABLE c (256 * unat y + unat b));
               scalar = mul_scalar (XOR) (XOR) (XOR) table;
               v = (\<lambda>z x _. vector_xor (mul_vector c y x) z)
           in if 16 \<le> n \<and> CpuHasSSSE3 c
              then vec_loop 32 (\<lambda>z x y. v (sub z 0 16) (sub x 0 16) y @ v (sub z 16 16) (sub x 16 16) y)
                     (vec_loop 16 v scalar) n z x x
              else scalar n z x x)"

definition gf_div_mem :: "gf_ctx \<Rightarrow> bytes \<Rightarrow> bytes \<Rightarrow> u8 \<Rightarrow> nat \<Rightarrow> bytes" where
  "gf_div_mem c z x y n = gf_mul_mem c z x (if y = 1 then 1 else GF_INV_TABLE c (unat y)) n"

section \<open>Acting byte by byte\<close>

text \<open>\<open>z[i] = f(z[i], x[i], y[i])\<close> for the indices from \<open>a\<close> up to \<open>b\<close>.\<close>

definition bytewise :: "(u8 \<Rightarrow> u8 \<Rightarrow> u8 \<Rightarrow> u8) \<Rightarrow> nat \<Rightarrow> nat \<Rightarrow> bytes \<Rightarrow> bytes \<Rightarrow> bytes \<Rightarrow> bytes" where
  "bytewise f a b z x y =
     map (\<lambda>i. if a \<le> i \<and> i < b then f (z ! i) (x ! i) (y ! i) else z ! i) [0..<length z]"

lemma length_bytewise [simp, afs_len]: "length (bytewise f a b z x y) = length z"
  by (simp add: bytewise_def)

lemma nth_bytewise [simp]:
  "i < length z \<Longrightarrow> bytewise f a b z x y ! i =
     (if a \<le> i \<and> i < b then f (z ! i) (x ! i) (y ! i) else z ! i)"
  by (simp add: bytewise_def)

lemma bytewise_empty [simp]: "bytewise f a a z x y = z"
  by (rule nth_equalityI) auto

lemma bytewise_join:
  "a \<le> b \<Longrightarrow> b \<le> c \<Longrightarrow> bytewise f b c (bytewise f a b z x y) x y = bytewise f a c z x y"
  by (rule nth_equalityI) auto

lemma bytewise_split:
  assumes "w \<le> n" and "n \<le> length z" and "n \<le> length x" and "n \<le> length y"
  shows "bytewise f 0 n z x y = bytewise f 0 w (take w z) (take w x) (take w y) @
    bytewise f 0 (n - w) (drop w z) (drop w x) (drop w y)"
  using assms by (intro nth_equalityI) (auto simp: nth_append)

text \<open>An operation on \<open>w\<close> bytes at a time that acts as \<open>f\<close> on each of them.\<close>

definition acts_as :: "(u8 \<Rightarrow> u8 \<Rightarrow> u8 \<Rightarrow> u8) \<Rightarrow> nat \<Rightarrow> (bytes \<Rightarrow> bytes \<Rightarrow> bytes \<Rightarrow> bytes) \<Rightarrow> bool" where
  "acts_as f w op \<longleftrightarrow> (\<forall>z x y. length z = w \<longrightarrow> length x = w \<longrightarrow> length y = w \<longrightarrow>
     op z x y = bytewise f 0 w z x y)"

text \<open>The rest of a function, for fewer than \<open>w\<close> bytes.\<close>

definition finishes :: "(u8 \<Rightarrow> u8 \<Rightarrow> u8 \<Rightarrow> u8) \<Rightarrow> nat \<Rightarrow> (nat \<Rightarrow> bytes \<Rightarrow> bytes \<Rightarrow> bytes \<Rightarrow> bytes) \<Rightarrow> bool" where
  "finishes f w rest \<longleftrightarrow> (\<forall>n z x y. n < w \<longrightarrow> n \<le> length z \<longrightarrow> n \<le> length x \<longrightarrow> n \<le> length y \<longrightarrow>
     rest n z x y = bytewise f 0 n z x y)"

lemma vec_loop_bytewise:
  assumes "0 < w" and "acts_as f w op" and "finishes f w rest"
    and "n \<le> length z" and "n \<le> length x" and "n \<le> length y"
  shows "vec_loop w op rest n z x y = bytewise f 0 n z x y"
  using assms(4-6)
proof (induction n arbitrary: z x y rule: less_induct)
  case (less n)
  show ?case
  proof (cases "w \<le> n")
    case True
    then have "vec_loop w op rest (n - w) (drop w z) (drop w x) (drop w y) =
        bytewise f 0 (n - w) (drop w z) (drop w x) (drop w y)"
      using less assms(1) by simp
    moreover have "op (take w z) (take w x) (take w y) =
        bytewise f 0 w (take w z) (take w x) (take w y)"
      using assms(2) True less.prems by (simp add: acts_as_def)
    ultimately show ?thesis
      using True assms(1) less.prems by (simp add: vec_loop.simps [of w] bytewise_split [OF True])
  next
    case False
    then show ?thesis
      using assms(3) less.prems by (simp add: vec_loop.simps [of w] finishes_def)
  qed
qed

lemma finishes_vec_loop:
  "0 < w \<Longrightarrow> acts_as f w op \<Longrightarrow> finishes f w rest \<Longrightarrow> finishes f m (vec_loop w op rest)"
  by (auto simp: finishes_def [of f m] intro: vec_loop_bytewise)

lemma acts_as_sub:
  assumes "acts_as f w op" and "length z = length x" and "length y = length x" and "a + w \<le> length x"
  shows "op (sub z a w) (sub x a w) (sub y a w) = map (\<lambda>i. f (z ! i) (x ! i) (y ! i)) [a..<a + w]"
proof -
  have "op (sub z a w) (sub x a w) (sub y a w) = bytewise f 0 w (sub z a w) (sub x a w) (sub y a w)"
    using assms by (simp add: acts_as_def)
  then show ?thesis using assms by (intro nth_equalityI) simp_all
qed

lemma bytewise_whole:
  "length z = n \<Longrightarrow> bytewise f 0 n z x y = map (\<lambda>i. f (z ! i) (x ! i) (y ! i)) [0..<n]"
  by (rule nth_equalityI) simp_all

lemma acts_as_four:
  assumes "acts_as f 16 op"
  shows "acts_as f 64 (four_vectors op)"
proof -
  have u: "[0..<64] = [0..<16] @ [16..<32] @ [32..<48] @ [48..<64 :: nat]"
    using upt_add_eq_append [of 0 16 48] upt_add_eq_append [of 16 32 32]
      upt_add_eq_append [of 32 48 16] by simp
  show ?thesis
    unfolding acts_as_def
    using acts_as_sub [OF assms, where a = 0] acts_as_sub [OF assms, where a = 16]
      acts_as_sub [OF assms, where a = 32] acts_as_sub [OF assms, where a = 48]
    by (simp add: four_vectors_def bytewise_whole u)
qed

section \<open>Words\<close>

lemma length_le_word_split: "length bs = n \<Longrightarrow> 8 * n \<le> LENGTH('a) \<Longrightarrow> i < n \<Longrightarrow> k < 8 \<Longrightarrow>
    bit (le_word bs :: 'a::len word) (8 * i + k) = bit (bs ! i) k"
  by (simp add: bit_le_word)

lemma le_bytes_eqI:
  assumes "length bs = n" and "\<And>i k. i < n \<Longrightarrow> k < 8 \<Longrightarrow> bit w (8 * i + k) = bit (bs ! i) k"
  shows "le_bytes n (w :: 'a::len word) = bs"
proof (rule nth_equalityI)
  show "length (le_bytes n w) = length bs" using assms(1) by simp
  fix i assume "i < length (le_bytes n w)"
  then have i: "i < n" by simp
  show "le_bytes n w ! i = bs ! i"
    using assms(2) [OF i] i by (intro bit_word_eqI) (simp add: bit_nth_le_bytes)
qed

text \<open>A bitwise operation on words acts on each byte.\<close>

lemma le_bytes_xor3:
  assumes "length z = n" and "length x = n" and "length y = n" and "8 * n \<le> LENGTH('a)"
  shows "le_bytes n (le_word z XOR le_word x :: 'a::len word) = map (\<lambda>i. z ! i XOR x ! i) [0..<n]"
    and "le_bytes n (le_word z XOR (le_word x XOR le_word y) :: 'a::len word)
      = map (\<lambda>i. z ! i XOR (x ! i XOR y ! i)) [0..<n]"
  using assms by (auto intro!: le_bytes_eqI simp: bit_simps length_le_word_split)

definition word_acts_as ::
  "(u8 \<Rightarrow> u8 \<Rightarrow> u8 \<Rightarrow> u8) \<Rightarrow> nat \<Rightarrow> ('a::len word \<Rightarrow> 'a word \<Rightarrow> 'a word \<Rightarrow> 'a word) \<Rightarrow> bool" where
  "word_acts_as f n g \<longleftrightarrow> (\<forall>z x y. length z = n \<longrightarrow> length x = n \<longrightarrow> length y = n \<longrightarrow>
     le_bytes n (g (le_word z) (le_word x) (le_word y)) = map (\<lambda>i. f (z ! i) (x ! i) (y ! i)) [0..<n])"

lemma word_acts_as_xor [simp]:
  "word_acts_as (\<lambda>z x y. z XOR x) 8 (\<lambda>z x y :: u64. z XOR x)"
  "word_acts_as (\<lambda>z x y. z XOR x) 4 (\<lambda>z x y :: u32. z XOR x)"
  "word_acts_as (\<lambda>z x y. z XOR (x XOR y)) 8 (\<lambda>z x y :: u64. z XOR (x XOR y))"
  "word_acts_as (\<lambda>z x y. z XOR (x XOR y)) 4 (\<lambda>z x y :: u32. z XOR (x XOR y))"
  "word_acts_as (\<lambda>z x y. x XOR y) 8 (\<lambda>z x y :: u64. x XOR y)"
  "word_acts_as (\<lambda>z x y. x XOR y) 4 (\<lambda>z x y :: u32. x XOR y)"
  by (simp_all add: word_acts_as_def le_bytes_xor3)

section \<open>The ends of the functions\<close>

lemma blit_bytewise:
  assumes "a + w \<le> length z" and "bs = map (\<lambda>i. f (z ! (a + i)) (x ! (a + i)) (y ! (a + i))) [0..<w]"
  shows "blit z a bs = bytewise f a (a + w) z x y"
  using assms by (intro nth_equalityI) (auto simp: nth_blit)

lemma tail_eight_bytewise:
  assumes "word_acts_as f 8 g" and "n AND 8 \<le> length z" and "n AND 8 \<le> length x"
    and "n AND 8 \<le> length y" and "n AND 8 = 0 \<or> n AND 8 = 8"
  shows "tail_eight g n z x y = bytewise f 0 (n AND 8) z x y"
proof (cases "n AND 8 = 0")
  case False
  then have 8: "n AND 8 = 8" using assms(5) by simp
  have "le_bytes 8 (g (le_word (sub z 0 8)) (le_word (sub x 0 8)) (le_word (sub y 0 8))) =
      map (\<lambda>i. f (z ! (0 + i)) (x ! (0 + i)) (y ! (0 + i))) [0..<8]"
    using assms 8 by (simp add: word_acts_as_def)
  then show ?thesis
    using assms 8 blit_bytewise [of 0 8 z _ f x y] by (simp add: tail_eight_def)
qed (simp add: tail_eight_def)

lemma tail_four_bytewise:
  assumes "word_acts_as f 4 g" and "a + (n AND 4) \<le> length z" and "a + (n AND 4) \<le> length x"
    and "a + (n AND 4) \<le> length y" and "n AND 4 = 0 \<or> n AND 4 = 4"
  shows "tail_four g a n z x y = bytewise f a (a + (n AND 4)) z x y"
proof (cases "n AND 4 = 0")
  case False
  then have 4: "n AND 4 = 4" using assms(5) by simp
  have "le_bytes 4 (g (le_word (sub z a 4)) (le_word (sub x a 4)) (le_word (sub y a 4))) =
      map (\<lambda>i. f (z ! (a + i)) (x ! (a + i)) (y ! (a + i))) [0..<4]"
    using assms 4 by (simp add: word_acts_as_def)
  then show ?thesis
    using assms 4 blit_bytewise [of a 4 z _ f x y] by (simp add: tail_four_def)
qed (simp add: tail_four_def)

lemma tail_bytes_bytewise:
  assumes "a + (n AND 3) \<le> length z"
  shows "tail_bytes f a n z x y = bytewise f a (a + (n AND 3)) z x y"
proof -
  have "n AND 3 = take_bit 2 n" by (simp add: take_bit_eq_mask mask_eq_exp_minus_1)
  then have "n AND 3 = n mod 4" by (simp add: take_bit_eq_mod)
  then consider "n AND 3 = 0" | "n AND 3 = 1" | "n AND 3 = 2" | "n AND 3 = 3" by linarith
  then show ?thesis
    using assms
    by cases (auto simp: tail_bytes_def Let_def nth_list_update intro!: nth_equalityI)
qed

lemma and_parts:
  assumes "n < (16 :: nat)"
  shows "n AND 8 = 0 \<or> n AND 8 = 8" and "n AND 4 = 0 \<or> n AND 4 = 4"
    and "(n AND 8) + (n AND 4) + (n AND 3) = n"
proof -
  have "list_all (\<lambda>n :: nat. (n AND 8 = 0 \<or> n AND 8 = 8) \<and> (n AND 4 = 0 \<or> n AND 4 = 4) \<and>
      (n AND 8) + (n AND 4) + (n AND 3) = n) [0..<16]"
    by code_simp
  then show "n AND 8 = 0 \<or> n AND 8 = 8" "n AND 4 = 0 \<or> n AND 4 = 4"
      "(n AND 8) + (n AND 4) + (n AND 3) = n"
    using assms by (simp_all add: list_all_length)
qed

lemma and_8_small: "n < 8 \<Longrightarrow> n AND 8 = (0 :: nat)"
proof -
  assume "n < 8"
  moreover have "list_all (\<lambda>n :: nat. n AND 8 = 0) [0..<8]" by code_simp
  ultimately show ?thesis by (simp add: list_all_length)
qed

lemma finishes_tail:
  assumes "word_acts_as f 8 g8" and "word_acts_as f 4 g4"
  shows "finishes f 16 (\<lambda>n z x y.
    let eight = n AND 8; four = n AND 4; z = tail_eight g8 n z x y; z = tail_four g4 eight n z x y
    in tail_bytes f (eight + four) n z x y)"
  unfolding finishes_def
proof (intro allI impI)
  fix n and z x y :: bytes
  assume n: "n < 16" "n \<le> length z" "n \<le> length x" "n \<le> length y"
  note p = and_parts [OF n(1)]
  have 1: "tail_eight g8 n z x y = bytewise f 0 (n AND 8) z x y"
    using p n by (intro tail_eight_bytewise assms) simp_all
  let ?z1 = "bytewise f 0 (n AND 8) z x y"
  have 2: "tail_four g4 (n AND 8) n ?z1 x y = bytewise f (n AND 8) ((n AND 8) + (n AND 4)) ?z1 x y"
    using p n by (intro tail_four_bytewise assms) simp_all
  let ?z2 = "bytewise f (n AND 8) ((n AND 8) + (n AND 4)) ?z1 x y"
  have 3: "tail_bytes f ((n AND 8) + (n AND 4)) n ?z2 x y =
      bytewise f ((n AND 8) + (n AND 4)) n ?z2 x y"
    using p n tail_bytes_bytewise [of "(n AND 8) + (n AND 4)" n ?z2] by simp
  have "(n AND 8) + (n AND 4) \<le> n" using p(3) by linarith
  then show "(let eight = n AND 8; four = n AND 4; z = tail_eight g8 n z x y;
      z = tail_four g4 eight n z x y in tail_bytes f (eight + four) n z x y) = bytewise f 0 n z x y"
    unfolding Let_def 1 2 3 by (simp add: bytewise_join)
qed

section \<open>Vectors\<close>

lemma acts_as_vector_xor:
  "acts_as (\<lambda>z x y. z XOR x) 16 (\<lambda>z x y. vector_xor z x)"
  "acts_as (\<lambda>z x y. z XOR (x XOR y)) 16 (\<lambda>z x y. vector_xor z (vector_xor x y))"
  "acts_as (\<lambda>z x y. x XOR y) 16 (\<lambda>z x y. vector_xor x y)"
  by (auto simp: acts_as_def vector_xor_def intro!: nth_equalityI)

lemma gf_add_mem_bytewise:
  assumes "n \<le> length z" and "n \<le> length x"
  shows "gf_add_mem z x n = bytewise (\<lambda>z x y. z XOR x) 0 n z x x"
  unfolding gf_add_mem_def Let_def
  using assms
  by (intro vec_loop_bytewise acts_as_four acts_as_vector_xor finishes_vec_loop
      finishes_tail [unfolded Let_def]) simp_all

lemma gf_add2_mem_bytewise:
  assumes "n \<le> length z" and "n \<le> length x" and "n \<le> length y"
  shows "gf_add2_mem z x y n = bytewise (\<lambda>z x y. z XOR (x XOR y)) 0 n z x y"
  unfolding gf_add2_mem_def Let_def
  using assms
  by (intro vec_loop_bytewise acts_as_four acts_as_vector_xor finishes_vec_loop
      finishes_tail [unfolded Let_def]) simp_all

lemma gf_addset_mem_bytewise:
  assumes "n \<le> length z" and "n \<le> length x" and "n \<le> length y"
  shows "gf_addset_mem z x y n = bytewise (\<lambda>z x y. x XOR y) 0 n z x y"
  unfolding gf_addset_mem_def Let_def
  using assms
  by (intro vec_loop_bytewise acts_as_four acts_as_vector_xor finishes_vec_loop
      finishes_tail [unfolded Let_def]) simp_all

section \<open>Products\<close>

lemma word_le_1_cases: "y \<le> 1 \<Longrightarrow> y = 0 \<or> y = (1 :: 'a::len word)"
  by (metis word_le_less_eq word_less_1)

lemma nth_u64s: "j < n \<Longrightarrow> u64s n bs ! j = le_word (take 8 (drop (8 * j) bs))"
  by (induction n bs arbitrary: j rule: u64s.induct) (auto simp: nth_Cons ac_simps split: nat.splits)

lemma nth_u64s_bytes: "i < 8 * length ws \<Longrightarrow> u64s_bytes ws ! i = le_bytes 8 (ws ! (i div 8)) ! (i mod 8)"
proof (induction ws arbitrary: i)
  case (Cons w ws)
  show ?case
  proof (cases "i < 8")
    case False
    then have "i div 8 = Suc ((i - 8) div 8)" "i mod 8 = (i - 8) mod 8"
      by (simp_all add: le_div_geq le_mod_geq)
    then show ?thesis using Cons.IH [of "i - 8"] Cons.prems False
      by (simp add: u64s_bytes_def nth_append)
  qed (simp add: u64s_bytes_def nth_append)
qed simp

lemma bit_0f: "bit (0x0f :: u8) k \<longleftrightarrow> k < 4"
proof -
  have "(0x0f :: u8) = mask 4" by (simp add: mask_eq_exp_minus_1)
  then show ?thesis by (simp only: bit_mask_iff) auto
qed

lemma bit_15: "bit (15 :: int) k \<longleftrightarrow> k < 4"
proof -
  have "(15 :: int) = mask 4" by (simp add: mask_eq_exp_minus_1)
  then show ?thesis by (simp only: bit_mask_iff) auto
qed

lemma srli_nibble:
  assumes "length x = 16" and "i < 16"
  shows "vector_srli_epi64 x 4 ! i AND 0x0f = drop_bit 4 (x ! i)"
proof (rule bit_word_eqI)
  fix k assume "k < LENGTH(8)"
  then have k: "k < 8" by simp
  have i: "i div 8 < 2" "i mod 8 < 8" "8 * (i div 8) + i mod 8 = i" using assms by auto
  define L where "L = (le_word (take 8 (drop (8 * (i div 8)) x)) :: u64)"
  have lane: "vector_srli_epi64 x 4 ! i = le_bytes 8 (drop_bit 4 L) ! (i mod 8)"
  proof -
    have "vector_srli_epi64 x 4 ! i = le_bytes 8 (map (drop_bit 4) (u64s 2 x) ! (i div 8)) ! (i mod 8)"
      using assms(2) by (simp add: vector_srli_epi64_def nth_u64s_bytes)
    also have "map (drop_bit 4) (u64s 2 x) ! (i div 8) = drop_bit 4 L"
      using i by (subst nth_map) (simp_all add: nth_u64s L_def)
    finally show ?thesis .
  qed
  have lane: "bit (vector_srli_epi64 x 4 ! i) k = bit (x ! i) (k + 4)" if "k < 4"
  proof -
    let ?m = "8 * (i mod 8) + (k + 4)"
    have m: "?m < 64" "?m div 8 = i mod 8" "?m mod 8 = k + 4" using that i(2) by simp_all
    have "i mod 8 < length (take 8 (drop (8 * (i div 8)) x))"
      unfolding length_take length_drop assms(1) using i assms(2) by linarith
    moreover have "take 8 (drop (8 * (i div 8)) x) ! (i mod 8) = x ! i" using i assms by simp
    ultimately have "bit L ?m = bit (x ! i) (k + 4)" using m by (simp add: L_def bit_le_word)
    then show ?thesis
      using k i(2) by (simp add: lane bit_nth_le_bytes bit_drop_bit_eq ac_simps)
  qed
  show "bit (vector_srli_epi64 x 4 ! i AND 0x0f) k = bit (drop_bit 4 (x ! i)) k"
    using lane k bit_imp_le_length [of "x ! i" "4 + k"]
    by (cases "k < 4") (auto simp: bit_and_iff bit_0f bit_15 bit_drop_bit_eq add.commute)
qed

lemma nibbles: "(b AND 0x0f) XOR push_bit 4 (drop_bit 4 b) = (b :: u8)"
proof (rule bit_word_eqI)
  fix k assume "k < LENGTH(8)"
  then show "bit ((b AND 0x0f) XOR push_bit 4 (drop_bit 4 b)) k = bit b k"
    by (auto simp: bit_xor_iff bit_and_iff bit_0f bit_15 bit_push_bit_iff bit_drop_bit_eq)
qed

lemma unat_nibble: "unat (b AND 0x0f :: u8) < 16" "unat (drop_bit 4 (b :: u8)) < 16"
proof -
  have "b AND 0x0f = take_bit 4 b" by (simp add: take_bit_eq_mask mask_eq_exp_minus_1)
  moreover have "unat (take_bit 4 b) = take_bit 4 (unat b)" by (rule unsigned_take_bit_eq)
  moreover have "take_bit 4 (unat b) < 16" by (simp add: take_bit_eq_mod)
  ultimately show "unat (b AND 0x0f :: u8) < 16" by (simp only:)
  show "unat (drop_bit 4 (b :: u8)) < 16"
    using unat_u8_256 [of b] by (simp only: unat_drop_bit_eq) (simp add: drop_bit_eq_div)
qed

lemma mul_vector_products:
  assumes "gf_ready c" and "length x = 16"
  shows "mul_vector c y x = map (\<lambda>b. cm.mul b y) x"
proof (rule nth_equalityI)
  have len: "length (vector_srli_epi64 x 4) = 16" by (simp add: vector_srli_epi64_def)
  show "length (mul_vector c y x) = length (map (\<lambda>b. cm.mul b y) x)"
    using assms(2) len
    by (simp add: mul_vector_def Let_def vector_xor_def vector_shuffle_epi8_def vector_and_def vector_set_def)
  fix i assume "i < length (mul_vector c y x)"
  then have i: "i < 16" using assms(2) len
    by (simp add: mul_vector_def Let_def vector_xor_def vector_shuffle_epi8_def vector_and_def vector_set_def)
  have lo: "TABLE_LO_Y c (unat y) = map (\<lambda>x. cm.mul (of_nat x) y) [0..<16]"
      "TABLE_HI_Y c (unat y) = map (\<lambda>x. cm.mul (push_bit 4 (of_nat x)) y) [0..<16]"
    using assms(1) by (simp_all add: gf_ready_def)
  have b7: "\<not> bit (b AND 0x0f :: u8) 7" "b AND 0x0f AND 0x0f = (b AND 0x0f :: u8)" for b
    by (simp_all add: bit_and_iff and.assoc)
  let ?b = "x ! i"
  have h15: "drop_bit 4 ?b AND 0x0f = drop_bit 4 ?b" "\<not> bit (drop_bit 4 ?b) 7"
    using b7(1) [of "vector_srli_epi64 x 4 ! i"] srli_nibble [OF assms(2) i]
    by (metis and.assoc and.idem, metis)
  have "mul_vector c y x ! i = cm.mul (?b AND 0x0f) y XOR cm.mul (push_bit 4 (drop_bit 4 ?b)) y"
    using i assms(2) len srli_nibble [OF assms(2) i] h15
    by (simp add: mul_vector_def Let_def vector_xor_def vector_shuffle_epi8_def vector_and_def
        vector_set_def lo b7 unat_nibble)
  also have "\<dots> = cm.mul ?b y" by (simp add: cm.xor_mul [symmetric] nibbles)
  finally show "mul_vector c y x ! i = map (\<lambda>b. cm.mul b y) x ! i" using i assms(2) by simp
qed

lemma mul_words:
  "length x = 8 \<Longrightarrow> mul_word64 t x = le_word (map t x)"
  "length x = 4 \<Longrightarrow> mul_word32 t x = le_word (map t x)"
proof -
  show "length x = 8 \<Longrightarrow> mul_word64 t x = le_word (map t x)"
    by (auto simp: mul_word64_def Let_def push_bit_or or.assoc numeral_eq_Suc length_Suc_conv)
  show "length x = 4 \<Longrightarrow> mul_word32 t x = le_word (map t x)"
    by (auto simp: mul_word32_def Let_def push_bit_or or.assoc numeral_eq_Suc length_Suc_conv)
qed

lemma mul_scalar_bytewise:
  assumes f8: "\<And>z x. length z = 8 \<Longrightarrow> length x = 8 \<Longrightarrow>
      le_bytes 8 (f8 (le_word z) (le_word x)) = map (\<lambda>i. f (z ! i) (x ! i)) [0..<8]"
    and f4: "\<And>z x. length z = 4 \<Longrightarrow> length x = 4 \<Longrightarrow>
      le_bytes 4 (f4 (le_word z) (le_word x)) = map (\<lambda>i. f (z ! i) (x ! i)) [0..<4]"
    and "n \<le> length z" and "n \<le> length x" and "n \<le> length y"
  shows "mul_scalar f8 f4 f t n z x y = bytewise (\<lambda>z x y. f z (t x)) 0 n z x y"
  unfolding mul_scalar_def
proof (rule vec_loop_bytewise)
  let ?f = "\<lambda>z x y :: u8. f z (t x)"
  show "acts_as ?f 8 (\<lambda>z x y. le_bytes 8 (f8 (le_word z) (mul_word64 t x)))"
    using f8 by (simp add: acts_as_def mul_words bytewise_whole)
  show "finishes ?f 8 (\<lambda>n z x y. let four = n AND 4;
      z = if four \<noteq> 0 then blit z 0 (le_bytes 4 (f4 (le_word (sub z 0 4)) (mul_word32 t (sub x 0 4)))) else z
      in tail_bytes ?f four n z x y)"
    unfolding finishes_def
  proof (intro allI impI)
    fix n and z x y :: bytes
    assume n: "n < 8" "n \<le> length z" "n \<le> length x" "n \<le> length y"
    have p: "n AND 4 = 0 \<or> n AND 4 = 4" "(n AND 4) + (n AND 3) = n"
      using and_parts [of n] n(1) and_8_small [of n] by simp_all
    have 1: "(if n AND 4 \<noteq> 0 then blit z 0 (le_bytes 4 (f4 (le_word (sub z 0 4)) (mul_word32 t (sub x 0 4))))
        else z) = bytewise ?f 0 (n AND 4) z x y"
    proof (cases "n AND 4 = 0")
      case False
      then have "n AND 4 = 4" "4 \<le> n" using p by linarith+
      moreover have "le_bytes 4 (f4 (le_word (sub z 0 4)) (mul_word32 t (sub x 0 4))) =
          map (\<lambda>i. ?f (z ! (0 + i)) (x ! (0 + i)) (y ! (0 + i))) [0..<4]"
        using n \<open>4 \<le> n\<close> by (simp add: mul_words f4)
      ultimately show ?thesis using n blit_bytewise [of 0 4 z _ ?f x y] by simp
    qed simp
    let ?z = "bytewise ?f 0 (n AND 4) z x y"
    have "tail_bytes ?f (n AND 4) n ?z x y = bytewise ?f (n AND 4) n ?z x y"
      using tail_bytes_bytewise [of "n AND 4" n ?z] p n by simp
    then show "(let four = n AND 4;
        z = if four \<noteq> 0 then blit z 0 (le_bytes 4 (f4 (le_word (sub z 0 4)) (mul_word32 t (sub x 0 4)))) else z
        in tail_bytes ?f four n z x y) = bytewise ?f 0 n z x y"
      unfolding Let_def 1 using p by (simp add: bytewise_join)
  qed
qed (use assms in simp_all)

text \<open>The table row of \<open>y\<close> holds the products with \<open>y\<close>.\<close>

lemma mul_row: "gf_ready c \<Longrightarrow> GF_MUL_TABLE c (256 * unat y + unat b) = cm.mul b y"
  using gf_mul_def [of c b y] by (simp add: gf_ready_def)

lemma set_words:
  "length x = 8 \<Longrightarrow> le_bytes 8 (le_word x :: u64) = map (\<lambda>i. x ! i) [0..<8]"
  "length x = 4 \<Longrightarrow> le_bytes 4 (le_word x :: u32) = map (\<lambda>i. x ! i) [0..<4]"
  by (simp add: le_bytes_le_word, metis map_nth, simp add: le_bytes_le_word, metis map_nth)

lemma gf_mul_mem_bytewise:
  assumes c: "gf_ready c" and n: "n \<le> length z" "n \<le> length x"
  shows "gf_mul_mem c z x y n = bytewise (\<lambda>z x _. cm.mul x y) 0 n z x x"
proof (cases "y \<le> 1")
  case True
  then have "y = 0 \<or> y = 1" by (metis word_le_1_cases)
  then show ?thesis
    using n by (auto simp: gf_mul_mem_def cm.mul_zero cm.mul_one cm.mul_commute [of _ 1] nth_blit
        intro!: nth_equalityI)
next
  case False
  let ?t = "\<lambda>b. GF_MUL_TABLE c (256 * unat y + unat b)"
  have sc: "mul_scalar (\<lambda>_ w. w) (\<lambda>_ w. w) (\<lambda>_ p. p) ?t n z x x' =
      bytewise (\<lambda>z x _. cm.mul x y) 0 n z x x'"
    if "n \<le> length z" "n \<le> length x" "n \<le> length x'" for n z x x'
    using that by (subst mul_scalar_bytewise) (simp_all add: set_words mul_row [OF c])
  have "acts_as (\<lambda>z x _. cm.mul x y) 16 (\<lambda>z x _. mul_vector c y x)"
    using c by (auto simp: acts_as_def mul_vector_products intro!: nth_equalityI)
  then have "vec_loop 16 (\<lambda>z x _. mul_vector c y x) (mul_scalar (\<lambda>_ w. w) (\<lambda>_ w. w) (\<lambda>_ p. p) ?t) n z x x =
      bytewise (\<lambda>z x _. cm.mul x y) 0 n z x x"
    using n sc by (intro vec_loop_bytewise) (simp_all add: finishes_def)
  then show ?thesis using False n sc by (simp add: gf_mul_mem_def Let_def)
qed

lemma gf_muladd_mem_bytewise:
  assumes c: "gf_ready c" and n: "n \<le> length z" "n \<le> length x"
  shows "gf_muladd_mem c z y x n = bytewise (\<lambda>z x _. z XOR cm.mul x y) 0 n z x x"
proof (cases "y \<le> 1")
  case True
  then have "y = 0 \<or> y = 1" by (metis word_le_1_cases)
  then show ?thesis
    using n by (auto simp: gf_muladd_mem_def gf_add_mem_bytewise cm.mul_zero cm.mul_one
        cm.mul_commute [of _ 1] intro!: nth_equalityI)
next
  case False
  let ?t = "\<lambda>b. GF_MUL_TABLE c (256 * unat y + unat b)"
  let ?f = "\<lambda>z x _. z XOR cm.mul x y"
  let ?v = "\<lambda>z x _. vector_xor (mul_vector c y x) z"
  have sc: "mul_scalar (XOR) (XOR) (XOR) ?t n z x x' = bytewise ?f 0 n z x x'"
    if "n \<le> length z" "n \<le> length x" "n \<le> length x'" for n z x x'
    using that by (subst mul_scalar_bytewise)
      (simp_all add: le_bytes_xor3(1) [where y = "replicate n 0" for n] mul_row [OF c])
  have v: "acts_as ?f 16 ?v"
    using c by (auto simp: acts_as_def mul_vector_products vector_xor_def xor.commute intro!: nth_equalityI)
  have u: "[0..<32] = [0..<16] @ [16..<32 :: nat]" using upt_add_eq_append [of 0 16 16] by simp
  have v2: "acts_as ?f 32 (\<lambda>z x y. ?v (sub z 0 16) (sub x 0 16) y @ ?v (sub z 16 16) (sub x 16 16) y)"
    unfolding acts_as_def
    using acts_as_sub [OF v, where a = 0] acts_as_sub [OF v, where a = 16]
    by (simp add: bytewise_whole u)
  have "vec_loop 32 (\<lambda>z x y. ?v (sub z 0 16) (sub x 0 16) y @ ?v (sub z 16 16) (sub x 16 16) y)
      (vec_loop 16 ?v (mul_scalar (XOR) (XOR) (XOR) ?t)) n z x x = bytewise ?f 0 n z x x"
    using n sc by (intro vec_loop_bytewise finishes_vec_loop v v2) (simp_all add: finishes_def)
  then show ?thesis using False n sc by (simp add: gf_muladd_mem_def Let_def)
qed

lemma gf_div_mem_bytewise:
  assumes c: "gf_ready c" and n: "n \<le> length z" "n \<le> length x"
  shows "gf_div_mem c z x y n = bytewise (\<lambda>z x _. cm.mul x (cm.inv y)) 0 n z x x"
proof -
  have "cm.inv 1 = 1" using cm.mul_inv [of 1] by (simp add: cm.mul_one)
  moreover have "GF_INV_TABLE c (unat y) = cm.inv y"
    using c by (simp add: gf_ready_def gf_inv_def)
  ultimately show ?thesis using n by (auto simp: gf_div_mem_def gf_mul_mem_bytewise [OF c])
qed

lemma length_mem_ops [simp, afs_len]:
  assumes "gf_ready c" and "n \<le> length z" and "n \<le> length x"
  shows "length (gf_mul_mem c z x y n) = length z" "length (gf_muladd_mem c z y x n) = length z"
    "length (gf_div_mem c z x y n) = length z"
  using assms by (simp_all add: gf_mul_mem_bytewise gf_muladd_mem_bytewise gf_div_mem_bytewise)

section \<open>Properties\<close>

text \<open>C17: the vectorised block operations compute the products and sums byte by byte. After
  \<open>gf_init\<close>, with or without SSSE3, for every length up to the sizes of the buffers,
  \<open>gf_muladd_mem\<close> puts \<open>z[i] + y * x[i]\<close> into the first \<open>n\<close> bytes and keeps the others,
  \<open>gf_mul_mem\<close> puts \<open>y * x[i]\<close> there, \<open>gf_div_mem\<close> \<open>x[i] / y\<close>, \<open>gf_add_mem\<close> \<open>z[i] + x[i]\<close>,
  \<open>gf_add2_mem\<close> \<open>z[i] + x[i] + w[i]\<close> and \<open>gf_addset_mem\<close> \<open>x[i] + w[i]\<close>: the shuffle-based kernels, the
  unrolled loops and the switch at the end agree with \<open>gf_mul\<close>, \<open>gf_div\<close> and \<open>gf_add\<close>.\<close>

theorem gf_mem_ops_bytewise:
  assumes "\<not> Initialized c0" and "gf_init has_ssse3 c0 = (r, c)"
    and "n \<le> length z" and "n \<le> length x" and "n \<le> length w"
  shows "gf_muladd_mem c z y x n =
      map (\<lambda>i. if i < n then gf_add (z ! i) (gf_mul c (x ! i) y) else z ! i) [0..<length z] \<and>
    gf_mul_mem c z x y n = map (\<lambda>i. if i < n then gf_mul c (x ! i) y else z ! i) [0..<length z] \<and>
    gf_div_mem c z x y n = map (\<lambda>i. if i < n then gf_div c (x ! i) y else z ! i) [0..<length z] \<and>
    gf_add_mem z x n = map (\<lambda>i. if i < n then gf_add (z ! i) (x ! i) else z ! i) [0..<length z] \<and>
    gf_add2_mem z x w n = map (\<lambda>i. if i < n then gf_add (z ! i) (gf_add (x ! i) (w ! i)) else z ! i) [0..<length z] \<and>
    gf_addset_mem z x w n = map (\<lambda>i. if i < n then gf_add (x ! i) (w ! i) else z ! i) [0..<length z]"
proof -
  have c: "gf_ready c" using gf_init_ready(2) [OF assms(1)] assms(2) by (metis snd_conv)
  then have ops: "gf_mul c a b = cm.mul a b" "gf_div c a b = cm.mul a (cm.inv b)" for a b
    by (simp_all add: gf_ready_def)
  show ?thesis
    using assms(3-5)
    by (simp add: gf_mul_mem_bytewise [OF c] gf_muladd_mem_bytewise [OF c] gf_div_mem_bytewise [OF c]
        gf_add_mem_bytewise gf_add2_mem_bytewise gf_addset_mem_bytewise ops gf_add_def bytewise_def)
qed

theorem gf_mem_ops_bytewise_witness:
  "gf_muladd_mem (snd (gf_init True gf_ctx_zero)) (replicate 40 1) 2 (replicate 40 3) 37 =
     map (\<lambda>i. if i < 37 then gf_add 1 (gf_mul (snd (gf_init True gf_ctx_zero)) 3 2) else 1) [0..<40] \<and>
   gf_add2_mem (replicate 40 1) (replicate 40 3) (replicate 40 5) 37 =
     map (\<lambda>i. if i < 37 then gf_add 1 (gf_add 3 5) else 1) [0..<40]"
  using gf_mem_ops_bytewise [of gf_ctx_zero True 0 "snd (gf_init True gf_ctx_zero)" 37
      "replicate 40 1" "replicate 40 3" "replicate 40 5" 2] gf_init_ready(1) [of gf_ctx_zero True]
  by (simp add: gf_ctx_zero_def prod_eq_iff)

end
