(* ===== verification/Afs_Cauchy.thy ===== *)
theory Afs_Cauchy
  imports Afs_Cauchy_Mem
begin

text \<open>
  Cauchy Reed-Solomon erasure coding, \<open>src/src/lib/cauchy_rs.c\<close>: encoding, the set-up of the
  decoder, the LDU decomposition of the Cauchy matrix and the decoder. The caller's buffers are
  two arrays of blocks, data and parity; a \<open>cauchy_block\<close> points into them, so the decoder's
  writes through its pointers are writes to these arrays.
\<close>

section \<open>Encoding\<close>

record cauchy_encoder_params =
  OriginalCount :: int
  RecoveryCount :: int
  BlockBytes :: int

definition cauchy_get_recovery_block_index :: "cauchy_encoder_params \<Rightarrow> nat \<Rightarrow> u8" where
  "cauchy_get_recovery_block_index params i = of_int (OriginalCount params + int i)"

definition cauchy_get_original_block_index :: "cauchy_encoder_params \<Rightarrow> nat \<Rightarrow> u8" where
  "cauchy_get_original_block_index params i = of_nat i"

definition GetMatrixElement :: "gf_ctx \<Rightarrow> u8 \<Rightarrow> u8 \<Rightarrow> u8 \<Rightarrow> u8" where
  "GetMatrixElement c x_i x_0 y_j = gf_div c (gf_add y_j x_0) (gf_add x_i y_j)"

definition cauchy_rs_encode_block ::
  "gf_ctx \<Rightarrow> cauchy_encoder_params \<Rightarrow> bytes list \<Rightarrow> int \<Rightarrow> bytes \<Rightarrow> bytes" where
  "cauchy_rs_encode_block c params originals recoveryBlockIndex recoveryBlock =
     (let n = nat (BlockBytes params); count = nat (OriginalCount params) in
      if OriginalCount params = 1 then blit recoveryBlock 0 (take n (originals ! 0))
      else if recoveryBlockIndex = OriginalCount params
      then foldl (\<lambda>block j. gf_add_mem block (originals ! j) n)
             (gf_addset_mem recoveryBlock (originals ! 0) (originals ! 1) n) [2..<count]
      else let x_0 = of_int (OriginalCount params); x_i = of_int recoveryBlockIndex
           in foldl (\<lambda>block j. gf_muladd_mem c block (GetMatrixElement c x_i x_0 (of_nat j)) (originals ! j) n)
                (gf_mul_mem c recoveryBlock (originals ! 0) (GetMatrixElement c x_i x_0 0) n) [1..<count])"

definition cauchy_rs_encode ::
  "gf_ctx \<Rightarrow> cauchy_encoder_params \<Rightarrow> bytes list \<Rightarrow> bytes list \<Rightarrow> kernel \<Rightarrow> int \<times> bytes list \<times> kernel" where
  "cauchy_rs_encode c params dataBlocks parityBlocks k =
     (case kmalloc (16 * nat (OriginalCount params)) k of (originals, k) \<Rightarrow>
      if OriginalCount params \<le> 0 \<or> RecoveryCount params \<le> 0 \<or> BlockBytes params \<le> 0
      then (- 1, parityBlocks, k)
      else if OriginalCount params + RecoveryCount params > 256 then (- 2, parityBlocks, k)
      else if originals = None then (- 3, parityBlocks, k)
      else (0, foldl (\<lambda>parity block. parity[block := cauchy_rs_encode_block c params
                 (take (nat (OriginalCount params)) dataBlocks)
                 (OriginalCount params + int block) (parity ! block)])
               parityBlocks [0..<nat (RecoveryCount params)], k))"

section \<open>The decoder\<close>

datatype block_ref = Data nat | Parity nat

record cauchy_block =
  Block :: block_ref
  Index :: u8

record CauchyDecoder =
  Params :: cauchy_encoder_params
  Recovery :: "nat list"
  Original :: "nat list"
  ErasuresIndices :: bytes

text \<open>The two arrays of blocks, and access through a pointer into them.\<close>

type_synonym buffers = "bytes list \<times> bytes list"

fun load :: "buffers \<Rightarrow> block_ref \<Rightarrow> bytes" where
  "load (d, p) (Data i) = d ! i"
| "load (d, p) (Parity i) = p ! i"

fun store :: "buffers \<Rightarrow> block_ref \<Rightarrow> bytes \<Rightarrow> buffers" where
  "store (d, p) (Data i) b = (d[i := b], p)"
| "store (d, p) (Parity i) b = (d, p[i := b])"

text \<open>\<open>Initialize\<close>: sorting the blocks, with the early return on a repeated row, and the loop that
  turns the flags into the list of erased rows in place.\<close>

fun init_blocks :: "int \<Rightarrow> u8 list \<Rightarrow> nat \<Rightarrow> nat list \<times> nat list \<times> bytes \<Rightarrow> (nat list \<times> nat list \<times> bytes) option" where
  "init_blocks count [] ii st = Some st"
| "init_blocks count (index # indices) ii (orig, recov, erasures) =
     (let row = unat index in
      if int row < count
      then if erasures ! row \<noteq> 0 then None
           else init_blocks count indices (ii + 1) (orig @ [ii], recov, erasures[row := 1])
      else init_blocks count indices (ii + 1) (orig, recov @ [ii], erasures))"

function identify_erasures :: "nat \<Rightarrow> nat \<Rightarrow> nat \<Rightarrow> bytes \<Rightarrow> bytes" where
  "identify_erasures recoveryCount ii indexCount erasures =
     (if ii < 256
      then if erasures ! ii = 0
           then let erasures = erasures[indexCount := of_nat ii] in
                if indexCount + 1 \<ge> recoveryCount then erasures
                else identify_erasures recoveryCount (ii + 1) (indexCount + 1) erasures
           else identify_erasures recoveryCount (ii + 1) indexCount erasures
      else erasures)"
  by pat_completeness auto
termination by (relation "measure (\<lambda>(r, ii, n, e). 256 - ii)") auto

declare identify_erasures.simps [simp del]

definition Initialize :: "cauchy_encoder_params \<Rightarrow> cauchy_block list \<Rightarrow> bytes \<Rightarrow> CauchyDecoder option" where
  "Initialize params blocks mem =
     (let count = nat (OriginalCount params);
          erasures = foldl (\<lambda>e ii. e[ii := 0]) mem [0..<count]
      in case init_blocks (OriginalCount params) (map Index (take count blocks)) 0 ([], [], erasures) of
           None \<Rightarrow> None
         | Some (orig, recov, erasures) \<Rightarrow>
             Some \<lparr>Params = params, Recovery = recov, Original = orig,
               ErasuresIndices = identify_erasures (length recov) 0 0 erasures\<rparr>)"

text \<open>\<open>DecodeM1\<close>: the exclusive or of all blocks goes into the recovery block, two at a time.\<close>

fun m1_loop :: "nat \<Rightarrow> cauchy_block list \<Rightarrow> block_ref \<Rightarrow> block_ref option \<Rightarrow> nat list \<Rightarrow> buffers \<Rightarrow> buffers" where
  "m1_loop n blocks out None [] bufs = bufs"
| "m1_loop n blocks out (Some inBlock) [] bufs =
     store bufs out (gf_add_mem (load bufs out) (load bufs inBlock) n)"
| "m1_loop n blocks out None (ob # obs) bufs = m1_loop n blocks out (Some (Block (blocks ! ob))) obs bufs"
| "m1_loop n blocks out (Some inBlock) (ob # obs) bufs =
     m1_loop n blocks out None obs (store bufs out
       (gf_add2_mem (load bufs out) (load bufs inBlock) (load bufs (Block (blocks ! ob))) n))"

definition DecodeM1 :: "CauchyDecoder \<Rightarrow> cauchy_block list \<times> buffers \<Rightarrow> cauchy_block list \<times> buffers" where
  "DecodeM1 dec st = (case st of (blocks, bufs) \<Rightarrow>
     let r = Recovery dec ! 0;
         bufs = m1_loop (nat (BlockBytes (Params dec))) blocks (Block (blocks ! r)) None (Original dec) bufs
     in (blocks[r := (blocks ! r)\<lparr>Index := ErasuresIndices dec ! 0\<rparr>], bufs))"

section \<open>The decomposition\<close>

text \<open>Working memory: the three matrices live in one array; pointers into it are offsets.\<close>

record ldu =
  mat :: bytes
  g_vec :: bytes
  b_vec :: bytes
  matrix_L :: nat
  firstOffset_U :: int

definition ldu_cell ::
  "gf_ctx \<Rightarrow> (nat \<Rightarrow> u8) \<Rightarrow> (nat \<Rightarrow> u8) \<Rightarrow> nat \<Rightarrow> ldu \<times> bytes \<Rightarrow> nat \<Rightarrow> ldu \<times> bytes" where
  "ldu_cell c x y k st j = (case st of (s, row_U) \<Rightarrow>
     let L_jk = gf_div c (g_vec s ! j) (gf_add (x j) (y k));
         U_kj = gf_div c (b_vec s ! j) (gf_add (x k) (y j));
         g_j = gf_mul c (g_vec s ! j) (gf_div c (gf_add (x j) (x k)) (gf_add (x j) (y k)));
         b_j = gf_mul c (b_vec s ! j) (gf_div c (gf_add (y j) (y k)) (gf_add (y j) (x k)))
     in (s\<lparr>mat := (mat s)[matrix_L s := L_jk], matrix_L := matrix_L s + 1,
           g_vec := (g_vec s)[j := g_j], b_vec := (b_vec s)[j := b_j]\<rparr>, row_U @ [U_kj]))"

text \<open>Copying the rotated row into the matrix \<open>U\<close>, stored column by column from the end.\<close>

fun copy_row_U :: "bytes \<Rightarrow> nat \<Rightarrow> int \<Rightarrow> bytes \<Rightarrow> bytes" where
  "copy_row_U [] j output_U m = m"
| "copy_row_U (u # us) j output_U m = copy_row_U us (j + 1) (output_U - int j) (m[nat output_U := u])"

definition ldu_step ::
  "gf_ctx \<Rightarrow> nat \<Rightarrow> nat \<Rightarrow> u8 \<Rightarrow> (nat \<Rightarrow> u8) \<Rightarrow> (nat \<Rightarrow> u8) \<Rightarrow> ldu \<Rightarrow> nat \<Rightarrow> ldu" where
  "ldu_step c N diag_D x_0 x y s k =
     (let D_kk = gf_add (x k) (y k);
          L_kk = gf_div c (g_vec s ! k) D_kk;
          U_kk = gf_mul c (gf_div c (b_vec s ! k) D_kk) (gf_add x_0 (y k));
          s = s\<lparr>mat := (mat s)[diag_D + k := gf_mul c D_kk (gf_mul c L_kk U_kk)]\<rparr>;
          row_L = matrix_L s;
          (s, row_U) = foldl (ldu_cell c x y k) (s, []) [k + 1..<N];
          count = N - (k + 1);
          s = s\<lparr>mat := blit (mat s) row_L
                  (gf_div_mem c (sub (mat s) row_L count) (sub (mat s) row_L count) L_kk count)\<rparr>;
          row_U = gf_div_mem c row_U row_U U_kk count;
          last_U = int ((N - 1) * N div 2) - 1
      in s\<lparr>mat := copy_row_U row_U (k + 1) (last_U + firstOffset_U s) (mat s),
           firstOffset_U := firstOffset_U s - int (k + 2)\<rparr>)"

definition GenerateLDUDecomposition ::
  "gf_ctx \<Rightarrow> CauchyDecoder \<Rightarrow> cauchy_block list \<Rightarrow> nat \<Rightarrow> nat \<Rightarrow> bytes \<Rightarrow> bytes" where
  "GenerateLDUDecomposition c dec blocks matL diag_D m =
     (let N = length (Recovery dec);
          x = (\<lambda>i. Index (blocks ! (Recovery dec ! i)));
          y = (\<lambda>i. ErasuresIndices dec ! i);
          x_0 = of_int (OriginalCount (Params dec));
          s = foldl (ldu_step c N diag_D x_0 x y)
                \<lparr>mat = m, g_vec = replicate N 1, b_vec = replicate N 1, matrix_L = matL,
                 firstOffset_U = 0\<rparr> [0..<N - 1];
          (m, row_U) = foldl (\<lambda>(m, row_U) j.
              (blit m row_U (gf_mul_mem c (sub m row_U j) (sub m row_U j) (gf_add x_0 (y j)) j), row_U + j))
            (mat s, 0) (rev [1..<N]);
          L_nn = g_vec s ! (N - 1);
          U_nn = gf_mul c (b_vec s ! (N - 1)) (gf_add x_0 (y (N - 1)))
      in m[diag_D + (N - 1) := gf_div c (gf_mul c L_nn U_nn) (gf_add (x (N - 1)) (y (N - 1)))])"

section \<open>Decoding\<close>

definition block_muladd :: "gf_ctx \<Rightarrow> nat \<Rightarrow> u8 \<Rightarrow> block_ref \<Rightarrow> block_ref \<Rightarrow> buffers \<Rightarrow> buffers" where
  "block_muladd c n e src dst bufs = store bufs dst (gf_muladd_mem c (load bufs dst) e (load bufs src) n)"

definition eliminate_originals :: "gf_ctx \<Rightarrow> CauchyDecoder \<Rightarrow> cauchy_block list \<Rightarrow> buffers \<Rightarrow> buffers" where
  "eliminate_originals c dec blocks bufs =
     (let x_0 = of_int (OriginalCount (Params dec)); n = nat (BlockBytes (Params dec))
      in foldl (\<lambda>bufs ob. foldl (\<lambda>bufs r.
             block_muladd c n (GetMatrixElement c (Index (blocks ! r)) x_0 (Index (blocks ! ob)))
               (Block (blocks ! ob)) (Block (blocks ! r)) bufs) bufs (Recovery dec))
           bufs (Original dec))"

text \<open>The three eliminations; \<open>p\<close> walks through the stored matrix.\<close>

definition eliminate_lower ::
  "gf_ctx \<Rightarrow> nat \<Rightarrow> (nat \<Rightarrow> block_ref) \<Rightarrow> nat \<Rightarrow> bytes \<Rightarrow> nat \<Rightarrow> buffers \<Rightarrow> buffers" where
  "eliminate_lower c n block N m p bufs =
     snd (foldl (\<lambda>st j. foldl (\<lambda>(p, bufs) i. (p + 1, block_muladd c n (m ! p) (block j) (block i) bufs))
            st [j + 1..<N]) (p, bufs) [0..<N - 1])"

definition eliminate_diagonal ::
  "gf_ctx \<Rightarrow> nat \<Rightarrow> (nat \<Rightarrow> block_ref) \<Rightarrow> nat \<Rightarrow> bytes \<Rightarrow> nat \<Rightarrow> buffers \<Rightarrow> buffers" where
  "eliminate_diagonal c n block N m p bufs =
     foldl (\<lambda>bufs i. store bufs (block i)
        (gf_div_mem c (load bufs (block i)) (load bufs (block i)) (m ! (p + i)) n)) bufs [0..<N]"

definition eliminate_upper ::
  "gf_ctx \<Rightarrow> nat \<Rightarrow> (nat \<Rightarrow> block_ref) \<Rightarrow> nat \<Rightarrow> bytes \<Rightarrow> nat \<Rightarrow> buffers \<Rightarrow> buffers" where
  "eliminate_upper c n block N m p bufs =
     snd (foldl (\<lambda>st j. foldl (\<lambda>(p, bufs) i. (p + 1, block_muladd c n (m ! p) (block j) (block i) bufs))
            st (rev [0..<j])) (p, bufs) (rev [1..<N]))"

definition Decode ::
  "gf_ctx \<Rightarrow> CauchyDecoder \<Rightarrow> bytes \<Rightarrow> cauchy_block list \<times> buffers \<Rightarrow> cauchy_block list \<times> buffers" where
  "Decode c dec matrix st = (case st of (blocks, bufs) \<Rightarrow>
     let N = length (Recovery dec); n = nat (BlockBytes (Params dec));
         bufs = eliminate_originals c dec blocks bufs;
         diag_D = (N - 1) * N div 2; matL = diag_D + N;
         m = GenerateLDUDecomposition c dec blocks matL diag_D matrix;
         block = (\<lambda>i. Block (blocks ! (Recovery dec ! i)));
         bufs = eliminate_lower c n block N m matL bufs;
         bufs = eliminate_diagonal c n block N m diag_D bufs;
         bufs = eliminate_upper c n block N m 0 bufs;
         blocks = foldl (\<lambda>blocks i. blocks[Recovery dec ! i :=
                    (blocks ! (Recovery dec ! i))\<lparr>Index := ErasuresIndices dec ! i\<rparr>]) blocks [0..<N]
     in (blocks, bufs))"

text \<open>\<open>None\<close> is the null pointer that the code dereferences when the decoder state cannot be
  allocated. \<open>matrix\<close> is the working memory: the uninitialised array on the stack, or allocated
  when more than \<open>StackAllocSize\<close> bytes are needed.\<close>

definition StackAllocSize :: nat where
  "StackAllocSize = 2048"

definition decoder_matrix :: "nat \<Rightarrow> kernel \<Rightarrow> bytes option \<times> kernel" where
  "decoder_matrix N k =
     (if N * N > StackAllocSize then kmalloc (N * N) k
      else (Some (map (k_junk k (k_allocs k)) [0..<StackAllocSize]), k))"

definition set_erasures :: "cauchy_encoder_params \<Rightarrow> bytes \<Rightarrow> cauchy_block list \<Rightarrow> cauchy_block list" where
  "set_erasures params erasures blocks =
     foldl (\<lambda>blocks i. blocks[unat (erasures ! i) :=
         \<lparr>Block = Parity i, Index = cauchy_get_recovery_block_index params i\<rparr>])
       blocks [0..<length erasures]"

definition cauchy_rs_decode ::
  "gf_ctx \<Rightarrow> cauchy_encoder_params \<Rightarrow> buffers \<Rightarrow> bytes \<Rightarrow> kernel \<Rightarrow> (int \<times> buffers \<times> kernel) option" where
  "cauchy_rs_decode c params bufs erasures k =
     (case kmalloc 4384 k of (state, k) \<Rightarrow>
      case kmalloc (16 * nat (OriginalCount params)) k of (mem, k) \<Rightarrow>
      if OriginalCount params \<le> 0 \<or> RecoveryCount params \<le> 0 \<or> BlockBytes params \<le> 0
      then Some (- 1, bufs, k)
      else if OriginalCount params + RecoveryCount params > 256 then Some (- 2, bufs, k)
      else if mem = None then Some (- 3, bufs, k)
      else let count = nat (OriginalCount params);
               blocks = map (\<lambda>i. \<lparr>Block = Data i, Index = cauchy_get_original_block_index params i\<rparr>) [0..<count];
               blocks = set_erasures params erasures blocks
           in case state of None \<Rightarrow> None
           | Some st \<Rightarrow>
              (case Initialize params blocks (sub st 4124 256) of
                 None \<Rightarrow> Some (- 5, bufs, k)
               | Some dec \<Rightarrow>
                   if Recovery dec = [] then Some (0, bufs, k)
                   else if RecoveryCount params = 1
                   then Some (0, snd (DecodeM1 dec (blocks, bufs)), k)
                   else (case decoder_matrix (length (Recovery dec)) k of
                       (None, k) \<Rightarrow> None
                     | (Some matrix, k) \<Rightarrow>
                         (case Decode c dec matrix (blocks, bufs) of (blocks, bufs) \<Rightarrow>
                            Some (0, foldl (\<lambda>bufs i. store bufs (Data i)
                                 (blit (load bufs (Data i)) 0
                                    (take (nat (BlockBytes params)) (load bufs (Block (blocks ! i))))))
                               bufs [0..<count], k)))))"

section \<open>Setting up the decoder\<close>

text \<open>\<open>P\<close> says which rows are erased; their blocks carry an index of a recovery row.\<close>

definition rows_of :: "(nat \<Rightarrow> bool) \<Rightarrow> nat \<Rightarrow> nat list" where
  "rows_of P n = filter P [0..<n]"

lemma rows_of_0 [simp]: "rows_of P 0 = []"
  by (simp add: rows_of_def)

lemma rows_of_Suc [simp]: "rows_of P (Suc n) = (if P n then rows_of P n @ [n] else rows_of P n)"
  by (simp add: rows_of_def)

lemma init_blocks_sorted:
  assumes "length indices = count" and "count \<le> 256" and "count \<le> length e"
    and "\<And>i. i < count \<Longrightarrow> if P i then count \<le> unat (indices ! i) else indices ! i = of_nat i"
    and "\<And>i. i < count \<Longrightarrow> e ! i = 0"
  shows "\<exists>e'. init_blocks (int count) indices 0 ([], [], e) =
      Some (rows_of (\<lambda>i. \<not> P i) count, rows_of P count, e') \<and> length e' = length e \<and>
      (\<forall>i < count. e' ! i = (if P i then 0 else 1))"
proof -
  have "\<exists>e'. init_blocks (int count) (drop ii indices) ii (rows_of (\<lambda>i. \<not> P i) ii, rows_of P ii, f) =
      Some (rows_of (\<lambda>i. \<not> P i) count, rows_of P count, e') \<and> length e' = length f \<and>
      (\<forall>i < count. e' ! i = (if P i then 0 else 1))"
    if "ii \<le> count" "count \<le> length f" "\<And>i. i < count \<Longrightarrow> f ! i = (if ii \<le> i \<or> P i then 0 else 1)"
    for ii f
    using that
  proof (induction "count - ii" arbitrary: ii f)
    case 0
    then show ?case using assms(1) by auto
  next
    case (Suc d)
    then have ii: "ii < count" by simp
    then have cons: "drop ii indices = indices ! ii # drop (Suc ii) indices"
      using assms(1) by (simp add: Cons_nth_drop_Suc)
    show ?case
    proof (cases "P ii")
      case True
      then have "count \<le> unat (indices ! ii)" using assms(4) [OF ii] by simp
      moreover have "f ! i = (if Suc ii \<le> i \<or> P i then 0 else 1)" if "i < count" for i
        using Suc.prems(3) [OF that] True by (cases "i = ii") (auto simp: not_less_eq_eq)
      ultimately show ?thesis
        using Suc.hyps(1) [of "Suc ii" f] Suc.hyps(2) Suc.prems ii True by (simp add: cons)
    next
      case False
      then have row: "unat (indices ! ii) = ii"
        using assms(2,4) ii by (simp add: unat_of_nat_u8)
      have "f ! ii = 0" using Suc.prems(3) [OF ii] by simp
      moreover have "(f[ii := 1]) ! i = (if Suc ii \<le> i \<or> P i then 0 else 1)" if "i < count" for i
        using Suc.prems(3) [OF that] Suc.prems(2) that False ii by (auto simp: nth_list_update)
      ultimately show ?thesis
        using Suc.hyps(1) [of "Suc ii" "f[ii := 1]"] Suc.hyps(2) Suc.prems ii False
        by (simp add: cons row)
    qed
  qed
  from this [of 0 e] show ?thesis using assms(3,5) by simp
qed

lemma rows_of_nth_less: "i < length (rows_of P n) \<Longrightarrow> rows_of P n ! i < n"
  using nth_mem [of i "rows_of P n"] by (simp add: rows_of_def)

lemma rows_of_length_mono: "m \<le> n \<Longrightarrow> length (rows_of P m) \<le> length (rows_of P n)"
  by (induction n) (auto simp: le_Suc_eq)

lemma rows_of_take: "m \<le> n \<Longrightarrow> take (length (rows_of P m)) (rows_of P n) = rows_of P m"
proof (induction n)
  case (Suc n)
  then show ?case
    using rows_of_length_mono [of m n P] by (cases "m = Suc n") auto
qed simp

lemma identify_erasures_rows:
  assumes "length (rows_of P ii) < length (rows_of P count)" and "count \<le> 256" and "count \<le> length e"
    and "ii \<le> count"
    and "\<And>i. i < length (rows_of P ii) \<Longrightarrow> e ! i = of_nat (rows_of P ii ! i)"
    and "\<And>i. ii \<le> i \<Longrightarrow> i < count \<Longrightarrow> e ! i = 0 \<longleftrightarrow> P i"
    and "i < length (rows_of P count)"
  shows "identify_erasures (length (rows_of P count)) ii (length (rows_of P ii)) e ! i =
    of_nat (rows_of P count ! i)"
  using assms(1,3-6)
proof (induction "count - ii" arbitrary: ii e)
  case 0
  then show ?case by simp
next
  case (Suc d)
  then have ii: "ii < count" by simp
  have ic: "length (rows_of P ii) \<le> ii" by (simp add: rows_of_def) (metis diff_zero length_filter_le length_upt)
  show ?case
  proof (cases "P ii")
    case False
    then have "e ! ii \<noteq> 0" using Suc.prems(5) ii by auto
    then show ?thesis
      using Suc.hyps(1) [of "Suc ii" e] Suc.hyps(2) Suc.prems False ii assms(2)
      by (subst identify_erasures.simps) simp
  next
    case True
    let ?e = "e[length (rows_of P ii) := of_nat ii]"
    have e0: "e ! ii = 0" using Suc.prems(5) ii True by auto
    have keep: "?e ! j = of_nat (rows_of P (Suc ii) ! j)" if "j < length (rows_of P (Suc ii))" for j
      using that True Suc.prems(2,4) ic ii by (auto simp: nth_append nth_list_update)
    show ?thesis
    proof (cases "length (rows_of P (Suc ii)) < length (rows_of P count)")
      case more: True
      have "?e ! j = 0 \<longleftrightarrow> P j" if "Suc ii \<le> j" "j < count" for j
        using Suc.prems(5) [of j] that ic by simp
      then show ?thesis
        using Suc.hyps(1) [of "Suc ii" ?e] Suc.hyps(2) Suc.prems keep more True ii e0 assms(2)
        by (subst identify_erasures.simps) (simp add: Let_def)
    next
      case False
      then have eq: "length (rows_of P count) = length (rows_of P (Suc ii))"
        using rows_of_length_mono [of "Suc ii" count P] ii by simp
      have "rows_of P count = rows_of P (Suc ii)"
        using rows_of_take [of "Suc ii" count P] ii eq by simp
      then show ?thesis
        using keep assms(7) True ii e0 assms(2)
        by (subst identify_erasures.simps) (simp add: Let_def)
    qed
  qed
qed

lemma Initialize_rows:
  assumes "OriginalCount params = int count" and "count \<le> 256"
    and "length blocks = count" and "length mem = 256"
    and "\<And>i. i < count \<Longrightarrow> if P i then count \<le> unat (Index (blocks ! i)) else Index (blocks ! i) = of_nat i"
  shows "\<exists>dec. Initialize params blocks mem = Some dec \<and> Params dec = params \<and>
    Recovery dec = rows_of P count \<and> Original dec = rows_of (\<lambda>i. \<not> P i) count \<and>
    (\<forall>i < length (rows_of P count). ErasuresIndices dec ! i = of_nat (rows_of P count ! i))"
proof -
  define e where "e = foldl (\<lambda>e ii. e[ii := 0 :: u8]) mem [0..<count]"
  have "length (foldl (\<lambda>e ii. e[ii := 0 :: u8]) mem [0..<n]) = length mem \<and>
      (\<forall>i < n. i < length mem \<longrightarrow> foldl (\<lambda>e ii. e[ii := 0 :: u8]) mem [0..<n] ! i = 0)" for n
    by (induction n) (auto simp: nth_list_update less_Suc_eq)
  then have e: "length e = 256" "\<And>i. i < count \<Longrightarrow> e ! i = 0"
    using assms(2,4) by (auto simp: e_def)
  have "\<exists>e'. init_blocks (int count) (map Index blocks) 0 ([], [], e) =
      Some (rows_of (\<lambda>i. \<not> P i) count, rows_of P count, e') \<and> length e' = length e \<and>
      (\<forall>i < count. e' ! i = (if P i then 0 else 1))"
    using assms(2-5) e by (intro init_blocks_sorted) simp_all
  then obtain e' where e': "init_blocks (int count) (map Index blocks) 0 ([], [], e) =
      Some (rows_of (\<lambda>i. \<not> P i) count, rows_of P count, e')" "length e' = length e"
      "\<forall>i < count. e' ! i = (if P i then 0 else 1)"
    by blast
  let ?dec = "\<lparr>Params = params, Recovery = rows_of P count, Original = rows_of (\<lambda>i. \<not> P i) count,
    ErasuresIndices = identify_erasures (length (rows_of P count)) 0 0 e'\<rparr>"
  have "Initialize params blocks mem = Some ?dec"
    using e'(1) assms(1,3) by (simp add: Initialize_def e_def [symmetric])
  moreover have "ErasuresIndices ?dec ! i = of_nat (rows_of P count ! i)"
    if i: "i < length (rows_of P count)" for i
  proof -
    have "0 < length (rows_of P count)" using i by linarith
    then have "identify_erasures (length (rows_of P count)) 0 (length (rows_of P 0)) e' ! i =
        of_nat (rows_of P count ! i)"
      by (intro identify_erasures_rows) (use i assms(2) e e' in auto)
    then show ?thesis by simp
  qed
  ultimately show ?thesis by auto
qed

text \<open>Replacing the erased data blocks by parity blocks.\<close>

lemma set_erasures_blocks:
  assumes "distinct es" and "\<forall>e \<in> set es. unat e < length blocks"
  shows "length (set_erasures params es blocks) = length blocks"
    and "t < length es \<Longrightarrow> set_erasures params es blocks ! unat (es ! t) =
      \<lparr>Block = Parity t, Index = cauchy_get_recovery_block_index params t\<rparr>"
    and "i \<notin> unat ` set es \<Longrightarrow> set_erasures params es blocks ! i = blocks ! i"
proof -
  let ?b = "\<lambda>t. \<lparr>Block = Parity t, Index = cauchy_get_recovery_block_index params t\<rparr>"
  let ?f = "\<lambda>n. foldl (\<lambda>blocks i. blocks[unat (es ! i) := ?b i]) blocks [0..<n]"
  have "n \<le> length es \<Longrightarrow> length (?f n) = length blocks \<and>
      (\<forall>t < n. ?f n ! unat (es ! t) = ?b t) \<and>
      (\<forall>i. i \<notin> unat ` set (take n es) \<longrightarrow> ?f n ! i = blocks ! i)" for n
  proof (induction n)
    case (Suc n)
    have "unat (es ! n) \<noteq> unat (es ! t)" if "t < n" for t
      using assms(1) that Suc.prems by (auto simp: distinct_conv_nth dest!: unsigned_word_eqI)
    moreover have "unat (es ! n) < length blocks" using assms(2) Suc.prems by simp
    ultimately show ?case
      using Suc by (auto simp: take_Suc_conv_app_nth less_Suc_eq)
  qed simp
  from this [of "length es"] show "length (set_erasures params es blocks) = length blocks"
    "t < length es \<Longrightarrow> set_erasures params es blocks ! unat (es ! t) = ?b t"
    "i \<notin> unat ` set es \<Longrightarrow> set_erasures params es blocks ! i = blocks ! i"
    by (auto simp: set_erasures_def)
qed

section \<open>Blocks as vectors over the field\<close>

definition val :: "buffers \<Rightarrow> block_ref \<Rightarrow> nat \<Rightarrow> gfc" where
  "val bufs r pos = Gfc (load bufs r ! pos)"

fun ref_ok :: "buffers \<Rightarrow> block_ref \<Rightarrow> bool" where
  "ref_ok (d, p) (Data i) \<longleftrightarrow> i < length d"
| "ref_ok (d, p) (Parity i) \<longleftrightarrow> i < length p"

definition bufs_ok :: "nat \<Rightarrow> buffers \<Rightarrow> bool" where
  "bufs_ok n bufs \<longleftrightarrow> (\<forall>r. ref_ok bufs r \<longrightarrow> n \<le> length (load bufs r))"

lemma load_store:
  "ref_ok bufs r \<Longrightarrow> load (store bufs r b) r' = (if r' = r then b else load bufs r')"
  by (cases bufs; cases r; cases r') auto

lemma ref_ok_store [simp]: "ref_ok (store bufs r b) r' = ref_ok bufs r'"
  by (cases bufs; cases r; cases r') auto

lemma bufs_ok_store: "bufs_ok n bufs \<Longrightarrow> ref_ok bufs r \<Longrightarrow> n \<le> length b \<Longrightarrow> bufs_ok n (store bufs r b)"
  by (auto simp: bufs_ok_def load_store)

text \<open>What two states of the buffers have in common: the shapes.\<close>

definition same_shape :: "buffers \<Rightarrow> buffers \<Rightarrow> bool" where
  "same_shape bufs bufs' \<longleftrightarrow> (\<forall>r. ref_ok bufs' r = ref_ok bufs r) \<and>
     (\<forall>r. ref_ok bufs r \<longrightarrow> length (load bufs' r) = length (load bufs r))"

lemma same_shape_refl [simp]: "same_shape bufs bufs"
  by (simp add: same_shape_def)

lemma same_shape_trans: "same_shape a b \<Longrightarrow> same_shape b c \<Longrightarrow> same_shape a c"
  by (simp add: same_shape_def)

lemma same_shape_store:
  "ref_ok bufs r \<Longrightarrow> length b = length (load bufs r) \<Longrightarrow> same_shape bufs (store bufs r b)"
  by (auto simp: same_shape_def load_store)

lemma same_shape_ok: "same_shape bufs bufs' \<Longrightarrow> bufs_ok n bufs \<Longrightarrow> bufs_ok n bufs'"
  by (auto simp: same_shape_def bufs_ok_def)

lemma same_shape_ref: "same_shape bufs bufs' \<Longrightarrow> ref_ok bufs' r = ref_ok bufs r"
  by (simp add: same_shape_def)

lemma block_muladd_val:
  assumes "gf_ready c" and "bufs_ok n bufs" and "ref_ok bufs src" and "ref_ok bufs dst"
  shows "same_shape bufs (block_muladd c n e src dst bufs)"
    and "pos < n \<Longrightarrow> val (block_muladd c n e src dst bufs) r pos =
      (if r = dst then val bufs dst pos + Gfc e * val bufs src pos else val bufs r pos)"
proof -
  have len: "n \<le> length (load bufs dst)" "n \<le> length (load bufs src)"
    using assms by (auto simp: bufs_ok_def)
  then show "same_shape bufs (block_muladd c n e src dst bufs)"
    using assms by (simp add: block_muladd_def same_shape_store)
  have "Gfc (a XOR cm.mul b e) = Gfc a + Gfc e * Gfc b" for a b
    by (simp add: plus_gfc_def times_gfc_def cm.mul_commute)
  then show "pos < n \<Longrightarrow> val (block_muladd c n e src dst bufs) r pos =
      (if r = dst then val bufs dst pos + Gfc e * val bufs src pos else val bufs r pos)"
    using assms len
    by (simp add: val_def block_muladd_def load_store gf_muladd_mem_bytewise)
qed

lemma block_div_val:
  fixes e :: u8
  assumes "gf_ready c" and "bufs_ok n bufs" and "ref_ok bufs dst"
  defines "bufs' \<equiv> store bufs dst (gf_div_mem c (load bufs dst) (load bufs dst) e n)"
  shows "same_shape bufs bufs'"
    and "pos < n \<Longrightarrow> val bufs' r pos = (if r = dst then val bufs dst pos / Gfc e else val bufs r pos)"
proof -
  have len: "n \<le> length (load bufs dst)" using assms by (auto simp: bufs_ok_def)
  then show "same_shape bufs bufs'" using assms by (simp add: same_shape_store)
  have "Gfc (cm.mul b (cm.inv e)) = Gfc b / Gfc e" for b
    by (simp add: divide_gfc_def times_gfc_def inverse_gfc_def)
  then show "pos < n \<Longrightarrow> val bufs' r pos = (if r = dst then val bufs dst pos / Gfc e else val bufs r pos)"
    using assms len by (simp add: val_def load_store gf_div_mem_bytewise)
qed

section \<open>Encoding as a matrix product\<close>

text \<open>The element of the Cauchy matrix for the recovery row \<open>x\<close> and the data column \<open>y\<close>, when there
  are \<open>x0\<close> data blocks.\<close>

definition elem :: "gfc \<Rightarrow> gfc \<Rightarrow> gfc \<Rightarrow> gfc" where
  "elem x0 x y = (y + x0) / (x + y)"

lemma GetMatrixElement_elem:
  "gf_ready c \<Longrightarrow> Gfc (GetMatrixElement c x x0 y) = elem (Gfc x0) (Gfc x) (Gfc y)"
  by (simp add: GetMatrixElement_def ready_ops elem_def)

lemma elem_first_row: "Gfc y \<noteq> Gfc x0 \<Longrightarrow> elem (Gfc x0) (Gfc x0) (Gfc y) = 1"
proof -
  assume "Gfc y \<noteq> Gfc x0"
  then have "Gfc y - Gfc x0 \<noteq> 0" by simp
  then have "Gfc y + Gfc x0 \<noteq> 0" unfolding gfc_char2(2) .
  then show ?thesis by (simp add: elem_def add.commute)
qed

lemma xor_Gfc: "Gfc (a XOR b) = Gfc a + Gfc b"
  by (simp add: plus_gfc_def)

lemma encode_block_first:
  assumes "\<forall>j < count. n \<le> length (D ! j)" and "n \<le> length z" and "2 \<le> m" and "m \<le> count"
  shows "length (foldl (\<lambda>block j. gf_add_mem block (D ! j) n) (gf_addset_mem z (D ! 0) (D ! 1) n) [2..<m])
      = length z \<and> (\<forall>pos < n.
      Gfc (foldl (\<lambda>block j. gf_add_mem block (D ! j) n) (gf_addset_mem z (D ! 0) (D ! 1) n) [2..<m] ! pos)
      = (\<Sum>j < m. Gfc (D ! j ! pos)))"
  using assms(3,4)
proof (induction m rule: dec_induct)
  case base
  have "n \<le> length (D ! 0)" "n \<le> length (D ! 1)" using assms(1) base by auto
  then show ?case
    using assms(2) by (simp add: gf_addset_mem_bytewise numeral_2_eq_2 xor_Gfc)
next
  case (step m)
  have "n \<le> length (D ! m)" using assms(1) step by auto
  then show ?case
    using step assms(2) by (simp add: gf_add_mem_bytewise xor_Gfc)
qed

lemma encode_block_other:
  assumes "gf_ready c" and "\<forall>j < count. n \<le> length (D ! j)" and "n \<le> length z" and "1 \<le> m" and "m \<le> count"
  shows "length (foldl (\<lambda>block j. gf_muladd_mem c block (GetMatrixElement c x x0 (of_nat j)) (D ! j) n)
        (gf_mul_mem c z (D ! 0) (GetMatrixElement c x x0 0) n) [1..<m]) = length z \<and>
    (\<forall>pos < n. Gfc (foldl (\<lambda>block j. gf_muladd_mem c block (GetMatrixElement c x x0 (of_nat j)) (D ! j) n)
        (gf_mul_mem c z (D ! 0) (GetMatrixElement c x x0 0) n) [1..<m] ! pos) =
      (\<Sum>j < m. elem (Gfc x0) (Gfc x) (Gfc (of_nat j)) * Gfc (D ! j ! pos)))"
  using assms(4,5)
proof (induction m rule: dec_induct)
  case base
  have mul: "Gfc (cm.mul b e) = Gfc e * Gfc b" for b e by (simp add: times_gfc_def cm.mul_commute)
  have "n \<le> length (D ! 0)" using assms(2) base by auto
  then show ?case
    using assms(3)
    by (simp add: gf_mul_mem_bytewise [OF assms(1)] mul GetMatrixElement_elem [OF assms(1)])
next
  case (step m)
  have mul: "Gfc (a XOR cm.mul b e) = Gfc a + Gfc e * Gfc b" for a b e
    by (simp add: plus_gfc_def times_gfc_def cm.mul_commute)
  have "n \<le> length (D ! m)" using assms(2) step by auto
  then show ?case
    using step assms(3)
    by (simp add: gf_muladd_mem_bytewise [OF assms(1)] mul GetMatrixElement_elem [OF assms(1)])
qed

lemma encode_parity:
  assumes "0 < RecoveryCount params" and "OriginalCount params + RecoveryCount params \<le> 256"
    and "0 < BlockBytes params" and "0 < OriginalCount params" and "alloc_ok k"
  shows "\<exists>k'. alloc_ok k' \<and> cauchy_rs_encode c params D P k =
    (0, foldl (\<lambda>parity block. parity[block := cauchy_rs_encode_block c params
          (take (nat (OriginalCount params)) D) (OriginalCount params + int block) (parity ! block)])
        P [0..<nat (RecoveryCount params)], k')"
  using assms by (simp add: cauchy_rs_encode_def kmalloc_alloc_ok)

lemma foldl_update:
  assumes "n \<le> length P"
  shows "length (foldl (\<lambda>p i. p[i := f i (p ! i)]) P [0..<n]) = length P \<and>
    (\<forall>i < length P. foldl (\<lambda>p i. p[i := f i (p ! i)]) P [0..<n] ! i = (if i < n then f i (P ! i) else P ! i))"
  using assms by (induction n) (auto simp: nth_list_update)

text \<open>Every parity block is a row of the matrix product; the first row of the matrix is all ones.\<close>

lemma encode_block_val:
  assumes c: "gf_ready c" and count: "OriginalCount params = int count" "2 \<le> count"
    and i: "count + i < 256" and n: "nat (BlockBytes params) = n"
    and D: "length D = count" "\<forall>j < count. n \<le> length (D ! j)" and z: "n \<le> length z"
  shows "length (cauchy_rs_encode_block c params D (OriginalCount params + int i) z) = length z"
    and "pos < n \<Longrightarrow> Gfc (cauchy_rs_encode_block c params D (OriginalCount params + int i) z ! pos) =
      (\<Sum>j < count. elem (Gfc (of_nat count)) (Gfc (of_nat (count + i))) (Gfc (of_nat j)) * Gfc (D ! j ! pos))"
proof -
  let ?b = "cauchy_rs_encode_block c params D (OriginalCount params + int i) z"
  have "length ?b = length z \<and> (\<forall>pos < n. Gfc (?b ! pos) =
      (\<Sum>j < count. elem (Gfc (of_nat count)) (Gfc (of_nat (count + i))) (Gfc (of_nat j)) * Gfc (D ! j ! pos)))"
  proof (cases "i = 0")
    case True
    have "elem (Gfc (of_nat count)) (Gfc (of_nat count)) (Gfc (of_nat j)) = 1" if "j < count" for j
    proof (rule elem_first_row)
      have "unat (of_nat j :: u8) \<noteq> unat (of_nat count :: u8)"
        using that i by (simp add: unat_of_nat_u8)
      then show "Gfc (of_nat j) \<noteq> Gfc (of_nat count)" by auto
    qed
    then show ?thesis
      using True encode_block_first [OF D(2) z count(2) order_refl] count n
      by (simp add: cauchy_rs_encode_block_def)
  next
    case False
    have "(of_int (int count + int i) :: u8) = of_nat (count + i)" by simp
    then show ?thesis
      using False encode_block_other [OF c D(2) z _ order_refl, of "of_nat (count + i)" "of_nat count"] count n
      by (simp add: cauchy_rs_encode_block_def Let_def)
  qed
  then show "length ?b = length z" and "pos < n \<Longrightarrow> Gfc (?b ! pos) =
      (\<Sum>j < count. elem (Gfc (of_nat count)) (Gfc (of_nat (count + i))) (Gfc (of_nat j)) * Gfc (D ! j ! pos))"
    by simp_all
qed

section \<open>Eliminating the blocks that are left\<close>

lemma eliminate_inner:
  assumes c: "gf_ready c" and "distinct (map blk rs)" and "src \<notin> blk ` set rs"
    and "\<forall>r \<in> set rs. ref_ok bufs (blk r)" and "ref_ok bufs src" and "bufs_ok n bufs"
  shows "same_shape bufs (foldl (\<lambda>bufs r. block_muladd c n (e r) src (blk r) bufs) bufs rs) \<and>
    (\<forall>pos < n. (\<forall>r \<in> set rs. val (foldl (\<lambda>bufs r. block_muladd c n (e r) src (blk r) bufs) bufs rs) (blk r) pos
        = val bufs (blk r) pos + Gfc (e r) * val bufs src pos) \<and>
      (\<forall>q. q \<notin> blk ` set rs \<longrightarrow>
        val (foldl (\<lambda>bufs r. block_muladd c n (e r) src (blk r) bufs) bufs rs) q pos = val bufs q pos))"
  using assms(2-6)
proof (induction rs rule: rev_induct)
  case (snoc r rs)
  let ?f = "foldl (\<lambda>bufs r. block_muladd c n (e r) src (blk r) bufs) bufs rs"
  have IH: "same_shape bufs ?f"
      "\<And>pos r. pos < n \<Longrightarrow> r \<in> set rs \<Longrightarrow> val ?f (blk r) pos = val bufs (blk r) pos + Gfc (e r) * val bufs src pos"
      "\<And>pos q. pos < n \<Longrightarrow> q \<notin> blk ` set rs \<Longrightarrow> val ?f q pos = val bufs q pos"
    using snoc by auto
  have ok: "bufs_ok n ?f" "ref_ok ?f src" "ref_ok ?f (blk r)"
    using IH(1) snoc.prems same_shape_ok [OF IH(1)] by (auto simp: same_shape_def)
  note m = block_muladd_val [OF c ok, where e = "e r"]
  show ?case
    using m IH snoc.prems same_shape_trans [OF IH(1) m(1)] by (auto simp: rev_image_eqI)
qed simp

lemma eliminate_outer:
  fixes e :: "nat \<Rightarrow> nat \<Rightarrow> u8"
  assumes c: "gf_ready c" and "distinct (map blk rs)" and "\<forall>ob \<in> set os. blk ob \<notin> blk ` set rs"
    and "\<forall>r \<in> set rs. ref_ok bufs (blk r)" and "\<forall>ob \<in> set os. ref_ok bufs (blk ob)" and "bufs_ok n bufs"
  defines "out \<equiv> \<lambda>os. foldl (\<lambda>bufs ob. foldl (\<lambda>bufs r. block_muladd c n (e ob r) (blk ob) (blk r) bufs) bufs rs) bufs os"
  shows "same_shape bufs (out os) \<and>
    (\<forall>pos < n. (\<forall>r \<in> set rs. val (out os) (blk r) pos =
        val bufs (blk r) pos + (\<Sum>ob\<leftarrow>os. Gfc (e ob r) * val bufs (blk ob) pos)) \<and>
      (\<forall>q. q \<notin> blk ` set rs \<longrightarrow> val (out os) q pos = val bufs q pos))"
  using assms(3,5)
proof (induction os rule: rev_induct)
  case Nil
  then show ?case by (simp add: out_def)
next
  case (snoc ob os)
  have IH: "same_shape bufs (out os)"
      "\<And>pos r. pos < n \<Longrightarrow> r \<in> set rs \<Longrightarrow> val (out os) (blk r) pos =
        val bufs (blk r) pos + (\<Sum>ob\<leftarrow>os. Gfc (e ob r) * val bufs (blk ob) pos)"
      "\<And>pos q. pos < n \<Longrightarrow> q \<notin> blk ` set rs \<Longrightarrow> val (out os) q pos = val bufs q pos"
    using snoc by auto
  have ok: "\<forall>r \<in> set rs. ref_ok (out os) (blk r)" "ref_ok (out os) (blk ob)" "bufs_ok n (out os)"
    using IH(1) assms(4,6) snoc.prems same_shape_ok [OF IH(1)] by (auto simp: same_shape_def)
  have "blk ob \<notin> blk ` set rs" using snoc.prems by simp
  note m = eliminate_inner [OF c assms(2) this ok, of "e ob"]
  have step: "out (os @ [ob]) = foldl (\<lambda>bufs r. block_muladd c n (e ob r) (blk ob) (blk r) bufs) (out os) rs"
    by (simp add: out_def)
  show ?case
    unfolding step
    using m IH \<open>blk ob \<notin> blk ` set rs\<close> same_shape_trans [OF IH(1)] by (simp add: algebra_simps)
qed

section \<open>Solving for one or two erased blocks\<close>

lemma gfc_add_eq_0: "a + b = 0 \<longleftrightarrow> a = b" for a b :: gfc
  using gfc_char2(2) [of a b] by (metis right_minus_eq)

text \<open>The entries of the decomposition.\<close>

lemma ldu_1:
  assumes "gf_ready c" and "length (Recovery dec) = 1" and "1 \<le> length m"
  shows "Gfc (GenerateLDUDecomposition c dec blocks matL 0 m ! 0) =
    elem (Gfc (of_int (OriginalCount (Params dec)))) (Gfc (Index (blocks ! (Recovery dec ! 0))))
      (Gfc (ErasuresIndices dec ! 0))"
  using assms
  by (cases m) (simp_all add: GenerateLDUDecomposition_def Let_def ready_ops elem_def add.commute)

lemma bytewise_1: "length z = 1 \<Longrightarrow> bytewise f 0 1 z x y = [f (z ! 0) (x ! 0) (y ! 0)]"
  by (rule nth_equalityI) simp_all

lemma ldu_2:
  fixes blocks :: "cauchy_block list"
  assumes c: "gf_ready c" and "length (Recovery dec) = 2" and "4 \<le> length m"
  defines "x \<equiv> \<lambda>i. Gfc (Index (blocks ! (Recovery dec ! i)))"
    and "y \<equiv> \<lambda>i. Gfc (ErasuresIndices dec ! i)"
    and "X \<equiv> Gfc (of_int (OriginalCount (Params dec)))"
    and "m' \<equiv> GenerateLDUDecomposition c dec blocks 3 1 m"
  shows "Gfc (m' ! 0) = 1 / (x 0 + y 1) / (1 / (x 0 + y 0) * (X + y 0)) * (X + y 1)"
    and "Gfc (m' ! 1) = (x 0 + y 0) * (1 / (x 0 + y 0) * (1 / (x 0 + y 0) * (X + y 0)))"
    and "Gfc (m' ! 2) = (x 1 + x 0) / (x 1 + y 0) * ((y 1 + y 0) / (y 1 + x 0) * (X + y 1)) / (x 1 + y 1)"
    and "Gfc (m' ! 3) = 1 / (x 1 + y 0) / (1 / (x 0 + y 0))"
proof -
  obtain m0 m1 m2 m3 ms where m: "m = m0 # m1 # m2 # m3 # ms"
    using assms(3) by (cases m; cases "tl m"; cases "tl (tl m)"; cases "tl (tl (tl m))") auto
  have div1: "gf_div_mem c [a] [a] e (Suc 0) = [cm.mul a (cm.inv e)]" for a e
    using gf_div_mem_bytewise [OF c, of 1 "[a]" "[a]" e] bytewise_1 [of "[a]"] by simp
  have mul1: "gf_mul_mem c [a] [a] e (Suc 0) = [cm.mul a e]" for a e
    using gf_mul_mem_bytewise [OF c, of 1 "[a]" "[a]" e] bytewise_1 [of "[a]"] by simp
  have gfc: "Gfc (cm.mul a b) = Gfc a * Gfc b" "Gfc (cm.inv a) = inverse (Gfc a)" for a b
    by (simp_all add: times_gfc_def inverse_gfc_def)
  note defs = m'_def GenerateLDUDecomposition_def Let_def assms(2) m ldu_step_def ldu_cell_def
    numeral_2_eq_2 numeral_3_eq_3 upt_rec [of 0] upt_rec [of "Suc 0"] blit_def sub_def div1 mul1
  show "Gfc (m' ! 0) = 1 / (x 0 + y 1) / (1 / (x 0 + y 0) * (X + y 0)) * (X + y 1)"
    by (simp add: defs gfc ready_ops [OF c] x_def y_def X_def divide_inverse)
  show "Gfc (m' ! 1) = (x 0 + y 0) * (1 / (x 0 + y 0) * (1 / (x 0 + y 0) * (X + y 0)))"
    by (simp add: defs gfc ready_ops [OF c] x_def y_def X_def divide_inverse)
  show "Gfc (m' ! 2) = (x 1 + x 0) / (x 1 + y 0) * ((y 1 + y 0) / (y 1 + x 0) * (X + y 1)) / (x 1 + y 1)"
    by (simp add: defs gfc ready_ops [OF c] x_def y_def X_def divide_inverse)
  show "Gfc (m' ! 3) = 1 / (x 1 + y 0) / (1 / (x 0 + y 0))"
    by (simp add: defs gfc ready_ops [OF c] x_def y_def X_def divide_inverse)
qed

lemma div_mult_cancel: "a \<noteq> 0 \<Longrightarrow> a * d / a = (d :: gfc)"
  by simp

lemma add_quotients:
  "d \<noteq> 0 \<Longrightarrow> b \<noteq> 0 \<Longrightarrow> c \<noteq> 0 \<Longrightarrow> a \<noteq> 0 \<Longrightarrow>
   Y / a + (1 / b / (1 / d)) * (Y / c) = Y * ((c * b + d * a) / (a * b * c))" for a b c d Y :: gfc
  by (simp add: field_simps)

text \<open>The identity behind the second pivot.\<close>

lemma cauchy_pivot:
  fixes x0 x1 y0 y1 X :: gfc
  assumes "x0 + y0 \<noteq> 0" and "x1 + y0 \<noteq> 0" and "x0 + y1 \<noteq> 0" and "x1 + y1 \<noteq> 0" and "X + y0 \<noteq> 0"
  shows "elem X x1 y1 + (1 / (x1 + y0) / (1 / (x0 + y0))) * elem X x0 y1 =
      (x1 + x0) / (x1 + y0) * ((y1 + y0) / (y1 + x0) * (X + y1)) / (x1 + y1)"
    and "elem X x1 y0 + (1 / (x1 + y0) / (1 / (x0 + y0))) * elem X x0 y0 = 0"
proof -
  have sum: "(x0 + y1) * (x1 + y0) + (x0 + y0) * (x1 + y1) = (x1 + x0) * (y1 + y0)"
  proof -
    have "(x0 + y1) * (x1 + y0) + (x0 + y0) * (x1 + y1) =
        (x0 * x1 + x0 * x1) + (y0 * y1 + y0 * y1) + (x1 + x0) * (y1 + y0)"
      by (simp add: algebra_simps)
    then show ?thesis by (simp add: gfc_char2(1))
  qed
  have "elem X x1 y1 + (1 / (x1 + y0) / (1 / (x0 + y0))) * elem X x0 y1 =
      (y1 + X) * (((x0 + y1) * (x1 + y0) + (x0 + y0) * (x1 + y1)) / ((x1 + y1) * (x1 + y0) * (x0 + y1)))"
    unfolding elem_def using assms by (intro add_quotients)
  also have "\<dots> = (x1 + x0) / (x1 + y0) * ((y1 + y0) / (x0 + y1) * (y1 + X)) / (x1 + y1)"
    unfolding sum by (simp add: mult.commute mult.left_commute)
  finally show "elem X x1 y1 + (1 / (x1 + y0) / (1 / (x0 + y0))) * elem X x0 y1 =
      (x1 + x0) / (x1 + y0) * ((y1 + y0) / (y1 + x0) * (X + y1)) / (x1 + y1)"
    by (simp add: add.commute)
  have "(1 / (x1 + y0) / (1 / (x0 + y0))) * elem X x0 y0 = elem X x1 y0"
    using assms by (simp add: elem_def)
  then show "elem X x1 y0 + (1 / (x1 + y0) / (1 / (x0 + y0))) * elem X x0 y0 = 0"
    by (simp only: gfc_char2(1))
qed

lemma elem_eq_0: "elem X x y = 0 \<longleftrightarrow> y = X \<or> x = y"
  by (auto simp: elem_def gfc_add_eq_0)

text \<open>After the elimination of the known blocks, the recovery blocks hold the products of the
  square matrix with the erased blocks; the three eliminations leave the erased blocks.\<close>

lemma solve_1:
  assumes c: "gf_ready c" and ok: "bufs_ok n bufs" "ref_ok bufs (block 0)" and a: "Gfc (m ! 0) \<noteq> 0"
  defines "bufs' \<equiv> eliminate_upper c n block 1 m 0 (eliminate_diagonal c n block 1 m 0
    (eliminate_lower c n block 1 m 1 bufs))"
  shows "same_shape bufs bufs'" and "pos < n \<Longrightarrow> r \<noteq> block 0 \<Longrightarrow> val bufs' r pos = val bufs r pos"
    and "pos < n \<Longrightarrow> val bufs (block 0) pos = Gfc (m ! 0) * d \<Longrightarrow> val bufs' (block 0) pos = d"
  using block_div_val [OF c ok, where e = "m ! 0"] a
  by (simp_all add: bufs'_def eliminate_upper_def eliminate_diagonal_def eliminate_lower_def)

lemma solve_2:
  fixes m :: bytes
  assumes c: "gf_ready c" and ok: "bufs_ok n bufs" "ref_ok bufs (block 0)" "ref_ok bufs (block 1)"
    and ne: "block 0 \<noteq> block 1"
  defines "bufs' \<equiv> eliminate_upper c n block 2 m 0 (eliminate_diagonal c n block 2 m 1
    (eliminate_lower c n block 2 m 3 bufs))"
  shows "same_shape bufs bufs'"
    and "pos < n \<Longrightarrow> r \<noteq> block 0 \<Longrightarrow> r \<noteq> block 1 \<Longrightarrow> val bufs' r pos = val bufs r pos"
    and "pos < n \<Longrightarrow> val bufs' (block 1) pos =
      (val bufs (block 1) pos + Gfc (m ! 3) * val bufs (block 0) pos) / Gfc (m ! 2)"
    and "pos < n \<Longrightarrow> val bufs' (block 0) pos =
      val bufs (block 0) pos / Gfc (m ! 1) + Gfc (m ! 0) * val bufs' (block 1) pos"
proof -
  define b1 where "b1 = block_muladd c n (m ! 3) (block 0) (block 1) bufs"
  define b2 where "b2 = store b1 (block 0) (gf_div_mem c (load b1 (block 0)) (load b1 (block 0)) (m ! 1) n)"
  define b3 where "b3 = store b2 (block 1) (gf_div_mem c (load b2 (block 1)) (load b2 (block 1)) (m ! 2) n)"
  have "eliminate_lower c n block 2 m 3 bufs = b1"
    by (simp add: eliminate_lower_def b1_def numeral_2_eq_2 upt_rec [of 0] upt_rec [of "Suc 0"])
  moreover have "eliminate_diagonal c n block 2 m 1 b1 = b3"
    by (simp add: eliminate_diagonal_def b2_def b3_def numeral_2_eq_2)
  moreover have "eliminate_upper c n block 2 m 0 b3 = block_muladd c n (m ! 0) (block 1) (block 0) b3"
    by (simp add: eliminate_upper_def numeral_2_eq_2 upt_rec [of "Suc 0"])
  ultimately have b4: "bufs' = block_muladd c n (m ! 0) (block 1) (block 0) b3" by (simp add: bufs'_def)
  note v1 = block_muladd_val [OF c ok(1,2,3), where e = "m ! 3", folded b1_def]
  have ok1: "bufs_ok n b1" "ref_ok b1 (block 0)" "ref_ok b1 (block 1)"
    using same_shape_ok [OF v1(1)] same_shape_ref [OF v1(1)] ok by simp_all
  note v2 = block_div_val [OF c ok1(1,2), where e = "m ! 1", folded b2_def]
  have ok2: "bufs_ok n b2" "ref_ok b2 (block 0)" "ref_ok b2 (block 1)"
    using same_shape_ok [OF v2(1)] same_shape_ref [OF v2(1)] ok1 by simp_all
  note v3 = block_div_val [OF c ok2(1,3), where e = "m ! 2", folded b3_def]
  have ok3: "bufs_ok n b3" "ref_ok b3 (block 0)" "ref_ok b3 (block 1)"
    using same_shape_ok [OF v3(1)] same_shape_ref [OF v3(1)] ok2 by simp_all
  note v4 = block_muladd_val [OF c ok3(1,3,2), where e = "m ! 0", folded b4]
  show "same_shape bufs bufs'"
    using v1(1) v2(1) v3(1) v4(1) by (blast intro: same_shape_trans)
  show "pos < n \<Longrightarrow> r \<noteq> block 0 \<Longrightarrow> r \<noteq> block 1 \<Longrightarrow> val bufs' r pos = val bufs r pos"
    using v1(2) v2(2) v3(2) v4(2) by simp
  show "pos < n \<Longrightarrow> val bufs' (block 1) pos =
      (val bufs (block 1) pos + Gfc (m ! 3) * val bufs (block 0) pos) / Gfc (m ! 2)"
    using v1(2) v2(2) v3(2) v4(2) ne by simp
  show "pos < n \<Longrightarrow> val bufs' (block 0) pos =
      val bufs (block 0) pos / Gfc (m ! 1) + Gfc (m ! 0) * val bufs' (block 1) pos"
    using v1(2) v2(2) v3(2) v4(2) ne by simp
qed

lemma solve_2_cauchy:
  fixes x0 x1 y0 y1 X d0 d1 r0 r1 :: gfc
  assumes ne: "x0 \<noteq> y0" "x1 \<noteq> y0" "x0 \<noteq> y1" "x1 \<noteq> y1" "y0 \<noteq> X" "y1 \<noteq> X" "x0 \<noteq> x1" "y0 \<noteq> y1"
    and r: "r0 = elem X x0 y0 * d0 + elem X x0 y1 * d1" "r1 = elem X x1 y0 * d0 + elem X x1 y1 * d1"
    and m3: "m3 = 1 / (x1 + y0) / (1 / (x0 + y0))"
    and m2: "m2 = (x1 + x0) / (x1 + y0) * ((y1 + y0) / (y1 + x0) * (X + y1)) / (x1 + y1)"
    and m1: "m1 = (x0 + y0) * (1 / (x0 + y0) * (1 / (x0 + y0) * (X + y0)))"
    and m0: "m0 = 1 / (x0 + y1) / (1 / (x0 + y0) * (X + y0)) * (X + y1)"
  shows "(r1 + m3 * r0) / m2 = d1" and "r0 / m1 + m0 * d1 = d0"
proof -
  have nz: "x0 + y0 \<noteq> 0" "x1 + y0 \<noteq> 0" "x0 + y1 \<noteq> 0" "x1 + y1 \<noteq> 0" "X + y0 \<noteq> 0" "X + y1 \<noteq> 0"
      "x1 + x0 \<noteq> 0" "y1 + y0 \<noteq> 0" "y1 + x0 \<noteq> 0"
    using ne by (auto simp: gfc_add_eq_0)
  note p = cauchy_pivot [OF nz(1-5), folded m3 m2]
  have "r1 + m3 * r0 = (elem X x1 y0 + m3 * elem X x0 y0) * d0 + (elem X x1 y1 + m3 * elem X x0 y1) * d1"
    by (simp add: r algebra_simps)
  also have "\<dots> = m2 * d1" by (simp add: p)
  finally show "(r1 + m3 * r0) / m2 = d1" using nz by (simp add: m2)
  have m1': "m1 = elem X x0 y0" using nz by (simp add: m1 elem_def add.commute)
  have m0': "m0 = elem X x0 y1 / elem X x0 y0"
    using nz by (simp add: m0 elem_def add.commute)
  have e: "elem X x0 y0 \<noteq> 0" using ne by (auto simp: elem_eq_0)
  have "r0 / m1 + m0 * d1 = d0 + (elem X x0 y1 * d1 / elem X x0 y0 + elem X x0 y1 * d1 / elem X x0 y0)"
    using e by (simp add: r m1' m0' add_divide_distrib)
  then show "r0 / m1 + m0 * d1 = d0" by (simp only: gfc_char2(1)) simp
qed

section \<open>Decoding\<close>

lemma Gfc_of_nat_eq: "a < 256 \<Longrightarrow> b < 256 \<Longrightarrow> Gfc (of_nat a) = Gfc (of_nat b) \<longleftrightarrow> a = b"
  unfolding Gfc_eq by (metis unat_of_nat_u8)

lemma sum_rows: "(\<Sum>j < n. f j) = (\<Sum>j\<leftarrow>rows_of P n. f j) + (\<Sum>j\<leftarrow>rows_of (\<lambda>j. \<not> P j) n. f j)"
  for f :: "nat \<Rightarrow> gfc"
  by (induction n) (simp_all add: algebra_simps)

text \<open>The situation of the decoder: \<open>es\<close> lists the erased data blocks, \<open>D\<close> is what they and the
  other data blocks held, and \<open>blocks\<close> are the blocks it works on.\<close>

definition erased :: "bytes \<Rightarrow> nat \<Rightarrow> bool" where
  "erased es j \<longleftrightarrow> j \<in> unat ` set es"

definition decoder_blocks :: "cauchy_encoder_params \<Rightarrow> nat \<Rightarrow> bytes \<Rightarrow> cauchy_block list" where
  "decoder_blocks params count es = set_erasures params es
     (map (\<lambda>i. \<lparr>Block = Data i, Index = cauchy_get_original_block_index params i\<rparr>) [0..<count])"

definition codeword :: "nat \<Rightarrow> nat \<Rightarrow> bytes list \<Rightarrow> bytes \<Rightarrow> buffers \<Rightarrow> bool" where
  "codeword count n D es bufs \<longleftrightarrow>
     (\<forall>j < count. \<not> erased es j \<longrightarrow> (\<forall>pos < n. val bufs (Data j) pos = Gfc (D ! j ! pos))) \<and>
     (\<forall>t < length es. \<forall>pos < n. val bufs (Parity t) pos =
        (\<Sum>j < count. elem (Gfc (of_nat count)) (Gfc (of_nat (count + t))) (Gfc (of_nat j)) * Gfc (D ! j ! pos)))"

definition refs_ok :: "nat \<Rightarrow> bytes \<Rightarrow> buffers \<Rightarrow> bool" where
  "refs_ok count es bufs \<longleftrightarrow> (\<forall>j < count. ref_ok bufs (Data j)) \<and> (\<forall>t < length es. ref_ok bufs (Parity t))"

lemma decoder_blocks_nth:
  assumes "distinct es" and "\<forall>e \<in> set es. unat e < count" and "OriginalCount params = int count"
  shows "length (decoder_blocks params count es) = count"
    and "t < length es \<Longrightarrow> decoder_blocks params count es ! unat (es ! t) =
      \<lparr>Block = Parity t, Index = of_nat (count + t)\<rparr>"
    and "j < count \<Longrightarrow> \<not> erased es j \<Longrightarrow> decoder_blocks params count es ! j = \<lparr>Block = Data j, Index = of_nat j\<rparr>"
  using set_erasures_blocks [OF assms(1), where params = params and blocks = "map (\<lambda>i.
      \<lparr>Block = Data i, Index = cauchy_get_original_block_index params i\<rparr>) [0..<count]"] assms(2,3)
  by (simp_all add: decoder_blocks_def erased_def cauchy_get_original_block_index_def
      cauchy_get_recovery_block_index_def)

lemma erased_rows:
  assumes "distinct es" and "\<forall>e \<in> set es. unat e < count"
  shows "length (rows_of (erased es) count) = length es"
    and "r \<in> set (rows_of (erased es) count) \<Longrightarrow> \<exists>t < length es. r = unat (es ! t)"
    and "distinct (rows_of P count)"
proof -
  show d: "distinct (rows_of P count)" for P by (simp add: rows_of_def)
  have set: "set (rows_of (erased es) count) = unat ` set es"
    using assms(2) by (auto simp: rows_of_def erased_def)
  have "inj_on unat (set es)" by (auto simp: inj_on_def dest: unsigned_word_eqI)
  then have "card (unat ` set es) = length es" using assms(1) by (simp add: card_image distinct_card)
  then show "length (rows_of (erased es) count) = length es" using set d by (metis distinct_card)
  show "r \<in> set (rows_of (erased es) count) \<Longrightarrow> \<exists>t < length es. r = unat (es ! t)"
    unfolding set by (auto simp: in_set_conv_nth)
qed

text \<open>After the known blocks are eliminated.\<close>

lemma eliminated:
  assumes c: "gf_ready c" and es: "distinct es" "\<forall>e \<in> set es. unat e < count"
    and params: "OriginalCount params = int count" "nat (BlockBytes params) = n"
    and room: "count + length es \<le> 256"
    and bufs: "bufs_ok n bufs" "refs_ok count es bufs" "codeword count n D es bufs"
    and dec: "Params dec = params" "Recovery dec = rows_of (erased es) count"
      "Original dec = rows_of (\<lambda>j. \<not> erased es j) count"
  defines "blocks \<equiv> decoder_blocks params count es"
  defines "bufs' \<equiv> eliminate_originals c dec blocks bufs"
  shows "same_shape bufs bufs'"
    and "pos < n \<Longrightarrow> r \<in> set (Recovery dec) \<Longrightarrow> val bufs' (Block (blocks ! r)) pos =
      (\<Sum>e\<leftarrow>Recovery dec. elem (Gfc (of_nat count)) (Gfc (Index (blocks ! r))) (Gfc (of_nat e)) * Gfc (D ! e ! pos))"
    and "pos < n \<Longrightarrow> j < count \<Longrightarrow> \<not> erased es j \<Longrightarrow> val bufs' (Data j) pos = Gfc (D ! j ! pos)"
proof -
  note b = decoder_blocks_nth [OF es params(1), folded blocks_def]
  note rows = erased_rows [OF es]
  let ?blk = "\<lambda>j. Block (blocks ! j)"
  let ?rs = "rows_of (erased es) count" and ?os = "rows_of (\<lambda>j. \<not> erased es j) count"
  have r: "\<exists>t < length es. r = unat (es ! t) \<and> ?blk r = Parity t \<and> Index (blocks ! r) = of_nat (count + t)"
    if "r \<in> set ?rs" for r
    using rows(2) [OF that] b(2) by auto
  have os: "?blk j = Data j" "Index (blocks ! j) = of_nat j" "j < count" "\<not> erased es j" if "j \<in> set ?os" for j
    using that b(3) [of j] by (auto simp: rows_of_def)
  have "inj_on ?blk (set ?rs)"
    using r by (intro inj_onI) (metis block_ref.inject(2))
  then have dist: "distinct (map ?blk ?rs)" using rows(3) by (simp add: distinct_map)
  have apart: "\<forall>ob \<in> set ?os. ?blk ob \<notin> ?blk ` set ?rs" using os r by fastforce
  have refs: "\<forall>r \<in> set ?rs. ref_ok bufs (?blk r)" "\<forall>ob \<in> set ?os. ref_ok bufs (?blk ob)"
    using r os bufs(2) by (auto simp: refs_ok_def) metis
  let ?e = "\<lambda>ob r. GetMatrixElement c (Index (blocks ! r)) (of_nat count) (Index (blocks ! ob))"
  have out: "bufs' = foldl (\<lambda>bufs ob. foldl (\<lambda>bufs r. block_muladd c n (?e ob r) (?blk ob) (?blk r) bufs) bufs ?rs) bufs ?os"
    by (simp add: bufs'_def eliminate_originals_def dec params Let_def)
  note m = eliminate_outer [OF c dist apart refs bufs(1), of ?e, folded out]
  show "same_shape bufs bufs'" using m by blast
  show "pos < n \<Longrightarrow> j < count \<Longrightarrow> \<not> erased es j \<Longrightarrow> val bufs' (Data j) pos = Gfc (D ! j ! pos)"
  proof -
    assume a: "pos < n" "j < count" "\<not> erased es j"
    have "Data j \<notin> ?blk ` set ?rs" using r by fastforce
    then show ?thesis using m a bufs(3) by (simp add: codeword_def)
  qed
  show "pos < n \<Longrightarrow> r \<in> set (Recovery dec) \<Longrightarrow> val bufs' (?blk r) pos =
      (\<Sum>e\<leftarrow>Recovery dec. elem (Gfc (of_nat count)) (Gfc (Index (blocks ! r))) (Gfc (of_nat e)) * Gfc (D ! e ! pos))"
  proof -
    assume a: "pos < n" "r \<in> set (Recovery dec)"
    let ?t = "\<lambda>e. elem (Gfc (of_nat count)) (Gfc (Index (blocks ! r))) (Gfc (of_nat e)) * Gfc (D ! e ! pos)"
    obtain t where t: "t < length es" "?blk r = Parity t" "Index (blocks ! r) = of_nat (count + t)"
      using r a(2) dec(2) by auto
    have "val bufs (?blk r) pos = (\<Sum>j < count. ?t j)"
      using bufs(3) t a(1) by (simp add: codeword_def)
    moreover have "(\<Sum>ob\<leftarrow>?os. Gfc (?e ob r) * val bufs (?blk ob) pos) = (\<Sum>ob\<leftarrow>?os. ?t ob)"
      using os bufs(3) a(1)
      by (intro arg_cong [where f = sum_list] map_cong refl) (simp add: GetMatrixElement_elem [OF c] codeword_def)
    ultimately have "val bufs' (?blk r) pos = (\<Sum>j < count. ?t j) + (\<Sum>ob\<leftarrow>?os. ?t ob)"
      using m a dec(2) by simp
    then show ?thesis
      by (simp add: sum_rows [of _ count "erased es"] dec(2) add.assoc gfc_char2(1))
  qed
qed

text \<open>The eliminations solve the system \<open>block i = \<Sum>t. elem X (x i) (y t) * d t\<close>.\<close>

definition solved :: "nat \<Rightarrow> nat \<Rightarrow> (nat \<Rightarrow> block_ref) \<Rightarrow> (nat \<Rightarrow> nat \<Rightarrow> gfc) \<Rightarrow> buffers \<Rightarrow> buffers \<Rightarrow> bool" where
  "solved N n block d b0 b3 \<longleftrightarrow> same_shape b0 b3 \<and> (\<forall>pos < n.
     (\<forall>q. q \<notin> block ` {..<N} \<longrightarrow> val b3 q pos = val b0 q pos) \<and>
     (\<forall>i < N. val b3 (block i) pos = d i pos))"

definition eliminations :: "gf_ctx \<Rightarrow> nat \<Rightarrow> (nat \<Rightarrow> block_ref) \<Rightarrow> nat \<Rightarrow> bytes \<Rightarrow> buffers \<Rightarrow> buffers" where
  "eliminations c n block N m bufs = (let diag_D = (N - 1) * N div 2 in
     eliminate_upper c n block N m 0 (eliminate_diagonal c n block N m diag_D
       (eliminate_lower c n block N m (diag_D + N) bufs)))"

lemma solved_1:
  assumes c: "gf_ready c" and ok: "bufs_ok n b0" "ref_ok b0 (block 0)"
    and m: "Gfc (m ! 0) = elem X (x 0) (y 0)" and ne: "x 0 \<noteq> y 0" "y 0 \<noteq> X"
    and val: "\<forall>pos < n. val b0 (block 0) pos = elem X (x 0) (y 0) * d 0 pos"
  shows "solved 1 n block d b0 (eliminations c n block 1 m b0)"
proof -
  have "Gfc (m ! 0) \<noteq> 0" unfolding m elem_eq_0 using ne by auto
  note s = solve_1 [where block = block, OF c ok this]
  show ?thesis
    using s val by (simp add: solved_def eliminations_def m lessThan_Suc)
qed

lemma solved_2:
  fixes x y :: "nat \<Rightarrow> gfc" and X :: gfc and d :: "nat \<Rightarrow> nat \<Rightarrow> gfc"
  assumes c: "gf_ready c" and ok: "bufs_ok n b0" "ref_ok b0 (block 0)" "ref_ok b0 (block 1)"
    and ne: "block 0 \<noteq> block 1" "x 0 \<noteq> x 1" "y 0 \<noteq> y 1"
      "\<And>i k. i < 2 \<Longrightarrow> k < 2 \<Longrightarrow> x i \<noteq> y k" "\<And>k. k < 2 \<Longrightarrow> y k \<noteq> X"
    and m: "Gfc (m ! 0) = 1 / (x 0 + y 1) / (1 / (x 0 + y 0) * (X + y 0)) * (X + y 1)"
      "Gfc (m ! 1) = (x 0 + y 0) * (1 / (x 0 + y 0) * (1 / (x 0 + y 0) * (X + y 0)))"
      "Gfc (m ! 2) = (x 1 + x 0) / (x 1 + y 0) * ((y 1 + y 0) / (y 1 + x 0) * (X + y 1)) / (x 1 + y 1)"
      "Gfc (m ! 3) = 1 / (x 1 + y 0) / (1 / (x 0 + y 0))"
    and val: "\<And>i pos. pos < n \<Longrightarrow> i < 2 \<Longrightarrow>
      val b0 (block i) pos = elem X (x i) (y 0) * d 0 pos + elem X (x i) (y 1) * d 1 pos"
  shows "solved 2 n block d b0 (eliminations c n block 2 m b0)"
proof -
  have b3: "eliminations c n block 2 m b0 = eliminate_upper c n block 2 m 0 (eliminate_diagonal c n block 2 m 1
      (eliminate_lower c n block 2 m 3 b0))"
    by (simp add: eliminations_def numeral_3_eq_3)
  note s = solve_2 [where block = block and m = m, OF c ok ne(1), folded b3]
  have 01: "0 < (2 :: nat)" "1 < (2 :: nat)" by simp_all
  have cauchy: "(val b0 (block 1) pos + Gfc (m ! 3) * val b0 (block 0) pos) / Gfc (m ! 2) = d 1 pos"
      "val b0 (block 0) pos / Gfc (m ! 1) + Gfc (m ! 0) * d 1 pos = d 0 pos" if "pos < n" for pos
    using solve_2_cauchy [OF ne(4) [OF 01(1) 01(1)] ne(4) [OF 01(2) 01(1)] ne(4) [OF 01(1) 01(2)]
        ne(4) [OF 01(2) 01(2)] ne(5) [OF 01(1)] ne(5) [OF 01(2)] ne(2,3)
        val [OF that 01(1)] val [OF that 01(2)] m(4,3,2,1)] by blast+
  have "val (eliminations c n block 2 m b0) (block i) pos = d i pos" if "pos < n" "i < 2" for i pos
  proof -
    have v1: "val (eliminations c n block 2 m b0) (block 1) pos = d 1 pos"
      using s(3) [OF that(1)] unfolding cauchy(1) [OF that(1)] .
    have v0: "val (eliminations c n block 2 m b0) (block 0) pos = d 0 pos"
      using s(4) [OF that(1)] unfolding v1 cauchy(2) [OF that(1)] .
    have "i = 0 \<or> i = 1" using that(2) by linarith
    then show ?thesis using v0 v1 by auto
  qed
  moreover have "block ` {..<2} = {block 0, block 1}" by (auto simp: numeral_2_eq_2 lessThan_Suc)
  ultimately show ?thesis using s(1,2) by (simp add: solved_def)
qed

lemma foldl_Index_Block:
  assumes "j < length blocks"
  shows "Block (foldl (\<lambda>blocks i. blocks[rs ! i := (blocks ! (rs ! i))\<lparr>Index := es ! i\<rparr>]) blocks is ! j) =
    Block (blocks ! j)"
  using assms
proof (induction "is" arbitrary: blocks)
  case (Cons i "is")
  then show ?case by (cases "rs ! i = j") simp_all
qed simp

text \<open>The rows and columns of the system are pairwise different.\<close>

lemma decoder_points:
  assumes es: "distinct es" "\<forall>e \<in> set es. unat e < count" and params: "OriginalCount params = int count"
    and room: "count + length es \<le> 256"
  defines "blocks \<equiv> decoder_blocks params count es" and "rs \<equiv> rows_of (erased es) count"
  shows "i < length es \<Longrightarrow> \<exists>t < length es. Block (blocks ! (rs ! i)) = Parity t"
    and "i < length es \<Longrightarrow> k < length es \<Longrightarrow> Gfc (Index (blocks ! (rs ! i))) \<noteq> Gfc (of_nat (rs ! k))"
    and "k < length es \<Longrightarrow> Gfc (of_nat (rs ! k)) \<noteq> Gfc (of_nat count)"
    and "i < length es \<Longrightarrow> k < length es \<Longrightarrow> i \<noteq> k \<Longrightarrow>
      Gfc (Index (blocks ! (rs ! i))) \<noteq> Gfc (Index (blocks ! (rs ! k))) \<and>
      Gfc (of_nat (rs ! i)) \<noteq> Gfc (of_nat (rs ! k)) \<and> Block (blocks ! (rs ! i)) \<noteq> Block (blocks ! (rs ! k))"
proof -
  note b = decoder_blocks_nth [OF es params, folded blocks_def]
  note rows = erased_rows [OF es]
  have len: "length rs = length es" unfolding rs_def by (rule rows(1))
  have at: "\<exists>t < length es. blocks ! (rs ! i) = \<lparr>Block = Parity t, Index = of_nat (count + t)\<rparr> \<and>
      rs ! i = unat (es ! t)" if "i < length es" for i
    using rows(2) [of "rs ! i"] that len b(2) by (metis nth_mem rs_def)
  have rc: "rs ! i < count" if "i < length es" for i using that len by (simp add: rows_of_nth_less rs_def)
  have ix: "\<exists>t < length es. Gfc (Index (blocks ! (rs ! i))) = Gfc (of_nat (count + t)) \<and>
      Block (blocks ! (rs ! i)) = Parity t \<and> rs ! i = unat (es ! t)" if "i < length es" for i
    using at [OF that] by auto
  show "i < length es \<Longrightarrow> \<exists>t < length es. Block (blocks ! (rs ! i)) = Parity t"
    using ix by blast
  show "i < length es \<Longrightarrow> k < length es \<Longrightarrow> Gfc (Index (blocks ! (rs ! i))) \<noteq> Gfc (of_nat (rs ! k))"
  proof -
    assume ik: "i < length es" "k < length es"
    obtain t where "t < length es" "Gfc (Index (blocks ! (rs ! i))) = Gfc (of_nat (count + t))"
      using ix [OF ik(1)] by blast
    then show ?thesis using rc [OF ik(2)] room by (simp add: Gfc_of_nat_eq del: of_nat_add Gfc_eq)
  qed
  show "k < length es \<Longrightarrow> Gfc (of_nat (rs ! k)) \<noteq> Gfc (of_nat count)"
    using rc [of k] room by (simp add: Gfc_of_nat_eq del: Gfc_eq)
  assume ik: "i < length es" "k < length es" "i \<noteq> k"
  obtain t where t: "t < length es" "Gfc (Index (blocks ! (rs ! i))) = Gfc (of_nat (count + t))"
      "Block (blocks ! (rs ! i)) = Parity t" "rs ! i = unat (es ! t)" using ix [OF ik(1)] by blast
  obtain u where u: "u < length es" "Gfc (Index (blocks ! (rs ! k))) = Gfc (of_nat (count + u))"
      "Block (blocks ! (rs ! k)) = Parity u" "rs ! k = unat (es ! u)" using ix [OF ik(2)] by blast
  have ne: "rs ! i \<noteq> rs ! k"
    using rows(3) [of "erased es"] ik len unfolding rs_def by (simp add: nth_eq_iff_index_eq)
  then have "t \<noteq> u" using t u by auto
  then have "Gfc (of_nat (count + t)) \<noteq> Gfc (of_nat (count + u))"
    using t(1) u(1) room by (simp add: Gfc_of_nat_eq del: of_nat_add Gfc_eq)
  moreover have "Gfc (of_nat (rs ! i)) \<noteq> Gfc (of_nat (rs ! k))"
    using ne rc [OF ik(1)] rc [OF ik(2)] room by (simp add: Gfc_of_nat_eq del: Gfc_eq)
  ultimately show "Gfc (Index (blocks ! (rs ! i))) \<noteq> Gfc (Index (blocks ! (rs ! k))) \<and>
      Gfc (of_nat (rs ! i)) \<noteq> Gfc (of_nat (rs ! k)) \<and> Block (blocks ! (rs ! i)) \<noteq> Block (blocks ! (rs ! k))"
    unfolding t(2,3) u(2,3) using \<open>t \<noteq> u\<close> by (simp del: Gfc_eq)
qed

lemma rows_of_list:
  assumes "length (rows_of P n) = N"
  shows "N = 1 \<Longrightarrow> \<exists>r0. rows_of P n = [r0]" and "N = 2 \<Longrightarrow> \<exists>r0 r1. rows_of P n = [r0, r1]"
  using assms by (cases "rows_of P n"; cases "tl (rows_of P n)"; simp)+

lemma decoder_solves:
  assumes c: "gf_ready c" and es: "distinct es" "\<forall>e \<in> set es. unat e < count"
    and params: "OriginalCount params = int count" "nat (BlockBytes params) = n"
    and room: "count + length es \<le> 256" and N: "length es = 1 \<or> length es = 2"
    and bufs: "bufs_ok n bufs" "refs_ok count es bufs" "codeword count n D es bufs"
    and dec: "Params dec = params" "Recovery dec = rows_of (erased es) count"
      "Original dec = rows_of (\<lambda>j. \<not> erased es j) count"
      "\<forall>i < length es. ErasuresIndices dec ! i = of_nat (rows_of (erased es) count ! i)"
    and mat: "4 \<le> length matrix"
  defines "blocks \<equiv> decoder_blocks params count es"
    and "block \<equiv> \<lambda>i. Block (decoder_blocks params count es ! (rows_of (erased es) count ! i))"
    and "diag \<equiv> (length es - 1) * length es div 2"
  shows "solved (length es) n block (\<lambda>i pos. Gfc (D ! (rows_of (erased es) count ! i) ! pos))
    (eliminate_originals c dec blocks bufs)
    (eliminations c n block (length es)
      (GenerateLDUDecomposition c dec blocks (diag + length es) diag matrix)
      (eliminate_originals c dec blocks bufs))"
proof -
  define rs where "rs = rows_of (erased es) count"
  have len: "length rs = length es" unfolding rs_def by (rule erased_rows(1) [OF es])
  note pts = decoder_points [OF es params(1) room, folded blocks_def rs_def]
  note el = eliminated [OF c es params room bufs dec(1-3), folded blocks_def]
  define b0 where "b0 = eliminate_originals c dec blocks bufs"
  have blk: "block i = Block (blocks ! (rs ! i))" for i by (simp add: block_def blocks_def rs_def)
  have ok: "bufs_ok n b0" "i < length es \<Longrightarrow> ref_ok b0 (block i)" for i
    using same_shape_ok [OF el(1) bufs(1)] same_shape_ref [OF el(1)] bufs(2) pts(1) [of i]
    by (auto simp: refs_ok_def b0_def blk)
  define x where "x i = Gfc (Index (blocks ! (rs ! i)))" for i
  define y where "y i = Gfc (of_nat (rs ! i))" for i
  define X where "X = Gfc (of_nat count)"
  define d where "d i pos = Gfc (D ! (rs ! i) ! pos)" for i pos
  have sys: "val b0 (block i) pos = (\<Sum>e\<leftarrow>rs. elem X (x i) (Gfc (of_nat e)) * Gfc (D ! e ! pos))"
    if "i < length es" "pos < n" for i pos
    using el(2) [OF that(2), of "rs ! i"] that(1) len
    by (simp add: b0_def blk dec(2) rs_def [symmetric] x_def X_def)
  have yE: "Gfc (ErasuresIndices dec ! i) = y i" if "i < length es" for i
    using dec(4) that by (simp add: y_def rs_def)
  have XP: "Gfc (of_int (OriginalCount (Params dec))) = X" by (simp add: dec(1) params X_def)
  have Rec: "Recovery dec = rs" by (simp add: dec(2) rs_def)
  have pne: "x i \<noteq> y k" "y k \<noteq> X" if "i < length es" "k < length es" for i k
    using pts(2) [OF that] pts(3) [OF that(2)] unfolding x_def y_def X_def by blast+
  have "solved (length es) n block d b0 (eliminations c n block (length es)
      (GenerateLDUDecomposition c dec blocks (diag + length es) diag matrix) b0)"
    using N
  proof
    assume one: "length es = 1"
    then obtain r0 where r0: "rs = [r0]" using rows_of_list(1) [OF len [unfolded rs_def]] by (auto simp: rs_def)
    have "Gfc (GenerateLDUDecomposition c dec blocks 1 0 matrix ! 0) = elem X (x 0) (y 0)"
      using ldu_1 [OF c, of dec matrix blocks 1] one mat len XP yE [of 0] by (simp add: Rec x_def)
    moreover have "val b0 (block 0) pos = elem X (x 0) (y 0) * d 0 pos" if "pos < n" for pos
      using sys [of 0 pos] that one by (simp add: r0 y_def d_def)
    ultimately have "solved 1 n block d b0
        (eliminations c n block 1 (GenerateLDUDecomposition c dec blocks 1 0 matrix) b0)"
      using pne [of 0 0] ok one by (intro solved_1 [OF c, where x = x and y = y and X = X]) auto
    then show ?thesis by (simp add: one diag_def)
  next
    assume two: "length es = 2"
    then obtain r0 r1 where r: "rs = [r0, r1]" using rows_of_list(2) [OF len [unfolded rs_def]] by (auto simp: rs_def)
    have "length (Recovery dec) = 2" using Rec len two by simp
    note l = ldu_2 [OF c this mat, of blocks]
    have i: "0 < length es" "1 < length es" using two by simp_all
    have "val b0 (block i) pos = elem X (x i) (y 0) * d 0 pos + elem X (x i) (y 1) * d 1 pos"
      if "pos < n" "i < 2" for i pos
      using sys [of i pos] that two by (simp add: r y_def d_def)
    moreover have "x 0 \<noteq> x 1" "y 0 \<noteq> y 1" "block 0 \<noteq> block 1"
      using pts(4) [OF i] unfolding x_def y_def blk by auto
    ultimately have "solved 2 n block d b0
        (eliminations c n block 2 (GenerateLDUDecomposition c dec blocks 3 1 matrix) b0)"
      using ok i pne two l [unfolded XP yE [OF i(1)] yE [OF i(2)] Rec, folded x_def]
      by (intro solved_2 [OF c, where x = x and y = y and X = X]) (simp_all only: simp_thms)
    then show ?thesis by (simp add: two diag_def numeral_3_eq_3)
  qed
  then show ?thesis unfolding b0_def d_def rs_def .
qed


text \<open>Copying the blocks back: every data block receives the block its row was computed in.\<close>

definition copy_back :: "nat \<Rightarrow> (nat \<Rightarrow> block_ref) \<Rightarrow> buffers \<Rightarrow> nat \<Rightarrow> buffers" where
  "copy_back n blk bufs count = foldl (\<lambda>bufs i. store bufs (Data i)
     (blit (load bufs (Data i)) 0 (take n (load bufs (blk i))))) bufs [0..<count]"

lemma copy_back_val:
  assumes "bufs_ok n bufs" and "\<forall>j < count. ref_ok bufs (Data j) \<and> ref_ok bufs (blk j)"
    and blk: "\<forall>j < count. blk j = Data j \<or> (\<exists>t. blk j = Parity t)" and "m \<le> count"
  shows "same_shape bufs (copy_back n blk bufs m) \<and>
    (\<forall>q pos. pos < n \<longrightarrow> val (copy_back n blk bufs m) q pos =
       (case q of Data j \<Rightarrow> if j < m then val bufs (blk j) pos else val bufs q pos | Parity t \<Rightarrow> val bufs q pos))"
  using assms(4)
proof (induction m)
  case 0
  then show ?case by (auto simp: copy_back_def split: block_ref.splits)
next
  case (Suc m)
  let ?b = "copy_back n blk bufs m"
  have IH: "same_shape bufs ?b" "\<And>q pos. pos < n \<Longrightarrow> val ?b q pos =
       (case q of Data j \<Rightarrow> if j < m then val bufs (blk j) pos else val bufs q pos | Parity t \<Rightarrow> val bufs q pos)"
    using Suc by auto
  have m: "ref_ok bufs (Data m)" "ref_ok bufs (blk m)" using assms(2) Suc.prems by auto
  then have ok: "ref_ok ?b (Data m)" "ref_ok ?b (blk m)" "bufs_ok n ?b"
    using same_shape_ref [OF IH(1)] same_shape_ok [OF IH(1) assms(1)] by auto
  then have len: "n \<le> length (load ?b (Data m))" "n \<le> length (load ?b (blk m))"
    by (auto simp: bufs_ok_def)
  have step: "copy_back n blk bufs (Suc m) =
      store ?b (Data m) (blit (load ?b (Data m)) 0 (take n (load ?b (blk m))))"
    by (simp add: copy_back_def)
  have shape: "same_shape ?b (copy_back n blk bufs (Suc m))"
    unfolding step using ok(1) len by (intro same_shape_store) (simp_all add: blit_def)
  have "blk m = Data m \<or> (\<exists>t. blk m = Parity t)" using blk Suc.prems by simp
  then have "val ?b (blk m) pos = val bufs (blk m) pos" if "pos < n" for pos
    using IH(2) [OF that, of "blk m"] by auto
  then have "val (copy_back n blk bufs (Suc m)) q pos = (if q = Data m then val bufs (blk m) pos else val ?b q pos)"
    if "pos < n" for q pos
    using that ok(1) len by (simp add: step val_def load_store blit_def nth_append)
  then show ?case
    using IH(2) same_shape_trans [OF IH(1) shape] by (auto simp: less_Suc_eq split: block_ref.splits)
qed

lemma Decode_eliminations:
  assumes "Recovery dec = rows_of (erased es) count" and "length (rows_of (erased es) count) = N"
    and "nat (BlockBytes (Params dec)) = n" and "length blocks = count"
  shows "\<exists>blocks'. Decode c dec matrix (blocks, bufs) = (blocks', eliminations c n
      (\<lambda>i. Block (blocks ! (rows_of (erased es) count ! i))) N
      (GenerateLDUDecomposition c dec blocks ((N - 1) * N div 2 + N) ((N - 1) * N div 2) matrix)
      (eliminate_originals c dec blocks bufs)) \<and>
    (\<forall>j < count. Block (blocks' ! j) = Block (blocks ! j))"
  using assms by (simp add: Decode_def Let_def eliminations_def foldl_Index_Block)

lemma solved_rows:
  assumes "solved (length rs) n block d b0 b3" and "pos < n" and "r \<in> set rs"
    and "\<forall>i < length rs. block i = blk (rs ! i)" and "\<forall>i < length rs. d i pos = D (rs ! i)"
  shows "val b3 (blk r) pos = D r"
  using assms by (fastforce simp: solved_def in_set_conv_nth)

lemma decoded:
  assumes c: "gf_ready c" and es: "distinct es" "\<forall>e \<in> set es. unat e < count"
    and params: "OriginalCount params = int count" "nat (BlockBytes params) = n"
    and room: "count + length es \<le> 256" and N: "length es = 1 \<or> length es = 2"
    and bufs: "bufs_ok n bufs" "refs_ok count es bufs" "codeword count n D es bufs"
    and dec: "Params dec = params" "Recovery dec = rows_of (erased es) count"
      "Original dec = rows_of (\<lambda>j. \<not> erased es j) count"
      "\<forall>i < length es. ErasuresIndices dec ! i = of_nat (rows_of (erased es) count ! i)"
    and mat: "4 \<le> length matrix"
  shows "\<exists>blocks' bufs'. Decode c dec matrix (decoder_blocks params count es, bufs) = (blocks', bufs') \<and>
    same_shape bufs (copy_back n (\<lambda>i. Block (blocks' ! i)) bufs' count) \<and>
    (\<forall>j < count. \<forall>pos < n. val (copy_back n (\<lambda>i. Block (blocks' ! i)) bufs' count) (Data j) pos = Gfc (D ! j ! pos))"
proof -
  let ?blocks = "decoder_blocks params count es" and ?rs = "rows_of (erased es) count"
  let ?blk = "\<lambda>i. Block (?blocks ! i)"
  note len = erased_rows(1) [OF es]
  note nth = decoder_blocks_nth [OF es params(1)]
  note el = eliminated [OF c es params room bufs dec(1-3)]
  define b0 where "b0 = eliminate_originals c dec ?blocks bufs"
  have "nat (BlockBytes (Params dec)) = n" using dec(1) params(2) by simp
  note de = Decode_eliminations [OF dec(2) len this nth(1), of c matrix bufs]
  obtain blocks' b3 where out: "Decode c dec matrix (?blocks, bufs) = (blocks', b3)"
      "\<forall>j < count. Block (blocks' ! j) = ?blk j"
      "solved (length es) n (\<lambda>i. ?blk (?rs ! i)) (\<lambda>i pos. Gfc (D ! (?rs ! i) ! pos)) b0 b3"
    using de decoder_solves [OF c es params room N bufs dec mat] unfolding b0_def by blast
  have par: "\<exists>t < length es. ?blk r = Parity t" if "r \<in> set ?rs" for r
    using erased_rows(2) [OF es that] nth(2) by auto
  have kind: "if erased es j then j \<in> set ?rs \<and> (\<exists>t < length es. ?blk j = Parity t) else ?blk j = Data j"
    if "j < count" for j
    using that par nth(3) by (auto simp: rows_of_def)
  have blkD: "?blk (?rs ! i) \<noteq> Data j" if "i < length es" for i j
    using par [of "?rs ! i"] that len by (metis block_ref.distinct(1) nth_mem)
  have restored: "val b3 (?blk j) pos = Gfc (D ! j ! pos)" if a: "j < count" "pos < n" for j pos
  proof (cases "erased es j")
    case True
    then have "j \<in> set ?rs" using kind [OF a(1)] by simp
    then show ?thesis
      using out(3) a(2) unfolding len [symmetric]
      by (intro solved_rows [where blk = ?blk and rs = ?rs and D = "\<lambda>r. Gfc (D ! r ! pos)" and block = "\<lambda>i. ?blk (?rs ! i)"
            and d = "\<lambda>i pos. Gfc (D ! (?rs ! i) ! pos)"]) simp_all
  next
    case False
    then have blk: "?blk j = Data j" using kind [OF a(1)] by simp
    have "Data j \<notin> (\<lambda>i. ?blk (?rs ! i)) ` {..<length es}" using blkD by (auto dest: sym)
    then have "val b3 (?blk j) pos = val b0 (Data j) pos"
      using a(2) out(3) unfolding blk by (simp add: solved_def)
    then show ?thesis using el(3) [OF a(2,1) False] by (simp add: b0_def)
  qed
  have "same_shape b0 b3" using out(3) by (simp add: solved_def)
  then have shape: "same_shape bufs b3" using el(1) unfolding b0_def by (rule same_shape_trans [rotated])
  have kinds: "Block (blocks' ! j) = Data j \<or> (\<exists>t < length es. Block (blocks' ! j) = Parity t)" if "j < count" for j
    using kind [OF that] out(2) that by (auto split: if_splits)
  have "ref_ok b3 (Data j) \<and> ref_ok b3 (Block (blocks' ! j))" if "j < count" for j
    using bufs(2) kinds [OF that] that unfolding same_shape_ref [OF shape] refs_ok_def by auto
  then have refs: "\<forall>j < count. ref_ok b3 (Data j) \<and> ref_ok b3 (Block (blocks' ! j))" by blast
  have "\<forall>j < count. Block (blocks' ! j) = Data j \<or> (\<exists>t. Block (blocks' ! j) = Parity t)"
    using kinds by blast
  note cb = copy_back_val [OF same_shape_ok [OF shape bufs(1)] refs this order_refl]
  have "val (copy_back n (\<lambda>i. Block (blocks' ! i)) b3 count) (Data j) pos = Gfc (D ! j ! pos)"
    if a: "j < count" "pos < n" for j pos
    using conjunct2 [OF cb, rule_format, OF a(2), of "Data j"] restored [OF a] out(2) a(1) by simp
  moreover have "same_shape bufs (copy_back n (\<lambda>i. Block (blocks' ! i)) b3 count)"
    using same_shape_trans [OF shape conjunct1 [OF cb]] .
  ultimately show ?thesis using out(1) by (intro exI [of _ blocks'] exI [of _ b3]) simp
qed


text \<open>What encoding leaves in the buffers is a codeword.\<close>

lemma encode_codeword:
  assumes c: "gf_ready c" and params: "OriginalCount params = int count" "nat (BlockBytes params) = n"
    and count: "2 \<le> count" and room: "count + recovery \<le> 256"
    and D: "length D = count" "\<forall>d \<in> set D. n \<le> length d"
    and P: "length P = recovery" "\<forall>p \<in> set P. n \<le> length p"
    and data: "length data' = count" "\<forall>d \<in> set data'. n \<le> length d"
      "\<forall>j < count. \<not> erased es j \<longrightarrow> data' ! j = D ! j" and es: "length es \<le> recovery"
  defines "parity \<equiv> foldl (\<lambda>parity block. parity[block := cauchy_rs_encode_block c params
          (take (nat (OriginalCount params)) D) (OriginalCount params + int block) (parity ! block)])
        P [0..<recovery]"
  shows "bufs_ok n (data', parity)" and "refs_ok count es (data', parity)"
    and "codeword count n D es (data', parity)"
proof -
  have D': "\<forall>j < count. n \<le> length (D ! j)" using D by simp
  have take: "take (nat (OriginalCount params)) D = D" using params(1) D(1) by simp
  let ?row = "\<lambda>i z. cauchy_rs_encode_block c params D (OriginalCount params + int i) z"
  have par: "length parity = recovery" "\<And>i. i < recovery \<Longrightarrow> parity ! i = ?row i (P ! i)"
    using foldl_update [of recovery P ?row] P(1) by (auto simp: parity_def take)
  have row: "length (parity ! i) = length (P ! i)"
      "\<And>pos. pos < n \<Longrightarrow> Gfc (parity ! i ! pos) = (\<Sum>j < count.
        elem (Gfc (of_nat count)) (Gfc (of_nat (count + i))) (Gfc (of_nat j)) * Gfc (D ! j ! pos))"
    if i: "i < recovery" for i
  proof -
    have "count + i < 256" "n \<le> length (P ! i)" using i room P by simp_all
    from encode_block_val [OF c params(1) count this(1) params(2) D(1) D' this(2)]
    show "length (parity ! i) = length (P ! i)" "\<And>pos. pos < n \<Longrightarrow> Gfc (parity ! i ! pos) = (\<Sum>j < count.
        elem (Gfc (of_nat count)) (Gfc (of_nat (count + i))) (Gfc (of_nat j)) * Gfc (D ! j ! pos))"
      unfolding par(2) [OF i] by blast+
  qed
  show "bufs_ok n (data', parity)"
    unfolding bufs_ok_def
  proof (intro allI impI)
    show "n \<le> length (load (data', parity) r)" if "ref_ok (data', parity) r" for r
      using that data P par(1) row(1) by (cases r) simp_all
  qed
  show "refs_ok count es (data', parity)" using data(1) par(1) es by (auto simp: refs_ok_def)
  show "codeword count n D es (data', parity)"
    using data(3) row(2) es by (simp add: codeword_def val_def)
qed

lemma decode_dispatch:
  assumes "alloc_ok k" and "OriginalCount params = int count" and "RecoveryCount params = int recovery"
    and "0 < count" and "2 \<le> recovery" and "count + recovery \<le> 256" and "0 < BlockBytes params"
    and "\<And>mem. length mem = 256 \<Longrightarrow> \<exists>dec. Initialize params (decoder_blocks params count es) mem = Some dec \<and>
      Q dec \<and> length (Recovery dec) = length es"
    and "length es \<le> 2"
  shows "\<exists>dec matrix k'. Q dec \<and> 4 \<le> length matrix \<and> alloc_ok k' \<and> cauchy_rs_decode c params bufs es k =
    Some (0, if es = [] then bufs else
      (case Decode c dec matrix (decoder_blocks params count es, bufs) of (blocks, bufs) \<Rightarrow>
        copy_back (nat (BlockBytes params)) (\<lambda>i. Block (blocks ! i)) bufs count), k')"
proof -
  let ?k1 = "k\<lparr>k_allocs := Suc (k_allocs k)\<rparr>"
  let ?k2 = "k\<lparr>k_allocs := Suc (Suc (k_allocs k))\<rparr>"
  let ?mem = "sub (map (k_junk k (k_allocs k)) [0..<4384]) 4124 256"
  let ?matrix = "map (k_junk ?k2 (k_allocs ?k2)) [0..<StackAllocSize]"
  obtain dec where dec: "Initialize params (decoder_blocks params count es) ?mem = Some dec" "Q dec"
      "length (Recovery dec) = length es"
    using assms(8) [of ?mem] by auto
  have "length es * length es \<le> 2 * 2" using assms(9) by (intro mult_le_mono)
  then have mat: "decoder_matrix (length (Recovery dec)) ?k2 = (Some ?matrix, ?k2)"
    by (simp add: decoder_matrix_def dec(3) StackAllocSize_def)
  have "cauchy_rs_decode c params bufs es k =
    Some (0, if es = [] then bufs else
      (case Decode c dec ?matrix (decoder_blocks params count es, bufs) of (blocks, bufs) \<Rightarrow>
        copy_back (nat (BlockBytes params)) (\<lambda>i. Block (blocks ! i)) bufs count), ?k2)"
    using assms(1-7) dec mat
    by (auto simp: cauchy_rs_decode_def kmalloc_alloc_ok decoder_blocks_def [symmetric] copy_back_def Let_def
        split: prod.splits)
  moreover have "4 \<le> length ?matrix" by (simp add: StackAllocSize_def)
  moreover have "alloc_ok ?k2" using assms(1) by simp
  ultimately show ?thesis using dec(2) by blast
qed

lemma take_eqI: "n \<le> length a \<Longrightarrow> n \<le> length b \<Longrightarrow> (\<And>i. i < n \<Longrightarrow> a ! i = b ! i) \<Longrightarrow> take n a = take n b"
  by (rule nth_equalityI) simp_all

definition computed_parity :: "gf_ctx \<Rightarrow> cauchy_encoder_params \<Rightarrow> bytes list \<Rightarrow> bytes list \<Rightarrow> bytes list" where
  "computed_parity c params D P = foldl (\<lambda>parity block. parity[block := cauchy_rs_encode_block c params
       (take (nat (OriginalCount params)) D) (OriginalCount params + int block) (parity ! block)])
     P [0..<nat (RecoveryCount params)]"

lemma length_computed_parity [simp, afs_len]: "length (computed_parity c params D P) = length P"
proof -
  have "length (foldl (\<lambda>p i. p[i := f i (p ! i)]) P is) = length P" for f :: "nat \<Rightarrow> bytes \<Rightarrow> bytes" and "is"
    by (induction "is" arbitrary: P) simp_all
  then show ?thesis by (simp add: computed_parity_def)
qed

lemma cauchy_encodes:
  assumes "alloc_ok k"
    and params: "OriginalCount params = int count" "RecoveryCount params = int recovery" "BlockBytes params = int n"
    and count: "0 < count" "0 < recovery" "count + recovery \<le> 256" "0 < n"
  shows "\<exists>k'. alloc_ok k' \<and> cauchy_rs_encode c params D P k = (0, computed_parity c params D P, k')"
  using encode_parity [of params k c D P] assms by (auto simp: computed_parity_def)

lemma cauchy_restores:
  assumes c: "gf_ready c" and k: "alloc_ok k"
    and params: "OriginalCount params = int count" "RecoveryCount params = int recovery" "BlockBytes params = int n"
    and count: "2 \<le> count" "2 \<le> recovery" "count + recovery \<le> 256" "0 < n"
    and D: "length D = count" "\<forall>d \<in> set D. n \<le> length d"
    and P: "length P = recovery" "\<forall>p \<in> set P. n \<le> length p"
    and es: "distinct es" "\<forall>e \<in> set es. unat e < count" "length es \<le> 2"
    and data: "length data' = count" "\<forall>d \<in> set data'. n \<le> length d"
      "\<forall>j < count. j \<notin> unat ` set es \<longrightarrow> data' ! j = D ! j"
  shows "\<exists>bufs k2. alloc_ok k2 \<and> cauchy_rs_decode c params (data', computed_parity c params D P) es k = Some (0, bufs, k2) \<and>
    length (fst bufs) = count \<and> (\<forall>j < count. take n (fst bufs ! j) = take n (D ! j))"
proof -
  have n: "nat (BlockBytes params) = n" using params(3) by simp
  have er: "\<forall>j < count. \<not> erased es j \<longrightarrow> data' ! j = D ! j" using data(3) by (simp add: erased_def)
  have "length es \<le> recovery" using es(3) count(2) by linarith
  note cw = encode_codeword [OF c params(1) n count(1,3) D P data(1,2) er this]
  define parity where "parity = computed_parity c params D P"
  have enc: "bufs_ok n (data', parity)" "refs_ok count es (data', parity)" "codeword count n D es (data', parity)"
    using cw params(2) by (simp_all add: parity_def computed_parity_def)
  let ?Q = "\<lambda>dec. Params dec = params \<and> Recovery dec = rows_of (erased es) count \<and>
    Original dec = rows_of (\<lambda>i. \<not> erased es i) count \<and>
    (\<forall>i < length es. ErasuresIndices dec ! i = of_nat (rows_of (erased es) count ! i))"
  note len = erased_rows(1) [OF es(1,2)]
  have room: "count + length es \<le> 256" using es(3) count by linarith
  have idx: "if erased es i then count \<le> unat (Index (decoder_blocks params count es ! i))
      else Index (decoder_blocks params count es ! i) = of_nat i" if "i < count" for i
  proof (cases "erased es i")
    case True
    then obtain t where "t < length es" "i = unat (es ! t)" by (auto simp: erased_def in_set_conv_nth)
    then show ?thesis
      using decoder_blocks_nth(2) [OF es(1,2) params(1), of t] room True
      by (simp add: unat_of_nat_u8 del: of_nat_add)
  qed (simp add: decoder_blocks_nth(3) [OF es(1,2) params(1) that])
  have init: "\<exists>dec. Initialize params (decoder_blocks params count es) mem = Some dec \<and> ?Q dec \<and>
      length (Recovery dec) = length es" if "length mem = 256" for mem
    using Initialize_rows [OF params(1) _ decoder_blocks_nth(1) [OF es(1,2) params(1)] that idx] count(3) len
    by auto
  obtain dec matrix k2 where dec: "Params dec = params" "Recovery dec = rows_of (erased es) count"
      "Original dec = rows_of (\<lambda>i. \<not> erased es i) count"
      "\<forall>i < length es. ErasuresIndices dec ! i = of_nat (rows_of (erased es) count ! i)"
      "4 \<le> length matrix"
      "alloc_ok k2" "cauchy_rs_decode c params (data', parity) es k =
        Some (0, if es = [] then (data', parity) else
          (case Decode c dec matrix (decoder_blocks params count es, (data', parity)) of (blocks, bufs) \<Rightarrow>
            copy_back n (\<lambda>i. Block (blocks ! i)) bufs count), k2)"
    using decode_dispatch [where Q = ?Q, OF k params(1,2) _ count(2,3) _ init es(3), of c "(data', parity)"]
      count params(3) by auto
  have "\<exists>bufs. cauchy_rs_decode c params (data', parity) es k = Some (0, bufs, k2) \<and>
    length (fst bufs) = count \<and> (\<forall>j < count. take n (fst bufs ! j) = take n (D ! j))"
  proof (cases "es = []")
    case True
    then show ?thesis using dec(7) data(1,3) by simp
  next
    case False
    then have N: "length es = 1 \<or> length es = 2" using es(3) by (cases es; cases "tl es") auto
    obtain blocks' bufs' where out: "Decode c dec matrix (decoder_blocks params count es, (data', parity)) = (blocks', bufs')"
        "same_shape (data', parity) (copy_back n (\<lambda>i. Block (blocks' ! i)) bufs' count)"
        "\<forall>j < count. \<forall>pos < n. val (copy_back n (\<lambda>i. Block (blocks' ! i)) bufs' count) (Data j) pos = Gfc (D ! j ! pos)"
      using decoded [OF c es(1,2) params(1) n room N enc dec(1-5)] by blast
    obtain d p where dp: "copy_back n (\<lambda>i. Block (blocks' ! i)) bufs' count = (d, p)" by fastforce
    have "j < length d \<longleftrightarrow> j < length data'" for j
      using same_shape_ref [OF out(2), of "Data j"] by (simp add: dp)
    then have len: "length d = count" using data(1) by (metis linorder_neqE_nat less_irrefl)
    have "take n (d ! j) = take n (D ! j)" if j: "j < count" for j
    proof (rule take_eqI)
      have "ref_ok (data', parity) (Data j)" using j data(1) by simp
      then have "length (load (d, p) (Data j)) = length (load (data', parity) (Data j))"
        using out(2) unfolding dp same_shape_def by blast
      then show "n \<le> length (d ! j)" using j data by simp
      show "n \<le> length (D ! j)" using j D by simp
      show "d ! j ! i = D ! j ! i" if "i < n" for i
        using out(3) j that unfolding dp by (simp add: val_def)
    qed
    then show ?thesis using dec(7) out(1) dp False len by simp
  qed
  then show ?thesis using dec(6) by (auto simp: parity_def)
qed

text \<open>C9: losing any two data blocks is recoverable: when the original blocks are encoded with two or
  more recovery blocks, at most two of the data blocks are then overwritten arbitrarily and listed as
  erasures, \<open>cauchy_rs_decode\<close> succeeds and leaves the original contents in every data block.\<close>

theorem cauchy_rs_roundtrip:
  assumes c: "gf_ready c" and k: "alloc_ok k"
    and params: "OriginalCount params = int count" "RecoveryCount params = int recovery" "BlockBytes params = int n"
    and count: "2 \<le> count" "2 \<le> recovery" "count + recovery \<le> 256" "0 < n"
    and D: "length D = count" "\<forall>d \<in> set D. n \<le> length d"
    and P: "length P = recovery" "\<forall>p \<in> set P. n \<le> length p"
    and es: "distinct es" "\<forall>e \<in> set es. unat e < count" "length es \<le> 2"
    and data: "length data' = count" "\<forall>d \<in> set data'. n \<le> length d"
      "\<forall>j < count. j \<notin> unat ` set es \<longrightarrow> data' ! j = D ! j"
  shows "\<exists>parity k1 bufs k2. cauchy_rs_encode c params D P k = (0, parity, k1) \<and>
    cauchy_rs_decode c params (data', parity) es k1 = Some (0, bufs, k2) \<and>
    (\<forall>j < count. take n (fst bufs ! j) = take n (D ! j))"
proof -
  have pos: "0 < count" "0 < recovery" using count by simp_all
  from cauchy_encodes [OF k params this count(3,4)] obtain k1 where
    "alloc_ok k1" "cauchy_rs_encode c params D P k = (0, computed_parity c params D P, k1)" by blast
  then show ?thesis using cauchy_restores [OF c _ params count D P es data, of k1] by blast
qed

theorem cauchy_rs_roundtrip_witness:
  "\<exists>parity k1 bufs k2. cauchy_rs_encode (snd (gf_init True gf_ctx_zero))
      \<lparr>OriginalCount = 3, RecoveryCount = 2, BlockBytes = 2\<rparr> [[1, 2], [3, 4], [5, 6]] [[0, 0], [9, 9]] demo_kernel =
      (0, parity, k1) \<and>
    cauchy_rs_decode (snd (gf_init True gf_ctx_zero)) \<lparr>OriginalCount = 3, RecoveryCount = 2, BlockBytes = 2\<rparr>
      ([[7, 7], [3, 4], [8, 8]], parity) [0, 2] k1 = Some (0, bufs, k2) \<and>
    (\<forall>j < 3. take 2 (fst bufs ! j) = take 2 ([[1, 2], [3, 4], [5, 6]] ! j))"
  by (rule cauchy_rs_roundtrip [where recovery = 2])
    (use gf_init_ready(2) [of gf_ctx_zero True] in
      \<open>auto simp: gf_ctx_zero_def alloc_ok_def demo_kernel_def less_Suc_eq numeral_3_eq_3\<close>)


section \<open>A single recovery block\<close>

lemma m1_loop_val:
  assumes "bufs_ok n bufs" and "ref_ok bufs out"
    and "\<forall>ob \<in> set obs. Block (blocks ! ob) \<noteq> out \<and> ref_ok bufs (Block (blocks ! ob))"
    and "\<forall>b. p = Some b \<longrightarrow> b \<noteq> out \<and> ref_ok bufs b"
  shows "same_shape bufs (m1_loop n blocks out p obs bufs) \<and>
    (\<forall>q. q \<noteq> out \<longrightarrow> load (m1_loop n blocks out p obs bufs) q = load bufs q) \<and>
    (\<forall>pos < n. val (m1_loop n blocks out p obs bufs) out pos =
       val bufs out pos + (case p of None \<Rightarrow> 0 | Some b \<Rightarrow> val bufs b pos) +
       (\<Sum>ob\<leftarrow>obs. val bufs (Block (blocks ! ob)) pos))"
  using assms
proof (induction n blocks out p obs bufs rule: m1_loop.induct)
  case (1 n blocks out bufs)
  then show ?case by simp
next
  case (2 n blocks out b bufs)
  then have "n \<le> length (load bufs out)" "n \<le> length (load bufs b)" by (auto simp: bufs_ok_def)
  then show ?case
    using 2 by (simp add: same_shape_store load_store val_def gf_add_mem_bytewise xor_Gfc)
next
  case (3 n blocks out ob obs bufs)
  then show ?case by (simp add: add.assoc)
next
  case (4 n blocks out b ob obs bufs)
  let ?b = "Block (blocks ! ob)"
  let ?bufs = "store bufs out (gf_add2_mem (load bufs out) (load bufs b) (load bufs ?b) n)"
  have len: "n \<le> length (load bufs out)" "n \<le> length (load bufs b)" "n \<le> length (load bufs ?b)"
    using "4.prems" by (auto simp: bufs_ok_def)
  then have shape: "same_shape bufs ?bufs"
    using "4.prems" by (intro same_shape_store) (simp_all add: gf_add2_mem_bytewise)
  have v: "val ?bufs q pos = (if q = out then val bufs out pos + val bufs b pos + val bufs ?b pos else val bufs q pos)"
    if "pos < n" for q pos
    using that len "4.prems" by (simp add: val_def load_store gf_add2_mem_bytewise xor_Gfc add.assoc)
  have IH: "same_shape ?bufs (m1_loop n blocks out None obs ?bufs) \<and>
    (\<forall>q. q \<noteq> out \<longrightarrow> load (m1_loop n blocks out None obs ?bufs) q = load ?bufs q) \<and>
    (\<forall>pos < n. val (m1_loop n blocks out None obs ?bufs) out pos =
       val ?bufs out pos + 0 + (\<Sum>ob\<leftarrow>obs. val ?bufs (Block (blocks ! ob)) pos))"
    using "4.IH" "4.prems" same_shape_ok [OF shape] same_shape_ref [OF shape] by simp
  have "(\<Sum>ob\<leftarrow>obs. val ?bufs (Block (blocks ! ob)) pos) = (\<Sum>ob\<leftarrow>obs. val bufs (Block (blocks ! ob)) pos)"
    if "pos < n" for pos
    using "4.prems"(3) by (intro arg_cong [where f = sum_list] map_cong refl) (simp add: v [OF that])
  then show ?case
    using IH same_shape_trans [OF shape] "4.prems" by (simp add: v load_store add.assoc)
qed

lemma m1_loop_data: "fst (m1_loop n blocks (Parity t) p obs bufs) = fst bufs"
  by (induction n blocks "Parity t" p obs bufs rule: m1_loop.induct) (auto split: prod.splits simp: prod_eq_iff)

text \<open>with one recovery block the decoder rebuilds the lost block, but in the caller's recovery
  block: \<open>cauchy_rs_decode\<close> returns 0 with all data blocks as they were given to it, the lost one
  included.\<close>

theorem cauchy_m1_left_in_parity:
  assumes k: "alloc_ok k"
    and params: "OriginalCount params = int count" "RecoveryCount params = 1" "BlockBytes params = int n"
    and count: "2 \<le> count" "count < 256" "0 < n"
    and D: "length D = count" "\<forall>d \<in> set D. n \<le> length d" and p: "n \<le> length p" and e: "unat e < count"
    and data: "length data' = count" "\<forall>d \<in> set data'. n \<le> length d"
      "\<forall>j < count. j \<noteq> unat e \<longrightarrow> data' ! j = D ! j"
  shows "\<exists>parity k1 parity' k2. cauchy_rs_encode c params D [p] k = (0, parity, k1) \<and>
    cauchy_rs_decode c params (data', parity) [e] k1 = Some (0, (data', parity'), k2) \<and>
    take n (parity' ! 0) = take n (D ! unat e)"
proof -
  have n: "nat (BlockBytes params) = n" using params(3) by simp
  have D': "\<forall>j < count. n \<le> length (D ! j)" using D by simp
  define q where "q = cauchy_rs_encode_block c params D (int count) p"
  have q: "length q = length p" "\<forall>pos < n. Gfc (q ! pos) = (\<Sum>j < count. Gfc (D ! j ! pos))"
    using encode_block_first [OF D' p count(1) order_refl] params(1) count(1) n
    by (simp_all add: q_def cauchy_rs_encode_block_def)
  obtain k1 where enc: "cauchy_rs_encode c params D [p] k = (0, [q], k1)" "alloc_ok k1"
    using encode_parity [of params k c D "[p]"] params count k D(1) by (auto simp: q_def)
  let ?bufs = "(data', [q])" and ?blocks = "decoder_blocks params count [e]"
  have es: "distinct [e]" "\<forall>x \<in> set [e]. unat x < count" using e by simp_all
  note nth = decoder_blocks_nth [OF es params(1)]
  have er: "erased [e] j \<longleftrightarrow> j = unat e" for j by (auto simp: erased_def)
  define os where "os = rows_of (\<lambda>i. \<not> erased [e] i) count"
  have R: "rows_of (erased [e]) count = [unat e]"
    using erased_rows(1,2) [OF es] by (cases "rows_of (erased [e]) count") auto
  have idx: "if erased [e] i then count \<le> unat (Index (?blocks ! i)) else Index (?blocks ! i) = of_nat i"
    if "i < count" for i
    using nth(2) [of 0] nth(3) [OF that] count(2) by (simp add: er unat_of_nat_u8)
  let ?mem = "sub (map (k_junk k1 (k_allocs k1)) [0..<4384]) 4124 256"
  obtain dec where dec: "Initialize params ?blocks ?mem = Some dec" "Params dec = params"
      "Recovery dec = [unat e]" "Original dec = os"
    using Initialize_rows [OF params(1) _ nth(1) _ idx, of ?mem] count(2) R by (auto simp: os_def)
  let ?out = "m1_loop n ?blocks (Parity 0) None os ?bufs"
  let ?k2 = "k1\<lparr>k_allocs := Suc (Suc (k_allocs k1))\<rparr>"
  have run: "cauchy_rs_decode c params ?bufs [e] k1 = Some (0, ?out, ?k2)"
    using enc(2) params count dec nth(2) [of 0] n
    by (simp add: cauchy_rs_decode_def kmalloc_alloc_ok decoder_blocks_def [symmetric] Let_def DecodeM1_def)
  have ok: "bufs_ok n ?bufs"
    unfolding bufs_ok_def
  proof (intro allI impI)
    show "n \<le> length (load ?bufs r)" if "ref_ok ?bufs r" for r
      using that data p q(1) by (cases r) simp_all
  qed
  have os: "Block (?blocks ! j) = Data j" "j < count" "j \<noteq> unat e" if "j \<in> set os" for j
    using that nth(3) [of j] by (auto simp: os_def rows_of_def er)
  have "\<forall>ob \<in> set os. Block (?blocks ! ob) \<noteq> Parity 0 \<and> ref_ok ?bufs (Block (?blocks ! ob))"
    using os data(1) by simp
  from m1_loop_val [OF ok _ this, of None, simplified]
  have out: "same_shape ?bufs ?out" "\<And>q. q \<noteq> Parity 0 \<Longrightarrow> load ?out q = load ?bufs q"
      "\<And>pos. pos < n \<Longrightarrow> val ?out (Parity 0) pos = val ?bufs (Parity 0) pos +
        (\<Sum>ob\<leftarrow>os. val ?bufs (Block (?blocks ! ob)) pos)" by simp_all
  obtain d' p' where dp: "?out = (d', p')" by fastforce
  have "d' = data'" using m1_loop_data [of n ?blocks 0 None os ?bufs] by (simp add: dp)
  moreover have "take n (p' ! 0) = take n (D ! unat e)"
  proof (rule take_eqI)
    have "ref_ok ?bufs (Parity 0)" by simp
    then have "length (load ?out (Parity 0)) = length q" using out(1) unfolding same_shape_def by fastforce
    then show "n \<le> length (p' ! 0)" using p q(1) by (simp add: dp)
    show "n \<le> length (D ! unat e)" using D e by simp
    show "p' ! 0 ! i = D ! unat e ! i" if i: "i < n" for i
    proof -
      have "(\<Sum>ob\<leftarrow>os. val ?bufs (Block (?blocks ! ob)) i) = (\<Sum>ob\<leftarrow>os. Gfc (D ! ob ! i))"
        using os data(3) by (intro arg_cong [where f = sum_list] map_cong refl) (simp add: val_def)
      then have "Gfc (p' ! 0 ! i) = (\<Sum>j < count. Gfc (D ! j ! i)) + (\<Sum>ob\<leftarrow>os. Gfc (D ! ob ! i))"
        using out(3) [OF i] q(2) i by (simp add: val_def dp)
      also have "\<dots> = Gfc (D ! unat e ! i)"
        by (simp add: sum_rows [of _ count "erased [e]"] os_def R add.assoc gfc_char2(1))
      finally show ?thesis by simp
    qed
  qed
  ultimately show ?thesis using enc(1) run dp by auto
qed

theorem cauchy_m1_left_in_parity_witness:
  "\<exists>parity k1 parity' k2. cauchy_rs_encode gf_ctx_zero
      \<lparr>OriginalCount = 2, RecoveryCount = 1, BlockBytes = 1\<rparr> [[5], [6]] [[0]] demo_kernel = (0, parity, k1) \<and>
    cauchy_rs_decode gf_ctx_zero \<lparr>OriginalCount = 2, RecoveryCount = 1, BlockBytes = 1\<rparr> ([[5], [0]], parity) [1] k1 =
      Some (0, ([[5], [0]], parity'), k2) \<and>
    take 1 (parity' ! 0) = take 1 ([[5], [6]] ! unat (1 :: u8))"
  by (rule cauchy_m1_left_in_parity [where count = 2])
    (auto simp: alloc_ok_def demo_kernel_def less_Suc_eq numeral_2_eq_2)

section \<open>The tables before initialisation, and the error returns\<close>

lemma zero_tables [simp]: "gf_div gf_ctx_zero x y = 0" "GetMatrixElement gf_ctx_zero x x0 y = 0"
  by (simp_all add: gf_div_def GetMatrixElement_def gf_ctx_zero_def)

lemma encode_block_zero_tables:
  assumes "2 \<le> OriginalCount params" and "n = nat (BlockBytes params)" and "0 < i"
  shows "cauchy_rs_encode_block gf_ctx_zero params D (OriginalCount params + int i) z = blit z 0 (replicate n 0)"
proof -
  have "foldl (\<lambda>block j. gf_muladd_mem gf_ctx_zero block 0 (D ! j) n) b js = b" for b js
    by (induction js) (simp_all add: gf_muladd_mem_def)
  then show ?thesis
    using assms by (simp add: cauchy_rs_encode_block_def Let_def gf_mul_mem_def)
qed

text \<open>the tables of GF(256) are computed by \<open>gf_init\<close>, which the module never calls. On the
  zeroed tables \<open>cauchy_rs_encode\<close> still reports success, and every recovery block but the first
  is all zeros whatever the data is.\<close>

theorem encode_without_gf_init:
  assumes "alloc_ok k" and params: "OriginalCount params = int count" "RecoveryCount params = int recovery" "BlockBytes params = int n"
    and "2 \<le> count" "count + recovery \<le> 256" "0 < n" "0 < recovery"
    and P: "length P = recovery" "\<forall>p \<in> set P. n \<le> length p" and i: "0 < i" "i < recovery"
  shows "\<exists>parity k1. cauchy_rs_encode gf_ctx_zero params D P k = (0, parity, k1) \<and>
    take n (parity ! i) = replicate n 0"
proof -
  let ?row = "\<lambda>i z. cauchy_rs_encode_block gf_ctx_zero params (take (nat (OriginalCount params)) D)
    (OriginalCount params + int i) z"
  let ?parity = "foldl (\<lambda>parity block. parity[block := ?row block (parity ! block)]) P [0..<recovery]"
  have "?parity ! i = blit (P ! i) 0 (replicate n 0)"
    using foldl_update [of recovery P ?row] P(1) i encode_block_zero_tables [of params n i] assms by simp
  moreover have "\<exists>k1. cauchy_rs_encode gf_ctx_zero params D P k = (0, ?parity, k1)"
    using encode_parity [of params k gf_ctx_zero D P] assms by auto
  ultimately show ?thesis by (auto simp: blit_def)
qed

theorem encode_without_gf_init_witness:
  "\<exists>parity k1. cauchy_rs_encode gf_ctx_zero \<lparr>OriginalCount = 2, RecoveryCount = 2, BlockBytes = 2\<rparr>
      [[1, 2], [3, 4]] [[0, 0], [9, 9]] demo_kernel = (0, parity, k1) \<and> take 2 (parity ! 1) = replicate 2 0"
  by (rule encode_without_gf_init [where count = 2 and recovery = 2]) (simp_all add: alloc_ok_def demo_kernel_def)

text \<open>the parameters are rejected with -1 when a count or the block size is not positive and
  with -2 when there are more than 256 blocks; no allocation failure is reported before these
  checks, and on every error return the buffers are as they were.\<close>

theorem cauchy_rs_parameter_checks:
  "(OriginalCount params \<le> 0 \<or> RecoveryCount params \<le> 0 \<or> BlockBytes params \<le> 0 \<longrightarrow>
      (\<exists>k'. cauchy_rs_encode c params D P k = (- 1, P, k')) \<and> (\<exists>k'. cauchy_rs_decode c params (D, P) es k = Some (- 1, (D, P), k'))) \<and>
   (0 < OriginalCount params \<and> 0 < RecoveryCount params \<and> 0 < BlockBytes params \<and>
      256 < OriginalCount params + RecoveryCount params \<longrightarrow>
      (\<exists>k'. cauchy_rs_encode c params D P k = (- 2, P, k')) \<and> (\<exists>k'. cauchy_rs_decode c params (D, P) es k = Some (- 2, (D, P), k'))) \<and>
   (fst (cauchy_rs_encode c params D P k) \<noteq> 0 \<longrightarrow> fst (snd (cauchy_rs_encode c params D P k)) = P) \<and>
   (\<forall>r bufs k'. cauchy_rs_decode c params (D, P) es k = Some (r, bufs, k') \<and> r \<noteq> 0 \<longrightarrow> bufs = (D, P))"
proof (intro conjI impI allI)
  show "bufs = (D, P)" if "cauchy_rs_decode c params (D, P) es k = Some (r, bufs, k') \<and> r \<noteq> 0" for r bufs k'
    using that by (auto simp: cauchy_rs_decode_def Let_def split: prod.splits option.splits if_splits)
qed (auto simp: cauchy_rs_encode_def cauchy_rs_decode_def split: prod.splits)

theorem cauchy_rs_parameter_checks_witness:
  "\<exists>k'. cauchy_rs_decode gf_ctx_zero \<lparr>OriginalCount = 200, RecoveryCount = 57, BlockBytes = 1\<rparr> ([], []) [] demo_kernel =
     Some (- 2, ([], []), k')"
  using cauchy_rs_parameter_checks [of "\<lparr>OriginalCount = 200, RecoveryCount = 57, BlockBytes = 1\<rparr>" gf_ctx_zero "[]" "[]" demo_kernel "[]"]
  by simp

end
