(* ===== verification/Afs_Sha3.thy ===== *)
theory Afs_Sha3
  imports Afs_Prelude
begin

text \<open>
  SHA3-256, \<open>src/src/lib/sha3.c\<close>: the Keccak permutation on a state of 25 words, the padding of the
  message and the sponge. The lanes of the state are compared with the formulas of FIPS 202, the
  padded message with the byte-wise padding of SHA3.
\<close>

section \<open>The permutation\<close>

definition R_bits :: int where
  "R_bits = 1088"

definition SHA3_ROTL64 :: "u64 \<Rightarrow> nat \<Rightarrow> u64" where
  "SHA3_ROTL64 x y = push_bit y x OR drop_bit (64 - y) x"

definition keccakf_rndc :: "u64 list" where
  "keccakf_rndc = [
    0x0000000000000001, 0x0000000000008082, 0x800000000000808a,
    0x8000000080008000, 0x000000000000808b, 0x0000000080000001,
    0x8000000080008081, 0x8000000000008009, 0x000000000000008a,
    0x0000000000000088, 0x0000000080008009, 0x000000008000000a,
    0x000000008000808b, 0x800000000000008b, 0x8000000000008089,
    0x8000000000008003, 0x8000000000008002, 0x8000000000000080,
    0x000000000000800a, 0x800000008000000a, 0x8000000080008081,
    0x8000000000008080, 0x0000000080000001, 0x8000000080008008]"

definition keccakf_piln :: "nat list" where
  "keccakf_piln = [10, 7, 11, 17, 18, 3, 5, 16, 8, 21, 24, 4, 15, 23, 19, 13, 12, 2, 20,
    14, 22, 9, 6, 1]"

definition keccakf_rotc :: "nat list" where
  "keccakf_rotc = [1, 3, 6, 10, 15, 21, 28, 36, 45, 55, 2, 14, 27, 41, 56, 8, 25, 43, 62,
    18, 39, 61, 20, 44]"

definition theta :: "u64 list \<Rightarrow> u64 list" where
  "theta s =
     (let bc = map (\<lambda>i. s ! i XOR s ! (i + 5) XOR s ! (i + 10) XOR s ! (i + 15) XOR s ! (i + 20)) [0..<5]
      in foldl (\<lambda>s i. let t = bc ! ((i + 4) mod 5) XOR SHA3_ROTL64 (bc ! ((i + 1) mod 5)) 1
           in foldl (\<lambda>s j. s[j + i := s ! (j + i) XOR t]) s [0, 5, 10, 15, 20]) s [0..<5])"

definition rho_pi_step :: "u64 list \<times> u64 \<Rightarrow> nat \<Rightarrow> u64 list \<times> u64" where
  "rho_pi_step st i = (case st of (s, t) \<Rightarrow>
     let j = keccakf_piln ! i in (s[j := SHA3_ROTL64 t (keccakf_rotc ! i)], s ! j))"

definition rho_pi :: "u64 list \<Rightarrow> u64 list" where
  "rho_pi s = fst (foldl rho_pi_step (s, s ! 1) [0..<24])"

definition chi :: "u64 list \<Rightarrow> u64 list" where
  "chi s = foldl (\<lambda>s j. let bc = map (\<lambda>i. s ! (j + i)) [0..<5]
     in foldl (\<lambda>s i. s[j + i := s ! (j + i) XOR (NOT (bc ! ((i + 1) mod 5)) AND bc ! ((i + 2) mod 5))]) s [0..<5])
     s [0, 5, 10, 15, 20]"

definition iota :: "nat \<Rightarrow> u64 list \<Rightarrow> u64 list" where
  "iota round s = s[0 := s ! 0 XOR keccakf_rndc ! round]"

definition keccak_f :: "u64 list \<Rightarrow> u64 list" where
  "keccak_f s = foldl (\<lambda>s round. iota round (chi (rho_pi (theta s)))) s [0..<24]"

section \<open>The digest\<close>

text \<open>\<open>kcalloc\<close> of words: zeroed memory. The code does not check it; \<open>None\<close> is the null pointer it
  would write through.\<close>

definition kcalloc :: "nat \<Rightarrow> kernel \<Rightarrow> u64 list option \<times> kernel" where
  "kcalloc n k = (case kmalloc (8 * n) k of (m, k) \<Rightarrow> (map_option (\<lambda>_. replicate n 0) m, k))"

definition sha_pad :: "bytes \<Rightarrow> u64 list \<Rightarrow> u64 list" where
  "sha_pad message padded =
     (let len = length message;
          bit_len = int len * 8 + 2;
          pad_len = ((- (bit_len mod R_bits)) + R_bits) mod R_bits;
          or_word = (\<lambda>p i (w :: u64). p[i := p ! i OR w]);
          padded = u64s (length padded) (blit (u64s_bytes padded) 0 message);
          padded = or_word padded (len div 8) (push_bit ((len mod 8) * 8) 2);
          padded = or_word padded (nat (bit_len div 64)) (push_bit (nat (bit_len mod 64)) 1)
      in or_word padded (nat ((bit_len + pad_len - 1) div 64)) (push_bit (nat ((bit_len + pad_len - 1) mod 64)) 1))"

definition sha_blocks :: "nat \<Rightarrow> nat" where
  "sha_blocks len = (let bit_len = int len * 8 + 2;
     pad_len = ((- (bit_len mod R_bits)) + R_bits) mod R_bits in nat ((bit_len + pad_len) div 64))"

definition sha_absorb :: "nat \<Rightarrow> u64 list \<Rightarrow> u64 list \<Rightarrow> u64 list" where
  "sha_absorb num_p P d = foldl (\<lambda>d i. keccak_f (foldl (\<lambda>d j. d[j := d ! j XOR P ! (25 * i + j)]) d [0..<25]))
     d [0..<num_p]"

definition sha3_256 :: "bytes \<Rightarrow> kernel \<Rightarrow> bytes option \<times> kernel" where
  "sha3_256 message k =
     (let num_blocks = sha_blocks (length message) in
      case kcalloc num_blocks k of (None, k) \<Rightarrow> (None, k) | (Some padded, k) \<Rightarrow>
        let padded = sha_pad message padded; num_p = num_blocks div 17 in
        case kcalloc (num_p * 25) k of (None, k) \<Rightarrow> (None, k) | (Some P, k) \<Rightarrow>
          let P = foldl (\<lambda>P i. blit P (i * 25) (sub padded (i * 17) 17)) P [0..<num_p] in
          case kcalloc 25 k of (None, k) \<Rightarrow> (None, k) | (Some d, k) \<Rightarrow>
            (Some (take 32 (u64s_bytes (sha_absorb num_p P d))), k))"


section \<open>The lanes of the permutation\<close>

lemma SHA3_ROTL64_0 [simp]: "SHA3_ROTL64 x 0 = x"
  by (intro bit_word_eqI) (auto simp: SHA3_ROTL64_def bit_simps dest: bit_imp_le_length)

lemma state_cases:
  assumes "length (s :: u64 list) = 25"
  obtains s0 s1 s2 s3 s4 s5 s6 s7 s8 s9 s10 s11 s12 s13 s14 s15 s16 s17 s18 s19 s20 s21 s22 s23 s24
  where "s = [s0, s1, s2, s3, s4, s5, s6, s7, s8, s9, s10, s11, s12, s13, s14, s15, s16, s17, s18,
    s19, s20, s21, s22, s23, s24]"
proof -
  have "s = map (\<lambda>i. s ! i) [0..<25]" by (rule nth_equalityI) (simp_all add: assms)
  then show thesis using that by (simp add: upt_rec)
qed

text \<open>The rotation offset of a lane, by the walk through the lanes that FIPS 202 defines it with.\<close>

fun rho_walk :: "nat \<Rightarrow> nat \<times> nat" where
  "rho_walk 0 = (1, 0)"
| "rho_walk (Suc t) = (case rho_walk t of (x, y) \<Rightarrow> (y, (2 * x + 3 * y) mod 5))"

definition rho_offset :: "nat \<Rightarrow> nat \<Rightarrow> nat" where
  "rho_offset x y = (case find (\<lambda>t. rho_walk t = (x, y)) [0..<24] of
     None \<Rightarrow> 0 | Some t \<Rightarrow> (t + 1) * (t + 2) div 2 mod 64)"

definition column :: "u64 list \<Rightarrow> nat \<Rightarrow> u64" where
  "column s x = s ! x XOR s ! (x + 5) XOR s ! (x + 10) XOR s ! (x + 15) XOR s ! (x + 20)"

lemma theta_list:
  "length s = 25 \<Longrightarrow> theta s = map (\<lambda>i. s ! i XOR column s ((i mod 5 + 4) mod 5) XOR
     SHA3_ROTL64 (column s ((i mod 5 + 1) mod 5)) 1) [0..<25]"
  by (erule state_cases) (simp add: theta_def Let_def column_def upt_rec xor.assoc)


lemma chi_list:
  "length s = 25 \<Longrightarrow> chi s = map (\<lambda>i. s ! i XOR
     (NOT (s ! (i div 5 * 5 + (i mod 5 + 1) mod 5)) AND s ! (i div 5 * 5 + (i mod 5 + 2) mod 5))) [0..<25]"
  by (erule state_cases) (simp add: chi_def Let_def upt_rec)

lemma rho_offset_values:
  "map (\<lambda>i. rho_offset ((i mod 5 + 3 * (i div 5)) mod 5) (i mod 5)) [0..<25] =
     [0, 44, 43, 21, 14, 28, 20, 3, 45, 61, 1, 6, 25, 8, 18, 27, 36, 10, 15, 56, 62, 55, 39, 41, 2]"
  by code_simp

lemma rho_pi_list:
  assumes "length s = 25"
  shows "rho_pi s = map (\<lambda>i. SHA3_ROTL64 (s ! (i mod 5 * 5 + (i mod 5 + 3 * (i div 5)) mod 5))
     (rho_offset ((i mod 5 + 3 * (i div 5)) mod 5) (i mod 5))) [0..<25]"
proof -
  have "rho_pi s = map2 SHA3_ROTL64 (map (\<lambda>i. s ! (i mod 5 * 5 + (i mod 5 + 3 * (i div 5)) mod 5)) [0..<25])
      [0, 44, 43, 21, 14, 28, 20, 3, 45, 61, 1, 6, 25, 8, 18, 27, 36, 10, 15, 56, 62, 55, 39, 41, 2]"
    using assms
    by (elim state_cases) (simp add: rho_pi_def rho_pi_step_def keccakf_piln_def keccakf_rotc_def upt_rec)
  then show ?thesis unfolding rho_offset_values [symmetric] by (simp add: map2_map_map)
qed

text \<open>each step of \<open>keccak_f\<close> computes the lanes that FIPS 202 prescribes, lane \<open>(x, y)\<close> being
  word \<open>5 y + x\<close>: \<open>theta\<close> adds the parities of two neighbouring columns, the in-place walk of rho and
  pi sends lane \<open>(x, y)\<close>, rotated by its offset, to lane \<open>(y, 2 x + 3 y)\<close>, and \<open>chi\<close> combines each
  row.\<close>

theorem keccak_lanes:
  assumes "length s = 25" and "x < 5" and "y < 5"
  shows "theta s ! (5 * y + x) = s ! (5 * y + x) XOR column s ((x + 4) mod 5) XOR
      SHA3_ROTL64 (column s ((x + 1) mod 5)) 1 \<and>
    rho_pi s ! (5 * ((2 * x + 3 * y) mod 5) + y) = SHA3_ROTL64 (s ! (5 * y + x)) (rho_offset x y) \<and>
    chi s ! (5 * y + x) = s ! (5 * y + x) XOR
      (NOT (s ! (5 * y + (x + 1) mod 5)) AND s ! (5 * y + (x + 2) mod 5))"
proof -
  have i: "5 * y + x < 25" "(5 * y + x) mod 5 = x" "(5 * y + x) div 5 = y" using assms by auto
  have j: "5 * ((2 * x + 3 * y) mod 5) + y < 25" using assms(3) by (auto simp: pos_mod_bound
        intro!: le_less_trans [of _ "5 * 4 + 4"] add_mono mult_mono less_Suc_eq_le [THEN iffD1])
  have src: "(y + 3 * ((2 * x + 3 * y) mod 5)) mod 5 = x"
  proof -
    have "(y + 3 * ((2 * x + 3 * y) mod 5)) mod 5 = (y + 3 * (2 * x + 3 * y)) mod 5"
      by (metis mod_add_right_eq mod_mult_right_eq)
    also have "y + 3 * (2 * x + 3 * y) = x + 5 * (x + 2 * y)" by simp
    finally have "(y + 3 * ((2 * x + 3 * y) mod 5)) mod 5 = (x + 5 * (x + 2 * y)) mod 5" .
    then show ?thesis using assms(2) by (simp only: mod_mult_self2 mod_less)
  qed
  have "rho_pi s ! (5 * ((2 * x + 3 * y) mod 5) + y) = SHA3_ROTL64 (s ! (5 * y + x)) (rho_offset x y)"
    using assms j src by (simp add: rho_pi_list mult.commute)
  then show ?thesis using assms i by (simp add: theta_list chi_list mult.commute)
qed

theorem keccak_lanes_witness:
  "rho_pi (map of_nat [0..<25]) ! (5 * ((2 * 1 + 3 * 1) mod 5) + 1) =
     SHA3_ROTL64 (map of_nat [0..<25] ! (5 * 1 + 1)) (rho_offset 1 1)"
  using keccak_lanes [of "map of_nat [0..<25]" 1 1] by simp


section \<open>The padded message\<close>

text \<open>Padding a message to whole blocks of 136 bytes, byte by byte.\<close>

definition sha3_pad :: "bytes \<Rightarrow> bytes" where
  "sha3_pad m = (let q = 136 - length m mod 136 in
     m @ (if q = 1 then [0x86] else 0x06 # replicate (q - 2) 0 @ [0x80]))"

lemma sha_lengths:
  fixes L :: nat
  defines "T \<equiv> 136 * (L div 136 + 1)"
  shows "(int L * 8 + 2) + ((- ((int L * 8 + 2) mod R_bits)) + R_bits) mod R_bits = 8 * int T"
    and "sha_blocks L = T div 8" and "T div 8 div 17 = L div 136 + 1" and "8 * (T div 8) = T"
proof -
  define a b where "a = int (L div 136)" and "b = int (L mod 136)"
  have L: "int L = 136 * a + b" using mult_div_mod_eq [of 136 L] unfolding a_def b_def by linarith
  have b: "0 \<le> b" "b < 136" by (simp_all add: b_def)
  have m: "(int L * 8 + 2) mod R_bits = 8 * b + 2"
  proof -
    have "int L * 8 + 2 = (8 * b + 2) + a * R_bits" by (simp add: L R_bits_def)
    then have "(int L * 8 + 2) mod R_bits = (8 * b + 2) mod R_bits" by (simp only: mod_mult_self1)
    then show ?thesis using b by (simp add: R_bits_def)
  qed
  have "(- (8 * b + 2) + R_bits) mod R_bits = 1086 - 8 * b" using b by (simp add: R_bits_def)
  then show 4: "(int L * 8 + 2) + ((- ((int L * 8 + 2) mod R_bits)) + R_bits) mod R_bits = 8 * int T"
    unfolding m by (simp add: L T_def a_def)
  show "sha_blocks L = T div 8" unfolding sha_blocks_def Let_def 4 by (simp add: T_def nat_div_distrib)
  show "T div 8 div 17 = L div 136 + 1" "8 * (T div 8) = T" by (simp_all add: T_def)
qed

lemma le_bytes_or:
  assumes "r < 8"
  shows "le_bytes 8 ((w :: u64) OR push_bit (8 * r) (ucast b)) = (le_bytes 8 w)[r := le_bytes 8 w ! r OR b]"
proof (rule nth_equalityI)
  fix i assume "i < length (le_bytes 8 (w OR push_bit (8 * r) (ucast b)))"
  then have i: "i < 8" by simp
  show "le_bytes 8 (w OR push_bit (8 * r) (ucast b)) ! i = (le_bytes 8 w)[r := le_bytes 8 w ! r OR b] ! i"
  proof (rule bit_word_eqI)
    fix n assume n: "n < LENGTH(8)"
    have "bit (push_bit (8 * r) (ucast b) :: u64) (8 * i + n) \<longleftrightarrow> i = r \<and> bit b n"
    proof (cases "i = r")
      case True
      then show ?thesis using n assms by (auto simp: bit_simps dest: bit_imp_le_length)
    next
      case False
      then have "8 * i + n < 8 * r \<or> 8 \<le> 8 * i + n - 8 * r" using n by auto
      then have "\<not> bit b (8 * i + n - 8 * r) \<or> 8 * i + n < 8 * r" using bit_imp_le_length [of b] by force
      then show ?thesis using False by (auto simp: bit_simps)
    qed
    then show "bit (le_bytes 8 (w OR push_bit (8 * r) (ucast b)) ! i) n =
        bit ((le_bytes 8 w)[r := le_bytes 8 w ! r OR b] ! i) n"
      using i n assms by (auto simp: bit_nth_le_bytes nth_list_update bit_or_iff)
  qed
qed simp

lemma u64s_bytes_or:
  assumes "i < 8 * length ws"
  shows "u64s_bytes (ws[i div 8 := ws ! (i div 8) OR push_bit (8 * (i mod 8)) (ucast b)]) =
    (u64s_bytes ws)[i := u64s_bytes ws ! i OR b]"
  using assms
proof (induction ws arbitrary: i)
  case (Cons w ws)
  show ?case
  proof (cases "i < 8")
    case True
    then show ?thesis by (simp add: u64s_bytes_def le_bytes_or list_update_append nth_append)
  next
    case False
    then obtain j where j: "i = j + 8" using le_add_diff_inverse2 [of 8 i] by (metis not_less)
    moreover have "(j + 8) div 8 = Suc (j div 8)" by simp
    ultimately show ?thesis
      using Cons.IH [of j] Cons.prems by (simp add: u64s_bytes_def list_update_append nth_append)
  qed
qed simp


lemma u64s_bytes_replicate [simp]: "u64s_bytes (replicate n 0) = replicate (8 * n) 0"
proof -
  have "le_bytes 8 (0 :: u64) = replicate 8 0" by (simp add: le_bytes_def map_replicate_const)
  then show ?thesis by (induction n) (simp_all add: u64s_bytes_def replicate_add)
qed

lemma bit_position:
  assumes "c < 8"
  shows "nat ((8 * int a + int c) div 64) = a div 8" and "nat ((8 * int a + int c) mod 64) = 8 * (a mod 8) + c"
proof -
  have eq: "8 * a + c = (8 * (a mod 8) + c) + 64 * (a div 8)" using mult_div_mod_eq [of 8 a] by linarith
  have "a mod 8 < 8" by simp
  then have "8 * (a mod 8) + c < 64" using assms by linarith
  moreover have "(x + 64 * y) mod 64 = x \<and> (x + 64 * y) div 64 = y" if "x < 64" for x y :: nat
    using that by simp
  ultimately have "(8 * a + c) mod 64 = 8 * (a mod 8) + c" "(8 * a + c) div 64 = a div 8"
    using eq by metis+
  moreover have "8 * int a + int c = int (8 * a + c)" by simp
  moreover have "nat (int x div 64) = x div 64" "nat (int x mod 64) = x mod 64" for x
    by (simp_all add: nat_div_distrib nat_mod_distrib)
  ultimately show "nat ((8 * int a + int c) div 64) = a div 8" "nat ((8 * int a + int c) mod 64) = 8 * (a mod 8) + c"
    by metis+
qed

lemma sha_pad_bytes:
  assumes "n = sha_blocks (length m)"
  shows "u64s_bytes (sha_pad m (replicate n 0)) = sha3_pad m" and "length (sha_pad m (replicate n 0)) = n"
proof -
  define L T where "L = length m" and "T = 136 * (L div 136 + 1)"
  note len = sha_lengths [of L, folded T_def]
  have "L mod 136 < 136" by simp
  then have T: "T = L + (136 - L mod 136)" "L < T"
    using minus_mod_eq_mult_div [of L 136] mod_less_eq_dividend [of L 136] unfolding T_def by auto
  have n: "8 * n = T" using assms len(2,4) by (simp add: L_def)
  define w0 where "w0 = u64s n (blit (replicate (8 * n) 0) 0 m)"
  have w0: "length w0 = n" "u64s_bytes w0 = m @ replicate (T - L) 0"
    using T n by (simp_all add: w0_def u64s_bytes_u64s blit_def L_def)
  define w1 where "w1 = w0[L div 8 := w0 ! (L div 8) OR push_bit (8 * (L mod 8)) (ucast (2 :: u8))]"
  define w2 where "w2 = w1[L div 8 := w1 ! (L div 8) OR push_bit (8 * (L mod 8)) (ucast (4 :: u8))]"
  define w3 where "w3 = w2[(T - 1) div 8 := w2 ! ((T - 1) div 8) OR push_bit (8 * ((T - 1) mod 8)) (ucast (0x80 :: u8))]"
  note p1 = bit_position [of 2 L, simplified]
  have "8 * int (T - 1) + 7 = 8 * int T - 1" using T by simp
  note p2 = bit_position [of 7 "T - 1", unfolded of_nat_numeral this, simplified]
  have "push_bit (8 * a + 2) (1 :: u64) = push_bit (8 * a) (ucast (4 :: u8))"
    "push_bit (8 * a + 7) (1 :: u64) = push_bit (8 * a) (ucast (0x80 :: u8))" for a
    using push_bit_push_bit [of "8 * a" 2 "1 :: u64"] push_bit_push_bit [of "8 * a" 7 "1 :: u64"]
    by (simp_all add: push_bit_eq_mult [of 2] push_bit_eq_mult [of 7])
  then have "sha_pad m (replicate n 0) = w3"
    unfolding sha_pad_def Let_def L_def [symmetric] len(1)
    by (simp add: w0_def [symmetric] w1_def w2_def w3_def p1 p2 mult.commute [of "int L"] mult.commute [of _ 8])
  moreover have w1: "u64s_bytes w1 = m @ 2 # replicate (T - L - 1) 0" "length w1 = n"
  proof -
    have "u64s_bytes w1 = (u64s_bytes w0)[L := u64s_bytes w0 ! L OR 2]"
      unfolding w1_def by (rule u64s_bytes_or) (use T n w0 in simp)
    then show "u64s_bytes w1 = m @ 2 # replicate (T - L - 1) 0"
      using T(2) w0 by (cases "T - L") (simp_all add: list_update_append nth_append L_def)
  qed (simp add: w1_def w0)
  moreover have w2: "u64s_bytes w2 = m @ 6 # replicate (T - L - 1) 0" "length w2 = n"
  proof -
    have "u64s_bytes w2 = (u64s_bytes w1)[L := u64s_bytes w1 ! L OR 4]"
      unfolding w2_def by (rule u64s_bytes_or) (use T n w1 in simp)
    then show "u64s_bytes w2 = m @ 6 # replicate (T - L - 1) 0"
      using w1 by (simp add: list_update_append nth_append L_def)
  qed (simp add: w2_def w1)
  moreover have "u64s_bytes w3 = sha3_pad m"
  proof -
    have "u64s_bytes w3 = (u64s_bytes w2)[T - 1 := u64s_bytes w2 ! (T - 1) OR 0x80]"
      unfolding w3_def by (rule u64s_bytes_or) (use T(2) n w2(2) in linarith)
    moreover obtain q where q: "T = L + Suc q" using T(2) less_imp_Suc_add by auto
    moreover have "136 - L mod 136 = Suc q" using T(1) q by simp
    ultimately show ?thesis
      using w2(1) unfolding sha3_pad_def L_def [symmetric] Let_def
      by (cases q) (simp_all add: list_update_append nth_append L_def replicate_append_same [symmetric] nth_Cons')
  qed
  ultimately show "u64s_bytes (sha_pad m (replicate n 0)) = sha3_pad m" by simp
  show "length (sha_pad m (replicate n 0)) = n" by (simp add: sha_pad_def Let_def)
qed


section \<open>The sponge\<close>

text \<open>SHA3-256 on bytes: each block of 136 bytes is added to the first 17 lanes, then the state is
  permuted; the digest is the first four lanes.\<close>

definition sponge :: "bytes \<Rightarrow> u64 list" where
  "sponge p = foldl (\<lambda>d i. keccak_f (map2 (XOR) d (u64s 17 (sub p (136 * i) 136) @ replicate 8 0)))
     (replicate 25 0) [0..<length p div 136]"

lemma length_sha3_pad: "length (sha3_pad m) = 136 * (length m div 136 + 1)"
proof -
  define a b where "a = length m div 136" and "b = length m mod 136"
  have "length m = 136 * a + b" "b < 136" by (simp_all add: a_def b_def)
  then show ?thesis unfolding sha3_pad_def Let_def a_def [symmetric] b_def [symmetric] by auto
qed

lemma foldl_xor:
  assumes "length d = n"
  shows "foldl (\<lambda>d j. d[j := d ! j XOR f j]) d [0..<n] = map2 (XOR) d (map f [0..<n])"
proof -
  have "m \<le> n \<Longrightarrow> foldl (\<lambda>d j. d[j := d ! j XOR f j]) d [0..<m] =
      map2 (XOR) (take m d) (map f [0..<m]) @ drop m d" for m
  proof (induction m)
    case (Suc m)
    then have "drop m d = d ! m # drop (Suc m) d" using assms by (simp add: Cons_nth_drop_Suc)
    then show ?case
      using Suc assms by (simp add: list_update_append take_Suc_conv_app_nth nth_append)
  qed simp
  from this [of n] show ?thesis using assms by simp
qed

lemma u64s_sub:
  "17 * i + 17 \<le> length ws \<Longrightarrow> u64s 17 (sub (u64s_bytes ws) (136 * i) 136) = sub ws (i * 17) 17"
proof -
  assume a: "17 * i + 17 \<le> length ws"
  have split: "u64s_bytes (xs @ ys) = u64s_bytes xs @ u64s_bytes ys" for xs ys by (simp add: u64s_bytes_def)
  have "u64s_bytes ws = u64s_bytes (take (i * 17) ws) @ u64s_bytes (sub ws (i * 17) 17) @ u64s_bytes (drop (i * 17 + 17) ws)"
    unfolding split [symmetric] sub_def
    by (metis append_take_drop_id drop_drop add.commute)
  moreover have "length (take (i * 17) ws) = i * 17" "length (sub ws (i * 17) 17) = 17" using a by simp_all
  ultimately have "sub (u64s_bytes ws) (136 * i) 136 = u64s_bytes (sub ws (i * 17) 17)"
    by (simp add: sub_def)
  then show ?thesis
    using u64s_u64s_bytes' [of "sub ws (i * 17) 17"] \<open>length (sub ws (i * 17) 17) = 17\<close> by simp
qed

lemma spread_blocks:
  assumes "17 * n \<le> length ws"
  shows "length (foldl (\<lambda>P i. blit P (i * 25) (sub ws (i * 17) 17)) (replicate (n * 25) 0) [0..<n]) = n * 25 \<and>
    (\<forall>i < n. map (\<lambda>j. foldl (\<lambda>P i. blit P (i * 25) (sub ws (i * 17) 17)) (replicate (n * 25) 0) [0..<n] ! (25 * i + j)) [0..<25] =
      sub ws (i * 17) 17 @ replicate 8 0)"
proof -
  let ?P = "\<lambda>m. foldl (\<lambda>P i. blit P (i * 25) (sub ws (i * 17) 17)) (replicate (n * 25) 0) [0..<m]"
  have "m \<le> n \<Longrightarrow> length (?P m) = n * 25 \<and> (\<forall>k < n * 25. ?P m ! k =
      (if k < m * 25 \<and> k mod 25 < 17 then ws ! (k div 25 * 17 + k mod 25) else 0))" for m
  proof (induction m)
    case (Suc m)
    then have IH: "length (?P m) = n * 25" "\<And>k. k < n * 25 \<Longrightarrow> ?P m ! k =
      (if k < m * 25 \<and> k mod 25 < 17 then ws ! (k div 25 * 17 + k mod 25) else 0)" by simp_all
    have s: "length (sub ws (m * 17) 17) = 17" using assms Suc.prems by simp
    have k: "?P (Suc m) ! k = (if k < Suc m * 25 \<and> k mod 25 < 17 then ws ! (k div 25 * 17 + k mod 25) else 0)"
      if k: "k < n * 25" for k
    proof (cases "m * 25 \<le> k \<and> k < m * 25 + 25")
      case True
      then obtain j where j: "k = m * 25 + j" "j < 25" by (metis add_less_cancel_left le_Suc_ex)
      then have "k div 25 = m" "k mod 25 = j" by simp_all
      then show ?thesis
        using IH k s j Suc.prems assms by (auto simp: nth_blit)
    next
      case False
      then show ?thesis using IH k s Suc.prems by (auto simp: nth_blit)
    qed
    then show ?case using IH(1) s Suc.prems by simp
  qed simp
  then have P: "length (?P n) = n * 25" "\<And>k. k < n * 25 \<Longrightarrow> ?P n ! k =
      (if k mod 25 < 17 then ws ! (k div 25 * 17 + k mod 25) else 0)" by auto
  have "map (\<lambda>j. ?P n ! (25 * i + j)) [0..<25] = sub ws (i * 17) 17 @ replicate 8 0" if i: "i < n" for i
  proof (rule nth_equalityI)
    have s: "length (sub ws (i * 17) 17) = 17" using assms i by simp
    then show "length (map (\<lambda>j. ?P n ! (25 * i + j)) [0..<25]) = length (sub ws (i * 17) 17 @ replicate 8 0)" by simp
    fix j assume "j < length (map (\<lambda>j. ?P n ! (25 * i + j)) [0..<25])"
    then have j: "j < 25" by simp
    have "25 * i + j < n * 25" using i j by simp
    then show "map (\<lambda>j. ?P n ! (25 * i + j)) [0..<25] ! j = (sub ws (i * 17) 17 @ replicate 8 0) ! j"
      using j s i assms by (simp add: P nth_append mult.commute)
  qed
  then show ?thesis using P(1) by blast
qed


lemma length_foldl_update: "length (foldl (\<lambda>s i. s[f i := g i s]) s is) = length s"
  by (induction "is" arbitrary: s) simp_all

lemma length_keccak_f: "length s = 25 \<Longrightarrow> length (keccak_f s) = 25"
proof -
  have "length s = 25 \<Longrightarrow> length (foldl (\<lambda>s round. iota round (chi (rho_pi (theta s)))) s rs) = 25" for rs
    by (induction rs arbitrary: s) (simp_all add: iota_def theta_list rho_pi_list chi_list)
  then show "length s = 25 \<Longrightarrow> length (keccak_f s) = 25" by (simp add: keccak_f_def)
qed

lemma absorb_sponge:
  assumes ws: "u64s_bytes ws = p" "17 * n = length ws"
  defines "P \<equiv> foldl (\<lambda>P i. blit P (i * 25) (sub ws (i * 17) 17)) (replicate (n * 25) 0) [0..<n]"
  shows "sha_absorb n P (replicate 25 0) = sponge p"
proof -
  have len: "length p div 136 = n" using ws by auto
  have "m \<le> n \<Longrightarrow> sha_absorb m P (replicate 25 0) =
      foldl (\<lambda>d i. keccak_f (map2 (XOR) d (u64s 17 (sub p (136 * i) 136) @ replicate 8 0))) (replicate 25 0) [0..<m] \<and>
      length (sha_absorb m P (replicate 25 0)) = 25" for m
  proof (induction m)
    case 0
    then show ?case by (simp add: sha_absorb_def)
  next
    case (Suc m)
    let ?d = "sha_absorb m P (replicate 25 0)"
    have IH: "?d = foldl (\<lambda>d i. keccak_f (map2 (XOR) d (u64s 17 (sub p (136 * i) 136) @ replicate 8 0)))
        (replicate 25 0) [0..<m]" and d: "length ?d = 25"
      using Suc.IH [OF Suc_leD [OF Suc.prems]] by blast+
    have "17 * m + 17 \<le> length ws" using Suc.prems ws(2) by simp
    note b = u64s_sub [OF this, unfolded ws(1)]
    have "map (\<lambda>j. P ! (25 * m + j)) [0..<25] = sub ws (m * 17) 17 @ replicate 8 0"
      using spread_blocks [of n ws] ws(2) Suc.prems by (simp add: P_def)
    then have "sha_absorb (Suc m) P (replicate 25 0) =
        keccak_f (map2 (XOR) ?d (u64s 17 (sub p (136 * m) 136) @ replicate 8 0))"
      using foldl_xor [OF d, of "\<lambda>j. P ! (25 * m + j)"] unfolding b by (simp add: sha_absorb_def)
    then show ?case using d unfolding upt_Suc foldl_append by (simp add: length_keccak_f IH [symmetric])
  qed
  from this [of n] show ?thesis by (simp add: sponge_def len)
qed

definition sha3_digest :: "bytes \<Rightarrow> bytes" where
  "sha3_digest m = take 32 (u64s_bytes (sponge (sha3_pad m)))"

lemma sha3_256_digest:
  assumes "alloc_ok k"
  shows "\<exists>k'. alloc_ok k' \<and> sha3_256 m k = (Some (sha3_digest m), k')"
proof -
  define n where "n = sha_blocks (length m)"
  note pad = sha_pad_bytes [OF n_def]
  have n17: "17 * (n div 17) = n"
    using sha_lengths(2,3) [of "length m"] by (simp add: n_def)
  have "u64s_bytes (sha_pad m (replicate n 0)) = sha3_pad m" "17 * (n div 17) = length (sha_pad m (replicate n 0))"
    using pad n17 by simp_all
  note abs = absorb_sponge [OF this]
  show ?thesis
    using assms abs by (simp add: sha3_256_def Let_def kcalloc_def kmalloc_alloc_ok sha3_digest_def n_def [symmetric])
qed

lemma length_sha3_digest [simp, afs_len]: "length (sha3_digest m) = 32"
proof -
  have "length d = 25 \<Longrightarrow> length (foldl (\<lambda>d i. keccak_f (map2 (XOR) d (u64s 17 (sub p (136 * i) 136) @ replicate 8 0))) d is) = 25" for d p "is"
    by (induction "is" arbitrary: d) (simp_all add: length_keccak_f)
  then show ?thesis by (simp add: sha3_digest_def sponge_def)
qed

text \<open>C13: \<open>sha3_256\<close> is the SHA3-256 sponge. When memory lasts, the digest of a message of any length
  is the first 32 bytes of the state after the message, padded with 0x06, zeros and 0x80 (or 0x86
  when one byte is free) to a whole number of 136-byte blocks, has been absorbed block by block; the
  word-wise padding and the copy into 25-word blocks of the code lose nothing.\<close>

theorem sha3_256_sponge:
  assumes "alloc_ok k"
  shows "\<exists>k'. alloc_ok k' \<and> sha3_256 m k = (Some (take 32 (u64s_bytes (sponge (sha3_pad m)))), k')"
  using sha3_256_digest [OF assms] by (simp add: sha3_digest_def)

theorem sha3_256_sponge_witness:
  "\<exists>k'. alloc_ok k' \<and> sha3_256 [1, 2, 3] demo_kernel = (Some (take 32 (u64s_bytes (sponge (sha3_pad [1, 2, 3])))), k')"
  by (rule sha3_256_sponge) (simp add: alloc_ok_def demo_kernel_def)

end
