(* ===== verification/Afs_Aont.thy ===== *)
theory Afs_Aont
  imports Afs_Speck Afs_Cauchy Afs_Sha3
begin

text \<open>
  The all-or-nothing transform with Reed-Solomon dispersal, \<open>src/src/lib/aont.c\<close>: the data is
  encrypted under a fresh key, the key masked with the hash of the ciphertext is appended, the package
  is cut into data shares and parity shares are computed from them. The outer \<open>option\<close> is \<open>None\<close>
  where the code faults (a division by zero, or a null pointer from an unchecked allocation).
\<close>

section \<open>The code\<close>

definition CANARY_SIZE :: nat where "CANARY_SIZE = 16"
definition KEY_SIZE :: nat where "KEY_SIZE = 32"

definition get_share_size :: "u64 \<Rightarrow> u64 \<Rightarrow> u64" where
  "get_share_size data_length data_blocks = (data_length + of_nat CANARY_SIZE + of_nat KEY_SIZE) div data_blocks"

text \<open>\<open>speck_ctr\<close> on byte buffers read through \<open>uint64_t *\<close>.\<close>

definition speck_ctr_bytes :: "bytes \<Rightarrow> bytes \<Rightarrow> nat \<Rightarrow> u64 list \<Rightarrow> u64 list \<Rightarrow> kernel \<Rightarrow> bytes \<times> kernel" where
  "speck_ctr_bytes inp out n key nonce k =
     (let w = length out div 8 in
      case speck_ctr (u64s (length inp div 8) inp) (u64s w out) n key nonce k of
        (ws, k) \<Rightarrow> (u64s_bytes ws @ drop (8 * w) out, k))"

definition encode_aont_package ::
  "gf_ctx \<Rightarrow> bytes \<Rightarrow> bytes \<Rightarrow> nat \<Rightarrow> bytes list \<Rightarrow> nat \<Rightarrow> nat \<Rightarrow> u64 list \<Rightarrow> kernel
     \<Rightarrow> (int \<times> bytes \<times> bytes list \<times> kernel) option" where
  "encode_aont_package c difference data data_length shares data_blocks parity_blocks nonce k =
     (let cipher_size = data_length;
          encrypted_payload_size = cipher_size + KEY_SIZE;
          rs_block_size = encrypted_payload_size div data_blocks
      in if data_blocks = 0 then None
      else case kmalloc encrypted_payload_size k of
        (None, k) \<Rightarrow> Some (- 1, difference, shares, k)
      | (Some plaintext_buffer, k) \<Rightarrow>
      case kmalloc encrypted_payload_size k of
        (None, k) \<Rightarrow> Some (- 1, difference, shares, k)
      | (Some ciphertext_buffer, k) \<Rightarrow>
      let plaintext_buffer = blit plaintext_buffer 0 (take data_length data);
          (random, k) = get_random_bytes 32 k;
          key = u64s 4 random;
          (ciphertext_buffer, k) = speck_ctr_bytes plaintext_buffer ciphertext_buffer cipher_size key nonce k;
          params = \<lparr>OriginalCount = int data_blocks, RecoveryCount = int parity_blocks, BlockBytes = int rs_block_size\<rparr>
      in case sha3_256 (take cipher_size ciphertext_buffer) k of
        (None, k) \<Rightarrow> None
      | (Some hash, k) \<Rightarrow>
      let difference = blit difference 0 (u64s_bytes (map2 (XOR) key (u64s 4 hash)));
          ciphertext_buffer = blit ciphertext_buffer cipher_size (take KEY_SIZE difference);
          shares = foldl (\<lambda>shares i. shares[i := blit (shares ! i) 0 (sub ciphertext_buffer (rs_block_size * i) rs_block_size)])
                     shares [0..<data_blocks];
          (ret, parity, k) = cauchy_rs_encode c params (take data_blocks shares) (drop data_blocks shares) k
      in Some (0, difference, take data_blocks shares @ parity, k))"

definition decode_aont_package ::
  "gf_ctx \<Rightarrow> bytes \<Rightarrow> bytes \<Rightarrow> nat \<Rightarrow> bytes list \<Rightarrow> nat \<Rightarrow> nat \<Rightarrow> u64 list \<Rightarrow> bytes \<Rightarrow> kernel
     \<Rightarrow> (int \<times> bytes \<times> bytes \<times> bytes list \<times> kernel) option" where
  "decode_aont_package c difference data data_length shares data_blocks parity_blocks nonce erasures k =
     (let cipher_size = data_length;
          encrypted_payload_size = cipher_size + KEY_SIZE;
          rs_block_size = encrypted_payload_size div data_blocks
      in if data_blocks = 0 then None
      else case kmalloc encrypted_payload_size k of
        (None, k) \<Rightarrow> Some (- 1, difference, data, shares, k)
      | (Some plaintext_buffer, k) \<Rightarrow>
      case kmalloc encrypted_payload_size k of
        (None, k) \<Rightarrow> Some (- 1, difference, data, shares, k)
      | (Some ciphertext_buffer, k) \<Rightarrow>
      let params = \<lparr>OriginalCount = int data_blocks, RecoveryCount = int parity_blocks, BlockBytes = int rs_block_size\<rparr>
      in case cauchy_rs_decode c params (take data_blocks shares, drop data_blocks shares) erasures k of
        None \<Rightarrow> None
      | Some (ret, (dataBlocks, parity), k) \<Rightarrow>
      let shares = dataBlocks @ parity;
          ciphertext_buffer = foldl (\<lambda>buf i. blit buf (rs_block_size * i) (take rs_block_size (shares ! i)))
                                ciphertext_buffer [0..<data_blocks]
      in case sha3_256 (take cipher_size ciphertext_buffer) k of
        (None, k) \<Rightarrow> None
      | (Some hash, k) \<Rightarrow>
      let difference = blit difference 0 (sub ciphertext_buffer cipher_size KEY_SIZE);
          key = map2 (XOR) (u64s 4 difference) (u64s 4 hash);
          (plaintext_buffer, k) = speck_ctr_bytes ciphertext_buffer plaintext_buffer cipher_size key nonce k
      in Some (ret, difference, blit data 0 (take data_length plaintext_buffer), shares, k))"

section \<open>The package\<close>

text \<open>The transform, for any stream cipher that undoes itself and any hash with digests of four words:
  the package determines the data without the key.\<close>

locale aont_cipher =
  fixes crypt :: "u64 list \<Rightarrow> u64 list \<Rightarrow> u64 list \<Rightarrow> u64 list" and digest :: "bytes \<Rightarrow> bytes"
  assumes crypt_crypt: "crypt key nonce (crypt key nonce ws) = ws"
    and length_crypt: "length (crypt key nonce ws) = length ws"
    and length_digest: "length (digest m) = 32"
begin

definition package :: "u64 list \<Rightarrow> u64 list \<Rightarrow> bytes \<Rightarrow> bytes" where
  "package key nonce data = (let ct = u64s_bytes (crypt key nonce (u64s (length data div 8) data)) in
     ct @ u64s_bytes (map2 (XOR) key (u64s 4 (digest ct))))"

definition unpackage :: "u64 list \<Rightarrow> bytes \<Rightarrow> bytes" where
  "unpackage nonce p = (let n = length p - 32; ct = take n p;
     key = map2 (XOR) (u64s 4 (drop n p)) (u64s 4 (digest ct))
   in u64s_bytes (crypt key nonce (u64s (n div 8) ct)))"

lemma length_package: "length key = 4 \<Longrightarrow> 8 dvd length data \<Longrightarrow> length (package key nonce data) = length data + 32"
  by (simp add: package_def Let_def length_crypt)

lemma map2_xor_cancel: "length a = length b \<Longrightarrow> map2 (XOR) (map2 (XOR) a b) b = (a :: u64 list)"
  by (induction a b rule: list_induct2) (simp_all add: xor.assoc)

lemma unpackage_package:
  assumes "length key = 4" and "8 dvd length data"
  shows "unpackage nonce (package key nonce data) = data"
proof -
  obtain n where n: "length data = 8 * n" using assms(2) by blast
  let ?ct = "u64s_bytes (crypt key nonce (u64s n data))" and ?d = "map2 (XOR) key (u64s 4 (digest (u64s_bytes (crypt key nonce (u64s n data)))))"
  have p: "package key nonce data = ?ct @ u64s_bytes ?d" by (simp add: package_def Let_def n)
  have len: "length (package key nonce data) - 32 = 8 * n" "length ?ct = 8 * n" "length ?d = 4"
    using assms n by (simp_all add: length_package length_crypt)
  have "u64s 4 (u64s_bytes ?d) = ?d" using u64s_u64s_bytes' [of ?d] unfolding len(3) .
  moreover have "map2 (XOR) ?d (u64s 4 (digest ?ct)) = key" using assms(1) by (intro map2_xor_cancel) simp
  moreover have "u64s n ?ct = crypt key nonce (u64s n data)"
    using u64s_u64s_bytes' [of "crypt key nonce (u64s n data)"] by (simp add: length_crypt)
  ultimately show ?thesis
    unfolding unpackage_def Let_def len(1) unfolding p
    by (simp add: len crypt_crypt u64s_bytes_u64s n length_crypt)
qed

end

interpretation ao: aont_cipher ctr_crypt sha3_digest
  by unfold_locales (simp_all add: ctr_crypt_involution)


section \<open>Buffers as words\<close>

lemma u64s_take: "8 * m \<le> n \<Longrightarrow> u64s m (take n bs) = u64s m bs"
proof (induction m arbitrary: n bs)
  case (Suc m)
  then have "u64s m (take (n - 8) (drop 8 bs)) = u64s m (drop 8 bs)" by simp
  then show ?case using Suc.prems by (simp add: min_def drop_take)
qed simp

lemma take_u64s: "m \<le> w \<Longrightarrow> take m (u64s w bs) = u64s m bs"
proof (induction w arbitrary: m bs)
  case (Suc w)
  then show ?case by (cases m) simp_all
qed simp

lemma drop_u64s: "m \<le> w \<Longrightarrow> drop m (u64s w bs) = u64s (w - m) (drop (8 * m) bs)"
proof (induction w arbitrary: m bs)
  case (Suc w)
  then show ?case by (cases m) (simp_all add: add.commute)
qed simp

lemma u64s_bytes_take: "8 * w \<le> length bs \<Longrightarrow> u64s_bytes (u64s w bs) = take (8 * w) bs"
  using u64s_bytes_u64s [of "take (8 * w) bs" w] by (simp add: u64s_take)

lemma u64s_bytes_append: "u64s_bytes (xs @ ys) = u64s_bytes xs @ u64s_bytes ys"
  by (simp add: u64s_bytes_def)

lemma speck_ctr_bytes_crypt:
  assumes "alloc_ok k" and "16 dvd n" and "n \<le> length inp" and "n \<le> length out"
  shows "\<exists>k'. alloc_ok k' \<and> speck_ctr_bytes inp out n key nonce k =
    (u64s_bytes (ctr_crypt key nonce (u64s (n div 8) (take n inp))) @ drop n out, k')"
proof -
  obtain m where m: "n = 8 * m" "even m" using assms(2) by (auto elim!: dvdE)
  let ?wi = "length inp div 8" and ?wo = "length out div 8"
  have le: "m \<le> ?wi" "m \<le> ?wo" using assms(3,4) m by auto
  obtain k' where k': "alloc_ok k'" "speck_ctr (u64s ?wi inp) (u64s ?wo out) n key nonce k =
      (ctr_crypt key nonce (take m (u64s ?wi inp)) @ drop m (u64s ?wo out), k')"
    using speck_ctr_crypt [of k n m "u64s ?wi inp" "u64s ?wo out" key nonce] assms(1) m le by auto
  have "u64s_bytes (u64s (?wo - m) (drop n out)) @ drop (8 * ?wo) out = drop n out"
  proof -
    have w: "8 * ?wo \<le> length out" by simp
    then have "u64s_bytes (u64s (?wo - m) (drop n out)) = take (8 * (?wo - m)) (drop n out)"
      using m by (intro u64s_bytes_take) (simp add: diff_mult_distrib2 diff_le_mono)
    moreover have "drop (8 * ?wo) out = drop (8 * (?wo - m)) (drop n out)"
      using le m by (simp add: diff_mult_distrib2)
    ultimately show ?thesis by (simp only: append_take_drop_id)
  qed
  then show ?thesis
    using k' le m by (simp add: speck_ctr_bytes_def Let_def take_u64s drop_u64s u64s_bytes_append u64s_take)
qed

lemma foldl_blit_chunks:
  assumes "\<And>i. i < m \<Longrightarrow> length (f i) = r" and "r * m \<le> length buf"
  shows "foldl (\<lambda>buf i. blit buf (r * i) (f i)) buf [0..<m] = concat (map f [0..<m]) @ drop (r * m) buf"
  using assms
proof (induction m)
  case (Suc m)
  have len: "length (concat (map f [0..<m])) = r * m"
    using Suc.prems(1) by (induction m) simp_all
  have "foldl (\<lambda>buf i. blit buf (r * i) (f i)) buf [0..<m] = concat (map f [0..<m]) @ drop (r * m) buf"
    using Suc by simp
  then show ?case using Suc.prems(1) [of m] len by (simp add: blit_def add.commute)
qed simp

lemma concat_chunks: "r * m \<le> length p \<Longrightarrow> concat (map (\<lambda>i. sub p (r * i) r) [0..<m]) = take (r * m) p"
proof (induction m)
  case (Suc m)
  then show ?case by (simp add: sub_def take_add [symmetric] add.commute)
qed simp

lemma foldl_share_update:
  assumes "m \<le> length shares"
  shows "foldl (\<lambda>shares i. shares[i := f i (shares ! i)]) shares [0..<m] =
    map (\<lambda>i. f i (shares ! i)) [0..<m] @ drop m shares"
proof -
  note u = foldl_update [OF assms, of f]
  show ?thesis using u assms by (intro nth_equalityI) (auto simp: nth_append)
qed

section \<open>Encoding and decoding\<close>

definition aont_params :: "nat \<Rightarrow> nat \<Rightarrow> nat \<Rightarrow> cauchy_encoder_params" where
  "aont_params db pb rs = \<lparr>OriginalCount = int db, RecoveryCount = int pb, BlockBytes = int rs\<rparr>"

definition data_shares :: "nat \<Rightarrow> nat \<Rightarrow> bytes \<Rightarrow> bytes list \<Rightarrow> bytes list" where
  "data_shares db rs pkg shares = map (\<lambda>i. blit (shares ! i) 0 (sub pkg (rs * i) rs)) [0..<db]"

lemma encode_package:
  assumes k: "alloc_ok k" and n: "16 dvd n" "n \<le> length data" "length difference = 32"
    and db: "0 < db" "0 < pb" "db + pb \<le> 256" "n + 32 = rs * db" and sh: "length shares = db + pb"
  shows "\<exists>key k'. length key = 4 \<and> alloc_ok k' \<and>
    (let pkg = ao.package key nonce (take n data); D = data_shares db rs pkg shares in
     encode_aont_package c difference data n shares db pb nonce k =
       Some (0, drop n pkg, D @ computed_parity c (aont_params db pb rs) D (drop db shares), k'))"
proof -
  define junk where "junk = map (k_junk k (k_allocs k)) [0..<n + 32]"
  define k2 where "k2 = k\<lparr>k_allocs := Suc (Suc (k_allocs k))\<rparr>"
  define junk2 where "junk2 = map (k_junk k (Suc (k_allocs k))) [0..<n + 32]"
  define pt where "pt = blit junk 0 (take n data)"
  have len: "length junk = n + 32" "length junk2 = n + 32" "length pt = n + 32" "take n pt = take n data"
    using n(2) by (simp_all add: junk_def junk2_def pt_def blit_def)
  obtain random k3 where rnd: "get_random_bytes 32 k2 = (random, k3)" by fastforce
  then have k3: "alloc_ok k3" using get_random_bytes_frame(5) [of 32 k2] k by (simp add: alloc_ok_def k2_def)
  define key where "key = u64s 4 random"
  obtain k4 where k4: "alloc_ok k4" "speck_ctr_bytes pt junk2 n key nonce k3 =
      (u64s_bytes (ctr_crypt key nonce (u64s (n div 8) (take n data))) @ drop n junk2, k4)"
    using speck_ctr_bytes_crypt [OF k3 n(1), of pt junk2 key nonce] len by auto
  define ct where "ct = u64s_bytes (ctr_crypt key nonce (u64s (n div 8) (take n data)))"
  have n8: "8 * (n div 8) = n" using n(1) by (auto elim!: dvdE)
  have lct: "length ct = n" by (simp add: ct_def n8)
  obtain k5 where k5: "alloc_ok k5" "sha3_256 ct k4 = (Some (sha3_digest ct), k5)"
    using sha3_256_digest [OF k4(1)] by blast
  let ?diff = "u64s_bytes (map2 (XOR) key (u64s 4 (sha3_digest ct)))"
  have pkg: "ao.package key nonce (take n data) = ct @ ?diff"
    using n(2) by (simp add: ao.package_def Let_def ct_def min_absorb2)
  have ldiff: "length ?diff = 32" by (simp add: key_def)
  define D where "D = data_shares db rs (ct @ ?diff) shares"
  have sh': "foldl (\<lambda>shares i. shares[i := blit (shares ! i) 0 (sub (ct @ ?diff) (rs * i) rs)]) shares [0..<db] =
      D @ drop db shares" "length D = db"
    using foldl_share_update [of db shares "\<lambda>i s. blit s 0 (sub (ct @ ?diff) (rs * i) rs)"] sh
    by (simp_all add: D_def data_shares_def)
  have "0 < rs" using db(4) by (cases rs) auto
  then obtain k6 where k6: "alloc_ok k6" "cauchy_rs_encode c (aont_params db pb rs) D (drop db shares) k5 =
      (0, computed_parity c (aont_params db pb rs) D (drop db shares), k6)"
    using cauchy_encodes [OF k5(1), of "aont_params db pb rs" db pb rs c D "drop db shares"] db
    by (auto simp: aont_params_def)
  have rs: "(n + 32) div db = rs" using db(1,4) by simp
  have "blit (ct @ drop n junk2) n ?diff = ct @ ?diff" "blit difference 0 ?diff = ?diff"
    using lct ldiff len(2) n(3) by (simp_all add: blit_def)
  then have "encode_aont_package c difference data n shares db pb nonce k =
      Some (0, ?diff, D @ computed_parity c (aont_params db pb rs) D (drop db shares), k6)"
    using k db(1) rnd k4(2) k5(2) k6(2) rs sh' lct ldiff
    by (simp add: encode_aont_package_def Let_def kmalloc_alloc_ok KEY_SIZE_def junk_def [symmetric]
        junk2_def [symmetric] k2_def [symmetric] pt_def [symmetric] key_def [symmetric] ct_def [symmetric]
        aont_params_def [symmetric])
  moreover have "length key = 4" by (simp add: key_def)
  ultimately show ?thesis
    using k6(1) lct by (intro exI [of _ key] exI [of _ k6]) (simp add: pkg D_def Let_def)
qed


lemma decode_package:
  assumes k: "alloc_ok k" and n: "16 dvd n" "n \<le> length data" "length difference = 32"
    and db: "0 < db" "n + 32 = rs * db" and pkg: "length pkg = n + 32"
    and dec: "\<And>k. alloc_ok k \<Longrightarrow> \<exists>d p k'. alloc_ok k' \<and>
      cauchy_rs_decode c (aont_params db pb rs) (take db shares, drop db shares) es k = Some (0, (d, p), k') \<and>
      (\<forall>j < db. take rs ((d @ p) ! j) = sub pkg (rs * j) rs)"
  shows "\<exists>shares' k'. decode_aont_package c difference data n shares db pb nonce es k =
    Some (0, drop n pkg, ao.unpackage nonce pkg @ drop n data, shares', k')"
proof -
  define junk where "junk = map (k_junk k (k_allocs k)) [0..<n + 32]"
  define k2 where "k2 = k\<lparr>k_allocs := Suc (Suc (k_allocs k))\<rparr>"
  define junk2 where "junk2 = map (k_junk k (Suc (k_allocs k))) [0..<n + 32]"
  have len: "length junk = n + 32" "length junk2 = n + 32" by (simp_all add: junk_def junk2_def)
  have "alloc_ok k2" using k by (simp add: k2_def)
  then obtain d p k3 where k3: "alloc_ok k3"
      "cauchy_rs_decode c (aont_params db pb rs) (take db shares, drop db shares) es k2 = Some (0, (d, p), k3)"
      "\<forall>j < db. take rs ((d @ p) ! j) = sub pkg (rs * j) rs"
    using dec by blast
  have rs: "(n + 32) div db = rs" using db by simp
  have chunk: "rs * i + rs \<le> n + 32" if "i < db" for i
  proof -
    have "Suc i * rs \<le> db * rs" using that by (intro mult_le_mono1) simp
    then show ?thesis using db(2) by (simp add: mult.commute)
  qed
  have "foldl (\<lambda>buf i. blit buf (rs * i) (take rs ((d @ p) ! i))) junk2 [0..<db] =
      foldl (\<lambda>buf i. blit buf (rs * i) (sub pkg (rs * i) rs)) junk2 [0..<db]"
    using k3(3) by (intro foldl_cong) simp_all
  also have "\<dots> = concat (map (\<lambda>i. sub pkg (rs * i) rs) [0..<db]) @ drop (rs * db) junk2"
    using chunk pkg len(2) db(2) by (intro foldl_blit_chunks) simp_all
  also have "\<dots> = pkg" using pkg len(2) db(2) by (simp add: concat_chunks)
  finally have buf: "foldl (\<lambda>buf i. blit buf (rs * i) (take rs ((d @ p) ! i))) junk2 [0..<db] = pkg" .
  obtain k4 where k4: "alloc_ok k4" "sha3_256 (take n pkg) k3 = (Some (sha3_digest (take n pkg)), k4)"
    using sha3_256_digest [OF k3(1)] by blast
  have diff: "blit difference 0 (sub pkg n 32) = drop n pkg"
    using n(3) pkg by (simp add: blit_def sub_def)
  define key where "key = map2 (XOR) (u64s 4 (drop n pkg)) (u64s 4 (sha3_digest (take n pkg)))"
  obtain k5 where k5: "speck_ctr_bytes pkg junk n key nonce k4 =
      (u64s_bytes (ctr_crypt key nonce (u64s (n div 8) (take n pkg))) @ drop n junk, k5)"
    using speck_ctr_bytes_crypt [OF k4(1) n(1), of pkg junk key nonce] len pkg by auto
  have un: "u64s_bytes (ctr_crypt key nonce (u64s (n div 8) (take n pkg))) = ao.unpackage nonce pkg"
    using pkg by (simp add: ao.unpackage_def Let_def key_def)
  have n8: "8 * (n div 8) = n" using n(1) by (auto elim!: dvdE)
  have lun: "length (ao.unpackage nonce pkg) = n" unfolding un [symmetric] by (simp add: n8)
  have "decode_aont_package c difference data n shares db pb nonce es k =
    Some (0, drop n pkg, blit data 0 (ao.unpackage nonce pkg), d @ p, k5)"
    using k db(1) k3(2) k4(2) k5 rs buf diff lun
    by (simp add: decode_aont_package_def Let_def kmalloc_alloc_ok KEY_SIZE_def junk_def [symmetric]
        junk2_def [symmetric] k2_def [symmetric] aont_params_def [symmetric] key_def [symmetric] un)
  then show ?thesis using lun by (simp add: blit_def)
qed

lemma decode_no_erasures:
  assumes "alloc_ok k" "length D = db" "0 < db" "0 < pb" "db + pb \<le> 256" "0 < rs"
  shows "\<exists>k'. alloc_ok k' \<and> cauchy_rs_decode c (aont_params db pb rs) (D, P) [] k = Some (0, (D, P), k')"
proof -
  let ?ps = "aont_params db pb rs"
  let ?blocks = "map (\<lambda>i. \<lparr>Block = Data i, Index = cauchy_get_original_block_index ?ps i\<rparr>) [0..<db]"
  define st where "st = map (k_junk k (k_allocs k)) [0..<4384]"
  have "length (sub st 4124 256) = 256" by (simp add: st_def)
  then obtain dec where dec: "Initialize ?ps ?blocks (sub st 4124 256) = Some dec" "Recovery dec = []"
    using Initialize_rows [of ?ps db ?blocks "sub st 4124 256" "\<lambda>_. False"] assms(5)
    by (auto simp: aont_params_def cauchy_get_original_block_index_def rows_of_def)
  have p: "OriginalCount ?ps = int db" "RecoveryCount ?ps = int pb" "BlockBytes ?ps = int rs" by (simp_all add: aont_params_def)
  have "set_erasures ?ps [] bs = bs" for bs by (simp add: set_erasures_def)
  then show ?thesis
    using assms dec by (simp add: cauchy_rs_decode_def kmalloc_alloc_ok p Let_def st_def [symmetric])
qed

text \<open>C10: a package can be unpacked, and with the tables of \<open>cauchy_init\<close> it survives the loss of two shares. Encoding
  a block of data whose length is a multiple of 16 into \<open>data_blocks\<close> shares of equal size with at least two
  parity shares succeeds; whatever then replaces up to two data shares, decoding with these shares listed as
  erasures succeeds and returns the data (the key is recovered from the shares themselves). The theorem asks for the
  tables (\<open>gf_ready\<close>, which \<open>gf_init\<close> establishes) unless no share is listed as lost: the module never calls
  \<open>cauchy_init\<close>, and on its zero tables only the packages that lost nothing are known to come back.\<close>

theorem aont_roundtrip:
  assumes c: "es = [] \<or> gf_ready c" and k: "alloc_ok k" and n: "16 dvd n" "n = length data" "length difference = 32"
    and db: "2 \<le> db" "2 \<le> pb" "db + pb \<le> 256" "n + 32 = rs * db"
    and sh: "length shares = db + pb" "\<forall>s \<in> set shares. rs \<le> length s"
    and es: "distinct es" "\<forall>e \<in> set es. unat e < db" "length es \<le> 2"
    and damage: "\<forall>i. i \<notin> unat ` set es \<longrightarrow> damage i = id" "\<forall>i s. length (damage i s) = length s"
  shows "\<exists>diff shares1 k1 shares2 k2.
    encode_aont_package c difference data n shares db pb nonce k = Some (0, diff, shares1, k1) \<and>
    decode_aont_package c difference (replicate n 0) n (map2 damage [0..<db + pb] shares1) db pb nonce es k1 =
      Some (0, diff, data, shares2, k2)"
proof -
  have pos: "0 < db" "0 < pb" using db by simp_all
  obtain key k1 where key: "length key = 4" "alloc_ok k1"
      "(let pkg = ao.package key nonce (take n data); D = data_shares db rs pkg shares in
       encode_aont_package c difference data n shares db pb nonce k =
         Some (0, drop n pkg, D @ computed_parity c (aont_params db pb rs) D (drop db shares), k1))"
    using encode_package [OF k n(1) _ n(3) pos db(3,4) sh(1), of data nonce c] n(2) by auto
  define pkg where "pkg = ao.package key nonce data"
  define D where "D = data_shares db rs pkg shares"
  define P where "P = computed_parity c (aont_params db pb rs) D (drop db shares)"
  have enc: "encode_aont_package c difference data n shares db pb nonce k = Some (0, drop n pkg, D @ P, k1)"
    using key(3) n(2) by (simp add: Let_def D_def P_def pkg_def)
  have "8 dvd length data" using n(1,2) by (auto elim!: dvdE)
  then have pkg: "length pkg = n + 32" "ao.unpackage nonce pkg = data"
    using ao.length_package [OF key(1)] ao.unpackage_package [OF key(1)] n(2) by (simp_all add: pkg_def)
  have D: "length D = db" "\<forall>j < db. take rs (D ! j) = sub pkg (rs * j) rs" "\<forall>j < db. length (D ! j) = length (shares ! j)"
    "\<forall>d \<in> set D. rs \<le> length d"
  proof -
    have chunk: "length (sub pkg (rs * j) rs) = rs" if "j < db" for j
    proof -
      have "Suc j * rs \<le> db * rs" using that by (intro mult_le_mono1) simp
      then show ?thesis using db(4) pkg(1) by (simp add: mult.commute)
    qed
    show "length D = db" by (simp add: D_def data_shares_def)
    show 2: "\<forall>j < db. take rs (D ! j) = sub pkg (rs * j) rs" using chunk by (simp add: D_def data_shares_def blit_def)
    show 3: "\<forall>j < db. length (D ! j) = length (shares ! j)" using chunk sh by (simp add: D_def data_shares_def)
    show "\<forall>d \<in> set D. rs \<le> length d" using 3 sh by (fastforce simp: \<open>length D = db\<close> in_set_conv_nth [of _ D])
  qed
  let ?S = "map2 damage [0..<db + pb] (D @ P)"
  have P: "length P = pb" using sh(1) by (simp add: P_def)
  have not_es: "i \<notin> unat ` set es" if "db \<le> i" for i using es(2) that by fastforce
  have S: "take db ?S = map2 damage [0..<db] D" "drop db ?S = P"
  proof -
    show "take db ?S = map2 damage [0..<db] D" using D(1) by (simp add: take_map take_zip)
    show "drop db ?S = P"
      using D(1) P damage(1) not_es by (intro nth_equalityI) (auto simp: nth_append)
  qed
  let ?D' = "map2 damage [0..<db] D"
  have D': "length ?D' = db" "\<forall>d \<in> set ?D'. rs \<le> length d" "\<forall>j < db. j \<notin> unat ` set es \<longrightarrow> ?D' ! j = D ! j"
    using D(1,4) damage by (auto simp: in_set_zip)
  have params: "OriginalCount (aont_params db pb rs) = int db" "RecoveryCount (aont_params db pb rs) = int pb"
      "BlockBytes (aont_params db pb rs) = int rs" by (simp_all add: aont_params_def)
  have rs: "0 < rs" using db(4) by (cases rs) auto
  have P0: "length (drop db shares) = pb" "\<forall>p \<in> set (drop db shares). rs \<le> length p"
    using sh by (auto dest: in_set_dropD)
  have dec: "\<exists>d p k'. alloc_ok k' \<and>
      cauchy_rs_decode c (aont_params db pb rs) (take db ?S, drop db ?S) es k = Some (0, (d, p), k') \<and>
      (\<forall>j < db. take rs ((d @ p) ! j) = sub pkg (rs * j) rs)" if ok: "alloc_ok k" for k
  proof (cases "gf_ready c")
    case True
    then show ?thesis
      using cauchy_restores [OF True ok params db(1-3) rs D(1,4) P0 es D', folded P_def] D(2)
      unfolding S by (fastforce simp: nth_append)
  next
    case False
    then have es: "es = []" using c by simp
    then have "?D' = D" using D(1) damage(1) by (intro nth_equalityI) simp_all
    then show ?thesis
      using decode_no_erasures [OF ok D(1) pos db(3) rs, of c P] D(1,2) unfolding S es by (auto simp: nth_append)
  qed
  obtain shares2 k2 where "decode_aont_package c difference (replicate n 0) n ?S db pb nonce es k1 =
      Some (0, drop n pkg, ao.unpackage nonce pkg @ drop n (replicate n 0), shares2, k2)"
    using decode_package [OF key(2) n(1) _ n(3) pos(1) db(4) pkg(1) dec, of "replicate n 0" nonce] by auto
  then show ?thesis using enc pkg(2) by simp
qed

theorem aont_roundtrip_witness:
  "\<exists>diff shares1 k1 shares2 k2.
    encode_aont_package (snd (gf_init True gf_ctx_zero)) (replicate 32 0) (replicate 16 7) 16
      (replicate 5 (replicate 16 0)) 3 2 [1, 2] demo_kernel = Some (0, diff, shares1, k1) \<and>
    decode_aont_package (snd (gf_init True gf_ctx_zero)) (replicate 32 0) (replicate 16 0) 16
      (map2 (\<lambda>i. if i = 0 \<or> i = 2 then map (\<lambda>_. 9) else id) [0..<3 + 2] shares1) 3 2 [1, 2] [0, 2] k1 =
      Some (0, diff, replicate 16 7, shares2, k2)"
  by (rule aont_roundtrip [where rs = 16])
    (use gf_init_ready(2) [of gf_ctx_zero True] in
      \<open>auto simp: gf_ctx_zero_def alloc_ok_def demo_kernel_def\<close>)

end
