(* ===== verification/Afs_Crypto.thy ===== *)
theory Afs_Crypto
  imports Afs_Gfshare Afs_Crc_Tables
begin

text \<open>
  Checksums and digests, \<open>src/src/dm_afs_crypto.c\<close>: CRC32 by slices of eight bytes, CRC16 bit by
  bit, a digest built from Speck, and the calls of the kernel crypto API, which are parameters of the
  kernel record.
\<close>

section \<open>The code\<close>

definition SPECK_BLOCK_SIZE :: nat where
  "SPECK_BLOCK_SIZE = 16"

definition speck_encrypt_128 :: "u64 \<times> u64 \<Rightarrow> u64 \<times> u64 \<Rightarrow> u64 \<times> u64" where
  "speck_encrypt_128 pt K =
     (let y = fst pt; x = snd pt; b = fst K; a = snd K;
          (x, y) = R_macro x y b;
          (x, y, b, a) = foldl (\<lambda>(x, y, b, a) i.
             let (a, b) = R_macro a b (of_nat i); (x, y) = R_macro x y b in (x, y, b, a))
             (x, y, b, a) [0..<31]
      in (y, x))"

text \<open>One round of the loop: the words read from the data are overwritten before they are used.\<close>

definition speck_hash_step :: "bytes \<Rightarrow> (u64 \<times> u64) \<times> (u64 \<times> u64) \<times> nat \<Rightarrow> (u64 \<times> u64) \<times> (u64 \<times> u64) \<times> nat" where
  "speck_hash_step data st = (case st of ((h0, h1), (c0, c1), j) \<Rightarrow>
     let temp = (le_word (sub data (8 * j) 8) :: u64, le_word (sub data (8 * (j + 1)) 8) :: u64);
         temp = speck_encrypt_128 (c0, c1) (0, 0);
         c0 = c0 + 1
     in ((h0 XOR fst temp, h1 XOR snd temp), (c0, if c0 = 0 then c1 + 1 else c1), j + 2))"

definition speck_128_hash :: "bytes \<Rightarrow> nat \<Rightarrow> bytes" where
  "speck_128_hash data data_length =
     (let rounds = unat (of_nat (data_length div SPECK_BLOCK_SIZE) :: u32);
          ((h0, h1), ctr, j) = (speck_hash_step data ^^ rounds) ((0, 0), (0, 0), 0)
      in le_bytes 8 h0 @ le_bytes 8 h1)"

definition crc32_tail :: "u32 \<Rightarrow> u8 \<Rightarrow> u32" where
  "crc32_tail crc b = drop_bit 8 crc XOR crc32Lookup 0 ! unat ((crc AND 0xFF) XOR ucast b)"

function crc32_loop :: "bytes \<Rightarrow> u32 \<Rightarrow> u32" where
  "crc32_loop data crc =
     (if 8 \<le> length data
      then let one = le_word (take 4 data) XOR crc; two = le_word (sub data 4 4) :: u32;
               crc = crc32Lookup 7 ! unat (one AND 0xFF) XOR
                     crc32Lookup 6 ! unat (drop_bit 8 one AND 0xFF) XOR
                     crc32Lookup 5 ! unat (drop_bit 16 one AND 0xFF) XOR
                     crc32Lookup 4 ! unat (drop_bit 24 one) XOR
                     crc32Lookup 3 ! unat (two AND 0xFF) XOR
                     crc32Lookup 2 ! unat (drop_bit 8 two AND 0xFF) XOR
                     crc32Lookup 1 ! unat (drop_bit 16 two AND 0xFF) XOR
                     crc32Lookup 0 ! unat (drop_bit 24 two)
           in crc32_loop (drop 8 data) crc
      else foldl crc32_tail crc data)"
  by auto
termination by (relation "measure (\<lambda>(data, crc). length data)") auto

declare crc32_loop.simps [simp del]

definition gen_crc32 :: "bytes \<Rightarrow> nat \<Rightarrow> u32 \<Rightarrow> u32" where
  "gen_crc32 data len previousCrc32 = NOT (crc32_loop (take len data) (NOT previousCrc32))"

definition CRC16 :: u16 where
  "CRC16 = 0x8005"

definition crc16_step :: "u16 \<Rightarrow> u16 \<Rightarrow> u16" where
  "crc16_step out b =
     (let bit_flag = drop_bit 15 out; out = push_bit 1 out OR b in if bit_flag \<noteq> 0 then out XOR CRC16 else out)"

definition crc16_byte :: "u16 \<Rightarrow> u8 \<Rightarrow> u16" where
  "crc16_byte out b = foldl (\<lambda>out bits_read. crc16_step out (ucast (drop_bit bits_read b AND 1))) out [0..<8]"

definition crc16_reverse :: "u16 \<Rightarrow> u16" where
  "crc16_reverse out = foldl (\<lambda>crc k. if push_bit (15 - k) 1 AND out \<noteq> 0 then crc OR push_bit k 1 else crc) 0 [0..<16]"

definition gen_crc16 :: "bytes option \<Rightarrow> u16 \<Rightarrow> u16" where
  "gen_crc16 data sz =
     (case data of None \<Rightarrow> 0 | Some data \<Rightarrow>
        let out = foldl crc16_byte 0 (take (unat sz) data);
            out = foldl (\<lambda>out i. crc16_step out 0) out [0..<16]
        in crc16_reverse out)"

definition check_crc32 :: "u32 \<Rightarrow> bytes \<Rightarrow> nat \<Rightarrow> bool" where
  "check_crc32 checksum data len = (if checksum = gen_crc32 data len 0 then True else False)"

definition check_crc16 :: "u16 \<Rightarrow> bytes option \<Rightarrow> nat \<Rightarrow> bool" where
  "check_crc16 checksum data len = (if checksum = gen_crc16 data (of_nat len) then True else False)"

text \<open>The wrappers of the crypto API: the transform and its descriptor are allocated, \<open>sha\<close> is the
  digest the API computes.\<close>

definition hash_sha :: "(bytes \<Rightarrow> bytes) \<Rightarrow> bytes \<Rightarrow> bytes \<Rightarrow> kernel \<Rightarrow> int \<times> bytes \<times> kernel" where
  "hash_sha sha data digest k =
     (case kmalloc 0 k of
        (None, k) \<Rightarrow> (- ENOMEM, digest, k)
      | (Some tfm, k) \<Rightarrow>
          (case kmalloc 8 k of
             (None, k) \<Rightarrow> (- ENOMEM, digest, k)
           | (Some desc, k) \<Rightarrow> (0, blit digest 0 (sha data), k)))"

definition hash_sha1 :: "bytes \<Rightarrow> bytes \<Rightarrow> kernel \<Rightarrow> int \<times> bytes \<times> kernel" where
  "hash_sha1 data digest k = hash_sha (k_sha1 k) data digest k"

definition hash_sha256 :: "bytes \<Rightarrow> bytes \<Rightarrow> kernel \<Rightarrow> int \<times> bytes \<times> kernel" where
  "hash_sha256 data digest k = hash_sha (k_sha256 k) data digest k"

definition hash_sha512 :: "bytes \<Rightarrow> bytes \<Rightarrow> kernel \<Rightarrow> int \<times> bytes \<times> kernel" where
  "hash_sha512 data digest k = hash_sha (k_sha512 k) data digest k"


section \<open>CRC32\<close>

text \<open>The reference: every byte is added to the low end of the register, which is then shifted
  eight times.\<close>

definition crc32_bitwise :: "bytes \<Rightarrow> u32 \<Rightarrow> u32" where
  "crc32_bitwise data previous = NOT (foldl (\<lambda>crc b. crc_eight (crc XOR ucast b)) (NOT previous) data)"

lemma mask_FF: "0xFF = (mask 8 :: u32)"
  by (simp add: mask_eq_exp_minus_1)

lemma crc_eight_shift:
  assumes "c AND 0xFF = 0"
  shows "crc_eight c = drop_bit 8 c"
proof -
  have low: "\<not> bit c n" if "n < 8" for n
  proof -
    have "bit (c AND 0xFF) n \<longleftrightarrow> bit c n" using that by (simp add: mask_FF bit_and_iff bit_mask_iff)
    then show ?thesis using assms by simp
  qed
  have "crc_bit (drop_bit n c) = drop_bit (Suc n) c" if "n < 8" for n
    using low [OF that] by (simp add: crc_bit_def bit_drop_bit_eq)
  from this [of 0] this [of 1] this [of 2] this [of 3] this [of 4] this [of 5] this [of 6] this [of 7]
  show ?thesis by (simp add: crc_eight_def numeral_eq_Suc)
qed

lemma crc_eight_push: "n \<le> 16 \<Longrightarrow> crc_eight (push_bit (n + 8) (ucast (b :: u8))) = push_bit n (ucast b)"
proof -
  assume n: "n \<le> 16"
  have "push_bit (n + 8) (ucast b) AND (0xFF :: u32) = 0"
    by (rule bit_word_eqI) (auto simp: mask_FF bit_simps)
  moreover have "drop_bit 8 (push_bit (n + 8) (ucast b)) = (push_bit n (ucast b) :: u32)"
    using n by (intro bit_word_eqI) (auto simp: bit_simps dest: bit_imp_le_length)
  ultimately show ?thesis by (simp add: crc_eight_shift)
qed

text \<open>Splitting the register into its low byte and the rest.\<close>

lemma crc32_tail_eight: "crc32_tail crc b = crc_eight (crc XOR ucast b)"
proof -
  define low where "low = (crc AND 0xFF) XOR ucast b"
  have "unat low < 256"
  proof -
    have "low = take_bit 8 low" by (rule bit_word_eqI) (auto simp: low_def mask_FF bit_simps dest: bit_imp_le_length)
    then have "unat low = take_bit 8 (unat low)" by (metis unsigned_take_bit_eq)
    then show ?thesis using take_bit_nat_less_exp [of 8 "unat low"] by simp
  qed
  then have "crc32Lookup 0 ! unat low = crc_eight low" by (simp add: crc32Lookup_byte)
  moreover have "crc XOR ucast b = low XOR (crc AND NOT 0xFF)"
    by (rule bit_word_eqI) (auto simp: low_def bit_simps)
  moreover have "crc_eight (crc AND NOT 0xFF) = drop_bit 8 crc"
  proof -
    have "(crc AND NOT 0xFF) AND 0xFF = 0" by (rule bit_word_eqI) (auto simp: bit_simps)
    moreover have "drop_bit 8 (crc AND NOT 0xFF) = drop_bit 8 crc"
      by (rule bit_word_eqI) (auto simp: mask_FF bit_simps dest: bit_imp_le_length)
    ultimately show ?thesis by (simp add: crc_eight_shift)
  qed
  ultimately have "crc_eight (crc XOR ucast b) = crc32Lookup 0 ! unat low XOR drop_bit 8 crc"
    by (simp only: crc_eight_xor)
  then show ?thesis unfolding crc32_tail_def low_def [symmetric] by (simp only: xor.commute)
qed


lemma crc_eight_pow_xor: "(crc_eight ^^ n) (a XOR b) = (crc_eight ^^ n) a XOR (crc_eight ^^ n) b"
  by (induction n) (simp_all add: crc_eight_xor)

lemma crc_eight_bytes:
  "crc_eight (push_bit 8 (ucast (x :: u8))) = ucast x"
  "crc_eight (push_bit 16 (ucast x)) = push_bit 8 (ucast x)"
  "crc_eight (push_bit 24 (ucast x)) = push_bit 16 (ucast x)"
  using crc_eight_push [of 0 x] crc_eight_push [of 8 x] crc_eight_push [of 16 x] by simp_all

lemma le_word_xor_bytes:
  "(le_word [a, b, c, d] :: u32) =
     ucast a XOR push_bit 8 (ucast b) XOR push_bit 16 (ucast c) XOR push_bit 24 (ucast d)"
proof -
  have or: "(ucast x :: u32) OR push_bit 8 y = ucast x XOR push_bit 8 y" for x :: u8 and y
    by (rule bit_word_eqI) (auto simp: bit_simps dest: bit_imp_le_length)
  have "(le_word [a, b, c, d] :: u32) =
      ucast a XOR push_bit 8 (ucast b XOR push_bit 8 (ucast c XOR push_bit 8 (ucast d XOR push_bit 8 0)))"
    by (simp only: le_word.simps or)
  then show ?thesis by (simp add: push_bit_xor push_bit_push_bit xor.assoc)
qed

lemma crc_pow: "(crc_eight ^^ 4) x = crc_eight (crc_eight (crc_eight (crc_eight x)))"
    "(crc_eight ^^ 3) x = crc_eight (crc_eight (crc_eight x))" "(crc_eight ^^ 2) x = crc_eight (crc_eight x)"
  by (simp_all add: numeral_eq_Suc)

text \<open>Four bytes at once: adding a word and shifting 32 times is adding its bytes one after the other.\<close>

lemma crc_word:
  assumes "length bs = 4"
  shows "(crc_eight ^^ 4) (crc XOR le_word bs) = foldl (\<lambda>crc b. crc_eight (crc XOR ucast b)) crc bs"
proof -
  obtain a b c d where bs: "bs = [a, b, c, d]" using assms by (auto simp: numeral_eq_Suc length_Suc_conv)
  show ?thesis
    unfolding bs le_word_xor_bytes crc_pow by (simp add: crc_eight_xor crc_eight_bytes xor.assoc)
qed

text \<open>Four lookups in consecutive slices shift a word through the register.\<close>

lemma lookup_byte: "k < 8 \<Longrightarrow> crc32Lookup k ! unat (ucast (x :: u8) :: u32) = (crc_eight ^^ Suc k) (ucast x)"
proof -
  assume k: "k < 8"
  have "unat (ucast x :: u32) < 256"
  proof -
    have "unat x < 2 ^ LENGTH(8)" by (rule unsigned_less)
    then show ?thesis by (simp add: unat_ucast_up)
  qed
  from crc32Lookup_byte [OF k this] show ?thesis by (simp only: of_nat_unat ucast_id)
qed

lemma slices_word:
  assumes "m < 5"
  shows "crc32Lookup (m + 3) ! unat (w AND 0xFF) XOR crc32Lookup (m + 2) ! unat (drop_bit 8 w AND 0xFF) XOR
    crc32Lookup (m + 1) ! unat (drop_bit 16 w AND 0xFF) XOR crc32Lookup m ! unat (drop_bit 24 w) =
    (crc_eight ^^ (m + 4)) (w :: u32)"
proof -
  define o0 o1 o2 o3 :: u8 where "o0 = ucast w" and "o1 = ucast (drop_bit 8 w)" and "o2 = ucast (drop_bit 16 w)"
    and "o3 = ucast (drop_bit 24 w)"
  have b: "w AND 0xFF = ucast o0" "drop_bit 8 w AND 0xFF = ucast o1" "drop_bit 16 w AND 0xFF = ucast o2"
      "drop_bit 24 w = ucast o3"
    by (rule bit_word_eqI; auto simp: o0_def o1_def o2_def o3_def mask_FF bit_simps dest: bit_imp_le_length)+
  have "le_bytes 4 w = [o0, o1, o2, o3]"
    by (simp add: le_bytes_def o0_def o1_def o2_def o3_def upt_rec)
  then have w: "w = le_word [o0, o1, o2, o3]" using le_word_le_bytes [of 4 w] by simp
  have pow: "(crc_eight ^^ (m + 4)) x = (crc_eight ^^ Suc m) ((crc_eight ^^ 3) x)" for x
    using funpow_add [of "Suc m" 3 crc_eight] by (simp add: numeral_eq_Suc)
  have "(crc_eight ^^ 3) w = (crc_eight ^^ 3) (ucast o0) XOR (crc_eight ^^ 2) (ucast o1) XOR crc_eight (ucast o2) XOR ucast o3"
    unfolding w le_word_xor_bytes crc_pow by (simp add: crc_eight_xor crc_eight_bytes)
  then have "(crc_eight ^^ (m + 4)) w = (crc_eight ^^ Suc m) ((crc_eight ^^ 3) (ucast o0)) XOR
      (crc_eight ^^ Suc m) ((crc_eight ^^ 2) (ucast o1)) XOR (crc_eight ^^ Suc m) (crc_eight (ucast o2)) XOR
      (crc_eight ^^ Suc m) (ucast o3)"
    unfolding pow by (simp only: crc_eight_pow_xor)
  moreover have "(crc_eight ^^ Suc m) ((crc_eight ^^ 3) x) = (crc_eight ^^ Suc (m + 3)) x"
      "(crc_eight ^^ Suc m) ((crc_eight ^^ 2) x) = (crc_eight ^^ Suc (m + 2)) x"
      "(crc_eight ^^ Suc m) (crc_eight x) = (crc_eight ^^ Suc (m + 1)) x" for x
    by (simp_all add: numeral_eq_Suc funpow_swap1)
  ultimately show ?thesis using assms unfolding b by (simp add: lookup_byte xor.assoc del: funpow.simps)
qed

lemma crc32_loop_bitwise: "crc32_loop data crc = foldl (\<lambda>crc b. crc_eight (crc XOR ucast b)) crc data"
proof (induction "length data" arbitrary: data crc rule: less_induct)
  case less
  show ?case
  proof (cases "8 \<le> length data")
    case True
    define one two :: u32 where "one = le_word (take 4 data) XOR crc" and "two = le_word (sub data 4 4)"
    let ?f = "foldl (\<lambda>crc b. crc_eight (crc XOR ucast b))"
    have s: "crc32Lookup 7 ! unat (one AND 0xFF) XOR crc32Lookup 6 ! unat (drop_bit 8 one AND 0xFF) XOR
        crc32Lookup 5 ! unat (drop_bit 16 one AND 0xFF) XOR crc32Lookup 4 ! unat (drop_bit 24 one) = (crc_eight ^^ 8) one"
      "crc32Lookup 3 ! unat (two AND 0xFF) XOR crc32Lookup 2 ! unat (drop_bit 8 two AND 0xFF) XOR
        crc32Lookup 1 ! unat (drop_bit 16 two AND 0xFF) XOR crc32Lookup 0 ! unat (drop_bit 24 two) = (crc_eight ^^ 4) two"
      using slices_word [of 4 one] slices_word [of 0 two] by (simp_all add: numeral_2_eq_2)
    have eq: "crc32_loop data crc = crc32_loop (drop 8 data) ((crc_eight ^^ 8) one XOR (crc_eight ^^ 4) two)"
      unfolding s [symmetric] using True
      by (subst crc32_loop.simps) (simp only: Let_def if_True one_def [symmetric] two_def [symmetric] xor.assoc)
    have "(crc_eight ^^ 8) one XOR (crc_eight ^^ 4) two = (crc_eight ^^ 4) ((crc_eight ^^ 4) one XOR two)"
      using funpow_add [of 4 4 crc_eight] by (simp add: crc_eight_pow_xor)
    also have "\<dots> = ?f (?f crc (take 4 data)) (sub data 4 4)"
      using True crc_word [of "take 4 data" crc] crc_word [of "sub data 4 4" "?f crc (take 4 data)"]
      by (simp add: one_def two_def xor.commute)
    also have "\<dots> = ?f crc (take 8 data)"
      using take_add [of 4 4 data] by (simp add: sub_def)
    finally have "crc32_loop data crc = crc32_loop (drop 8 data) (?f crc (take 8 data))" using eq by simp
    also have "\<dots> = ?f (?f crc (take 8 data)) (drop 8 data)"
      using True by (intro less.hyps) simp
    finally show ?thesis by (simp add: foldl_append [symmetric] del: foldl_append)
  next
    case False
    moreover have "crc32_tail = (\<lambda>crc b. crc_eight (crc XOR ucast b))" by (intro ext) (rule crc32_tail_eight)
    ultimately show ?thesis by (subst crc32_loop.simps) simp
  qed
qed


text \<open>C24: CRC32 by slices of eight bytes is the bit-wise CRC32 with the reflected polynomial
  0xEDB88320: for every data, length and previous checksum, \<open>gen_crc32\<close> is the value of shifting the
  data through the register one bit at a time, and a checksum can be continued from a prefix.\<close>

theorem gen_crc32_bitwise:
  "gen_crc32 data len previous = crc32_bitwise (take len data) previous \<and>
   gen_crc32 (as @ bs) (length as + length bs) previous = gen_crc32 bs (length bs) (gen_crc32 as (length as) previous)"
  by (simp add: gen_crc32_def crc32_bitwise_def crc32_loop_bitwise)

section \<open>CRC16\<close>

text \<open>The reference: the reflected bit-wise CRC-16 with polynomial 0xA001.\<close>

definition crc16_reflected_bit :: "u16 \<Rightarrow> u16" where
  "crc16_reflected_bit c = drop_bit 1 c XOR (if bit c 0 then 0xA001 else 0)"

definition crc16_bitwise :: "bytes \<Rightarrow> u16" where
  "crc16_bitwise data = foldl (\<lambda>c b. (crc16_reflected_bit ^^ 8) (c XOR ucast b)) 0 data"

lemma bit_crc16_reverse: "bit (crc16_reverse out) k \<longleftrightarrow> k < 16 \<and> bit out (15 - k)"
proof -
  have test: "(2 ^ j AND out = 0) = (\<not> bit out j)" for j
    by (simp add: and.commute [of _ out] and_exp_eq_0_iff_not_bit)
  have "n \<le> 16 \<Longrightarrow> bit (foldl (\<lambda>crc k. if push_bit (15 - k) 1 AND out \<noteq> 0 then crc OR push_bit k 1 else crc) (0 :: u16) [0..<n]) k
      \<longleftrightarrow> k < n \<and> bit out (15 - k)" for n
    by (induction n) (auto simp: test bit_simps less_Suc_eq)
  from this [of 16] show ?thesis by (simp add: crc16_reverse_def)
qed


text \<open>Shifting a zero in is linear; a message bit added before 16 such shifts ends up as the polynomial.\<close>

definition crc16_shift :: "u16 \<Rightarrow> u16" where
  "crc16_shift out = push_bit 1 out XOR (if bit out 15 then CRC16 else 0)"

lemma crc16_step_shift: "m = 0 \<or> m = 1 \<Longrightarrow> crc16_step out m = crc16_shift out XOR m"
proof -
  assume m: "m = 0 \<or> m = 1"
  have flag: "drop_bit 15 out \<noteq> 0 \<longleftrightarrow> bit out 15"
  proof
    assume "drop_bit 15 out \<noteq> 0"
    then obtain j where "bit (drop_bit 15 out) j" by (metis bit_0_eq bit_eq_iff bot_apply bot_bool_def)
    moreover from this have "j = 0" using bit_imp_le_length [of out "15 + j"] by (simp add: bit_simps)
    ultimately show "bit out 15" by (simp add: bit_simps)
  next
    assume "bit out 15"
    then have "bit (drop_bit 15 out) 0" by (simp add: bit_simps)
    then show "drop_bit 15 out \<noteq> 0" by auto
  qed
  have "push_bit 1 out OR m = push_bit 1 out XOR m"
    using m by (intro bit_word_eqI) (auto simp: bit_simps bit_0)
  then show ?thesis
    using flag by (simp add: crc16_step_def crc16_shift_def Let_def xor.assoc xor.commute xor.left_commute)
qed

lemma crc16_shift_xor: "crc16_shift (a XOR b) = crc16_shift a XOR crc16_shift b"
  by (rule bit_word_eqI) (auto simp: crc16_shift_def bit_simps)

lemma crc16_shift_pow_xor: "(crc16_shift ^^ n) (a XOR b) = (crc16_shift ^^ n) a XOR (crc16_shift ^^ n) b"
  by (induction n) (simp_all add: crc16_shift_xor)

lemma crc16_shift_1: "(crc16_shift ^^ 16) 1 = CRC16"
  by code_simp

text \<open>Read backwards, the shift is the reflected shift.\<close>

lemma crc16_reverse_xor: "crc16_reverse (a XOR b) = crc16_reverse a XOR crc16_reverse b"
  by (rule bit_word_eqI) (auto simp: bit_crc16_reverse bit_simps)

lemma crc16_reverse_poly: "crc16_reverse CRC16 = 0xA001" "crc16_reverse 0 = 0"
  by code_simp+

lemma crc16_reverse_push: "crc16_reverse (push_bit n out) = drop_bit n (crc16_reverse out)"
proof (rule bit_word_eqI)
  fix k assume "k < LENGTH(16)"
  then show "bit (crc16_reverse (push_bit n out)) k = bit (drop_bit n (crc16_reverse out)) k"
    by (auto simp: bit_crc16_reverse bit_push_bit_iff bit_drop_bit_eq add.commute diff_diff_left)
qed

lemma crc16_reverse_shift: "crc16_reverse (crc16_shift out) = crc16_reflected_bit (crc16_reverse out)"
proof -
  have "crc16_reverse (push_bit 1 out) = drop_bit 1 (crc16_reverse out)" by (rule crc16_reverse_push)
  then show ?thesis
    by (simp add: crc16_shift_def crc16_reflected_bit_def crc16_reverse_xor crc16_reverse_poly bit_crc16_reverse)
qed

lemma crc16_reflected_xor:
  "crc16_reflected_bit (a XOR b) = crc16_reflected_bit a XOR crc16_reflected_bit b"
  by (rule bit_word_eqI) (auto simp: crc16_reflected_bit_def bit_simps)

lemma crc16_reflected_pow_xor:
  "(crc16_reflected_bit ^^ n) (a XOR b) = (crc16_reflected_bit ^^ n) a XOR (crc16_reflected_bit ^^ n) b"
  by (induction n) (simp_all add: crc16_reflected_xor)

lemma crc16_reflected_push: "n < 16 \<Longrightarrow> (crc16_reflected_bit ^^ n) (push_bit n (of_bool b)) = of_bool b"
proof (induction n)
  case (Suc n)
  have "crc16_reflected_bit (push_bit (Suc n) (of_bool b)) = push_bit n (of_bool b)"
    using Suc.prems by (intro bit_word_eqI) (auto simp: crc16_reflected_bit_def bit_simps)
  then show ?case using Suc by (simp add: funpow_swap1)
qed simp

text \<open>What the register will hold after the 16 final shifts, read backwards, moves with every bit like
  the reflected register.\<close>

definition crc16_view :: "u16 \<Rightarrow> u16" where
  "crc16_view out = crc16_reverse ((crc16_shift ^^ 16) out)"

lemma crc16_view_step: "crc16_view (crc16_step out (of_bool m)) = crc16_reflected_bit (crc16_view out XOR of_bool m)"
proof -
  have "(crc16_shift ^^ 16) (of_bool m) = (if m then CRC16 else 0)"
  proof (cases m)
    case False
    have "(crc16_shift ^^ n) 0 = 0" for n by (induction n) (simp_all add: crc16_shift_def)
    then show ?thesis using False by simp
  qed (simp add: crc16_shift_1)
  moreover have "crc16_reflected_bit (of_bool m) = (if m then 0xA001 else 0)"
    by (simp add: crc16_reflected_bit_def)
  moreover have "(crc16_shift ^^ 16) (crc16_shift out) = crc16_shift ((crc16_shift ^^ 16) out)" by (rule funpow_swap1 [symmetric])
  ultimately show ?thesis
    by (simp add: crc16_step_shift crc16_view_def crc16_shift_pow_xor crc16_reverse_xor crc16_reverse_shift
        crc16_reverse_poly crc16_reflected_xor)
qed

lemma crc16_view_byte: "crc16_view (crc16_byte out b) = (crc16_reflected_bit ^^ 8) (crc16_view out XOR ucast b)"
proof -
  have m: "ucast (drop_bit i b AND 1) = (of_bool (bit b i) :: u16)" for i
    by (rule bit_word_eqI) (auto simp: bit_simps)
  have "n \<le> 8 \<Longrightarrow> crc16_view (foldl (\<lambda>out i. crc16_step out (ucast (drop_bit i b AND 1))) out [0..<n]) =
      (crc16_reflected_bit ^^ n) (crc16_view out XOR take_bit n (ucast b))" for n
  proof (induction n)
    case (Suc n)
    have "take_bit (Suc n) (ucast b :: u16) = take_bit n (ucast b) XOR push_bit n (of_bool (bit b n))"
      using Suc.prems by (intro bit_word_eqI) (auto simp: bit_simps less_Suc_eq)
    then show ?case
      using Suc crc16_reflected_push [of n "bit b n"]
      by (simp add: m crc16_view_step crc16_reflected_pow_xor crc16_reflected_xor xor.assoc)
  qed simp
  moreover have "take_bit 8 (ucast b :: u16) = ucast b"
    by (rule bit_word_eqI) (auto simp: bit_simps dest: bit_imp_le_length)
  ultimately show ?thesis by (simp add: crc16_byte_def)
qed

text \<open>\<open>gen_crc16\<close>, which shifts the message through the register from the top, pushes 16 zeros
  after it and reverses the result, is the reflected CRC-16 with polynomial 0xA001.\<close>

theorem gen_crc16_reflected: "gen_crc16 (Some data) sz = crc16_bitwise (take (unat sz) data)"
proof -
  have pow: "foldl (\<lambda>out i. crc16_step out 0) out [0..<n] = (crc16_shift ^^ n) out" for out n
    by (induction n) (simp_all add: crc16_step_shift)
  have "crc16_view (foldl crc16_byte out bs) =
      foldl (\<lambda>c b. (crc16_reflected_bit ^^ 8) (c XOR ucast b)) (crc16_view out) bs" for out bs
    by (induction bs arbitrary: out) (simp_all add: crc16_view_byte)
  moreover have "crc16_view 0 = 0" by code_simp
  ultimately show ?thesis by (simp add: gen_crc16_def crc16_bitwise_def pow crc16_view_def [symmetric])
qed

section \<open>The Speck digest\<close>

text \<open>the Speck digest does not depend on the data: two buffers with the same length have the same
  digest, whatever they hold.\<close>

theorem speck_128_hash_ignores_data: "speck_128_hash data len = speck_128_hash data' len"
proof -
  have "speck_hash_step data = speck_hash_step data'"
    by (intro ext) (simp add: speck_hash_step_def Let_def split: prod.splits)
  then show ?thesis by (simp add: speck_128_hash_def)
qed

end
