(* ===== verification/Afs_Block_IO.thy ===== *)
theory Afs_Block_IO
  imports Afs_Prelude
begin

text \<open>
  Synchronous block I/O on the passive device, \<open>src/src/dm_afs_io.c\<close>. A page is a buffer of
  4096 bytes together with the fact whether its address is a multiple of 4096; an unaligned
  page goes through a bounce page. A result \<open>None\<close> stands for the fault of a transfer to the
  page of address 0 (no bounce page could be allocated).

  The device is the byte function \<open>k_dev\<close> of the kernel record. \<open>bio_alloc\<close> with
  \<open>GFP_NOIO\<close> draws on a reserve and does not fail; a bio that fails transfers nothing.
\<close>

section \<open>The code\<close>

definition AFS_BLOCK_SIZE :: u32 where "AFS_BLOCK_SIZE = 4096"
definition AFS_SECTOR_SIZE :: u32 where "AFS_SECTOR_SIZE = 512"
definition AFS_SECTORS_PER_BLOCK :: u32 where "AFS_SECTORS_PER_BLOCK = 8"

definition IO_READ :: u32 where "IO_READ = 0"
definition IO_WRITE :: u32 where "IO_WRITE = 1"

record afs_io =
  io_page :: bytes
  io_sector :: u64
  io_size :: u32
  io_type :: u32

text \<open>The kernel's side of a bio: a transfer between the first \<open>n\<close> bytes of a page and the
  device, starting at a sector.\<close>

definition dev_read :: "kernel \<Rightarrow> nat \<Rightarrow> nat \<Rightarrow> bytes" where
  "dev_read k a n = map (\<lambda>i. k_dev k (a + i)) [0..<n]"

definition dev_write :: "kernel \<Rightarrow> nat \<Rightarrow> bytes \<Rightarrow> kernel" where
  "dev_write k a bs =
     k\<lparr>k_dev := \<lambda>i. if a \<le> i \<and> i < a + length bs then bs ! (i - a) else k_dev k i\<rparr>"

definition submit_bio_wait :: "bool \<Rightarrow> u64 \<Rightarrow> u32 \<Rightarrow> bytes \<Rightarrow> kernel \<Rightarrow> bytes \<times> kernel" where
  "submit_bio_wait wr sector n page k =
     (let a = 512 * unat sector; ok = k_io k (k_ios k); k = k\<lparr>k_ios := Suc (k_ios k)\<rparr>
      in if \<not> ok then (page, k)
         else if wr then (page, dev_write k a (take (unat n) page))
         else (blit page 0 (dev_read k a (unat n)), k))"

definition afs_blkdev_io :: "afs_io \<Rightarrow> kernel \<Rightarrow> int \<times> bytes \<times> kernel" where
  "afs_blkdev_io request k =
     (if io_type request = IO_READ \<or> io_type request = IO_WRITE then
        (let (page, k) = submit_bio_wait (io_type request = IO_WRITE) (io_sector request)
               (io_size request) (io_page request) k
         in (0, page, k))
      else (- EINVAL, io_page request, k))"

definition read_page ::
  "bool \<Rightarrow> bytes \<Rightarrow> u32 \<Rightarrow> u32 \<Rightarrow> bool \<Rightarrow> kernel \<Rightarrow> (int \<times> bytes \<times> kernel) option" where
  "read_page aligned page block_num sector_offset used_vmalloc k =
     (let (page_structure, k) = (if \<not> aligned then kmalloc 4096 k else (Some page, k)) in
      case page_structure of
        None \<Rightarrow> None
      | Some p \<Rightarrow>
          (let sector_num = ucast ((block_num * AFS_BLOCK_SIZE) div AFS_SECTOR_SIZE + sector_offset);
               request = \<lparr>io_page = p, io_sector = sector_num, io_size = AFS_BLOCK_SIZE,
                          io_type = IO_READ\<rparr>;
               (ret, p, k) = afs_blkdev_io request k
           in Some (ret, if \<not> aligned then blit page 0 p else p, k)))"

definition write_page ::
  "bool \<Rightarrow> bytes \<Rightarrow> u32 \<Rightarrow> u32 \<Rightarrow> bool \<Rightarrow> kernel \<Rightarrow> (int \<times> kernel) option" where
  "write_page aligned page block_num sector_offset used_vmalloc k =
     (let (page_structure, k) =
            (if \<not> aligned then
               (case kmalloc 4096 k of (p, k) \<Rightarrow> (map_option (\<lambda>p. blit p 0 (take 4096 page)) p, k))
             else (Some page, k)) in
      case page_structure of
        None \<Rightarrow> None
      | Some p \<Rightarrow>
          (let sector_num = ucast ((block_num * AFS_BLOCK_SIZE) div AFS_SECTOR_SIZE + sector_offset);
               request = \<lparr>io_page = p, io_sector = sector_num, io_size = AFS_BLOCK_SIZE,
                          io_type = IO_WRITE\<rparr>;
               (ret, p, k) = afs_blkdev_io request k
           in Some (ret, k)))"

section \<open>The device as a store of pages\<close>

text \<open>What the clients of block I/O rely on: pages are read as they were last written, and
  writing one page leaves the others alone.\<close>

locale page_store =
  fixes rd :: "'s \<Rightarrow> u32 \<Rightarrow> bytes" and wr :: "'s \<Rightarrow> u32 \<Rightarrow> bytes \<Rightarrow> 's"
    and valid :: "u32 \<Rightarrow> bool" and psize :: nat
  assumes rd_wr_same: "valid b \<Longrightarrow> length p = psize \<Longrightarrow> rd (wr s b p) b = p"
    and rd_wr_other: "valid b \<Longrightarrow> valid c \<Longrightarrow> b \<noteq> c \<Longrightarrow> length p = psize \<Longrightarrow>
      rd (wr s b p) c = rd s c"
begin

definition wr_all :: "'s \<Rightarrow> (u32 \<times> bytes) list \<Rightarrow> 's" where
  "wr_all s ps = foldl (\<lambda>s (b, p). wr s b p) s ps"

lemma rd_wr_all_other:
  assumes "\<forall>(b, p) \<in> set ps. valid b \<and> length p = psize" "valid c" "c \<notin> fst ` set ps"
  shows "rd (wr_all s ps) c = rd s c"
  using assms
proof (induction ps arbitrary: s)
  case (Cons bp ps)
  obtain b p where "bp = (b, p)" by fastforce
  with Cons show ?case by (auto simp: wr_all_def rd_wr_other)
qed (simp add: wr_all_def)

lemma rd_wr_all:
  assumes "\<forall>(b, p) \<in> set ps. valid b \<and> length p = psize" "distinct (map fst ps)"
    and "(c, q) \<in> set ps"
  shows "rd (wr_all s ps) c = q"
  using assms
proof (induction ps arbitrary: s)
  case (Cons bp ps)
  obtain b p where bp: "bp = (b, p)" by fastforce
  show ?case
  proof (cases "(c, q) = bp")
    case True
    with Cons.prems bp show ?thesis
      using rd_wr_all_other [of ps c "wr s c q"] by (force simp: wr_all_def rd_wr_same)
  next
    case False
    with Cons bp show ?thesis by (auto simp: wr_all_def)
  qed
qed simp

end

text \<open>Where block \<open>b\<close> lies when the data area starts at sector \<open>off\<close>, as far as no
  32-bit computation wraps.\<close>

definition block_addr :: "u32 \<Rightarrow> u32 \<Rightarrow> nat" where
  "block_addr off b = 512 * unat ((b * AFS_BLOCK_SIZE) div AFS_SECTOR_SIZE + off)"

definition block_fits :: "u32 \<Rightarrow> u32 \<Rightarrow> bool" where
  "block_fits off b \<longleftrightarrow> unat b < 2 ^ 20 \<and> 8 * unat b + unat off < 2 ^ 32"

definition get_page :: "u32 \<Rightarrow> kernel \<Rightarrow> u32 \<Rightarrow> bytes" where
  "get_page off k b = dev_read k (block_addr off b) 4096"

definition put_page :: "u32 \<Rightarrow> kernel \<Rightarrow> u32 \<Rightarrow> bytes \<Rightarrow> kernel" where
  "put_page off k b p = dev_write k (block_addr off b) (take 4096 p)"

lemmas io_consts = AFS_BLOCK_SIZE_def AFS_SECTOR_SIZE_def AFS_SECTORS_PER_BLOCK_def IO_READ_def IO_WRITE_def

lemma block_addr_eq:
  assumes "block_fits off b"
  shows "block_addr off b = 4096 * unat b + 512 * unat off"
proof -
  have b: "unat b < 2 ^ 20" and s: "8 * unat b + unat off < 2 ^ 32"
    using assms by (auto simp: block_fits_def)
  have "unat (b * 4096) = unat b * 4096"
    using b by (simp add: unat_word_ariths)
  then have "unat (b * 4096 div 512) = 8 * unat b" by (simp add: unat_div)
  then have "unat (b * 4096 div 512 + off) = 8 * unat b + unat off"
    using s by (simp add: unat_word_ariths)
  then show ?thesis by (simp add: block_addr_def io_consts)
qed

lemma length_dev_read [simp, afs_len]: "length (dev_read k a n) = n"
  by (simp add: dev_read_def)

lemma length_get_page [simp, afs_len]: "length (get_page off k b) = 4096"
  by (simp add: get_page_def)

interpretation dev: page_store "get_page off" "put_page off" "block_fits off" 4096
proof (unfold_locales, goal_cases)
  case (1 b p s)
  then show ?case
    by (intro nth_equalityI) (auto simp: get_page_def put_page_def dev_read_def dev_write_def)
next
  case (2 b c p s)
  then have "unat b \<noteq> unat c" by (auto dest: unsigned_word_eqI)
  then have "4096 * unat b + 4096 \<le> 4096 * unat c \<or> 4096 * unat c + 4096 \<le> 4096 * unat b" by linarith
  then show ?case
    using 2 by (intro nth_equalityI) (auto simp: get_page_def put_page_def dev_read_def dev_write_def block_addr_eq)
qed

section \<open>What the page operations do\<close>

definition tick_io :: "kernel \<Rightarrow> kernel" where
  "tick_io k = k\<lparr>k_ios := Suc (k_ios k)\<rparr>"

definition tick_alloc :: "bool \<Rightarrow> kernel \<Rightarrow> kernel" where
  "tick_alloc aligned k = (if aligned then k else k\<lparr>k_allocs := Suc (k_allocs k)\<rparr>)"

lemma tick_frame [simp, afs_frame]:
  "k_dev (tick_io k) = k_dev k" "k_io (tick_io k) = k_io k" "k_alloc (tick_io k) = k_alloc k"
  "k_dev (tick_alloc al k) = k_dev k" "k_io (tick_alloc al k) = k_io k"
  "k_ios (tick_alloc al k) = k_ios k" "k_alloc (tick_alloc al k) = k_alloc k"
  by (simp_all add: tick_io_def tick_alloc_def)

lemma put_page_frame [simp, afs_frame]:
  "k_io (put_page off k b p) = k_io k" "k_alloc (put_page off k b p) = k_alloc k"
  "k_ios (put_page off k b p) = k_ios k" "k_allocs (put_page off k b p) = k_allocs k"
  by (simp_all add: put_page_def dev_write_def)

lemma get_page_tick [simp]:
  "get_page off (tick_io k) b = get_page off k b" "get_page off (tick_alloc al k) b = get_page off k b"
  by (simp_all add: get_page_def dev_read_def)

lemma get_page_put_page_tick [simp]:
  "get_page off (put_page off' (tick_io k) c p) b = get_page off (put_page off' k c p) b"
  "get_page off (put_page off' (tick_alloc al k) c p) b = get_page off (put_page off' k c p) b"
  by (simp_all add: get_page_def dev_read_def put_page_def dev_write_def)

lemma io_ok_tick [simp]: "io_ok (tick_io k) = io_ok k" "io_ok (tick_alloc al k) = io_ok k"
  "io_ok (put_page off k b p) = io_ok k" "alloc_ok (tick_io k) = alloc_ok k"
  "alloc_ok (tick_alloc al k) = alloc_ok k" "alloc_ok (put_page off k b p) = alloc_ok k"
  by (simp_all add: io_ok_def alloc_ok_def)

lemma blit_get_page: "length page = 4096 \<Longrightarrow> blit page 0 (dev_read k a 4096) = dev_read k a 4096"
  by simp

lemma sector_addr: "512 * unat (ucast s :: u64) = 512 * unat (s :: u32)"
  by (simp add: unat_ucast_u32)

lemma read_page_eq:
  assumes "length page = 4096" and "aligned \<or> k_alloc k (k_allocs k)" and "k_io k (k_ios k)"
  shows "read_page aligned page b off vm k =
    Some (0, get_page off k b, tick_io (tick_alloc aligned k))"
  using assms
  by (auto simp: read_page_def kmalloc_def afs_blkdev_io_def submit_bio_wait_def io_consts
      tick_io_def tick_alloc_def get_page_def block_addr_def sector_addr Let_def dev_read_def)

lemma write_page_eq:
  assumes "length page = 4096" and "aligned \<or> k_alloc k (k_allocs k)" and "k_io k (k_ios k)"
  shows "write_page aligned page b off vm k =
    Some (0, put_page off (tick_io (tick_alloc aligned k)) b page)"
  using assms
  by (auto simp: write_page_def kmalloc_def afs_blkdev_io_def submit_bio_wait_def io_consts
      tick_io_def tick_alloc_def put_page_def block_addr_def sector_addr Let_def)

lemma io_okD: "io_ok k \<Longrightarrow> k_io k n" and alloc_okD: "alloc_ok k \<Longrightarrow> k_alloc k n"
  by (simp_all add: io_ok_def alloc_ok_def)

text \<open>A page written to a block is read back from it, and every other block of the data area
  reads as before, whether or not the buffers are page aligned, as long as the block numbers stay
  below \<open>2^20\<close> and the sector numbers below \<open>2^32\<close>.\<close>

theorem write_page_read_page:
  assumes "io_ok k" "alloc_ok k" "length page = 4096" "length buf = 4096"
    and "block_fits off b" "block_fits off c"
  shows "\<exists>k1 k2 k3. write_page al page b off vm k = Some (0, k1) \<and>
    read_page al' buf c off vm' k1 = Some (0, if c = b then page else get_page off k c, k2) \<and>
    read_page al' buf c off vm' k = Some (0, get_page off k c, k3)"
proof -
  define k1 where "k1 = put_page off (tick_io (tick_alloc al k)) b page"
  have "write_page al page b off vm k = Some (0, k1)"
    using assms unfolding k1_def by (intro write_page_eq) (auto intro: io_okD alloc_okD)
  moreover have "read_page al' buf c off vm' k1 = Some (0, get_page off k1 c, tick_io (tick_alloc al' k1))"
    using assms by (intro read_page_eq) (auto simp: k1_def intro: io_okD alloc_okD)
  moreover have "read_page al' buf c off vm' k = Some (0, get_page off k c, tick_io (tick_alloc al' k))"
    using assms by (intro read_page_eq) (auto intro: io_okD alloc_okD)
  moreover have "get_page off k1 c = (if c = b then page else get_page off k c)"
    using assms by (simp add: k1_def dev.rd_wr_same dev.rd_wr_other)
  ultimately show ?thesis by auto
qed

theorem write_page_read_page_witness:
  "\<exists>k1 k2 k3. write_page True (replicate 4096 7) 5 2048 False demo_kernel = Some (0, k1) \<and>
    read_page False (replicate 4096 0) 5 2048 False k1 = Some (0, replicate 4096 7, k2) \<and>
    read_page False (replicate 4096 0) 5 2048 False demo_kernel = Some (0, get_page 2048 demo_kernel 5, k3)"
  using write_page_read_page [of demo_kernel "replicate 4096 7" "replicate 4096 0" 2048 5 5]
  by (simp add: io_ok_def alloc_ok_def demo_kernel_def block_fits_def)

text \<open>C27: The byte offset of a block is computed in 32 bits: block \<open>b + 2^20\<close> is the same place on
  the device as block \<open>b\<close>, for reading and for writing, so blocks beyond the first 4 GiB overwrite
  the blocks at the start.\<close>

theorem block_io_wraps:
  "write_page al page (b + 0x100000) off vm k = write_page al page b off vm k \<and>
   read_page al page (b + 0x100000) off vm k = read_page al page b off vm k"
proof -
  have same_offset: "(b + 0x100000) * AFS_BLOCK_SIZE = b * AFS_BLOCK_SIZE"
    by (simp add: AFS_BLOCK_SIZE_def ring_distribs)
  show ?thesis unfolding write_page_def read_page_def same_offset by (rule conjI refl)+
qed

text \<open>The outcome of a transfer is not looked at: when the device fails, a write reports 0 and
  leaves the device as it was, and a read of an aligned page reports 0 and leaves the old contents
  of the page.\<close>

theorem block_io_error_unseen:
  assumes "\<not> k_io k (k_ios k)"
  shows "write_page True page b off vm k = Some (0, tick_io k) \<and> k_dev (tick_io k) = k_dev k \<and>
    read_page True page b off vm k = Some (0, page, tick_io k)"
  using assms
  by (auto simp: write_page_def read_page_def afs_blkdev_io_def submit_bio_wait_def tick_io_def
      Let_def IO_WRITE_def IO_READ_def)

theorem block_io_error_unseen_witness:
  "write_page True [1] 3 0 False (demo_kernel\<lparr>k_io := \<lambda>_. False\<rparr>) =
      Some (0, tick_io (demo_kernel\<lparr>k_io := \<lambda>_. False\<rparr>)) \<and>
    k_dev (tick_io (demo_kernel\<lparr>k_io := \<lambda>_. False\<rparr>)) = k_dev (demo_kernel\<lparr>k_io := \<lambda>_. False\<rparr>) \<and>
    read_page True [1] 3 0 False (demo_kernel\<lparr>k_io := \<lambda>_. False\<rparr>) =
      Some (0, [1], tick_io (demo_kernel\<lparr>k_io := \<lambda>_. False\<rparr>))"
  by (rule block_io_error_unseen) simp

end
