(* ===== verification/Afs_Format.thy ===== *)
theory Afs_Format
  imports Afs_Block_IO Afs_Allocation "HOL-Library.Signed_Division"
begin

text \<open>
  The on-disk structures of \<open>src/include/dm_afs_format.h\<close>, the instance record of
  \<open>src/include/dm_afs.h\<close>, and the two helpers of \<open>src/src/dm_afs_metadata.c\<close> that do no
  I/O: \<open>binary_search\<close> and \<open>build_configuration\<close>. The packed structures are records;
  \<open>sb_bytes\<close>, \<open>sb_of_bytes\<close>, \<open>pb_bytes\<close> and \<open>pb_of_bytes\<close> are their layouts in memory.
  A result \<open>None\<close> is a fault: a division by zero, or an access outside an array.
\<close>

section \<open>Structures\<close>

definition NUM_MAP_BLKS_IN_SB :: u32 where "NUM_MAP_BLKS_IN_SB = 975"
definition NUM_MAP_BLKS_IN_PB :: u32 where "NUM_MAP_BLKS_IN_PB = 1019"
definition NUM_SUPERBLOCK_REPLICAS :: nat where "NUM_SUPERBLOCK_REPLICAS = 8"
definition PASSPHRASE_SZ :: nat where "PASSPHRASE_SZ = 64"
definition ENTROPY_DIR_SZ :: nat where "ENTROPY_DIR_SZ = 64"
definition ENTROPY_HASH_SZ :: nat where "ENTROPY_HASH_SZ = 8"
definition CARRIER_HASH_SZ :: nat where "CARRIER_HASH_SZ = 32"
definition SHA1_SZ :: nat where "SHA1_SZ = 20"
definition SHA128_SZ :: nat where "SHA128_SZ = 16"
definition SHA256_SZ :: nat where "SHA256_SZ = 32"
definition SHA512_SZ :: nat where "SHA512_SZ = 64"

lemmas size_consts = PASSPHRASE_SZ_def ENTROPY_DIR_SZ_def ENTROPY_HASH_SZ_def CARRIER_HASH_SZ_def
  SHA1_SZ_def SHA128_SZ_def SHA256_SZ_def SHA512_SZ_def NUM_SUPERBLOCK_REPLICAS_def
  NUM_MAP_BLKS_IN_SB_def NUM_MAP_BLKS_IN_PB_def

record afs_super_block =
  sb_hash :: bytes
  sb_pass_hash :: bytes
  sb_instance_size :: u64
  sb_reserved :: bytes
  sb_entropy_dir :: bytes
  sb_shadow_passphrase :: bytes
  sb_map_block_ptrs :: "u32 list"
  sb_first_ptr_block :: u32

record afs_ptr_block =
  pb_hash :: bytes
  pb_map_block_ptrs :: "u32 list"
  pb_next_ptr_block :: u32

record afs_map_tuple =
  carrier_block_ptr :: u32
  checksum :: u16

record afs_config =
  num_carrier_blocks :: u8
  cfg_threshold :: u8
  num_entropy_blocks :: u8
  map_entry_sz :: u8
  unused_space_per_block :: u8
  num_map_entries_per_block :: u8
  num_blocks :: u32
  num_map_blocks :: u32
  num_ptr_blocks :: u32
  instance_size :: u64
  bdev_size :: u64

record afs_args =
  passphrase :: bytes
  shadow_passphrase :: bytes
  passive_dev :: bytes
  entropy_dir :: bytes
  instance_type :: u8

text \<open>The instance. The queues belong to the engine; a pointer that is \<open>NULL\<close> is \<open>None\<close>.\<close>

record afs_private =
  config :: afs_config
  super_block :: afs_super_block
  passive_fs :: afs_passive_fs
  args :: afs_args
  vector :: afs_allocation_vector
  afs_map :: "bytes option"
  afs_map_blocks :: "bytes option"
  passphrase_hash :: bytes
  afs_ptr_blocks :: "afs_ptr_block list"
  encoding_type :: u8

section \<open>Layout\<close>

definition u32s_bytes :: "u32 list \<Rightarrow> bytes" where
  "u32s_bytes ws = concat (map (le_bytes 4) ws)"

fun u32s :: "nat \<Rightarrow> bytes \<Rightarrow> u32 list" where
  "u32s 0 bs = []"
| "u32s (Suc n) bs = le_word (take 4 bs) # u32s n (drop 4 bs)"

definition sb_bytes :: "afs_super_block \<Rightarrow> bytes" where
  "sb_bytes sb = sb_hash sb @ sb_pass_hash sb @ le_bytes 8 (sb_instance_size sb) @ sb_reserved sb @
     sb_entropy_dir sb @ sb_shadow_passphrase sb @ u32s_bytes (sb_map_block_ptrs sb) @
     le_bytes 4 (sb_first_ptr_block sb)"

definition sb_of_bytes :: "bytes \<Rightarrow> afs_super_block" where
  "sb_of_bytes bs = \<lparr>sb_hash = sub bs 0 32, sb_pass_hash = sub bs 32 20,
     sb_instance_size = le_word (sub bs 52 8), sb_reserved = sub bs 60 4,
     sb_entropy_dir = sub bs 64 64, sb_shadow_passphrase = sub bs 128 64,
     sb_map_block_ptrs = u32s 975 (sub bs 192 3900), sb_first_ptr_block = le_word (sub bs 4092 4)\<rparr>"

definition pb_bytes :: "afs_ptr_block \<Rightarrow> bytes" where
  "pb_bytes pb = pb_hash pb @ u32s_bytes (pb_map_block_ptrs pb) @ le_bytes 4 (pb_next_ptr_block pb)"

definition pb_of_bytes :: "bytes \<Rightarrow> afs_ptr_block" where
  "pb_of_bytes bs = \<lparr>pb_hash = sub bs 0 16, pb_map_block_ptrs = u32s 1019 (sub bs 16 4076),
     pb_next_ptr_block = le_word (sub bs 4092 4)\<rparr>"

definition tuple_bytes :: "afs_map_tuple \<Rightarrow> bytes" where
  "tuple_bytes t = le_bytes 4 (carrier_block_ptr t) @ le_bytes 2 (checksum t)"

definition tuple_of_bytes :: "bytes \<Rightarrow> afs_map_tuple" where
  "tuple_of_bytes bs = \<lparr>carrier_block_ptr = le_word (sub bs 0 4), checksum = le_word (sub bs 4 2)\<rparr>"

section \<open>Binary search\<close>

text \<open>The indices are C \<open>int\<close>s: \<open>s32\<close> is the conversion to 32 bits, \<open>sdiv\<close> the division
  that rounds towards 0.\<close>

definition s32 :: "int \<Rightarrow> int" where
  "s32 x = signed_take_bit 31 x"

definition array_at :: "u32 list \<Rightarrow> int \<Rightarrow> u32 option" where
  "array_at xs i = (if 0 \<le> i \<and> nat i < length xs then Some (xs ! nat i) else None)"

partial_function (option) binary_search_loop ::
  "u32 list \<Rightarrow> u32 \<Rightarrow> int \<Rightarrow> int \<Rightarrow> int \<Rightarrow> int option" where
  "binary_search_loop xs v first last' middle =
     (if first \<le> last' then
        (case array_at xs middle of
           None \<Rightarrow> None
         | Some x \<Rightarrow>
             if x < v then
               (let first = s32 (middle + 1)
                in binary_search_loop xs v first last' (s32 (first + last') sdiv 2))
             else if x = v then Some middle
             else
               (let last' = s32 (middle - 1)
                in binary_search_loop xs v first last' (s32 (first + last') sdiv 2)))
      else Some (- 1))"

declare binary_search_loop.simps [code]

definition binary_search :: "u32 list \<Rightarrow> u32 \<Rightarrow> u32 \<Rightarrow> int option" where
  "binary_search xs v len =
     (let first = 0; last' = s32 (uint (len - 1)); middle = s32 (first + last') sdiv 2
      in binary_search_loop xs v first last' middle)"

section \<open>The configuration of an instance\<close>

definition build_configuration :: "afs_config \<Rightarrow> u8 \<Rightarrow> u8 \<Rightarrow> afs_config option" where
  "build_configuration cfg carriers entropies =
     (let cfg = cfg\<lparr>num_carrier_blocks := carriers, num_entropy_blocks := entropies\<rparr>;
          cfg = cfg\<lparr>map_entry_sz := of_nat (CARRIER_HASH_SZ + ENTROPY_HASH_SZ + 6 * unat carriers)\<rparr>
      in if map_entry_sz cfg = 0 then None
         else
           (let space = 4096 - SHA512_SZ;
                cfg = cfg\<lparr>unused_space_per_block := of_nat (space mod unat (map_entry_sz cfg))\<rparr>;
                cfg = cfg\<lparr>num_map_entries_per_block := of_nat (space div unat (map_entry_sz cfg))\<rparr>;
                cfg = cfg\<lparr>num_blocks := ucast (instance_size cfg div 4096)\<rparr>;
                per = ucast (num_map_entries_per_block cfg) :: u32
            in if per = 0 then None
               else
                 (let cfg = cfg\<lparr>num_map_blocks := num_blocks cfg div per\<rparr>;
                      cfg = cfg\<lparr>num_map_blocks := num_map_blocks cfg +
                                  (if num_blocks cfg mod per \<noteq> 0 then 1 else 0)\<rparr>
                  in if num_map_blocks cfg - NUM_MAP_BLKS_IN_SB > num_map_blocks cfg then
                       Some (cfg\<lparr>num_ptr_blocks := 0\<rparr>)
                     else
                       (let rest = num_map_blocks cfg - NUM_MAP_BLKS_IN_SB;
                            cfg = cfg\<lparr>num_ptr_blocks := rest div NUM_MAP_BLKS_IN_PB\<rparr>
                        in Some (cfg\<lparr>num_ptr_blocks := num_ptr_blocks cfg +
                                  (if rest mod NUM_MAP_BLKS_IN_PB \<noteq> 0 then 1 else 0)\<rparr>)))))"

section \<open>The layouts are inverse to each other\<close>

lemma length_u32s_bytes [simp, afs_len]: "length (u32s_bytes ws) = 4 * length ws"
  by (induction ws) (simp_all add: u32s_bytes_def)

lemma length_u32s [simp, afs_len]: "length (u32s n bs) = n"
  by (induction n arbitrary: bs) simp_all

lemma u32s_u32s_bytes: "length ws = n \<Longrightarrow> u32s n (u32s_bytes ws) = ws"
  by (induction ws arbitrary: n) (auto simp: u32s_bytes_def le_word_le_bytes)

definition sb_ok :: "afs_super_block \<Rightarrow> bool" where
  "sb_ok sb \<longleftrightarrow> length (sb_hash sb) = 32 \<and> length (sb_pass_hash sb) = 20 \<and> length (sb_reserved sb) = 4 \<and>
     length (sb_entropy_dir sb) = 64 \<and> length (sb_shadow_passphrase sb) = 64 \<and>
     length (sb_map_block_ptrs sb) = 975"

definition pb_ok :: "afs_ptr_block \<Rightarrow> bool" where
  "pb_ok pb \<longleftrightarrow> length (pb_hash pb) = 16 \<and> length (pb_map_block_ptrs pb) = 1019"

lemma length_sb_bytes [simp, afs_len]: "sb_ok sb \<Longrightarrow> length (sb_bytes sb) = 4096"
  by (simp add: sb_ok_def sb_bytes_def)

lemma length_pb_bytes [simp, afs_len]: "pb_ok pb \<Longrightarrow> length (pb_bytes pb) = 4096"
  by (simp add: pb_ok_def pb_bytes_def)

lemma sub_append: "sub (xs @ ys) off n =
    (if length xs \<le> off then sub ys (off - length xs) n
     else if off + n \<le> length xs then sub xs off n else sub xs off n @ take (n + off - length xs) ys)"
  by (auto simp: sub_def add.commute)

lemma sub_take_whole: "length xs \<le> n \<Longrightarrow> sub xs 0 n = xs"
  by (simp add: sub_def)

lemma sb_of_bytes_bytes: "sb_ok sb \<Longrightarrow> sb_of_bytes (sb_bytes sb) = sb"
  by (cases sb) (simp add: sb_ok_def sb_bytes_def sb_of_bytes_def sub_append sub_take_whole u32s_u32s_bytes
      le_word_le_bytes)

lemma pb_of_bytes_bytes: "pb_ok pb \<Longrightarrow> pb_of_bytes (pb_bytes pb) = pb"
  by (cases pb) (simp add: pb_ok_def pb_bytes_def pb_of_bytes_def sub_append sub_take_whole u32s_u32s_bytes
      le_word_le_bytes)

lemma sb_ok_of_bytes: "length bs = 4096 \<Longrightarrow> sb_ok (sb_of_bytes bs)"
  by (simp add: sb_ok_def sb_of_bytes_def)

lemma tuple_of_bytes_bytes: "tuple_of_bytes (tuple_bytes t) = t"
  by (cases t) (simp add: tuple_bytes_def tuple_of_bytes_def sub_append sub_take_whole le_word_le_bytes)

section \<open>The search\<close>

lemma s32_id: "- 2147483648 \<le> x \<Longrightarrow> x < 2147483648 \<Longrightarrow> s32 x = x"
  unfolding s32_def by (rule signed_take_bit_int_eq_self) simp_all

lemma sdiv2_nonneg: "0 \<le> x \<Longrightarrow> x sdiv 2 = x div (2 :: int)"
  by (cases "x = 0") (simp_all add: signed_divide_int_def)

text \<open>The window \<open>first .. last\<close> always encloses every position of the value.\<close>

lemma binary_search_loop_correct:
  assumes len: "n \<le> length xs" "n \<le> 2 ^ 30" and sorted: "sorted (take n xs)"
    and "0 \<le> first" "last' < int n" "- 1 \<le> last'" "first \<le> int n" "first \<le> last' \<Longrightarrow> middle = (first + last') div 2"
    and "\<And>i. i < n \<Longrightarrow> int i < first \<Longrightarrow> xs ! i < v" "\<And>i. i < n \<Longrightarrow> last' < int i \<Longrightarrow> v < xs ! i"
  shows "\<exists>r. binary_search_loop xs v first last' middle = Some r \<and>
    (if v \<in> set (take n xs) then 0 \<le> r \<and> nat r < n \<and> xs ! nat r = v else r = - 1)"
  using assms(4-)
proof (induction "nat (last' + 1 - first)" arbitrary: first last' middle rule: less_induct)
  case less
  note IH = less.hyps and inv = less.prems
  show ?case
  proof (cases "first \<le> last'")
    case False
    have "v \<notin> set (take n xs)"
    proof
      assume "v \<in> set (take n xs)"
      then obtain i where i: "i < n" "xs ! i = v" by (auto simp: in_set_conv_nth)
      then have "\<not> int i < first" "\<not> last' < int i" using inv(6,7) [of i] by auto
      then show False using False by linarith
    qed
    then show ?thesis using False by (subst binary_search_loop.simps) simp
  next
    case True
    define m where "m = (first + last') div 2"
    have m: "first \<le> m" "m \<le> last'" using True by (simp_all add: m_def)
    then have mn: "0 \<le> m" "nat m < n" using inv(1,2) by linarith+
    moreover have "int n \<le> 2 ^ 30" using len(2) by (metis of_nat_le_iff of_nat_numeral of_nat_power)
    ultimately have small: "m < 2 ^ 30" "int n \<le> 2 ^ 30" by linarith+
    have mid: "middle = m" using inv(5) True m_def by simp
    have mono: "i \<le> j \<Longrightarrow> j < n \<Longrightarrow> xs ! i \<le> xs ! j" for i j
      using sorted_nth_mono [OF sorted, of i j] len by simp
    have at: "array_at xs m = Some (xs ! nat m)" using mn len by (simp add: array_at_def)
    have bounds: "last' < 2 ^ 30" "first \<le> 2 ^ 30" using inv(2,4) small by linarith+
    consider "xs ! nat m < v" | "xs ! nat m = v" | "v < xs ! nat m" by fastforce
    then show ?thesis
    proof cases
      case 1
      define r where "r = binary_search_loop xs v (m + 1) last' (s32 (m + 1 + last') sdiv 2)"
      have "\<exists>y. r = Some y \<and> (if v \<in> set (take n xs) then 0 \<le> y \<and> nat y < n \<and> xs ! nat y = v else y = - 1)"
        unfolding r_def
      proof (rule IH)
        show "nat (last' + 1 - (m + 1)) < nat (last' + 1 - first)" using m True by simp
        show "s32 (m + 1 + last') sdiv 2 = (m + 1 + last') div 2" if "m + 1 \<le> last'"
          using mn small bounds that by (simp add: s32_id sdiv2_nonneg)
        show "xs ! i < v" if "i < n" "int i < m + 1" for i
          using mono [of i "nat m"] that mn 1 by (simp add: le_nat_iff)
      qed (use inv m mn in auto)
      moreover have "binary_search_loop xs v first last' middle = r"
        using 1 True mid at mn small by (subst binary_search_loop.simps) (simp add: r_def s32_id Let_def)
      ultimately show ?thesis by simp
    next
      case 2
      then have "v \<in> set (take n xs)" using mn len by (auto simp: in_set_conv_nth)
      then show ?thesis using 2 True mid at mn by (subst binary_search_loop.simps) simp
    next
      case 3
      define r where "r = binary_search_loop xs v first (m - 1) (s32 (first + (m - 1)) sdiv 2)"
      have "\<exists>y. r = Some y \<and> (if v \<in> set (take n xs) then 0 \<le> y \<and> nat y < n \<and> xs ! nat y = v else y = - 1)"
        unfolding r_def
      proof (rule IH)
        show "nat (m - 1 + 1 - first) < nat (last' + 1 - first)" using m True by simp
        show "s32 (first + (m - 1)) sdiv 2 = (first + (m - 1)) div 2" if "first \<le> m - 1"
          using mn small bounds inv(1) that by (simp add: s32_id sdiv2_nonneg)
        show "v < xs ! i" if "i < n" "m - 1 < int i" for i
          using mono [of "nat m" i] that mn 3 by (simp add: nat_le_iff)
      qed (use inv m mn in auto)
      moreover have "binary_search_loop xs v first last' middle = r"
        using 3 less_not_sym [OF 3] less_imp_neq [OF 3, symmetric] True mid at mn small by (subst binary_search_loop.simps) (simp add: r_def s32_id Let_def)
      ultimately show ?thesis by simp
    qed
  qed
qed

lemma binary_search_correct:
  assumes "unat len \<le> length xs" "unat len \<le> 2 ^ 30" "sorted (take (unat len) xs)"
  shows "\<exists>r. binary_search xs v len = Some r \<and>
    (if v \<in> set (take (unat len) xs) then 0 \<le> r \<and> nat r < unat len \<and> xs ! nat r = v else r = - 1)"
proof -
  have small: "unat len \<le> 1073741824" using assms(2) by simp
  have "s32 (uint (len - 1)) = int (unat len) - 1"
  proof (cases "len = 0")
    case True
    have "(- 1 :: u32) = 0xFFFFFFFF" by simp
    then have "uint (- 1 :: u32) = uint (0xFFFFFFFF :: u32)" by (rule arg_cong)
    also have "\<dots> = 0xFFFFFFFF" by simp
    finally have "uint (- 1 :: u32) = 2 ^ 32 - 1" by simp
    then show ?thesis using True by (simp add: s32_def signed_take_bit_eq_take_bit_shift take_bit_eq_mod)
  next
    case False
    then have "unat (len - 1) = unat len - 1" by (simp add: unat_minus_one)
    then have "uint (len - 1) = int (unat len) - 1"
      using False by (metis Suc_diff_1 diff_add_cancel int_ops(4) add.commute of_nat_diff
          unat_gt_0 uint_nat word_gt_0 One_nat_def of_nat_1 less_eq_Suc_le)
    moreover have "int (unat len) \<le> 1073741824" using small by linarith
    then have "s32 (int (unat len) - 1) = int (unat len) - 1"
      by (intro s32_id) linarith+
    ultimately show ?thesis by simp
  qed
  moreover obtain n where n: "n = unat len" by simp
  ultimately show ?thesis
    using assms small unfolding binary_search_def Let_def n [symmetric]
    by (intro binary_search_loop_correct) (simp_all add: s32_id sdiv2_nonneg)
qed

text \<open>C22: On a sorted array of at most \<open>2^30\<close> entries \<open>binary_search\<close> returns, without reading
  outside the array: the index of the value when the array holds it, and -1 otherwise.\<close>

theorem binary_search_finds:
  assumes "unat len \<le> length xs" "unat len \<le> 2 ^ 30" "sorted (take (unat len) xs)"
  shows "\<exists>r. binary_search xs v len = Some r \<and>
    (if v \<in> set (take (unat len) xs) then 0 \<le> r \<and> nat r < unat len \<and> xs ! nat r = v else r = - 1)"
  using assms by (rule binary_search_correct)

theorem binary_search_finds_witness:
  "\<exists>r. binary_search [3, 5, 8, 13] 8 4 = Some r \<and> 0 \<le> r \<and> nat r < 4 \<and> [3, 5, 8, 13 :: u32] ! nat r = 8"
  using binary_search_finds [of 4 "[3, 5, 8, 13]" 8] by simp

section \<open>The configuration\<close>

definition ceil_div :: "nat \<Rightarrow> nat \<Rightarrow> nat" where
  "ceil_div a d = a div d + (if a mod d \<noteq> 0 then 1 else 0)"

lemma ceil_div_bounds:
  assumes "0 < d"
  shows "a \<le> d * ceil_div a d \<and> d * ceil_div a d < a + d"
proof (cases "a mod d = 0")
  case True
  then have "d * ceil_div a d = d * (a div d)" by (simp add: ceil_div_def)
  with True show ?thesis using mult_div_mod_eq [of d a] assms by linarith
next
  case False
  then have "d * ceil_div a d = d * (a div d) + d" by (simp add: ceil_div_def)
  with False show ?thesis using mod_less_divisor [OF assms, of a] mult_div_mod_eq [of d a] by linarith
qed

lemma ceil_div_word:
  assumes "0 < unat (d :: u32)"
  shows "unat (a div d + (if a mod d \<noteq> 0 then 1 else 0)) = ceil_div (unat a) (unat d)"
proof -
  have "unat (a div d) < 2 ^ 32 - 1 \<or> a mod d = 0"
  proof (cases "unat d = 1")
    case True
    then have "unat (a mod d) = 0" by (simp add: unat_mod)
    then show ?thesis by (simp add: unat_eq_0)
  next
    case False
    have a: "unat a < 2 ^ LENGTH(32)" by (rule unsigned_less)
    have "unat a div unat d \<le> unat a div 2" using False assms by (intro div_le_mono2) auto
    also have "\<dots> < 2 ^ 32 - 1" using a by simp
    finally show ?thesis by (simp add: unat_div)
  qed
  moreover have "a mod d = 0 \<longleftrightarrow> unat a mod unat d = 0"
    by (metis unat_eq_0 unat_mod)
  moreover have "unat (x + 1) = unat x + 1" if "unat x < 2 ^ 32 - 1" for x :: u32
    using that by (simp add: unat_word_ariths)
  ultimately show ?thesis
    by (cases "a mod d = 0") (simp_all add: ceil_div_def unat_div)
qed

text \<open>The relations between the fields that the map code relies on.\<close>

definition cfg_ok :: "afs_config \<Rightarrow> bool" where
  "cfg_ok cfg \<longleftrightarrow> 
     unat (map_entry_sz cfg) = 40 + 6 * unat (num_carrier_blocks cfg) \<and>
     0 < unat (num_map_entries_per_block cfg) \<and>
     unat (num_map_entries_per_block cfg) * unat (map_entry_sz cfg) +
       unat (unused_space_per_block cfg) = 4032 \<and>
     unat (num_map_blocks cfg) = ceil_div (unat (num_blocks cfg)) (unat (num_map_entries_per_block cfg)) \<and>
     unat (num_ptr_blocks cfg) = ceil_div (unat (num_map_blocks cfg) - 975) 1019"

lemma build_configuration_cfg_ok:
  assumes n: "unat n \<le> 35"
  shows "\<exists>cfg'. build_configuration cfg n e = Some cfg' \<and> cfg_ok cfg' \<and>
    num_carrier_blocks cfg' = n \<and> num_entropy_blocks cfg' = e \<and>
    unat (num_blocks cfg') = unat (instance_size cfg) div 4096 mod 2 ^ 32 \<and>
    instance_size cfg' = instance_size cfg \<and> bdev_size cfg' = bdev_size cfg"
proof -
  define sz where "sz = (of_nat (40 + 6 * unat n) :: u8)"
  have sz: "unat sz = 40 + 6 * unat n" using n by (simp add: sz_def unat_of_nat del: of_nat_add of_nat_mult)
  define per where "per = (of_nat (4032 div unat sz) :: u8)"
  have "4032 div unat sz \<le> 4032 div 40" using sz by (intro div_le_mono2) simp_all
  moreover have "4032 div 250 \<le> 4032 div unat sz" using sz n by (intro div_le_mono2) simp_all
  ultimately have per: "unat per = 4032 div unat sz" "0 < unat per"
    by (simp_all add: per_def unat_of_nat)
  have unused: "unat (of_nat (4032 mod unat sz) :: u8) = 4032 mod unat sz"
  proof -
    have "4032 mod unat sz < unat sz" using sz by (intro mod_less_divisor) simp
    also have "unat sz < 2 ^ LENGTH(8)" by (rule unsigned_less)
    finally show ?thesis by (simp add: unat_of_nat)
  qed
  define nb where "nb = (ucast (instance_size cfg div 4096) :: u32)"
  have nb: "unat nb = unat (instance_size cfg) div 4096 mod 2 ^ 32"
    by (simp add: nb_def unsigned_ucast_eq take_bit_eq_mod unat_div)
  have uper: "unat (ucast per :: u32) = unat per" by (simp add: unat_ucast_up)
  define nm where "nm = nb div ucast per + (if nb mod ucast per \<noteq> 0 then 1 else 0)"
  have nm: "unat nm = ceil_div (unat nb) (unat per)"
    unfolding nm_def using ceil_div_word [of "ucast per" nb] uper per by simp
  have "sz \<noteq> 0" "ucast per \<noteq> (0 :: u32)" using sz per uper by (auto simp: unat_eq_0 [symmetric])
  note nz = this
  define np where "np = (if nm - 975 > nm then 0 else
    (nm - 975) div 1019 + (if (nm - 975) mod 1019 \<noteq> 0 then 1 else 0))"
  have np: "unat np = ceil_div (unat nm - 975) 1019"
  proof (cases "975 \<le> nm")
    case True
    then have "unat (nm - 975) = unat nm - 975" by (simp add: unat_sub)
    moreover from this have "\<not> nm - 975 > nm" by (simp add: word_less_nat_alt)
    ultimately show ?thesis using ceil_div_word [of 1019 "nm - 975"] by (simp add: np_def)
  next
    case False
    then have "unat nm < 975" by (simp add: word_le_nat_alt)
    moreover from this have "unat (nm - 975) = unat nm + (2 ^ 32 - 975)" by (simp add: unat_sub_if_size word_size)
    ultimately show ?thesis by (simp add: np_def word_less_nat_alt ceil_div_def)
  qed
  define cfg' where "cfg' = cfg\<lparr>num_carrier_blocks := n, num_entropy_blocks := e, map_entry_sz := sz,
    unused_space_per_block := of_nat (4032 mod unat sz), num_map_entries_per_block := per,
    num_blocks := nb, num_map_blocks := nm, num_ptr_blocks := np\<rparr>"
  have sizes: "of_nat (CARRIER_HASH_SZ + ENTROPY_HASH_SZ + 6 * unat n) = sz" "4096 - SHA512_SZ = 4032"
    by (simp_all add: size_consts sz_def)
  have "build_configuration cfg n e = Some cfg'"
    using nz unfolding build_configuration_def Let_def sizes cfg'_def np_def nm_def nb_def per_def
      NUM_MAP_BLKS_IN_SB_def NUM_MAP_BLKS_IN_PB_def by simp
  moreover have "cfg_ok cfg'"
    using sz per unused nm np by (simp add: cfg_ok_def cfg'_def mult.commute)
  ultimately show ?thesis using nb by (simp add: cfg'_def)
qed

text \<open>C23: With at most 35 carrier blocks the configuration that \<open>build_configuration\<close> computes in
  8- and 32-bit arithmetic has room for everything: the entries and the unused bytes fill a map block
  exactly, the map blocks hold one entry per data block with no map block to spare, and the
  super block and the pointer blocks hold a pointer to every map block with no pointer block to
  spare.\<close>

theorem build_configuration_capacity:
  assumes "unat n \<le> 35"
  shows "\<exists>cfg'. build_configuration cfg n e = Some cfg' \<and>
    unat (map_entry_sz cfg') = 40 + 6 * unat n \<and>
    64 + unat (unused_space_per_block cfg') + unat (num_map_entries_per_block cfg') * unat (map_entry_sz cfg') = 4096 \<and>
    unat (num_blocks cfg') = unat (instance_size cfg) div 4096 mod 2 ^ 32 \<and>
    unat (num_blocks cfg') \<le> unat (num_map_entries_per_block cfg') * unat (num_map_blocks cfg') \<and>
    unat (num_map_entries_per_block cfg') * unat (num_map_blocks cfg') <
      unat (num_blocks cfg') + unat (num_map_entries_per_block cfg') \<and>
    unat (num_map_blocks cfg') \<le> 975 + 1019 * unat (num_ptr_blocks cfg') \<and>
    1019 * unat (num_ptr_blocks cfg') < unat (num_map_blocks cfg') - 975 + 1019"
proof -
  obtain cfg' where "build_configuration cfg n e = Some cfg'" and ok: "cfg_ok cfg'" and "num_carrier_blocks cfg' = n"
    and "unat (num_blocks cfg') = unat (instance_size cfg) div 4096 mod 2 ^ 32"
    using build_configuration_cfg_ok [OF assms] by blast
  moreover from ok have "0 < unat (num_map_entries_per_block cfg')"
    and "unat (num_map_blocks cfg') = ceil_div (unat (num_blocks cfg')) (unat (num_map_entries_per_block cfg'))"
    and "unat (num_ptr_blocks cfg') = ceil_div (unat (num_map_blocks cfg') - 975) 1019"
    unfolding cfg_ok_def by blast+
  moreover from ok have "unat (map_entry_sz cfg') = 40 + 6 * unat (num_carrier_blocks cfg')"
    and "64 + unat (unused_space_per_block cfg') +
      unat (num_map_entries_per_block cfg') * unat (map_entry_sz cfg') = 4096"
    unfolding cfg_ok_def by linarith+
  ultimately show ?thesis
    using ceil_div_bounds [of "unat (num_map_entries_per_block cfg')" "unat (num_blocks cfg')"]
      ceil_div_bounds [of 1019 "unat (num_map_blocks cfg') - 975"]
    by (intro exI [of _ cfg'] conjI) (simp_all, linarith+)
qed

text \<open>A zeroed configuration of an instance of 64 MiB on a device of 1 GiB.\<close>

definition demo_config :: afs_config where
  "demo_config = \<lparr>num_carrier_blocks = 0, cfg_threshold = 0, num_entropy_blocks = 0, map_entry_sz = 0,
     unused_space_per_block = 0, num_map_entries_per_block = 0, num_blocks = 0, num_map_blocks = 0,
     num_ptr_blocks = 0, instance_size = 0x4000000, bdev_size = 0x200000\<rparr>"

theorem build_configuration_capacity_witness:
  "\<exists>cfg'. build_configuration demo_config 4 1 = Some cfg' \<and>
    unat (map_entry_sz cfg') = 64 \<and> unat (num_blocks cfg') = 16384 \<and>
    16384 \<le> unat (num_map_entries_per_block cfg') * unat (num_map_blocks cfg')"
  using build_configuration_capacity [of 4 demo_config 1] by (auto simp: demo_config_def)

end
