(* ===== verification/Afs_Map.thy ===== *)
theory Afs_Map
  imports Afs_Format Afs_Crypto "HOL-Library.Monad_Syntax"
begin

text \<open>
  The map of an instance and its image in map blocks, from \<open>src/src/dm_afs_metadata.c\<close>: creating
  the map, packing it into map blocks, writing them to the device, and reading them back when an
  instance is mounted. The pointers \<open>sb\<close> and \<open>fs\<close> that the C functions take are, in every
  call of the driver, those to the fields \<open>super_block\<close> and \<open>passive_fs\<close> of the instance, so
  the model takes the instance alone.

  A result \<open>None\<close> stands for a call that does not return or that reads or writes outside an
  object; \<open>peek\<close> and \<open>poke\<close> are the checked accesses. Sizes and offsets are computed in the
  widths of the source.
\<close>

section \<open>Memory\<close>

definition peek :: "bytes \<Rightarrow> nat \<Rightarrow> nat \<Rightarrow> bytes option" where
  "peek m off n = (if off + n \<le> length m then Some (sub m off n) else None)"

definition poke :: "bytes \<Rightarrow> nat \<Rightarrow> bytes \<Rightarrow> bytes option" where
  "poke m off bs = (if off + length bs \<le> length m then Some (blit m off bs) else None)"

text \<open>\<open>vmalloc\<close> refuses a size of 0; \<open>uninit\<close> is what a local array holds at first.\<close>

definition vmalloc :: "nat \<Rightarrow> kernel \<Rightarrow> bytes option \<times> kernel" where
  "vmalloc n k = (if n = 0 then (None, k) else kmalloc n k)"

definition uninit :: "nat \<Rightarrow> kernel \<Rightarrow> bytes" where
  "uninit n k = map (k_junk k (k_allocs k)) [0..<n]"

text \<open>\<open>strncpy\<close> stops at a NUL and pads with NULs.\<close>

definition strncpy :: "nat \<Rightarrow> bytes \<Rightarrow> bytes" where
  "strncpy n src = (let s = takeWhile (\<lambda>c. c \<noteq> 0) (take n src) in s @ replicate (n - length s) 0)"

section \<open>The map in memory\<close>

fun put_tuples :: "nat \<Rightarrow> bytes \<Rightarrow> nat \<Rightarrow> (bytes \<times> nat) option" where
  "put_tuples 0 m p = Some (m, p)"
| "put_tuples (Suc n) m p = do {
     m \<leftarrow> poke m p (tuple_bytes \<lparr>carrier_block_ptr = AFS_INVALID_BLOCK, checksum = 0\<rparr>);
     put_tuples n m (p + 6) }"

fun create_map_loop :: "afs_config \<Rightarrow> nat \<Rightarrow> u32 \<Rightarrow> bytes \<Rightarrow> bytes option" where
  "create_map_loop cfg 0 i m = Some m"
| "create_map_loop cfg (Suc n) i m = do {
     (m, p) \<leftarrow> put_tuples (unat (num_carrier_blocks cfg)) m (unat (i * ucast (map_entry_sz cfg)));
     m \<leftarrow> poke m p (replicate (CARRIER_HASH_SZ + ENTROPY_HASH_SZ) 0);
     create_map_loop cfg n (i + 1) m }"

definition afs_create_map :: "afs_private \<Rightarrow> kernel \<Rightarrow> (int \<times> afs_private \<times> kernel) option" where
  "afs_create_map ctx k =
     (let cfg = config ctx in
      case vmalloc (unat (num_blocks cfg * ucast (map_entry_sz cfg))) k of
        (None, k) \<Rightarrow> Some (- ENOMEM, ctx, k)
      | (Some map_entries, k) \<Rightarrow> do {
          map_entries \<leftarrow> create_map_loop cfg (unat (num_blocks cfg)) 0 map_entries;
          Some (0, ctx\<lparr>afs_map := Some map_entries\<rparr>, k) })"

section \<open>Map blocks\<close>

text \<open>How many entries the next map block takes.\<close>

definition entries_now :: "afs_config \<Rightarrow> u32 \<Rightarrow> u32" where
  "entries_now cfg entries_done =
     (let entries_left = num_blocks cfg - entries_done; per = ucast (num_map_entries_per_block cfg)
      in if entries_left \<le> per then entries_left else per)"

fun map_blocks_loop ::
  "afs_config \<Rightarrow> bytes \<Rightarrow> nat \<Rightarrow> nat \<Rightarrow> u32 \<Rightarrow> bytes \<Rightarrow> kernel \<Rightarrow> (u32 \<times> bytes \<times> kernel) option" where
  "map_blocks_loop cfg amap 0 ptr entries_written mb k = Some (entries_written, mb, k)"
| "map_blocks_loop cfg amap (Suc n) ptr entries_written mb k =
     (let sz = ucast (map_entry_sz cfg) :: u32;
          entries_start = ptr + SHA512_SZ + unat (unused_space_per_block cfg);
          cnt = entries_now cfg entries_written
      in do {
        src \<leftarrow> peek amap (unat (entries_written * sz)) (unat (cnt * sz));
        mb \<leftarrow> poke mb entries_start src;
        data \<leftarrow> peek mb entries_start (4096 - SHA512_SZ - unat (unused_space_per_block cfg));
        digest \<leftarrow> peek mb ptr SHA512_SZ;
        (let (ret, digest, k) = hash_sha512 data digest k in do {
           mb \<leftarrow> poke mb ptr digest;
           map_blocks_loop cfg amap n (ptr + 4096) (entries_written + cnt) mb k }) })"

definition afs_create_map_blocks :: "afs_private \<Rightarrow> kernel \<Rightarrow> (int \<times> afs_private \<times> kernel) option" where
  "afs_create_map_blocks ctx k =
     (let cfg = config ctx; sz = unat (4096 * num_map_blocks cfg) in
      case vmalloc sz k of
        (None, k) \<Rightarrow> Some (- ENOMEM, ctx, k)
      | (Some map_blocks, k) \<Rightarrow> do {
          amap \<leftarrow> afs_map ctx;
          (entries_written, map_blocks, k) \<leftarrow>
            map_blocks_loop cfg amap (unat (num_map_blocks cfg)) 0 0 (replicate sz 0) k;
          if entries_written \<noteq> num_blocks cfg then Some (- EIO, ctx, k)
          else Some (0, ctx\<lparr>afs_map_blocks := Some map_blocks\<rparr>, k) })"

section \<open>Writing the map blocks\<close>

text \<open>The block for the next map block: a fresh one, or on an update the one recorded before.\<close>

definition map_block_num ::
  "bool \<Rightarrow> u32 \<Rightarrow> afs_private \<Rightarrow> kernel \<Rightarrow> (u32 \<times> afs_private \<times> kernel) option" where
  "map_block_num update recorded ctx k =
     (if \<not> update then do {
        (block_num, v, k) \<leftarrow> acquire_block (passive_fs ctx) (vector ctx) k;
        Some (block_num, ctx\<lparr>vector := v\<rparr>, k) }
      else Some (recorded, ctx, k))"

text \<open>The first component of a loop's result is the value it returns from the whole function,
  if it does.\<close>

type_synonym map_write = "int option \<times> afs_private \<times> u32 \<times> kernel"

fun write_map_sb_loop ::
  "bool \<Rightarrow> nat \<Rightarrow> nat \<Rightarrow> afs_private \<Rightarrow> u32 \<Rightarrow> kernel \<Rightarrow> map_write option" where
  "write_map_sb_loop update 0 i ctx blocks_written k = Some (None, ctx, blocks_written, k)"
| "write_map_sb_loop update (Suc n) i ctx blocks_written k =
     (if num_map_blocks (config ctx) - blocks_written = 0 then Some (Some 0, ctx, blocks_written, k)
      else do {
        (block_num, ctx, k) \<leftarrow> map_block_num update (sb_map_block_ptrs (super_block ctx) ! i) ctx k;
        if \<not> update \<and> block_num = AFS_INVALID_BLOCK then Some (Some (- ENOSPC), ctx, blocks_written, k)
        else do {
          let ctx = (if update then ctx else ctx\<lparr>super_block := (super_block ctx)\<lparr>
            sb_map_block_ptrs := (sb_map_block_ptrs (super_block ctx))[i := block_num]\<rparr>\<rparr>);
          mb \<leftarrow> afs_map_blocks ctx;
          page \<leftarrow> peek mb (unat (blocks_written * AFS_BLOCK_SIZE)) 4096;
          (ret, k) \<leftarrow> write_page True page block_num (data_start_off (passive_fs ctx)) True k;
          if ret \<noteq> 0 then Some (Some ret, ctx, blocks_written, k)
          else write_map_sb_loop update n (Suc i) ctx (blocks_written + 1) k } })"

fun write_map_pb_inner ::
  "bool \<Rightarrow> nat \<Rightarrow> nat \<Rightarrow> nat \<Rightarrow> afs_private \<Rightarrow> u32 \<Rightarrow> kernel \<Rightarrow> map_write option" where
  "write_map_pb_inner update 0 i j ctx blocks_written k = Some (None, ctx, blocks_written, k)"
| "write_map_pb_inner update (Suc n) i j ctx blocks_written k =
     (if num_map_blocks (config ctx) - blocks_written = 0 then Some (None, ctx, blocks_written, k)
      else do {
        (block_num, ctx, k) \<leftarrow> map_block_num update (pb_map_block_ptrs (afs_ptr_blocks ctx ! i) ! j) ctx k;
        if \<not> update \<and> block_num = AFS_INVALID_BLOCK then Some (Some (- ENOSPC), ctx, blocks_written, k)
        else do {
          let ctx = (if update then ctx else ctx\<lparr>afs_ptr_blocks := (afs_ptr_blocks ctx)[i :=
            (afs_ptr_blocks ctx ! i)\<lparr>pb_map_block_ptrs :=
               (pb_map_block_ptrs (afs_ptr_blocks ctx ! i))[j := block_num]\<rparr>]\<rparr>);
          mb \<leftarrow> afs_map_blocks ctx;
          page \<leftarrow> peek mb (unat (blocks_written * AFS_BLOCK_SIZE)) 4096;
          (ret, k) \<leftarrow> write_page True page block_num (data_start_off (passive_fs ctx)) True k;
          if ret \<noteq> 0 then Some (Some ret, ctx, blocks_written, k)
          else write_map_pb_inner update n i (Suc j) ctx (blocks_written + 1) k } })"

fun write_map_pb_loop ::
  "bool \<Rightarrow> nat \<Rightarrow> nat \<Rightarrow> afs_private \<Rightarrow> u32 \<Rightarrow> kernel \<Rightarrow> map_write option" where
  "write_map_pb_loop update 0 i ctx blocks_written k = Some (None, ctx, blocks_written, k)"
| "write_map_pb_loop update (Suc n) i ctx blocks_written k = do {
     (ret, ctx, blocks_written, k) \<leftarrow>
       write_map_pb_inner update (unat NUM_MAP_BLKS_IN_PB) i 0 ctx blocks_written k;
     case ret of
       Some r \<Rightarrow> Some (Some r, ctx, blocks_written, k)
     | None \<Rightarrow> write_map_pb_loop update n (Suc i) ctx blocks_written k }"

definition write_map_blocks :: "afs_private \<Rightarrow> bool \<Rightarrow> kernel \<Rightarrow> (int \<times> afs_private \<times> kernel) option" where
  "write_map_blocks ctx update k = do {
     (ret, ctx, blocks_written, k) \<leftarrow> write_map_sb_loop update (unat NUM_MAP_BLKS_IN_SB) 0 ctx 0 k;
     case ret of
       Some r \<Rightarrow> Some (r, ctx, k)
     | None \<Rightarrow> do {
         (ret, ctx, blocks_written, k) \<leftarrow>
           write_map_pb_loop update (unat (num_ptr_blocks (config ctx))) 0 ctx blocks_written k;
         case ret of Some r \<Rightarrow> Some (r, ctx, k) | None \<Rightarrow> Some (0, ctx, k) } }"

section \<open>Reading the map back\<close>

text \<open>What \<open>afs_fill_map\<close> copies out of one map block; the flag says that it was the last.\<close>

definition take_entries :: "afs_config \<Rightarrow> bytes \<Rightarrow> bytes \<Rightarrow> u32 \<Rightarrow> (bytes \<times> u32 \<times> bool) option" where
  "take_entries cfg map_block amap entries_read =
     (let sz = ucast (map_entry_sz cfg) :: u32; cnt = entries_now cfg entries_read in do {
        src \<leftarrow> peek map_block (SHA512_SZ + unat (unused_space_per_block cfg)) (unat (cnt * sz));
        amap \<leftarrow> poke amap (unat (entries_read * sz)) src;
        Some (amap, entries_read + cnt,
              num_blocks cfg - entries_read \<le> ucast (num_map_entries_per_block cfg)) })"

text \<open>Read one map block and copy its entries: the body that both loops share.\<close>

definition read_map_block ::
  "u32 \<Rightarrow> afs_private \<Rightarrow> bytes \<Rightarrow> u32 \<Rightarrow> kernel \<Rightarrow> (int \<times> bool \<times> afs_private \<times> bytes \<times> u32 \<times> kernel) option" where
  "read_map_block block_num ctx map_block entries_read k = do {
     (ret, map_block, k) \<leftarrow> read_page True map_block block_num (data_start_off (passive_fs ctx)) False k;
     if ret \<noteq> 0 then Some (ret, True, ctx, map_block, entries_read, k)
     else do {
       let ctx = ctx\<lparr>vector := snd (allocation_set (vector ctx) block_num)\<rparr>;
       amap \<leftarrow> afs_map ctx;
       (amap, entries_read, stop) \<leftarrow> take_entries (config ctx) map_block amap entries_read;
       Some (0, stop, ctx\<lparr>afs_map := Some amap\<rparr>, map_block, entries_read, k) } }"

fun fill_sb_loop ::
  "nat \<Rightarrow> nat \<Rightarrow> afs_private \<Rightarrow> bytes \<Rightarrow> u32 \<Rightarrow> kernel \<Rightarrow> (int \<times> afs_private \<times> bytes \<times> u32 \<times> kernel) option" where
  "fill_sb_loop 0 i ctx map_block entries_read k = Some (0, ctx, map_block, entries_read, k)"
| "fill_sb_loop (Suc n) i ctx map_block entries_read k = do {
     (ret, stop, ctx, map_block, entries_read, k) \<leftarrow>
       read_map_block (sb_map_block_ptrs (super_block ctx) ! i) ctx map_block entries_read k;
     if ret \<noteq> 0 \<or> stop then Some (ret, ctx, map_block, entries_read, k)
     else fill_sb_loop n (Suc i) ctx map_block entries_read k }"

text \<open>The loop over a pointer block increments \<open>i\<close>, the counter of pointer blocks, and leaves
  \<open>j\<close> at 0.\<close>

partial_function (option) fill_pb_inner ::
  "afs_ptr_block \<Rightarrow> u32 \<Rightarrow> afs_private \<Rightarrow> bytes \<Rightarrow> u32 \<Rightarrow> kernel \<Rightarrow>
   (int \<times> u32 \<times> afs_private \<times> bytes \<times> u32 \<times> kernel) option" where
  "fill_pb_inner pb i ctx map_block entries_read k =
     (case read_map_block (pb_map_block_ptrs pb ! 0) ctx map_block entries_read k of
        None \<Rightarrow> None
      | Some (ret, stop, ctx, map_block, entries_read, k) \<Rightarrow>
          if ret \<noteq> 0 \<or> stop then Some (ret, i, ctx, map_block, entries_read, k)
          else fill_pb_inner pb (i + 1) ctx map_block entries_read k)"

declare fill_pb_inner.simps [code]

partial_function (option) fill_pb_loop ::
  "afs_ptr_block \<Rightarrow> u32 \<Rightarrow> afs_private \<Rightarrow> bytes \<Rightarrow> u32 \<Rightarrow> kernel \<Rightarrow>
   (int \<times> afs_private \<times> u32 \<times> kernel) option" where
  "fill_pb_loop pb i ctx map_block entries_read k =
     (if i < num_ptr_blocks (config ctx) then
        (let next_block = (if i = 0 then sb_first_ptr_block (super_block ctx) else pb_next_ptr_block pb) in
         case read_page True (pb_bytes pb) next_block (data_start_off (passive_fs ctx)) False k of
           None \<Rightarrow> None
         | Some (ret, page, k) \<Rightarrow>
             if ret \<noteq> 0 then Some (ret, ctx, entries_read, k)
             else
               (let pb = pb_of_bytes page;
                    ctx = ctx\<lparr>vector := snd (allocation_set (vector ctx) next_block)\<rparr>
                in case fill_pb_inner pb i ctx map_block entries_read k of
                     None \<Rightarrow> None
                   | Some (ret, i, ctx, map_block, entries_read, k) \<Rightarrow>
                       if ret \<noteq> 0 then Some (ret, ctx, entries_read, k)
                       else fill_pb_loop pb (i + 1) ctx map_block entries_read k))
      else Some (0, ctx, entries_read, k))"

declare fill_pb_loop.simps [code]

definition afs_fill_map :: "afs_private \<Rightarrow> kernel \<Rightarrow> (int \<times> afs_private \<times> kernel) option" where
  "afs_fill_map ctx k =
     (let (map_block, k) = kmalloc 4096 k; (ptr_block, k) = kmalloc 4096 k in
      case (map_block, ptr_block) of
        (Some map_block, Some ptr_block) \<Rightarrow> do {
          (ret, ctx, map_block, entries_read, k) \<leftarrow>
            fill_sb_loop (unat NUM_MAP_BLKS_IN_SB) 0 ctx map_block 0 k;
          if ret \<noteq> 0 then Some (ret, ctx, k)
          else do {
            (ret, ctx, entries_read, k) \<leftarrow>
              fill_pb_loop (pb_of_bytes ptr_block) 0 ctx map_block entries_read k;
            if ret \<noteq> 0 then Some (ret, ctx, k)
            else if entries_read \<noteq> num_blocks (config ctx) then Some (- EIO, ctx, k)
            else Some (0, ctx, k) } }
      | _ \<Rightarrow> Some (- ENOMEM, ctx, k))"

fun rebuild_tuples :: "nat \<Rightarrow> bytes \<Rightarrow> nat \<Rightarrow> afs_allocation_vector \<Rightarrow> afs_allocation_vector option" where
  "rebuild_tuples 0 m p v = Some v"
| "rebuild_tuples (Suc n) m p v = do {
     b \<leftarrow> peek m p 4;
     rebuild_tuples n m (p + 6) (snd (allocation_set v (le_word b))) }"

fun rebuild_entries ::
  "afs_config \<Rightarrow> bytes \<Rightarrow> nat \<Rightarrow> u32 \<Rightarrow> afs_allocation_vector \<Rightarrow> afs_allocation_vector option" where
  "rebuild_entries cfg m 0 i v = Some v"
| "rebuild_entries cfg m (Suc n) i v = do {
     v \<leftarrow> rebuild_tuples (unat (num_carrier_blocks cfg)) m (unat (i * ucast (map_entry_sz cfg))) v;
     rebuild_entries cfg m n (i + 1) v }"

definition rebuild_allocation_vector :: "afs_private \<Rightarrow> afs_private option" where
  "rebuild_allocation_vector ctx = do {
     m \<leftarrow> afs_map ctx;
     v \<leftarrow> rebuild_entries (config ctx) m (unat (num_blocks (config ctx))) 0 (vector ctx);
     Some (ctx\<lparr>vector := v\<rparr>) }"

section \<open>Checked accesses\<close>

lemma peek_append [simp]: "peek (pre @ m) (length pre + off) n = peek m off n"
  by (simp add: peek_def sub_def)

lemma poke_append: "poke (pre @ m) (length pre + off) bs = map_option ((@) pre) (poke m off bs)"
  by (simp add: poke_def blit_def)

lemma peek_prefix: "off + n \<le> length m \<Longrightarrow> peek (m @ post) off n = peek m off n"
  by (simp add: peek_def sub_def)

lemma poke_prefix: "off + length bs \<le> length m \<Longrightarrow> poke (m @ post) off bs = map_option (\<lambda>m. m @ post) (poke m off bs)"
  by (simp add: poke_def blit_def)

lemma peek_eq: "off + n \<le> length m \<Longrightarrow> peek m off n = Some (sub m off n)"
  by (simp add: peek_def)

lemma poke_eq: "off + length bs \<le> length m \<Longrightarrow> poke m off bs = Some (blit m off bs)"
  by (simp add: poke_def)

lemma poke_head: "length bs = length pre \<Longrightarrow> poke (pre @ m) 0 bs = Some (bs @ m)"
  by (simp add: poke_def blit_def)

section \<open>The geometry of the map\<close>

text \<open>The fields of a configuration as natural numbers, and the condition under which no offset into
  the map wraps; it holds for every instance whose map blocks the super block alone can list.\<close>

abbreviation cnb :: "afs_config \<Rightarrow> nat" where "cnb cfg \<equiv> unat (num_blocks cfg)"
abbreviation cper :: "afs_config \<Rightarrow> nat" where "cper cfg \<equiv> unat (num_map_entries_per_block cfg)"
abbreviation csz :: "afs_config \<Rightarrow> nat" where "csz cfg \<equiv> unat (map_entry_sz cfg)"
abbreviation cun :: "afs_config \<Rightarrow> nat" where "cun cfg \<equiv> unat (unused_space_per_block cfg)"
abbreviation cnm :: "afs_config \<Rightarrow> nat" where "cnm cfg \<equiv> unat (num_map_blocks cfg)"

definition map_geom :: "afs_config \<Rightarrow> bool" where
  "map_geom cfg \<longleftrightarrow> cfg_ok cfg \<and> 0 < cnb cfg \<and> cnb cfg * csz cfg < 2 ^ 32"

definition entries_pos :: "afs_config \<Rightarrow> nat \<Rightarrow> nat" where
  "entries_pos cfg i = min (cnb cfg) (i * cper cfg)"

lemma cfg_okD:
  assumes "cfg_ok cfg"
  shows "cper cfg * csz cfg + cun cfg = 4032" "0 < cper cfg" "0 < csz cfg"
    "cnb cfg \<le> cper cfg * cnm cfg" "cper cfg * cnm cfg < cnb cfg + cper cfg"
    "csz cfg = 40 + 6 * unat (num_carrier_blocks cfg)" "unat (num_ptr_blocks cfg) = ceil_div (cnm cfg - 975) 1019"
proof -
  from assms show "cper cfg * csz cfg + cun cfg = 4032" and per: "0 < cper cfg" and "0 < csz cfg"
    and "csz cfg = 40 + 6 * unat (num_carrier_blocks cfg)"
    unfolding cfg_ok_def by linarith+
  have nm: "cnm cfg = ceil_div (cnb cfg) (cper cfg)" and "unat (num_ptr_blocks cfg) = ceil_div (cnm cfg - 975) 1019"
    using assms unfolding cfg_ok_def by blast+
  then show "unat (num_ptr_blocks cfg) = ceil_div (cnm cfg - 975) 1019" by simp
  show "cnb cfg \<le> cper cfg * cnm cfg" "cper cfg * cnm cfg < cnb cfg + cper cfg"
    using ceil_div_bounds [OF per, of "cnb cfg"] unfolding nm by blast+
qed

lemma map_geomD:
  assumes "map_geom cfg"
  shows "cper cfg * csz cfg + cun cfg = 4032" "0 < cper cfg" "0 < csz cfg"
    "cnb cfg \<le> cper cfg * cnm cfg" "cper cfg * cnm cfg < cnb cfg + cper cfg"
    "0 < cnb cfg" "0 < cnm cfg" "csz cfg = 40 + 6 * unat (num_carrier_blocks cfg)"
  using assms cfg_okD [of cfg] by (auto simp: map_geom_def intro: gr0I)

lemma map_geomI:
  assumes "cfg_ok cfg" "0 < cnb cfg" "cnm cfg \<le> 975"
  shows "map_geom cfg" "num_ptr_blocks cfg = 0"
proof -
  note c = cfg_okD [OF assms(1)]
  have "cnb cfg * csz cfg \<le> (cper cfg * cnm cfg) * csz cfg" using c(4) by (rule mult_right_mono) simp
  also have "\<dots> = cnm cfg * (cper cfg * csz cfg)" by simp
  also have "\<dots> \<le> 975 * 4032" using c(1) assms(3) by (intro mult_mono) simp_all
  finally show "map_geom cfg" using assms by (simp add: map_geom_def)
  show "num_ptr_blocks cfg = 0" using c(7) assms(3) by (simp add: ceil_div_def unat_eq_0)
qed

lemma geom_mult:
  assumes "map_geom cfg" "unat (e :: u32) \<le> cnb cfg"
  shows "unat (e * ucast (map_entry_sz cfg)) = unat e * csz cfg"
proof -
  have "unat e * csz cfg \<le> cnb cfg * csz cfg" using assms(2) by (rule mult_right_mono) simp
  also have "\<dots> < 2 ^ 32" using assms(1) by (simp add: map_geom_def)
  finally show ?thesis by (simp add: unat_word_ariths unat_ucast_up)
qed

lemma entries_pos_le: "entries_pos cfg i \<le> cnb cfg"
  by (simp add: entries_pos_def)

lemma unat_entries_pos [simp]: "unat (of_nat (entries_pos cfg i) :: u32) = entries_pos cfg i"
proof -
  have "cnb cfg < 2 ^ LENGTH(32)" by (rule unsigned_less)
  then show ?thesis using entries_pos_le [of cfg i] by (simp add: unat_of_nat)
qed

lemma entries_pos_step:
  "entries_pos cfg (Suc i) = entries_pos cfg i + min (cper cfg) (cnb cfg - entries_pos cfg i)"
proof -
  obtain c where "c = i * cper cfg" by simp
  then show ?thesis by (auto simp: entries_pos_def)
qed

lemma unat_entries_now:
  "unat (entries_now cfg (of_nat (entries_pos cfg i))) = min (cper cfg) (cnb cfg - entries_pos cfg i)"
proof -
  have "unat (num_blocks cfg - of_nat (entries_pos cfg i)) = cnb cfg - entries_pos cfg i"
    using entries_pos_le [of cfg i] by (simp add: unat_sub word_le_nat_alt)
  then show ?thesis
    by (auto simp: entries_now_def Let_def word_le_nat_alt unat_ucast_up)
qed

lemma entries_now_step:
  "of_nat (entries_pos cfg i) + entries_now cfg (of_nat (entries_pos cfg i)) = of_nat (entries_pos cfg (Suc i))"
  (is "?l = ?r")
proof (rule unsigned_word_eqI)
  have "cnb cfg < 2 ^ LENGTH(32)" by (rule unsigned_less)
  then have "entries_pos cfg (Suc i) < 2 ^ 32" using entries_pos_le [of cfg "Suc i"] by simp
  moreover have "unat ?l = (entries_pos cfg i + min (cper cfg) (cnb cfg - entries_pos cfg i)) mod 2 ^ 32"
    by (simp only: unat_word_ariths unat_entries_now unat_entries_pos) simp
  moreover have "unat ?r = entries_pos cfg i + min (cper cfg) (cnb cfg - entries_pos cfg i)"
    by (rule trans [OF unat_entries_pos entries_pos_step])
  ultimately show "unat ?l = unat ?r" unfolding entries_pos_step [of cfg i] by simp
qed

lemma entries_pos_0 [simp]: "entries_pos cfg 0 = 0"
  by (simp add: entries_pos_def)

lemma entries_pos_end: "map_geom cfg \<Longrightarrow> entries_pos cfg (cnm cfg) = cnb cfg"
  using map_geomD(4) [of cfg] by (simp add: entries_pos_def mult.commute)

lemma entries_pos_before_end:
  assumes "map_geom cfg" "i < cnm cfg"
  shows "entries_pos cfg i < cnb cfg" "cnb cfg - entries_pos cfg i \<le> cper cfg \<longleftrightarrow> Suc i = cnm cfg"
proof -
  note g = map_geomD [OF assms(1)]
  have "Suc i * cper cfg \<le> cnm cfg * cper cfg" using assms(2) by (intro mult_right_mono) simp_all
  then have lt: "i * cper cfg < cnb cfg" using g(5) by (simp add: mult.commute)
  then show "entries_pos cfg i < cnb cfg" by (simp add: entries_pos_def)
  have "cnb cfg \<le> Suc i * cper cfg \<longleftrightarrow> Suc i = cnm cfg"
  proof
    assume "cnb cfg \<le> Suc i * cper cfg"
    then have "cper cfg * cnm cfg < cper cfg * (Suc i + 1)" using g(5) by (simp add: algebra_simps)
    then have "cnm cfg < Suc i + 1" by (simp only: mult_less_cancel1)
    then show "Suc i = cnm cfg" using assms(2) by simp
  next
    assume "Suc i = cnm cfg"
    then show "cnb cfg \<le> Suc i * cper cfg" using g(4) by (metis mult.commute)
  qed
  then show "cnb cfg - entries_pos cfg i \<le> cper cfg \<longleftrightarrow> Suc i = cnm cfg"
    using lt by (simp add: entries_pos_def) linarith
qed

section \<open>A new map\<close>

definition invalid_tuple :: bytes where
  "invalid_tuple = tuple_bytes \<lparr>carrier_block_ptr = AFS_INVALID_BLOCK, checksum = 0\<rparr>"

definition invalid_entry :: "nat \<Rightarrow> bytes" where
  "invalid_entry n = concat (replicate n invalid_tuple) @ replicate 40 0"

lemma length_invalid [simp, afs_len]: "length invalid_tuple = 6" "length (invalid_entry n) = 40 + 6 * n"
  by (simp_all add: invalid_tuple_def tuple_bytes_def invalid_entry_def length_concat sum_list_replicate)

lemma put_tuples_eq:
  assumes "length m = 6 * n + r"
  shows "put_tuples n (pre @ m) (length pre) =
    Some (pre @ concat (replicate n invalid_tuple) @ drop (6 * n) m, length pre + 6 * n)"
  using assms
proof (induction n arbitrary: pre m)
  case (Suc n)
  have "poke (pre @ m) (length pre + 0) invalid_tuple = Some ((pre @ invalid_tuple) @ drop 6 m)"
    unfolding poke_append using Suc.prems by (simp add: poke_def blit_def)
  moreover have "put_tuples n ((pre @ invalid_tuple) @ drop 6 m) (length (pre @ invalid_tuple)) =
      Some ((pre @ invalid_tuple) @ concat (replicate n invalid_tuple) @ drop (6 * n) (drop 6 m),
        length (pre @ invalid_tuple) + 6 * n)"
    using Suc.prems by (intro Suc.IH) simp
  ultimately show ?case by (simp add: invalid_tuple_def [symmetric] add.commute)
qed simp

lemma create_map_loop_eq:
  assumes "map_geom cfg" "i + n = cnb cfg" "length m = n * csz cfg" "length pre = i * csz cfg"
  shows "create_map_loop cfg n (of_nat i) (pre @ m) =
    Some (pre @ concat (replicate n (invalid_entry (unat (num_carrier_blocks cfg)))))"
  using assms(2-)
proof (induction n arbitrary: i pre m)
  case (Suc n)
  let ?c = "unat (num_carrier_blocks cfg)"
  have sz: "csz cfg = 40 + 6 * ?c" using map_geomD(8) [OF assms(1)] .
  have "cnb cfg < 2 ^ LENGTH(32)" by (rule unsigned_less)
  then have i: "unat (of_nat i :: u32) = i" using Suc.prems(1) by (simp add: unat_of_nat)
  then have off: "unat ((of_nat i :: u32) * ucast (map_entry_sz cfg)) = length pre"
    using geom_mult [OF assms(1), of "of_nat i"] Suc.prems by simp
  have m: "length m = 6 * ?c + (40 + n * csz cfg)" using Suc.prems(2) sz by simp
  define tup where "tup = pre @ concat (replicate ?c invalid_tuple)"
  have tup: "length tup = length pre + 6 * ?c" by (simp add: tup_def length_concat sum_list_replicate)
  have "put_tuples ?c (pre @ m) (length pre) = Some (tup @ drop (6 * ?c) m, length pre + 6 * ?c)"
    using put_tuples_eq [OF m] by (simp add: tup_def)
  moreover have "poke (tup @ drop (6 * ?c) m) (length tup + 0) (replicate 40 0) =
      Some ((pre @ invalid_entry ?c) @ drop (csz cfg) m)"
    unfolding poke_append using m by (simp add: poke_def blit_def tup_def invalid_entry_def sz)
  moreover have "create_map_loop cfg n (of_nat (Suc i)) ((pre @ invalid_entry ?c) @ drop (csz cfg) m) =
      Some ((pre @ invalid_entry ?c) @ concat (replicate n (invalid_entry ?c)))"
    using Suc.prems sz by (intro Suc.IH) simp_all
  moreover have "of_nat i + 1 = (of_nat (Suc i) :: u32)" by simp
  moreover have "CARRIER_HASH_SZ + ENTROPY_HASH_SZ = 40" by (simp add: size_consts)
  ultimately show ?case
    unfolding create_map_loop.simps off by (simp only: tup bind.bind_lunit prod.case add_0_right) simp
qed simp

lemma vmalloc_ok: "alloc_ok k \<Longrightarrow> 0 < n \<Longrightarrow>
    vmalloc n k = (Some (uninit n k), k\<lparr>k_allocs := Suc (k_allocs k)\<rparr>)"
  by (simp add: vmalloc_def kmalloc_alloc_ok uninit_def)

lemma length_uninit [simp, afs_len]: "length (uninit n k) = n"
  by (simp add: uninit_def)

lemma afs_create_map_eq:
  assumes "map_geom (config ctx)" "alloc_ok k"
  shows "afs_create_map ctx k = Some (0, ctx\<lparr>afs_map := Some (concat (replicate (cnb (config ctx))
      (invalid_entry (unat (num_carrier_blocks (config ctx))))))\<rparr>, k\<lparr>k_allocs := Suc (k_allocs k)\<rparr>)"
proof -
  note g = map_geomD [OF assms(1)]
  have "unat (num_blocks (config ctx) * ucast (map_entry_sz (config ctx))) = cnb (config ctx) * csz (config ctx)"
    using geom_mult [OF assms(1)] by simp
  moreover have "create_map_loop (config ctx) (cnb (config ctx)) (of_nat 0)
      ([] @ uninit (cnb (config ctx) * csz (config ctx)) k) =
      Some ([] @ concat (replicate (cnb (config ctx)) (invalid_entry (unat (num_carrier_blocks (config ctx))))))"
    using assms(1) by (intro create_map_loop_eq) simp_all
  ultimately show ?thesis
    using vmalloc_ok [OF assms(2), of "cnb (config ctx) * csz (config ctx)"] g(3,6)
    by (simp add: afs_create_map_def Let_def)
qed

section \<open>The image of the map\<close>

text \<open>What map block \<open>i\<close> holds: the digest, the unused bytes, the entries, and zeros behind them.\<close>

definition map_chunk :: "afs_config \<Rightarrow> bytes \<Rightarrow> nat \<Rightarrow> bytes" where
  "map_chunk cfg amap i = sub amap (entries_pos cfg i * csz cfg)
     ((entries_pos cfg (Suc i) - entries_pos cfg i) * csz cfg)"

definition map_body :: "afs_config \<Rightarrow> bytes \<Rightarrow> nat \<Rightarrow> bytes" where
  "map_body cfg amap i = map_chunk cfg amap i @
     replicate (cper cfg * csz cfg - length (map_chunk cfg amap i)) 0"

definition map_image :: "(bytes \<Rightarrow> bytes) \<Rightarrow> afs_config \<Rightarrow> bytes \<Rightarrow> nat \<Rightarrow> bytes" where
  "map_image sha cfg amap i = sha (map_body cfg amap i) @ replicate (cun cfg) 0 @ map_body cfg amap i"

lemma length_map_chunk:
  assumes "length amap = cnb cfg * csz cfg"
  shows "length (map_chunk cfg amap i) = (entries_pos cfg (Suc i) - entries_pos cfg i) * csz cfg"
    and "length (map_chunk cfg amap i) \<le> cper cfg * csz cfg"
proof -
  have "entries_pos cfg i * csz cfg + (entries_pos cfg (Suc i) - entries_pos cfg i) * csz cfg =
      entries_pos cfg (Suc i) * csz cfg"
    by (simp add: entries_pos_step distrib_right)
  also have "\<dots> \<le> length amap" using assms entries_pos_le [of cfg "Suc i"] by (simp add: mult_right_mono)
  finally show l: "length (map_chunk cfg amap i) = (entries_pos cfg (Suc i) - entries_pos cfg i) * csz cfg"
    by (simp add: map_chunk_def)
  show "length (map_chunk cfg amap i) \<le> cper cfg * csz cfg"
    unfolding l by (intro mult_right_mono) (simp_all add: entries_pos_step)
qed

lemma length_map_body [simp, afs_len]:
  "length amap = cnb cfg * csz cfg \<Longrightarrow> length (map_body cfg amap i) = cper cfg * csz cfg"
  using length_map_chunk(2) [of amap cfg i] by (simp add: map_body_def)

lemma length_map_image:
  assumes "map_geom cfg" "length amap = cnb cfg * csz cfg" "\<And>d. length (sha d) = 64"
  shows "length (map_image sha cfg amap i) = 4096"
  using map_geomD(1) [OF assms(1)] assms(2,3) by (simp add: map_image_def)

lemma hash_sha512_ok:
  assumes "alloc_ok k" "digests_ok k" "length digest = 64"
  shows "hash_sha512 data digest k = (0, k_sha512 k data, k\<lparr>k_allocs := k_allocs k + 2\<rparr>)"
  using assms by (simp add: hash_sha512_def hash_sha_def kmalloc_alloc_ok digests_ok_def)

lemma take_chunk:
  assumes "map_geom cfg" "length amap = cnb cfg * csz cfg"
  shows "peek amap (unat (of_nat (entries_pos cfg i) * ucast (map_entry_sz cfg) :: u32))
    (unat (entries_now cfg (of_nat (entries_pos cfg i)) * ucast (map_entry_sz cfg))) = Some (map_chunk cfg amap i)"
proof -
  have now: "unat (entries_now cfg (of_nat (entries_pos cfg i))) = entries_pos cfg (Suc i) - entries_pos cfg i"
    by (simp add: unat_entries_now entries_pos_step)
  then have "unat (entries_now cfg (of_nat (entries_pos cfg i))) \<le> cnb cfg"
    using entries_pos_le [of cfg "Suc i"] by simp
  from geom_mult [OF assms(1) this] now
  have n: "unat (entries_now cfg (of_nat (entries_pos cfg i)) * ucast (map_entry_sz cfg)) =
      (entries_pos cfg (Suc i) - entries_pos cfg i) * csz cfg" by simp
  have off: "unat (of_nat (entries_pos cfg i) * ucast (map_entry_sz cfg) :: u32) = entries_pos cfg i * csz cfg"
    using geom_mult [OF assms(1), of "of_nat (entries_pos cfg i)"] entries_pos_le by simp
  have "entries_pos cfg i * csz cfg + (entries_pos cfg (Suc i) - entries_pos cfg i) * csz cfg =
      entries_pos cfg (Suc i) * csz cfg"
    by (simp add: entries_pos_step distrib_right)
  also have "\<dots> \<le> length amap" using assms entries_pos_le [of cfg "Suc i"] by (simp add: mult_right_mono)
  finally show ?thesis unfolding n off by (simp add: peek_eq map_chunk_def)
qed

text \<open>One turn of the packing loop turns a zeroed page into the image of the next chunk.\<close>

lemma pack_page:
  assumes "map_geom cfg" "length amap = cnb cfg * csz cfg" "length digest = 64"
    and s_def: "s = 64 + cun cfg" and chunk_def: "chunk = map_chunk cfg amap i"
  shows "poke (replicate 4096 0) s chunk = Some (replicate s 0 @ map_body cfg amap i)"
    and "peek (replicate s 0 @ map_body cfg amap i) s (4032 - cun cfg) = Some (map_body cfg amap i)"
    and "peek (replicate s 0 @ map_body cfg amap i) 0 64 = Some (replicate 64 0)"
    and "poke (replicate s 0 @ map_body cfg amap i) 0 digest = Some (digest @ replicate (cun cfg) 0 @ map_body cfg amap i)"
proof -
  have sz: "cper cfg * csz cfg + cun cfg = 4032" using map_geomD(1) [OF assms(1)] .
  have len: "length chunk \<le> cper cfg * csz cfg" using length_map_chunk(2) [OF assms(2)] by (simp add: chunk_def)
  have "4096 = s + (length chunk + (cper cfg * csz cfg - length chunk))" using sz len by (simp add: s_def)
  then have "replicate 4096 0 = replicate s 0 @ replicate (length chunk) 0 @ replicate (cper cfg * csz cfg - length chunk) (0 :: u8)"
    by (metis replicate_add)
  then have "poke (replicate 4096 0) s chunk = poke (replicate s 0 @ (replicate (length chunk) 0 @
      replicate (cper cfg * csz cfg - length chunk) 0)) (length (replicate s (0 :: u8)) + 0) chunk"
    by simp
  also have "\<dots> = Some (replicate s 0 @ map_body cfg amap i)"
    unfolding poke_append by (simp add: poke_head map_body_def chunk_def)
  finally show "poke (replicate 4096 0) s chunk = Some (replicate s 0 @ map_body cfg amap i)" .
  have "peek (replicate s 0 @ map_body cfg amap i) (length (replicate s (0 :: u8)) + 0) (4032 - cun cfg) = Some (map_body cfg amap i)"
    unfolding peek_append using sz assms(2) by (auto simp: peek_def)
  then show "peek (replicate s 0 @ map_body cfg amap i) s (4032 - cun cfg) = Some (map_body cfg amap i)" by simp
  show "peek (replicate s 0 @ map_body cfg amap i) 0 64 = Some (replicate 64 0)"
    by (simp add: peek_def s_def sub_def)
  show "poke (replicate s 0 @ map_body cfg amap i) 0 digest = Some (digest @ replicate (cun cfg) 0 @ map_body cfg amap i)"
    using assms(3) by (simp add: poke_def blit_def s_def)
qed

lemma map_blocks_loop_eq:
  assumes "map_geom cfg" "length amap = cnb cfg * csz cfg" "alloc_ok k" "digests_ok k"
    and "length pre = 4096 * i"
  shows "map_blocks_loop cfg amap n (4096 * i) (of_nat (entries_pos cfg i)) (pre @ replicate (4096 * n) 0) k =
    Some (of_nat (entries_pos cfg (i + n)),
      pre @ concat (map (map_image (k_sha512 k) cfg amap) [i..<i + n]), k\<lparr>k_allocs := k_allocs k + 2 * n\<rparr>)"
  using assms(3-)
proof (induction n arbitrary: i pre k)
  case (Suc n)
  let ?s = "64 + cun cfg" and ?body = "map_body cfg amap i" and ?k = "k\<lparr>k_allocs := k_allocs k + 2\<rparr>"
  let ?rest = "replicate (4096 * n) (0 :: u8)" and ?img = "map_image (k_sha512 k) cfg amap i"
  have page: "replicate (4096 * Suc n) 0 = replicate 4096 0 @ ?rest"
    by (simp add: replicate_add [symmetric])
  have sz: "cper cfg * csz cfg + cun cfg = 4032" using map_geomD(1) [OF assms(1)] .
  have sha: "length (k_sha512 k d) = 64" for d using Suc.prems(2) by (simp add: digests_ok_def)
  note pack = pack_page [OF assms(1,2) sha refl refl, of i]
  have at: "4096 * i + off = length pre + off" for off using Suc.prems(3) by simp
  have chunk: "?s + length (map_chunk cfg amap i) \<le> length (replicate 4096 (0 :: u8))"
    using length_map_chunk(2) [OF assms(2), of i] sz by simp
  have p1: "poke (pre @ replicate 4096 0 @ ?rest) (4096 * i + 64 + cun cfg) (map_chunk cfg amap i) =
      Some (pre @ (replicate ?s 0 @ ?body) @ ?rest)"
    unfolding at add.assoc poke_append poke_prefix [OF chunk] pack(1) by simp
  have p2: "peek (pre @ (replicate ?s 0 @ ?body) @ ?rest) (4096 * i + 64 + cun cfg) (4032 - cun cfg) = Some ?body"
    unfolding at add.assoc peek_append using sz assms(2) by (subst peek_prefix) (simp_all add: pack(2))
  have p3: "peek (pre @ (replicate ?s 0 @ ?body) @ ?rest) (4096 * i) 64 = Some (replicate 64 0)"
    using at [of 0] peek_append [of pre "(replicate ?s 0 @ ?body) @ ?rest" 0] sz assms(2)
    by (simp only: add_0_right) (subst peek_prefix, simp_all add: pack(3))
  have p4: "poke (pre @ (replicate ?s 0 @ ?body) @ ?rest) (4096 * i) (k_sha512 k ?body) = Some ((pre @ ?img) @ ?rest)"
  proof -
    have "poke (pre @ (replicate ?s 0 @ ?body) @ ?rest) (length pre + 0) (k_sha512 k ?body) =
        map_option ((@) pre) (map_option (\<lambda>m. m @ ?rest) (poke (replicate ?s 0 @ ?body) 0 (k_sha512 k ?body)))"
      unfolding poke_append by (subst poke_prefix) (simp_all add: sha)
    then show ?thesis using at [of 0] unfolding pack(4) by (simp add: map_image_def)
  qed
  note pokes = p1 [unfolded append_assoc] p2 [unfolded append_assoc] p3 [unfolded append_assoc] p4 [unfolded append_assoc]
  have hash: "hash_sha512 ?body (replicate 64 0) k = (0, k_sha512 k ?body, ?k)"
    using Suc.prems by (intro hash_sha512_ok) simp_all
  have "map_blocks_loop cfg amap n (4096 * Suc i) (of_nat (entries_pos cfg (Suc i))) ((pre @ ?img) @ ?rest) ?k =
     Some (of_nat (entries_pos cfg (Suc i + n)),
      (pre @ ?img) @ concat (map (map_image (k_sha512 ?k) cfg amap) [Suc i..<Suc i + n]), ?k\<lparr>k_allocs := k_allocs ?k + 2 * n\<rparr>)"
    using Suc.prems length_map_image [OF assms(1,2) sha] by (intro Suc.IH) (simp_all add: digests_ok_def)
  then have "map_blocks_loop cfg amap (Suc n) (4096 * i) (of_nat (entries_pos cfg i)) (pre @ replicate (4096 * Suc n) 0) k =
     Some (of_nat (entries_pos cfg (Suc i + n)),
      (pre @ ?img) @ concat (map (map_image (k_sha512 k) cfg amap) [Suc i..<Suc i + n]), ?k\<lparr>k_allocs := k_allocs ?k + 2 * n\<rparr>)"
    unfolding page by (simp add: Let_def take_chunk [OF assms(1,2)] SHA512_SZ_def pokes hash
        entries_now_step add.commute [of "4096 * i" 4096] del: upt_Suc)
  moreover have "[i..<i + Suc n] = i # [Suc i..<Suc i + n]" by (simp add: upt_rec)
  ultimately show ?case by simp
qed simp

lemma afs_create_map_blocks_eq:
  assumes "map_geom (config ctx)" "alloc_ok k" "digests_ok k" "afs_map ctx = Some amap"
    and "length amap = cnb (config ctx) * csz (config ctx)" "cnm (config ctx) < 2 ^ 20"
  shows "afs_create_map_blocks ctx k = Some (0,
    ctx\<lparr>afs_map_blocks := Some (concat (map (map_image (k_sha512 k) (config ctx) amap) [0..<cnm (config ctx)]))\<rparr>,
    k\<lparr>k_allocs := Suc (k_allocs k) + 2 * cnm (config ctx)\<rparr>)"
proof -
  let ?cfg = "config ctx" and ?k = "k\<lparr>k_allocs := Suc (k_allocs k)\<rparr>"
  note g = map_geomD [OF assms(1)]
  have sz: "unat (4096 * num_map_blocks ?cfg) = 4096 * cnm ?cfg" using assms(6) by (simp add: unat_word_ariths)
  have "map_blocks_loop ?cfg amap (cnm ?cfg) (4096 * 0) (of_nat (entries_pos ?cfg 0)) ([] @ replicate (4096 * cnm ?cfg) 0) ?k =
    Some (of_nat (entries_pos ?cfg (0 + cnm ?cfg)),
      [] @ concat (map (map_image (k_sha512 ?k) ?cfg amap) [0..<0 + cnm ?cfg]), ?k\<lparr>k_allocs := k_allocs ?k + 2 * cnm ?cfg\<rparr>)"
    using assms by (intro map_blocks_loop_eq) (simp_all add: digests_ok_def)
  then have "map_blocks_loop ?cfg amap (cnm ?cfg) 0 0 (replicate (4096 * cnm ?cfg) 0) ?k =
    Some (num_blocks ?cfg, concat (map (map_image (k_sha512 k) ?cfg amap) [0..<cnm ?cfg]),
      k\<lparr>k_allocs := Suc (k_allocs k) + 2 * cnm ?cfg\<rparr>)"
    using entries_pos_end [OF assms(1)] by simp
  then show ?thesis
    using assms(2,4) g(7) by (simp add: afs_create_map_blocks_def Let_def sz vmalloc_ok)
qed

section \<open>Map blocks on the device\<close>

definition put_pages :: "u32 \<Rightarrow> kernel \<Rightarrow> (u32 \<times> bytes) list \<Rightarrow> kernel" where
  "put_pages off k ps = foldl (\<lambda>k (b, p). put_page off (tick_io k) b p) k ps"

lemma put_pages_frame [simp, afs_frame]:
  "io_ok (put_pages off k ps) = io_ok k" "alloc_ok (put_pages off k ps) = alloc_ok k"
  by (induction ps arbitrary: k) (auto simp: put_pages_def)

lemma put_page_dev_cong:
  "k_dev k = k_dev k' \<Longrightarrow> k_dev (put_page off k b p) = k_dev (put_page off k' b p)"
  by (simp add: put_page_def dev_write_def fun_eq_iff)

lemma put_pages_dev: "k_dev k = k_dev k' \<Longrightarrow> k_dev (put_pages off k ps) = k_dev (dev.wr_all off k' ps)"
proof (induction ps arbitrary: k k')
  case (Cons bp ps)
  obtain b p where "bp = (b, p)" by fastforce
  then show ?case
    using Cons.IH [of "put_page off (tick_io k) b p" "put_page off k' b p"] Cons.prems
      put_page_dev_cong [of "tick_io k" k']
    by (simp add: put_pages_def dev.wr_all_def)
qed (simp add: put_pages_def dev.wr_all_def)

lemma get_page_dev_cong: "k_dev k = k_dev k' \<Longrightarrow> get_page off k b = get_page off k' b"
  by (simp add: get_page_def dev_read_def)

lemma get_put_pages:
  assumes "\<forall>(b, p) \<in> set ps. block_fits off b \<and> length p = 4096" "distinct (map fst ps)" "(b, p) \<in> set ps"
  shows "get_page off (put_pages off k ps) b = p"
  using dev.rd_wr_all [OF assms] get_page_dev_cong [OF put_pages_dev [OF refl]] by simp

lemma write_map_sb_loop_update:
  assumes "io_ok k" "afs_map_blocks ctx = Some mb" "length mb = 4096 * cnm (config ctx)" "cnm (config ctx) \<le> 975"
    and "i \<le> cnm (config ctx)" "cnm (config ctx) \<le> i + n"
  shows "\<exists>r. (r = None \<or> r = Some 0) \<and>
    write_map_sb_loop True n i ctx (of_nat i) k = Some (r, ctx, num_map_blocks (config ctx),
      put_pages (data_start_off (passive_fs ctx)) k
        (map (\<lambda>j. (sb_map_block_ptrs (super_block ctx) ! j, sub mb (4096 * j) 4096)) [i..<cnm (config ctx)]))"
  using assms(1,5,6)
proof (induction n arbitrary: i k)
  case 0
  then have "i = cnm (config ctx)" by simp
  then show ?case by (simp add: put_pages_def)
next
  case (Suc n)
  let ?off = "data_start_off (passive_fs ctx)" and ?nm = "cnm (config ctx)"
  let ?b = "sb_map_block_ptrs (super_block ctx) ! i" and ?p = "sub mb (4096 * i) 4096"
  have i: "unat (of_nat i :: u32) = i" using Suc.prems(2) assms(4) by (simp add: unat_of_nat)
  have left: "num_map_blocks (config ctx) - of_nat i = 0 \<longleftrightarrow> i = ?nm"
    using i by (metis right_minus_eq unsigned_word_eqI)
  show ?case
  proof (cases "i = ?nm")
    case True
    then show ?thesis using left by (simp add: put_pages_def)
  next
    case False
    then have lt: "i < ?nm" using Suc.prems(2) by simp
    have "unat (of_nat i * AFS_BLOCK_SIZE :: u32) = i * 4096"
      using i lt assms(4) by (simp add: AFS_BLOCK_SIZE_def unat_word_ariths)
    then have page: "peek mb (unat (of_nat i * AFS_BLOCK_SIZE :: u32)) 4096 = Some ?p"
      using lt assms(3) by (simp add: peek_eq mult.commute)
    have "write_page True ?p ?b ?off True k = Some (0, put_page ?off (tick_io (tick_alloc True k)) ?b ?p)"
      using Suc.prems(1) lt assms(3) by (intro write_page_eq) (auto intro: io_okD)
    then have wr: "write_page True ?p ?b ?off True k = Some (0, put_page ?off (tick_io k) ?b ?p)"
      by (simp add: tick_alloc_def)
    obtain r where r: "r = None \<or> r = Some 0"
      and rec: "write_map_sb_loop True n (Suc i) ctx (of_nat (Suc i)) (put_page ?off (tick_io k) ?b ?p) =
        Some (r, ctx, num_map_blocks (config ctx), put_pages ?off (put_page ?off (tick_io k) ?b ?p)
          (map (\<lambda>j. (sb_map_block_ptrs (super_block ctx) ! j, sub mb (4096 * j) 4096)) [Suc i..<?nm]))"
      using Suc.IH [of "put_page ?off (tick_io k) ?b ?p" "Suc i"] Suc.prems lt by auto
    have "[i..<?nm] = i # [Suc i..<?nm]" using lt by (simp add: upt_rec)
    then show ?thesis
      using r rec left False page wr assms(2)
      by (auto simp: map_block_num_def put_pages_def add.commute simp del: upt_Suc)
  qed
qed

lemma write_map_blocks_update:
  assumes "io_ok k" "cnm (config ctx) \<le> 975" "num_ptr_blocks (config ctx) = 0"
    and "afs_map_blocks ctx = Some mb" "length mb = 4096 * cnm (config ctx)"
  shows "write_map_blocks ctx True k = Some (0, ctx, put_pages (data_start_off (passive_fs ctx)) k
      (map (\<lambda>j. (sb_map_block_ptrs (super_block ctx) ! j, sub mb (4096 * j) 4096)) [0..<cnm (config ctx)]))"
proof -
  obtain r where "r = None \<or> r = Some 0" and "write_map_sb_loop True 975 0 ctx 0 k =
     Some (r, ctx, num_map_blocks (config ctx), put_pages (data_start_off (passive_fs ctx)) k
      (map (\<lambda>j. (sb_map_block_ptrs (super_block ctx) ! j, sub mb (4096 * j) 4096)) [0..<cnm (config ctx)]))"
    using write_map_sb_loop_update [OF assms(1,4,5), of 0 975] assms(2) by auto
  then show ?thesis
    using assms(3) by (auto simp: write_map_blocks_def NUM_MAP_BLKS_IN_SB_def)
qed

lemma sub_concat_pages:
  "(\<And>p. p \<in> set ps \<Longrightarrow> length p = n) \<Longrightarrow> i < length ps \<Longrightarrow> sub (concat ps) (n * i) n = ps ! i"
proof (induction ps arbitrary: i)
  case (Cons p ps)
  then show ?case
    by (cases i) (auto simp: sub_def)
qed simp

lemma length_concat_pages: "(\<And>p. p \<in> set ps \<Longrightarrow> length p = n) \<Longrightarrow> length (concat ps) = n * length ps"
  by (induction ps) auto

lemma take_blit: "off + length src = e \<Longrightarrow> e \<le> length m \<Longrightarrow> take e (blit m off src) = take off m @ src"
  by (auto simp: blit_def)

section \<open>Mounting restores the map\<close>

lemma read_map_block_eq:
  assumes "io_ok k" "length page = 4096" "map_geom (config ctx)"
    and "afs_map ctx = Some m" "length m = cnb (config ctx) * csz (config ctx)"
    and n_def: "n = (entries_pos (config ctx) (Suc i) - entries_pos (config ctx) i) * csz (config ctx)"
    and p_def: "p = get_page (data_start_off (passive_fs ctx)) k b"
  shows "read_map_block b ctx page (of_nat (entries_pos (config ctx) i)) k =
      Some (0, cnb (config ctx) - entries_pos (config ctx) i \<le> cper (config ctx),
        ctx\<lparr>vector := snd (allocation_set (vector ctx) b),
          afs_map := Some (blit m (entries_pos (config ctx) i * csz (config ctx)) (sub p (64 + cun (config ctx)) n))\<rparr>,
        p, of_nat (entries_pos (config ctx) (Suc i)), tick_io k)"
    and "64 + cun (config ctx) + n \<le> 4096"
    and "entries_pos (config ctx) i * csz (config ctx) + n = entries_pos (config ctx) (Suc i) * csz (config ctx)"
    and "entries_pos (config ctx) (Suc i) * csz (config ctx) \<le> length m"
proof -
  let ?cfg = "config ctx"
  let ?e = "entries_pos ?cfg i * csz ?cfg" and ?e' = "entries_pos ?cfg (Suc i) * csz ?cfg"
  show step: "?e + n = ?e'" by (simp add: n_def entries_pos_step distrib_right)
  show e': "?e' \<le> length m" using assms(5) entries_pos_le by (simp add: mult_right_mono)
  have "n \<le> cper ?cfg * csz ?cfg" unfolding n_def by (intro mult_right_mono) (simp_all add: entries_pos_step)
  then show n: "64 + cun ?cfg + n \<le> 4096" using map_geomD(1) [OF assms(3)] by simp
  have now: "unat (entries_now ?cfg (of_nat (entries_pos ?cfg i))) = entries_pos ?cfg (Suc i) - entries_pos ?cfg i"
    by (simp add: unat_entries_now entries_pos_step)
  then have "unat (entries_now ?cfg (of_nat (entries_pos ?cfg i))) \<le> cnb ?cfg"
    using entries_pos_le [of ?cfg "Suc i"] by simp
  from geom_mult [OF assms(3) this] now
  have cnt: "unat (entries_now ?cfg (of_nat (entries_pos ?cfg i)) * ucast (map_entry_sz ?cfg)) = n"
    by (simp add: n_def)
  have off: "unat (of_nat (entries_pos ?cfg i) * ucast (map_entry_sz ?cfg) :: u32) = ?e"
    using geom_mult [OF assms(3), of "of_nat (entries_pos ?cfg i)"] entries_pos_le by simp
  have src: "peek p (64 + cun ?cfg) n = Some (sub p (64 + cun ?cfg) n)"
    using n by (intro peek_eq) (simp add: p_def)
  have put: "poke m ?e (sub p (64 + cun ?cfg) n) = Some (blit m ?e (sub p (64 + cun ?cfg) n))"
    using n step e' by (intro poke_eq) (simp add: p_def)
  have stop: "num_blocks ?cfg - of_nat (entries_pos ?cfg i) \<le> ucast (num_map_entries_per_block ?cfg) \<longleftrightarrow>
      cnb ?cfg - entries_pos ?cfg i \<le> cper ?cfg"
    using entries_pos_le [of ?cfg i] by (simp add: word_le_nat_alt unat_sub unat_ucast_up)
  have "read_page True page b (data_start_off (passive_fs ctx)) False k = Some (0, p, tick_io k)"
    using read_page_eq [of page True k b] assms(1,2) by (simp add: io_okD tick_alloc_def p_def)
  then show "read_map_block b ctx page (of_nat (entries_pos ?cfg i)) k =
      Some (0, cnb ?cfg - entries_pos ?cfg i \<le> cper ?cfg,
        ctx\<lparr>vector := snd (allocation_set (vector ctx) b), afs_map := Some (blit m ?e (sub p (64 + cun ?cfg) n))\<rparr>,
        p, of_nat (entries_pos ?cfg (Suc i)), tick_io k)"
    using assms(4) by (simp add: read_map_block_def take_entries_def Let_def SHA512_SZ_def cnt off src put stop
        entries_now_step)
qed

lemma read_map_block_image:
  assumes "io_ok k" "length page = 4096" "map_geom (config ctx)"
    and "afs_map ctx = Some m" "length m = cnb (config ctx) * csz (config ctx)"
    and "length amap = cnb (config ctx) * csz (config ctx)" "\<And>d. length (sha d) = 64"
    and "get_page (data_start_off (passive_fs ctx)) k b = map_image sha (config ctx) amap i"
    and "take (entries_pos (config ctx) i * csz (config ctx)) m = take (entries_pos (config ctx) i * csz (config ctx)) amap"
  shows "\<exists>m'. read_map_block b ctx page (of_nat (entries_pos (config ctx) i)) k =
      Some (0, cnb (config ctx) - entries_pos (config ctx) i \<le> cper (config ctx),
        ctx\<lparr>vector := snd (allocation_set (vector ctx) b), afs_map := Some m'\<rparr>,
        map_image sha (config ctx) amap i, of_nat (entries_pos (config ctx) (Suc i)), tick_io k) \<and>
    length m' = cnb (config ctx) * csz (config ctx) \<and>
    take (entries_pos (config ctx) (Suc i) * csz (config ctx)) m' =
      take (entries_pos (config ctx) (Suc i) * csz (config ctx)) amap"
proof -
  let ?cfg = "config ctx" and ?c = "map_chunk (config ctx) amap i"
  let ?e = "entries_pos ?cfg i * csz ?cfg" and ?e' = "entries_pos ?cfg (Suc i) * csz ?cfg"
  note rd = read_map_block_eq [where b = b and i = i, OF assms(1-5) refl refl]
  define m' where "m' = blit m ?e ?c"
  have clen: "length ?c = (entries_pos ?cfg (Suc i) - entries_pos ?cfg i) * csz ?cfg"
    using length_map_chunk(1) [OF assms(6)] .
  then have "sub (map_image sha ?cfg amap i) (64 + cun ?cfg) ((entries_pos ?cfg (Suc i) - entries_pos ?cfg i) * csz ?cfg) = ?c"
    using assms(7) by (simp add: map_image_def map_body_def sub_def)
  moreover have "?e + length ?c = ?e'" unfolding clen by (rule rd(3))
  moreover from take_blit [OF this rd(4)] have "take ?e' m' = take ?e amap @ ?c" using assms(9) by (simp add: m'_def)
  moreover have "take ?e amap @ ?c = take ?e' amap"
    unfolding rd(3) [symmetric] by (simp add: map_chunk_def sub_def take_add)
  ultimately show ?thesis using rd(1,4) assms(5,8) by (auto simp: m'_def)
qed

text \<open>The allocation vector after some blocks were marked.\<close>

definition marks :: "afs_allocation_vector \<Rightarrow> afs_allocation_vector \<Rightarrow> bool" where
  "marks = (\<lambda>v v'. \<exists>b. v' = snd (allocation_set v b))\<^sup>*\<^sup>*"

lemma marks_refl [simp]: "marks v v"
  by (simp add: marks_def)

lemma marks_set: "marks (snd (allocation_set v b)) v' \<Longrightarrow> marks v v'"
  unfolding marks_def by (rule converse_rtranclp_into_rtranclp) blast

lemma marks_trans: "marks v v1 \<Longrightarrow> marks v1 v2 \<Longrightarrow> marks v v2"
  unfolding marks_def by (rule rtranclp_trans)

lemma marks_inv:
  assumes "marks v v'" "P v" "\<And>v b. P v \<Longrightarrow> P (snd (allocation_set v b))"
  shows "P v'"
  using assms(1,2) unfolding marks_def by (induction rule: rtranclp_induct) (auto intro: assms(3))

lemma fill_sb_loop_image:
  assumes "io_ok k" "length page = 4096" "map_geom (config ctx)"
    and "afs_map ctx = Some m" "length m = cnb (config ctx) * csz (config ctx)"
    and "length amap = cnb (config ctx) * csz (config ctx)" "\<And>d. length (sha d) = 64"
    and "\<And>j. j < cnm (config ctx) \<Longrightarrow>
      get_page (data_start_off (passive_fs ctx)) k (sb_map_block_ptrs (super_block ctx) ! j) = map_image sha (config ctx) amap j"
    and "take (entries_pos (config ctx) i * csz (config ctx)) m = take (entries_pos (config ctx) i * csz (config ctx)) amap"
    and "i < cnm (config ctx)" "cnm (config ctx) \<le> i + n"
  shows "\<exists>v page' ios. fill_sb_loop n i ctx page (of_nat (entries_pos (config ctx) i)) k =
    Some (0, ctx\<lparr>vector := v, afs_map := Some amap\<rparr>, page', num_blocks (config ctx), k\<lparr>k_ios := ios\<rparr>) \<and> marks (vector ctx) v"
  using assms
proof (induction n arbitrary: i k ctx m page)
  case 0
  then show ?case by simp
next
  case (Suc n)
  let ?cfg = "config ctx" and ?b = "sb_map_block_ptrs (super_block ctx) ! i" and ?page = "map_image sha (config ctx) amap i"
  obtain m' where rd: "read_map_block ?b ctx page (of_nat (entries_pos ?cfg i)) k =
      Some (0, cnb ?cfg - entries_pos ?cfg i \<le> cper ?cfg,
        ctx\<lparr>vector := snd (allocation_set (vector ctx) ?b), afs_map := Some m'\<rparr>,
        ?page, of_nat (entries_pos ?cfg (Suc i)), tick_io k)"
    and m': "length m' = cnb ?cfg * csz ?cfg"
      "take (entries_pos ?cfg (Suc i) * csz ?cfg) m' = take (entries_pos ?cfg (Suc i) * csz ?cfg) amap"
    using read_map_block_image [OF Suc.prems(1-7) Suc.prems(8) [OF Suc.prems(10)] Suc.prems(9)] by blast
  show ?case
  proof (cases "cnb ?cfg - entries_pos ?cfg i \<le> cper ?cfg")
    case True
    then have "entries_pos ?cfg (Suc i) = cnb ?cfg" using entries_pos_le [of ?cfg i] by (simp add: entries_pos_step)
    moreover from this m' Suc.prems(6) have "m' = amap" by simp
    ultimately show ?thesis using rd True marks_set [OF marks_refl] by (auto simp: tick_io_def)
  next
    case False
    define ctx1 where "ctx1 = ctx\<lparr>vector := snd (allocation_set (vector ctx) ?b), afs_map := Some m'\<rparr>"
    have "entries_pos ?cfg (Suc i) < cnb ?cfg" using False by (simp add: entries_pos_step)
    then have "Suc i \<noteq> cnm ?cfg" using entries_pos_end [OF Suc.prems(3)] by auto
    then have lt: "Suc i < cnm ?cfg" using Suc.prems(10) by simp
    have "\<exists>v page' ios. fill_sb_loop n (Suc i) ctx1 ?page (of_nat (entries_pos (config ctx1) (Suc i))) (tick_io k) =
      Some (0, ctx1\<lparr>vector := v, afs_map := Some amap\<rparr>, page', num_blocks (config ctx1), (tick_io k)\<lparr>k_ios := ios\<rparr>) \<and> marks (vector ctx1) v"
    proof (rule Suc.IH [where m = m'])
      show "length ?page = 4096" using Suc.prems(3,6,7) by (intro length_map_image)
    qed (use Suc.prems m' lt in \<open>simp_all add: ctx1_def\<close>)
    then show ?thesis using rd False marks_set [of "vector ctx" ?b] by (auto simp: ctx1_def tick_io_def)
  qed
qed

lemma afs_fill_map_image:
  assumes "io_ok k" "alloc_ok k" "map_geom (config ctx)" "length amap = cnb (config ctx) * csz (config ctx)"
    and small: "cnm (config ctx) \<le> 975" "num_ptr_blocks (config ctx) = 0"
    and "\<And>d. length (sha d) = 64"
    and "\<And>j. j < cnm (config ctx) \<Longrightarrow>
      get_page (data_start_off (passive_fs ctx)) k (sb_map_block_ptrs (super_block ctx) ! j) = map_image sha (config ctx) amap j"
    and "afs_map ctx = Some m" "length m = cnb (config ctx) * csz (config ctx)"
  shows "\<exists>v k'. afs_fill_map ctx k = Some (0, ctx\<lparr>vector := v, afs_map := Some amap\<rparr>, k') \<and>
    k_dev k' = k_dev k \<and> io_ok k' \<and> alloc_ok k' \<and> marks (vector ctx) v"
proof -
  let ?k = "k\<lparr>k_allocs := Suc (Suc (k_allocs k))\<rparr>"
  define page where "page = map (k_junk k (k_allocs k)) [0..<4096]"
  define pb where "pb = map (k_junk k (Suc (k_allocs k))) [0..<4096]"
  note g = map_geomD [OF assms(3)]
  have "\<exists>v page' ios. fill_sb_loop 975 0 ctx page (of_nat (entries_pos (config ctx) 0)) ?k =
    Some (0, ctx\<lparr>vector := v, afs_map := Some amap\<rparr>, page', num_blocks (config ctx), ?k\<lparr>k_ios := ios\<rparr>) \<and> marks (vector ctx) v"
  proof (rule fill_sb_loop_image [where m = m])
    show "get_page (data_start_off (passive_fs ctx)) ?k (sb_map_block_ptrs (super_block ctx) ! j) =
        map_image sha (config ctx) amap j" if "j < cnm (config ctx)" for j
      using assms(8) [OF that] get_page_dev_cong [of ?k k] by simp
  qed (use assms g in \<open>simp_all add: page_def io_ok_def\<close>)
  then obtain v page' ios where loop: "fill_sb_loop 975 0 ctx page 0 ?k =
      Some (0, ctx\<lparr>vector := v, afs_map := Some amap\<rparr>, page', num_blocks (config ctx), ?k\<lparr>k_ios := ios\<rparr>)" and marks: "marks (vector ctx) v"
    by auto
  have mallocs: "kmalloc 4096 k = (Some page, k\<lparr>k_allocs := Suc (k_allocs k)\<rparr>)"
      "kmalloc 4096 (k\<lparr>k_allocs := Suc (k_allocs k)\<rparr>) = (Some pb, ?k)"
    using assms(2) by (simp_all add: kmalloc_alloc_ok page_def pb_def)
  have "fill_pb_loop (pb_of_bytes pb) 0 (ctx\<lparr>vector := v, afs_map := Some amap\<rparr>) page' (num_blocks (config ctx)) (?k\<lparr>k_ios := ios\<rparr>) =
      Some (0, ctx\<lparr>vector := v, afs_map := Some amap\<rparr>, num_blocks (config ctx), ?k\<lparr>k_ios := ios\<rparr>)"
    by (subst fill_pb_loop.simps) (simp add: small)
  then have "afs_fill_map ctx k = Some (0, ctx\<lparr>vector := v, afs_map := Some amap\<rparr>, ?k\<lparr>k_ios := ios\<rparr>)"
    using loop mallocs by (simp add: afs_fill_map_def NUM_MAP_BLKS_IN_SB_def)
  then show ?thesis using assms(1,2) marks by (auto simp: io_ok_def alloc_ok_def)
qed

section \<open>Flushing and mounting\<close>

text \<open>C8: Flushing the map and filling it again restores it: with at most 975 map blocks, so that there are no
  pointer blocks, and distinct blocks for them in the super block (the unused slots do not matter), the map is packed
  into map blocks, the map blocks are written to the blocks that the super block lists, and \<open>afs_fill_map\<close>, run on
  the resulting device by an instance with the same configuration and super block and any map of that
  size, succeeds and reads back exactly the map that was flushed.\<close>

theorem map_flush_mount_roundtrip:
  assumes geom: "cfg_ok (config ctx)" "0 < num_blocks (config ctx)" "num_map_blocks (config ctx) \<le> 975"
    and kernel: "io_ok k" "alloc_ok k" "digests_ok k"
    and map: "afs_map ctx = Some amap" "length amap = unat (num_blocks (config ctx)) * unat (map_entry_sz (config ctx))"
    and ptrs: "length (sb_map_block_ptrs (super_block ctx)) = 975"
      "distinct (take (unat (num_map_blocks (config ctx))) (sb_map_block_ptrs (super_block ctx)))"
      "\<forall>b \<in> set (take (unat (num_map_blocks (config ctx))) (sb_map_block_ptrs (super_block ctx))).
         block_fits (data_start_off (passive_fs ctx)) b"
    and ctx': "config ctx' = config ctx" "super_block ctx' = super_block ctx" "passive_fs ctx' = passive_fs ctx"
      "afs_map ctx' = Some m" "length m = length amap"
  shows "\<exists>ctx1 k1 k2 v k3. afs_create_map_blocks ctx k = Some (0, ctx1, k1) \<and>
    write_map_blocks ctx1 True k1 = Some (0, ctx1, k2) \<and>
    afs_fill_map ctx' k2 = Some (0, ctx'\<lparr>vector := v, afs_map := Some amap\<rparr>, k3)"
proof -
  let ?cfg = "config ctx" and ?off = "data_start_off (passive_fs ctx)" and ?ptrs = "sb_map_block_ptrs (super_block ctx)"
  let ?img = "map_image (k_sha512 k) ?cfg amap" and ?k1 = "k\<lparr>k_allocs := Suc (k_allocs k) + 2 * cnm (config ctx)\<rparr>"
  have small: "cnm ?cfg \<le> 975" "0 < cnb ?cfg" using geom by (simp_all add: word_le_nat_alt word_less_nat_alt)
  note g = map_geomI [OF geom(1) small(2,1)]
  have sha: "length (k_sha512 k d) = 64" for d using kernel(3) by (simp add: digests_ok_def)
  have img: "length (?img i) = 4096" for i using g(1) map(2) sha by (intro length_map_image)
  define mb where "mb = concat (map ?img [0..<cnm ?cfg])"
  have mb: "length mb = 4096 * cnm ?cfg" using length_concat_pages [of "map ?img [0..<cnm ?cfg]" 4096] img by (auto simp: mb_def)
  define ps where "ps = map (\<lambda>j. (?ptrs ! j, sub mb (4096 * j) 4096)) [0..<cnm ?cfg]"
  define k2 where "k2 = put_pages ?off ?k1 ps"
  have "afs_create_map_blocks ctx k = Some (0, ctx\<lparr>afs_map_blocks := Some mb\<rparr>, ?k1)"
    unfolding mb_def using g(1) kernel map small by (intro afs_create_map_blocks_eq) simp_all
  moreover have "write_map_blocks (ctx\<lparr>afs_map_blocks := Some mb\<rparr>) True ?k1 = Some (0, ctx\<lparr>afs_map_blocks := Some mb\<rparr>, k2)"
    using write_map_blocks_update [of ?k1 "ctx\<lparr>afs_map_blocks := Some mb\<rparr>" mb] kernel g small mb
    by (simp add: k2_def ps_def io_ok_def)
  moreover have "\<exists>v k3. afs_fill_map ctx' k2 = Some (0, ctx'\<lparr>vector := v, afs_map := Some amap\<rparr>, k3) \<and>
      k_dev k3 = k_dev k2 \<and> io_ok k3 \<and> alloc_ok k3 \<and> marks (vector ctx') v"
  proof (rule afs_fill_map_image [where sha = "k_sha512 k" and m = m])
    fix j assume "j < cnm (config ctx')"
    then have j: "j < cnm ?cfg" by (simp add: ctx')
    have le: "cnm ?cfg \<le> length ?ptrs" using ptrs(1) small by simp
    then have fst: "map fst ps = take (cnm ?cfg) ?ptrs" by (intro nth_equalityI) (auto simp: ps_def)
    then have "distinct (map fst ps)" using ptrs(2) by simp
    moreover have "\<forall>(b, p) \<in> set ps. block_fits ?off b \<and> length p = 4096"
    proof (clarify)
      fix b p assume bp: "(b, p) \<in> set ps"
      then have "b \<in> set (map fst ps)" by force
      then have "block_fits ?off b" using ptrs(3) unfolding fst by simp
      moreover have "length p = 4096" using bp mb by (auto simp: ps_def)
      ultimately show "block_fits ?off b \<and> length p = 4096" ..
    qed
    moreover have "(?ptrs ! j, sub mb (4096 * j) 4096) \<in> set ps" using j by (auto simp: ps_def)
    ultimately have "get_page ?off k2 (?ptrs ! j) = sub mb (4096 * j) 4096" unfolding k2_def by (intro get_put_pages)
    also have "\<dots> = ?img j" using sub_concat_pages [of "map ?img [0..<cnm ?cfg]" 4096 j] img j by (auto simp: mb_def)
    finally show "get_page (data_start_off (passive_fs ctx')) k2 (sb_map_block_ptrs (super_block ctx') ! j) =
        map_image (k_sha512 k) (config ctx') amap j" by (simp add: ctx')
  qed (use g small kernel map sha in \<open>simp_all add: ctx' k2_def\<close>, simp add: io_ok_def)
  ultimately show ?thesis by blast
qed

section \<open>Pointer blocks are not followed\<close>

lemma fill_sb_loop_runs:
  assumes "io_ok k" "length page = 4096" "map_geom (config ctx)"
    and "afs_map ctx = Some m" "length m = cnb (config ctx) * csz (config ctx)" "i + n < cnm (config ctx)"
  shows "\<exists>m' v page' ios. fill_sb_loop n i ctx page (of_nat (entries_pos (config ctx) i)) k =
      Some (0, ctx\<lparr>vector := v, afs_map := Some m'\<rparr>, page', of_nat (entries_pos (config ctx) (i + n)), k\<lparr>k_ios := ios\<rparr>) \<and>
    length m' = cnb (config ctx) * csz (config ctx) \<and> length page' = 4096"
  using assms
proof (induction n arbitrary: i k ctx m page)
  case 0
  have "ctx = ctx\<lparr>vector := vector ctx, afs_map := Some m\<rparr>" "k = k\<lparr>k_ios := k_ios k\<rparr>" using 0 by simp_all
  then show ?case using 0 by (metis fill_sb_loop.simps(1) add_0_right)
next
  case (Suc n)
  let ?cfg = "config ctx" and ?b = "sb_map_block_ptrs (super_block ctx) ! i"
  let ?p = "get_page (data_start_off (passive_fs ctx)) k ?b"
  note rd = read_map_block_eq [where b = ?b and i = i, OF Suc.prems(1-5) refl refl]
  define m1 where "m1 = blit m (entries_pos ?cfg i * csz ?cfg)
    (sub ?p (64 + cun ?cfg) ((entries_pos ?cfg (Suc i) - entries_pos ?cfg i) * csz ?cfg))"
  define ctx1 where "ctx1 = ctx\<lparr>vector := snd (allocation_set (vector ctx) ?b), afs_map := Some m1\<rparr>"
  have stop: "\<not> cnb ?cfg - entries_pos ?cfg i \<le> cper ?cfg"
    using entries_pos_before_end(2) [OF Suc.prems(3), of i] Suc.prems(6) by simp
  have "length m1 = length m" using rd(2-4) by (simp add: m1_def)
  then have "\<exists>m' v page' ios. fill_sb_loop n (Suc i) ctx1 ?p (of_nat (entries_pos (config ctx1) (Suc i))) (tick_io k) =
      Some (0, ctx1\<lparr>vector := v, afs_map := Some m'\<rparr>, page', of_nat (entries_pos (config ctx1) (Suc i + n)), (tick_io k)\<lparr>k_ios := ios\<rparr>) \<and>
      length m' = cnb (config ctx1) * csz (config ctx1) \<and> length page' = 4096"
    using Suc.prems by (intro Suc.IH [where m = m1]) (simp_all add: ctx1_def)
  then show ?case
    using rd(1) stop by (auto simp: ctx1_def m1_def [symmetric] tick_io_def)
qed

lemma sub_take_cong:
  assumes "take e m = take e m'" "off + n \<le> e"
  shows "sub m off n = sub m' off n"
proof -
  have "take (off + n) m = take (off + n) m'"
    using arg_cong [OF assms(1), of "take (off + n)"] assms(2) by (simp add: min_absorb1)
  then show ?thesis by (simp add: sub_def take_drop add.commute)
qed

lemma fill_pb_inner_repeats:
  assumes "io_ok k" "length page = 4096" "map_geom (config ctx)"
    and "afs_map ctx = Some m" "length m = cnb (config ctx) * csz (config ctx)" "i < cnm (config ctx)"
    and p: "p = get_page (data_start_off (passive_fs ctx)) k (pb_map_block_ptrs pb ! 0)"
  shows "\<exists>m' v page' ios. fill_pb_inner pb c ctx page (of_nat (entries_pos (config ctx) i)) k =
      Some (0, c + of_nat (cnm (config ctx) - 1 - i), ctx\<lparr>vector := v, afs_map := Some m'\<rparr>, page',
        num_blocks (config ctx), k\<lparr>k_ios := ios\<rparr>) \<and>
    length m' = cnb (config ctx) * csz (config ctx) \<and>
    take (entries_pos (config ctx) i * csz (config ctx)) m' = take (entries_pos (config ctx) i * csz (config ctx)) m \<and>
    (\<forall>j. i \<le> j \<and> j < cnm (config ctx) \<longrightarrow>
       (\<forall>n. n \<le> (entries_pos (config ctx) (Suc j) - entries_pos (config ctx) j) * csz (config ctx) \<longrightarrow>
          sub m' (entries_pos (config ctx) j * csz (config ctx)) n = sub p (64 + cun (config ctx)) n))"
  using assms
proof (induction "cnm (config ctx) - i" arbitrary: i k ctx m page c)
  case (Suc d)
  let ?cfg = "config ctx" and ?b = "pb_map_block_ptrs pb ! 0"
  let ?e = "\<lambda>j. entries_pos ?cfg j * csz ?cfg" and ?n = "\<lambda>j. (entries_pos ?cfg (Suc j) - entries_pos ?cfg j) * csz ?cfg"
  have rd: "read_map_block ?b ctx page (of_nat (entries_pos ?cfg i)) k =
      Some (0, cnb ?cfg - entries_pos ?cfg i \<le> cper ?cfg,
        ctx\<lparr>vector := snd (allocation_set (vector ctx) ?b), afs_map := Some (blit m (?e i) (sub p (64 + cun ?cfg) (?n i)))\<rparr>,
        p, of_nat (entries_pos ?cfg (Suc i)), tick_io k)"
    and fit: "64 + cun ?cfg + ?n i \<le> 4096" "?e i + ?n i = ?e (Suc i)" "?e (Suc i) \<le> length m"
    using read_map_block_eq [where b = ?b and i = i, OF Suc.prems(1-5) refl refl] Suc.prems(7) by simp_all
  have plen: "length p = 4096" using Suc.prems(7) by simp
  define m1 where "m1 = blit m (?e i) (sub p (64 + cun ?cfg) (?n i))"
  define ctx1 where "ctx1 = ctx\<lparr>vector := snd (allocation_set (vector ctx) ?b), afs_map := Some m1\<rparr>"
  note rd = rd [folded m1_def, folded ctx1_def]
  have m1: "length m1 = length m" using fit plen by (simp add: m1_def)
  have keep: "take (?e i) m1 = take (?e i) m" using fit plen by (simp add: m1_def blit_def)
  have new: "sub m1 (?e i) n = sub p (64 + cun ?cfg) n" if "n \<le> ?n i" for n
    using that fit plen by (intro nth_equalityI) (auto simp: m1_def nth_blit)
  show ?case
  proof (cases "Suc i = cnm ?cfg")
    case True
    then have "cnb ?cfg - entries_pos ?cfg i \<le> cper ?cfg" and "entries_pos ?cfg (Suc i) = cnb ?cfg"
      using entries_pos_before_end(2) [OF Suc.prems(3,6)] entries_pos_end [OF Suc.prems(3)] by simp_all
    then have "fill_pb_inner pb c ctx page (of_nat (entries_pos ?cfg i)) k =
        Some (0, c + of_nat (cnm ?cfg - 1 - i), ctx1, p, num_blocks ?cfg, tick_io k)"
      using rd True by (subst fill_pb_inner.simps) simp
    moreover have "\<forall>j. i \<le> j \<and> j < cnm ?cfg \<longrightarrow> j = i" using True by auto
    ultimately show ?thesis
      using keep new m1 Suc.prems(5) by (auto simp: ctx1_def tick_io_def)
  next
    case False
    then have stop: "\<not> cnb ?cfg - entries_pos ?cfg i \<le> cper ?cfg"
      using entries_pos_before_end(2) [OF Suc.prems(3,6)] by simp
    have "\<exists>m' v page' ios. fill_pb_inner pb (c + 1) ctx1 p (of_nat (entries_pos (config ctx1) (Suc i))) (tick_io k) =
      Some (0, c + 1 + of_nat (cnm (config ctx1) - 1 - Suc i), ctx1\<lparr>vector := v, afs_map := Some m'\<rparr>, page',
        num_blocks (config ctx1), (tick_io k)\<lparr>k_ios := ios\<rparr>) \<and>
      length m' = cnb (config ctx1) * csz (config ctx1) \<and>
      take (entries_pos (config ctx1) (Suc i) * csz (config ctx1)) m' = take (entries_pos (config ctx1) (Suc i) * csz (config ctx1)) m1 \<and>
      (\<forall>j. Suc i \<le> j \<and> j < cnm (config ctx1) \<longrightarrow>
       (\<forall>n. n \<le> (entries_pos (config ctx1) (Suc j) - entries_pos (config ctx1) j) * csz (config ctx1) \<longrightarrow>
          sub m' (entries_pos (config ctx1) j * csz (config ctx1)) n = sub p (64 + cun (config ctx1)) n))"
      using Suc.prems Suc.hyps(2) False m1 plen by (intro Suc.hyps(1)) (simp_all add: ctx1_def)
    then obtain m' v page' ios where
      rec: "fill_pb_inner pb (c + 1) ctx1 p (of_nat (entries_pos ?cfg (Suc i))) (tick_io k) =
        Some (0, c + 1 + of_nat (cnm ?cfg - 1 - Suc i), ctx1\<lparr>vector := v, afs_map := Some m'\<rparr>, page',
          num_blocks ?cfg, (tick_io k)\<lparr>k_ios := ios\<rparr>)"
      and m': "length m' = cnb ?cfg * csz ?cfg" "take (?e (Suc i)) m' = take (?e (Suc i)) m1"
      and later: "\<And>j n. Suc i \<le> j \<Longrightarrow> j < cnm ?cfg \<Longrightarrow> n \<le> ?n j \<Longrightarrow> sub m' (?e j) n = sub p (64 + cun ?cfg) n"
      by (auto simp: ctx1_def)
    have idx: "cnm ?cfg - 1 - i = Suc (cnm ?cfg - 1 - Suc i)" using False Suc.prems(6) by simp
    have "fill_pb_inner pb c ctx page (of_nat (entries_pos ?cfg i)) k =
        Some (0, c + of_nat (cnm ?cfg - 1 - i), ctx1\<lparr>vector := v, afs_map := Some m'\<rparr>, page', num_blocks ?cfg,
          (tick_io k)\<lparr>k_ios := ios\<rparr>)"
      using rd stop rec unfolding idx by (subst fill_pb_inner.simps) (simp add: add.assoc)
    moreover have "take (?e i) m' = take (?e i) m"
      using arg_cong [OF m'(2), of "take (?e i)"] fit(2) keep by (simp add: min_def split: if_splits)
    moreover have "sub m' (?e j) n = sub p (64 + cun ?cfg) n" if "i \<le> j" "j < cnm ?cfg" "n \<le> ?n j" for j n
    proof (cases "j = i")
      case True
      then have "sub m' (?e i) n = sub m1 (?e i) n" using that fit(2) by (intro sub_take_cong [OF m'(2)]) simp
      then show ?thesis using new that True by simp
    next
      case False
      then show ?thesis using later that by simp
    qed
    ultimately show ?thesis using m'(1) by (auto simp: ctx1_def tick_io_def)
  qed
qed simp

definition demo_geom :: "u32 \<Rightarrow> u32 \<Rightarrow> u32 \<Rightarrow> afs_config" where
  "demo_geom nb nm np = \<lparr>num_carrier_blocks = 4, cfg_threshold = 0, num_entropy_blocks = 1, map_entry_sz = 64,
     unused_space_per_block = 0, num_map_entries_per_block = 63, num_blocks = nb, num_map_blocks = nm,
     num_ptr_blocks = np, instance_size = 4096 * ucast nb, bdev_size = 0x200000\<rparr>"

definition demo_ctx :: "afs_config \<Rightarrow> bytes \<Rightarrow> afs_private" where
  "demo_ctx cfg amap = \<lparr>config = cfg,
     super_block = \<lparr>sb_hash = replicate 32 0, sb_pass_hash = replicate 20 0, sb_instance_size = 0,
       sb_reserved = replicate 4 0, sb_entropy_dir = replicate 64 0, sb_shadow_passphrase = replicate 64 0,
       sb_map_block_ptrs = map of_nat [0..<975], sb_first_ptr_block = AFS_INVALID_BLOCK\<rparr>,
     passive_fs = demo_fs, args = \<lparr>passphrase = replicate 64 0, shadow_passphrase = replicate 64 0,
       passive_dev = replicate 32 0, entropy_dir = replicate 64 0, instance_type = 0\<rparr>,
     vector = demo_vec, afs_map = Some amap, afs_map_blocks = None, passphrase_hash = replicate 32 0,
     afs_ptr_blocks = [], encoding_type = 2\<rparr>"

lemma demo_kernel_ok: "io_ok demo_kernel" "alloc_ok demo_kernel" "digests_ok demo_kernel"
  by (simp_all add: io_ok_def alloc_ok_def digests_ok_def demo_kernel_def)

lemma demo_cfg_ok: "cfg_ok (demo_geom 16 1 0)" "cfg_ok (demo_geom 61426 976 1)"
  by (simp_all add: cfg_ok_def demo_geom_def ceil_div_def)

text \<open>An instance with one map block: the other 974 slots of its super block are 0.\<close>

definition one_block_ctx :: "bytes \<Rightarrow> afs_private" where
  "one_block_ctx m = (let ctx = demo_ctx (demo_geom 16 1 0) m in
     ctx\<lparr>super_block := (super_block ctx)\<lparr>sb_map_block_ptrs := 5 # replicate 974 0\<rparr>\<rparr>)"

theorem map_flush_mount_roundtrip_witness:
  "\<exists>ctx1 k1 k2 v k3. afs_create_map_blocks (one_block_ctx (replicate 1024 7)) demo_kernel = Some (0, ctx1, k1) \<and>
    write_map_blocks ctx1 True k1 = Some (0, ctx1, k2) \<and>
    afs_fill_map (one_block_ctx (replicate 1024 0)) k2 =
      Some (0, (one_block_ctx (replicate 1024 0))\<lparr>vector := v, afs_map := Some (replicate 1024 7)\<rparr>, k3)"
  by (rule map_flush_mount_roundtrip [where m = "replicate 1024 0"])
    (use demo_cfg_ok demo_kernel_ok in
      \<open>simp_all add: one_block_ctx_def Let_def demo_ctx_def demo_geom_def block_fits_def demo_fs_def\<close>)

text \<open>A new map is all invalid: in every entry every tuple points to \<open>AFS_INVALID_BLOCK\<close> with
  checksum 0, and the carrier and entropy hashes are zero.\<close>

theorem afs_create_map_all_invalid:
  assumes "cfg_ok (config ctx)" "0 < unat (num_blocks (config ctx))"
    and "unat (num_blocks (config ctx)) * unat (map_entry_sz (config ctx)) < 2 ^ 32" "alloc_ok k"
  shows "\<exists>m k'. afs_create_map ctx k = Some (0, ctx\<lparr>afs_map := Some m\<rparr>, k') \<and>
    (\<forall>e < unat (num_blocks (config ctx)).
       (\<forall>j < unat (num_carrier_blocks (config ctx)).
          tuple_of_bytes (sub m (e * unat (map_entry_sz (config ctx)) + 6 * j) 6) =
            \<lparr>carrier_block_ptr = AFS_INVALID_BLOCK, checksum = 0\<rparr>) \<and>
       sub m (e * unat (map_entry_sz (config ctx)) + 6 * unat (num_carrier_blocks (config ctx))) 40 = replicate 40 0)"
proof -
  let ?cfg = "config ctx" and ?c = "unat (num_carrier_blocks (config ctx))"
  have g: "map_geom ?cfg" using assms by (simp add: map_geom_def)
  have sz: "csz ?cfg = 40 + 6 * ?c" using map_geomD(8) [OF g] .
  let ?m = "concat (replicate (cnb ?cfg) (invalid_entry ?c))"
  have entry: "sub ?m (e * csz ?cfg + off) n = sub (invalid_entry ?c) off n" if "e < cnb ?cfg" "off + n \<le> csz ?cfg" for e off n
  proof -
    have "sub ?m (csz ?cfg * e) (csz ?cfg) = invalid_entry ?c"
      using that sz sub_concat_pages [of "replicate (cnb ?cfg) (invalid_entry ?c)" "csz ?cfg" e] by auto
    then have "sub (invalid_entry ?c) off n = sub (sub ?m (csz ?cfg * e) (csz ?cfg)) off n" by simp
    also have "\<dots> = sub ?m (e * csz ?cfg + off) n"
      using that(2) by (simp add: sub_def drop_take min_def mult.commute add.commute)
    finally show ?thesis by simp
  qed
  have "sub (invalid_entry ?c) (6 * j) 6 = invalid_tuple" if "j < ?c" for j
  proof -
    have "sub (invalid_entry ?c) (6 * j) 6 = sub (concat (replicate ?c invalid_tuple)) (6 * j) 6"
      using that by (simp add: invalid_entry_def sub_append length_concat sum_list_replicate)
    also have "\<dots> = invalid_tuple" using that sub_concat_pages [of "replicate ?c invalid_tuple" 6 j] by auto
    finally show ?thesis .
  qed
  moreover have "sub (invalid_entry ?c) (6 * ?c) 40 = replicate 40 0"
    by (simp add: invalid_entry_def sub_append length_concat sum_list_replicate sub_take_whole)
  ultimately show ?thesis
    using afs_create_map_eq [OF g assms(4)] entry sz tuple_of_bytes_bytes
    by (auto simp: invalid_tuple_def intro!: exI [of _ ?m])
qed

theorem afs_create_map_all_invalid_witness:
  "\<exists>m k'. afs_create_map (demo_ctx (demo_geom 16 1 0) []) demo_kernel =
      Some (0, (demo_ctx (demo_geom 16 1 0) [])\<lparr>afs_map := Some m\<rparr>, k') \<and>
    tuple_of_bytes (sub m (5 * 64 + 6 * 3) 6) = \<lparr>carrier_block_ptr = AFS_INVALID_BLOCK, checksum = 0\<rparr> \<and>
    sub m (5 * 64 + 6 * 4) 40 = replicate 40 0"
proof -
  have "\<exists>m k'. afs_create_map (demo_ctx (demo_geom 16 1 0) []) demo_kernel =
      Some (0, (demo_ctx (demo_geom 16 1 0) [])\<lparr>afs_map := Some m\<rparr>, k') \<and>
    (\<forall>e < 16. (\<forall>j < 4. tuple_of_bytes (sub m (e * 64 + 6 * j) 6) = \<lparr>carrier_block_ptr = AFS_INVALID_BLOCK, checksum = 0\<rparr>) \<and>
       sub m (e * 64 + 6 * 4) 40 = replicate 40 0)"
    using afs_create_map_all_invalid [of "demo_ctx (demo_geom 16 1 0) []" demo_kernel] demo_cfg_ok(1) demo_kernel_ok(2)
    by (simp add: demo_ctx_def demo_geom_def)
  then obtain m k' where m: "afs_create_map (demo_ctx (demo_geom 16 1 0) []) demo_kernel =
      Some (0, (demo_ctx (demo_geom 16 1 0) [])\<lparr>afs_map := Some m\<rparr>, k')"
    and all: "\<And>e. e < 16 \<Longrightarrow> (\<forall>j < 4. tuple_of_bytes (sub m (e * 64 + 6 * j) 6) = \<lparr>carrier_block_ptr = AFS_INVALID_BLOCK, checksum = 0\<rparr>) \<and>
       sub m (e * 64 + 6 * 4) 40 = replicate 40 0" by blast
  have "tuple_of_bytes (sub m (5 * 64 + 6 * 3) 6) = \<lparr>carrier_block_ptr = AFS_INVALID_BLOCK, checksum = 0\<rparr>"
    by (rule conjunct1 [OF all, THEN spec, THEN mp]) simp_all
  then show ?thesis using m all [of 5] by auto
qed

text \<open>The entries of a map of which every chunk from \<open>975\<close> on is read from one page.\<close>

lemma chunk_entries:
  assumes g: "map_geom cfg"
    and all: "\<And>j n. 975 \<le> j \<Longrightarrow> j < cnm cfg \<Longrightarrow> n \<le> (entries_pos cfg (Suc j) - entries_pos cfg j) * csz cfg \<Longrightarrow>
        sub m (entries_pos cfg j * csz cfg) n = sub p (64 + cun cfg) n"
    and e: "975 * cper cfg \<le> e" "e < cnb cfg"
  shows "sub m (e * csz cfg) (csz cfg) = sub p (64 + cun cfg + e mod cper cfg * csz cfg) (csz cfg)"
proof -
  note d = map_geomD [OF g]
  define j r where "j = e div cper cfg" and "r = e mod cper cfg"
  have jr: "e = j * cper cfg + r" "r < cper cfg" using d(2) by (simp_all add: j_def r_def)
  have j: "975 \<le> j" using e(1) d(2) by (simp add: j_def less_eq_div_iff_mult_less_eq)
  have "j * cper cfg < cnm cfg * cper cfg" using e(2) jr(1) d(4) mult.commute [of "cper cfg" "cnm cfg"] by linarith
  then have jn: "j < cnm cfg" by simp
  have pos: "entries_pos cfg j = j * cper cfg" using e(2) jr by (simp add: entries_pos_def)
  have "Suc r \<le> entries_pos cfg (Suc j) - entries_pos cfg j" using e(2) jr by (simp add: entries_pos_def)
  then have len: "Suc r * csz cfg \<le> (entries_pos cfg (Suc j) - entries_pos cfg j) * csz cfg" by (rule mult_le_mono1)
  have "sub m (e * csz cfg) (csz cfg) = drop (r * csz cfg) (sub m (entries_pos cfg j * csz cfg) (Suc r * csz cfg))"
    unfolding pos by (simp add: jr sub_def drop_take distrib_right add.commute)
  also have "\<dots> = drop (r * csz cfg) (sub p (64 + cun cfg) (Suc r * csz cfg))" using all [OF j jn len] by simp
  also have "\<dots> = sub p (64 + cun cfg + r * csz cfg) (csz cfg)" by (simp add: sub_def drop_take add.commute add.left_commute)
  finally show ?thesis by (simp add: r_def)
qed

lemma fill_pb_loop_repeats:
  assumes "io_ok k" "length page = 4096" "map_geom (config ctx)"
    and "afs_map ctx = Some m" "length m = cnb (config ctx) * csz (config ctx)" "975 < cnm (config ctx)" "pb_ok pb0"
    and pb: "pb = pb_of_bytes (get_page (data_start_off (passive_fs ctx)) k (sb_first_ptr_block (super_block ctx)))"
    and p: "p = get_page (data_start_off (passive_fs ctx)) k (pb_map_block_ptrs pb ! 0)"
  shows "\<exists>m' v ios. fill_pb_loop pb0 0 ctx page (of_nat (entries_pos (config ctx) 975)) k =
      Some (0, ctx\<lparr>vector := v, afs_map := Some m'\<rparr>, num_blocks (config ctx), k\<lparr>k_ios := ios\<rparr>) \<and>
    (\<forall>j n. 975 \<le> j \<longrightarrow> j < cnm (config ctx) \<longrightarrow>
      n \<le> (entries_pos (config ctx) (Suc j) - entries_pos (config ctx) j) * csz (config ctx) \<longrightarrow>
      sub m' (entries_pos (config ctx) j * csz (config ctx)) n = sub p (64 + cun (config ctx)) n)"
proof -
  let ?cfg = "config ctx" and ?off = "data_start_off (passive_fs ctx)" and ?first = "sb_first_ptr_block (super_block ctx)"
  let ?i = "of_nat (cnm (config ctx) - 1 - 975) :: u32"
  have rd: "read_page True (pb_bytes pb0) ?first ?off False k = Some (0, get_page ?off k ?first, tick_io k)"
    using read_page_eq [of "pb_bytes pb0" True k ?first ?off False] assms(1,7) by (simp add: io_okD tick_alloc_def)
  define ctx1 where "ctx1 = ctx\<lparr>vector := snd (allocation_set (vector ctx) ?first)\<rparr>"
  obtain m' v page' ios where
    inner: "fill_pb_inner pb 0 ctx1 page (of_nat (entries_pos ?cfg 975)) (tick_io k) =
      Some (0, ?i, ctx\<lparr>vector := v, afs_map := Some m'\<rparr>, page', num_blocks ?cfg, (tick_io k)\<lparr>k_ios := ios\<rparr>)"
    and all: "\<And>j n. 975 \<le> j \<Longrightarrow> j < cnm ?cfg \<Longrightarrow> n \<le> (entries_pos ?cfg (Suc j) - entries_pos ?cfg j) * csz ?cfg \<Longrightarrow>
        sub m' (entries_pos ?cfg j * csz ?cfg) n = sub p (64 + cun ?cfg) n"
    using fill_pb_inner_repeats [of "tick_io k" page ctx1 m 975 p pb 0] assms(1-6) p by (auto simp: ctx1_def)
  have "(tick_io k)\<lparr>k_ios := ios\<rparr> = k\<lparr>k_ios := ios\<rparr>" by (simp add: tick_io_def)
  note inner = inner [unfolded this]
  have "unat (num_ptr_blocks ?cfg) = ceil_div (cnm ?cfg - 975) 1019"
    using cfg_okD(7) assms(3) by (simp add: map_geom_def)
  then have np_le: "unat (num_ptr_blocks ?cfg) \<le> cnm ?cfg - 975" and np0: "0 < num_ptr_blocks ?cfg"
    using ceil_div_bounds [of 1019 "cnm ?cfg - 975"] assms(6) by (auto simp: word_less_nat_alt intro: gr0I)
  have "cnm ?cfg < 2 ^ LENGTH(32)" by (rule unsigned_less)
  then have "unat (of_nat (cnm ?cfg - 975) :: u32) = cnm ?cfg - 975" by (simp add: unat_of_nat)
  moreover have "?i + 1 = of_nat (cnm ?cfg - 975)"
    using assms(6) by (simp add: of_nat_Suc [symmetric] Suc_diff_Suc del: of_nat_Suc)
  ultimately have "\<not> ?i + 1 < num_ptr_blocks ?cfg" using np_le by (simp add: word_less_nat_alt)
  then have "fill_pb_loop pb (?i + 1) (ctx\<lparr>vector := v, afs_map := Some m'\<rparr>) page' (num_blocks ?cfg) (k\<lparr>k_ios := ios\<rparr>) =
      Some (0, ctx\<lparr>vector := v, afs_map := Some m'\<rparr>, num_blocks ?cfg, k\<lparr>k_ios := ios\<rparr>)"
    by (subst fill_pb_loop.simps) simp
  then have "fill_pb_loop pb0 0 ctx page (of_nat (entries_pos ?cfg 975)) k =
      Some (0, ctx\<lparr>vector := v, afs_map := Some m'\<rparr>, num_blocks ?cfg, k\<lparr>k_ios := ios\<rparr>)"
    using np0 rd inner by (subst fill_pb_loop.simps) (simp add: pb [symmetric] ctx1_def Let_def)
  then show ?thesis using all by blast
qed

text \<open>C25: An instance with more map blocks than the super block lists mounts with a wrong map: the loop
  over a pointer block increments the wrong counter, so every map block beyond the 975 of the super block
  is read from the first pointer of the first pointer block. \<open>afs_fill_map\<close> reports success, and
  every entry from number \<open>975 * per\<close> on is an entry of that one block.\<close>

theorem fill_map_rereads_first_pointer:
  assumes cfg: "cfg_ok (config ctx)" "unat (num_blocks (config ctx)) * unat (map_entry_sz (config ctx)) < 2 ^ 32"
      "975 < unat (num_map_blocks (config ctx))"
    and kernel: "io_ok k" "alloc_ok k"
    and map: "afs_map ctx = Some m" "length m = unat (num_blocks (config ctx)) * unat (map_entry_sz (config ctx))"
    and pb: "pb = pb_of_bytes (get_page (data_start_off (passive_fs ctx)) k (sb_first_ptr_block (super_block ctx)))"
    and p: "p = get_page (data_start_off (passive_fs ctx)) k (pb_map_block_ptrs pb ! 0)"
  shows "\<exists>ctx' k' m'. afs_fill_map ctx k = Some (0, ctx', k') \<and> afs_map ctx' = Some m' \<and>
    (\<forall>e. 975 * unat (num_map_entries_per_block (config ctx)) \<le> e \<and> e < unat (num_blocks (config ctx)) \<longrightarrow>
       sub m' (e * unat (map_entry_sz (config ctx))) (unat (map_entry_sz (config ctx))) =
       sub p (64 + unat (unused_space_per_block (config ctx)) +
         e mod unat (num_map_entries_per_block (config ctx)) * unat (map_entry_sz (config ctx)))
         (unat (map_entry_sz (config ctx))))"
proof -
  let ?cfg = "config ctx" and ?k = "k\<lparr>k_allocs := Suc (Suc (k_allocs k))\<rparr>"
  have "cper ?cfg * 1 \<le> cper ?cfg * cnm ?cfg" using cfg(3) by (intro mult_le_mono2) simp
  then have "0 < cnb ?cfg" using cfg_okD(5) [OF cfg(1)] by linarith
  then have g: "map_geom ?cfg" using cfg by (simp add: map_geom_def)
  define page where "page = map (k_junk k (k_allocs k)) [0..<4096]"
  define raw where "raw = map (k_junk k (Suc (k_allocs k))) [0..<4096]"
  have mallocs: "kmalloc 4096 k = (Some page, k\<lparr>k_allocs := Suc (k_allocs k)\<rparr>)"
      "kmalloc 4096 (k\<lparr>k_allocs := Suc (k_allocs k)\<rparr>) = (Some raw, ?k)"
    using kernel(2) by (simp_all add: kmalloc_alloc_ok page_def raw_def)
  obtain m1 v1 page1 ios1 where sb: "fill_sb_loop 975 0 ctx page 0 ?k =
      Some (0, ctx\<lparr>vector := v1, afs_map := Some m1\<rparr>, page1, of_nat (entries_pos ?cfg 975), ?k\<lparr>k_ios := ios1\<rparr>)"
    and m1: "length m1 = cnb ?cfg * csz ?cfg" "length page1 = 4096"
    using fill_sb_loop_runs [of ?k page ctx m 0 975] kernel(1) g map cfg(3) by (auto simp: page_def io_ok_def)
  define ctx1 where "ctx1 = ctx\<lparr>vector := v1, afs_map := Some m1\<rparr>"
  have dev: "get_page off (?k\<lparr>k_ios := ios1\<rparr>) b = get_page off k b" for off b by (rule get_page_dev_cong) simp
  have "\<exists>m' v ios. fill_pb_loop (pb_of_bytes raw) 0 ctx1 page1 (of_nat (entries_pos (config ctx1) 975)) (?k\<lparr>k_ios := ios1\<rparr>) =
      Some (0, ctx1\<lparr>vector := v, afs_map := Some m'\<rparr>, num_blocks (config ctx1), ?k\<lparr>k_ios := ios1\<rparr>\<lparr>k_ios := ios\<rparr>) \<and>
    (\<forall>j n. 975 \<le> j \<longrightarrow> j < cnm (config ctx1) \<longrightarrow>
      n \<le> (entries_pos (config ctx1) (Suc j) - entries_pos (config ctx1) j) * csz (config ctx1) \<longrightarrow>
      sub m' (entries_pos (config ctx1) j * csz (config ctx1)) n = sub p (64 + cun (config ctx1)) n)"
    using kernel(1) m1 g cfg(3)
    by (intro fill_pb_loop_repeats [where pb = pb]) (simp_all add: ctx1_def dev pb p io_ok_def pb_ok_def pb_of_bytes_def raw_def)
  then obtain m' v ios where run: "afs_fill_map ctx k = Some (0, ctx\<lparr>vector := v, afs_map := Some m'\<rparr>, ?k\<lparr>k_ios := ios\<rparr>)"
    and all: "\<And>j n. 975 \<le> j \<Longrightarrow> j < cnm ?cfg \<Longrightarrow> n \<le> (entries_pos ?cfg (Suc j) - entries_pos ?cfg j) * csz ?cfg \<Longrightarrow>
        sub m' (entries_pos ?cfg j * csz ?cfg) n = sub p (64 + cun ?cfg) n"
    using sb mallocs by (auto simp: afs_fill_map_def NUM_MAP_BLKS_IN_SB_def ctx1_def)
  have "sub m' (e * csz ?cfg) (csz ?cfg) = sub p (64 + cun ?cfg + e mod cper ?cfg * csz ?cfg) (csz ?cfg)"
    if "975 * cper ?cfg \<le> e" "e < cnb ?cfg" for e
    using chunk_entries [OF g all that] .
  then show ?thesis using run by auto
qed

theorem fill_map_rereads_first_pointer_witness:
  "\<exists>ctx' k' m'. afs_fill_map (demo_ctx (demo_geom 61426 976 1) (replicate 3931264 7)) demo_kernel = Some (0, ctx', k') \<and>
    afs_map ctx' = Some m'"
  using fill_map_rereads_first_pointer [of "demo_ctx (demo_geom 61426 976 1) (replicate 3931264 7)" demo_kernel
      "replicate 3931264 7", OF _ _ _ demo_kernel_ok(1,2) _ _ refl refl] demo_cfg_ok(2)
  by (auto simp: demo_ctx_def demo_geom_def)

end
