(* ===== verification/Afs_Super_Block.thy ===== *)
theory Afs_Super_Block
  imports Afs_Map
begin

text \<open>
  Pointer blocks and super blocks, from \<open>src/src/dm_afs_metadata.c\<close>: creating an instance
  (\<open>write_super_block\<close>) and mounting one (\<open>find_super_block\<close>). The location of the super block
  comes from a chain of digests of the passphrase; the searches along the chain may not end, and
  are partial functions.
\<close>

section \<open>Pointer blocks\<close>

text \<open>The loop runs from the last pointer block to the first; the argument is \<open>i + 1\<close>.\<close>

fun write_ptr_loop :: "nat \<Rightarrow> afs_private \<Rightarrow> kernel \<Rightarrow> (int \<times> afs_private \<times> kernel) option" where
  "write_ptr_loop 0 ctx k = Some (0, ctx, k)"
| "write_ptr_loop (Suc i) ctx k =
     (let pb = afs_ptr_blocks ctx ! i;
          pb = (if i = unat (num_ptr_blocks (config ctx)) - 1
                then pb\<lparr>pb_next_ptr_block := AFS_INVALID_BLOCK\<rparr> else pb);
          (ret, ptr_block_digest, k) = hash_sha1 (drop SHA128_SZ (pb_bytes pb)) (uninit SHA1_SZ k) k;
          pb = pb\<lparr>pb_hash := take SHA128_SZ ptr_block_digest\<rparr>;
          ctx = ctx\<lparr>afs_ptr_blocks := (afs_ptr_blocks ctx)[i := pb]\<rparr>
      in do {
        (block_num, v, k) \<leftarrow> acquire_block (passive_fs ctx) (vector ctx) k;
        let ctx = ctx\<lparr>vector := v\<rparr>;
        if block_num = AFS_INVALID_BLOCK then Some (- ENOSPC, ctx, k)
        else do {
          (ret, k) \<leftarrow> write_page True (pb_bytes pb) block_num (data_start_off (passive_fs ctx)) False k;
          if ret \<noteq> 0 then Some (ret, ctx, k)
          else write_ptr_loop i
            (if i = 0 then ctx\<lparr>super_block := (super_block ctx)\<lparr>sb_first_ptr_block := block_num\<rparr>\<rparr>
             else ctx\<lparr>afs_ptr_blocks := (afs_ptr_blocks ctx)[i - 1 :=
               (afs_ptr_blocks ctx ! (i - 1))\<lparr>pb_next_ptr_block := block_num\<rparr>]\<rparr>) k } })"

definition write_ptr_blocks :: "afs_private \<Rightarrow> kernel \<Rightarrow> (int \<times> afs_private \<times> kernel) option" where
  "write_ptr_blocks ctx k = do {
     (ret, ctx, k) \<leftarrow> write_map_blocks ctx False k;
     if ret \<noteq> 0 then Some (ret, ctx, k)
     else if num_ptr_blocks (config ctx) = 0 then Some (0, ctx, k)
     else write_ptr_loop (unat (num_ptr_blocks (config ctx))) ctx k }"

section \<open>The super block\<close>

text \<open>The location of a super block is the start of a digest, as a block number of the device.\<close>

definition digest_block :: "bytes \<Rightarrow> u32 \<Rightarrow> u32" where
  "digest_block h block_device_size = le_word (take 4 h) mod block_device_size"

definition rehash :: "bytes \<Rightarrow> kernel \<Rightarrow> bytes \<times> kernel" where
  "rehash h k = (let (ret, h, k) = hash_sha1 h h k in (h, k))"

partial_function (option) place_loop ::
  "afs_passive_fs \<Rightarrow> u32 \<Rightarrow> bytes \<Rightarrow> u32 \<Rightarrow> kernel \<Rightarrow> (bytes \<times> u32 \<times> kernel) option" where
  "place_loop fs dsize pass_hash sb_block k =
     (case binary_search (block_list fs) sb_block (list_len fs) of
        None \<Rightarrow> None
      | Some r \<Rightarrow>
          if r = - 1 then
            (case rehash pass_hash k of
               (h, k) \<Rightarrow> place_loop fs dsize h (digest_block h dsize) k)
          else Some (pass_hash, sb_block, k))"

declare place_loop.simps [code]

text \<open>Replica \<open>i\<close> starts from the digest of the digest that placed replica \<open>i - 1\<close>.\<close>

fun replica_loop ::
  "nat \<Rightarrow> u32 \<Rightarrow> bytes \<Rightarrow> afs_private \<Rightarrow> kernel \<Rightarrow> (u32 list \<times> afs_private \<times> kernel) option" where
  "replica_loop 0 dsize prev ctx k = Some ([], ctx, k)"
| "replica_loop (Suc n) dsize prev ctx k =
     (let (ret, h, k) = hash_sha1 prev (uninit SHA1_SZ k) k in do {
        (h, sb_block, k) \<leftarrow> place_loop (passive_fs ctx) dsize h (digest_block h dsize) k;
        (rest, ctx, k) \<leftarrow> replica_loop n dsize h
          (ctx\<lparr>vector := snd (allocation_set (vector ctx) sb_block)\<rparr>) k;
        Some (sb_block # rest, ctx, k) })"

fun write_replicas :: "u32 list \<Rightarrow> afs_private \<Rightarrow> kernel \<Rightarrow> (int \<times> kernel) option" where
  "write_replicas [] ctx k = Some (0, k)"
| "write_replicas (b # bs) ctx k = do {
     block_num \<leftarrow> block_list_at (passive_fs ctx) b;
     (ret, k) \<leftarrow> write_page True (sb_bytes (super_block ctx)) block_num
       (data_start_off (passive_fs ctx)) False k;
     if ret \<noteq> 0 then Some (ret, k) else write_replicas bs ctx k }"

definition zero_ptr_block :: afs_ptr_block where
  "zero_ptr_block = \<lparr>pb_hash = replicate 16 0, pb_map_block_ptrs = replicate 1019 0,
     pb_next_ptr_block = 0\<rparr>"

text \<open>Filling in the super block once everything it points to is on the device.\<close>

definition seal_super_block :: "afs_private \<Rightarrow> kernel \<Rightarrow> afs_private \<times> kernel" where
  "seal_super_block ctx k =
     (let sb = (super_block ctx)\<lparr>sb_instance_size := instance_size (config ctx),
            sb_entropy_dir := strncpy ENTROPY_DIR_SZ (entropy_dir (args ctx))\<rparr>;
          (ret, digest, k) = hash_sha256 (drop SHA256_SZ (sb_bytes sb)) (sb_hash sb) k
      in (ctx\<lparr>super_block := sb\<lparr>sb_hash := digest\<rparr>\<rparr>, k))"

definition write_super_block :: "afs_private \<Rightarrow> kernel \<Rightarrow> (int \<times> afs_private \<times> kernel) option" where
  "write_super_block ctx k =
     (let cfg = config ctx;
          block_device_size = ucast (bdev_size cfg div 8) :: u32
      in if block_device_size = 0 then None
         else
           (let (ret, h, k) = hash_sha1 (take PASSPHRASE_SZ (passphrase (args ctx))) (uninit SHA1_SZ k) k
            in do {
              (h, sb_block, k) \<leftarrow> place_loop (passive_fs ctx) block_device_size h
                (digest_block h block_device_size) k;
              (more, ctx, k) \<leftarrow> replica_loop (NUM_SUPERBLOCK_REPLICAS - 1) block_device_size h
                (ctx\<lparr>vector := snd (allocation_set (vector ctx) sb_block)\<rparr>) k;
              (ret, ctx, k) \<leftarrow> afs_create_map ctx k;
              if ret \<noteq> 0 then Some (ret, ctx, k)
              else do {
                (ret, ctx, k) \<leftarrow> afs_create_map_blocks ctx k;
                if ret \<noteq> 0 then Some (ret, ctx, k)
                else
                  (case kmalloc (unat (num_ptr_blocks cfg) * 4096) k of
                     (None, k) \<Rightarrow> Some (- ENOMEM, ctx, k)
                   | (Some _, k) \<Rightarrow> do {
                       (ret, ctx, k) \<leftarrow> write_ptr_blocks
                         (ctx\<lparr>afs_ptr_blocks := replicate (unat (num_ptr_blocks cfg)) zero_ptr_block,
                              super_block := (super_block ctx)\<lparr>sb_first_ptr_block := AFS_INVALID_BLOCK\<rparr>\<rparr>) k;
                       if ret \<noteq> 0 then Some (ret, ctx, k)
                       else
                         (let (ctx, k) = seal_super_block ctx k in do {
                            (ret, k) \<leftarrow> write_replicas (sb_block # more) ctx k;
                            Some (ret, ctx, k) }) }) } }))"

section \<open>Mounting\<close>

fun rebuild_ptr_loop :: "nat \<Rightarrow> nat \<Rightarrow> afs_private \<Rightarrow> kernel \<Rightarrow> (int \<times> afs_private \<times> kernel) option" where
  "rebuild_ptr_loop 0 i ctx k = Some (0, ctx, k)"
| "rebuild_ptr_loop (Suc n) i ctx k =
     (let pbs = afs_ptr_blocks ctx;
          block_num = (if i = 0 then sb_first_ptr_block (super_block ctx) else pb_next_ptr_block (pbs ! i))
      in do {
        (ret, page, k) \<leftarrow> read_page True (pb_bytes (pbs ! i)) block_num
          (data_start_off (passive_fs ctx)) False k;
        let ctx = ctx\<lparr>afs_ptr_blocks := pbs[i := pb_of_bytes page]\<rparr>;
        if ret \<noteq> 0 then Some (ret, ctx, k) else rebuild_ptr_loop n (Suc i) ctx k })"

definition rebuild_ptr_blocks :: "afs_private \<Rightarrow> kernel \<Rightarrow> (int \<times> afs_private \<times> kernel) option" where
  "rebuild_ptr_blocks ctx k = rebuild_ptr_loop (unat (num_ptr_blocks (config ctx))) 0 ctx k"

partial_function (option) probe_loop ::
  "afs_passive_fs \<Rightarrow> u32 \<Rightarrow> bytes \<Rightarrow> u32 \<Rightarrow> u32 \<Rightarrow> kernel \<Rightarrow> (bytes \<times> u32 \<times> u32 \<times> kernel) option" where
  "probe_loop fs dsize pass_hash sb_block sb_tries k =
     (case binary_search (block_list fs) sb_block (list_len fs) of
        None \<Rightarrow> None
      | Some r \<Rightarrow>
          if r = - 1 then
            (case rehash pass_hash k of
               (h, k) \<Rightarrow> probe_loop fs dsize h (digest_block h dsize) (sb_tries + 1) k)
          else Some (pass_hash, sb_block, sb_tries, k))"

declare probe_loop.simps [code]

text \<open>The outer loop of \<open>find_super_block\<close>; the result is \<open>ret\<close>, the block, the instance with the
  super block as read last, and the kernel. The \<open>Inl\<close> result is an early return.\<close>

partial_function (option) find_loop ::
  "u32 \<Rightarrow> bytes \<Rightarrow> u32 \<Rightarrow> u32 \<Rightarrow> int \<Rightarrow> afs_private \<Rightarrow> kernel \<Rightarrow>
   ((int \<times> afs_private \<times> kernel) + (int \<times> u32 \<times> afs_private \<times> kernel)) option" where
  "find_loop dsize pass_hash sb_block sb_tries ret ctx k =
     (if sb_tries < 32 then
        (case probe_loop (passive_fs ctx) dsize pass_hash sb_block sb_tries k of
           None \<Rightarrow> None
         | Some (pass_hash, sb_block, sb_tries, k) \<Rightarrow>
             (case block_list_at (passive_fs ctx) sb_block of
                None \<Rightarrow> None
              | Some block_num \<Rightarrow>
                  (case read_page True (sb_bytes (super_block ctx)) block_num
                          (data_start_off (passive_fs ctx)) False k of
                     None \<Rightarrow> None
                   | Some (ret, page, k) \<Rightarrow>
                       (let ctx = ctx\<lparr>super_block := sb_of_bytes page\<rparr> in
                        if ret \<noteq> 0 then Some (Inl (ret, ctx, k))
                        else
                          (case hash_sha256 (drop SHA256_SZ page) (uninit SHA256_SZ k) k of
                             (r, sb_digest, k) \<Rightarrow>
                               if take SHA256_SZ page \<noteq> sb_digest
                               then find_loop dsize pass_hash sb_block (sb_tries + 1) 1 ctx k
                               else Some (Inr (0, sb_block, ctx, k)))))))
      else Some (Inr (ret, sb_block, ctx, k)))"

declare find_loop.simps [code]

definition find_super_block :: "afs_private \<Rightarrow> kernel \<Rightarrow> (int \<times> afs_private \<times> kernel) option" where
  "find_super_block ctx k =
     (let cfg = config ctx;
          block_device_size = ucast (bdev_size cfg div 8) :: u32
      in if block_device_size = 0 then None
         else
           (let (r, h, k) = hash_sha1 (take PASSPHRASE_SZ (passphrase (args ctx))) (uninit SHA1_SZ k) k
            in do {
              found \<leftarrow> find_loop block_device_size h (digest_block h block_device_size) 0 0 ctx k;
              case found of
                Inl res \<Rightarrow> Some res
              | Inr (ret, sb_block, ctx, k) \<Rightarrow>
                  (let ctx = ctx\<lparr>vector := snd (allocation_set (vector ctx) sb_block)\<rparr> in
                   if ret \<noteq> 0 then Some (- ENOENT, ctx, k)
                   else if instance_size cfg \<noteq> sb_instance_size (super_block ctx) then Some (- EINVAL, ctx, k)
                   else do {
                     cfg \<leftarrow> build_configuration cfg 4 1;
                     (ret, ctx, k) \<leftarrow> afs_create_map (ctx\<lparr>config := cfg\<rparr>) k;
                     if ret \<noteq> 0 then Some (ret, ctx, k)
                     else do {
                       (ret, ctx, k) \<leftarrow> afs_fill_map ctx k;
                       if ret \<noteq> 0 then Some (ret, ctx, k)
                       else do {
                         ctx \<leftarrow> rebuild_allocation_vector ctx;
                         case kmalloc (unat (num_ptr_blocks (config ctx)) * 4096) k of
                           (None, k) \<Rightarrow> Some (- ENOMEM, ctx, k)
                         | (Some raw, k) \<Rightarrow>
                             rebuild_ptr_blocks (ctx\<lparr>afs_ptr_blocks :=
                               map (\<lambda>i. pb_of_bytes (sub raw (4096 * i) 4096))
                                 [0..<unat (num_ptr_blocks (config ctx))]\<rparr>) k } } }) }))"

section \<open>Where super blocks go\<close>

lemma hash_sha1_ok:
  "alloc_ok k \<Longrightarrow> hash_sha1 data digest k = (0, blit digest 0 (k_sha1 k data), k\<lparr>k_allocs := k_allocs k + 2\<rparr>)"
  by (simp add: hash_sha1_def hash_sha_def kmalloc_alloc_ok)

lemma hash_sha256_ok:
  "alloc_ok k \<Longrightarrow> hash_sha256 data digest k = (0, blit digest 0 (k_sha256 k data), k\<lparr>k_allocs := k_allocs k + 2\<rparr>)"
  by (simp add: hash_sha256_def hash_sha_def kmalloc_alloc_ok)

lemma rehash_ok: "alloc_ok k \<Longrightarrow> rehash h k = (blit h 0 (k_sha1 k h), k\<lparr>k_allocs := k_allocs k + 2\<rparr>)"
  by (simp add: rehash_def hash_sha1_ok)

text \<open>The search of \<open>write_super_block\<close> and that of \<open>find_super_block\<close> follow the same chain of
  digests to the same block.\<close>

lemma place_probe:
  assumes "place_loop fs dsize h b k = Some (h', b', k')" "alloc_ok k"
  shows "\<exists>n. k' = k\<lparr>k_allocs := n\<rparr>"
    and "alloc_ok k2 \<Longrightarrow> k_sha1 k2 = k_sha1 k \<Longrightarrow>
      \<exists>t n. probe_loop fs dsize h b tries k2 = Some (h', b', t, k2\<lparr>k_allocs := n\<rparr>)"
proof -
  have main: "alloc_ok k \<longrightarrow> (\<exists>n. snd (snd r) = k\<lparr>k_allocs := n\<rparr>) \<and>
      (\<forall>k2 tries. alloc_ok k2 \<and> k_sha1 k2 = k_sha1 k \<longrightarrow>
        (\<exists>t n. probe_loop fs dsize h b tries k2 = Some (fst r, fst (snd r), t, k2\<lparr>k_allocs := n\<rparr>)))"
    if "place_loop fs dsize h b k = Some r" for r
  proof (rule place_loop.raw_induct [where P = "\<lambda>fs dsize h b k r.
      alloc_ok k \<longrightarrow> (\<exists>n. snd (snd r) = k\<lparr>k_allocs := n\<rparr>) \<and>
      (\<forall>k2 tries. alloc_ok k2 \<and> k_sha1 k2 = k_sha1 k \<longrightarrow>
        (\<exists>t n. probe_loop fs dsize h b tries k2 = Some (fst r, fst (snd r), t, k2\<lparr>k_allocs := n\<rparr>)))", OF _ that])
    fix loop fs dsize h b k r
    assume IH: "\<And>fs dsize h b k r. loop fs dsize h b k = Some r \<Longrightarrow>
        alloc_ok k \<longrightarrow> (\<exists>n. snd (snd r) = k\<lparr>k_allocs := n\<rparr>) \<and>
        (\<forall>k2 tries. alloc_ok k2 \<and> k_sha1 k2 = k_sha1 k \<longrightarrow>
          (\<exists>t n. probe_loop fs dsize h b tries k2 = Some (fst r, fst (snd r), t, k2\<lparr>k_allocs := n\<rparr>)))"
      and eq: "(case binary_search (block_list fs) b (list_len fs) of None \<Rightarrow> None
        | Some ra \<Rightarrow> if ra = - 1 then (case rehash h k of (h, k) \<Rightarrow> loop fs dsize h (digest_block h dsize) k)
            else Some (h, b, k)) = Some r"
    show "alloc_ok k \<longrightarrow> (\<exists>n. snd (snd r) = k\<lparr>k_allocs := n\<rparr>) \<and>
        (\<forall>k2 tries. alloc_ok k2 \<and> k_sha1 k2 = k_sha1 k \<longrightarrow>
          (\<exists>t n. probe_loop fs dsize h b tries k2 = Some (fst r, fst (snd r), t, k2\<lparr>k_allocs := n\<rparr>)))"
    proof (intro impI)
      assume ok: "alloc_ok k"
      let ?h = "blit h 0 (k_sha1 k h)"
      obtain i where i: "binary_search (block_list fs) b (list_len fs) = Some i" using eq by (auto split: option.splits)
      show "(\<exists>n. snd (snd r) = k\<lparr>k_allocs := n\<rparr>) \<and>
        (\<forall>k2 tries. alloc_ok k2 \<and> k_sha1 k2 = k_sha1 k \<longrightarrow>
          (\<exists>t n. probe_loop fs dsize h b tries k2 = Some (fst r, fst (snd r), t, k2\<lparr>k_allocs := n\<rparr>)))"
      proof (cases "i = - 1")
        case True
        then have "loop fs dsize ?h (digest_block ?h dsize) (k\<lparr>k_allocs := k_allocs k + 2\<rparr>) = Some r"
          using eq i ok by (simp add: rehash_ok)
        from IH [OF this] ok have
          a: "\<exists>n. snd (snd r) = k\<lparr>k_allocs := n\<rparr>" and
          b: "\<And>k2 tries. alloc_ok k2 \<Longrightarrow> k_sha1 k2 = k_sha1 k \<Longrightarrow>
            \<exists>t n. probe_loop fs dsize ?h (digest_block ?h dsize) tries k2 = Some (fst r, fst (snd r), t, k2\<lparr>k_allocs := n\<rparr>)"
          by simp_all
        have "\<exists>t n. probe_loop fs dsize h b tries k2 = Some (fst r, fst (snd r), t, k2\<lparr>k_allocs := n\<rparr>)"
          if "alloc_ok k2" "k_sha1 k2 = k_sha1 k" for k2 tries
          using b [of "k2\<lparr>k_allocs := k_allocs k2 + 2\<rparr>" "tries + 1"] that i True
          by (subst probe_loop.simps) (simp add: rehash_ok)
        then show ?thesis using a by blast
      next
        case False
        then have r: "r = (h, b, k)" using eq i by simp
        have "\<exists>t n. probe_loop fs dsize h b tries k2 = Some (h, b, t, k2\<lparr>k_allocs := n\<rparr>)" for k2 tries
          using i False by (subst probe_loop.simps) (auto intro!: exI [of _ "k_allocs k2"])
        moreover have "k = k\<lparr>k_allocs := k_allocs k\<rparr>" by simp
        ultimately show ?thesis using r by (metis fst_conv snd_conv)
      qed
    qed
  qed
  show "\<exists>n. k' = k\<lparr>k_allocs := n\<rparr>" using main [OF assms(1)] assms(2) by simp
  show "\<exists>t n. probe_loop fs dsize h b tries k2 = Some (h', b', t, k2\<lparr>k_allocs := n\<rparr>)"
    if "alloc_ok k2" "k_sha1 k2 = k_sha1 k" using main [OF assms(1)] assms(2) that by auto
qed

text \<open>Placing the replicas marks their indices in the allocation vector and changes nothing else.\<close>

definition open_vector :: "afs_allocation_vector \<Rightarrow> bool" where
  "open_vector v \<longleftrightarrow> bv_ok v \<and> (\<forall>i. vec_accepts v i)"

lemma open_vector_set:
  assumes "open_vector v"
  shows "open_vector (snd (allocation_set v i))" "taken (snd (allocation_set v i)) j \<longleftrightarrow> taken v j \<or> j = i"
  using assms by (auto simp: open_vector_def av.invar_enter av.accepts_enter av.member_enter)

lemma open_vector_marks: "marks v v' \<Longrightarrow> open_vector v \<Longrightarrow> open_vector v'"
  by (rule marks_inv [where P = open_vector]) (simp_all add: open_vector_set(1))

lemma replica_loop_marks:
  assumes "replica_loop n dsize prev ctx k = Some (bs, ctx', k')" "alloc_ok k" "open_vector (vector ctx)"
  shows "\<exists>v m. ctx' = ctx\<lparr>vector := v\<rparr> \<and> open_vector v \<and> k' = k\<lparr>k_allocs := m\<rparr> \<and> length bs = n \<and>
    (\<forall>b \<in> set bs. taken v b) \<and> (\<forall>j. taken (vector ctx) j \<longrightarrow> taken v j)"
  using assms
proof (induction n arbitrary: prev ctx k bs ctx' k')
  case 0
  have "ctx = ctx\<lparr>vector := vector ctx\<rparr>" "k = k\<lparr>k_allocs := k_allocs k\<rparr>" by simp_all
  then show ?case using 0 by (metis empty_iff list.set(1) list.size(3) option.inject prod.inject replica_loop.simps(1))
next
  case (Suc n)
  let ?h = "blit (uninit SHA1_SZ k) 0 (k_sha1 k prev)" and ?k = "k\<lparr>k_allocs := k_allocs k + 2\<rparr>"
  obtain h b k1 where place: "place_loop (passive_fs ctx) dsize ?h (digest_block ?h dsize) ?k = Some (h, b, k1)"
    using Suc.prems(1,2) by (auto simp: hash_sha1_ok Let_def split: bind_splits)
  obtain m1 where k1: "k1 = k\<lparr>k_allocs := m1\<rparr>" using place_probe(1) [OF place] Suc.prems(2) by auto
  define ctx1 where "ctx1 = ctx\<lparr>vector := snd (allocation_set (vector ctx) b)\<rparr>"
  obtain rest ctx2 k2 where rec: "replica_loop n dsize h ctx1 k1 = Some (rest, ctx2, k2)"
    and out: "bs = b # rest" "ctx' = ctx2" "k' = k2"
    using Suc.prems(1,2) place by (auto simp: hash_sha1_ok Let_def ctx1_def split: bind_splits)
  note v1 = open_vector_set [OF Suc.prems(3), of b]
  obtain v m where "ctx2 = ctx1\<lparr>vector := v\<rparr>" "open_vector v" "k2 = k1\<lparr>k_allocs := m\<rparr>" "length rest = n"
    "\<forall>b \<in> set rest. taken v b" "\<forall>j. taken (vector ctx1) j \<longrightarrow> taken v j"
    using Suc.IH [OF rec] Suc.prems(2) v1(1) k1 by (auto simp: ctx1_def)
  then show ?case using out k1 v1(2) by (auto simp: ctx1_def)
qed

section \<open>Writing fresh map blocks\<close>

lemma acquire_open:
  assumes "acquire_block fs v k = Some (b, v', k')" "open_vector v" "b \<noteq> AFS_INVALID_BLOCK"
  obtains i where "block_list_at fs i = Some b" "\<not> taken v i" "taken v' i" "open_vector v'"
    "\<And>j. taken v j \<Longrightarrow> taken v' j"
proof -
  have spec: "acquire_spec fs v b v'" using assms(1) by (rule acquire_block_outcome)
  have ok: "bv_ok v" "\<And>i. vec_accepts v i" using assms(2) by (simp_all add: open_vector_def)
  obtain i where "block_list_at fs i = Some b" "\<not> taken v i" "taken v' i"
    using acquire_spec_fresh [OF spec ok(1) assms(3)] by blast
  then show ?thesis
    using acquire_spec_keeps [OF spec ok(1)] ok(2) by (intro that) (auto simp: open_vector_def)
qed

text \<open>The blocks of the free list that the allocation vector marks as taken.\<close>

definition taken_blocks :: "afs_passive_fs \<Rightarrow> afs_allocation_vector \<Rightarrow> u32 set" where
  "taken_blocks fs v = {b. \<exists>i. taken v i \<and> block_list_at fs i = Some b}"

lemma block_list_at_inj:
  assumes "distinct (block_list fs)" "block_list_at fs i = Some b" "block_list_at fs j = Some b"
  shows "i = j"
proof -
  have "unat i = unat j" using assms by (auto simp: block_list_at_def nth_eq_iff_index_eq split: if_splits)
  then show ?thesis by (rule unsigned_word_eqI)
qed

lemma block_list_at_set: "block_list_at fs i = Some b \<Longrightarrow> b \<in> set (block_list fs)"
  by (auto simp: block_list_at_def split: if_splits)

text \<open>What a successful run of the loop leaves behind: fresh blocks, distinct, each with its page, and
  every other page as before.\<close>

definition fresh_pages ::
  "afs_passive_fs \<Rightarrow> bytes \<Rightarrow> nat \<Rightarrow> nat \<Rightarrow> afs_allocation_vector \<Rightarrow> kernel \<Rightarrow> u32 list \<Rightarrow> afs_allocation_vector \<Rightarrow> kernel \<Rightarrow> bool" where
  "fresh_pages fs mb i n v k bs v' k' \<longleftrightarrow>
     length bs = n \<and> distinct bs \<and> set bs \<subseteq> set (block_list fs) \<and> set bs \<inter> taken_blocks fs v = {} \<and>
     open_vector v' \<and> (\<forall>j. taken v j \<longrightarrow> taken v' j) \<and> set bs \<subseteq> taken_blocks fs v' \<and>
     (\<forall>j < n. get_page (data_start_off fs) k' (bs ! j) = sub mb (4096 * (i + j)) 4096) \<and>
     (\<forall>c. block_fits (data_start_off fs) c \<and> c \<notin> set bs \<longrightarrow> get_page (data_start_off fs) k' c = get_page (data_start_off fs) k c) \<and>
     (io_ok k \<longrightarrow> io_ok k') \<and> (alloc_ok k \<longrightarrow> alloc_ok k') \<and> k_sha1 k' = k_sha1 k \<and> k_sha256 k' = k_sha256 k \<and> k_sha512 k' = k_sha512 k"

lemma fresh_pages_Nil: "open_vector v \<Longrightarrow> fresh_pages fs mb i 0 v k [] v k"
  by (simp add: fresh_pages_def)

lemma fresh_pages_Cons:
  assumes acq: "acquire_block fs v k = Some (b, v1, k1)" "b \<noteq> AFS_INVALID_BLOCK" "open_vector v"
    and fs: "distinct (block_list fs)" "\<forall>c \<in> set (block_list fs). block_fits (data_start_off fs) c"
    and page: "length (sub mb (4096 * i) 4096) = 4096"
    and rest: "fresh_pages fs mb (Suc i) n v1 (put_page (data_start_off fs) (tick_io k1) b (sub mb (4096 * i) 4096)) bs v' k'"
  shows "fresh_pages fs mb i (Suc n) v k (b # bs) v' k'"
proof -
  let ?off = "data_start_off fs" and ?k2 = "put_page (data_start_off fs) (tick_io k1) b (sub mb (4096 * i) 4096)"
  obtain x where x: "block_list_at fs x = Some b" "\<not> taken v x" "taken v1 x" "open_vector v1"
    and mono: "\<And>j. taken v j \<Longrightarrow> taken v1 j" using acquire_open [OF acq(1,3,2)] by blast
  obtain rp where k1: "k1 = k\<lparr>k_rpos := rp\<rparr>" using acquire_block_kernel [OF acq(1)] by blast
  have frame: "io_ok k1 = io_ok k" "alloc_ok k1 = alloc_ok k" "k_dev k1 = k_dev k"
    "k_sha1 ?k2 = k_sha1 k" "k_sha256 ?k2 = k_sha256 k" "k_sha512 ?k2 = k_sha512 k"
    by (simp_all add: k1 io_ok_def alloc_ok_def tick_io_def put_page_def dev_write_def)
  have b: "b \<in> set (block_list fs)" "block_fits ?off b" using block_list_at_set [OF x(1)] fs(2) by auto
  have bt: "b \<in> taken_blocks fs v1" using x by (auto simp: taken_blocks_def)
  have bnew: "b \<notin> taken_blocks fs v" using x block_list_at_inj [OF fs(1)] by (auto simp: taken_blocks_def)
  have sub: "taken_blocks fs v \<subseteq> taken_blocks fs v1" using mono by (auto simp: taken_blocks_def)
  note r = rest [unfolded fresh_pages_def]
  have bs: "b \<notin> set bs" using r bt by blast
  have pg: "get_page ?off ?k2 c = (if c = b then sub mb (4096 * i) 4096 else get_page ?off k c)" if "block_fits ?off c" for c
    using that b page get_page_dev_cong [of k1 k ?off] frame(3)
    by (simp add: dev.rd_wr_same dev.rd_wr_other)
  have bt': "b \<in> taken_blocks fs v'" using r bt by (auto simp: taken_blocks_def)
  have pages: "get_page ?off k' ((b # bs) ! j) = sub mb (4096 * (i + j)) 4096" if "j < Suc n" for j
  proof (cases j)
    case 0
    have "get_page ?off k' b = get_page ?off ?k2 b" using r b(2) bs by blast
    then show ?thesis using 0 pg [OF b(2)] by simp
  next
    case (Suc j')
    then show ?thesis using r that by simp
  qed
  have other: "get_page ?off k' c = get_page ?off k c" if "block_fits ?off c" "c \<notin> set (b # bs)" for c
    using r pg [OF that(1)] that by auto
  show ?thesis
    unfolding fresh_pages_def
    using r b bnew bs sub mono frame bt' pages other by auto
qed

lemma write_map_sb_loop_fresh:
  assumes "write_map_sb_loop False n i ctx (of_nat i) k = Some (r, ctx', bw, k')" "r = None \<or> r = Some 0"
    and "afs_map_blocks ctx = Some mb" "length mb = 4096 * cnm (config ctx)" "cnm (config ctx) \<le> 975"
    and "i \<le> cnm (config ctx)" "cnm (config ctx) \<le> i + n" "length (sb_map_block_ptrs (super_block ctx)) = 975"
    and "io_ok k" "open_vector (vector ctx)" "distinct (block_list (passive_fs ctx))"
    and "\<forall>c \<in> set (block_list (passive_fs ctx)). block_fits (data_start_off (passive_fs ctx)) c"
  shows "\<exists>bs v. ctx' = ctx\<lparr>vector := v, super_block := (super_block ctx)\<lparr>sb_map_block_ptrs :=
        take i (sb_map_block_ptrs (super_block ctx)) @ bs @ drop (cnm (config ctx)) (sb_map_block_ptrs (super_block ctx))\<rparr>\<rparr> \<and>
      fresh_pages (passive_fs ctx) mb i (cnm (config ctx) - i) (vector ctx) k bs v k'"
  using assms
proof (induction n arbitrary: i ctx k)
  case 0
  then have i: "i = cnm (config ctx)" by simp
  have "ctx = ctx\<lparr>vector := vector ctx, super_block := (super_block ctx)\<lparr>sb_map_block_ptrs :=
        take i (sb_map_block_ptrs (super_block ctx)) @ [] @ drop i (sb_map_block_ptrs (super_block ctx))\<rparr>\<rparr>" by simp
  then show ?case using 0 i fresh_pages_Nil by (metis diff_self_eq_0 option.inject prod.inject write_map_sb_loop.simps(1))
next
  case (Suc n)
  let ?fs = "passive_fs ctx" and ?nm = "cnm (config ctx)" and ?ptrs = "sb_map_block_ptrs (super_block ctx)"
  let ?p = "sub mb (4096 * i) 4096"
  have i: "unat (of_nat i :: u32) = i" using Suc.prems by (simp add: unat_of_nat)
  have left: "num_map_blocks (config ctx) - of_nat i = 0 \<longleftrightarrow> i = ?nm"
    using i by (metis right_minus_eq unsigned_word_eqI)
  show ?case
  proof (cases "i = ?nm")
    case True
    have "ctx = ctx\<lparr>vector := vector ctx, super_block := (super_block ctx)\<lparr>sb_map_block_ptrs :=
        take i ?ptrs @ [] @ drop i ?ptrs\<rparr>\<rparr>" by simp
    then show ?thesis using True left Suc.prems(1,10) fresh_pages_Nil
      by (auto simp del: append_Nil intro!: exI [of _ "[]"] exI [of _ "vector ctx"])
  next
    case False
    then have lt: "i < ?nm" using Suc.prems by simp
    have off: "unat (of_nat i * AFS_BLOCK_SIZE :: u32) = 4096 * i"
      using i lt Suc.prems(5) by (simp add: AFS_BLOCK_SIZE_def unat_word_ariths)
    have plen: "length ?p = 4096" using lt Suc.prems(4) by simp
    obtain b v1 k1 where acq: "acquire_block ?fs (vector ctx) k = Some (b, v1, k1)" and valid: "b \<noteq> AFS_INVALID_BLOCK"
      using Suc.prems(1,2) left False by (auto simp: map_block_num_def ENOSPC_def split: bind_splits if_splits)
    obtain rp where "k1 = k\<lparr>k_rpos := rp\<rparr>" using acquire_block_kernel [OF acq] by blast
    then have io: "io_ok k1" using Suc.prems(9) by (simp add: io_ok_def)
    define k2 where "k2 = put_page (data_start_off ?fs) (tick_io k1) b ?p"
    define ctx1 where "ctx1 = ctx\<lparr>vector := v1, super_block := (super_block ctx)\<lparr>sb_map_block_ptrs := ?ptrs[i := b]\<rparr>\<rparr>"
    have wr: "write_page True ?p b (data_start_off ?fs) True k1 = Some (0, k2)"
      using write_page_eq [of ?p True k1 b "data_start_off ?fs" True] io plen by (simp add: k2_def tick_alloc_def io_okD)
    have "write_map_sb_loop False n (Suc i) ctx1 (of_nat (Suc i)) k2 = Some (r, ctx', bw, k')"
      using Suc.prems(1) left False acq valid wr Suc.prems(3,4) lt
      by (simp add: map_block_num_def off peek_eq ctx1_def add.commute)
    moreover have "open_vector v1" using acquire_open [OF acq Suc.prems(10) valid] by blast
    ultimately obtain bs v where ctx': "ctx' = ctx1\<lparr>vector := v, super_block := (super_block ctx1)\<lparr>sb_map_block_ptrs :=
        take (Suc i) (sb_map_block_ptrs (super_block ctx1)) @ bs @ drop (cnm (config ctx1)) (sb_map_block_ptrs (super_block ctx1))\<rparr>\<rparr>"
      and fresh: "fresh_pages (passive_fs ctx1) mb (Suc i) (cnm (config ctx1) - Suc i) (vector ctx1) k2 bs v k'"
      using Suc.IH [of "Suc i" ctx1 k2] Suc.prems lt io by (auto simp: ctx1_def k2_def)
    have "fresh_pages ?fs mb i (Suc (?nm - Suc i)) (vector ctx) k (b # bs) v k'"
      using fresh by (intro fresh_pages_Cons [OF acq valid Suc.prems(10,11,12) plen]) (simp add: ctx1_def k2_def)
    moreover have "take (Suc i) (?ptrs[i := b]) = take i ?ptrs @ [b]" "drop ?nm (?ptrs[i := b]) = drop ?nm ?ptrs"
      using lt Suc.prems(5,8) by (simp_all add: take_Suc_conv_app_nth)
    ultimately show ?thesis
      using ctx' lt by (auto simp: ctx1_def Suc_diff_Suc intro!: exI [of _ "b # bs"] exI [of _ v])
  qed
qed

section \<open>Replicas of the super block\<close>

text \<open>Writing the replicas, at known blocks.\<close>

lemma write_replicas_eq:
  assumes "list_all2 (\<lambda>b c. block_list_at (passive_fs ctx) b = Some c) bs cs" "io_ok k" "sb_ok (super_block ctx)"
  shows "write_replicas bs ctx k = Some (0, put_pages (data_start_off (passive_fs ctx)) k
    (map (\<lambda>c. (c, sb_bytes (super_block ctx))) cs))"
  using assms(1,2)
proof (induction bs cs arbitrary: k rule: list_all2_induct)
  case Nil
  then show ?case by (simp add: put_pages_def)
next
  case (Cons b bs c cs)
  let ?off = "data_start_off (passive_fs ctx)" and ?p = "sb_bytes (super_block ctx)"
  have "write_page True ?p c ?off False k = Some (0, put_page ?off (tick_io k) c ?p)"
    using write_page_eq [of ?p True k c ?off False] Cons.prems assms(3) by (simp add: tick_alloc_def io_okD)
  then show ?case using Cons by (simp add: put_pages_def)
qed

lemma get_put_pages_same:
  assumes "\<forall>c \<in> set cs. block_fits off c" "length p = 4096" "block_fits off b"
  shows "get_page off (put_pages off k (map (\<lambda>c. (c, p)) cs)) b = (if b \<in> set cs then p else get_page off k b)"
  using assms(1)
proof (induction cs arbitrary: k)
  case (Cons c cs)
  have "get_page off (put_page off (tick_io k) c p) b = (if b = c then p else get_page off k b)"
    using Cons.prems assms(2,3) by (simp add: dev.rd_wr_same dev.rd_wr_other)
  then show ?case using Cons by (cases "b = c") (simp_all add: put_pages_def)
qed (simp add: put_pages_def)

lemma write_replicas_blocks:
  "write_replicas bs ctx k = Some (0, k') \<Longrightarrow> io_ok k \<Longrightarrow> sb_ok (super_block ctx) \<Longrightarrow>
    \<exists>cs. list_all2 (\<lambda>b c. block_list_at (passive_fs ctx) b = Some c) bs cs"
proof (induction bs arbitrary: k)
  case (Cons b bs)
  let ?off = "data_start_off (passive_fs ctx)" and ?p = "sb_bytes (super_block ctx)"
  obtain c where c: "block_list_at (passive_fs ctx) b = Some c" using Cons.prems(1) by (auto split: bind_splits)
  have "write_page True ?p c ?off False k = Some (0, put_page ?off (tick_io k) c ?p)"
    using write_page_eq [of ?p True k c ?off False] Cons.prems by (simp add: tick_alloc_def io_okD)
  then have "write_replicas bs ctx (put_page ?off (tick_io k) c ?p) = Some (0, k')" using Cons.prems(1) c by simp
  then obtain cs where "list_all2 (\<lambda>b c. block_list_at (passive_fs ctx) b = Some c) bs cs"
    using Cons.IH [of "put_page ?off (tick_io k) c ?p"] Cons.prems(2,3) by auto
  then show ?case using c by (intro exI [of _ "c # cs"]) simp
qed (auto intro: exI [of _ "[]"])

text \<open>A sealed super block carries its own digest.\<close>

definition sealed :: "kernel \<Rightarrow> afs_super_block \<Rightarrow> bool" where
  "sealed k sb \<longleftrightarrow> sb_ok sb \<and> sb_hash sb = k_sha256 k (drop 32 (sb_bytes sb))"

lemma length_strncpy [simp, afs_len]: "length (strncpy n src) = n"
  using length_takeWhile_le [of "\<lambda>c. c \<noteq> 0" "take n src"] by (simp add: strncpy_def Let_def)

lemma seal_super_block_sealed:
  assumes "alloc_ok k" "digests_ok k" "sb_ok (super_block ctx)"
  shows "\<exists>sb. seal_super_block ctx k = (ctx\<lparr>super_block := sb\<rparr>, k\<lparr>k_allocs := k_allocs k + 2\<rparr>) \<and> sealed k sb \<and>
    sb_instance_size sb = instance_size (config ctx) \<and> sb_map_block_ptrs sb = sb_map_block_ptrs (super_block ctx)"
proof -
  define sb where "sb = (super_block ctx)\<lparr>sb_instance_size := instance_size (config ctx),
    sb_entropy_dir := strncpy ENTROPY_DIR_SZ (entropy_dir (args ctx))\<rparr>"
  have ok: "sb_ok sb" using assms(3) by (simp add: sb_def sb_ok_def ENTROPY_DIR_SZ_def)
  define d where "d = k_sha256 k (drop 32 (sb_bytes sb))"
  have d: "length d = 32" using assms(2) by (simp add: d_def digests_ok_def)
  have "seal_super_block ctx k = (ctx\<lparr>super_block := sb\<lparr>sb_hash := d\<rparr>\<rparr>, k\<lparr>k_allocs := k_allocs k + 2\<rparr>)"
    using hash_sha256_ok [OF assms(1)] ok d
    by (simp add: seal_super_block_def Let_def sb_def [symmetric] SHA256_SZ_def d_def [symmetric] sb_ok_def)
  moreover have "drop 32 (sb_bytes (sb\<lparr>sb_hash := d\<rparr>)) = drop 32 (sb_bytes sb)"
    using d ok by (simp add: sb_bytes_def sb_ok_def)
  then have "sealed k (sb\<lparr>sb_hash := d\<rparr>)" using ok d by (simp add: sealed_def sb_ok_def d_def)
  ultimately show ?thesis by (auto simp: sb_def)
qed

text \<open>Reading a sealed super block stops the search at once.\<close>

lemma find_loop_sealed:
  assumes "probe_loop (passive_fs ctx) dsize h b 0 k = Some (h', b', t, k1)" "k1 = k\<lparr>k_allocs := n\<rparr>"
    and "block_list_at (passive_fs ctx) b' = Some c" "sb_ok (super_block ctx)" "io_ok k" "alloc_ok k" "digests_ok k"
    and "get_page (data_start_off (passive_fs ctx)) k c = sb_bytes sb" "sealed k sb"
  shows "\<exists>n ios. find_loop dsize h b 0 ret ctx k =
    Some (Inr (0, b', ctx\<lparr>super_block := sb\<rparr>, k\<lparr>k_ios := ios, k_allocs := n\<rparr>))"
proof -
  have io: "io_ok k1" and al: "alloc_ok k1" using assms(2,5,6) by (simp_all add: io_ok_def alloc_ok_def)
  have sb: "sb_ok sb" using assms(9) by (simp add: sealed_def)
  have "get_page (data_start_off (passive_fs ctx)) k1 c = sb_bytes sb"
    using assms(2,8) get_page_dev_cong [of k1 k] by simp
  then have rd: "read_page True (sb_bytes (super_block ctx)) c (data_start_off (passive_fs ctx)) False k1 =
      Some (0, sb_bytes sb, tick_io k1)"
    using read_page_eq [of "sb_bytes (super_block ctx)" True k1 c "data_start_off (passive_fs ctx)" False] io assms(4)
    by (simp add: tick_alloc_def io_okD)
  have take: "take 32 (sb_bytes sb) = sb_hash sb" using sb by (simp add: sb_bytes_def sb_ok_def)
  have "hash_sha256 (drop SHA256_SZ (sb_bytes sb)) (uninit SHA256_SZ (tick_io k1)) (tick_io k1) =
      (0, sb_hash sb, (tick_io k1)\<lparr>k_allocs := k_allocs (tick_io k1) + 2\<rparr>)"
    using hash_sha256_ok [of "tick_io k1"] al assms(2,7,9)
    by (simp add: SHA256_SZ_def sealed_def digests_ok_def) (simp add: tick_io_def)
  then show ?thesis
    using assms(1,2,3) rd take sb_of_bytes_bytes [OF sb]
    by (subst find_loop.simps) (auto simp: SHA256_SZ_def tick_io_def)
qed

lemma rebuild_tuples_total:
  "p + 6 * n \<le> length m + 2 \<Longrightarrow> \<exists>v'. rebuild_tuples n m p v = Some v' \<and> marks v v'"
proof (induction n arbitrary: p v)
  case (Suc n)
  show ?case using Suc.IH [of "p + 6"] Suc.prems by (fastforce simp: peek_eq intro: marks_set)
qed simp

lemma rebuild_entries_total:
  assumes "map_geom cfg" "length m = cnb cfg * csz cfg" "unat i + n = cnb cfg"
  shows "\<exists>v'. rebuild_entries cfg m n i v = Some v' \<and> marks v v'"
  using assms(3)
proof (induction n arbitrary: i v)
  case (Suc n)
  have off: "unat (i * ucast (map_entry_sz cfg)) = unat i * csz cfg"
    using geom_mult [OF assms(1)] Suc.prems by simp
  have "Suc (unat i) * csz cfg \<le> cnb cfg * csz cfg" using Suc.prems by (intro mult_right_mono) simp_all
  then have "\<exists>v1. rebuild_tuples (unat (num_carrier_blocks cfg)) m (unat i * csz cfg) v = Some v1 \<and> marks v v1"
    using assms(2) map_geomD(8) [OF assms(1)] by (intro rebuild_tuples_total) simp
  moreover have "unat (i + 1) = unat i + 1"
  proof -
    have "cnb cfg < 2 ^ LENGTH(32)" by (rule unsigned_less)
    then show ?thesis using Suc.prems by (simp add: unat_word_ariths)
  qed
  ultimately show ?case using Suc.IH [of "i + 1"] Suc.prems off by (fastforce intro: marks_trans)
qed simp

section \<open>The chain of pointer blocks\<close>

text \<open>Starting at block \<open>b\<close>, the pages on the device are the given pointer blocks, each in a block that
  the allocation vector marks, and the last one has no successor.\<close>

fun ptr_chain :: "afs_passive_fs \<Rightarrow> afs_allocation_vector \<Rightarrow> kernel \<Rightarrow> u32 \<Rightarrow> afs_ptr_block list \<Rightarrow> bool" where
  "ptr_chain fs v k b [] \<longleftrightarrow> b = AFS_INVALID_BLOCK"
| "ptr_chain fs v k b (p # ps) \<longleftrightarrow> b \<in> taken_blocks fs v \<and> get_page (data_start_off fs) k b = pb_bytes p \<and>
     ptr_chain fs v k (pb_next_ptr_block p) ps"

lemma ptr_chain_keep:
  assumes "ptr_chain fs v k b ps" "\<And>j. taken v j \<Longrightarrow> taken v' j"
    and "\<And>c. c \<in> taken_blocks fs v \<Longrightarrow> get_page (data_start_off fs) k' c = get_page (data_start_off fs) k c"
  shows "ptr_chain fs v' k' b ps"
  using assms
proof (induction ps arbitrary: b)
  case (Cons p ps)
  then show ?case by (auto simp: taken_blocks_def)
qed simp

text \<open>Before turn \<open>i\<close> the chain holds the pointer blocks from \<open>i\<close> on, and the one before points to it.\<close>

definition chain_from :: "afs_private \<Rightarrow> kernel \<Rightarrow> nat \<Rightarrow> bool" where
  "chain_from ctx k i \<longleftrightarrow>
     (let pbs = afs_ptr_blocks ctx; fs = passive_fs ctx in
      if i = length pbs then True
      else ptr_chain fs (vector ctx) k
        (if i = 0 then sb_first_ptr_block (super_block ctx) else pb_next_ptr_block (pbs ! (i - 1))) (drop i pbs))"

lemma list_update_all: "\<forall>q \<in> set xs. P q \<Longrightarrow> P x \<Longrightarrow> \<forall>q \<in> set (xs[i := x]). P q"
  using set_update_subset_insert [of xs i x] by blast

lemma write_ptr_loop_chain:
  assumes "write_ptr_loop i ctx k = Some (0, ctx', k')" "i \<le> length (afs_ptr_blocks ctx)"
    and "length (afs_ptr_blocks ctx) = unat (num_ptr_blocks (config ctx))" "chain_from ctx k i"
    and "\<forall>p \<in> set (afs_ptr_blocks ctx). pb_ok p" "io_ok k" "alloc_ok k" "digests_ok k"
    and "open_vector (vector ctx)" "distinct (block_list (passive_fs ctx))"
    and "\<forall>c \<in> set (block_list (passive_fs ctx)). block_fits (data_start_off (passive_fs ctx)) c"
  shows "chain_from ctx' k' 0 \<and> length (afs_ptr_blocks ctx') = length (afs_ptr_blocks ctx) \<and>
    passive_fs ctx' = passive_fs ctx"
  using assms
proof (induction i arbitrary: ctx k)
  case (Suc i)
  let ?pbs = "afs_ptr_blocks ctx" and ?fs = "passive_fs ctx" and ?off = "data_start_off (passive_fs ctx)"
  let ?n = "length ?pbs"
  define p0 where "p0 = (if i = ?n - 1 then (?pbs ! i)\<lparr>pb_next_ptr_block := AFS_INVALID_BLOCK\<rparr> else ?pbs ! i)"
  define d where "d = take 16 (k_sha1 k (drop 16 (pb_bytes p0)))"
  define p where "p = p0\<lparr>pb_hash := d\<rparr>"
  define ka where "ka = k\<lparr>k_allocs := k_allocs k + 2\<rparr>"
  have in_set: "?pbs ! i \<in> set ?pbs" using Suc.prems(2) by simp
  have dlen: "length d = 16" using Suc.prems(8) by (simp add: d_def digests_ok_def)
  have pok: "pb_ok p" using Suc.prems(5) in_set dlen by (auto simp: p_def p0_def pb_ok_def)
  have hash: "hash_sha1 (drop 16 (pb_bytes p0)) (uninit 20 k) k = (0, k_sha1 k (drop 16 (pb_bytes p0)), ka)"
    using hash_sha1_ok [OF Suc.prems(7)] Suc.prems(8) by (simp add: ka_def digests_ok_def)
  note run = Suc.prems(1) [unfolded write_ptr_loop.simps Let_def, folded Suc.prems(3), folded p0_def, unfolded SHA1_SZ_def SHA128_SZ_def hash, simplified, folded d_def, folded p_def]
  obtain b v k1 where acq: "acquire_block ?fs (vector ctx) ka = Some (b, v, k1)" and valid: "b \<noteq> AFS_INVALID_BLOCK"
    using run by (auto simp: ENOSPC_def split: bind_splits if_splits)
  obtain rp where k1: "k1 = ka\<lparr>k_rpos := rp\<rparr>" using acquire_block_kernel [OF acq] by blast
  obtain x where x: "block_list_at ?fs x = Some b" "\<not> taken (vector ctx) x" "taken v x" "open_vector v"
    and mono: "\<And>j. taken (vector ctx) j \<Longrightarrow> taken v j" using acquire_open [OF acq Suc.prems(9) valid] by blast
  define k2 where "k2 = put_page ?off (tick_io k1) b (pb_bytes p)"
  have io1: "io_ok k1" using Suc.prems(6) by (simp add: k1 ka_def io_ok_def)
  have k2: "io_ok k2" "alloc_ok k2" "digests_ok k2"
    using Suc.prems(6-8) by (simp_all add: k2_def k1 ka_def io_ok_def alloc_ok_def digests_ok_def put_page_def dev_write_def tick_io_def)
  have wr: "write_page True (pb_bytes p) b ?off False k1 = Some (0, k2)"
    using write_page_eq [of "pb_bytes p" True k1 b ?off False] pok io1 by (simp add: k2_def tick_alloc_def io_okD)
  have b: "block_fits ?off b" using block_list_at_set [OF x(1)] Suc.prems(11) by blast
  have bnew: "b \<notin> taken_blocks ?fs (vector ctx)"
    using x block_list_at_inj [OF Suc.prems(10)] by (auto simp: taken_blocks_def)
  have page: "get_page ?off k2 b = pb_bytes p"
    using b pok by (simp add: k2_def dev.rd_wr_same)
  have keep: "get_page ?off k2 c = get_page ?off k c" if "c \<in> taken_blocks ?fs (vector ctx)" for c
  proof -
    have "block_fits ?off c" using that block_list_at_set Suc.prems(11) by (auto simp: taken_blocks_def)
    moreover have "c \<noteq> b" using that bnew by auto
    ultimately show ?thesis
      using b pok get_page_dev_cong [of k1 k ?off c] by (simp add: k2_def dev.rd_wr_other k1 ka_def)
  qed
  have tail: "ptr_chain ?fs v k2 (pb_next_ptr_block p) (drop (Suc i) ?pbs)"
  proof (cases "Suc i = ?n")
    case True
    then have "i = ?n - 1" by simp
    then show ?thesis using True by (simp add: p_def p0_def)
  next
    case False
    then have "ptr_chain ?fs (vector ctx) k (pb_next_ptr_block (?pbs ! i)) (drop (Suc i) ?pbs)"
      using Suc.prems(4) by (simp add: chain_from_def Let_def)
    then have "ptr_chain ?fs v k2 (pb_next_ptr_block (?pbs ! i)) (drop (Suc i) ?pbs)"
      using mono keep by (rule ptr_chain_keep)
    then show ?thesis using False by (simp add: p_def p0_def)
  qed
  define ctx2 where "ctx2 = (if i = 0 then ctx\<lparr>afs_ptr_blocks := ?pbs[i := p], vector := v,
      super_block := (super_block ctx)\<lparr>sb_first_ptr_block := b\<rparr>\<rparr>
    else ctx\<lparr>vector := v, afs_ptr_blocks := ?pbs[i := p, i - 1 := (?pbs[i := p] ! (i - 1))\<lparr>pb_next_ptr_block := b\<rparr>]\<rparr>)"
  have loop2: "write_ptr_loop i ctx2 k2 = Some (0, ctx', k')"
    using run acq valid wr by (cases "i = 0") (simp_all add: ctx2_def)
  have fields: "passive_fs ctx2 = ?fs" "config ctx2 = config ctx" "vector ctx2 = v" "length (afs_ptr_blocks ctx2) = ?n"
    by (simp_all add: ctx2_def)
  have chain2: "chain_from ctx2 k2 i"
  proof -
    have "b \<in> taken_blocks ?fs v" using x by (auto simp: taken_blocks_def)
    then have "ptr_chain ?fs v k2 b (p # drop (Suc i) ?pbs)" using page tail by simp
    moreover have "drop i (afs_ptr_blocks ctx2) = p # drop (Suc i) ?pbs"
    proof (cases "i = 0")
      case True
      then show ?thesis using Suc.prems(2) by (cases ?pbs) (simp_all add: ctx2_def)
    next
      case False
      then show ?thesis using Suc.prems(2) by (simp add: ctx2_def Cons_nth_drop_Suc [symmetric])
    qed
    moreover have "(if i = 0 then sb_first_ptr_block (super_block ctx2) else pb_next_ptr_block (afs_ptr_blocks ctx2 ! (i - 1))) = b"
      using Suc.prems(2) by (simp add: ctx2_def)
    ultimately show ?thesis unfolding chain_from_def Let_def fields by simp
  qed
  have ok2: "\<forall>q \<in> set (afs_ptr_blocks ctx2). pb_ok q"
  proof -
    have all: "\<forall>q \<in> set (?pbs[i := p]). pb_ok q" using Suc.prems(5) pok by (rule list_update_all)
    have upd: "pb_ok ((?pbs[i := p] ! (i - 1))\<lparr>pb_next_ptr_block := b\<rparr>)" if "i \<noteq> 0"
    proof -
      have "pb_ok (?pbs[i := p] ! (i - 1))" using all Suc.prems(2) by simp
      then show ?thesis by (simp add: pb_ok_def)
    qed
    have "\<forall>q \<in> set (?pbs[i := p, i - 1 := (?pbs[i := p] ! (i - 1))\<lparr>pb_next_ptr_block := b\<rparr>]). pb_ok q" if "i \<noteq> 0"
      by (rule list_update_all [OF all upd [OF that]])
    then show ?thesis using all by (cases "i = 0") (simp_all add: ctx2_def)
  qed
  have "i \<le> length (afs_ptr_blocks ctx2)" "length (afs_ptr_blocks ctx2) = unat (num_ptr_blocks (config ctx2))"
    using Suc.prems(2,3) fields by simp_all
  from Suc.IH [OF loop2 this chain2 ok2 k2, unfolded fields, OF x(4) Suc.prems(10,11)]
  show ?case by (simp add: fields)
qed simp

end
