(* ===== verification/Afs_Mount.thy ===== *)
theory Afs_Mount
  imports Afs_Super_Block
begin

text \<open>
  Creation and mounting together: an instance written by \<open>write_super_block\<close> is found again by
  \<open>find_super_block\<close>, the pointer blocks form a chain, and the cases in which mounting
  fails although the data is there.
\<close>

section \<open>Creating and mounting\<close>

lemma write_ptr_blocks_fresh:
  assumes "write_ptr_blocks ctx k = Some (0, ctx', k')" "num_ptr_blocks (config ctx) = 0"
    and "afs_map_blocks ctx = Some mb" "length mb = 4096 * cnm (config ctx)" "cnm (config ctx) \<le> 975"
    and "length (sb_map_block_ptrs (super_block ctx)) = 975"
    and "io_ok k" "open_vector (vector ctx)" "distinct (block_list (passive_fs ctx))"
    and "\<forall>c \<in> set (block_list (passive_fs ctx)). block_fits (data_start_off (passive_fs ctx)) c"
  shows "\<exists>bs v. ctx' = ctx\<lparr>vector := v, super_block := (super_block ctx)\<lparr>sb_map_block_ptrs :=
        bs @ drop (cnm (config ctx)) (sb_map_block_ptrs (super_block ctx))\<rparr>\<rparr> \<and>
      fresh_pages (passive_fs ctx) mb 0 (cnm (config ctx)) (vector ctx) k bs v k'"
proof -
  obtain r ctx1 bw k1 where loop: "write_map_sb_loop False 975 0 ctx (of_nat 0) k = Some (r, ctx1, bw, k1)"
    using assms(1) by (auto simp: write_ptr_blocks_def write_map_blocks_def NUM_MAP_BLKS_IN_SB_def split: bind_splits)
  have r: "r = None \<or> r = Some 0"
    using assms(1) loop
    by (auto simp: write_ptr_blocks_def write_map_blocks_def NUM_MAP_BLKS_IN_SB_def split: bind_splits option.splits if_splits)
  note fresh = write_map_sb_loop_fresh [OF loop r assms(3-5) _ _ assms(6-10), simplified]
  then have "config ctx1 = config ctx" using assms(5) by auto
  then have "ctx1 = ctx' \<and> k1 = k'"
    using assms(1,2) loop r
    by (auto simp: write_ptr_blocks_def write_map_blocks_def NUM_MAP_BLKS_IN_SB_def)
  then show ?thesis using fresh assms(5) by auto
qed

text \<open>The blocks of the metadata: the map blocks and the block \<open>c\<close> of the super block are different and taken.\<close>

definition laid_out :: "afs_private \<Rightarrow> u32 \<Rightarrow> bool" where
  "laid_out ctx c \<longleftrightarrow>
     (let ms = take (cnm (config ctx)) (sb_map_block_ptrs (super_block ctx)); used = taken_blocks (passive_fs ctx) (vector ctx)
      in distinct ms \<and> set ms \<subseteq> used \<and> c \<in> used \<and> c \<notin> set ms \<and> open_vector (vector ctx))"

text \<open>What a successful \<open>write_super_block\<close> leaves on the device.\<close>

definition created :: "afs_private \<Rightarrow> kernel \<Rightarrow> afs_private \<Rightarrow> kernel \<Rightarrow> bytes \<Rightarrow> bool" where
  "created ctx k ctx1 k1 amap \<longleftrightarrow>
     (let dsize = ucast (bdev_size (config ctx) div 8); h = k_sha1 k (take 64 (passphrase (args ctx)));
          fs = passive_fs ctx
      in dsize \<noteq> 0 \<and>
         (\<exists>h' b c k0 k2. place_loop fs dsize h (digest_block h dsize) k0 = Some (h', b, k2) \<and>
            k_sha1 k0 = k_sha1 k \<and> alloc_ok k0 \<and> block_list_at fs b = Some c \<and>
            get_page (data_start_off fs) k1 c = sb_bytes (super_block ctx1) \<and> laid_out ctx1 c) \<and>
         passive_fs ctx1 = fs \<and> args ctx1 = args ctx \<and> passphrase_hash ctx1 = passphrase_hash ctx \<and> encoding_type ctx1 = encoding_type ctx \<and>
         sealed k (super_block ctx1) \<and> sb_instance_size (super_block ctx1) = instance_size (config ctx) \<and>
         config ctx1 = config ctx \<and> afs_map ctx1 = Some amap \<and>
         (\<forall>j < cnm (config ctx). get_page (data_start_off fs) k1 (sb_map_block_ptrs (super_block ctx1) ! j) =
            map_image (k_sha512 k) (config ctx) amap j) \<and>
         io_ok k1 \<and> alloc_ok k1 \<and> k_sha1 k1 = k_sha1 k \<and> k_sha256 k1 = k_sha256 k \<and> k_sha512 k1 = k_sha512 k)"

lemma put_pages_sha [simp, afs_frame]:
  "k_sha1 (put_pages off k ps) = k_sha1 k" "k_sha256 (put_pages off k ps) = k_sha256 k"
  "k_sha512 (put_pages off k ps) = k_sha512 k" "k_rand (put_pages off k ps) = k_rand k" "k_junk (put_pages off k ps) = k_junk k"
  by (induction ps arbitrary: k) (auto simp: put_pages_def put_page_def dev_write_def tick_io_def)

text \<open>The last leg: with the map blocks in place, sealing and writing the replicas keeps them.\<close>

lemma seal_and_write:
  assumes fresh: "fresh_pages fs mb 0 nm v k bs v' k1" and vb: "\<forall>b \<in> set sbs. taken v b"
    and ctx: "passive_fs ctx = fs" "super_block ctx = sb\<lparr>sb_map_block_ptrs := bs @ drop nm ptrs\<rparr>"
    and ok: "io_ok k" "alloc_ok k" "digests_ok k" "sb_ok (super_block ctx)"
    and fs: "distinct (block_list fs)" "\<forall>c \<in> set (block_list fs). block_fits (data_start_off fs) c"
    and seal: "seal_super_block ctx k1 = (ctx1, k2)" and wr: "write_replicas (b # sbs') ctx1 k2 = Some (0, k3)"
    and sbs: "sbs = b # sbs'"
  shows "\<exists>c. block_list_at fs b = Some c \<and> get_page (data_start_off fs) k3 c = sb_bytes (super_block ctx1) \<and>
      c \<in> taken_blocks fs v' \<and> c \<notin> set bs"
    and "sealed k (super_block ctx1)" "sb_instance_size (super_block ctx1) = instance_size (config ctx)"
    and "\<exists>sb. ctx1 = ctx\<lparr>super_block := sb\<rparr>"
    and "\<forall>j < nm. get_page (data_start_off fs) k3 (sb_map_block_ptrs (super_block ctx1) ! j) = sub mb (4096 * j) 4096"
    and "io_ok k3" "alloc_ok k3" "k_sha1 k3 = k_sha1 k" "k_sha256 k3 = k_sha256 k" "k_sha512 k3 = k_sha512 k"
    and "sb_map_block_ptrs (super_block ctx1) = bs @ drop nm ptrs"
proof -
  let ?off = "data_start_off fs"
  note f = fresh [unfolded fresh_pages_def]
  have k1: "io_ok k1" "alloc_ok k1" "k_sha1 k1 = k_sha1 k" "k_sha256 k1 = k_sha256 k" "k_sha512 k1 = k_sha512 k"
    using f ok by auto
  then have dk1: "digests_ok k1" using ok(3) by (simp add: digests_ok_def)
  obtain sb1 where ctx1: "ctx1 = ctx\<lparr>super_block := sb1\<rparr>" and k2: "k2 = k1\<lparr>k_allocs := k_allocs k1 + 2\<rparr>"
    and sealed1: "sealed k1 sb1" and sb1: "sb_instance_size sb1 = instance_size (config ctx)"
      "sb_map_block_ptrs sb1 = bs @ drop nm ptrs"
    using seal_super_block_sealed [OF k1(2) dk1 ok(4)] seal ctx(2) by auto
  show "\<exists>sb. ctx1 = ctx\<lparr>super_block := sb\<rparr>" "sb_instance_size (super_block ctx1) = instance_size (config ctx)"
    using ctx1 sb1 by auto
  show sealed: "sealed k (super_block ctx1)" using sealed1 k1(4) ctx1 by (simp add: sealed_def)
  have io2: "io_ok k2" using k1(1) k2 by (simp add: io_ok_def)
  have sbok: "sb_ok (super_block ctx1)" using sealed by (simp add: sealed_def)
  obtain cs where all2: "list_all2 (\<lambda>b c. block_list_at (passive_fs ctx1) b = Some c) (b # sbs') cs"
    using write_replicas_blocks [OF wr io2 sbok] by blast
  have k3: "k3 = put_pages ?off k2 (map (\<lambda>c. (c, sb_bytes (super_block ctx1))) cs)"
    using write_replicas_eq [OF all2 io2 sbok] wr ctx1 ctx(1) by simp
  have cs_taken: "set cs \<subseteq> taken_blocks fs v"
  proof
    fix c assume "c \<in> set cs"
    then obtain i where i: "i < length cs" "cs ! i = c" by (auto simp: in_set_conv_nth)
    then have "block_list_at fs (sbs ! i) = Some c" and "i < length sbs"
      using all2 sbs ctx1 ctx(1) by (auto simp: list_all2_conv_all_nth)
    moreover from this(2) have "taken v (sbs ! i)" using vb by simp
    ultimately show "c \<in> taken_blocks fs v" by (auto simp: taken_blocks_def)
  qed
  have cs_fit: "\<forall>c \<in> set cs. block_fits ?off c"
    using cs_taken fs(2) block_list_at_set by (auto simp: taken_blocks_def)
  have pg: "get_page ?off k3 c = (if c \<in> set cs then sb_bytes (super_block ctx1) else get_page ?off k1 c)"
    if "block_fits ?off c" for c
    using get_put_pages_same [OF cs_fit length_sb_bytes [OF sbok] that] k3 k2 get_page_dev_cong [of k2 k1] by simp
  obtain c where c: "block_list_at fs b = Some c" "c \<in> set cs" using all2 ctx1 ctx(1) by (auto simp: list_all2_Cons1)
  moreover have "taken_blocks fs v \<subseteq> taken_blocks fs v'" using f by (auto simp: taken_blocks_def)
  moreover have "set bs \<inter> taken_blocks fs v = {}" using f by blast
  ultimately show "\<exists>c. block_list_at fs b = Some c \<and> get_page ?off k3 c = sb_bytes (super_block ctx1) \<and> c \<in> taken_blocks fs v' \<and> c \<notin> set bs"
    using pg cs_fit cs_taken by auto
  show "sb_map_block_ptrs (super_block ctx1) = bs @ drop nm ptrs" using ctx1 sb1(2) by simp
  show "\<forall>j < nm. get_page ?off k3 (sb_map_block_ptrs (super_block ctx1) ! j) = sub mb (4096 * j) 4096"
  proof (intro allI impI)
    fix j assume j: "j < nm"
    then have "sb_map_block_ptrs (super_block ctx1) ! j = bs ! j" using ctx1 sb1(2) f by (simp add: nth_append)
    moreover have bj: "bs ! j \<in> set bs" using j f by simp
    moreover have "bs ! j \<notin> set cs" using bj f cs_taken by blast
    moreover have "block_fits ?off (bs ! j)" using bj f fs(2) by blast
    ultimately show "get_page ?off k3 (sb_map_block_ptrs (super_block ctx1) ! j) = sub mb (4096 * j) 4096"
      using pg f j by simp
  qed
  show "io_ok k3" "alloc_ok k3" "k_sha1 k3 = k_sha1 k" "k_sha256 k3 = k_sha256 k" "k_sha512 k3 = k_sha512 k"
    using k1 k2 io2 by (simp_all add: k3)
qed

lemma write_super_block_created:
  assumes run: "write_super_block ctx k = Some (0, ctx1, k1)"
    and cfg: "map_geom (config ctx)" "cnm (config ctx) \<le> 975" "num_ptr_blocks (config ctx) = 0"
    and kernel: "io_ok k" "alloc_ok k" "digests_ok k" and sb: "sb_ok (super_block ctx)"
    and v: "open_vector (vector ctx)" and fs: "distinct (block_list (passive_fs ctx))"
      "\<forall>c \<in> set (block_list (passive_fs ctx)). block_fits (data_start_off (passive_fs ctx)) c"
  shows "created ctx k ctx1 k1 (concat (replicate (cnb (config ctx)) (invalid_entry (unat (num_carrier_blocks (config ctx))))))"
proof -
  let ?cfg = "config ctx" and ?fs = "passive_fs ctx" and ?pass = "take 64 (passphrase (args ctx))"
  let ?amap = "concat (replicate (cnb (config ctx)) (invalid_entry (unat (num_carrier_blocks (config ctx)))))"
  define dsize where "dsize = (ucast (bdev_size ?cfg div 8) :: u32)"
  have sha: "length (k_sha1 k d) = 20" "length (k_sha512 k d) = 64" for d using kernel(3) by (simp_all add: digests_ok_def)
  define h where "h = k_sha1 k ?pass"
  define ka where "ka = k\<lparr>k_allocs := k_allocs k + 2\<rparr>"
  have hash: "hash_sha1 ?pass (uninit SHA1_SZ k) k = (0, h, ka)"
    using hash_sha1_ok [OF kernel(2)] sha by (simp add: h_def ka_def SHA1_SZ_def)
  have d0: "dsize \<noteq> 0" using run by (auto simp: write_super_block_def dsize_def Let_def)
  note run = run [unfolded write_super_block_def Let_def PASSPHRASE_SZ_def NUM_SUPERBLOCK_REPLICAS_def, folded dsize_def]
  obtain h' b k2 where place: "place_loop ?fs dsize h (digest_block h dsize) ka = Some (h', b, k2)"
    using run d0 hash by (auto split: bind_splits)
  obtain n2 where k2: "k2 = k\<lparr>k_allocs := n2\<rparr>"
    using place_probe(1) [OF place] kernel(2) by (auto simp: ka_def)
  define ctx2 where "ctx2 = ctx\<lparr>vector := snd (allocation_set (vector ctx) b)\<rparr>"
  note v2 = open_vector_set [OF v, of b]
  obtain sbs' ctx3 k3 where reps: "replica_loop 7 dsize h' ctx2 k2 = Some (sbs', ctx3, k3)"
    using run d0 hash place by (auto simp: ctx2_def split: bind_splits)
  obtain v3 n3 where ctx3: "ctx3 = ctx\<lparr>vector := v3\<rparr>" and v3: "open_vector v3" "\<forall>b \<in> set sbs'. taken v3 b" "taken v3 b"
    and k3: "k3 = k\<lparr>k_allocs := n3\<rparr>"
    using replica_loop_marks [OF reps] v2 kernel(2) k2 by (auto simp: ctx2_def)
  define mb where "mb = concat (map (map_image (k_sha512 k) ?cfg ?amap) [0..<cnm ?cfg])"
  have amap: "length ?amap = cnb ?cfg * csz ?cfg"
    using map_geomD(8) [OF cfg(1)] by (simp add: length_concat sum_list_replicate)
  have img: "length (map_image (k_sha512 k) ?cfg ?amap i) = 4096" for i
    using length_map_image [OF cfg(1) amap] sha by blast
  have mb: "length mb = 4096 * cnm ?cfg" "j < cnm ?cfg \<Longrightarrow> sub mb (4096 * j) 4096 = map_image (k_sha512 k) ?cfg ?amap j" for j
    using length_concat_pages [of "map (map_image (k_sha512 k) ?cfg ?amap) [0..<cnm ?cfg]" 4096]
      sub_concat_pages [of "map (map_image (k_sha512 k) ?cfg ?amap) [0..<cnm ?cfg]" 4096 j] img
    by (auto simp: mb_def)
  have k3ok: "alloc_ok k3" "digests_ok k3" "io_ok k3" using kernel k3 by (simp_all add: digests_ok_def io_ok_def)
  define ctx4 where "ctx4 = ctx\<lparr>vector := v3, afs_map := Some ?amap, afs_map_blocks := Some mb, afs_ptr_blocks := [],
    super_block := (super_block ctx)\<lparr>sb_first_ptr_block := AFS_INVALID_BLOCK\<rparr>\<rparr>"
  obtain n4 where k4: "write_ptr_blocks ctx4 (k\<lparr>k_allocs := n4\<rparr>) \<bind> (\<lambda>(ret, ctx, k).
      if ret \<noteq> 0 then Some (ret, ctx, k)
      else (case seal_super_block ctx k of (ctx, k) \<Rightarrow>
        write_replicas (b # sbs') ctx k \<bind> (\<lambda>(ret, k). Some (ret, ctx, k)))) = Some (0, ctx1, k1)"
    using run d0 hash place reps afs_create_map_eq [of ctx3 k3] afs_create_map_blocks_eq [of "ctx3\<lparr>afs_map := Some ?amap\<rparr>"
        "k3\<lparr>k_allocs := Suc (k_allocs k3)\<rparr>" ?amap] cfg k3ok amap
    by (auto simp: ctx2_def ctx3 k3 ctx4_def mb_def kmalloc_alloc_ok digests_ok_def simp del: write_replicas.simps)
  then obtain ctx5 k5 where wpb: "write_ptr_blocks ctx4 (k\<lparr>k_allocs := n4\<rparr>) = Some (0, ctx5, k5)"
    and rest: "(case seal_super_block ctx5 k5 of (ctx, k) \<Rightarrow>
        write_replicas (b # sbs') ctx k \<bind> (\<lambda>(ret, k). Some (ret, ctx, k))) = Some (0, ctx1, k1)"
    by (auto split: bind_splits if_splits simp del: write_replicas.simps)
  obtain k6 where seal: "seal_super_block ctx5 k5 = (ctx1, k6)" and wr: "write_replicas (b # sbs') ctx1 k6 = Some (0, k1)"
    using rest by (auto split: bind_splits prod.splits simp del: write_replicas.simps)
  obtain bs v5 where ctx5: "ctx5 = ctx4\<lparr>vector := v5, super_block := (super_block ctx4)\<lparr>sb_map_block_ptrs :=
        bs @ drop (cnm ?cfg) (sb_map_block_ptrs (super_block ctx))\<rparr>\<rparr>"
    and fresh: "fresh_pages ?fs mb 0 (cnm ?cfg) v3 (k\<lparr>k_allocs := n4\<rparr>) bs v5 k5"
    using write_ptr_blocks_fresh [OF wpb] cfg mb(1) kernel(1) v3(1) fs sb by (auto simp: ctx4_def io_ok_def sb_ok_def)
  have sb5: "sb_ok (super_block ctx5)"
    using sb fresh cfg(2) by (auto simp: ctx5 ctx4_def sb_ok_def fresh_pages_def)
  have super: "super_block ctx5 = ((super_block ctx)\<lparr>sb_first_ptr_block := AFS_INVALID_BLOCK\<rparr>)\<lparr>sb_map_block_ptrs :=
        bs @ drop (cnm ?cfg) (sb_map_block_ptrs (super_block ctx))\<rparr>" "passive_fs ctx5 = ?fs"
    by (simp_all add: ctx5 ctx4_def)
  have vb: "\<forall>x \<in> set (b # sbs'). taken v3 x" using v3 by simp
  note s = seal_and_write [OF fresh vb super(2,1) _ _ _ sb5 fs seal wr refl]
  have kk: "io_ok (k\<lparr>k_allocs := n4\<rparr>)" "alloc_ok (k\<lparr>k_allocs := n4\<rparr>)" "digests_ok (k\<lparr>k_allocs := n4\<rparr>)"
    using kernel by (simp_all add: io_ok_def digests_ok_def)
  note s = s [OF kk]
  obtain c where c: "block_list_at ?fs b = Some c" "get_page (data_start_off ?fs) k1 c = sb_bytes (super_block ctx1)"
      "c \<in> taken_blocks ?fs v5" "c \<notin> set bs"
    using s(1) by blast
  obtain sb1 where ctx1: "ctx1 = ctx5\<lparr>super_block := sb1\<rparr>" using s(4) by blast
  have lo: "laid_out ctx1 c"
    using fresh [unfolded fresh_pages_def] s(11) c(3,4) ctx1 by (simp add: laid_out_def Let_def ctx5 ctx4_def)
  have ka: "k_sha1 ka = k_sha1 k" "alloc_ok ka" using kernel(2) by (simp_all add: ka_def)
  have "\<exists>h' b c k0 k2. place_loop ?fs dsize h (digest_block h dsize) k0 = Some (h', b, k2) \<and>
      k_sha1 k0 = k_sha1 k \<and> alloc_ok k0 \<and> block_list_at ?fs b = Some c \<and>
      get_page (data_start_off ?fs) k1 c = sb_bytes (super_block ctx1) \<and> laid_out ctx1 c"
    using place ka c lo by blast
  moreover have "config ctx1 = ?cfg" "afs_map ctx1 = Some ?amap" "passive_fs ctx1 = ?fs" "args ctx1 = args ctx"
    "passphrase_hash ctx1 = passphrase_hash ctx" "encoding_type ctx1 = encoding_type ctx" by (simp_all add: ctx1 ctx5 ctx4_def)
  moreover have "sealed k (super_block ctx1)" using s(2) by (simp add: sealed_def)
  ultimately show ?thesis
    using s(3,5-10) mb(2) d0 by (simp add: created_def Let_def dsize_def [symmetric] h_def [symmetric] ctx5 ctx4_def)
qed

lemma find_super_block_created:
  assumes made: "created ctx k ctx1 k1 amap" and digests: "digests_ok k"
    and cfg: "map_geom (config ctx)" "cnm (config ctx) \<le> 975" "num_ptr_blocks (config ctx) = 0"
      "length amap = cnb (config ctx) * csz (config ctx)"
    and same: "passphrase (args ctx') = passphrase (args ctx)" "passive_fs ctx' = passive_fs ctx"
      "build_configuration (config ctx') 4 1 = Some (config ctx)" "bdev_size (config ctx') = bdev_size (config ctx)"
      "instance_size (config ctx') = instance_size (config ctx)" and sb: "sb_ok (super_block ctx')"
  shows "\<exists>ctx2 k2. find_super_block ctx' k1 = Some (0, ctx2, k2) \<and> super_block ctx2 = super_block ctx1 \<and>
    config ctx2 = config ctx1 \<and> afs_map ctx2 = Some amap \<and> passive_fs ctx2 = passive_fs ctx' \<and> args ctx2 = args ctx' \<and>
    passphrase_hash ctx2 = passphrase_hash ctx' \<and> encoding_type ctx2 = encoding_type ctx' \<and> k_dev k2 = k_dev k1 \<and> io_ok k2 \<and> alloc_ok k2 \<and>
    (open_vector (vector ctx') \<longrightarrow> open_vector (vector ctx2))"
proof -
  let ?cfg = "config ctx" and ?fs = "passive_fs ctx" and ?pass = "take 64 (passphrase (args ctx))"
  define dsize where "dsize = (ucast (bdev_size ?cfg div 8) :: u32)"
  define h where "h = k_sha1 k ?pass"
  note m = made [unfolded created_def Let_def, folded dsize_def h_def]
  have d0: "dsize \<noteq> 0" and k1: "io_ok k1" "alloc_ok k1" "k_sha1 k1 = k_sha1 k" "k_sha256 k1 = k_sha256 k" "k_sha512 k1 = k_sha512 k"
    and ctx1: "sealed k (super_block ctx1)" "sb_instance_size (super_block ctx1) = instance_size ?cfg" "config ctx1 = ?cfg"
    and pages: "\<And>j. j < cnm ?cfg \<Longrightarrow> get_page (data_start_off ?fs) k1 (sb_map_block_ptrs (super_block ctx1) ! j) =
            map_image (k_sha512 k) ?cfg amap j"
    using m by auto
  obtain h' b c k0 k2 where place: "place_loop ?fs dsize h (digest_block h dsize) k0 = Some (h', b, k2)"
      and k0: "k_sha1 k0 = k_sha1 k" "alloc_ok k0" and c: "block_list_at ?fs b = Some c"
      "get_page (data_start_off ?fs) k1 c = sb_bytes (super_block ctx1)" using m by auto
  have dig: "digests_ok k1" using digests k1 by (simp add: digests_ok_def)
  define ka where "ka = k1\<lparr>k_allocs := k_allocs k1 + 2\<rparr>"
  have ka: "io_ok ka" "alloc_ok ka" "digests_ok ka" "k_sha1 ka = k_sha1 k" "k_sha256 ka = k_sha256 k"
    using k1 dig by (simp_all add: ka_def io_ok_def digests_ok_def)
  have hash: "hash_sha1 ?pass (uninit SHA1_SZ k1) k1 = (0, h, ka)"
    using hash_sha1_ok [OF k1(2)] k1(3) digests by (simp add: h_def ka_def SHA1_SZ_def digests_ok_def)
  obtain t n where probe: "probe_loop ?fs dsize h (digest_block h dsize) 0 ka = Some (h', b, t, ka\<lparr>k_allocs := n\<rparr>)"
    using place_probe(2) [OF place k0(2), of ka 0] ka k0 by auto
  have "get_page (data_start_off ?fs) ka c = sb_bytes (super_block ctx1)"
    using c(2) get_page_dev_cong [of ka k1] by (simp add: ka_def)
  moreover have "sealed ka (super_block ctx1)" using ctx1(1) ka(5) by (simp add: sealed_def)
  ultimately obtain n' ios where found: "find_loop dsize h (digest_block h dsize) 0 0 ctx' ka =
      Some (Inr (0, b, ctx'\<lparr>super_block := super_block ctx1\<rparr>, ka\<lparr>k_ios := ios, k_allocs := n'\<rparr>))"
    using find_loop_sealed [of ctx' dsize h "digest_block h dsize" ka h' b t "ka\<lparr>k_allocs := n\<rparr>" n c "super_block ctx1" 0]
      probe same(2) c(1) sb ka by auto
  define kb where "kb = k1\<lparr>k_ios := ios, k_allocs := Suc n'\<rparr>"
  have kb: "io_ok kb" "alloc_ok kb" using k1 by (simp_all add: kb_def io_ok_def alloc_ok_def)
  define ctxa where "ctxa = ctx'\<lparr>super_block := super_block ctx1, vector := snd (allocation_set (vector ctx') b),
    config := ?cfg, afs_map := Some (concat (replicate (cnb ?cfg) (invalid_entry (unat (num_carrier_blocks ?cfg)))))\<rparr>"
  have create: "afs_create_map (ctx'\<lparr>super_block := super_block ctx1, vector := snd (allocation_set (vector ctx') b), config := ?cfg\<rparr>)
      (ka\<lparr>k_ios := ios, k_allocs := n'\<rparr>) = Some (0, ctxa, kb)"
    using afs_create_map_eq [of "ctx'\<lparr>super_block := super_block ctx1, vector := snd (allocation_set (vector ctx') b), config := ?cfg\<rparr>"
        "ka\<lparr>k_ios := ios, k_allocs := n'\<rparr>"] cfg(1) ka(2)
    by (simp add: ctxa_def kb_def ka_def alloc_ok_def)
  have len: "length (concat (replicate (cnb ?cfg) (invalid_entry (unat (num_carrier_blocks ?cfg))))) = cnb ?cfg * csz ?cfg"
    using map_geomD(8) [OF cfg(1)] by (simp add: length_concat sum_list_replicate)
  have "\<exists>v k'. afs_fill_map ctxa kb = Some (0, ctxa\<lparr>vector := v, afs_map := Some amap\<rparr>, k') \<and>
      k_dev k' = k_dev kb \<and> io_ok k' \<and> alloc_ok k' \<and> marks (vector ctxa) v"
  proof (rule afs_fill_map_image [where sha = "k_sha512 k" and m = "concat (replicate (cnb ?cfg) (invalid_entry (unat (num_carrier_blocks ?cfg))))"])
    show "get_page (data_start_off (passive_fs ctxa)) kb (sb_map_block_ptrs (super_block ctxa) ! j) = map_image (k_sha512 k) (config ctxa) amap j"
      if "j < cnm (config ctxa)" for j
      using pages [of j] that same(2) get_page_dev_cong [of kb k1] by (simp add: ctxa_def kb_def)
  qed (use cfg kb len digests in \<open>simp_all add: ctxa_def digests_ok_def\<close>)
  then obtain v kc where fill: "afs_fill_map ctxa kb = Some (0, ctxa\<lparr>vector := v, afs_map := Some amap\<rparr>, kc)"
    and kc: "alloc_ok kc" "k_dev kc = k_dev kb" "io_ok kc" and v1: "marks (vector ctxa) v" by blast
  obtain v' where "rebuild_entries ?cfg amap (cnb ?cfg) 0 v = Some v'" and v2: "marks v v'"
    using rebuild_entries_total [OF cfg(1,4), of 0 "cnb ?cfg" v] by auto
  then have rebuild: "rebuild_allocation_vector (ctxa\<lparr>vector := v, afs_map := Some amap\<rparr>) =
      Some (ctxa\<lparr>vector := v', afs_map := Some amap\<rparr>)"
    by (simp add: rebuild_allocation_vector_def ctxa_def)
  have "find_super_block ctx' k1 = Some (0, ctxa\<lparr>vector := v', afs_map := Some amap, afs_ptr_blocks := []\<rparr>,
      kc\<lparr>k_allocs := Suc (k_allocs kc)\<rparr>)"
    using d0 hash found create fill rebuild kc(1) ctx1(2) same cfg(3)
    by (simp add: find_super_block_def PASSPHRASE_SZ_def dsize_def [symmetric] kmalloc_alloc_ok rebuild_ptr_blocks_def ctxa_def)
  moreover have "open_vector v'" if "open_vector (vector ctx')"
    using that open_vector_set(1) [of "vector ctx'" b] open_vector_marks [OF v1] open_vector_marks [OF v2] by (simp add: ctxa_def)
  ultimately show ?thesis using ctx1(3) kc by (auto simp: ctxa_def kb_def io_ok_def)
qed

text \<open>C7: An instance that was created can be mounted: when \<open>write_super_block\<close> reports success, then
  \<open>find_super_block\<close>, given the same passphrase and size on the same device, reports success too, and
  has found the same super block, the same configuration and the same map. This covers the hashing that
  places the super block, the allocation of the map blocks, their layout and the digests, for
  instances whose map blocks the super block can list.\<close>

theorem create_then_mount:
  assumes create: "write_super_block ctx k = Some (0, ctx1, k1)"
    and cfg: "cfg_ok (config ctx)" "0 < num_blocks (config ctx)" "num_map_blocks (config ctx) \<le> 975"
    and kernel: "io_ok k" "alloc_ok k" "digests_ok k"
    and fs: "distinct (block_list (passive_fs ctx))"
      "\<forall>c \<in> set (block_list (passive_fs ctx)). block_fits (data_start_off (passive_fs ctx)) c"
    and ctx: "sb_ok (super_block ctx)" "open_vector (vector ctx)"
    and mount: "passphrase (args ctx') = passphrase (args ctx)" "passive_fs ctx' = passive_fs ctx"
      "build_configuration (config ctx') 4 1 = Some (config ctx)" "bdev_size (config ctx') = bdev_size (config ctx)"
      "instance_size (config ctx') = instance_size (config ctx)" "sb_ok (super_block ctx')"
  shows "\<exists>ctx2 k2. find_super_block ctx' k1 = Some (0, ctx2, k2) \<and> super_block ctx2 = super_block ctx1 \<and>
    config ctx2 = config ctx1 \<and> afs_map ctx2 = afs_map ctx1"
proof -
  let ?amap = "concat (replicate (cnb (config ctx)) (invalid_entry (unat (num_carrier_blocks (config ctx)))))"
  have small: "cnm (config ctx) \<le> 975" "0 < cnb (config ctx)"
    using cfg by (simp_all add: word_le_nat_alt word_less_nat_alt)
  note g = map_geomI [OF cfg(1) small(2,1)]
  have made: "created ctx k ctx1 k1 ?amap"
    by (rule write_super_block_created [OF create g(1) small(1) g(2) kernel ctx fs])
  have "length ?amap = cnb (config ctx) * csz (config ctx)"
    using map_geomD(8) [OF g(1)] by (simp add: length_concat sum_list_replicate)
  from find_super_block_created [OF made kernel(3) g(1) small(1) g(2) this mount]
  show ?thesis using made by (auto simp: created_def Let_def)
qed

text \<open>A concrete instance: 16 data blocks on a free list of eight blocks. The constant digests of
  the demonstration kernel put every replica at index 0, and the one map block lands at index 1.\<close>

definition mount_fs :: afs_passive_fs where
  "mount_fs = \<lparr>block_list = [0, 9, 12, 20, 21, 22, 23, 24], list_len = 8, sectors_per_block = 8, total_blocks = 32,
     data_start_off = 0, blocks_in_tuple = 1\<rparr>"

definition mount_ctx :: afs_private where
  "mount_ctx = (demo_ctx (demo_geom 16 1 0) [])\<lparr>passive_fs := mount_fs,
     vector := Some \<lparr>bv_array = replicate 536870912 0, bv_length = 0xFFFFFFFF\<rparr>\<rparr>"

lemma mount_ctx_fields [simp]:
  "passive_fs mount_ctx = mount_fs" "config mount_ctx = demo_geom 16 1 0" "sb_ok (super_block mount_ctx)"
  "length (passphrase (args mount_ctx)) = 64"
  by (simp_all add: mount_ctx_def demo_ctx_def sb_ok_def)

lemma mount_vector: "open_vector (vector mount_ctx)" "\<not> taken (vector mount_ctx) i"
proof -
  have i: "(ucast i :: u64) \<le> 0xFFFFFFFF"
  proof -
    have "unat i < 2 ^ LENGTH(32)" by (rule unsigned_less)
    then show ?thesis by (simp add: word_le_nat_alt unat_ucast_u32)
  qed
  have "unat i < 2 ^ LENGTH(32)" by (rule unsigned_less)
  then have "unat i div 8 < 536870912" by simp
  then show "\<not> taken (vector mount_ctx) i"
    using i by (simp add: mount_ctx_def taken_iff bit_vector_get_def test_bit_at_def byte_index_eq unat_ucast_u32 leD)
  have "(ucast j :: u64) \<le> 0xFFFFFFFF" for j :: u32
  proof -
    have "unat j < 2 ^ LENGTH(32)" by (rule unsigned_less)
    then show ?thesis by (simp add: word_le_nat_alt unat_ucast_u32)
  qed
  then show "open_vector (vector mount_ctx)"
    by (simp add: mount_ctx_def open_vector_def bv_ok_def bv_wf_def vec_accepts_def bv_accepts_def)
qed

lemma mount_place: "place_loop (passive_fs mount_ctx) d h 0 k = Some (h, 0, k)"
proof -
  have "binary_search [0, 9, 12, 20, 21, 22, 23, 24] 0 8 = Some 0" by code_simp
  then show ?thesis by (subst place_loop.simps) (simp add: mount_fs_def)
qed

lemma demo_digest: "digest_block (replicate 20 0) d = 0"
  by (simp add: digest_block_def eval_nat_numeral)

lemma allocation_set_taken: "taken v i \<Longrightarrow> allocation_set v i = (False, v)"
  by (simp add: allocation_set_eq)

lemma mount_replicas:
  assumes "taken v 0" "k_sha1 k = (\<lambda>_. replicate 20 0)" "alloc_ok k"
  shows "replica_loop n d h (mount_ctx\<lparr>vector := v\<rparr>) k =
    Some (replicate n 0, mount_ctx\<lparr>vector := v\<rparr>, k\<lparr>k_allocs := k_allocs k + 2 * n\<rparr>)"
  using assms(2,3)
proof (induction n arbitrary: h k)
  case (Suc n)
  have "replica_loop n d (replicate 20 0) (mount_ctx\<lparr>vector := v\<rparr>) (k\<lparr>k_allocs := k_allocs k + 2\<rparr>) =
      Some (replicate n 0, mount_ctx\<lparr>vector := v\<rparr>, k\<lparr>k_allocs := k_allocs k + 2 * Suc n\<rparr>)"
    using Suc.IH [of "k\<lparr>k_allocs := k_allocs k + 2\<rparr>"] Suc.prems by simp
  then show ?case
    using Suc.prems assms(1) mount_place
    by (simp add: hash_sha1_ok SHA1_SZ_def demo_digest allocation_set_taken)
qed simp

lemma mount_acquire:
  assumes "open_vector v" "\<And>j. taken v j \<longleftrightarrow> j = 0"
  shows "acquire_block (passive_fs mount_ctx) v (demo_kernel\<lparr>k_allocs := n\<rparr>) =
    Some (9, snd (allocation_set v 1), demo_kernel\<lparr>k_allocs := n, k_rpos := 8\<rparr>)"
proof -
  have d0: "random_block_index (passive_fs mount_ctx) (demo_kernel\<lparr>k_allocs := n\<rparr>) = Some (0, demo_kernel\<lparr>k_allocs := n, k_rpos := 4\<rparr>)"
  proof -
    have "le_word [0, 0, 0, 0 :: u8] mod (8 :: u32) = 0" by code_simp
    moreover have "map (\<lambda>i. k_rand demo_kernel (k_rpos demo_kernel + i)) [0..<4] = [0, 0, 0, 0]" by code_simp
    moreover have "k_rpos demo_kernel = 0" by (simp add: demo_kernel_def)
    ultimately show ?thesis by (simp add: random_block_index_def get_random_bytes_def mount_fs_def)
  qed
  have d1: "random_block_index (passive_fs mount_ctx) (demo_kernel\<lparr>k_allocs := n, k_rpos := 4\<rparr>) =
      Some (1, demo_kernel\<lparr>k_allocs := n, k_rpos := 8\<rparr>)"
  proof -
    have "le_word [1, 1, 1, 1 :: u8] mod (8 :: u32) = 1" by code_simp
    moreover have "map (\<lambda>i. k_rand demo_kernel (4 + i)) [0..<4] = [1, 1, 1, 1]" by code_simp
    ultimately show ?thesis by (simp add: random_block_index_def get_random_bytes_def mount_fs_def)
  qed
  obtain v' where "allocation_set v 1 = (True, v')"
    using assms by (simp add: allocation_set_eq open_vector_def)
  moreover have "allocation_set v 0 = (False, v)" using assms(2) by (simp add: allocation_set_taken)
  ultimately show ?thesis
    using d0 d1
    by (simp add: acquire_block_def acquire_loop.simps [of _ 0 0] acquire_loop.simps [of _ 0 1] block_list_at_def mount_fs_def)
qed

lemma write_one_map_block:
  assumes "num_map_blocks (config ctx) = 1" "num_ptr_blocks (config ctx) = 0" "io_ok k1"
    and "acquire_block (passive_fs ctx) (vector ctx) k = Some (b, v, k1)" "b \<noteq> AFS_INVALID_BLOCK"
    and "afs_map_blocks ctx = Some mb" "length mb = 4096"
  shows "write_ptr_blocks ctx k =
    Some (0, ctx\<lparr>vector := v, super_block := (super_block ctx)\<lparr>sb_map_block_ptrs := (sb_map_block_ptrs (super_block ctx))[0 := b]\<rparr>\<rparr>,
      put_page (data_start_off (passive_fs ctx)) (tick_io k1) b mb)"
proof -
  have n: "unat NUM_MAP_BLKS_IN_SB = Suc (Suc 973)" by (simp add: NUM_MAP_BLKS_IN_SB_def)
  have wr: "write_page True mb b (data_start_off (passive_fs ctx)) True k1 =
      Some (0, put_page (data_start_off (passive_fs ctx)) (tick_io k1) b mb)"
    using write_page_eq [of mb True k1 b "data_start_off (passive_fs ctx)" True] assms(3,7) by (simp add: tick_alloc_def io_okD)
  have "write_map_sb_loop False (Suc (Suc n)) 0 ctx 0 k = Some (Some 0,
      ctx\<lparr>vector := v, super_block := (super_block ctx)\<lparr>sb_map_block_ptrs := (sb_map_block_ptrs (super_block ctx))[0 := b]\<rparr>\<rparr>,
      1, put_page (data_start_off (passive_fs ctx)) (tick_io k1) b mb)" for n
    using assms wr by (simp add: map_block_num_def peek_eq)
  note loop = this [of 973, folded n]
  show ?thesis using assms(2) by (simp add: write_ptr_blocks_def write_map_blocks_def loop)
qed

lemma mount_created:
  "\<exists>ctx1 k1. write_super_block mount_ctx demo_kernel = Some (0, ctx1, k1) \<and> k_rand k1 = k_rand demo_kernel \<and>
     k_junk k1 = k_junk demo_kernel \<and> (\<forall>j. taken (vector ctx1) j \<longleftrightarrow> j = 0 \<or> j = 1)"
proof -
  let ?fs = "passive_fs mount_ctx" and ?cfg = "demo_geom 16 1 0"
  define v1 where "v1 = snd (allocation_set (vector mount_ctx) 0)"
  have v1: "open_vector v1" "taken v1 j \<longleftrightarrow> j = 0" for j
    using open_vector_set [OF mount_vector(1), of 0] mount_vector(2) by (simp_all add: v1_def)
  have dk: "k_allocs demo_kernel = 0" "k_sha1 demo_kernel = (\<lambda>_. replicate 20 0)" by (simp_all add: demo_kernel_def)
  have d: "(ucast (bdev_size ?cfg div 8) :: u32) = 0x40000" by (simp add: demo_geom_def)
  have hash: "hash_sha1 x (uninit SHA1_SZ demo_kernel) demo_kernel = (0, replicate 20 0, demo_kernel\<lparr>k_allocs := 2\<rparr>)" for x
    using hash_sha1_ok [OF demo_kernel_ok(2)] by (simp add: dk SHA1_SZ_def)
  have reps: "replica_loop 7 0x40000 (replicate 20 0) (mount_ctx\<lparr>vector := v1\<rparr>) (demo_kernel\<lparr>k_allocs := 2\<rparr>) =
      Some (replicate 7 0, mount_ctx\<lparr>vector := v1\<rparr>, demo_kernel\<lparr>k_allocs := 16\<rparr>)"
    using mount_replicas [of v1 "demo_kernel\<lparr>k_allocs := 2\<rparr>" 7] v1(2) dk demo_kernel_ok(2) by simp
  have g: "map_geom ?cfg" using map_geomI(1) [OF demo_cfg_ok(1)] by (simp add: demo_geom_def)
  define amap where "amap = concat (replicate 16 (invalid_entry 4))"
  have amap: "length amap = 16 * 64" by (simp add: amap_def length_concat sum_list_replicate)
  have cfg: "cnb ?cfg = 16" "csz ?cfg = 64" "unat (num_carrier_blocks ?cfg) = 4" "cnm ?cfg = 1" "num_ptr_blocks ?cfg = 0"
    "num_map_blocks ?cfg = 1" by (simp_all add: demo_geom_def)
  define ctx3 where "ctx3 = mount_ctx\<lparr>vector := v1, afs_map := Some amap\<rparr>"
  have create: "afs_create_map (mount_ctx\<lparr>vector := v1\<rparr>) (demo_kernel\<lparr>k_allocs := 16\<rparr>) = Some (0, ctx3, demo_kernel\<lparr>k_allocs := 17\<rparr>)"
    using afs_create_map_eq [of "mount_ctx\<lparr>vector := v1\<rparr>" "demo_kernel\<lparr>k_allocs := 16\<rparr>"] g cfg demo_kernel_ok
    by (simp add: ctx3_def amap_def)
  define mb where "mb = map_image (k_sha512 demo_kernel) ?cfg amap 0"
  have mb: "length mb = 4096"
    unfolding mb_def using amap cfg demo_kernel_ok(3) by (intro length_map_image g) (simp_all add: digests_ok_def)
  have blocks: "afs_create_map_blocks ctx3 (demo_kernel\<lparr>k_allocs := 17\<rparr>) =
      Some (0, ctx3\<lparr>afs_map_blocks := Some mb\<rparr>, demo_kernel\<lparr>k_allocs := 20\<rparr>)"
    using afs_create_map_blocks_eq [of ctx3 "demo_kernel\<lparr>k_allocs := 17\<rparr>" amap] g cfg demo_kernel_ok amap
    by (simp add: ctx3_def mb_def digests_ok_def)
  define ctx4 where "ctx4 = ctx3\<lparr>afs_map_blocks := Some mb, afs_ptr_blocks := [],
    super_block := (super_block ctx3)\<lparr>sb_first_ptr_block := AFS_INVALID_BLOCK\<rparr>\<rparr>"
  define k4 where "k4 = demo_kernel\<lparr>k_allocs := 21, k_rpos := 8\<rparr>"
  have k4: "io_ok k4" "alloc_ok k4" "digests_ok k4" using demo_kernel_ok by (simp_all add: k4_def io_ok_def alloc_ok_def digests_ok_def)
  have "acquire_block (passive_fs ctx4) (vector ctx4) (demo_kernel\<lparr>k_allocs := 21\<rparr>) = Some (9, snd (allocation_set v1 1), k4)"
    using mount_acquire [OF v1, of 21] by (simp add: ctx4_def ctx3_def k4_def)
  then obtain ctx5 k5 where wpb: "write_ptr_blocks ctx4 (demo_kernel\<lparr>k_allocs := 21\<rparr>) = Some (0, ctx5, k5)"
    and ctx5: "passive_fs ctx5 = mount_fs" "sb_ok (super_block ctx5)" "vector ctx5 = snd (allocation_set v1 1)"
    and k5: "io_ok k5" "alloc_ok k5" "digests_ok k5" "k_rand k5 = k_rand demo_kernel" "k_junk k5 = k_junk demo_kernel"
    using write_one_map_block [of ctx4 k4 "demo_kernel\<lparr>k_allocs := 21\<rparr>" 9] cfg k4 mb
    by (auto simp: ctx4_def ctx3_def AFS_INVALID_BLOCK_def sb_ok_def mount_ctx_def demo_ctx_def
        digests_ok_def put_page_def dev_write_def tick_io_def io_ok_def alloc_ok_def k4_def)
  obtain sb where seal: "seal_super_block ctx5 k5 = (ctx5\<lparr>super_block := sb\<rparr>, k5\<lparr>k_allocs := k_allocs k5 + 2\<rparr>)" "sealed k5 sb"
    using seal_super_block_sealed [OF k5(2,3) ctx5(2)] by blast
  have "0 # replicate 7 0 = replicate 8 (0 :: u32)" by (simp flip: replicate_Suc)
  then have "list_all2 (\<lambda>b c. block_list_at mount_fs b = Some c) (0 # replicate 7 0) (replicate 8 0)"
    by (simp add: list_all2_conv_all_nth block_list_at_def mount_fs_def)
  then have "\<exists>k6. write_replicas (0 # replicate 7 0) (ctx5\<lparr>super_block := sb\<rparr>) (k5\<lparr>k_allocs := k_allocs k5 + 2\<rparr>) = Some (0, k6) \<and>
      k_rand k6 = k_rand demo_kernel \<and> k_junk k6 = k_junk demo_kernel"
    using write_replicas_eq [of "ctx5\<lparr>super_block := sb\<rparr>" "0 # replicate 7 0" "replicate 8 0" "k5\<lparr>k_allocs := k_allocs k5 + 2\<rparr>"]
      ctx5(1) k5(1,4,5) seal(2) by (auto simp: sealed_def io_ok_def)
  moreover have "taken (snd (allocation_set v1 1)) j \<longleftrightarrow> j = 0 \<or> j = 1" for j using open_vector_set(2) [OF v1(1), of 1 j] v1(2) by auto
  ultimately show ?thesis
    using hash reps create blocks wpb seal(1) mount_place [of "0x40000" "replicate 20 0"] demo_kernel_ok cfg
    by (auto simp: write_super_block_def d demo_digest NUM_SUPERBLOCK_REPLICAS_def v1_def [symmetric] kmalloc_alloc_ok
        ctx4_def ctx3_def ctx5(3) simp del: write_replicas.simps)
qed

theorem create_then_mount_witness:
  "\<exists>ctx1 k1 ctx2 k2. write_super_block mount_ctx demo_kernel = Some (0, ctx1, k1) \<and>
    find_super_block mount_ctx k1 = Some (0, ctx2, k2) \<and> super_block ctx2 = super_block ctx1 \<and>
    config ctx2 = config ctx1 \<and> afs_map ctx2 = afs_map ctx1"
proof -
  obtain ctx1 k1 where run: "write_super_block mount_ctx demo_kernel = Some (0, ctx1, k1)" using mount_created by auto
  have "\<exists>ctx2 k2. find_super_block mount_ctx k1 = Some (0, ctx2, k2) \<and> super_block ctx2 = super_block ctx1 \<and>
    config ctx2 = config ctx1 \<and> afs_map ctx2 = afs_map ctx1"
  proof (rule create_then_mount [OF run])
    have "build_configuration (demo_geom 16 1 0) 4 1 = Some (demo_geom 16 1 0)" by code_simp
    then show "build_configuration (config mount_ctx) 4 1 = Some (config mount_ctx)" by simp
  qed (use demo_cfg_ok demo_kernel_ok mount_vector(1) in \<open>simp_all add: demo_geom_def mount_fs_def block_fits_def\<close>)
  then show ?thesis using run by blast
qed

section \<open>Pointer blocks on the device\<close>

text \<open>C21: The pointer blocks that \<open>write_ptr_blocks\<close> leaves on the device form a list: when its loop
  succeeds, following \<open>next_ptr_block\<close> from the super block visits exactly the pointer blocks of the
  instance, in order, each on a block of its own, and ends at the last one.\<close>

theorem write_ptr_blocks_chain:
  assumes "write_ptr_loop (length (afs_ptr_blocks ctx)) ctx k = Some (0, ctx', k')"
    and "length (afs_ptr_blocks ctx) = unat (num_ptr_blocks (config ctx))" "afs_ptr_blocks ctx \<noteq> []"
    and "\<forall>p \<in> set (afs_ptr_blocks ctx). pb_ok p" "io_ok k" "alloc_ok k" "digests_ok k"
    and "open_vector (vector ctx)" "distinct (block_list (passive_fs ctx))"
    and "\<forall>c \<in> set (block_list (passive_fs ctx)). block_fits (data_start_off (passive_fs ctx)) c"
  shows "ptr_chain (passive_fs ctx) (vector ctx') k' (sb_first_ptr_block (super_block ctx')) (afs_ptr_blocks ctx')"
proof -
  have "chain_from ctx k (length (afs_ptr_blocks ctx))" by (simp add: chain_from_def)
  from write_ptr_loop_chain [OF assms(1) le_refl assms(2) this assms(4-)] assms(3)
  show ?thesis by (auto simp: chain_from_def Let_def split: if_splits)
qed

theorem write_ptr_blocks_chain_witness:
  "\<exists>ctx ctx' k'. write_ptr_loop (length (afs_ptr_blocks ctx)) ctx demo_kernel = Some (0, ctx', k') \<and>
    ptr_chain (passive_fs ctx) (vector ctx') k' (sb_first_ptr_block (super_block ctx')) (afs_ptr_blocks ctx')"
proof -
  define v1 where "v1 = snd (allocation_set (vector mount_ctx) 0)"
  have v1: "open_vector v1" "taken v1 j \<longleftrightarrow> j = 0" for j
    using open_vector_set [OF mount_vector(1), of 0] mount_vector(2) by (simp_all add: v1_def)
  define ctx where "ctx = mount_ctx\<lparr>config := demo_geom 61426 976 1, afs_ptr_blocks := [zero_ptr_block], vector := v1\<rparr>"
  have np: "num_ptr_blocks (config ctx) = 1" by (simp add: ctx_def demo_geom_def)
  define d where "d = take 16 (k_sha1 demo_kernel (drop 16 (pb_bytes (zero_ptr_block\<lparr>pb_next_ptr_block := AFS_INVALID_BLOCK\<rparr>))))"
  define p where "p = zero_ptr_block\<lparr>pb_next_ptr_block := AFS_INVALID_BLOCK, pb_hash := d\<rparr>"
  have p: "pb_ok p" using demo_kernel_ok(3) by (simp add: p_def zero_ptr_block_def pb_ok_def d_def digests_ok_def)
  have hash: "hash_sha1 x (uninit 20 demo_kernel) demo_kernel = (0, k_sha1 demo_kernel x, demo_kernel\<lparr>k_allocs := 2\<rparr>)" for x
    using hash_sha1_ok [OF demo_kernel_ok(2)] demo_kernel_ok(3) by (simp add: digests_ok_def) (simp add: demo_kernel_def)
  let ?k = "demo_kernel\<lparr>k_allocs := 2, k_rpos := 8\<rparr>"
  have "9 \<noteq> AFS_INVALID_BLOCK" by (simp add: AFS_INVALID_BLOCK_def)
  have acq: "acquire_block (passive_fs ctx) v1 (demo_kernel\<lparr>k_allocs := 2\<rparr>) = Some (9, snd (allocation_set v1 1), ?k)"
    using mount_acquire [OF v1, of 2] by (simp add: ctx_def)
  have "write_page True (pb_bytes p) 9 0 False ?k = Some (0, put_page 0 (tick_io ?k) 9 (pb_bytes p))"
    using write_page_eq [of "pb_bytes p" True ?k 9 0 False] p demo_kernel_ok(1) by (simp add: tick_alloc_def io_ok_def)
  then have run: "\<exists>ctx' k'. write_ptr_loop (Suc 0) ctx demo_kernel = Some (0, ctx', k')"
    using acq hash np \<open>9 \<noteq> AFS_INVALID_BLOCK\<close>
    by (simp add: SHA1_SZ_def SHA128_SZ_def ctx_def Let_def d_def [symmetric] p_def [symmetric] mount_fs_def)
  then obtain ctx' k' where run: "write_ptr_loop (length (afs_ptr_blocks ctx)) ctx demo_kernel = Some (0, ctx', k')"
    by (auto simp: ctx_def)
  have "ptr_chain (passive_fs ctx) (vector ctx') k' (sb_first_ptr_block (super_block ctx')) (afs_ptr_blocks ctx')"
    by (rule write_ptr_blocks_chain [OF run])
      (use np v1 demo_kernel_ok in \<open>simp_all add: ctx_def zero_ptr_block_def pb_ok_def mount_fs_def block_fits_def\<close>)
  then show ?thesis using run by blast
qed

section \<open>Where mounting goes wrong\<close>

lemma find_loop_stuck:
  assumes "binary_search (block_list (passive_fs ctx)) b (list_len (passive_fs ctx)) = Some i" "i \<noteq> - 1"
    and "block_list_at (passive_fs ctx) b = Some c" "length p = 4096"
    and "take 32 p \<noteq> k_sha256 k (drop 32 p)" "get_page (data_start_off (passive_fs ctx)) k c = p"
    and "io_ok k" "alloc_ok k" "digests_ok k" "sb_ok (super_block ctx)" "n + unat t = 32" "n = 0 \<Longrightarrow> ret = 1 \<and> super_block ctx = sb_of_bytes p"
  shows "\<exists>m ios. find_loop d h b t ret ctx k = Some (Inr (1, b, ctx\<lparr>super_block := sb_of_bytes p\<rparr>, k\<lparr>k_ios := ios, k_allocs := m\<rparr>))"
  using assms
proof (induction n arbitrary: t ret ctx k)
  case 0
  then have "\<not> t < 32" by (simp add: word_less_nat_alt)
  then have "find_loop d h b t ret ctx k = Some (Inr (1, b, ctx, k))" using 0(12) by (subst find_loop.simps) simp
  moreover have "ctx\<lparr>super_block := sb_of_bytes p\<rparr> = ctx" using 0(12) by simp
  ultimately show ?case by (intro exI [of _ "k_allocs k"] exI [of _ "k_ios k"]) simp
next
  case (Suc n)
  let ?off = "data_start_off (passive_fs ctx)"
  have t: "t < 32" "n + unat (t + 1) = 32"
  proof -
    have "unat t < 32" using Suc.prems(11) by simp
    then show "t < 32" by (simp add: word_less_nat_alt)
    have "unat (t + 1) = unat t + 1" using \<open>unat t < 32\<close> by (simp add: unat_word_ariths)
    then show "n + unat (t + 1) = 32" using Suc.prems(11) by simp
  qed
  have probe: "probe_loop (passive_fs ctx) d h b t k = Some (h, b, t, k)"
    using Suc.prems(1,2) by (subst probe_loop.simps) simp
  have rd: "read_page True (sb_bytes (super_block ctx)) c ?off False k = Some (0, p, tick_io k)"
    using read_page_eq [of "sb_bytes (super_block ctx)" True k c ?off False] Suc.prems by (simp add: tick_alloc_def io_okD)
  define k1 where "k1 = (tick_io k)\<lparr>k_allocs := k_allocs k + 2\<rparr>"
  have k1: "io_ok k1" "alloc_ok k1" "digests_ok k1" "k_sha256 k1 = k_sha256 k" "k_dev k1 = k_dev k"
    using Suc.prems(7-9) by (simp_all add: k1_def tick_io_def io_ok_def alloc_ok_def digests_ok_def)
  have hash: "hash_sha256 (drop 32 p) (uninit 32 (tick_io k)) (tick_io k) = (0, k_sha256 k (drop 32 p), k1)"
    using hash_sha256_ok [of "tick_io k"] Suc.prems(8,9) by (simp add: digests_ok_def k1_def) (simp add: tick_io_def)
  have "\<exists>m ios. find_loop d h b (t + 1) 1 (ctx\<lparr>super_block := sb_of_bytes p\<rparr>) k1 =
      Some (Inr (1, b, (ctx\<lparr>super_block := sb_of_bytes p\<rparr>)\<lparr>super_block := sb_of_bytes p\<rparr>, k1\<lparr>k_ios := ios, k_allocs := m\<rparr>))"
    using Suc.prems k1 t(2) get_page_dev_cong [OF k1(5)] sb_ok_of_bytes [of p] by (intro Suc.IH) simp_all
  then show ?case
    using probe rd hash t(1) Suc.prems(3,5)
    by (subst find_loop.simps) (auto simp: SHA256_SZ_def k1_def tick_io_def)
qed

text \<open>The replicas of the super block are never used: when the page at the first location fails its
  digest check, \<open>find_super_block\<close> reads that same page 32 times and gives up with \<open>-ENOENT\<close>,
  whatever the other seven replicas hold.\<close>

theorem find_super_block_ignores_replicas:
  assumes "ucast (bdev_size (config ctx) div 8) = (d :: u32)" "d \<noteq> 0"
    and "b = digest_block (k_sha1 k (take 64 (passphrase (args ctx)))) d"
    and "binary_search (block_list (passive_fs ctx)) b (list_len (passive_fs ctx)) = Some i" "i \<noteq> - 1"
    and "block_list_at (passive_fs ctx) b = Some c" "get_page (data_start_off (passive_fs ctx)) k c = p"
    and "take 32 p \<noteq> k_sha256 k (drop 32 p)"
    and "io_ok k" "alloc_ok k" "digests_ok k" "sb_ok (super_block ctx)"
  shows "\<exists>ctx' k'. find_super_block ctx k = Some (- ENOENT, ctx', k') \<and> super_block ctx' = sb_of_bytes p \<and> afs_map ctx' = afs_map ctx"
proof -
  define ka where "ka = k\<lparr>k_allocs := k_allocs k + 2\<rparr>"
  have ka: "io_ok ka" "alloc_ok ka" "digests_ok ka" "k_sha256 ka = k_sha256 k" "k_dev ka = k_dev k"
    using assms(9-11) by (simp_all add: ka_def io_ok_def digests_ok_def)
  have hash: "hash_sha1 (take 64 (passphrase (args ctx))) (uninit 20 k) k =
      (0, k_sha1 k (take 64 (passphrase (args ctx))), ka)"
    using hash_sha1_ok [OF assms(10)] assms(11) by (simp add: ka_def digests_ok_def)
  have "length p = 4096" using assms(7) by auto
  then obtain m ios where "find_loop d (k_sha1 k (take 64 (passphrase (args ctx)))) b 0 0 ctx ka =
      Some (Inr (1, b, ctx\<lparr>super_block := sb_of_bytes p\<rparr>, ka\<lparr>k_ios := ios, k_allocs := m\<rparr>))"
    using find_loop_stuck [of ctx b i c p ka 32 0 0 d "k_sha1 k (take 64 (passphrase (args ctx)))"] assms(4-8,12) ka get_page_dev_cong [OF ka(5)] by auto
  then show ?thesis
    using assms(1-3) hash by (simp add: find_super_block_def PASSPHRASE_SZ_def SHA1_SZ_def Let_def)
qed

theorem find_super_block_ignores_replicas_witness:
  "\<exists>ctx' k'. find_super_block mount_ctx (demo_kernel\<lparr>k_dev := \<lambda>_. 1\<rparr>) = Some (- ENOENT, ctx', k') \<and>
    super_block ctx' = sb_of_bytes (replicate 4096 1) \<and> afs_map ctx' = afs_map mount_ctx"
proof (rule find_super_block_ignores_replicas [where i = 0 and d = "0x40000" and b = 0 and c = 0])
  show "binary_search (block_list (passive_fs mount_ctx)) 0 (list_len (passive_fs mount_ctx)) = Some 0"
  proof -
    have "binary_search [0, 9, 12, 20, 21, 22, 23, 24] 0 8 = Some 0" by code_simp
    then show ?thesis by (simp add: mount_fs_def)
  qed
  show "get_page (data_start_off (passive_fs mount_ctx)) (demo_kernel\<lparr>k_dev := \<lambda>_. 1\<rparr>) 0 = replicate 4096 1"
    by (simp add: get_page_def dev_read_def map_replicate_const)
  have sha: "k_sha1 demo_kernel = (\<lambda>_. replicate 20 0)" "k_sha256 demo_kernel = (\<lambda>_. replicate 32 0)" by (simp_all add: demo_kernel_def)
  show "0 = digest_block (k_sha1 (demo_kernel\<lparr>k_dev := \<lambda>_. 1\<rparr>) (take 64 (passphrase (args mount_ctx)))) 0x40000"
    by (simp add: sha demo_digest)
  have "replicate 32 (1 :: u8) \<noteq> replicate 32 0" by (simp add: replicate_eq_replicate)
  then show "take 32 (replicate 4096 1) \<noteq> k_sha256 (demo_kernel\<lparr>k_dev := \<lambda>_. 1\<rparr>) (drop 32 (replicate 4096 1))"
    by (simp add: sha)
qed (use demo_kernel_ok in \<open>simp_all add: demo_geom_def mount_fs_def block_list_at_def io_ok_def alloc_ok_def digests_ok_def\<close>)

text \<open>C26: The location is used as an index although it was looked up as a value: when the block number
  that the passphrase hashes to is in the free list but is not smaller than its length,
  \<open>find_super_block\<close> reads outside the array.\<close>

theorem find_super_block_index_fault:
  assumes "ucast (bdev_size (config ctx) div 8) = (d :: u32)"
    and "b = digest_block (k_sha1 k (take 64 (passphrase (args ctx)))) d"
    and "binary_search (block_list (passive_fs ctx)) b (list_len (passive_fs ctx)) = Some i" "i \<noteq> - 1"
    and "length (block_list (passive_fs ctx)) \<le> unat b" "alloc_ok k" "digests_ok k"
  shows "find_super_block ctx k = None"
proof -
  have hash: "hash_sha1 (take 64 (passphrase (args ctx))) (uninit 20 k) k =
      (0, k_sha1 k (take 64 (passphrase (args ctx))), k\<lparr>k_allocs := k_allocs k + 2\<rparr>)"
    using hash_sha1_ok [OF assms(6)] assms(7) by (simp add: digests_ok_def)
  have "probe_loop (passive_fs ctx) d h b 0 k1 = Some (h, b, 0, k1)" for h k1
    using assms(3,4) by (subst probe_loop.simps) simp
  moreover have "block_list_at (passive_fs ctx) b = None" using assms(5) by (simp add: block_list_at_def)
  ultimately have "find_loop d h b 0 0 ctx k1 = None" for h k1
    by (subst find_loop.simps) simp
  then show ?thesis
    using assms(1,2) hash by (simp add: find_super_block_def PASSPHRASE_SZ_def SHA1_SZ_def Let_def)
qed

theorem find_super_block_index_fault_witness:
  "find_super_block (mount_ctx\<lparr>passive_fs := mount_fs\<lparr>block_list := [9, 0x10000, 0x20000], list_len := 3\<rparr>\<rparr>)
     (demo_kernel\<lparr>k_sha1 := \<lambda>_. replicate 2 0 @ 1 # replicate 17 0\<rparr>) = None"
proof (rule find_super_block_index_fault [where i = 1 and b = "0x10000" and d = "0x40000"])
  have "binary_search [9, 0x10000, 0x20000] 0x10000 3 = Some 1" by code_simp
  then show "binary_search (block_list (passive_fs (mount_ctx\<lparr>passive_fs := mount_fs\<lparr>block_list := [9, 0x10000, 0x20000], list_len := 3\<rparr>\<rparr>))) 0x10000
      (list_len (passive_fs (mount_ctx\<lparr>passive_fs := mount_fs\<lparr>block_list := [9, 0x10000, 0x20000], list_len := 3\<rparr>\<rparr>))) = Some 1"
    by (simp add: mount_fs_def)
  have "digest_block (replicate 2 0 @ 1 # replicate 17 0) 0x40000 = 0x10000" by code_simp
  then show "0x10000 = digest_block (k_sha1 (demo_kernel\<lparr>k_sha1 := \<lambda>_. replicate 2 0 @ 1 # replicate 17 0\<rparr>)
      (take 64 (passphrase (args (mount_ctx\<lparr>passive_fs := mount_fs\<lparr>block_list := [9, 0x10000, 0x20000], list_len := 3\<rparr>\<rparr>))))) 0x40000" by simp
qed (use demo_kernel_ok in \<open>simp_all add: demo_geom_def mount_fs_def alloc_ok_def digests_ok_def\<close>)

text \<open>\<open>rebuild_ptr_blocks\<close> does not follow the chain: pointer block \<open>i\<close> is read from the block that
  entry \<open>i\<close> of the freshly allocated array names as its successor, not from the successor of the
  pointer block just read.\<close>

theorem rebuild_ptr_blocks_uninitialised:
  assumes "io_ok k" "length (afs_ptr_blocks ctx) = unat (num_ptr_blocks (config ctx))"
    and "\<forall>p \<in> set (afs_ptr_blocks ctx). pb_ok p"
  shows "\<exists>k'. rebuild_ptr_blocks ctx k = Some (0, ctx\<lparr>afs_ptr_blocks :=
    map (\<lambda>i. pb_of_bytes (get_page (data_start_off (passive_fs ctx)) k
      (if i = 0 then sb_first_ptr_block (super_block ctx) else pb_next_ptr_block (afs_ptr_blocks ctx ! i))))
      [0..<length (afs_ptr_blocks ctx)]\<rparr>, k')"
proof -
  define f where "f i = pb_of_bytes (get_page (data_start_off (passive_fs ctx)) k
      (if i = 0 then sb_first_ptr_block (super_block ctx) else pb_next_ptr_block (afs_ptr_blocks ctx ! i)))" for i
  have "\<exists>ios. rebuild_ptr_loop n i (ctx\<lparr>afs_ptr_blocks := map f [0..<i] @ drop i (afs_ptr_blocks ctx)\<rparr>) (k\<lparr>k_ios := s\<rparr>) =
      Some (0, ctx\<lparr>afs_ptr_blocks := map f [0..<length (afs_ptr_blocks ctx)]\<rparr>, k\<lparr>k_ios := ios\<rparr>)"
    if "i + n = length (afs_ptr_blocks ctx)" for n i s
    using that
  proof (induction n arbitrary: i s)
    case (Suc n)
    let ?pbs = "map f [0..<i] @ drop i (afs_ptr_blocks ctx)" and ?off = "data_start_off (passive_fs ctx)"
    have at: "?pbs ! i = afs_ptr_blocks ctx ! i" using Suc.prems by (simp add: nth_append)
    have "pb_ok (afs_ptr_blocks ctx ! i)" using assms(3) Suc.prems by simp
    then have rd: "read_page True (pb_bytes (afs_ptr_blocks ctx ! i)) b ?off False (k\<lparr>k_ios := s\<rparr>) =
        Some (0, get_page ?off k b, k\<lparr>k_ios := Suc s\<rparr>)" for b
      using read_page_eq [of "pb_bytes (afs_ptr_blocks ctx ! i)" True "k\<lparr>k_ios := s\<rparr>" b ?off False] assms(1)
        get_page_dev_cong [of "k\<lparr>k_ios := s\<rparr>" k] by (simp add: tick_alloc_def tick_io_def io_ok_def)
    have "?pbs[i := f i] = map f [0..<Suc i] @ drop (Suc i) (afs_ptr_blocks ctx)"
      using Suc.prems by (simp add: list_update_append Cons_nth_drop_Suc [symmetric])
    moreover have "rebuild_ptr_loop (Suc n) i (ctx\<lparr>afs_ptr_blocks := ?pbs\<rparr>) (k\<lparr>k_ios := s\<rparr>) =
        rebuild_ptr_loop n (Suc i) (ctx\<lparr>afs_ptr_blocks := ?pbs[i := f i]\<rparr>) (k\<lparr>k_ios := Suc s\<rparr>)"
      using at rd unfolding f_def by (cases "i = 0") (simp_all add: Let_def)
    ultimately show ?case using Suc.IH [of "Suc i" "Suc s"] Suc.prems by (simp del: upt_Suc rebuild_ptr_loop.simps)
  qed auto
  from this [of 0 "length (afs_ptr_blocks ctx)" "k_ios k"] show ?thesis
    using assms(2) by (auto simp: rebuild_ptr_blocks_def f_def)
qed

theorem rebuild_ptr_blocks_uninitialised_witness:
  "\<exists>k'. rebuild_ptr_blocks (mount_ctx\<lparr>config := demo_geom 61426 976 1, afs_ptr_blocks := [zero_ptr_block]\<rparr>) demo_kernel =
    Some (0, mount_ctx\<lparr>config := demo_geom 61426 976 1, afs_ptr_blocks :=
      [pb_of_bytes (get_page 0 demo_kernel (sb_first_ptr_block (super_block mount_ctx)))]\<rparr>, k')"
  using rebuild_ptr_blocks_uninitialised [of demo_kernel "mount_ctx\<lparr>config := demo_geom 61426 976 1, afs_ptr_blocks := [zero_ptr_block]\<rparr>"]
    demo_kernel_ok(1) by (simp add: demo_geom_def zero_ptr_block_def pb_ok_def mount_fs_def)

end
