(* ===== verification/Afs_Engine_Queue.thy ===== *)
theory Afs_Engine_Queue
  imports Afs_Gfshare Afs_Map "HOL-Library.Tree"
begin

text \<open>
  The requests and the queues of \<open>src/include/dm_afs_engine.h\<close>, and the queue operations of
  \<open>src/src/dm_afs_engine.c\<close>. A queue is a search tree of requests ordered by block number. The
  kernel's red-black tree library is outside the repository: \<open>rb_insert_color\<close>, which rebalances the
  tree after a node was linked in, and \<open>rb_erase\<close> are parameters, of which \<open>rb_library\<close> states that
  they keep the order of the other nodes. Requests of the block layer are modelled as far as the
  driver looks at them.
\<close>

section \<open>Requests\<close>

definition NUM_MAX_CARRIER_BLKS :: nat where "NUM_MAX_CARRIER_BLKS = 8"
definition SHAMIR :: u8 where "SHAMIR = 1"
definition AONT_RS :: u8 where "AONT_RS = 2"

definition REQ_STATE_GROUND :: int where "REQ_STATE_GROUND = 1"
definition REQ_STATE_FLIGHT :: int where "REQ_STATE_FLIGHT = 2"
definition REQ_STATE_COMPLETED :: int where "REQ_STATE_COMPLETED = 4"

lemmas req_states = REQ_STATE_GROUND_def REQ_STATE_FLIGHT_def REQ_STATE_COMPLETED_def

text \<open>A bio: its operation, first sector, size in bytes and segments. Each segment has its own copy
  of its page; only the bytes from \<open>bv_offset\<close> on, \<open>bv_len\<close> of them, belong to the bio.\<close>

datatype req_op = REQ_OP_READ | REQ_OP_WRITE | REQ_OP_FLUSH | REQ_OP_OTHER

record bio_vec =
  bv_page :: bytes
  bv_len :: u32
  bv_offset :: u32

record bio =
  bio_op :: req_op
  bi_sector :: u64
  bi_size :: u32
  bi_io_vec :: "bio_vec list"

text \<open>A pointer to a bio may be null, or uninitialised memory that points nowhere.\<close>

datatype bio_ptr = NullBio | Bio bio | WildBio

text \<open>A request. The pointers into the instance (map, configuration, free list, allocation vector) are
  the instance record, which every operation gets as an argument; a map entry is its offset in the
  map. A carrier block that \<open>__get_free_page\<close> did not give is \<open>None\<close>.\<close>

record afs_map_request =
  carrier_blocks :: "bytes option list"
  data_block :: bytes
  req_state :: int
  req_bio :: bio_ptr
  bios_pending :: nat
  map_entry :: nat
  allocated_write_page :: "bytes option"
  encoder :: "gfshare_ctx option"
  req_encoding_type :: u8
  req_erasures :: bytes
  num_erasures :: u8
  req_iv :: bytes
  req_block :: u32
  request_size :: u32
  req_sector_offset :: u32
  block_nums :: "u32 list"
  rebuild_flag :: nat

section \<open>Queues\<close>

type_synonym afs_engine_queue = "afs_map_request tree"

definition afs_eq_init :: afs_engine_queue where
  "afs_eq_init = Leaf"

text \<open>The descent of \<open>afs_eq_add\<close>. When the queue holds a request for the same block, neither link is
  followed and the loop comes back to the same node.\<close>

partial_function (option) eq_link :: "afs_map_request \<Rightarrow> afs_engine_queue \<Rightarrow> afs_engine_queue option" where
  "eq_link element t =
     (case t of
        Leaf \<Rightarrow> Some (Node Leaf element Leaf)
      | Node l this r \<Rightarrow>
          if req_block element < req_block this then do { l \<leftarrow> eq_link element l; Some (Node l this r) }
          else if req_block element > req_block this then do { r \<leftarrow> eq_link element r; Some (Node l this r) }
          else eq_link element (Node l this r))"

declare eq_link.simps [code]

definition afs_eq_add ::
  "(afs_engine_queue \<Rightarrow> afs_engine_queue) \<Rightarrow> afs_engine_queue \<Rightarrow> afs_map_request \<Rightarrow> afs_engine_queue option" where
  "afs_eq_add rb_insert_color eq element = map_option rb_insert_color (eq_link element eq)"

definition afs_eq_empty_unsafe :: "afs_engine_queue \<Rightarrow> bool" where
  "afs_eq_empty_unsafe eq = (if eq = Leaf then True else False)"

definition afs_eq_empty :: "afs_engine_queue \<Rightarrow> bool" where
  "afs_eq_empty eq = afs_eq_empty_unsafe eq"

definition afs_eq_remove ::
  "(afs_map_request \<Rightarrow> afs_engine_queue \<Rightarrow> afs_engine_queue) \<Rightarrow> afs_engine_queue \<Rightarrow> afs_map_request \<Rightarrow> afs_engine_queue" where
  "afs_eq_remove rb_erase eq req = (if \<not> afs_eq_empty_unsafe eq then rb_erase req eq else eq)"

definition bio_block :: "bio \<Rightarrow> u32" where
  "bio_block b = ucast ((bi_sector b * 512) div 4096)"

fun eq_find :: "u32 \<Rightarrow> afs_engine_queue \<Rightarrow> afs_map_request option" where
  "eq_find block_num Leaf = None"
| "eq_find block_num (Node l this r) =
     (if block_num < req_block this then eq_find block_num l
      else if block_num > req_block this then eq_find block_num r
      else Some this)"

definition afs_eq_req_exist :: "afs_engine_queue \<Rightarrow> bio \<Rightarrow> afs_map_request option" where
  "afs_eq_req_exist eq b = eq_find (bio_block b) eq"

section \<open>A queue is a finite map from block numbers to requests\<close>

text \<open>What is documented of the kernel's library: linking and rebalancing keep the nodes in order, and
  erasing a node of the tree takes out that node.\<close>

definition rb_library ::
  "(afs_engine_queue \<Rightarrow> afs_engine_queue) \<Rightarrow> (afs_map_request \<Rightarrow> afs_engine_queue \<Rightarrow> afs_engine_queue) \<Rightarrow> bool" where
  "rb_library rb_insert_color rb_erase \<longleftrightarrow>
     (\<forall>t. inorder (rb_insert_color t) = inorder t) \<and>
     (\<forall>t r. distinct (inorder t) \<longrightarrow> r \<in> set (inorder t) \<longrightarrow> inorder (rb_erase r t) = remove1 r (inorder t))"

definition eq_keys :: "afs_engine_queue \<Rightarrow> u32 list" where
  "eq_keys t = map req_block (inorder t)"

definition eq_ok :: "afs_engine_queue \<Rightarrow> bool" where
  "eq_ok t \<longleftrightarrow> sorted_wrt (<) (eq_keys t)"

definition eq_map :: "afs_engine_queue \<Rightarrow> u32 \<Rightarrow> afs_map_request option" where
  "eq_map t = map_of (map (\<lambda>r. (req_block r, r)) (inorder t))"

lemma eq_ok_Node:
  "eq_ok (Node l x r) \<longleftrightarrow> eq_ok l \<and> eq_ok r \<and> (\<forall>y \<in> set (inorder l). req_block y < req_block x) \<and>
     (\<forall>y \<in> set (inorder r). req_block x < req_block y)"
  by (auto simp: eq_ok_def eq_keys_def sorted_wrt_append dest: less_trans)

lemma eq_ok_Leaf [simp]: "eq_ok Leaf"
  by (simp add: eq_ok_def eq_keys_def)

lemma eq_ok_distinct: "eq_ok t \<Longrightarrow> distinct (eq_keys t)"
  by (simp add: eq_ok_def strict_sorted_iff)

lemma eq_map_iff:
  assumes "eq_ok t"
  shows "eq_map t b = Some r \<longleftrightarrow> r \<in> set (inorder t) \<and> req_block r = b"
proof -
  have "distinct (map fst (map (\<lambda>r. (req_block r, r)) (inorder t)))"
    using eq_ok_distinct [OF assms] by (simp add: eq_keys_def o_def)
  then show ?thesis by (auto simp: eq_map_def)
qed

lemma eq_find_iff: "eq_ok t \<Longrightarrow> eq_find b t = Some r \<longleftrightarrow> r \<in> set (inorder t) \<and> req_block r = b"
  by (induction t) (auto simp: eq_ok_Node)

lemma option_eqI: "(\<And>r. a = Some r \<longleftrightarrow> b = Some r) \<Longrightarrow> a = b"
  by (cases a; cases b) auto

lemma eq_find_map: "eq_ok t \<Longrightarrow> eq_find b t = eq_map t b"
  by (rule option_eqI) (simp add: eq_find_iff eq_map_iff)

lemma eq_map_None_iff: "eq_ok t \<Longrightarrow> eq_map t b = None \<longleftrightarrow> (\<forall>r \<in> set (inorder t). req_block r \<noteq> b)"
  using eq_map_iff [of t b] by (cases "eq_map t b") auto

text \<open>At a node with the same block number the descent does not come to an end.\<close>

lemma eq_link_same_block:
  assumes "eq_link e t = Some t'"
  shows "\<forall>l x r. t = Node l x r \<longrightarrow> req_block x \<noteq> req_block e"
  by (rule eq_link.raw_induct [where P = "\<lambda>e t t'. \<forall>l x r. t = Node l x r \<longrightarrow> req_block x \<noteq> req_block e", OF _ assms])
    (auto split: tree.splits if_splits; metis)

lemma eq_link_none:
  assumes "eq_ok t" and "x \<in> set (inorder t)" and "req_block x = req_block e"
  shows "eq_link e t = None"
  using assms
proof (induction t)
  case (Node l y r)
  consider "y = x" | "x \<in> set (inorder l)" | "x \<in> set (inorder r)" using Node.prems(2) by auto
  then show ?case
  proof cases
    case 1
    then show ?thesis using eq_link_same_block [of e "Node l y r"] Node.prems(3) by (cases "eq_link e (Node l y r)") auto
  next
    case 2
    then have "req_block e < req_block y" "eq_link e l = None" using Node by (auto simp: eq_ok_Node)
    then show ?thesis by (subst eq_link.simps) simp
  next
    case 3
    then have "req_block y < req_block e" "eq_link e r = None" using Node by (auto simp: eq_ok_Node)
    then show ?thesis by (subst eq_link.simps) (simp add: less_not_sym)
  qed
qed simp

lemma eq_link_some:
  assumes "eq_ok t" and "\<forall>x \<in> set (inorder t). req_block x \<noteq> req_block e"
  shows "\<exists>t'. eq_link e t = Some t' \<and> eq_ok t' \<and> set (inorder t') = insert e (set (inorder t))"
  using assms
proof (induction t)
  case Leaf
  show ?case by (subst eq_link.simps) (simp add: eq_ok_Node)
next
  case (Node l y r)
  then consider "req_block e < req_block y" | "req_block y < req_block e" by fastforce
  then show ?case
  proof cases
    case 1
    moreover obtain l' where "eq_link e l = Some l'" "eq_ok l'" "set (inorder l') = insert e (set (inorder l))"
      using Node by (auto simp: eq_ok_Node)
    ultimately show ?thesis using Node.prems(1) by (subst eq_link.simps) (auto simp: eq_ok_Node)
  next
    case 2
    moreover obtain r' where "eq_link e r = Some r'" "eq_ok r'" "set (inorder r') = insert e (set (inorder r))"
      using Node by (auto simp: eq_ok_Node)
    ultimately show ?thesis using Node.prems(1) by (subst eq_link.simps) (auto simp: eq_ok_Node less_not_sym)
  qed
qed

lemma eq_ok_cong: "inorder t = inorder t' \<Longrightarrow> eq_ok t = eq_ok t'"
  by (simp add: eq_ok_def eq_keys_def)

lemma afs_eq_add_some:
  assumes "rb_library ins era" "eq_ok eq" "eq_map eq (req_block e) = None"
  shows "\<exists>eq'. afs_eq_add ins eq e = Some eq' \<and> eq_ok eq' \<and> eq_map eq' = (eq_map eq)(req_block e \<mapsto> e)"
proof -
  have free: "\<forall>x \<in> set (inorder eq). req_block x \<noteq> req_block e" using assms(2,3) eq_map_None_iff by blast
  obtain t where t: "eq_link e eq = Some t" "eq_ok t" "set (inorder t) = insert e (set (inorder eq))"
    using eq_link_some [OF assms(2) free] by blast
  have ins: "inorder (ins t) = inorder t" using assms(1) by (simp add: rb_library_def)
  then have ok: "eq_ok (ins t)" using t(2) eq_ok_cong by blast
  have "eq_map (ins t) = (eq_map eq)(req_block e \<mapsto> e)"
  proof (rule ext, rule option_eqI)
    fix b r
    have "eq_map (ins t) b = Some r \<longleftrightarrow> (r = e \<or> r \<in> set (inorder eq)) \<and> req_block r = b"
      using eq_map_iff [OF ok] ins t(3) by auto
    also have "\<dots> \<longleftrightarrow> ((eq_map eq)(req_block e \<mapsto> e)) b = Some r"
      using eq_map_iff [OF assms(2)] free by auto
    finally show "eq_map (ins t) b = Some r \<longleftrightarrow> ((eq_map eq)(req_block e \<mapsto> e)) b = Some r" .
  qed
  then show ?thesis using t(1) ok by (auto simp: afs_eq_add_def)
qed

lemma afs_eq_add_none:
  assumes "eq_ok eq" "eq_map eq (req_block e) \<noteq> None"
  shows "afs_eq_add ins eq e = None"
  using assms eq_link_none [OF assms(1)] by (auto simp: afs_eq_add_def eq_map_iff)

lemma afs_eq_remove_map:
  assumes "rb_library ins era" "eq_ok eq" "eq_map eq (req_block r) = Some r"
  shows "eq_ok (afs_eq_remove era eq r) \<and> eq_map (afs_eq_remove era eq r) = (eq_map eq)(req_block r := None)"
proof -
  have r: "r \<in> set (inorder eq)" using assms(2,3) eq_map_iff by blast
  have dist: "distinct (inorder eq)" using eq_ok_distinct [OF assms(2)] by (simp add: eq_keys_def distinct_map)
  have rem: "afs_eq_remove era eq r = era r eq" using r by (auto simp: afs_eq_remove_def afs_eq_empty_unsafe_def)
  have era: "inorder (era r eq) = remove1 r (inorder eq)" using assms(1) r dist by (simp add: rb_library_def)
  obtain xs ys where xy: "inorder eq = xs @ r # ys" using r by (meson split_list)
  then have "remove1 r (inorder eq) = xs @ ys" using dist by (simp add: remove1_append)
  then have keys: "inorder (era r eq) = xs @ ys" using era by simp
  then have ok: "eq_ok (era r eq)" using assms(2) xy by (simp add: eq_ok_def eq_keys_def sorted_wrt_append)
  have "eq_map (era r eq) = (eq_map eq)(req_block r := None)"
  proof (rule ext, rule option_eqI)
    fix b q
    have "req_block q \<noteq> req_block r" if "q \<in> set xs \<union> set ys" for q
      using eq_ok_distinct [OF assms(2)] xy that by (auto simp: eq_keys_def image_iff)
    then show "eq_map (era r eq) b = Some q \<longleftrightarrow> ((eq_map eq)(req_block r := None)) b = Some q"
      using eq_map_iff [OF ok] eq_map_iff [OF assms(2)] keys xy by auto
  qed
  then show ?thesis using ok rem by simp
qed

lemma afs_eq_empty_map: "eq_ok eq \<Longrightarrow> afs_eq_empty eq \<longleftrightarrow> eq_map eq = Map.empty"
proof
  assume "eq_ok eq" "eq_map eq = Map.empty"
  then show "afs_eq_empty eq"
    by (cases eq) (auto simp: afs_eq_empty_def afs_eq_empty_unsafe_def eq_map_def)
qed (auto simp: afs_eq_empty_def afs_eq_empty_unsafe_def eq_map_def split: if_splits)

section \<open>Properties\<close>

text \<open>C29: The engine queue implements a finite map from block numbers to requests: the tree stays
  ordered, adding a request whose block is not queued returns and binds its block, removing a queued
  request unbinds it, a lookup by bio returns the request bound to the block of its first sector, and
  the queue is empty exactly when the map is. For every rebalancing that keeps the order of nodes.\<close>

theorem eq_refines_map:
  assumes "rb_library ins era" and "eq_ok eq"
  shows "afs_eq_req_exist eq b = eq_map eq (bio_block b) \<and>
    (afs_eq_empty eq \<longleftrightarrow> eq_map eq = Map.empty) \<and> eq_ok afs_eq_init \<and> eq_map afs_eq_init = Map.empty \<and>
    (eq_map eq (req_block e) = None \<longrightarrow>
      (\<exists>eq'. afs_eq_add ins eq e = Some eq' \<and> eq_ok eq' \<and> eq_map eq' = (eq_map eq)(req_block e \<mapsto> e))) \<and>
    (eq_map eq (req_block r) = Some r \<longrightarrow>
      eq_ok (afs_eq_remove era eq r) \<and> eq_map (afs_eq_remove era eq r) = (eq_map eq)(req_block r := None))"
  using afs_eq_add_some [OF assms] afs_eq_remove_map [OF assms] afs_eq_empty_map [OF assms(2)] eq_find_map [OF assms(2)]
  by (simp add: afs_eq_req_exist_def afs_eq_init_def eq_map_def)

text \<open>A library of the simplest kind: no rebalancing, and erasing rebuilds the tree as a right spine.\<close>

definition spine :: "'a list \<Rightarrow> 'a tree" where
  "spine xs = foldr (\<lambda>x t. Node Leaf x t) xs Leaf"

definition spine_erase :: "afs_map_request \<Rightarrow> afs_engine_queue \<Rightarrow> afs_engine_queue" where
  "spine_erase r t = spine (remove1 r (inorder t))"

lemma inorder_spine: "inorder (spine xs) = xs"
  by (induction xs) (simp_all add: spine_def)

lemma rb_library_spine: "rb_library id spine_erase"
  by (simp add: rb_library_def spine_erase_def inorder_spine)

definition demo_request :: "u32 \<Rightarrow> afs_map_request" where
  "demo_request b = \<lparr>carrier_blocks = [], data_block = [], req_state = REQ_STATE_GROUND, req_bio = NullBio,
     bios_pending = 0, map_entry = 0, allocated_write_page = None, encoder = None, req_encoding_type = AONT_RS,
     req_erasures = [], num_erasures = 0, req_iv = [], req_block = b, request_size = 4096, req_sector_offset = 0,
     block_nums = [], rebuild_flag = 0\<rparr>"

definition demo_queue :: afs_engine_queue where
  "demo_queue = Node Leaf (demo_request 5) Leaf"

lemma demo_queue_ok: "eq_ok demo_queue" "eq_map demo_queue 5 = Some (demo_request 5)" "eq_map demo_queue 3 = None"
  by (simp_all add: demo_queue_def eq_ok_Node eq_map_def demo_request_def)

theorem eq_refines_map_witness:
  "(\<exists>eq'. afs_eq_add id demo_queue (demo_request 3) = Some eq' \<and> eq_ok eq' \<and>
      eq_map eq' = (eq_map demo_queue)(3 \<mapsto> demo_request 3)) \<and>
   eq_map (afs_eq_remove spine_erase demo_queue (demo_request 5)) = (eq_map demo_queue)(5 := None)"
proof -
  have b: "req_block (demo_request x) = x" for x by (simp add: demo_request_def)
  show ?thesis
    using eq_refines_map [OF rb_library_spine demo_queue_ok(1), where e = "demo_request 3" and r = "demo_request 5"]
    by (simp add: b demo_queue_ok)
qed

text \<open>Adding a request to a queue returns exactly when no request for the same block is queued;
  otherwise the search loops at that node for ever, with the lock of the queue held.\<close>

theorem eq_add_stuck:
  assumes "rb_library ins era" and "eq_ok eq"
  shows "afs_eq_add ins eq e = None \<longleftrightarrow> (\<exists>x \<in> set (inorder eq). req_block x = req_block e)"
  using afs_eq_add_some [OF assms] afs_eq_add_none [OF assms(2)] eq_map_None_iff [OF assms(2)] by fastforce

theorem eq_add_stuck_witness:
  "afs_eq_add id demo_queue (demo_request 5) = None \<and> afs_eq_add id demo_queue (demo_request 3) \<noteq> None"
  using eq_add_stuck [OF rb_library_spine demo_queue_ok(1)] by (auto simp: demo_queue_def demo_request_def)

end
