(* ===== verification/Afs_City.thy ===== *)
theory Afs_City
  imports Afs_Prelude "HOL-Library.Monad_Syntax"
begin

text \<open>
  CityHash, \<open>src/src/lib/city.c\<close> and \<open>src/include/lib/city.h\<close>: the 32-bit hash behind the
  checksums of carrier blocks, and the 64- and 128-bit hashes. A pointer into a buffer is an integer
  position; a load that leaves the buffer on either side is a fault, the value \<open>None\<close>. Lengths are
  natural numbers; where the code mixes them into a hash they are reduced to the width of the word.
  The build does not define \<open>__SSE4_2__\<close>, so the variants that use the CRC instruction are not compiled.
\<close>

section \<open>Loads and mixing\<close>

definition UNALIGNED_LOAD64 :: "bytes \<Rightarrow> int \<Rightarrow> u64 option" where
  "UNALIGNED_LOAD64 s p = (if 0 \<le> p \<and> nat p + 8 \<le> length s then Some (le_word (sub s (nat p) 8)) else None)"

definition UNALIGNED_LOAD32 :: "bytes \<Rightarrow> int \<Rightarrow> u32 option" where
  "UNALIGNED_LOAD32 s p = (if 0 \<le> p \<and> nat p + 4 \<le> length s then Some (le_word (sub s (nat p) 4)) else None)"

definition load_byte :: "bytes \<Rightarrow> int \<Rightarrow> u8 option" where
  "load_byte s p = (if 0 \<le> p \<and> nat p < length s then Some (s ! nat p) else None)"

definition bswap_32 :: "u32 \<Rightarrow> u32" where
  "bswap_32 x = le_word (rev (le_bytes 4 x))"

definition bswap_64 :: "u64 \<Rightarrow> u64" where
  "bswap_64 x = le_word (rev (le_bytes 8 x))"

type_synonym uint128 = "u64 \<times> u64"

definition Hash128to64 :: "uint128 \<Rightarrow> u64" where
  "Hash128to64 x =
     (let kMul = 0x9ddfea08eb382d69;
          a = (fst x XOR snd x) * kMul;
          a = a XOR drop_bit 47 a;
          b = (snd x XOR a) * kMul;
          b = b XOR drop_bit 47 b
      in b * kMul)"

definition Fetch64 :: "bytes \<Rightarrow> int \<Rightarrow> u64 option" where
  "Fetch64 s p = UNALIGNED_LOAD64 s p"

definition Fetch32 :: "bytes \<Rightarrow> int \<Rightarrow> u32 option" where
  "Fetch32 s p = UNALIGNED_LOAD32 s p"

definition city_k0 :: u64 where "city_k0 = 0xc3a5c85c97cb3127"
definition city_k1 :: u64 where "city_k1 = 0xb492b66fbe98f273"
definition city_k2 :: u64 where "city_k2 = 0x9ae16a3b2f90404f"
definition city_c1 :: u32 where "city_c1 = 0xcc9e2d51"
definition city_c2 :: u32 where "city_c2 = 0x1b873593"

definition fmix :: "u32 \<Rightarrow> u32" where
  "fmix h =
     (let h = h XOR drop_bit 16 h;
          h = h * 0x85ebca6b;
          h = h XOR drop_bit 13 h;
          h = h * 0xc2b2ae35
      in h XOR drop_bit 16 h)"

definition Rotate32 :: "u32 \<Rightarrow> nat \<Rightarrow> u32" where
  "Rotate32 val shift = (if shift = 0 then val else drop_bit shift val OR push_bit (32 - shift) val)"

definition Mur :: "u32 \<Rightarrow> u32 \<Rightarrow> u32" where
  "Mur a h =
     (let a = a * city_c1;
          a = Rotate32 a 17;
          a = a * city_c2;
          h = h XOR a;
          h = Rotate32 h 19
      in h * 5 + 0xe6546b64)"

section \<open>The 32-bit hash\<close>

definition Hash32Len13to24 :: "bytes \<Rightarrow> int \<Rightarrow> nat \<Rightarrow> u32 option" where
  "Hash32Len13to24 m s len = do {
     a \<leftarrow> Fetch32 m (s - 4 + int (len div 2));
     b \<leftarrow> Fetch32 m (s + 4);
     c \<leftarrow> Fetch32 m (s + int len - 8);
     d \<leftarrow> Fetch32 m (s + int (len div 2));
     e \<leftarrow> Fetch32 m s;
     f \<leftarrow> Fetch32 m (s + int len - 4);
     let h = of_nat len;
     Some (fmix (Mur f (Mur e (Mur d (Mur c (Mur b (Mur a h))))))) }"

text \<open>The bytes are \<open>signed char\<close>s and are sign extended.\<close>

fun len0to4_loop :: "nat \<Rightarrow> bytes \<Rightarrow> int \<Rightarrow> u32 \<Rightarrow> u32 \<Rightarrow> (u32 \<times> u32) option" where
  "len0to4_loop 0 m p b c = Some (b, c)"
| "len0to4_loop (Suc n) m p b c = do {
     v \<leftarrow> load_byte m p;
     let b = b * city_c1 + scast v;
     let c = c XOR b;
     len0to4_loop n m (p + 1) b c }"

definition Hash32Len0to4 :: "bytes \<Rightarrow> int \<Rightarrow> nat \<Rightarrow> u32 option" where
  "Hash32Len0to4 m s len = do {
     (b, c) \<leftarrow> len0to4_loop len m s 0 9;
     Some (fmix (Mur b (Mur (of_nat len) c))) }"

definition Hash32Len5to12 :: "bytes \<Rightarrow> int \<Rightarrow> nat \<Rightarrow> u32 option" where
  "Hash32Len5to12 m s len = do {
     let a = of_nat len; let b = of_nat len * 5; let c = 9; let d = b;
     x \<leftarrow> Fetch32 m s;
     let a = a + x;
     y \<leftarrow> Fetch32 m (s + int len - 4);
     let b = b + y;
     z \<leftarrow> Fetch32 m (s + int (and (len div 2) 4));
     let c = c + z;
     Some (fmix (Mur c (Mur b (Mur a d)))) }"

text \<open>One round of 20 bytes on the state \<open>(h, g, f)\<close>; \<open>PERMUTE3\<close> rotates the three words.\<close>

definition city32_round :: "bytes \<Rightarrow> int \<Rightarrow> u32 \<times> u32 \<times> u32 \<Rightarrow> (u32 \<times> u32 \<times> u32) option" where
  "city32_round m s = (\<lambda>(h, g, f). do {
     w0 \<leftarrow> Fetch32 m s;
     let a0 = Rotate32 (w0 * city_c1) 17 * city_c2;
     a1 \<leftarrow> Fetch32 m (s + 4);
     w2 \<leftarrow> Fetch32 m (s + 8);
     let a2 = Rotate32 (w2 * city_c1) 17 * city_c2;
     w3 \<leftarrow> Fetch32 m (s + 12);
     let a3 = Rotate32 (w3 * city_c1) 17 * city_c2;
     a4 \<leftarrow> Fetch32 m (s + 16);
     let h = h XOR a0;
     let h = Rotate32 h 18;
     let h = h * 5 + 0xe6546b64;
     let f = f + a1;
     let f = Rotate32 f 19;
     let f = f * city_c1;
     let g = g + a2;
     let g = Rotate32 g 18;
     let g = g * 5 + 0xe6546b64;
     let h = h XOR (a3 + a1);
     let h = Rotate32 h 19;
     let h = h * 5 + 0xe6546b64;
     let g = g XOR a4;
     let g = bswap_32 g * 5;
     let h = h + a4 * 5;
     let h = bswap_32 h;
     let f = f + a0;
     Some (f, h, g) })"

text \<open>The \<open>do\<close> loop runs its body \<open>iters\<close> times; the result of a round \<open>(f, h, g)\<close> in the
  order \<open>(h, g, f)\<close> is the permutation.\<close>

fun city32_loop :: "nat \<Rightarrow> bytes \<Rightarrow> int \<Rightarrow> u32 \<times> u32 \<times> u32 \<Rightarrow> (u32 \<times> u32 \<times> u32) option" where
  "city32_loop 0 m s st = Some st"
| "city32_loop (Suc n) m s st = do {
     st \<leftarrow> city32_round m s st;
     city32_loop n m (s + 20) st }"

definition CityHash32 :: "bytes \<Rightarrow> int \<Rightarrow> nat \<Rightarrow> u32 option" where
  "CityHash32 m s len =
     (if len \<le> 24 then
        (if len \<le> 12 then (if len \<le> 4 then Hash32Len0to4 m s len else Hash32Len5to12 m s len)
         else Hash32Len13to24 m s len)
      else do {
        let h = of_nat len; let g = city_c1 * of_nat len; let f = g;
        w0 \<leftarrow> Fetch32 m (s + int len - 4);
        let a0 = Rotate32 (w0 * city_c1) 17 * city_c2;
        w1 \<leftarrow> Fetch32 m (s + int len - 8);
        let a1 = Rotate32 (w1 * city_c1) 17 * city_c2;
        w2 \<leftarrow> Fetch32 m (s + int len - 16);
        let a2 = Rotate32 (w2 * city_c1) 17 * city_c2;
        w3 \<leftarrow> Fetch32 m (s + int len - 12);
        let a3 = Rotate32 (w3 * city_c1) 17 * city_c2;
        w4 \<leftarrow> Fetch32 m (s + int len - 20);
        let a4 = Rotate32 (w4 * city_c1) 17 * city_c2;
        let h = h XOR a0;
        let h = Rotate32 h 19;
        let h = h * 5 + 0xe6546b64;
        let h = h XOR a2;
        let h = Rotate32 h 19;
        let h = h * 5 + 0xe6546b64;
        let g = g XOR a1;
        let g = Rotate32 g 19;
        let g = g * 5 + 0xe6546b64;
        let g = g XOR a3;
        let g = Rotate32 g 19;
        let g = g * 5 + 0xe6546b64;
        let f = f + a4;
        let f = Rotate32 f 19;
        let f = f * 5 + 0xe6546b64;
        (h, g, f) \<leftarrow> city32_loop ((len - 1) div 20) m s (h, g, f);
        let g = Rotate32 g 11 * city_c1;
        let g = Rotate32 g 17 * city_c1;
        let f = Rotate32 f 11 * city_c1;
        let f = Rotate32 f 17 * city_c1;
        let h = Rotate32 (h + g) 19;
        let h = h * 5 + 0xe6546b64;
        let h = Rotate32 h 17 * city_c1;
        let h = Rotate32 (h + f) 19;
        let h = h * 5 + 0xe6546b64;
        let h = Rotate32 h 17 * city_c1;
        Some h })"

definition cityhash32_to_16 :: "bytes \<Rightarrow> nat \<Rightarrow> u16 option" where
  "cityhash32_to_16 m len = do {
     data \<leftarrow> CityHash32 m 0 len;
     Some (ucast ((data AND 0xffff) XOR (drop_bit 16 data AND 0xffff))) }"

section \<open>The 64-bit hash\<close>

definition Rotate :: "u64 \<Rightarrow> nat \<Rightarrow> u64" where
  "Rotate val shift = (if shift = 0 then val else drop_bit shift val OR push_bit (64 - shift) val)"

definition ShiftMix :: "u64 \<Rightarrow> u64" where
  "ShiftMix val = val XOR drop_bit 47 val"

definition HashLen16 :: "u64 \<Rightarrow> u64 \<Rightarrow> u64" where
  "HashLen16 u v = Hash128to64 (u, v)"

definition HashLen16Mul :: "u64 \<Rightarrow> u64 \<Rightarrow> u64 \<Rightarrow> u64" where
  "HashLen16Mul u v mul =
     (let a = (u XOR v) * mul;
          a = a XOR drop_bit 47 a;
          b = (v XOR a) * mul;
          b = b XOR drop_bit 47 b
      in b * mul)"

definition HashLen0to16 :: "bytes \<Rightarrow> int \<Rightarrow> nat \<Rightarrow> u64 option" where
  "HashLen0to16 m s len =
     (if 8 \<le> len then do {
        let mul = city_k2 + of_nat len * 2;
        w \<leftarrow> Fetch64 m s;
        let a = w + city_k2;
        b \<leftarrow> Fetch64 m (s + int len - 8);
        let c = Rotate b 37 * mul + a;
        let d = (Rotate a 25 + b) * mul;
        Some (HashLen16Mul c d mul) }
      else if 4 \<le> len then do {
        let mul = city_k2 + of_nat len * 2;
        a \<leftarrow> Fetch32 m s;
        b \<leftarrow> Fetch32 m (s + int len - 4);
        Some (HashLen16Mul (of_nat len + push_bit 3 (ucast a)) (ucast b) mul) }
      else if 0 < len then do {
        a \<leftarrow> load_byte m s;
        b \<leftarrow> load_byte m (s + int (len div 2));
        c \<leftarrow> load_byte m (s + int len - 1);
        let y = (ucast a + push_bit 8 (ucast b) :: u32);
        let z = (of_nat len + push_bit 2 (ucast c) :: u32);
        Some (ShiftMix (ucast y * city_k2 XOR ucast z * city_k0) * city_k2) }
      else Some city_k2)"

definition HashLen17to32 :: "bytes \<Rightarrow> int \<Rightarrow> nat \<Rightarrow> u64 option" where
  "HashLen17to32 m s len = do {
     let mul = city_k2 + of_nat len * 2;
     w \<leftarrow> Fetch64 m s;
     let a = w * city_k1;
     b \<leftarrow> Fetch64 m (s + 8);
     x \<leftarrow> Fetch64 m (s + int len - 8);
     let c = x * mul;
     y \<leftarrow> Fetch64 m (s + int len - 16);
     let d = y * city_k2;
     Some (HashLen16Mul (Rotate (a + b) 43 + Rotate c 30 + d) (a + Rotate (b + city_k2) 18 + c) mul) }"

definition WeakHashLen32WithSeeds :: "u64 \<Rightarrow> u64 \<Rightarrow> u64 \<Rightarrow> u64 \<Rightarrow> u64 \<Rightarrow> u64 \<Rightarrow> uint128" where
  "WeakHashLen32WithSeeds w x y z a b =
     (let a = a + w;
          b = Rotate (b + a + z) 21;
          c = a;
          a = a + x;
          a = a + y;
          b = b + Rotate a 44
      in (a + z, b + c))"

definition WeakHashLen32WithSeedsArray :: "bytes \<Rightarrow> int \<Rightarrow> u64 \<Rightarrow> u64 \<Rightarrow> uint128 option" where
  "WeakHashLen32WithSeedsArray m s a b = do {
     w \<leftarrow> Fetch64 m s;
     x \<leftarrow> Fetch64 m (s + 8);
     y \<leftarrow> Fetch64 m (s + 16);
     z \<leftarrow> Fetch64 m (s + 24);
     Some (WeakHashLen32WithSeeds w x y z a b) }"

definition HashLen33to64 :: "bytes \<Rightarrow> int \<Rightarrow> nat \<Rightarrow> u64 option" where
  "HashLen33to64 m s len = do {
     let mul = city_k2 + of_nat len * 2;
     w0 \<leftarrow> Fetch64 m s;
     let a = w0 * city_k2;
     b \<leftarrow> Fetch64 m (s + 8);
     c \<leftarrow> Fetch64 m (s + int len - 24);
     d \<leftarrow> Fetch64 m (s + int len - 32);
     w1 \<leftarrow> Fetch64 m (s + 16);
     let e = w1 * city_k2;
     w2 \<leftarrow> Fetch64 m (s + 24);
     let f = w2 * 9;
     g \<leftarrow> Fetch64 m (s + int len - 8);
     w3 \<leftarrow> Fetch64 m (s + int len - 16);
     let h = w3 * mul;
     let u = Rotate (a + g) 43 + (Rotate b 30 + c) * 9;
     let v = ((a + g) XOR d) + f + 1;
     let w = bswap_64 ((u + v) * mul) + h;
     let x = Rotate (e + f) 42 + c;
     let y = (bswap_64 ((v + w) * mul) + g) * mul;
     let z = e + f + c;
     let a = bswap_64 ((x + z) * mul + y) + b;
     let b = ShiftMix ((z + a) * mul + d + h) * mul;
     Some (b + x) }"

text \<open>The state \<open>(x, y, z, v, w)\<close> of 56 bytes, and the round of 64 bytes that \<open>CityHash64\<close> and
  \<open>CityHash128WithSeed\<close> share (the latter has it unrolled twice).\<close>

type_synonym city_state = "u64 \<times> u64 \<times> u64 \<times> uint128 \<times> uint128"

definition city64_round :: "bytes \<Rightarrow> int \<Rightarrow> city_state \<Rightarrow> city_state option" where
  "city64_round m s = (\<lambda>(x, y, z, v, w). do {
     f8 \<leftarrow> Fetch64 m (s + 8);
     let x = Rotate (x + y + fst v + f8) 37 * city_k1;
     f48 \<leftarrow> Fetch64 m (s + 48);
     let y = Rotate (y + snd v + f48) 42 * city_k1;
     let x = x XOR snd w;
     f40 \<leftarrow> Fetch64 m (s + 40);
     let y = y + (fst v + f40);
     let z = Rotate (z + fst w) 33 * city_k1;
     v \<leftarrow> WeakHashLen32WithSeedsArray m s (snd v * city_k1) (x + fst w);
     f16 \<leftarrow> Fetch64 m (s + 16);
     w \<leftarrow> WeakHashLen32WithSeedsArray m (s + 32) (z + snd w) (y + f16);
     Some (z, y, x, v, w) })"

fun city64_loop :: "nat \<Rightarrow> bytes \<Rightarrow> int \<Rightarrow> city_state \<Rightarrow> city_state option" where
  "city64_loop 0 m s st = Some st"
| "city64_loop (Suc n) m s st = do {
     st \<leftarrow> city64_round m s st;
     city64_loop n m (s + 64) st }"

text \<open>The length rounded down, \<open>(len - 1) & ~63\<close>, is a positive multiple of 64 here, and the loop
  counts it down by 64.\<close>

definition CityHash64 :: "bytes \<Rightarrow> int \<Rightarrow> nat \<Rightarrow> u64 option" where
  "CityHash64 m s len =
     (if len \<le> 32 then (if len \<le> 16 then HashLen0to16 m s len else HashLen17to32 m s len)
      else if len \<le> 64 then HashLen33to64 m s len
      else do {
        x \<leftarrow> Fetch64 m (s + int len - 40);
        y1 \<leftarrow> Fetch64 m (s + int len - 16);
        y2 \<leftarrow> Fetch64 m (s + int len - 56);
        let y = y1 + y2;
        z1 \<leftarrow> Fetch64 m (s + int len - 48);
        z2 \<leftarrow> Fetch64 m (s + int len - 24);
        let z = HashLen16 (z1 + of_nat len) z2;
        v \<leftarrow> WeakHashLen32WithSeedsArray m (s + int len - 64) (of_nat len) z;
        w \<leftarrow> WeakHashLen32WithSeedsArray m (s + int len - 32) (y + city_k1) x;
        x0 \<leftarrow> Fetch64 m s;
        let x = x * city_k1 + x0;
        (x, y, z, v, w) \<leftarrow> city64_loop ((len - 1) div 64) m s (x, y, z, v, w);
        Some (HashLen16 (HashLen16 (fst v) (fst w) + ShiftMix y * city_k1 + z)
                        (HashLen16 (snd v) (snd w) + x)) })"

definition CityHash64WithSeeds :: "bytes \<Rightarrow> int \<Rightarrow> nat \<Rightarrow> u64 \<Rightarrow> u64 \<Rightarrow> u64 option" where
  "CityHash64WithSeeds m s len seed0 seed1 = do {
     h \<leftarrow> CityHash64 m s len;
     Some (HashLen16 (h - seed0) seed1) }"

definition CityHash64WithSeed :: "bytes \<Rightarrow> int \<Rightarrow> nat \<Rightarrow> u64 \<Rightarrow> u64 option" where
  "CityHash64WithSeed m s len seed = CityHash64WithSeeds m s len city_k2 seed"

section \<open>The 128-bit hash\<close>

text \<open>The loop of \<open>CityMurmur\<close>; \<open>l\<close> is signed and the body runs at least once.\<close>

function murmur_loop :: "bytes \<Rightarrow> int \<Rightarrow> int \<Rightarrow> u64 \<times> u64 \<times> u64 \<times> u64 \<Rightarrow> (u64 \<times> u64 \<times> u64 \<times> u64) option" where
  "murmur_loop m s l (a, b, c, d) = do {
     x \<leftarrow> Fetch64 m s;
     let a = a XOR ShiftMix (x * city_k1) * city_k1;
     let a = a * city_k1;
     let b = b XOR a;
     y \<leftarrow> Fetch64 m (s + 8);
     let c = c XOR ShiftMix (y * city_k1) * city_k1;
     let c = c * city_k1;
     let d = d XOR c;
     if 0 < l - 16 then murmur_loop m (s + 16) (l - 16) (a, b, c, d) else Some (a, b, c, d) }"
  by pat_completeness auto
termination by (relation "measure (\<lambda>(m, s, l, st). nat l)") auto

declare murmur_loop.simps [simp del]

definition CityMurmur :: "bytes \<Rightarrow> int \<Rightarrow> nat \<Rightarrow> uint128 \<Rightarrow> uint128 option" where
  "CityMurmur m s len seed = do {
     let a = fst seed; let b = snd seed;
     let l = int len - 16;
     (a, b, c, d) \<leftarrow>
       (if l \<le> 0 then do {
          let a = ShiftMix (a * city_k1) * city_k1;
          h \<leftarrow> HashLen0to16 m s len;
          let c = b * city_k1 + h;
          w \<leftarrow> (if 8 \<le> len then Fetch64 m s else Some c);
          Some (a, b, c, ShiftMix (a + w)) }
        else do {
          w \<leftarrow> Fetch64 m (s + int len - 8);
          let c = HashLen16 (w + city_k1) a;
          u \<leftarrow> Fetch64 m (s + int len - 16);
          let d = HashLen16 (b + of_nat len) (c + u);
          murmur_loop m s l (a + d, b, c, d) });
     let a = HashLen16 a c;
     let b = HashLen16 d b;
     Some (a XOR b, HashLen16 b a) }"

text \<open>The main loop takes 128 bytes per turn and runs at least once; it returns the length that is left
  (\<open>s\<close> has advanced by the difference).\<close>

function city128_loop :: "bytes \<Rightarrow> int \<Rightarrow> nat \<Rightarrow> city_state \<Rightarrow> (nat \<times> city_state) option" where
  "city128_loop m s len st = do {
     st \<leftarrow> city64_round m s st;
     st \<leftarrow> city64_round m (s + 64) st;
     if 128 \<le> len - 128 then city128_loop m (s + 128) (len - 128) st else Some (len - 128, st) }"
  by pat_completeness auto
termination by (relation "measure (\<lambda>(m, s, len, st). len)") auto

declare city128_loop.simps [simp del]

function city128_tail :: "bytes \<Rightarrow> int \<Rightarrow> nat \<Rightarrow> nat \<Rightarrow> city_state \<Rightarrow> city_state option" where
  "city128_tail m s len tail_done (x, y, z, v, w) =
     (if tail_done < len then do {
        let tail_done = tail_done + 32;
        let y = Rotate (x + y) 42 * city_k0 + snd v;
        f \<leftarrow> Fetch64 m (s + int len - int tail_done + 16);
        let w = (fst w + f, snd w);
        let x = x * city_k0 + fst w;
        g \<leftarrow> Fetch64 m (s + int len - int tail_done);
        let z = z + (snd w + g);
        let w = (fst w, snd w + fst v);
        v \<leftarrow> WeakHashLen32WithSeedsArray m (s + int len - int tail_done) (fst v + z) (snd v);
        let v = (fst v * city_k0, snd v);
        city128_tail m s len tail_done (x, y, z, v, w) }
      else Some (x, y, z, v, w))"
  by pat_completeness auto
termination by (relation "measure (\<lambda>(m, s, len, t, st). len - t)") auto

declare city128_tail.simps [simp del]

definition CityHash128WithSeed :: "bytes \<Rightarrow> int \<Rightarrow> nat \<Rightarrow> uint128 \<Rightarrow> uint128 option" where
  "CityHash128WithSeed m s len seed =
     (if len < 128 then CityMurmur m s len seed
      else do {
        let x = fst seed; let y = snd seed; let z = of_nat len * city_k1;
        f0 \<leftarrow> Fetch64 m s;
        let v1 = Rotate (y XOR city_k1) 49 * city_k1 + f0;
        f8 \<leftarrow> Fetch64 m (s + 8);
        let v = (v1, Rotate v1 42 * city_k1 + f8);
        f88 \<leftarrow> Fetch64 m (s + 88);
        let w = (Rotate (y + z) 35 * city_k1 + x, Rotate (x + f88) 53 * city_k1);
        (left, x, y, z, v, w) \<leftarrow> city128_loop m s len (x, y, z, v, w);
        let x = x + Rotate (fst v + z) 49 * city_k0;
        let y = y * city_k0 + Rotate (snd w) 37;
        let z = z * city_k0 + Rotate (fst w) 27;
        let w = (fst w * 9, snd w);
        let v = (fst v * city_k0, snd v);
        (x, y, z, v, w) \<leftarrow> city128_tail m (s + int (len - left)) left 0 (x, y, z, v, w);
        let x = HashLen16 x (fst v);
        let y = HashLen16 (y + z) (fst w);
        Some (HashLen16 (x + snd v) (snd w) + y, HashLen16 (x + snd w) (y + snd v)) })"

text \<open>The first 16 bytes are loaded whatever the length.\<close>

definition CityHash128 :: "bytes \<Rightarrow> int \<Rightarrow> nat \<Rightarrow> uint128 option" where
  "CityHash128 m s len = do {
     f0 \<leftarrow> Fetch64 m s;
     f8 \<leftarrow> Fetch64 m (s + 8);
     if 16 \<le> len then CityHash128WithSeed m (s + 16) (len - 16) (f0, f8 + city_k0)
     else CityHash128WithSeed m s len (city_k0, city_k1) }"

definition cityhash128_to_array :: "uint128 \<Rightarrow> bytes" where
  "cityhash128_to_array hash = le_bytes 8 (fst hash) @ le_bytes 8 (snd hash)"

section \<open>The hashes read their buffer and nothing else\<close>

text \<open>Two runs agree when both return, with the same value. The rules below take a run of a hash on a
  buffer and a run on the same buffer inside a larger memory apart in step.\<close>

definition agree :: "'a option \<Rightarrow> 'a option \<Rightarrow> bool" where
  "agree a b \<longleftrightarrow> a = b \<and> a \<noteq> None"

named_theorems agree_intros \<open>runs that agree\<close>

lemma agree_Some [agree_intros]: "agree (Some x) (Some x)"
  by (simp add: agree_def)

lemma agree_bind [agree_intros]:
  assumes "agree a b" and "\<And>x. agree (f x) (g x)"
  shows "agree (a \<bind> f) (b \<bind> g)"
proof -
  obtain x where "a = Some x" "b = Some x" using assms(1) by (auto simp: agree_def)
  then show ?thesis using assms(2) [of x] by simp
qed

lemma agree_let [agree_intros]: "(\<And>x. agree (f x) (g x)) \<Longrightarrow> agree (Let a f) (Let a g)"
  by simp

lemma agree_if [agree_intros]:
  "(c \<Longrightarrow> agree a a') \<Longrightarrow> (\<not> c \<Longrightarrow> agree b b') \<Longrightarrow> agree (if c then a else b) (if c then a' else b')"
  by simp

lemma agree_prod [agree_intros]: "(\<And>a b. p = (a, b) \<Longrightarrow> agree (f a b) (g a b)) \<Longrightarrow> agree (case_prod f p) (case_prod g p)"
  by (cases p) simp

text \<open>\<open>placed big base m\<close>: the bytes of \<open>m\<close> stand in \<open>big\<close> from position \<open>base\<close> on.\<close>

definition placed :: "bytes \<Rightarrow> int \<Rightarrow> bytes \<Rightarrow> bool" where
  "placed big base m \<longleftrightarrow> (\<exists>pre post. big = pre @ m @ post \<and> base = int (length pre))"

lemma placedE:
  assumes "placed big base m"
  obtains pre post where "big = pre @ m @ post" "base = int (length pre)"
  using assms by (auto simp: placed_def)

lemma placed_sub:
  assumes "placed big base m" "0 \<le> p" "nat p + n \<le> length m" "q = base + p"
  shows "0 \<le> q \<and> nat q + n \<le> length big \<and> sub big (nat q) n = sub m (nat p) n"
proof -
  obtain pre post where b: "big = pre @ m @ post" "base = int (length pre)" using assms(1) by (rule placedE)
  then have "nat q = length pre + nat p" using assms by (simp add: nat_add_distrib)
  then show ?thesis using assms b by (simp add: sub_def)
qed

lemma agree_Fetch64:
  assumes "placed big base m" "q = base + p" "0 \<le> p" "p + 8 \<le> int (length m)"
  shows "agree (Fetch64 big q) (Fetch64 m p)"
proof -
  have "nat p + 8 \<le> length m" using assms(3,4) by linarith
  then show ?thesis
    using placed_sub [OF assms(1,3) _ assms(2), of 8] assms(3) by (simp add: agree_def Fetch64_def UNALIGNED_LOAD64_def)
qed

lemma agree_Fetch32:
  assumes "placed big base m" "q = base + p" "0 \<le> p" "p + 4 \<le> int (length m)"
  shows "agree (Fetch32 big q) (Fetch32 m p)"
proof -
  have "nat p + 4 \<le> length m" using assms(3,4) by linarith
  then show ?thesis
    using placed_sub [OF assms(1,3) _ assms(2), of 4] assms(3) by (simp add: agree_def Fetch32_def UNALIGNED_LOAD32_def)
qed

lemma agree_load_byte:
  assumes "placed big base m" "q = base + p" "0 \<le> p" "p < int (length m)"
  shows "agree (load_byte big q) (load_byte m p)"
proof -
  have len: "nat p + 1 \<le> length m" using assms(3,4) by linarith
  then have s: "0 \<le> q" "nat q + 1 \<le> length big" "sub big (nat q) 1 = sub m (nat p) 1"
    using placed_sub [OF assms(1,3) _ assms(2), of 1] by simp_all
  then have "big ! nat q = m ! nat p"
    using len nth_sub [of 0 1 "nat q" big] nth_sub [of 0 1 "nat p" m] by simp
  then show ?thesis using s len assms(3) by (simp add: agree_def load_byte_def)
qed

text \<open>A hash of \<open>len\<close> bytes from position \<open>s\<close> of \<open>m\<close>, with \<open>m\<close> placed in a larger memory.\<close>

definition window :: "bytes \<Rightarrow> int \<Rightarrow> bytes \<Rightarrow> int \<Rightarrow> int \<Rightarrow> int \<Rightarrow> bool" where
  "window big q m base s n \<longleftrightarrow> placed big base m \<and> q = base + s \<and> 0 \<le> s \<and> s + n \<le> int (length m)"

lemma windowD:
  assumes "window big q m base s n"
  shows "placed big base m" "q = base + s" "0 \<le> s" "s + n \<le> int (length m)"
  using assms by (simp_all add: window_def)

lemma agree_Hash32Len13to24:
  assumes "window big q m base s (int len)" "12 < len" "len \<le> 24"
  shows "agree (Hash32Len13to24 big q len) (Hash32Len13to24 m s len)"
proof -
  have "6 \<le> len div 2" "len div 2 + 4 \<le> len" using assms(2) by simp_all
  then have h: "6 \<le> int (len div 2)" "int (len div 2) + 4 \<le> int len" by linarith+
  note w = windowD [OF assms(1)]
  show ?thesis
    unfolding Hash32Len13to24_def
    by (intro agree_intros agree_Fetch32 [OF w(1)]; use w assms(2) h in linarith)
qed

lemma agree_len0to4_loop:
  "window big q m base s (int n) \<Longrightarrow> agree (len0to4_loop n big q b c) (len0to4_loop n m s b c)"
proof (induction n arbitrary: q s b c)
  case 0
  show ?case by (simp add: agree_intros)
next
  case (Suc n)
  note w = windowD [OF Suc.prems]
  have "window big (q + 1) m base (s + 1) (int n)" using w by (simp add: window_def)
  note IH = Suc.IH [OF this]
  show ?case
    unfolding len0to4_loop.simps by (intro agree_intros agree_load_byte [OF w(1)] IH; use w in linarith)
qed

lemma agree_Hash32Len0to4:
  "window big q m base s (int len) \<Longrightarrow> agree (Hash32Len0to4 big q len) (Hash32Len0to4 m s len)"
  unfolding Hash32Len0to4_def by (intro agree_intros agree_len0to4_loop)

lemma agree_Hash32Len5to12:
  assumes "window big q m base s (int len)" "4 < len" "len \<le> 12"
  shows "agree (Hash32Len5to12 big q len) (Hash32Len5to12 m s len)"
proof -
  have "len \<in> {5, 6, 7, 8, 9, 10, 11, 12}" using assms(2,3) by auto
  then have "and (len div 2) 4 + 4 \<le> len" by (elim insertE emptyE) simp_all
  then have h: "int (and (len div 2) 4) + 4 \<le> int len" by linarith
  note w = windowD [OF assms(1)]
  show ?thesis
    unfolding Hash32Len5to12_def by (intro agree_intros agree_Fetch32 [OF w(1)]; use w assms(2) h in linarith)
qed

lemma agree_city32_round:
  assumes "window big q m base s n" "20 \<le> n"
  shows "agree (city32_round big q st) (city32_round m s st)"
proof -
  note w = windowD [OF assms(1)]
  show ?thesis
    unfolding city32_round_def by (intro agree_intros agree_Fetch32 [OF w(1)]; use w assms(2) in linarith)
qed

lemma agree_city32_loop:
  "window big q m base s (20 * int n) \<Longrightarrow> agree (city32_loop n big q st) (city32_loop n m s st)"
proof (induction n arbitrary: q s st)
  case 0
  show ?case by (simp add: agree_intros)
next
  case (Suc n)
  have "window big (q + 20) m base (s + 20) (20 * int n)" using Suc.prems by (simp add: window_def)
  note IH = Suc.IH [OF this]
  show ?case
    unfolding city32_loop.simps
    by (rule agree_bind) (use Suc.prems in \<open>auto intro!: agree_city32_round IH\<close>)
qed

lemma window_le: "window big q m base s n \<Longrightarrow> n' \<le> n \<Longrightarrow> window big q m base s n'"
  by (simp add: window_def)

lemma agree_CityHash32:
  assumes "window big q m base s (int len)"
  shows "agree (CityHash32 big q len) (CityHash32 m s len)"
proof -
  note w = windowD [OF assms]
  have "20 * ((len - 1) div 20) \<le> len" by (rule le_trans [OF times_div_less_eq_dividend]) simp
  then have it: "window big q m base s (20 * int ((len - 1) div 20))" by (intro window_le [OF assms]) linarith
  show ?thesis
    unfolding CityHash32_def by (intro agree_intros agree_Fetch32 [OF w(1)] agree_Hash32Len0to4 [OF assms] agree_Hash32Len5to12 [OF assms]
        agree_Hash32Len13to24 [OF assms] agree_city32_loop [OF it]; use w in linarith)
qed

lemma agree_HashLen0to16:
  assumes "window big q m base s (int len)"
  shows "agree (HashLen0to16 big q len) (HashLen0to16 m s len)"
proof -
  note w = windowD [OF assms]
  have "0 < len \<Longrightarrow> len div 2 < len" by simp
  then have h: "0 < len \<Longrightarrow> int (len div 2) < int len" by linarith
  show ?thesis
    unfolding HashLen0to16_def
    by (intro agree_intros agree_Fetch64 [OF w(1)] agree_Fetch32 [OF w(1)] agree_load_byte [OF w(1)]; use w h in linarith)
qed

lemma agree_HashLen17to32:
  assumes "window big q m base s (int len)" "16 < len"
  shows "agree (HashLen17to32 big q len) (HashLen17to32 m s len)"
proof -
  note w = windowD [OF assms(1)]
  show ?thesis
    unfolding HashLen17to32_def by (intro agree_intros agree_Fetch64 [OF w(1)]; use w assms(2) in linarith)
qed

lemma agree_HashLen33to64:
  assumes "window big q m base s (int len)" "32 < len"
  shows "agree (HashLen33to64 big q len) (HashLen33to64 m s len)"
proof -
  note w = windowD [OF assms(1)]
  show ?thesis
    unfolding HashLen33to64_def by (intro agree_intros agree_Fetch64 [OF w(1)]; use w assms(2) in linarith)
qed

lemma agree_WeakArray:
  assumes "placed big base m" "q = base + s" "0 \<le> s" "s + 32 \<le> int (length m)"
  shows "agree (WeakHashLen32WithSeedsArray big q a b) (WeakHashLen32WithSeedsArray m s a b)"
  unfolding WeakHashLen32WithSeedsArray_def
  by (intro agree_intros agree_Fetch64 [OF assms(1)]; use assms in linarith)

lemma agree_city64_round:
  assumes "window big q m base s n" "64 \<le> n"
  shows "agree (city64_round big q st) (city64_round m s st)"
proof -
  note w = windowD [OF assms(1)]
  show ?thesis
    unfolding city64_round_def
    by (intro agree_intros agree_Fetch64 [OF w(1)] agree_WeakArray [OF w(1)]; use w assms(2) in linarith)
qed

lemma agree_city64_loop:
  "window big q m base s (64 * int n) \<Longrightarrow> agree (city64_loop n big q st) (city64_loop n m s st)"
proof (induction n arbitrary: q s st)
  case 0
  show ?case by (simp add: agree_intros)
next
  case (Suc n)
  have "window big (q + 64) m base (s + 64) (64 * int n)" using Suc.prems by (simp add: window_def)
  note IH = Suc.IH [OF this]
  show ?case
    unfolding city64_loop.simps
    by (rule agree_bind) (use Suc.prems in \<open>auto intro!: agree_city64_round IH\<close>)
qed

lemma agree_CityHash64:
  assumes "window big q m base s (int len)"
  shows "agree (CityHash64 big q len) (CityHash64 m s len)"
proof -
  note w = windowD [OF assms]
  have "64 * ((len - 1) div 64) \<le> len" by (rule le_trans [OF times_div_less_eq_dividend]) simp
  then have it: "window big q m base s (64 * int ((len - 1) div 64))" by (intro window_le [OF assms]) linarith
  show ?thesis
    unfolding CityHash64_def
    by (intro agree_intros agree_Fetch64 [OF w(1)] agree_WeakArray [OF w(1)] agree_city64_loop [OF it]
        agree_HashLen0to16 [OF assms] agree_HashLen17to32 [OF assms] agree_HashLen33to64 [OF assms]; use w in linarith)
qed

lemma agree_murmur_loop:
  "window big q m base s (l + 16) \<Longrightarrow> 0 < l \<Longrightarrow> agree (murmur_loop big q l st) (murmur_loop m s l st)"
proof (induction "nat l" arbitrary: q s l st rule: less_induct)
  case less
  note w = windowD [OF less.prems(1)] and l = less.prems(2)
  have IH: "0 < l - 16 \<Longrightarrow> agree (murmur_loop big (q + 16) (l - 16) st) (murmur_loop m (s + 16) (l - 16) st)" for st
    using w by (intro less.hyps) (simp_all add: window_def)
  obtain a b c d where st: "st = (a, b, c, d)" by (cases st)
  show ?case
    unfolding st murmur_loop.simps [of _ _ l]
    by (intro agree_intros agree_Fetch64 [OF w(1)] IH; use w l in linarith)
qed

lemma agree_CityMurmur:
  assumes "window big q m base s (int len)"
  shows "agree (CityMurmur big q len seed) (CityMurmur m s len seed)"
proof -
  note w = windowD [OF assms]
  have l: "window big q m base s (int len - 16 + 16)" using assms by simp
  show ?thesis
    unfolding CityMurmur_def Let_def [of "int len - 16"]
    by (intro agree_intros agree_Fetch64 [OF w(1)] agree_HashLen0to16 [OF assms] agree_murmur_loop [OF l]; use w in linarith)
qed

lemma agree_city128_loop:
  "window big q m base s (int len) \<Longrightarrow> 128 \<le> len \<Longrightarrow> agree (city128_loop big q len st) (city128_loop m s len st)"
proof (induction len arbitrary: q s st rule: less_induct)
  case (less len)
  note w = windowD [OF less.prems(1)] and len = less.prems(2)
  have "window big (q + 64) m base (s + 64) 64" using w len by (simp add: window_def)
  note r2 = agree_city64_round [OF this]
  have IH: "128 \<le> len - 128 \<Longrightarrow> agree (city128_loop big (q + 128) (len - 128) st) (city128_loop m (s + 128) (len - 128) st)" for st
    using w len by (intro less.IH) (simp_all add: window_def of_nat_diff)
  show ?case
    unfolding city128_loop.simps [of _ _ len]
    by (intro agree_intros agree_city64_round [OF less.prems(1)] r2 IH; use len in simp)
qed

lemma city128_loop_left: "128 \<le> len \<Longrightarrow> city128_loop m s len st = Some (left, st') \<Longrightarrow> left + 128 \<le> len"
proof (induction len arbitrary: s st rule: less_induct)
  case (less len)
  from less.prems(2) consider "left = len - 128"
    | s2 st2 where "128 \<le> len - 128" "city128_loop m s2 (len - 128) st2 = Some (left, st')"
    by (subst (asm) city128_loop.simps) (auto split: bind_splits if_splits)
  then show ?case
  proof cases
    case 1
    then show ?thesis using less.prems(1) by simp
  next
    case 2
    then show ?thesis using less.IH [of "len - 128" s2 st2] by simp
  qed
qed

lemma agree_city128_tail:
  assumes "placed big base m" "q = base + s" "31 \<le> s" "s + int len \<le> int (length m)"
  shows "agree (city128_tail big q len t st) (city128_tail m s len t st)"
proof (induction "len - t" arbitrary: t st rule: less_induct)
  case less
  have IH: "t < len \<Longrightarrow> agree (city128_tail big q len (t + 32) st) (city128_tail m s len (t + 32) st)" for st
    by (intro less.hyps) simp
  obtain x y z v w where st: "st = (x, y, z, v, w)" by (cases st)
  show ?case
    unfolding st city128_tail.simps [of _ _ len t] Let_def [of "t + 32"]
    by (intro agree_intros agree_Fetch64 [OF assms(1)] agree_WeakArray [OF assms(1)] IH; use assms in simp)
qed

lemma agree_bind_post:
  assumes "agree a b" and "\<And>x. b = Some x \<Longrightarrow> agree (f x) (g x)"
  shows "agree (a \<bind> f) (b \<bind> g)"
proof -
  obtain x where "a = Some x" "b = Some x" using assms(1) by (auto simp: agree_def)
  then show ?thesis using assms(2) [of x] by simp
qed

lemma agree_CityHash128WithSeed:
  assumes "window big q m base s (int len)"
  shows "agree (CityHash128WithSeed big q len seed) (CityHash128WithSeed m s len seed)"
proof -
  note w = windowD [OF assms]
  have tail: "agree (city128_tail big (q + int (len - left)) left 0 st) (city128_tail m (s + int (len - left)) left 0 st)"
    if "left + 128 \<le> len" for left st
    using w that by (intro agree_city128_tail [OF w(1)]) (simp_all add: of_nat_diff)
  show ?thesis
    unfolding CityHash128WithSeed_def
    by (intro agree_intros(1,3-) agree_CityMurmur [OF assms] agree_bind_post agree_city128_loop [OF assms]
        agree_Fetch64 [OF w(1)] tail; use w in \<open>auto dest: city128_loop_left [rotated]\<close>)
qed

lemma agree_CityHash128:
  assumes "window big q m base s (int len)" "16 \<le> len"
  shows "agree (CityHash128 big q len) (CityHash128 m s len)"
proof -
  note w = windowD [OF assms(1)]
  have "window big (q + 16) m base (s + 16) (int (len - 16))" using w assms(2) by (simp add: window_def of_nat_diff)
  note h = agree_CityHash128WithSeed [OF this]
  show ?thesis
    unfolding CityHash128_def
    by (intro agree_intros agree_Fetch64 [OF w(1)] h; use w assms(2) in linarith)
qed

lemma window_embed: "window (pre @ m @ post) (int (length pre)) m (int (length pre)) 0 (int (length m))"
  by (auto simp: window_def placed_def)

lemma agreeD: "agree a b \<Longrightarrow> \<exists>h. a = Some h \<and> b = Some h"
  by (auto simp: agree_def)

lemma cityhash32_to_16_total: "length m = n \<Longrightarrow> \<exists>h. cityhash32_to_16 m n = Some h"
  using agreeD [OF agree_CityHash32 [OF window_embed [of "[]" m "[]"]]] by (auto simp: cityhash32_to_16_def)

section \<open>Properties\<close>

text \<open>C28: CityHash is memory safe: wherever a message of \<open>n\<close> bytes lies in memory, \<open>CityHash32\<close> and
  \<open>CityHash64\<close> on it, and \<open>CityHash128\<close> when it has at least 16 bytes, load no byte outside it and
  return a value that depends on these bytes only. \<open>CityHash128\<close> on a buffer of fewer than 16 bytes
  reads past its end.\<close>

theorem city_hash_in_bounds:
  "(\<exists>h. CityHash32 (pre @ m @ post) (int (length pre)) (length m) = Some h \<and> CityHash32 m 0 (length m) = Some h) \<and>
   (\<exists>h. CityHash64 (pre @ m @ post) (int (length pre)) (length m) = Some h \<and> CityHash64 m 0 (length m) = Some h) \<and>
   (if 16 \<le> length m
    then \<exists>h. CityHash128 (pre @ m @ post) (int (length pre)) (length m) = Some h \<and> CityHash128 m 0 (length m) = Some h
    else CityHash128 m 0 (length m) = None)"
proof (intro conjI)
  note w = window_embed [of pre m post]
  show "\<exists>h. CityHash32 (pre @ m @ post) (int (length pre)) (length m) = Some h \<and> CityHash32 m 0 (length m) = Some h"
    by (rule agreeD [OF agree_CityHash32 [OF w]])
  show "\<exists>h. CityHash64 (pre @ m @ post) (int (length pre)) (length m) = Some h \<and> CityHash64 m 0 (length m) = Some h"
    by (rule agreeD [OF agree_CityHash64 [OF w]])
  show "if 16 \<le> length m
    then \<exists>h. CityHash128 (pre @ m @ post) (int (length pre)) (length m) = Some h \<and> CityHash128 m 0 (length m) = Some h
    else CityHash128 m 0 (length m) = None"
    using agreeD [OF agree_CityHash128 [OF w]]
    by (simp add: CityHash128_def Fetch64_def UNALIGNED_LOAD64_def split: bind_splits)
qed

end
