(* ===== verification/Afs_Engine.thy ===== *)
theory Afs_Engine
  imports Afs_Engine_Queue Afs_Aont Afs_City
begin

text \<open>
  The I/O engine, \<open>src/src/dm_afs_engine.c\<close>: how a read or write of one virtual block becomes reads or
  writes of its carrier blocks. A request that waits for a work queue or for bios of the passive device
  is a \<open>work\<close> item; an operation returns the work it leaves behind. \<open>gf_ctx\<close> is the state of
  the Galois field tables. A result \<open>None\<close> is a fault: a null or wild pointer, or an access outside a buffer.

  Carrier pages come from \<open>__get_free_page\<close> and are aligned, and \<open>bio_alloc\<close> with \<open>GFP_NOIO\<close> does not
  fail, so the checks of \<open>read_pages\<close> and \<open>write_pages\<close> for these pass.
\<close>

section \<open>Segments\<close>

text \<open>\<open>bio_for_each_segment\<close> visits the segments in order until \<open>bi_size\<close> bytes (\<open>todo\<close>) are seen.
  \<open>seg_out\<close> copies from the data block to the segments, \<open>seg_in\<close> from the segments to the data block;
  \<open>base\<close> is the byte offset of the request in the block.\<close>

fun seg_out :: "bytes \<Rightarrow> nat \<Rightarrow> u32 \<Rightarrow> u32 \<Rightarrow> u32 \<Rightarrow> bio_vec list \<Rightarrow> bio_vec list option" where
  "seg_out data base rsize segment_offset todo [] = Some []"
| "seg_out data base rsize segment_offset todo (bv # bvs) =
     (if todo = 0 then Some (bv # bvs)
      else let len = min (bv_len bv) todo in
        if len \<le> rsize - segment_offset then do {
          src \<leftarrow> peek data (base + unat segment_offset) (unat len);
          page \<leftarrow> poke (bv_page bv) (unat (bv_offset bv)) src;
          rest \<leftarrow> seg_out data base rsize (segment_offset + len) (todo - len) bvs;
          Some (bv\<lparr>bv_page := page\<rparr> # rest) }
        else do {
          src \<leftarrow> peek data (base + unat segment_offset) (unat (rsize - segment_offset));
          page \<leftarrow> poke (bv_page bv) (unat (bv_offset bv)) src;
          Some (bv\<lparr>bv_page := page\<rparr> # bvs) })"

fun seg_in :: "bytes \<Rightarrow> nat \<Rightarrow> u32 \<Rightarrow> u32 \<Rightarrow> u32 \<Rightarrow> bio_vec list \<Rightarrow> bytes option" where
  "seg_in data base rsize segment_offset todo [] = Some data"
| "seg_in data base rsize segment_offset todo (bv # bvs) =
     (if todo = 0 then Some data
      else let len = min (bv_len bv) todo in
        if len \<le> rsize - segment_offset then do {
          src \<leftarrow> peek (bv_page bv) (unat (bv_offset bv)) (unat len);
          data \<leftarrow> poke data (base + unat segment_offset) src;
          seg_in data base rsize (segment_offset + len) (todo - len) bvs }
        else do {
          src \<leftarrow> peek (bv_page bv) (unat (bv_offset bv)) (unat (rsize - segment_offset));
          poke data (base + unat segment_offset) src })"

definition req_base :: "afs_map_request \<Rightarrow> nat" where
  "req_base req = unat (req_sector_offset req * AFS_SECTOR_SIZE)"

definition bio_fill :: "afs_map_request \<Rightarrow> bio \<Rightarrow> bio option" where
  "bio_fill req b = do {
     bvs \<leftarrow> seg_out (data_block req) (req_base req) (request_size req) 0 (bi_size b) (bi_io_vec b);
     Some (b\<lparr>bi_io_vec := bvs\<rparr>) }"

definition bio_take :: "afs_map_request \<Rightarrow> bio \<Rightarrow> bytes option" where
  "bio_take req b = seg_in (data_block req) (req_base req) (request_size req) 0 (bi_size b) (bi_io_vec b)"

section \<open>The state of the engine\<close>

text \<open>The instance, the kernel, the queues, and the bios that were handed back with \<open>bio_endio\<close>.\<close>

record engine =
  e_ctx :: afs_private
  e_k :: kernel
  e_flight_eq :: afs_engine_queue
  e_rebuild_eq :: afs_engine_queue
  e_ended :: "bio list"

text \<open>\<open>ReadIO\<close> and \<open>WriteIO\<close> are requests whose carrier bios with the listed indices are under way.\<close>

datatype work =
    Flight afs_map_request
  | Rebuild afs_map_request
  | Crypto afs_map_request
  | ReadIO afs_map_request "nat list"
  | WriteIO afs_map_request "nat list"

abbreviation ncar :: "engine \<Rightarrow> nat" where
  "ncar e \<equiv> unat (num_carrier_blocks (config (e_ctx e)))"

section \<open>Map entries\<close>

definition afs_get_map_entry :: "afs_config \<Rightarrow> u32 \<Rightarrow> nat" where
  "afs_get_map_entry cfg index = unat (index * ucast (map_entry_sz cfg))"

definition get_ptr :: "engine \<Rightarrow> nat \<Rightarrow> nat \<Rightarrow> u32 option" where
  "get_ptr e entry i = do { m \<leftarrow> afs_map (e_ctx e); b \<leftarrow> peek m (entry + 6 * i) 4; Some (le_word b) }"

definition get_checksum :: "engine \<Rightarrow> nat \<Rightarrow> nat \<Rightarrow> u16 option" where
  "get_checksum e entry i = do { m \<leftarrow> afs_map (e_ctx e); b \<leftarrow> peek m (entry + 6 * i + 4) 2; Some (le_word b) }"

definition map_put :: "engine \<Rightarrow> nat \<Rightarrow> bytes \<Rightarrow> engine option" where
  "map_put e pos bs = do {
     m \<leftarrow> afs_map (e_ctx e);
     m \<leftarrow> poke m pos bs;
     Some (e\<lparr>e_ctx := (e_ctx e)\<lparr>afs_map := Some m\<rparr>\<rparr>) }"

definition put_ptr :: "engine \<Rightarrow> nat \<Rightarrow> nat \<Rightarrow> u32 \<Rightarrow> engine option" where
  "put_ptr e entry i b = map_put e (entry + 6 * i) (le_bytes 4 b)"

definition put_checksum :: "engine \<Rightarrow> nat \<Rightarrow> nat \<Rightarrow> u16 \<Rightarrow> engine option" where
  "put_checksum e entry i c = map_put e (entry + 6 * i + 4) (le_bytes 2 c)"

text \<open>The difference of the AONT package stands after the tuples.\<close>

definition diff_pos :: "engine \<Rightarrow> nat \<Rightarrow> nat" where
  "diff_pos e entry = entry + 6 * ncar e"

definition get_difference :: "engine \<Rightarrow> nat \<Rightarrow> bytes option" where
  "get_difference e entry = do { m \<leftarrow> afs_map (e_ctx e); peek m (diff_pos e entry) KEY_SIZE }"

section \<open>Completion\<close>

definition bio_endio :: "bio \<Rightarrow> engine \<Rightarrow> engine" where
  "bio_endio b e = e\<lparr>e_ended := e_ended e @ [b]\<rparr>"

definition free_encoder :: "gfshare_ctx option \<Rightarrow> engine \<Rightarrow> engine" where
  "free_encoder enc e =
     (case enc of None \<Rightarrow> e | Some g \<Rightarrow> e\<lparr>e_k := snd (gfshare_ctx_free g (e_k e))\<rparr>)"

text \<open>The request is freed; what remains is its effect on the engine.\<close>

definition afs_req_clean :: "afs_map_request \<Rightarrow> engine \<Rightarrow> engine option" where
  "afs_req_clean req e =
     (case req_bio req of
        NullBio \<Rightarrow> Some (free_encoder (encoder req) e)
      | Bio b \<Rightarrow> Some (free_encoder (encoder req) (bio_endio b e))
      | WildBio \<Rightarrow> None)"

section \<open>Carrier I/O\<close>

definition carrier_sector :: "engine \<Rightarrow> u32 \<Rightarrow> u64" where
  "carrier_sector e b = ucast (b * AFS_SECTORS_PER_BLOCK + data_start_off (passive_fs (e_ctx e)))"

text \<open>\<open>read_pages\<close> and \<open>write_pages\<close> put one bio per carrier block under way; the array of bios is not
  checked for memory.\<close>

definition carriers :: "engine \<Rightarrow> afs_map_request \<Rightarrow> bytes list option" where
  "carriers e req = (if ncar e \<le> length (carrier_blocks req) then those (take (ncar e) (carrier_blocks req)) else None)"

definition read_pages :: "afs_map_request \<Rightarrow> nat \<Rightarrow> engine \<Rightarrow> (int \<times> afs_map_request \<times> engine \<times> work list) option" where
  "read_pages req num_pages e = (case kmalloc (8 * num_pages) (e_k e) of
       (None, k) \<Rightarrow> None
     | (Some _, k) \<Rightarrow> do {
         _ \<leftarrow> carriers e req;
         let e = e\<lparr>e_k := k\<rparr>; let req = req\<lparr>bios_pending := num_pages\<rparr>;
         Some (0, req, e, if num_pages = 0 then [] else [ReadIO req [0..<num_pages]]) })"

definition write_pages :: "afs_map_request \<Rightarrow> nat \<Rightarrow> engine \<Rightarrow> (int \<times> afs_map_request \<times> engine \<times> work list) option" where
  "write_pages req num_pages e = (case kmalloc (8 * num_pages) (e_k e) of
       (None, k) \<Rightarrow> None
     | (Some _, k) \<Rightarrow> do {
         _ \<leftarrow> carriers e req;
         let e = e\<lparr>e_k := k\<rparr>; let req = req\<lparr>bios_pending := num_pages\<rparr>;
         Some (0, req, e, if num_pages = 0 then [] else [WriteIO req [0..<num_pages]]) })"

text \<open>The end of one carrier bio: the kernel moves the page, then calls the completion handler. Whether
  the transfer succeeded is not looked at.\<close>

definition afs_read_endio :: "afs_map_request \<Rightarrow> nat list \<Rightarrow> work list" where
  "afs_read_endio req pend =
     (let req = req\<lparr>bios_pending := bios_pending req - 1\<rparr>
      in if bios_pending req = 0 then [Crypto req] else [ReadIO req pend])"

definition read_done :: "afs_map_request \<Rightarrow> nat list \<Rightarrow> nat \<Rightarrow> engine \<Rightarrow> (engine \<times> work list) option" where
  "read_done req pend i e = do {
     page \<leftarrow> carrier_blocks req ! i;
     let (page, k) = submit_bio_wait False (carrier_sector e (block_nums req ! i)) AFS_BLOCK_SIZE page (e_k e);
     let req = req\<lparr>carrier_blocks := (carrier_blocks req)[i := Some page]\<rparr>;
     Some (e\<lparr>e_k := k\<rparr>, afs_read_endio req (remove1 i pend)) }"

fun store_checksums :: "nat \<Rightarrow> nat \<Rightarrow> afs_map_request \<Rightarrow> engine \<Rightarrow> engine option" where
  "store_checksums 0 i req e = Some e"
| "store_checksums (Suc n) i req e = do {
     page \<leftarrow> carrier_blocks req ! i;
     c \<leftarrow> cityhash32_to_16 page 4096;
     e \<leftarrow> put_checksum e (map_entry req) i c;
     store_checksums n (Suc i) req e }"

text \<open>The digest of the data block is computed and not used.\<close>

definition afs_write_endio :: "afs_map_request \<Rightarrow> nat list \<Rightarrow> engine \<Rightarrow> (engine \<times> work list) option" where
  "afs_write_endio req pend e =
     (let req = req\<lparr>bios_pending := bios_pending req - 1\<rparr>
      in if bios_pending req = 0 then do {
           digest \<leftarrow> CityHash128 (data_block req) 0 4096;
           e \<leftarrow> store_checksums (ncar e) 0 req e;
           e \<leftarrow> afs_req_clean req e;
           Some (e, []) }
         else Some (e, [WriteIO req pend]))"

definition write_done :: "afs_map_request \<Rightarrow> nat list \<Rightarrow> nat \<Rightarrow> engine \<Rightarrow> (engine \<times> work list) option" where
  "write_done req pend i e = do {
     page \<leftarrow> carrier_blocks req ! i;
     let (page, k) = submit_bio_wait True (carrier_sector e (block_nums req ! i)) AFS_BLOCK_SIZE page (e_k e);
     afs_write_endio req (remove1 i pend) (e\<lparr>e_k := k\<rparr>) }"

section \<open>Encoding\<close>

text \<open>\<open>req->erasures[i] = i + '0'\<close> for every carrier block.\<close>

definition number_shares :: "nat \<Rightarrow> afs_map_request \<Rightarrow> afs_map_request option" where
  "number_shares n req =
     (if n \<le> length (req_erasures req)
      then Some (req\<lparr>req_erasures := blit (req_erasures req) 0 (map (\<lambda>i. of_nat (48 + i)) [0..<n])\<rparr>)
      else None)"

definition put_carriers :: "bytes list \<Rightarrow> afs_map_request \<Rightarrow> afs_map_request" where
  "put_carriers shares req =
     req\<lparr>carrier_blocks := map Some shares @ drop (length shares) (carrier_blocks req)\<rparr>"

text \<open>The result of the encoder is not looked at; a failed \<open>gfshare_ctx_init_enc\<close> is dereferenced.\<close>

definition encode_block :: "gf_ctx \<Rightarrow> afs_map_request \<Rightarrow> engine \<Rightarrow> (afs_map_request \<times> engine) option" where
  "encode_block c req e =
     (if req_encoding_type req = SHAMIR then do {
        shares \<leftarrow> carriers e req;
        let (enc, k) = gfshare_ctx_init_enc (req_erasures req) (ucast (num_carrier_blocks (config (e_ctx e)))) 2 4096 (e_k e);
        enc \<leftarrow> enc;
        let (shares, enc, k) = gfshare_ctx_enc_getshares enc (data_block req) shares k;
        Some ((put_carriers shares req)\<lparr>encoder := Some enc\<rparr>, e\<lparr>e_k := k\<rparr>) }
      else if req_encoding_type req = AONT_RS then
        (if ncar e < 2 then None
         else do {
           shares \<leftarrow> carriers e req;
           difference \<leftarrow> get_difference e (map_entry req);
           (ret, difference, shares, k) \<leftarrow>
             encode_aont_package c difference (data_block req) 4096 shares 2 (ncar e - 2) (u64s 2 (req_iv req)) (e_k e);
           e \<leftarrow> map_put (e\<lparr>e_k := k\<rparr>) (diff_pos e (map_entry req)) difference;
           Some (put_carriers shares req, e) })
      else Some (req, e))"

section \<open>Assigning carrier blocks\<close>

definition acquire :: "engine \<Rightarrow> (u32 \<times> engine) option" where
  "acquire e = do {
     (b, v, k) \<leftarrow> acquire_block (passive_fs (e_ctx e)) (vector (e_ctx e)) (e_k e);
     Some (b, e\<lparr>e_ctx := (e_ctx e)\<lparr>vector := v\<rparr>, e_k := k\<rparr>) }"

definition put_block_num :: "nat \<Rightarrow> u32 \<Rightarrow> afs_map_request \<Rightarrow> afs_map_request option" where
  "put_block_num i b req =
     (if i < length (block_nums req) then Some (req\<lparr>block_nums := (block_nums req)[i := b]\<rparr>) else None)"

fun assign_blocks :: "bool \<Rightarrow> nat \<Rightarrow> nat \<Rightarrow> afs_map_request \<Rightarrow> engine \<Rightarrow> (int \<times> afs_map_request \<times> engine) option" where
  "assign_blocks modification 0 i req e = Some (0, req, e)"
| "assign_blocks modification (Suc n) i req e = do {
     (block_num, e) \<leftarrow> (if modification then do { b \<leftarrow> get_ptr e (map_entry req) i; Some (b, e) } else acquire e);
     if block_num = AFS_INVALID_BLOCK then Some (- ENOSPC, req, e)
     else do {
       e \<leftarrow> put_ptr e (map_entry req) i block_num;
       req \<leftarrow> put_block_num i block_num req;
       assign_blocks modification n (Suc i) req e } }"

fun reset_entry :: "nat \<Rightarrow> nat \<Rightarrow> nat \<Rightarrow> engine \<Rightarrow> engine option" where
  "reset_entry entry 0 i e = Some e"
| "reset_entry entry (Suc n) i e = do {
     b \<leftarrow> get_ptr e entry i;
     let e = (if b \<noteq> AFS_INVALID_BLOCK
       then e\<lparr>e_ctx := (e_ctx e)\<lparr>vector := allocation_free (vector (e_ctx e)) b\<rparr>\<rparr> else e);
     e \<leftarrow> put_ptr e entry i AFS_INVALID_BLOCK;
     reset_entry entry n (Suc i) e }"

section \<open>Rebuilding\<close>

text \<open>After a new block is found for carrier \<open>i\<close>, the data block is copied over its page.\<close>

fun reassign_blocks :: "nat \<Rightarrow> nat \<Rightarrow> afs_map_request \<Rightarrow> engine \<Rightarrow> (int \<times> afs_map_request \<times> engine) option" where
  "reassign_blocks 0 i req e = Some (0, req, e)"
| "reassign_blocks (Suc n) i req e = do {
     (block_num, e) \<leftarrow> acquire e;
     if block_num = AFS_INVALID_BLOCK then Some (- ENOSPC, req, e)
     else do {
       e \<leftarrow> put_ptr e (map_entry req) i block_num;
       req \<leftarrow> put_block_num i block_num req;
       page \<leftarrow> carrier_blocks req ! i;
       page \<leftarrow> poke page 0 (take 4096 (data_block req));
       reassign_blocks n (Suc i) (req\<lparr>carrier_blocks := (carrier_blocks req)[i := Some page]\<rparr>) e } }"

definition rebuild_blocks :: "gf_ctx \<Rightarrow> afs_map_request \<Rightarrow> engine \<Rightarrow> (int \<times> afs_map_request \<times> engine \<times> work list) option" where
  "rebuild_blocks c req e = do {
     req \<leftarrow> number_shares (ncar e) req;
     (req, e) \<leftarrow> encode_block c req e;
     (ret, req, e) \<leftarrow> reassign_blocks (ncar e) 0 req e;
     (ret, req, e, ws) \<leftarrow> (if ret \<noteq> 0 then Some (ret, req, e, []) else do {
       (ret, req, e, ws) \<leftarrow> write_pages req (ncar e) e;
       Some (if ret \<noteq> 0 then - EIO else 0, req, e, ws) });
     if ret = 0 then Some (0, req, e, ws)
     else do {
       e \<leftarrow> reset_entry (map_entry req) (ncar e) 0 e;
       let (req, e) = (if req_encoding_type req = SHAMIR
         then (req\<lparr>encoder := None\<rparr>, free_encoder (encoder req) e) else (req, e));
       Some (ret, req, e, ws) } }"

section \<open>Decoding\<close>

text \<open>Comparing the checksums; a mismatch sets the flag and the share number \<open>'0'\<close>.\<close>

fun check_carriers :: "nat \<Rightarrow> nat \<Rightarrow> afs_map_request \<Rightarrow> engine \<Rightarrow> afs_map_request option" where
  "check_carriers 0 i req e = Some req"
| "check_carriers (Suc n) i req e = do {
     page \<leftarrow> carrier_blocks req ! i;
     sum \<leftarrow> cityhash32_to_16 page 4096;
     stored \<leftarrow> get_checksum e (map_entry req) i;
     check_carriers n (Suc i)
       (if stored \<noteq> sum then req\<lparr>rebuild_flag := 1, req_erasures := (req_erasures req)[i := 48]\<rparr> else req) e }"

text \<open>The decoder gets \<open>num_erasures\<close>, which nothing sets after \<open>init_request\<close>.\<close>

definition decode_block :: "gf_ctx \<Rightarrow> afs_map_request \<Rightarrow> engine \<Rightarrow> (afs_map_request \<times> engine) option" where
  "decode_block c req e =
     (if req_encoding_type req = SHAMIR then do {
        enc \<leftarrow> encoder req;
        shares \<leftarrow> carriers e req;
        let (data, enc) = gfshare_ctx_dec_decode enc (req_erasures req) shares (data_block req);
        Some (req\<lparr>data_block := data, encoder := Some enc\<rparr>, e) }
      else if req_encoding_type req = AONT_RS then
        (if ncar e < 2 then None
         else do {
           shares \<leftarrow> carriers e req;
           difference \<leftarrow> get_difference e (map_entry req);
           (ret, difference, data, shares, k) \<leftarrow>
             decode_aont_package c difference (data_block req) 4096 shares 2 (ncar e - 2) (u64s 2 (req_iv req))
               (take (unat (num_erasures req)) (req_erasures req)) (e_k e);
           e \<leftarrow> map_put (e\<lparr>e_k := k\<rparr>) (diff_pos e (map_entry req)) difference;
           Some ((put_carriers shares req)\<lparr>data_block := data\<rparr>, e) })
      else Some (req, e))"

definition afs_read_decode :: "gf_ctx \<Rightarrow> afs_map_request \<Rightarrow> engine \<Rightarrow> (int \<times> engine \<times> work list) option" where
  "afs_read_decode c req e = do {
     req \<leftarrow> check_carriers (ncar e) 0 req e;
     (req, e) \<leftarrow> decode_block c req e;
     b \<leftarrow> (case req_bio req of Bio b \<Rightarrow> Some b | _ \<Rightarrow> None);
     b \<leftarrow> bio_fill req b;
     let req = req\<lparr>req_bio := Bio b\<rparr>;
     if rebuild_flag req \<noteq> 0 then do {
       (ret, req, e, ws) \<leftarrow> rebuild_blocks c req e;
       Some (0, e, ws) }
     else do {
       e \<leftarrow> afs_req_clean req e;
       Some (0, e, []) } }"

section \<open>Requests from above\<close>

fun load_block_nums :: "nat \<Rightarrow> nat \<Rightarrow> afs_map_request \<Rightarrow> engine \<Rightarrow> afs_map_request option" where
  "load_block_nums 0 i req e = Some req"
| "load_block_nums (Suc n) i req e = do {
     b \<leftarrow> get_ptr e (map_entry req) i;
     req \<leftarrow> put_block_num i b req;
     load_block_nums n (Suc i) (req\<lparr>req_erasures := (req_erasures req)[i := of_nat (48 + i)]\<rparr>) e }"

text \<open>Put the reads of an allocated block under way; shared by \<open>afs_read_request\<close> and
  \<open>afs_rebuild_request\<close>.\<close>

definition start_reads :: "afs_map_request \<Rightarrow> engine \<Rightarrow> (int \<times> afs_map_request \<times> engine \<times> work list) option" where
  "start_reads req e = do {
     let (req, e) = (if req_encoding_type req = SHAMIR then
         (let (enc, k) = gfshare_ctx_init_dec (req_erasures req) (ucast (num_carrier_blocks (config (e_ctx e)))) 2 4096 (e_k e)
          in (req\<lparr>encoder := enc\<rparr>, e\<lparr>e_k := k\<rparr>)) else (req, e));
     req \<leftarrow> load_block_nums (ncar e) 0 req e;
     (ret, req, e, ws) \<leftarrow> read_pages req (ncar e) e;
     Some (if ret \<noteq> 0 then - EIO else 0, req, e, ws) }"

definition afs_rebuild_request :: "afs_map_request \<Rightarrow> engine \<Rightarrow> (int \<times> afs_map_request \<times> engine \<times> work list) option" where
  "afs_rebuild_request req e =
     (if req_state req \<noteq> REQ_STATE_FLIGHT then Some (- EINVAL, req, e, [])
      else do {
        let req = req\<lparr>map_entry := afs_get_map_entry (config (e_ctx e)) (req_block req)\<rparr>;
        b0 \<leftarrow> get_ptr e (map_entry req) 0;
        if b0 = AFS_INVALID_BLOCK then do { e \<leftarrow> afs_req_clean req e; Some (0, req, e, []) }
        else start_reads req e })"

definition afs_read_request :: "afs_map_request \<Rightarrow> engine \<Rightarrow> (int \<times> afs_map_request \<times> engine \<times> work list) option" where
  "afs_read_request req e =
     (case req_bio req of
        WildBio \<Rightarrow> None
      | NullBio \<Rightarrow> Some (- EIO, req, e, [])
      | Bio b \<Rightarrow>
          if req_state req \<noteq> REQ_STATE_FLIGHT then Some (- EINVAL, req, e, [])
          else do {
            let req = req\<lparr>map_entry := afs_get_map_entry (config (e_ctx e)) (req_block req)\<rparr>;
            b0 \<leftarrow> get_ptr e (map_entry req) 0;
            if b0 = AFS_INVALID_BLOCK then do {
              let req = req\<lparr>data_block := replicate 4096 0\<rparr>;
              b \<leftarrow> bio_fill req b;
              e \<leftarrow> afs_req_clean (req\<lparr>req_bio := Bio b\<rparr>) e;
              Some (0, req, e, []) }
            else start_reads req e })"

text \<open>There is no read of the old block before a modification: the call is commented out.\<close>

definition afs_write_request :: "gf_ctx \<Rightarrow> afs_map_request \<Rightarrow> bio \<Rightarrow> engine \<Rightarrow> (int \<times> afs_map_request \<times> engine \<times> work list) option" where
  "afs_write_request c req b e =
     (if req_state req \<noteq> REQ_STATE_FLIGHT then Some (- EINVAL, req, e, [])
      else do {
        let req = req\<lparr>map_entry := afs_get_map_entry (config (e_ctx e)) (req_block req)\<rparr>;
        b0 \<leftarrow> get_ptr e (map_entry req) 0;
        let modification = (b0 \<noteq> AFS_INVALID_BLOCK);
        data \<leftarrow> bio_take req b;
        req \<leftarrow> number_shares (ncar e) (req\<lparr>data_block := data\<rparr>);
        (req, e) \<leftarrow> encode_block c req e;
        (ret, req, e) \<leftarrow> assign_blocks modification (ncar e) 0 req e;
        (ret, req, e, ws) \<leftarrow> (if ret \<noteq> 0 then Some (ret, req, e, []) else do {
          (ret, req, e, ws) \<leftarrow> write_pages req (ncar e) e;
          Some (if ret \<noteq> 0 then - EIO else 0, req, e, ws) });
        if ret = 0 then Some (0, req, e, ws)
        else do {
          e \<leftarrow> reset_entry (map_entry req) (ncar e) 0 e;
          let e = (if req_encoding_type req = SHAMIR then free_encoder (encoder req) e else e);
          Some (ret, req\<lparr>encoder := None\<rparr>, e, ws) } })"

end
