(* ===== verification/Afs_Dispatch.thy ===== *)
theory Afs_Dispatch
  imports Afs_Engine "HOL-Library.Multiset"
begin

text \<open>
  The request path of the target, \<open>src/src/dm_afs.c\<close>: the work functions of the three work queues, the
  creation of requests, \<open>afs_map\<close>, \<open>afs_rebuild\<close>, and the machine they form. A step of the machine runs
  one work item, or completes one carrier bio, in any order; a work function is one step (the map entry,
  the allocation vector and the request it touches are not touched in between).
\<close>

section \<open>Work functions\<close>

text \<open>A work item that runs is not pending again: nothing queues it twice.\<close>

definition afs_flightq :: "gf_ctx \<Rightarrow> afs_map_request \<Rightarrow> engine \<Rightarrow> (engine \<times> work list) option" where
  "afs_flightq c req e =
     (case req_bio req of
        Bio b \<Rightarrow> do {
          (ret, req, e, ws) \<leftarrow>
            (case bio_op b of
               REQ_OP_READ \<Rightarrow> afs_read_request (req\<lparr>req_state := REQ_STATE_FLIGHT\<rparr>) e
             | REQ_OP_WRITE \<Rightarrow> afs_write_request c (req\<lparr>req_state := REQ_STATE_FLIGHT\<rparr>) b e
             | _ \<Rightarrow> Some (- EINVAL, req, e, []));
          if ret = 0 then Some (e, ws)
          else do { e \<leftarrow> afs_req_clean req e; Some (e, ws) } }
      | _ \<Rightarrow> None)"

definition afs_rebuildq :: "afs_map_request \<Rightarrow> engine \<Rightarrow> (engine \<times> work list) option" where
  "afs_rebuildq req e = do {
     (ret, req, e, ws) \<leftarrow> afs_rebuild_request (req\<lparr>req_state := REQ_STATE_FLIGHT\<rparr>) e;
     if ret = 0 then Some (e, ws)
     else do { e \<leftarrow> afs_req_clean req e; Some (e, ws) } }"

text \<open>\<open>afs_read_decode\<close> always returns 0, so the cleanup on an error is never reached.\<close>

definition afs_cryptoq :: "gf_ctx \<Rightarrow> afs_map_request \<Rightarrow> engine \<Rightarrow> (engine \<times> work list) option" where
  "afs_cryptoq c req e = do {
     (ret, e, ws) \<leftarrow> afs_read_decode c req e;
     if ret = 0 then Some (e, ws) else do { e \<leftarrow> afs_req_clean req e; Some (e, ws) } }"

section \<open>New requests\<close>

text \<open>The memory of a request is not cleared: the data block, the share numbers, the block numbers and
  the bio pointer hold what was there. The offsets of these fields do not matter, since the contents
  are arbitrary.\<close>

definition get_free_page :: "kernel \<Rightarrow> bytes option \<times> kernel" where
  "get_free_page k = kmalloc 4096 k"

fun get_carriers :: "nat \<Rightarrow> nat \<Rightarrow> afs_map_request \<Rightarrow> kernel \<Rightarrow> (afs_map_request \<times> kernel) option" where
  "get_carriers 0 i req k = Some (req, k)"
| "get_carriers (Suc n) i req k =
     (if i < length (carrier_blocks req) then
        (case get_free_page k of (p, k) \<Rightarrow>
           get_carriers n (Suc i) (req\<lparr>carrier_blocks := (carrier_blocks req)[i := p]\<rparr>) k)
      else None)"

definition raw_request :: "(nat \<Rightarrow> u8) \<Rightarrow> afs_map_request" where
  "raw_request junk = \<lparr>carrier_blocks = replicate NUM_MAX_CARRIER_BLKS None, data_block = map junk [0..<4096],
     req_state = 0, req_bio = (if \<forall>i \<in> {4096..<4104}. junk i = 0 then NullBio else WildBio),
     bios_pending = 0, map_entry = 0, allocated_write_page = None, encoder = None, req_encoding_type = junk 4104,
     req_erasures = map junk [4105..<4113], num_erasures = junk 4113, req_iv = map junk [4114..<4130],
     req_block = le_word (map junk [4130..<4134]), request_size = le_word (map junk [4134..<4138]),
     req_sector_offset = le_word (map junk [4138..<4142]),
     block_nums = u32s NUM_MAX_CARRIER_BLKS (map junk [4142..<4174]), rebuild_flag = unat (junk 4174)\<rparr>"

definition init_request :: "afs_private \<Rightarrow> kernel \<Rightarrow> (afs_map_request option \<times> kernel) option" where
  "init_request ctx k =
     (let junk = k_junk k (k_allocs k) in
      case kmalloc 4175 k of
        (None, k) \<Rightarrow> Some (None, k)
      | (Some _, k) \<Rightarrow> do {
          let req = (raw_request junk)\<lparr>allocated_write_page := None, encoder := None, num_erasures := 0,
            req_encoding_type := encoding_type ctx, req_iv := take 16 (passphrase_hash ctx), rebuild_flag := 0,
            req_state := REQ_STATE_GROUND\<rparr>;
          (req, k) \<leftarrow> get_carriers (unat (num_carrier_blocks (config ctx))) 0 req k;
          Some (Some req, k) })"

section \<open>The map function of the target\<close>

datatype dm_mapio = DM_MAPIO_SUBMITTED | DM_MAPIO_KILL

definition bio_sectors :: "bio \<Rightarrow> u32" where
  "bio_sectors b = drop_bit 9 (bi_size b)"

definition dm_accept_partial_bio :: "bio \<Rightarrow> u32 \<Rightarrow> bio" where
  "dm_accept_partial_bio b n = b\<lparr>bi_size := push_bit 9 n\<rparr>"

text \<open>Only the part of a bio that lies in its first block is accepted.\<close>

definition trim_bio :: "bio \<Rightarrow> bio" where
  "trim_bio b =
     (let sector_offset = ucast (bi_sector b mod 8); max_sector_count = AFS_SECTORS_PER_BLOCK - sector_offset
      in if bio_sectors b > max_sector_count then dm_accept_partial_bio b max_sector_count else b)"

text \<open>With \<open>override\<close> set, \<open>__clone_bio\<close> returns its argument.\<close>

definition clone_bio :: "bio \<Rightarrow> bio" where
  "clone_bio b = b"

text \<open>A flush waits while a request for its block is queued: \<open>None\<close> is a call that does not return (or a
  fault). The request made before the \<open>switch\<close> is not used, and not freed, by a flush.\<close>

definition afs_map_bio :: "bio \<Rightarrow> engine \<Rightarrow> (dm_mapio \<times> engine \<times> work list) option" where
  "afs_map_bio b e =
     (let b = trim_bio b in do {
        (req, k) \<leftarrow> init_request (e_ctx e) (e_k e);
        let e = e\<lparr>e_k := k\<rparr>;
        case req of
          None \<Rightarrow> Some (DM_MAPIO_KILL, bio_endio b e, [])
        | Some req \<Rightarrow>
            if bio_op b = REQ_OP_READ \<or> bio_op b = REQ_OP_WRITE then
              Some (DM_MAPIO_SUBMITTED, e,
                [Flight (req\<lparr>req_bio := Bio (clone_bio b), req_block := ucast (bi_sector b div 8),
                   req_sector_offset := ucast (bi_sector b mod 8),
                   request_size := bio_sectors b * AFS_SECTOR_SIZE\<rparr>)])
            else if bio_op b = REQ_OP_FLUSH then
              (if afs_eq_req_exist (e_flight_eq e) b \<noteq> None then None
               else Some (DM_MAPIO_SUBMITTED, bio_endio b e, []))
            else Some (DM_MAPIO_KILL, bio_endio b e, []) })"

text \<open>\<open>afs_rebuild\<close> queues a request for every block of the volume; its \<open>bio\<close> is never set.\<close>

fun rebuild_loop :: "nat \<Rightarrow> nat \<Rightarrow> engine \<Rightarrow> (engine \<times> work list) option" where
  "rebuild_loop 0 i e = Some (e, [])"
| "rebuild_loop (Suc n) i e = do {
     (req, k) \<leftarrow> init_request (e_ctx e) (e_k e);
     req \<leftarrow> req;
     (e, ws) \<leftarrow> rebuild_loop n (Suc i) (e\<lparr>e_k := k\<rparr>);
     Some (e, Rebuild (req\<lparr>req_block := of_nat i, req_sector_offset := 0, request_size := AFS_BLOCK_SIZE\<rparr>) # ws) }"

definition afs_rebuild :: "engine \<Rightarrow> (engine \<times> work list) option" where
  "afs_rebuild e = rebuild_loop (unat (num_blocks (config (e_ctx e)))) 0 e"

section \<open>The machine\<close>

text \<open>\<open>run_work c w i e\<close>: one step of the work item; \<open>i\<close> picks the carrier bio that completes next.\<close>

fun run_work :: "gf_ctx \<Rightarrow> work \<Rightarrow> nat \<Rightarrow> engine \<Rightarrow> (engine \<times> work list) option" where
  "run_work c (Flight req) i e = afs_flightq c req e"
| "run_work c (Rebuild req) i e = afs_rebuildq req e"
| "run_work c (Crypto req) i e = afs_cryptoq c req e"
| "run_work c (ReadIO req pend) i e = (if i \<in> set pend then read_done req pend i e else None)"
| "run_work c (WriteIO req pend) i e = (if i \<in> set pend then write_done req pend i e else None)"

inductive afs_step :: "gf_ctx \<Rightarrow> engine \<times> work list \<Rightarrow> engine \<times> work list \<Rightarrow> bool" for c where
  afs_step_run: "run_work c w i e = Some (e', ws) \<Longrightarrow> afs_step c (e, us @ w # vs) (e', us @ ws @ vs)"

inductive_cases afs_step_elim: "afs_step c s t"

abbreviation afs_steps :: "gf_ctx \<Rightarrow> engine \<times> work list \<Rightarrow> engine \<times> work list \<Rightarrow> bool" where
  "afs_steps c \<equiv> (afs_step c)\<^sup>*\<^sup>*"

section \<open>What the operations leave alone\<close>

definition frame :: "engine \<Rightarrow> engine \<Rightarrow> bool" where
  "frame e e' \<longleftrightarrow> config (e_ctx e') = config (e_ctx e) \<and> passive_fs (e_ctx e') = passive_fs (e_ctx e) \<and>
     passphrase_hash (e_ctx e') = passphrase_hash (e_ctx e) \<and> encoding_type (e_ctx e') = encoding_type (e_ctx e) \<and>
     e_flight_eq e' = e_flight_eq e \<and> e_rebuild_eq e' = e_rebuild_eq e \<and> e_ended e' = e_ended e"

lemma frame_refl [simp]: "frame e e"
  by (simp add: frame_def)

lemma frame_trans [trans]: "frame e e1 \<Longrightarrow> frame e1 e2 \<Longrightarrow> frame e e2"
  by (simp add: frame_def)

lemma frame_k [simp]: "frame e (e1\<lparr>e_k := k\<rparr>) = frame e e1" "frame (e\<lparr>e_k := k\<rparr>) e1 = frame e e1"
  by (simp_all add: frame_def)

lemma frame_vector [simp]: "frame e (e1\<lparr>e_ctx := (e_ctx e1)\<lparr>vector := v\<rparr>\<rparr>) = frame e e1"
  by (simp add: frame_def)

lemma frame_vector_left [simp]: "frame (e\<lparr>e_ctx := (e_ctx e)\<lparr>vector := v\<rparr>\<rparr>) e1 = frame e e1"
  by (simp add: frame_def)

lemma frame_vector_k [simp]: "frame e (e1\<lparr>e_ctx := (e_ctx e1)\<lparr>vector := v\<rparr>, e_k := k\<rparr>) = frame e e1"
  by (simp add: frame_def)

lemma frame_ncar: "frame e e' \<Longrightarrow> ncar e' = ncar e"
  by (simp add: frame_def)

lemma frame_ended: "frame e e' \<Longrightarrow> e_ended e' = e_ended e"
  by (simp add: frame_def)

named_theorems frames \<open>operations that leave the frame alone\<close>

lemma map_put_frame [frames]: "map_put e pos bs = Some e' \<Longrightarrow> frame e e'"
  by (auto simp: map_put_def frame_def split: bind_splits)

lemma put_ptr_frame [frames]: "put_ptr e entry i b = Some e' \<Longrightarrow> frame e e'"
  by (simp add: put_ptr_def frames)

lemma put_checksum_frame [frames]: "put_checksum e entry i b = Some e' \<Longrightarrow> frame e e'"
  by (simp add: put_checksum_def frames)

lemma free_encoder_frame [simp]: "frame e (free_encoder enc e1) = frame e e1"
  by (simp add: free_encoder_def split: option.split)

lemma acquire_frame [frames]: "acquire e = Some (b, e') \<Longrightarrow> frame e e'"
  by (auto simp: acquire_def split: bind_splits)

lemma store_checksums_frame [frames]: "store_checksums n i req e = Some e' \<Longrightarrow> frame e e'"
proof (induction n arbitrary: i e)
  case (Suc n)
  then show ?case by (auto split: bind_splits dest!: frames(3) intro: frame_trans)
qed simp

lemma reset_entry_frame [frames]: "reset_entry entry n i e = Some e' \<Longrightarrow> frame e e'"
proof (induction n arbitrary: i e)
  case (Suc n)
  then show ?case
    by (auto simp: Let_def split: bind_splits if_splits dest!: put_ptr_frame intro: frame_trans)
qed simp

lemma put_block_num_bio: "put_block_num i b req = Some req' \<Longrightarrow> req_bio req' = req_bio req"
  by (auto simp: put_block_num_def split: if_splits)

lemma assign_blocks_frame [frames]:
  "assign_blocks m n i req e = Some (ret, req', e') \<Longrightarrow> frame e e' \<and> req_bio req' = req_bio req"
proof (induction n arbitrary: i req e)
  case (Suc n)
  then show ?case
    by (fastforce split: bind_splits if_splits dest!: put_ptr_frame acquire_frame put_block_num_bio intro: frame_trans)
qed simp

lemma reassign_blocks_frame [frames]:
  "reassign_blocks n i req e = Some (ret, req', e') \<Longrightarrow> frame e e' \<and> req_bio req' = req_bio req"
proof (induction n arbitrary: i req e)
  case (Suc n)
  then show ?case
    by (fastforce split: bind_splits if_splits dest!: put_ptr_frame acquire_frame put_block_num_bio intro: frame_trans)
qed simp

lemma encode_block_frame [frames]:
  "encode_block c req e = Some (req', e') \<Longrightarrow> frame e e' \<and> req_bio req' = req_bio req"
  by (auto simp: encode_block_def put_carriers_def split: bind_splits if_splits prod.splits dest!: map_put_frame)

lemma decode_block_frame [frames]:
  "decode_block c req e = Some (req', e') \<Longrightarrow> frame e e' \<and> req_bio req' = req_bio req"
  by (auto simp: decode_block_def put_carriers_def split: bind_splits if_splits prod.splits dest!: map_put_frame)

lemma check_carriers_bio: "check_carriers n i req e = Some req' \<Longrightarrow> req_bio req' = req_bio req"
proof (induction n arbitrary: i req)
  case (Suc n)
  then show ?case by (fastforce split: bind_splits if_splits)
qed simp

lemma load_block_nums_bio: "load_block_nums n i req e = Some req' \<Longrightarrow> req_bio req' = req_bio req"
proof (induction n arbitrary: i req)
  case (Suc n)
  then show ?case by (fastforce split: bind_splits dest!: put_block_num_bio)
qed simp

lemma number_shares_bio: "number_shares n req = Some req' \<Longrightarrow> req_bio req' = req_bio req"
  by (auto simp: number_shares_def split: if_splits)

section \<open>Every step makes progress, and a bio is handed back once\<close>

text \<open>What a work item can still cost, with \<open>n\<close> carrier blocks.\<close>

fun work_size :: "nat \<Rightarrow> work \<Rightarrow> nat" where
  "work_size n (Flight req) = 2 * n + 4"
| "work_size n (Rebuild req) = 2 * n + 4"
| "work_size n (ReadIO req pend) = length pend + n + 3"
| "work_size n (Crypto req) = n + 2"
| "work_size n (WriteIO req pend) = length pend + 1"

fun work_req :: "work \<Rightarrow> afs_map_request" where
  "work_req (Flight req) = req"
| "work_req (Rebuild req) = req"
| "work_req (ReadIO req pend) = req"
| "work_req (Crypto req) = req"
| "work_req (WriteIO req pend) = req"

text \<open>A bio is known by its operation and place; a read fills its segments.\<close>

definition bio_id :: "bio \<Rightarrow> req_op \<times> u64 \<times> u32" where
  "bio_id b = (bio_op b, bi_sector b, bi_size b)"

fun ptr_ids :: "bio_ptr \<Rightarrow> (req_op \<times> u64 \<times> u32) multiset" where
  "ptr_ids (Bio b) = {#bio_id b#}"
| "ptr_ids NullBio = {#}"
| "ptr_ids WildBio = {#}"

definition work_ids :: "work list \<Rightarrow> (req_op \<times> u64 \<times> u32) multiset" where
  "work_ids ws = (\<Sum>w\<leftarrow>ws. ptr_ids (req_bio (work_req w)))"

definition ended_ids :: "engine \<Rightarrow> (req_op \<times> u64 \<times> u32) multiset" where
  "ended_ids e = mset (map bio_id (e_ended e))"

definition progress :: "engine \<Rightarrow> bio_ptr \<Rightarrow> nat \<Rightarrow> engine \<Rightarrow> work list \<Rightarrow> bool" where
  "progress e p m e' ws \<longleftrightarrow> config (e_ctx e') = config (e_ctx e) \<and>
     (\<Sum>w\<leftarrow>ws. work_size (ncar e) w) < m \<and> ended_ids e' + work_ids ws \<subseteq># ended_ids e + ptr_ids p"

lemma progressI:
  assumes "frame e e'" "(\<Sum>w\<leftarrow>ws. work_size (ncar e) w) < m" "work_ids ws \<subseteq># ptr_ids p"
  shows "progress e p m e' ws"
  using assms by (simp add: progress_def frame_def ended_ids_def)

lemma work_ids_simps [simp]: "work_ids [] = {#}" "work_ids (w # ws) = ptr_ids (req_bio (work_req w)) + work_ids ws"
  "work_ids (us @ ws) = work_ids us + work_ids ws"
  by (simp_all add: work_ids_def)

lemma afs_req_clean_progress:
  assumes "afs_req_clean req e1 = Some e'" "frame e e1" "ptr_ids (req_bio req) \<subseteq># ptr_ids p" "0 < m"
  shows "progress e p m e' []"
  using assms
  by (auto simp: afs_req_clean_def free_encoder_def bio_endio_def progress_def frame_def ended_ids_def
      split: bio_ptr.splits option.splits)

lemma read_pages_progress:
  assumes "read_pages req (ncar e1) e1 = Some (ret, req', e', ws)" "frame e e1" "ptr_ids (req_bio req) \<subseteq># ptr_ids p"
    "2 * ncar e + 3 < m"
  shows "progress e p m e' ws"
  using assms frame_ncar [OF assms(2)]
  by (intro progressI) (auto simp: read_pages_def Let_def split: prod.splits option.splits bind_splits if_splits)

lemma write_pages_progress:
  assumes "write_pages req (ncar e1) e1 = Some (ret, req', e', ws)" "frame e e1" "ptr_ids (req_bio req) \<subseteq># ptr_ids p"
    "ncar e + 1 < m"
  shows "progress e p m e' ws"
  using assms frame_ncar [OF assms(2)]
  by (intro progressI) (auto simp: write_pages_def Let_def split: prod.splits option.splits bind_splits if_splits)

lemma write_pages_ret: "write_pages req n e = Some (ret, req', e', ws) \<Longrightarrow> ret = 0 \<and> frame e e' \<and> req_bio req' = req_bio req"
  by (auto simp: write_pages_def Let_def split: prod.splits option.splits bind_splits)

lemma read_pages_ret: "read_pages req n e = Some (ret, req', e', ws) \<Longrightarrow> ret = 0 \<and> frame e e' \<and> req_bio req' = req_bio req"
  by (auto simp: read_pages_def Let_def split: prod.splits option.splits bind_splits)

lemma rebuild_blocks_progress:
  assumes "rebuild_blocks c req e1 = Some (ret, req', e', ws)" "frame e e1" "ptr_ids (req_bio req) \<subseteq># ptr_ids p"
    "ncar e + 1 < m"
  shows "progress e p m e' ws"
proof -
  obtain r1 r2 e2 ret3 r3 e3 where r: "number_shares (ncar e1) req = Some r1" "encode_block c r1 e1 = Some (r2, e2)"
      "reassign_blocks (ncar e2) 0 r2 e2 = Some (ret3, r3, e3)"
    using assms(1) by (auto simp: rebuild_blocks_def split: bind_splits)
  have f: "frame e e3" "req_bio r3 = req_bio req"
    using number_shares_bio [OF r(1)] encode_block_frame [OF r(2)] reassign_blocks_frame [OF r(3)] assms(2)
    by (auto intro: frame_trans)
  show ?thesis
  proof (cases "ret3 = 0")
    case True
    then obtain ret4 req4 e4 ws4 where w: "write_pages r3 (ncar e3) e3 = Some (ret4, req4, e4, ws4)"
      using assms(1) r by (auto simp: rebuild_blocks_def split: bind_splits)
    then have "ret4 = 0" using write_pages_ret by blast
    then have "e4 = e'" "ws4 = ws" using assms(1) r w True by (simp_all add: rebuild_blocks_def)
    then show ?thesis using w f assms(3,4) by (intro write_pages_progress [of r3 e3 ret4 req4]) simp_all
  next
    case False
    then obtain e4 where "reset_entry (map_entry r3) (ncar e3) 0 e3 = Some e4" "ws = []" "frame e4 e'"
      using assms(1) r by (auto simp: rebuild_blocks_def Let_def split: bind_splits if_splits)
    moreover from this have "frame e e'" using f(1) reset_entry_frame frame_trans by meson
    ultimately show ?thesis using assms(4) by (intro progressI) simp_all
  qed
qed

lemma start_reads_progress:
  assumes "start_reads req e1 = Some (ret, req', e', ws)" "frame e e1" "ptr_ids (req_bio req) \<subseteq># ptr_ids p"
    "2 * ncar e + 3 < m"
  shows "progress e p m e' ws \<and> ret = 0"
proof -
  define s where "s = (if req_encoding_type req = SHAMIR then
      (case gfshare_ctx_init_dec (req_erasures req) (ucast (num_carrier_blocks (config (e_ctx e1)))) 2 4096 (e_k e1) of
        (enc, k) \<Rightarrow> (req\<lparr>encoder := enc\<rparr>, e1\<lparr>e_k := k\<rparr>)) else (req, e1))"
  obtain r1 e2 where s: "s = (r1, e2)" by fastforce
  then have r1: "frame e1 e2" "req_bio r1 = req_bio req" by (auto simp: s_def split: if_splits prod.splits)
  have run: "start_reads req e1 = do {
      r2 \<leftarrow> load_block_nums (ncar e2) 0 r1 e2; (ret, r3, e', ws) \<leftarrow> read_pages r2 (ncar e2) e2;
      Some (if ret \<noteq> 0 then - EIO else 0, r3, e', ws) }"
    using s by (auto simp: start_reads_def s_def Let_def split: if_splits prod.splits)
  obtain r2 r3 ret' where r: "load_block_nums (ncar e2) 0 r1 e2 = Some r2"
      "read_pages r2 (ncar e2) e2 = Some (ret', r3, e', ws)" "ret = (if ret' \<noteq> 0 then - EIO else 0)"
    using assms(1) unfolding run by (auto split: bind_splits)
  have f: "frame e e2" "req_bio r2 = req_bio req" using r1 load_block_nums_bio [OF r(1)] frame_trans [OF assms(2)] by auto
  have "progress e p m e' ws" by (rule read_pages_progress [OF r(2) f(1)]) (use f assms(3,4) in auto)
  then show ?thesis using r(3) read_pages_ret [OF r(2)] by simp
qed

lemma bio_fill_id: "bio_fill req b = Some b' \<Longrightarrow> bio_id b' = bio_id b"
  by (auto simp: bio_fill_def bio_id_def split: bind_splits)

lemma afs_read_decode_progress:
  assumes "afs_read_decode c req e = Some (ret, e', ws)" "ncar e + 1 < m"
  shows "progress e (req_bio req) m e' ws \<and> ret = 0"
proof -
  obtain r1 r2 e2 b b' where r: "check_carriers (ncar e) 0 req e = Some r1" "decode_block c r1 e = Some (r2, e2)"
      "req_bio r2 = Bio b" "bio_fill r2 b = Some b'"
    using assms(1) by (auto simp: afs_read_decode_def split: bind_splits bio_ptr.splits)
  have f: "frame e e2" "req_bio req = Bio b"
    using check_carriers_bio [OF r(1)] decode_block_frame [OF r(2)] r(3) by auto
  have ids: "ptr_ids (req_bio (r2\<lparr>req_bio := Bio b'\<rparr>)) \<subseteq># ptr_ids (req_bio req)"
    using f(2) bio_fill_id [OF r(4)] by simp
  consider ret' r4 where "rebuild_blocks c (r2\<lparr>req_bio := Bio b'\<rparr>) e2 = Some (ret', r4, e', ws)" "ret = 0"
    | "afs_req_clean (r2\<lparr>req_bio := Bio b'\<rparr>) e2 = Some e'" "ws = []" "ret = 0"
    using assms(1) r by (auto simp: afs_read_decode_def Let_def split: bind_splits if_splits)
  then show ?thesis
  proof cases
    case 1
    then show ?thesis using rebuild_blocks_progress [OF 1(1) f(1) ids assms(2)] by simp
  next
    case 2
    then show ?thesis using afs_req_clean_progress [OF 2(1) f(1) ids] assms(2) by simp
  qed
qed

lemma afs_rebuild_request_progress:
  assumes "afs_rebuild_request req e = Some (ret, req', e', ws)" "2 * ncar e + 3 < m"
  shows "if ret = 0 then progress e (req_bio req) m e' ws else frame e e' \<and> ws = [] \<and> req_bio req' = req_bio req"
proof (cases "req_state req = REQ_STATE_FLIGHT")
  case False
  then show ?thesis using assms(1) by (auto simp: afs_rebuild_request_def EINVAL_def)
next
  case True
  define r1 where "r1 = req\<lparr>map_entry := afs_get_map_entry (config (e_ctx e)) (req_block req)\<rparr>"
  consider "afs_req_clean r1 e = Some e'" "ws = []" "ret = 0" | "start_reads r1 e = Some (ret, req', e', ws)"
    using assms(1) True by (auto simp: afs_rebuild_request_def Let_def r1_def split: bind_splits if_splits)
  then show ?thesis
  proof cases
    case 1
    then show ?thesis using afs_req_clean_progress [OF 1(1) frame_refl, of "req_bio req" m] assms(2) by (simp add: r1_def)
  next
    case 2
    then show ?thesis using start_reads_progress [OF 2 frame_refl, of "req_bio req" m] assms(2) by (simp add: r1_def)
  qed
qed

lemma afs_read_request_progress:
  assumes "afs_read_request req e = Some (ret, req', e', ws)" "2 * ncar e + 3 < m"
  shows "if ret = 0 then progress e (req_bio req) m e' ws else frame e e' \<and> ws = [] \<and> req_bio req' = req_bio req"
proof (cases "\<exists>b. req_bio req = Bio b \<and> req_state req = REQ_STATE_FLIGHT")
  case False
  then show ?thesis using assms(1) by (auto simp: afs_read_request_def EINVAL_def EIO_def split: bio_ptr.splits if_splits)
next
  case True
  then obtain b where b: "req_bio req = Bio b" by blast
  define r1 where "r1 = req\<lparr>map_entry := afs_get_map_entry (config (e_ctx e)) (req_block req)\<rparr>"
  consider b' where "bio_fill (r1\<lparr>data_block := replicate 4096 0\<rparr>) b = Some b'" "ws = []" "ret = 0"
      "afs_req_clean (r1\<lparr>data_block := replicate 4096 0, req_bio := Bio b'\<rparr>) e = Some e'"
    | "start_reads r1 e = Some (ret, req', e', ws)"
    using assms(1) True b by (auto simp: afs_read_request_def Let_def r1_def split: bind_splits if_splits)
  then show ?thesis
  proof cases
    case 1
    then have "progress e (req_bio req) m e' []"
      using bio_fill_id [OF 1(1)] b assms(2) by (intro afs_req_clean_progress [OF 1(4)]) simp_all
    then show ?thesis using 1 by simp
  next
    case 2
    then show ?thesis using start_reads_progress [OF 2 frame_refl, of "req_bio req" m] assms(2) by (simp add: r1_def)
  qed
qed

lemma afs_write_request_progress:
  assumes "afs_write_request c req b e = Some (ret, req', e', ws)" "ncar e + 1 < m"
  shows "if ret = 0 then progress e (req_bio req) m e' ws else frame e e' \<and> ws = [] \<and> req_bio req' = req_bio req"
proof (cases "req_state req = REQ_STATE_FLIGHT")
  case False
  then show ?thesis using assms(1) by (auto simp: afs_write_request_def EINVAL_def)
next
  case True
  define r0 where "r0 = req\<lparr>map_entry := afs_get_map_entry (config (e_ctx e)) (req_block req)\<rparr>"
  obtain b0 data r1 r2 e2 ret3 r3 e3 where r: "get_ptr e (map_entry r0) 0 = Some b0" "bio_take r0 b = Some data"
      "number_shares (ncar e) (r0\<lparr>data_block := data\<rparr>) = Some r1" "encode_block c r1 e = Some (r2, e2)"
      "assign_blocks (b0 \<noteq> AFS_INVALID_BLOCK) (ncar e2) 0 r2 e2 = Some (ret3, r3, e3)"
    using assms(1) True by (auto simp: afs_write_request_def Let_def r0_def split: bind_splits)
  have f: "frame e e3" "req_bio r3 = req_bio req"
    using number_shares_bio [OF r(3)] encode_block_frame [OF r(4)] assign_blocks_frame [OF r(5)]
    by (auto simp: r0_def intro: frame_trans)
  show ?thesis
  proof (cases "ret3 = 0")
    case T: True
    then obtain ret4 r4 e4 ws4 where w: "write_pages r3 (ncar e3) e3 = Some (ret4, r4, e4, ws4)"
      using assms(1) r True by (auto simp: afs_write_request_def Let_def r0_def split: bind_splits)
    then have "ret4 = 0" using write_pages_ret by blast
    then have eq: "e4 = e'" "ws4 = ws" "ret = 0"
      using assms(1) r w True T by (auto simp: afs_write_request_def Let_def r0_def)
    then have "progress e (req_bio req) m e' ws"
      using w f assms(2) by (intro write_pages_progress [of r3 e3 ret4 r4]) simp_all
    then show ?thesis using eq(3) by simp
  next
    case F: False
    then obtain e4 where e4: "reset_entry (map_entry r3) (ncar e3) 0 e3 = Some e4" "ws = []" "frame e4 e'" "ret = ret3"
        "req_bio req' = req_bio r3"
      using assms(1) r True by (auto simp: afs_write_request_def Let_def r0_def split: bind_splits if_splits)
    moreover from this have "frame e e'" using f(1) reset_entry_frame frame_trans by meson
    ultimately show ?thesis using F f(2) by simp
  qed
qed

lemma error_clean:
  assumes "if ret = 0 then progress e p m e1 ws else frame e e1 \<and> ws = [] \<and> req_bio req = p" "0 < m"
    and "(if ret = 0 then Some (e1, ws) else do { e2 \<leftarrow> afs_req_clean req e1; Some (e2, ws) }) = Some (e', ws')"
  shows "progress e p m e' ws'"
proof (cases "ret = 0")
  case True
  then show ?thesis using assms by simp
next
  case False
  then have "afs_req_clean req e1 = Some e'" "ws' = []" using assms by (auto split: bind_splits)
  then show ?thesis using afs_req_clean_progress [of req e1 e' e p m] assms False by simp
qed

lemma afs_flightq_progress:
  assumes "afs_flightq c req e = Some (e', ws)" "2 * ncar e + 3 < m"
  shows "progress e (req_bio req) m e' ws"
proof -
  let ?r = "req\<lparr>req_state := REQ_STATE_FLIGHT\<rparr>"
  obtain b ret r1 e1 ws1 where r: "(case bio_op b of
        REQ_OP_READ \<Rightarrow> afs_read_request ?r e | REQ_OP_WRITE \<Rightarrow> afs_write_request c ?r b e
      | _ \<Rightarrow> Some (- EINVAL, req, e, [])) = Some (ret, r1, e1, ws1)"
      "(if ret = 0 then Some (e1, ws1) else do { e2 \<leftarrow> afs_req_clean r1 e1; Some (e2, ws1) }) = Some (e', ws)"
    using assms(1) by (auto simp: afs_flightq_def split: bio_ptr.splits bind_splits)
  have "if ret = 0 then progress e (req_bio req) m e1 ws1 else frame e e1 \<and> ws1 = [] \<and> req_bio r1 = req_bio req"
  proof (cases "bio_op b")
    case REQ_OP_READ
    then show ?thesis using r(1) afs_read_request_progress [of ?r e ret r1 e1 ws1 m] assms(2) by (simp split: if_splits)
  next
    case REQ_OP_WRITE
    then show ?thesis using r(1) afs_write_request_progress [of c ?r b e ret r1 e1 ws1 m] assms(2) by (simp split: if_splits)
  qed (use r(1) in \<open>auto simp: EINVAL_def\<close>)
  then show ?thesis by (rule error_clean [OF _ _ r(2)]) (use assms(2) in simp)
qed

lemma afs_rebuildq_progress:
  assumes "afs_rebuildq req e = Some (e', ws)" "2 * ncar e + 3 < m"
  shows "progress e (req_bio req) m e' ws"
proof -
  let ?r = "req\<lparr>req_state := REQ_STATE_FLIGHT\<rparr>"
  obtain ret r1 e1 ws1 where r: "afs_rebuild_request ?r e = Some (ret, r1, e1, ws1)"
      "(if ret = 0 then Some (e1, ws1) else do { e2 \<leftarrow> afs_req_clean r1 e1; Some (e2, ws1) }) = Some (e', ws)"
    using assms(1) by (auto simp: afs_rebuildq_def split: bind_splits)
  show ?thesis
    using afs_rebuild_request_progress [OF r(1) assms(2)] assms(2)
    by (intro error_clean [OF _ _ r(2)]) (simp_all split: if_splits)
qed

lemma afs_cryptoq_progress:
  assumes "afs_cryptoq c req e = Some (e', ws)" "ncar e + 1 < m"
  shows "progress e (req_bio req) m e' ws"
proof -
  obtain ret e1 ws1 where r: "afs_read_decode c req e = Some (ret, e1, ws1)"
    using assms(1) by (auto simp: afs_cryptoq_def split: bind_splits)
  then have "progress e (req_bio req) m e1 ws1 \<and> ret = 0" by (rule afs_read_decode_progress [OF _ assms(2)])
  then show ?thesis using r assms(1) by (simp add: afs_cryptoq_def)
qed

lemma read_done_progress:
  assumes "read_done req pend i e = Some (e', ws)" "i \<in> set pend" "length pend + ncar e + 3 = m"
  shows "progress e (req_bio req) m e' ws"
  using assms length_pos_if_in_set [OF assms(2)]
  by (intro progressI)
    (auto simp: read_done_def afs_read_endio_def Let_def length_remove1 split: bind_splits prod.splits)

lemma write_done_progress:
  assumes "write_done req pend i e = Some (e', ws)" "i \<in> set pend" "length pend + 1 = m"
  shows "progress e (req_bio req) m e' ws"
proof -
  obtain page k where w: "afs_write_endio req (remove1 i pend) (e\<lparr>e_k := k\<rparr>) = Some (e', ws)"
    using assms(1) by (auto simp: write_done_def split: bind_splits prod.splits)
  let ?r = "req\<lparr>bios_pending := bios_pending req - 1\<rparr>"
  consider "e' = e\<lparr>e_k := k\<rparr>" "ws = [WriteIO ?r (remove1 i pend)]"
    | e1 where "store_checksums (ncar e) 0 ?r (e\<lparr>e_k := k\<rparr>) = Some e1" "afs_req_clean ?r e1 = Some e'" "ws = []"
    using w by (auto simp: afs_write_endio_def Let_def split: if_splits bind_splits)
  then show ?thesis
  proof cases
    case 1
    then show ?thesis
      using assms(2,3) length_pos_if_in_set [OF assms(2)] by (intro progressI) (auto simp: length_remove1)
  next
    case 2
    have "frame e e1" using store_checksums_frame [OF 2(1)] by simp
    then show ?thesis using afs_req_clean_progress [OF 2(2), of e "req_bio req" m] 2(3) assms(3) by simp
  qed
qed

lemma run_work_progress:
  assumes "run_work c w i e = Some (e', ws)"
  shows "progress e (req_bio (work_req w)) (work_size (ncar e) w) e' ws"
proof (cases w)
  case (Flight req)
  then show ?thesis using assms by (intro afs_flightq_progress [of c]) simp_all
next
  case (Rebuild req)
  then show ?thesis using assms afs_rebuildq_progress [of req e e' ws "2 * ncar e + 4"] by simp
next
  case (Crypto req)
  then show ?thesis using assms afs_cryptoq_progress [of c req e e' ws "ncar e + 2"] by simp
next
  case (ReadIO req pend)
  then show ?thesis using assms read_done_progress [of req pend i e e' ws] by (simp split: if_splits)
next
  case (WriteIO req pend)
  then show ?thesis using assms write_done_progress [of req pend i e e' ws] by (simp split: if_splits)
qed

section \<open>Machines that run down\<close>

text \<open>A machine whose every step lowers a measure stops; an invariant that does not get stuck then leads to an end.\<close>

locale bounded_machine =
  fixes step :: "'s \<Rightarrow> 's \<Rightarrow> bool" and cost :: "'s \<Rightarrow> nat"
  assumes decreases: "step s t \<Longrightarrow> cost t < cost s"
begin

lemma well_founded: "wfP (\<lambda>t s. step s t)"
  using decreases by (rule wfp_if_convertible_to_nat)

lemma run_keeps:
  assumes "step\<^sup>*\<^sup>* s t" "P s" "\<And>t u. P t \<Longrightarrow> step t u \<Longrightarrow> P u"
  shows "P t"
  using assms by (induction rule: rtranclp_induct) auto

lemma run_ends:
  assumes "P s" "\<And>t u. P t \<Longrightarrow> step t u \<Longrightarrow> P u" "\<And>t. P t \<Longrightarrow> \<not> Q t \<Longrightarrow> \<exists>u. step t u"
  shows "\<exists>t. step\<^sup>*\<^sup>* s t \<and> P t \<and> Q t"
  using assms(1)
proof (induction "cost s" arbitrary: s rule: less_induct)
  case less
  show ?case
  proof (cases "Q s")
    case False
    then obtain u where u: "step s u" using assms(3) less.prems by blast
    then obtain t where "step\<^sup>*\<^sup>* u t" "P t" "Q t" using less.hyps [OF decreases [OF u]] assms(2) less.prems by blast
    then show ?thesis using u converse_rtranclp_into_rtranclp by metis
  qed (use less.prems in blast)
qed

end

definition work_left :: "engine \<times> work list \<Rightarrow> nat" where
  "work_left s = (\<Sum>w\<leftarrow>snd s. work_size (ncar (fst s)) w)"

interpretation afs_run: bounded_machine "afs_step c" work_left for c
proof
  show "work_left t < work_left s" if "afs_step c s t" for s t
    using that run_work_progress by (cases rule: afs_step.cases) (force simp: progress_def work_left_def)
qed

section \<open>Properties\<close>

text \<open>There is no endless sequence of steps: every step of a work item and every completion of a carrier
  bio brings the accepted requests closer to their end, in every interleaving. A work function that does not return is no
  step; that the requests are served is a theorem of \<open>Afs_Concurrent\<close>.\<close>

theorem engine_terminates: "wfP (\<lambda>t s. afs_step c s t)"
  by (rule afs_run.well_founded)

text \<open>C38: A bio is handed back at most once: along every run, the bios handed back, together with those that
  requests under way still hold, are among the bios handed back or held at the start.\<close>

theorem bios_end_once:
  assumes "afs_steps c (e, ws) (e', ws')"
  shows "ended_ids e' + work_ids ws' \<subseteq># ended_ids e + work_ids ws"
  using assms
proof (induction rule: rtranclp_induct2)
  case (step e1 ws1 e2 ws2)
  from step(2) have "ended_ids e2 + work_ids ws2 \<subseteq># ended_ids e1 + work_ids ws1"
  proof (cases rule: afs_step.cases)
    case (afs_step_run w i ws us vs)
    then have "ended_ids e2 + work_ids ws \<subseteq># ended_ids e1 + ptr_ids (req_bio (work_req w))"
      using run_work_progress by (auto simp: progress_def)
    then have "(ended_ids e2 + work_ids ws) + (work_ids us + work_ids vs) \<subseteq>#
        (ended_ids e1 + ptr_ids (req_bio (work_req w))) + (work_ids us + work_ids vs)"
      by (rule subset_mset.add_right_mono)
    then show ?thesis using afs_step_run by (simp add: ac_simps)
  qed
  then show ?case using step.IH by (rule subset_mset.order_trans)
qed simp

definition demo_engine :: engine where
  "demo_engine = \<lparr>e_ctx = demo_ctx (demo_config\<lparr>num_carrier_blocks := 4, map_entry_sz := 64\<rparr>) (replicate 64 0xff), e_k = demo_kernel, e_flight_eq = Leaf,
     e_rebuild_eq = Leaf, e_ended = []\<rparr>"

definition demo_bio :: bio where
  "demo_bio = \<lparr>bio_op = REQ_OP_READ, bi_sector = 0, bi_size = 4, bi_io_vec = [\<lparr>bv_page = [1, 2, 3, 4], bv_len = 4, bv_offset = 0\<rparr>]\<rparr>"

lemma demo_read:
  "afs_step c (demo_engine, [Flight ((demo_request 0)\<lparr>req_bio := Bio demo_bio\<rparr>)])
     (demo_engine\<lparr>e_ended := [demo_bio\<lparr>bi_io_vec := [\<lparr>bv_page = [0, 0, 0, 0], bv_len = 4, bv_offset = 0\<rparr>]\<rparr>]\<rparr>, [])"
proof -
  have "(le_word (replicate 4 0xff) :: u32) = AFS_INVALID_BLOCK" by code_simp
  then have ptr: "get_ptr demo_engine 0 0 = Some AFS_INVALID_BLOCK"
    by (simp add: get_ptr_def demo_engine_def demo_ctx_def peek_def sub_def)
  have "replicate 4 (0 :: u8) = [0, 0, 0, 0]" by (simp add: eval_nat_numeral)
  then have "run_work c (Flight ((demo_request 0)\<lparr>req_bio := Bio demo_bio\<rparr>)) 0 demo_engine =
      Some (demo_engine\<lparr>e_ended := [demo_bio\<lparr>bi_io_vec := [\<lparr>bv_page = [0, 0, 0, 0], bv_len = 4, bv_offset = 0\<rparr>]\<rparr>]\<rparr>, [])"
    using ptr
    by (simp add: afs_flightq_def demo_bio_def afs_read_request_def demo_request_def afs_get_map_entry_def Let_def
        bio_fill_def req_base_def peek_def poke_def sub_def blit_def afs_req_clean_def bio_endio_def free_encoder_def
        io_consts) (simp add: demo_engine_def)
  from afs_step_run [OF this, of "[]" "[]"] show ?thesis by simp
qed

theorem bios_end_once_witness:
  "ended_ids (demo_engine\<lparr>e_ended := [demo_bio\<lparr>bi_io_vec := [\<lparr>bv_page = [0, 0, 0, 0], bv_len = 4, bv_offset = 0\<rparr>]\<rparr>]\<rparr>) + work_ids []
     \<subseteq># ended_ids demo_engine + work_ids [Flight ((demo_request 0)\<lparr>req_bio := Bio demo_bio\<rparr>)]"
  by (rule bios_end_once [OF r_into_rtranclp, OF demo_read])


end
