(* ===== verification/Afs_Volume.thy ===== *)
theory Afs_Volume
  imports Afs_Dispatch Afs_Super_Block
begin

text \<open>
  The parts of the engine's state that a volume consists of: the entries of the map (\<open>eptr\<close>, \<open>esum\<close>), the carrier
  pages on the device, and the requests; what each operation of the engine changes of them, and that the codecs
  change none.
\<close>

section \<open>Codecs use random bytes and memory only\<close>

text \<open>\<open>quiet k k'\<close>: between the two states the kernel gave memory and random bytes, and nothing else.\<close>

definition quiet :: "kernel \<Rightarrow> kernel \<Rightarrow> bool" where
  "quiet k k' \<longleftrightarrow> (\<exists>a r. k' = k\<lparr>k_allocs := a, k_rpos := r\<rparr>)"

named_theorems quiets \<open>operations that use memory and random bytes only\<close>

lemma quiet_refl [simp]: "quiet k k"
  unfolding quiet_def by (rule exI [of _ "k_allocs k"], rule exI [of _ "k_rpos k"]) simp

lemma quiet_trans [trans]: "quiet k k1 \<Longrightarrow> quiet k1 k2 \<Longrightarrow> quiet k k2"
  unfolding quiet_def by force

lemma quietD:
  assumes "quiet k k'"
  shows "k_dev k' = k_dev k" "io_ok k' = io_ok k" "alloc_ok k' = alloc_ok k"
  using assms by (auto simp: quiet_def io_ok_def alloc_ok_def)

lemma kmalloc_quiet [quiets]: "kmalloc n k = (p, k') \<Longrightarrow> quiet k k'"
  unfolding quiet_def by (rule exI [of _ "Suc (k_allocs k)"], rule exI [of _ "k_rpos k"]) (auto simp: kmalloc_def)

lemma get_random_bytes_quiet [quiets]: "get_random_bytes n k = (p, k') \<Longrightarrow> quiet k k'"
  unfolding quiet_def by (rule exI [of _ "k_allocs k"], rule exI [of _ "k_rpos k + n"]) (auto simp: get_random_bytes_def)

lemma kcalloc_quiet [quiets]: "kcalloc n k = (p, k') \<Longrightarrow> quiet k k'"
  by (auto simp: kcalloc_def split: prod.splits dest: kmalloc_quiet)

lemma sha3_256_quiet [quiets]: "sha3_256 m k = (p, k') \<Longrightarrow> quiet k k'"
  by (auto simp: sha3_256_def Let_def split: prod.splits option.splits dest!: kcalloc_quiet intro: quiet_trans)

lemma speck_encrypt_quiet [quiets]: "speck_encrypt inp out key k = (p, k') \<Longrightarrow> quiet k k'"
  by (auto simp: speck_encrypt_def Let_def split: prod.splits option.splits dest!: kmalloc_quiet intro: quiet_trans)

lemma cauchy_rs_encode_quiet [quiets]: "cauchy_rs_encode c ps d p k = (ret, p', k') \<Longrightarrow> quiet k k'"
  by (auto simp: cauchy_rs_encode_def split: prod.splits if_splits dest!: kmalloc_quiet)

lemma decoder_matrix_quiet [quiets]: "decoder_matrix n k = (p, k') \<Longrightarrow> quiet k k'"
  by (auto simp: decoder_matrix_def split: if_splits dest: kmalloc_quiet)

lemma cauchy_rs_decode_quiet [quiets]:
  assumes "cauchy_rs_decode c ps bufs es k = Some (ret, bufs', k')"
  shows "quiet k k'"
proof -
  obtain st k1 mem k2 where a: "kmalloc 4384 k = (st, k1)" "kmalloc (16 * nat (OriginalCount ps)) k1 = (mem, k2)" by fastforce
  have "quiet k k2" using a kmalloc_quiet quiet_trans by blast
  moreover have "k' = k2 \<or> (\<exists>n m. decoder_matrix n k2 = (m, k'))"
    using assms a by (auto simp: cauchy_rs_decode_def Let_def split: if_splits option.splits prod.splits)
  ultimately show ?thesis using decoder_matrix_quiet quiet_trans by blast
qed

lemma ctr_loop_quiet:
  assumes "ctr_loop inp key n i (out, pad, nonce, k) = (out', pad', nonce', k')"
  shows "quiet k k'"
  using assms
proof (induction "n - i" arbitrary: i out pad nonce k rule: less_induct)
  case less
  show ?case
  proof (cases "i < n")
    case False
    then show ?thesis using less.prems by (subst (asm) ctr_loop.simps) simp
  next
    case True
    obtain p k1 where enc: "speck_encrypt nonce pad key k = (p, k1)" by fastforce
    then obtain o1 n1 where "ctr_loop inp key n (i + 2) (o1, p, n1, k1) = (out', pad', nonce', k')"
      using less.prems True by (subst (asm) ctr_loop.simps) (simp add: ctr_step_def)
    then have "quiet k1 k'" by (rule less.hyps [of "i + 2", rotated]) (use True in simp)
    then show ?thesis using speck_encrypt_quiet [OF enc] quiet_trans by blast
  qed
qed

lemma speck_ctr_bytes_quiet [quiets]: "speck_ctr_bytes inp out n key nonce k = (p, k') \<Longrightarrow> quiet k k'"
  by (auto simp: speck_ctr_bytes_def speck_ctr_def Let_def split: prod.splits option.splits
      dest!: kmalloc_quiet ctr_loop_quiet intro: quiet_trans)

lemma encode_aont_quiet [quiets]:
  assumes "encode_aont_package c diff data n shares db pb nonce k = Some (ret, diff', shares', k')"
  shows "quiet k k'"
  using assms
  by (auto simp: encode_aont_package_def Let_def split: if_splits prod.splits option.splits
      dest!: quiets intro: quiet_trans) (meson quiet_trans)

lemma decode_aont_quiet [quiets]:
  assumes "decode_aont_package c diff data n shares db pb nonce es k = Some (ret, diff', data', shares', k')"
  shows "quiet k k'"
  using assms
  by (auto simp: decode_aont_package_def Let_def split: if_splits prod.splits option.splits
      dest!: quiets intro: quiet_trans) (meson quiet_trans)

section \<open>Packages in carrier pages\<close>

text \<open>The tables of the Reed-Solomon code are as \<open>gf_init\<close> leaves them, or, as in the module, which does
  not call it, all zero.\<close>

definition tables_ok :: "gf_ctx \<Rightarrow> bool" where
  "tables_ok c \<longleftrightarrow> gf_ready c \<or> c = gf_ctx_zero"

lemma length_encode_block:
  assumes "tables_ok c" "OriginalCount params = 2" "nat (BlockBytes params) = n" "i < 254"
    and "length D = 2" "\<forall>d \<in> set D. n \<le> length d" "n \<le> length z"
  shows "length (cauchy_rs_encode_block c params D (OriginalCount params + int i) z) = length z"
proof (cases "gf_ready c")
  case True
  have "\<forall>j < 2. n \<le> length (D ! j)" using assms(5,6) by simp
  then show ?thesis using encode_block_val(1) [OF True, of params 2 i n D z] assms by simp
next
  case False
  then have c: "c = gf_ctx_zero" using assms(1) by (simp add: tables_ok_def)
  show ?thesis
  proof (cases "i = 0")
    case True
    have "n \<le> length (D ! 0)" "n \<le> length (D ! 1)" using assms(5,6) by simp_all
    then show ?thesis using True assms by (simp add: cauchy_rs_encode_block_def Let_def gf_addset_mem_bytewise)
  next
    case False
    then show ?thesis using encode_block_zero_tables [of params n i D z] assms c by simp
  qed
qed

text \<open>\<open>packed nonce D pages\<close>: the first two pages carry an AONT package of \<open>D\<close>, in halves of 2064 bytes.\<close>

definition packed :: "u64 list \<Rightarrow> bytes \<Rightarrow> bytes list \<Rightarrow> bool" where
  "packed nonce D pages \<longleftrightarrow>
     (\<exists>key. length key = 4 \<and> (\<forall>j < 2. take 2064 (pages ! j) = sub (ao.package key nonce D) (2064 * j) 2064))"

definition pages_ok :: "nat \<Rightarrow> bytes list \<Rightarrow> bool" where
  "pages_ok n pages \<longleftrightarrow> length pages = n \<and> (\<forall>p \<in> set pages. length p = 4096)"

lemma pages_okD: "pages_ok n pages \<Longrightarrow> i < n \<Longrightarrow> length (pages ! i) = 4096" "pages_ok n pages \<Longrightarrow> length pages = n"
  by (auto simp: pages_ok_def)

lemma encode_pages:
  assumes "tables_ok c" "alloc_ok k" "length data = 4096" "length diff = 32" "3 \<le> n" "n \<le> 8" "pages_ok n shares"
  shows "\<exists>diff' shares' k'. encode_aont_package c diff data 4096 shares 2 (n - 2) nonce k = Some (0, diff', shares', k') \<and>
    length diff' = 32 \<and> pages_ok n shares' \<and> packed nonce data shares'"
proof -
  have sh: "length shares = 2 + (n - 2)" using assms(5,7) by (simp add: pages_ok_def)
  have small: "n - 2 \<le> 254" using assms(6) by simp
  obtain key k' where key: "length key = 4" "(let pkg = ao.package key nonce (take 4096 data); D = data_shares 2 2064 pkg shares in
      encode_aont_package c diff data 4096 shares 2 (n - 2) nonce k =
        Some (0, drop 4096 pkg, D @ computed_parity c (aont_params 2 (n - 2) 2064) D (drop 2 shares), k'))"
    using encode_package [of k 4096 data diff 2 "n - 2" 2064 shares nonce c] assms sh small by auto
  define pkg where "pkg = ao.package key nonce data"
  have "8 dvd length data" using assms(3) by simp
  then have pkg: "length pkg = 4128" using ao.length_package [OF key(1)] assms(3) by (simp add: pkg_def)
  define D where "D = data_shares 2 2064 pkg shares"
  define P where "P = computed_parity c (aont_params 2 (n - 2) 2064) D (drop 2 shares)"
  have len: "length (shares ! i) = 4096" if "i < n" for i using pages_okD(1) [OF assms(7) that] .
  have chunk: "length (sub pkg (2064 * j) 2064) = 2064" if "j < 2" for j
  proof -
    have "2064 * j + 2064 \<le> length pkg" using that pkg by (cases "j = 0") auto
    then show ?thesis by (rule length_sub)
  qed
  have D: "length D = 2" "\<And>j. j < 2 \<Longrightarrow> D ! j = blit (shares ! j) 0 (sub pkg (2064 * j) 2064)"
    by (simp_all add: D_def data_shares_def)
  have Dlen: "length (D ! j) = 4096" if "j < 2" for j using D(2) [OF that] chunk [OF that] len [of j] that assms(5) by simp
  have Pj: "P ! j = cauchy_rs_encode_block c (aont_params 2 (n - 2) 2064) D (2 + int j) (drop 2 shares ! j)" if "j < n - 2" for j
  proof -
    have "n - 2 \<le> length (drop 2 shares)" using sh by simp
    note foldl_update [OF this, of "\<lambda>j z. cauchy_rs_encode_block c (aont_params 2 (n - 2) 2064) D (2 + int j) z"]
    moreover have "nat (int n - 2) = n - 2" by simp
    ultimately show ?thesis using that sh D(1) by (simp add: P_def computed_parity_def aont_params_def)
  qed
  have Plen: "length (P ! j) = 4096" if "j < n - 2" for j
  proof -
    have "length (drop 2 shares ! j) = 4096" using len [of "2 + j"] that sh by simp
    moreover have "\<forall>d \<in> set D. 2064 \<le> length d" using Dlen D(1) by (auto simp: in_set_conv_nth)
    ultimately show ?thesis
      using length_encode_block [OF assms(1), of "aont_params 2 (n - 2) 2064" 2064 j D "drop 2 shares ! j"] that assms(6) D(1) Pj [OF that]
      by (simp add: aont_params_def)
  qed
  have "length P = n - 2" using sh by (simp add: P_def)
  then have "pages_ok n (D @ P)"
    using D(1) Dlen Plen assms(5) by (auto simp: pages_ok_def in_set_conv_nth)
  moreover have "packed nonce data (D @ P)"
    unfolding packed_def using key(1) D chunk by (intro exI [of _ key]) (simp add: nth_append blit_def pkg_def)
  moreover have "encode_aont_package c diff data 4096 shares 2 (n - 2) nonce k = Some (0, drop 4096 pkg, D @ P, k')"
    using key(2) assms(3) by (simp add: Let_def pkg_def D_def P_def)
  ultimately show ?thesis using pkg by (intro exI conjI) (assumption | simp)+
qed

lemma decode_pages:
  assumes "alloc_ok k" "length data = 4096" "length diff = 32" "3 \<le> n" "n \<le> 8" "pages_ok n pages"
    and "packed nonce D pages" "length D = 4096"
  shows "\<exists>diff' shares' k'. decode_aont_package c diff data 4096 pages 2 (n - 2) nonce [] k = Some (0, diff', D, shares', k') \<and>
    length diff' = 32"
proof -
  obtain key where key: "length key = 4" "\<forall>j < 2. take 2064 (pages ! j) = sub (ao.package key nonce D) (2064 * j) 2064"
    using assms(7) by (auto simp: packed_def)
  define pkg where "pkg = ao.package key nonce D"
  have "8 dvd length D" using assms(8) by simp
  then have pkg: "length pkg = 4096 + 32" "ao.unpackage nonce pkg = D"
    using ao.length_package [OF key(1)] ao.unpackage_package [OF key(1)] assms(8) by (simp_all add: pkg_def)
  have n: "length (take 2 pages) = 2" "0 < n - 2" "n - 2 < 250" using assms(4-6) by (simp_all add: pages_ok_def)
  have dec: "\<exists>d p k'. alloc_ok k' \<and> cauchy_rs_decode c (aont_params 2 (n - 2) 2064) (take 2 pages, drop 2 pages) [] k = Some (0, (d, p), k') \<and>
      (\<forall>j < 2. take 2064 ((d @ p) ! j) = sub pkg (2064 * j) 2064)" if "alloc_ok k" for k
    using decode_no_erasures [OF that n(1) _ n(2), of 2064 c "drop 2 pages"] n(3) key(2) by (auto simp: pkg_def)
  obtain shares' k' where "decode_aont_package c diff data 4096 pages 2 (n - 2) nonce [] k =
      Some (0, drop 4096 pkg, ao.unpackage nonce pkg @ drop 4096 data, shares', k')"
    using decode_package [OF assms(1) _ _ assms(3) _ _ pkg(1) dec, of data nonce] assms(2) by auto
  then show ?thesis using pkg assms(2) by simp
qed

section \<open>The map of a volume\<close>

abbreviation vmap :: "engine \<Rightarrow> bytes" where "vmap e \<equiv> the (afs_map (e_ctx e))"
abbreviation voff :: "engine \<Rightarrow> u32" where "voff e \<equiv> data_start_off (passive_fs (e_ctx e))"
abbreviation vcfg :: "engine \<Rightarrow> afs_config" where "vcfg e \<equiv> config (e_ctx e)"
abbreviation vfs :: "engine \<Rightarrow> afs_passive_fs" where "vfs e \<equiv> passive_fs (e_ctx e)"

text \<open>The state in which the engine works: the map is in memory and has an entry for each block, the
  allocation vector covers every index, the free list has distinct blocks that fit the device, memory and
  transfers do not fail, and the encoding is the all-or-nothing transform.\<close>

definition vol :: "engine \<Rightarrow> bool" where
  "vol e \<longleftrightarrow> afs_map (e_ctx e) \<noteq> None \<and> length (vmap e) = cnb (vcfg e) * csz (vcfg e) \<and>
     cnb (vcfg e) * csz (vcfg e) < 2 ^ 32 \<and> csz (vcfg e) = 40 + 6 * ncar e \<and> 3 \<le> ncar e \<and> ncar e \<le> 8 \<and>
     io_ok (e_k e) \<and> alloc_ok (e_k e) \<and> encoding_type (e_ctx e) = AONT_RS \<and> length (passphrase_hash (e_ctx e)) = 32 \<and>
     distinct (block_list (vfs e)) \<and> (\<forall>b \<in> set (block_list (vfs e)). block_fits (voff e) b \<and> b \<noteq> AFS_INVALID_BLOCK) \<and>
     open_vector (vector (e_ctx e))"

lemma volD:
  assumes "vol e"
  shows "\<exists>m. afs_map (e_ctx e) = Some m" "length (vmap e) = cnb (vcfg e) * csz (vcfg e)"
    "cnb (vcfg e) * csz (vcfg e) < 2 ^ 32" "csz (vcfg e) = 40 + 6 * ncar e" "3 \<le> ncar e" "ncar e \<le> 8"
    "io_ok (e_k e)" "alloc_ok (e_k e)" "encoding_type (e_ctx e) = AONT_RS" "length (passphrase_hash (e_ctx e)) = 32"
    "distinct (block_list (vfs e))" "\<And>b. b \<in> set (block_list (vfs e)) \<Longrightarrow> block_fits (voff e) b \<and> b \<noteq> AFS_INVALID_BLOCK"
    "open_vector (vector (e_ctx e))"
  using assms by (auto simp: vol_def)

definition epos :: "engine \<Rightarrow> u32 \<Rightarrow> nat" where
  "epos e blk = unat blk * csz (vcfg e)"

definition vblock :: "engine \<Rightarrow> u32 \<Rightarrow> bool" where
  "vblock e blk \<longleftrightarrow> blk < num_blocks (vcfg e)"

definition eptr :: "engine \<Rightarrow> u32 \<Rightarrow> nat \<Rightarrow> u32" where
  "eptr e blk i = le_word (sub (vmap e) (epos e blk + 6 * i) 4)"

definition esum :: "engine \<Rightarrow> u32 \<Rightarrow> nat \<Rightarrow> u16" where
  "esum e blk i = le_word (sub (vmap e) (epos e blk + 6 * i + 4) 2)"

lemma epos_room:
  assumes "vol e" "vblock e blk"
  shows "epos e blk + csz (vcfg e) \<le> length (vmap e)"
proof -
  have "Suc (unat blk) \<le> cnb (vcfg e)" using assms(2) by (simp add: vblock_def word_less_nat_alt)
  then have "Suc (unat blk) * csz (vcfg e) \<le> cnb (vcfg e) * csz (vcfg e)" by (rule mult_le_mono1)
  then show ?thesis using volD(2) [OF assms(1)] by (simp add: epos_def add.commute)
qed

lemma get_map_entry_epos:
  assumes "vol e" "vblock e blk"
  shows "afs_get_map_entry (vcfg e) blk = epos e blk"
proof -
  have "epos e blk < 2 ^ 32" using epos_room [OF assms] volD(2,3) [OF assms(1)] by simp
  then show ?thesis
    by (simp add: afs_get_map_entry_def epos_def unat_word_ariths unat_ucast_up take_bit_eq_mod)
qed

lemma get_ptr_eptr:
  assumes "vol e" "vblock e blk" "i < ncar e"
  shows "get_ptr e (epos e blk) i = Some (eptr e blk i)"
proof -
  obtain m where "afs_map (e_ctx e) = Some m" using volD(1) [OF assms(1)] ..
  then show ?thesis using epos_room [OF assms(1,2)] volD(4) [OF assms(1)] assms(3) by (simp add: get_ptr_def eptr_def peek_def)
qed

lemma get_checksum_esum:
  assumes "vol e" "vblock e blk" "i < ncar e"
  shows "get_checksum e (epos e blk) i = Some (esum e blk i)"
proof -
  obtain m where "afs_map (e_ctx e) = Some m" using volD(1) [OF assms(1)] ..
  then show ?thesis using epos_room [OF assms(1,2)] volD(4) [OF assms(1)] assms(3) by (simp add: get_checksum_def esum_def peek_def)
qed

lemma get_difference_ok:
  assumes "vol e" "vblock e blk"
  shows "\<exists>diff. get_difference e (epos e blk) = Some diff \<and> length diff = 32"
proof -
  obtain m where "afs_map (e_ctx e) = Some m" using volD(1) [OF assms(1)] ..
  then show ?thesis
    using epos_room [OF assms] volD(4) [OF assms(1)] by (simp add: get_difference_def diff_pos_def peek_def KEY_SIZE_def)
qed

definition put_map :: "bytes \<Rightarrow> engine \<Rightarrow> engine" where
  "put_map m e = e\<lparr>e_ctx := (e_ctx e)\<lparr>afs_map := Some m\<rparr>\<rparr>"

lemma put_map_simps [simp]:
  "vmap (put_map m e) = m" "afs_map (e_ctx (put_map m e)) = Some m" "vcfg (put_map m e) = vcfg e" "vfs (put_map m e) = vfs e"
  "e_k (put_map m e) = e_k e" "e_ended (put_map m e) = e_ended e" "vector (e_ctx (put_map m e)) = vector (e_ctx e)"
  "encoding_type (e_ctx (put_map m e)) = encoding_type (e_ctx e)" "passphrase_hash (e_ctx (put_map m e)) = passphrase_hash (e_ctx e)"
  by (simp_all add: put_map_def)

lemma map_put_eq:
  assumes "vol e" "pos + length bs \<le> length (vmap e)"
  shows "map_put e pos bs = Some (put_map (blit (vmap e) pos bs) e)"
  using assms(2) volD(1) [OF assms(1)] by (auto simp: map_put_def poke_def put_map_def)

lemma vol_put_map: "vol e \<Longrightarrow> length m = length (vmap e) \<Longrightarrow> vol (put_map m e)"
  by (auto simp: vol_def)

lemma epos_put_map [simp]: "epos (put_map m e) blk = epos e blk" "vblock (put_map m e) blk = vblock e blk"
  by (simp_all add: epos_def vblock_def)

text \<open>Reading a field of an entry after a field of an entry was written.\<close>

lemma entry_fields_apart:
  assumes "blk \<noteq> blk'" "o1 + n1 \<le> csz (vcfg e)" "o2 + n2 \<le> csz (vcfg e)"
  shows "epos e blk' + o2 + n2 \<le> epos e blk + o1 \<or> epos e blk + o1 + n1 \<le> epos e blk' + o2"
proof -
  have "unat blk \<noteq> unat blk'" using assms(1) by (auto dest: unsigned_word_eqI)
  then consider "Suc (unat blk) \<le> unat blk'" | "Suc (unat blk') \<le> unat blk" by linarith
  then show ?thesis
  proof cases
    case 1
    then have "Suc (unat blk) * csz (vcfg e) \<le> epos e blk'" unfolding epos_def by (rule mult_le_mono1)
    then show ?thesis using assms(2) by (simp add: epos_def)
  next
    case 2
    then have "Suc (unat blk') * csz (vcfg e) \<le> epos e blk" unfolding epos_def by (rule mult_le_mono1)
    then show ?thesis using assms(3) by (simp add: epos_def)
  qed
qed

lemma sub_put_entry:
  assumes "vol e" "vblock e blk" "vblock e blk'" "o1 + length bs \<le> csz (vcfg e)" "o2 + n \<le> csz (vcfg e)"
    and "blk \<noteq> blk' \<or> o2 + n \<le> o1 \<or> o1 + length bs \<le> o2"
  shows "sub (blit (vmap e) (epos e blk + o1) bs) (epos e blk' + o2) n = sub (vmap e) (epos e blk' + o2) n"
proof (rule sub_blit_disjoint)
  show "epos e blk + o1 + length bs \<le> length (vmap e)" using epos_room [OF assms(1,2)] assms(4) by simp
  show "epos e blk' + o2 + n \<le> length (vmap e)" using epos_room [OF assms(1,3)] assms(5) by simp
  show "epos e blk' + o2 + n \<le> epos e blk + o1 \<or> epos e blk + o1 + length bs \<le> epos e blk' + o2"
  proof (cases "blk = blk'")
    case False
    show ?thesis using entry_fields_apart [OF False assms(4,5)] .
  next
    case True
    then show ?thesis using assms(6) by auto
  qed
qed

lemma put_ptr_effect:
  assumes "vol e" "vblock e blk" "i < ncar e"
  shows "\<exists>m. put_ptr e (epos e blk) i b = Some (put_map m e) \<and> length m = length (vmap e) \<and>
    (\<forall>blk' j. vblock e blk' \<and> j < ncar e \<longrightarrow>
       eptr (put_map m e) blk' j = (if blk' = blk \<and> j = i then b else eptr e blk' j) \<and> esum (put_map m e) blk' j = esum e blk' j)"
proof -
  let ?m = "blit (vmap e) (epos e blk + 6 * i) (le_bytes 4 b)"
  note sz = volD(4) [OF assms(1)]
  have room: "epos e blk + 6 * i + 4 \<le> length (vmap e)" using epos_room [OF assms(1,2)] sz assms(3) by simp
  have put: "put_ptr e (epos e blk) i b = Some (put_map ?m e)" using map_put_eq [OF assms(1)] room by (simp add: put_ptr_def)
  have same: "sub ?m (epos e blk + 6 * i) 4 = le_bytes 4 b" using room by (intro sub_blit_same_len) simp_all
  have other: "sub ?m (epos e blk' + 6 * j) 4 = sub (vmap e) (epos e blk' + 6 * j) 4"
    if "vblock e blk'" "j < ncar e" "blk' \<noteq> blk \<or> j \<noteq> i" for blk' j
  proof (rule sub_put_entry [OF assms(1,2) that(1)])
    show "blk \<noteq> blk' \<or> 6 * j + 4 \<le> 6 * i \<or> 6 * i + length (le_bytes 4 b) \<le> 6 * j" using that(3) by auto
  qed (use sz assms(3) that in auto)
  have sum: "sub ?m (epos e blk' + (6 * j + 4)) 2 = sub (vmap e) (epos e blk' + (6 * j + 4)) 2"
    if "vblock e blk'" "j < ncar e" for blk' j
  proof (rule sub_put_entry [OF assms(1,2) that(1)])
    show "blk \<noteq> blk' \<or> 6 * j + 4 + 2 \<le> 6 * i \<or> 6 * i + length (le_bytes 4 b) \<le> 6 * j + 4" by auto
  qed (use sz assms(3) that in auto)
  show ?thesis
    using put room same other sum
    by (intro exI [of _ ?m]) (auto simp: eptr_def esum_def le_word_le_bytes add.assoc)
qed

lemma put_checksum_effect:
  assumes "vol e" "vblock e blk" "i < ncar e"
  shows "\<exists>m. put_checksum e (epos e blk) i c = Some (put_map m e) \<and> length m = length (vmap e) \<and>
    (\<forall>blk' j. vblock e blk' \<and> j < ncar e \<longrightarrow>
       eptr (put_map m e) blk' j = eptr e blk' j \<and> esum (put_map m e) blk' j = (if blk' = blk \<and> j = i then c else esum e blk' j))"
proof -
  let ?m = "blit (vmap e) (epos e blk + (6 * i + 4)) (le_bytes 2 c)"
  note sz = volD(4) [OF assms(1)]
  have room: "epos e blk + (6 * i + 4) + 2 \<le> length (vmap e)" using epos_room [OF assms(1,2)] sz assms(3) by simp
  have put: "put_checksum e (epos e blk) i c = Some (put_map ?m e)"
    using map_put_eq [OF assms(1)] room by (simp add: put_checksum_def add.assoc)
  have same: "sub ?m (epos e blk + (6 * i + 4)) 2 = le_bytes 2 c" using room by (intro sub_blit_same_len) simp_all
  have other: "sub ?m (epos e blk' + (6 * j + 4)) 2 = sub (vmap e) (epos e blk' + (6 * j + 4)) 2"
    if "vblock e blk'" "j < ncar e" "blk' \<noteq> blk \<or> j \<noteq> i" for blk' j
  proof (rule sub_put_entry [OF assms(1,2) that(1)])
    show "blk \<noteq> blk' \<or> 6 * j + 4 + 2 \<le> 6 * i + 4 \<or> 6 * i + 4 + length (le_bytes 2 c) \<le> 6 * j + 4" using that(3) by auto
  qed (use sz assms(3) that in auto)
  have ptr: "sub ?m (epos e blk' + 6 * j) 4 = sub (vmap e) (epos e blk' + 6 * j) 4"
    if "vblock e blk'" "j < ncar e" for blk' j
  proof (rule sub_put_entry [OF assms(1,2) that(1)])
    show "blk \<noteq> blk' \<or> 6 * j + 4 \<le> 6 * i + 4 \<or> 6 * i + 4 + length (le_bytes 2 c) \<le> 6 * j" by auto
  qed (use sz assms(3) that in auto)
  show ?thesis
    using put room same other ptr
    by (intro exI [of _ ?m]) (auto simp: eptr_def esum_def le_word_le_bytes add.assoc)
qed

lemma put_difference_effect:
  assumes "vol e" "vblock e blk" "length d = 32"
  shows "\<exists>m. map_put e (diff_pos e (epos e blk)) d = Some (put_map m e) \<and> length m = length (vmap e) \<and>
    (\<forall>blk' j. vblock e blk' \<and> j < ncar e \<longrightarrow>
       eptr (put_map m e) blk' j = eptr e blk' j \<and> esum (put_map m e) blk' j = esum e blk' j)"
proof -
  let ?m = "blit (vmap e) (epos e blk + 6 * ncar e) d"
  note sz = volD(4) [OF assms(1)]
  have room: "epos e blk + 6 * ncar e + 32 \<le> length (vmap e)" using epos_room [OF assms(1,2)] sz by simp
  have put: "map_put e (diff_pos e (epos e blk)) d = Some (put_map ?m e)"
    using map_put_eq [OF assms(1)] room assms(3) by (simp add: diff_pos_def)
  have other: "sub ?m (epos e blk' + off) n = sub (vmap e) (epos e blk' + off) n"
    if "vblock e blk'" "off + n \<le> 6 * ncar e" for blk' off n
    by (rule sub_put_entry [OF assms(1,2) that(1)]) (use sz assms(3) that in auto)
  have "sub ?m (epos e blk' + (6 * j + 4)) 2 = sub (vmap e) (epos e blk' + (6 * j + 4)) 2"
    "sub ?m (epos e blk' + 6 * j) 4 = sub (vmap e) (epos e blk' + 6 * j) 4" if "vblock e blk'" "j < ncar e" for blk' j
    using other [OF that(1), of "6 * j + 4" 2] other [OF that(1), of "6 * j" 4] that(2) by simp_all
  then show ?thesis
    using put room assms(3) by (intro exI [of _ ?m]) (auto simp: eptr_def esum_def add.assoc)
qed

section \<open>Carrier transfers\<close>

lemma carrier_addr:
  assumes "block_fits (voff e) b"
  shows "512 * unat (carrier_sector e b) = block_addr (voff e) b"
proof -
  have "8 * unat b + unat (voff e) < 2 ^ 32" using assms by (auto simp: block_fits_def)
  then have "unat (b * 8 + voff e) = 8 * unat b + unat (voff e)" by (simp add: unat_word_ariths)
  then show ?thesis
    using block_addr_eq [OF assms] by (simp add: carrier_sector_def AFS_SECTORS_PER_BLOCK_def unat_ucast_u32)
qed

lemma carrier_read:
  assumes "block_fits (voff e) b" "io_ok k" "length page = 4096"
  shows "submit_bio_wait False (carrier_sector e b) AFS_BLOCK_SIZE page k = (get_page (voff e) k b, tick_io k)"
  using assms carrier_addr [OF assms(1)]
  by (simp add: submit_bio_wait_def io_okD Let_def AFS_BLOCK_SIZE_def get_page_def tick_io_def dev_read_def)

lemma carrier_write:
  assumes "block_fits (voff e) b" "io_ok k"
  shows "submit_bio_wait True (carrier_sector e b) AFS_BLOCK_SIZE page k = (page, put_page (voff e) (tick_io k) b page)"
  using assms carrier_addr [OF assms(1)]
  by (simp add: submit_bio_wait_def io_okD Let_def AFS_BLOCK_SIZE_def put_page_def tick_io_def)

section \<open>Requests\<close>

definition rq_ok :: "nat \<Rightarrow> afs_map_request \<Rightarrow> bool" where
  "rq_ok n req \<longleftrightarrow> length (carrier_blocks req) = 8 \<and> (\<forall>i < n. \<exists>p. carrier_blocks req ! i = Some p \<and> length p = 4096) \<and>
     length (data_block req) = 4096 \<and> length (req_erasures req) = 8 \<and> length (block_nums req) = 8 \<and>
     req_encoding_type req = AONT_RS \<and> num_erasures req = 0 \<and> encoder req = None \<and> length (req_iv req) = 16"

definition rq_pages :: "nat \<Rightarrow> afs_map_request \<Rightarrow> bytes list" where
  "rq_pages n req = map (\<lambda>i. the (carrier_blocks req ! i)) [0..<n]"

lemma rq_pages_ok: "rq_ok n req \<Longrightarrow> pages_ok n (rq_pages n req)"
  by (auto simp: rq_ok_def rq_pages_def pages_ok_def)

lemma rq_page: "rq_ok n req \<Longrightarrow> i < n \<Longrightarrow> carrier_blocks req ! i = Some (rq_pages n req ! i)"
  by (auto simp: rq_ok_def rq_pages_def)

lemma carriers_pages:
  assumes "rq_ok (ncar e) req" "ncar e \<le> 8"
  shows "carriers e req = Some (rq_pages (ncar e) req)"
proof -
  have "take (ncar e) (carrier_blocks req) = map Some (rq_pages (ncar e) req)"
    using assms by (intro nth_equalityI) (auto simp: rq_ok_def rq_pages_def)
  moreover have "those (map Some xs) = Some xs" for xs :: "bytes list" by (induction xs) simp_all
  ultimately show ?thesis using assms by (simp add: carriers_def rq_ok_def)
qed

lemma put_carriers_ok:
  assumes "rq_ok n req" "pages_ok n shares" "n \<le> 8"
  shows "rq_ok n (put_carriers shares req)" "rq_pages n (put_carriers shares req) = shares"
  using assms by (auto simp: rq_ok_def pages_ok_def put_carriers_def rq_pages_def nth_append intro!: nth_equalityI)

lemma number_shares_ok:
  assumes "rq_ok n req" "n \<le> 8"
  shows "\<exists>es. number_shares n req = Some (req\<lparr>req_erasures := es\<rparr>) \<and> length es = 8"
  using assms by (intro exI [of _ "blit (req_erasures req) 0 (map (\<lambda>i. of_nat (48 + i)) [0..<n])"]) (simp add: number_shares_def rq_ok_def)

lemma get_carriers_ok:
  assumes "alloc_ok k" "length (carrier_blocks req) = 8" "i + n \<le> 8"
  shows "\<exists>cs k'. get_carriers n i req k = Some (req\<lparr>carrier_blocks := cs\<rparr>, k') \<and> quiet k k' \<and> length cs = 8 \<and>
    (\<forall>j. i \<le> j \<and> j < i + n \<longrightarrow> (\<exists>p. cs ! j = Some p \<and> length p = 4096)) \<and> (\<forall>j < i. cs ! j = carrier_blocks req ! j)"
  using assms
proof (induction n arbitrary: i req k)
  case 0
  then show ?case by (intro exI [of _ "carrier_blocks req"] exI [of _ k]) auto
next
  case (Suc n)
  obtain p k1 where p: "kmalloc 4096 k = (Some p, k1)" "length p = 4096"
    using kmalloc_alloc_ok [OF Suc.prems(1), of 4096] by simp
  define req1 where "req1 = req\<lparr>carrier_blocks := (carrier_blocks req)[i := Some p]\<rparr>"
  have "alloc_ok k1" using quietD(3) [OF kmalloc_quiet [OF p(1)]] Suc.prems(1) by simp
  then obtain cs k' where cs: "get_carriers n (Suc i) req1 k1 = Some (req1\<lparr>carrier_blocks := cs\<rparr>, k')" "quiet k1 k'" "length cs = 8"
      "\<forall>j. Suc i \<le> j \<and> j < Suc i + n \<longrightarrow> (\<exists>p. cs ! j = Some p \<and> length p = 4096)" "\<forall>j < Suc i. cs ! j = carrier_blocks req1 ! j"
    using Suc.IH [of k1 req1 "Suc i"] Suc.prems by (auto simp: req1_def)
  have "cs ! i = Some p" using cs(5) Suc.prems by (simp add: req1_def)
  then have all: "\<exists>p. cs ! j = Some p \<and> length p = 4096" if "i \<le> j" "j < i + Suc n" for j
    using cs(4) p(2) that by (cases "j = i") auto
  have "quiet k k'" using kmalloc_quiet [OF p(1)] cs(2) by (rule quiet_trans)
  moreover have "get_carriers (Suc n) i req k = Some (req\<lparr>carrier_blocks := cs\<rparr>, k')"
    using cs(1) p Suc.prems by (simp add: get_free_page_def req1_def)
  moreover have "\<forall>j < i. cs ! j = carrier_blocks req ! j" using cs(5) by (simp add: req1_def)
  ultimately show ?case using cs(3) all by blast
qed

text \<open>A new request: its data block is whatever the memory held.\<close>

lemma init_request_ok:
  assumes "vol e"
  shows "\<exists>req k'. init_request (e_ctx e) (e_k e) = Some (Some req, k') \<and> quiet (e_k e) k' \<and> rq_ok (ncar e) req \<and>
    req_iv req = take 16 (passphrase_hash (e_ctx e)) \<and> rebuild_flag req = 0 \<and>
    data_block req = map (k_junk (e_k e) (k_allocs (e_k e))) [0..<4096]"
proof -
  note v = volD [OF assms]
  let ?junk = "k_junk (e_k e) (k_allocs (e_k e))"
  obtain p k1 where p: "kmalloc 4175 (e_k e) = (Some p, k1)" using kmalloc_alloc_ok [OF v(8), of 4175] by simp
  define r0 where "r0 = (raw_request ?junk)\<lparr>allocated_write_page := None, encoder := None, num_erasures := 0,
            req_encoding_type := encoding_type (e_ctx e), req_iv := take 16 (passphrase_hash (e_ctx e)), rebuild_flag := 0,
            req_state := REQ_STATE_GROUND\<rparr>"
  have "alloc_ok k1" using quietD(3) [OF kmalloc_quiet [OF p]] v(8) by simp
  moreover have "length (carrier_blocks r0) = 8" by (simp add: r0_def raw_request_def NUM_MAX_CARRIER_BLKS_def)
  ultimately obtain cs k' where cs: "get_carriers (ncar e) 0 r0 k1 = Some (r0\<lparr>carrier_blocks := cs\<rparr>, k')" "quiet k1 k'" "length cs = 8"
      "\<forall>j < ncar e. \<exists>p. cs ! j = Some p \<and> length p = 4096"
    using get_carriers_ok [of k1 r0 0 "ncar e"] v(6) by auto
  have "init_request (e_ctx e) (e_k e) = Some (Some (r0\<lparr>carrier_blocks := cs\<rparr>), k')"
    using p cs(1) by (simp add: init_request_def Let_def r0_def)
  moreover have "rq_ok (ncar e) (r0\<lparr>carrier_blocks := cs\<rparr>)"
    using cs(3,4) v(9,10) by (simp add: rq_ok_def r0_def raw_request_def NUM_MAX_CARRIER_BLKS_def)
  moreover have "quiet (e_k e) k'" using kmalloc_quiet [OF p] cs(2) by (rule quiet_trans)
  ultimately show ?thesis by (intro exI conjI) (assumption | simp add: r0_def raw_request_def)+
qed

end
