(* ===== verification/Afs_Contents.thy ===== *)
theory Afs_Contents
  imports Afs_Volume
begin

text \<open>
  What a volume contains. \<open>holds e d\<close> relates the state of the engine to an abstract disk \<open>d\<close>, which gives the
  contents of every allocated block: its carrier blocks are taken and shared with no other block, they carry the
  all-or-nothing package of the contents, and their checksums are in the map. \<open>keeps\<close> says what an operation
  leaves alone. The assignment of carrier blocks to a write is the first use.
\<close>

section \<open>The contents of a volume\<close>

abbreviation vtaken :: "engine \<Rightarrow> u32 set" where "vtaken e \<equiv> taken_blocks (vfs e) (vector (e_ctx e))"
abbreviation vpage :: "engine \<Rightarrow> u32 \<Rightarrow> bytes" where "vpage e b \<equiv> get_page (voff e) (e_k e) b"
abbreviation vnonce :: "engine \<Rightarrow> u64 list" where "vnonce e \<equiv> u64s 2 (take 16 (passphrase_hash (e_ctx e)))"

definition ptrs :: "engine \<Rightarrow> u32 \<Rightarrow> u32 list" where
  "ptrs e blk = map (eptr e blk) [0..<ncar e]"

definition mapped :: "engine \<Rightarrow> u32 \<Rightarrow> bool" where
  "mapped e blk \<longleftrightarrow> eptr e blk 0 \<noteq> AFS_INVALID_BLOCK"

text \<open>The first \<open>i\<close> carrier blocks of a virtual block are taken, distinct, and of no other virtual block.\<close>

definition owned :: "engine \<Rightarrow> u32 \<Rightarrow> nat \<Rightarrow> bool" where
  "owned e blk i \<longleftrightarrow> distinct (take i (ptrs e blk)) \<and> set (take i (ptrs e blk)) \<subseteq> vtaken e \<and>
     (\<forall>blk'. vblock e blk' \<and> mapped e blk' \<and> blk' \<noteq> blk \<longrightarrow> set (take i (ptrs e blk)) \<inter> set (ptrs e blk') = {})"

definition stored :: "engine \<Rightarrow> u32 \<Rightarrow> bytes \<Rightarrow> bool" where
  "stored e blk D \<longleftrightarrow> length D = 4096 \<and> packed (vnonce e) D (map (vpage e) (ptrs e blk)) \<and>
     (\<forall>i < ncar e. cityhash32_to_16 (vpage e (eptr e blk i)) 4096 = Some (esum e blk i))"

text \<open>\<open>holds_but e d X\<close>: every block outside \<open>X\<close> is as in \<open>d\<close>.\<close>

definition holds_at :: "engine \<Rightarrow> (u32 \<Rightarrow> bytes option) \<Rightarrow> u32 \<Rightarrow> bool" where
  "holds_at e d blk \<longleftrightarrow>
     (case d blk of None \<Rightarrow> \<not> mapped e blk | Some D \<Rightarrow> mapped e blk \<and> stored e blk D)"

definition holds_but :: "engine \<Rightarrow> (u32 \<Rightarrow> bytes option) \<Rightarrow> u32 set \<Rightarrow> bool" where
  "holds_but e d X \<longleftrightarrow> vol e \<and>
     (\<forall>blk. vblock e blk \<and> blk \<notin> X \<longrightarrow> holds_at e d blk \<and>
        (mapped e blk \<longrightarrow> distinct (ptrs e blk) \<and> set (ptrs e blk) \<subseteq> vtaken e)) \<and>
     (\<forall>blk blk'. vblock e blk \<and> blk \<notin> X \<and> mapped e blk \<and> vblock e blk' \<and> blk' \<notin> X \<and> mapped e blk' \<and> blk \<noteq> blk'
        \<longrightarrow> set (ptrs e blk) \<inter> set (ptrs e blk') = {})"

abbreviation holds :: "engine \<Rightarrow> (u32 \<Rightarrow> bytes option) \<Rightarrow> bool" where
  "holds e d \<equiv> holds_but e d {}"

lemma length_ptrs [simp]: "length (ptrs e blk) = ncar e"
  by (simp add: ptrs_def)

lemma nth_ptrs [simp]: "i < ncar e \<Longrightarrow> ptrs e blk ! i = eptr e blk i"
  by (simp add: ptrs_def)

lemma vtaken_fits: "vol e \<Longrightarrow> b \<in> vtaken e \<Longrightarrow> block_fits (voff e) b \<and> b \<noteq> AFS_INVALID_BLOCK"
  unfolding taken_blocks_def using volD(12) block_list_at_set by blast

text \<open>\<open>keeps X Y e e'\<close>: the instance is the same, the map may have changed at the blocks \<open>X\<close>, the device at the
  blocks \<open>Y\<close>, and no block was given back.\<close>

definition same_instance :: "engine \<Rightarrow> engine \<Rightarrow> bool" where
  "same_instance e e' \<longleftrightarrow> super_block (e_ctx e') = super_block (e_ctx e) \<and> args (e_ctx e') = args (e_ctx e) \<and>
     k_sha1 (e_k e') = k_sha1 (e_k e) \<and> k_sha256 (e_k e') = k_sha256 (e_k e) \<and> k_sha512 (e_k e') = k_sha512 (e_k e) \<and>
     k_rand (e_k e') = k_rand (e_k e) \<and> e_flight_eq e' = e_flight_eq e \<and> e_rebuild_eq e' = e_rebuild_eq e"

definition keeps :: "u32 set \<Rightarrow> u32 set \<Rightarrow> engine \<Rightarrow> engine \<Rightarrow> bool" where
  "keeps X Y e e' \<longleftrightarrow> vol e' \<and> vcfg e' = vcfg e \<and> vfs e' = vfs e \<and> passphrase_hash (e_ctx e') = passphrase_hash (e_ctx e) \<and>
     same_instance e e' \<and> vtaken e \<subseteq> vtaken e' \<and>
     (\<forall>blk j. vblock e blk \<and> blk \<notin> X \<and> j < ncar e \<longrightarrow> eptr e' blk j = eptr e blk j \<and> esum e' blk j = esum e blk j) \<and>
     (\<forall>b \<in> vtaken e - Y. vpage e' b = vpage e b)"

lemma keepsD:
  assumes "keeps X Y e e'"
  shows "vol e'" "vcfg e' = vcfg e" "vfs e' = vfs e" "passphrase_hash (e_ctx e') = passphrase_hash (e_ctx e)" "vtaken e \<subseteq> vtaken e'"
    "\<And>blk j. vblock e blk \<Longrightarrow> blk \<notin> X \<Longrightarrow> j < ncar e \<Longrightarrow> eptr e' blk j = eptr e blk j"
    "\<And>blk j. vblock e blk \<Longrightarrow> blk \<notin> X \<Longrightarrow> j < ncar e \<Longrightarrow> esum e' blk j = esum e blk j"
    "\<And>b. b \<in> vtaken e \<Longrightarrow> b \<notin> Y \<Longrightarrow> vpage e' b = vpage e b" "vblock e' = vblock e" "epos e' = epos e" "same_instance e e'"
  using assms by (auto simp: keeps_def vblock_def epos_def fun_eq_iff)

lemma same_instance_refl [simp]: "same_instance e e"
  by (simp add: same_instance_def)

lemma same_instance_trans: "same_instance e e1 \<Longrightarrow> same_instance e1 e2 \<Longrightarrow> same_instance e e2"
  by (simp add: same_instance_def)

lemma keeps_refl: "vol e \<Longrightarrow> keeps X Y e e"
  by (simp add: keeps_def)

lemma keeps_trans [trans]:
  assumes "keeps X Y e e1" "keeps X Y e1 e2"
  shows "keeps X Y e e2"
proof -
  note a = keepsD [OF assms(1)] and b = keepsD [OF assms(2)]
  have entries: "eptr e2 blk j = eptr e blk j \<and> esum e2 blk j = esum e blk j" if "vblock e blk" "blk \<notin> X" "j < ncar e" for blk j
    using a(2,9) a(6,7) [OF that] b(6,7) [of blk j] that by simp
  have pages: "vpage e2 c = vpage e c" if "c \<in> vtaken e" "c \<notin> Y" for c
  proof -
    have "c \<in> vtaken e1" using a(5) that(1) by blast
    then show ?thesis using a(8) [OF that] b(8) [of c] that(2) by simp
  qed
  have "vcfg e2 = vcfg e" "vfs e2 = vfs e" "passphrase_hash (e_ctx e2) = passphrase_hash (e_ctx e)" using a(2-4) b(2-4) by simp_all
  moreover have "vtaken e \<subseteq> vtaken e2" using a(5) b(5) by (rule subset_trans)
  moreover have "same_instance e e2" using a(11) b(11) by (rule same_instance_trans)
  ultimately show ?thesis unfolding keeps_def using b(1) entries pages by blast
qed

lemma keeps_mono: "keeps X Y e e' \<Longrightarrow> X \<subseteq> X' \<Longrightarrow> Y \<subseteq> Y' \<Longrightarrow> keeps X' Y' e e'"
  unfolding keeps_def by blast

lemma keeps_taken: "keeps X Y e e' \<Longrightarrow> Y \<inter> vtaken e \<subseteq> Y' \<Longrightarrow> keeps X Y' e e'"
  unfolding keeps_def by blast

lemma keeps_ptrs:
  assumes "keeps X Y e e'" "vblock e blk" "blk \<notin> X"
  shows "ptrs e' blk = ptrs e blk"
  using keepsD(2,6) [OF assms(1)] assms(2,3) by (simp add: ptrs_def)

lemma keeps_mapped:
  assumes "keeps X Y e e'" "vblock e blk" "blk \<notin> X" "vol e"
  shows "mapped e' blk = mapped e blk"
  using keepsD(6) [OF assms(1-3), of 0] volD(5) [OF assms(4)] by (simp add: mapped_def)

lemma keeps_stored:
  assumes "keeps X Y e e'" "vblock e blk" "blk \<notin> X" "set (ptrs e blk) \<subseteq> vtaken e" "set (ptrs e blk) \<inter> Y = {}"
  shows "stored e' blk D = stored e blk D"
proof -
  note k = keepsD [OF assms(1)]
  have page: "vpage e' b = vpage e b" if "b \<in> set (ptrs e blk)" for b using k(8) that assms(4,5) by blast
  then have "map (vpage e') (ptrs e' blk) = map (vpage e) (ptrs e blk)" using keeps_ptrs [OF assms(1-3)] by simp
  moreover have "vpage e' (eptr e' blk i) = vpage e (eptr e blk i) \<and> esum e' blk i = esum e blk i" if "i < ncar e" for i
    using page [of "eptr e blk i"] k(6,7) [OF assms(2,3) that] that by (simp add: ptrs_def)
  ultimately show ?thesis using k(2,4) by (simp add: stored_def)
qed

lemma keeps_holds:
  assumes "holds_but e d X" "keeps X Y e e'"
    and "\<And>blk. vblock e blk \<Longrightarrow> blk \<notin> X \<Longrightarrow> mapped e blk \<Longrightarrow> set (ptrs e blk) \<inter> Y = {}"
  shows "holds_but e' d X"
proof -
  note k = keepsD [OF assms(2)]
  have v: "vol e" using assms(1) by (simp add: holds_but_def)
  have same: "mapped e' blk = mapped e blk" "ptrs e' blk = ptrs e blk" if "vblock e blk" "blk \<notin> X" for blk
    using keeps_mapped [OF assms(2) that v] keeps_ptrs [OF assms(2) that] by simp_all
  have at: "holds_at e d blk" "mapped e blk \<Longrightarrow> distinct (ptrs e blk) \<and> set (ptrs e blk) \<subseteq> vtaken e" if "vblock e blk" "blk \<notin> X" for blk
    using assms(1) that by (auto simp: holds_but_def)
  have "holds_at e' d blk" if "vblock e blk" "blk \<notin> X" for blk
    using at [OF that] same [OF that] keeps_stored [OF assms(2) that] assms(3) [OF that]
    by (auto simp: holds_at_def split: option.splits)
  moreover have "distinct (ptrs e' blk) \<and> set (ptrs e' blk) \<subseteq> vtaken e'" if "vblock e blk" "blk \<notin> X" "mapped e' blk" for blk
    using at(2) [OF that(1,2)] same [OF that(1,2)] that(3) k(5) by auto
  moreover have "set (ptrs e' blk) \<inter> set (ptrs e' blk') = {}"
    if "vblock e blk" "blk \<notin> X" "mapped e' blk" "vblock e blk'" "blk' \<notin> X" "mapped e' blk'" "blk \<noteq> blk'" for blk blk'
  proof -
    have "mapped e blk" "mapped e blk'" using same(1) that by simp_all
    then have "set (ptrs e blk) \<inter> set (ptrs e blk') = {}" using assms(1) that unfolding holds_but_def by blast
    then show ?thesis using same(2) that by simp
  qed
  ultimately show ?thesis using k(1,9) unfolding holds_but_def by simp
qed

section \<open>What the operations keep\<close>

lemma entries_simps [simp]:
  "eptr (e\<lparr>e_k := k\<rparr>) = eptr e" "esum (e\<lparr>e_k := k\<rparr>) = esum e" "epos (e\<lparr>e_k := k\<rparr>) = epos e" "vblock (e\<lparr>e_k := k\<rparr>) = vblock e"
  "eptr (bio_endio b e) = eptr e" "esum (bio_endio b e) = esum e" "epos (bio_endio b e) = epos e" "vblock (bio_endio b e) = vblock e"
  by (simp_all add: fun_eq_iff eptr_def esum_def epos_def vblock_def bio_endio_def)

lemma bio_endio_simps [simp]:
  "e_ctx (bio_endio b e) = e_ctx e" "e_k (bio_endio b e) = e_k e" "e_ended (bio_endio b e) = e_ended e @ [b]"
  by (simp_all add: bio_endio_def)

lemma keeps_kernel:
  assumes "vol e" "quiet (e_k e) k"
  shows "keeps X Y e (e\<lparr>e_k := k\<rparr>)"
proof -
  have "vol (e\<lparr>e_k := k\<rparr>)" using assms(1) quietD [OF assms(2)] by (auto simp: vol_def)
  moreover have "get_page off k b = get_page off (e_k e) b" for off b
    using quietD(1) [OF assms(2)] by (rule get_page_dev_cong)
  moreover have "same_instance e (e\<lparr>e_k := k\<rparr>)" using assms(2) by (auto simp: same_instance_def quiet_def)
  ultimately show ?thesis by (simp add: keeps_def)
qed

lemma keeps_endio: "vol e \<Longrightarrow> keeps X Y e (bio_endio b e)"
  by (auto simp: keeps_def vol_def same_instance_def) (simp_all add: bio_endio_def)

lemma keeps_put_map:
  assumes "vol e" "length m = length (vmap e)"
    and "\<And>blk j. vblock e blk \<Longrightarrow> blk \<notin> X \<Longrightarrow> j < ncar e \<Longrightarrow> eptr (put_map m e) blk j = eptr e blk j \<and> esum (put_map m e) blk j = esum e blk j"
  shows "keeps X Y e (put_map m e)"
  using vol_put_map [OF assms(1,2)] assms(3) by (simp add: keeps_def same_instance_def put_map_def)

lemma keeps_acquire:
  assumes "vol e" "acquire_block (vfs e) (vector (e_ctx e)) (e_k e) = Some (b, v, k)" "b \<noteq> AFS_INVALID_BLOCK"
  shows "keeps X Y e (e\<lparr>e_ctx := (e_ctx e)\<lparr>vector := v\<rparr>, e_k := k\<rparr>)" "b \<notin> vtaken e" "b \<in> taken_blocks (vfs e) v"
proof -
  let ?e = "e\<lparr>e_ctx := (e_ctx e)\<lparr>vector := v\<rparr>, e_k := k\<rparr>"
  note v = volD [OF assms(1)]
  obtain i where i: "block_list_at (vfs e) i = Some b" "\<not> taken (vector (e_ctx e)) i" "taken v i" "open_vector v"
    and mono: "\<And>j. taken (vector (e_ctx e)) j \<Longrightarrow> taken v j"
    using acquire_open [OF assms(2) v(13) assms(3)] by blast
  obtain n where k: "k = (e_k e)\<lparr>k_rpos := n\<rparr>" using acquire_block_kernel [OF assms(2)] by blast
  have "k_dev k = k_dev (e_k e)" by (simp add: k)
  then have page: "get_page off k c = get_page off (e_k e) c" for off c by (rule get_page_dev_cong)
  have "io_ok k = io_ok (e_k e)" "alloc_ok k = alloc_ok (e_k e)" by (simp_all add: k io_ok_def alloc_ok_def)
  then have "vol ?e" using assms(1) i(4) by (auto simp: vol_def)
  moreover have "vtaken e \<subseteq> taken_blocks (vfs e) v" using mono by (auto simp: taken_blocks_def)
  ultimately show "keeps X Y e ?e" using page by (simp add: keeps_def eptr_def esum_def epos_def vblock_def same_instance_def k)
  show "b \<notin> vtaken e" using i(1,2) block_list_at_inj [OF v(11)] by (auto simp: taken_blocks_def)
  show "b \<in> taken_blocks (vfs e) v" using i by (auto simp: taken_blocks_def)
qed

lemma keeps_put_page:
  assumes "vol e" "b \<in> vtaken e" "length p = 4096"
  shows "keeps X {b} e (e\<lparr>e_k := put_page (voff e) (tick_io (e_k e)) b p\<rparr>)"
    "get_page (voff e) (put_page (voff e) (tick_io (e_k e)) b p) b = p"
proof -
  let ?k = "put_page (voff e) (tick_io (e_k e)) b p"
  have fits: "block_fits (voff e) b" using vtaken_fits assms(1,2) by blast
  then show "get_page (voff e) ?k b = p" using assms(3) by (simp add: dev.rd_wr_same)
  have "get_page (voff e) ?k c = vpage e c" if "c \<in> vtaken e" "c \<noteq> b" for c
  proof -
    have "block_fits (voff e) c" using vtaken_fits assms(1) that(1) by blast
    then show ?thesis using fits that(2) assms(3) by (simp add: dev.rd_wr_other)
  qed
  moreover have "vol (e\<lparr>e_k := ?k\<rparr>)" using assms(1) by (auto simp: vol_def)
  moreover have "same_instance e (e\<lparr>e_k := ?k\<rparr>)" by (simp add: same_instance_def put_page_def dev_write_def tick_io_def)
  ultimately show "keeps X {b} e (e\<lparr>e_k := ?k\<rparr>)" by (simp add: keeps_def)
qed

section \<open>One block\<close>

lemma holdsD:
  assumes "holds e d" "vblock e blk"
  shows "holds_but e d {blk}" "holds_at e d blk" "mapped e blk \<Longrightarrow> owned e blk (ncar e)"
proof -
  show "holds_but e d {blk}" "holds_at e d blk" using assms unfolding holds_but_def by blast+
  assume m: "mapped e blk"
  then have "distinct (ptrs e blk)" "set (ptrs e blk) \<subseteq> vtaken e" using assms by (simp_all add: holds_but_def)
  moreover have "set (ptrs e blk) \<inter> set (ptrs e blk') = {}" if "vblock e blk'" "mapped e blk'" "blk' \<noteq> blk" for blk'
    using assms m that unfolding holds_but_def by blast
  ultimately show "owned e blk (ncar e)" by (simp add: owned_def)
qed

lemma holds_insert:
  assumes "holds_but e d {blk}" "mapped e blk" "owned e blk (ncar e)" "stored e blk D"
  shows "holds e (d(blk \<mapsto> D))"
proof -
  have v: "vol e" using assms(1) by (simp add: holds_but_def)
  have at: "holds_at e (d(blk \<mapsto> D)) blk'" if "vblock e blk'" for blk'
    using assms that by (cases "blk' = blk") (auto simp: holds_but_def holds_at_def)
  have own: "distinct (ptrs e blk)" "set (ptrs e blk) \<subseteq> vtaken e"
    "\<And>blk'. vblock e blk' \<Longrightarrow> mapped e blk' \<Longrightarrow> blk' \<noteq> blk \<Longrightarrow> set (ptrs e blk) \<inter> set (ptrs e blk') = {}"
    using assms(3) by (simp_all add: owned_def)
  have pl: "distinct (ptrs e blk') \<and> set (ptrs e blk') \<subseteq> vtaken e" if "vblock e blk'" "mapped e blk'" for blk'
    using assms(1) own(1,2) that by (cases "blk' = blk") (auto simp: holds_but_def)
  have "set (ptrs e b1) \<inter> set (ptrs e b2) = {}" if "vblock e b1" "mapped e b1" "vblock e b2" "mapped e b2" "b1 \<noteq> b2" for b1 b2
  proof -
    consider "b1 = blk" | "b2 = blk" | "b1 \<noteq> blk" "b2 \<noteq> blk" by blast
    then show ?thesis
    proof cases
      case 1
      then show ?thesis using own(3) that by blast
    next
      case 2
      then show ?thesis using own(3) that by blast
    next
      case 3
      then show ?thesis using assms(1) that unfolding holds_but_def by blast
    qed
  qed
  then show ?thesis using v at pl unfolding holds_but_def by blast
qed

text \<open>The pages of other blocks are not among the carrier blocks of this one.\<close>

lemma owned_apart:
  "owned e blk (ncar e) \<Longrightarrow> vblock e blk' \<Longrightarrow> blk' \<notin> {blk} \<Longrightarrow> mapped e blk' \<Longrightarrow> set (ptrs e blk') \<inter> set (ptrs e blk) = {}"
  unfolding owned_def by auto

lemma owned_keeps:
  assumes "keeps {blk} Y e e'" "vol e" "vblock e blk" "ptrs e' blk = ptrs e blk" "owned e blk i"
  shows "owned e' blk i"
proof -
  note k = keepsD [OF assms(1)]
  have "ptrs e' b = ptrs e b" "mapped e' b = mapped e b" if "vblock e b" "b \<noteq> blk" for b
    using keeps_ptrs [OF assms(1) that(1)] keeps_mapped [OF assms(1) that(1) _ assms(2)] that(2) by simp_all
  then show ?thesis using assms(3-5) k(5,9) unfolding owned_def by auto
qed

lemma owned_mapped:
  assumes "vol e" "owned e blk i" "0 < i"
  shows "mapped e blk"
proof -
  have "0 < ncar e" using volD(5) [OF assms(1)] by simp
  then have "eptr e blk 0 \<in> set (take i (ptrs e blk))"
    using assms(3) nth_mem [of 0 "take i (ptrs e blk)"] by simp
  then have "eptr e blk 0 \<in> vtaken e" using assms(2) by (auto simp: owned_def)
  then show ?thesis using vtaken_fits [OF assms(1)] by (auto simp: mapped_def)
qed

section \<open>A volume that is read\<close>

text \<open>\<open>readable e d\<close>: the contents are \<open>d\<close>, whatever the allocation vector says; \<open>still e e'\<close>: nothing that counts has
  changed, and the device is the same.\<close>

definition readable_at :: "engine \<Rightarrow> (u32 \<Rightarrow> bytes option) \<Rightarrow> u32 \<Rightarrow> bool" where
  "readable_at e d blk \<longleftrightarrow> holds_at e d blk \<and> (mapped e blk \<longrightarrow> set (ptrs e blk) \<subseteq> set (block_list (vfs e)))"

definition readable :: "engine \<Rightarrow> (u32 \<Rightarrow> bytes option) \<Rightarrow> bool" where
  "readable e d \<longleftrightarrow> vol e \<and> (\<forall>blk. vblock e blk \<longrightarrow> readable_at e d blk)"

definition still :: "engine \<Rightarrow> engine \<Rightarrow> bool" where
  "still e e' \<longleftrightarrow> keeps {} {} e e' \<and> k_dev (e_k e') = k_dev (e_k e) \<and> vector (e_ctx e') = vector (e_ctx e)"

lemma readable_at_fits:
  assumes "readable_at e d blk" "vol e" "mapped e blk" "i < ncar e"
  shows "block_fits (voff e) (eptr e blk i)"
proof -
  have "eptr e blk i \<in> set (block_list (vfs e))"
    using assms(1,3,4) nth_mem [of i "ptrs e blk"] by (auto simp: readable_at_def)
  then show ?thesis using volD(12) [OF assms(2)] by blast
qed

lemma readableD:
  assumes "readable e d"
  shows "vol e" "\<And>blk. vblock e blk \<Longrightarrow> readable_at e d blk"
  using assms by (simp_all add: readable_def)

text \<open>A block reads the same when its entry and its pages are the same.\<close>

lemma readable_at_keeps:
  assumes "readable_at e d blk" "keeps X Y e e'" "vol e" "vblock e blk" "blk \<notin> X" "\<And>b. mapped e blk \<Longrightarrow> b \<in> set (ptrs e blk) \<Longrightarrow> vpage e' b = vpage e b"
  shows "readable_at e' d blk"
proof -
  note k = keepsD [OF assms(2)]
  have same: "mapped e' blk = mapped e blk" "ptrs e' blk = ptrs e blk"
    using keeps_mapped [OF assms(2,4,5,3)] keeps_ptrs [OF assms(2,4,5)] by simp_all
  have "stored e' blk D = stored e blk D" if m: "mapped e blk" for D
  proof -
    have "map (vpage e') (ptrs e' blk) = map (vpage e) (ptrs e blk)" using assms(6) m same(2) by simp
    moreover have "vpage e' (eptr e blk i) = vpage e (eptr e blk i)" if "i < ncar e" for i
      using assms(6) [OF m, of "eptr e blk i"] nth_mem [of i "ptrs e blk"] that by simp
    ultimately show ?thesis unfolding stored_def using k(2,4) k(6,7) [OF assms(4,5)] by simp
  qed
  then show ?thesis using assms(1) same k(3) by (auto simp: readable_at_def holds_at_def split: option.splits)
qed

lemma holds_readable: "holds e d \<Longrightarrow> readable e d"
  using block_list_at_set by (fastforce simp: holds_but_def readable_def readable_at_def taken_blocks_def)

lemma still_refl: "vol e \<Longrightarrow> still e e"
  by (simp add: still_def keeps_refl)

lemma still_trans: "still e e1 \<Longrightarrow> still e1 e2 \<Longrightarrow> still e e2"
  unfolding still_def using keeps_trans by metis

lemma still_kernel: "vol e \<Longrightarrow> quiet (e_k e) k \<Longrightarrow> still e (e\<lparr>e_k := k\<rparr>)"
  using keeps_kernel quietD(1) by (simp add: still_def)

lemma still_endio: "vol e \<Longrightarrow> still e (bio_endio b e)"
  by (simp add: still_def keeps_endio)

lemma still_readable_at:
  assumes "readable_at e d blk" "still e e'" "vol e" "vblock e blk"
  shows "readable_at e' d blk"
proof (rule readable_at_keeps [OF assms(1) _ assms(3,4)])
  show keep: "keeps {} {} e e'" using assms(2) by (simp add: still_def)
  show "vpage e' b = vpage e b" for b
    using assms(2) keepsD(3) [OF keep] get_page_dev_cong [of "e_k e'" "e_k e"] by (simp add: still_def)
qed simp

lemma still_readable:
  assumes "readable e d" "still e e'"
  shows "readable e' d"
proof -
  have "vol e'" "vblock e' = vblock e" using assms(2) keepsD(1,9) by (auto simp: still_def)
  then show ?thesis using assms still_readable_at unfolding readable_def by auto
qed

lemma still_holds: "holds e d \<Longrightarrow> still e e' \<Longrightarrow> holds e' d"
  using keeps_holds [of e d "{}" "{}"] by (simp add: still_def)

section \<open>Writes under way\<close>

text \<open>\<open>busy e d X\<close>: the volume holds \<open>d\<close> but for the blocks \<open>X\<close>, which have their carrier blocks and are being written.\<close>

definition busy :: "engine \<Rightarrow> (u32 \<Rightarrow> bytes option) \<Rightarrow> u32 set \<Rightarrow> bool" where
  "busy e d X \<longleftrightarrow> holds_but e d X \<and> (\<forall>blk \<in> X. vblock e blk \<and> owned e blk (ncar e))"

lemma busy_idle [simp]: "busy e d {} = holds e d"
  by (simp add: busy_def)

lemma busyD:
  assumes "busy e d X"
  shows "vol e" "holds_but e d X" "\<And>blk. blk \<in> X \<Longrightarrow> vblock e blk \<and> owned e blk (ncar e)"
    "\<And>blk. vblock e blk \<Longrightarrow> blk \<notin> X \<Longrightarrow> holds_at e d blk"
  using assms by (auto simp: busy_def holds_but_def)

lemma busy_owned:
  assumes "busy e d X" "vblock e blk" "mapped e blk"
  shows "owned e blk (ncar e)"
proof (cases "blk \<in> X")
  case True
  then show ?thesis using busyD(3) [OF assms(1)] by blast
next
  case False
  note h = busyD(2) [OF assms(1), unfolded holds_but_def]
  have "set (ptrs e blk) \<inter> set (ptrs e blk') = {}" if "vblock e blk'" "mapped e blk'" "blk' \<noteq> blk" for blk'
  proof (cases "blk' \<in> X")
    case True
    then have "owned e blk' (ncar e)" using busyD(3) [OF assms(1)] by blast
    then show ?thesis using assms(2,3) that(3) by (auto simp: owned_def)
  next
    case out: False
    then show ?thesis using h assms(2,3) False that by blast
  qed
  moreover have "distinct (ptrs e blk) \<and> set (ptrs e blk) \<subseteq> vtaken e" using h assms(2,3) False by blast
  ultimately show ?thesis by (simp add: owned_def)
qed

lemma busy_taken: "busy e d X \<Longrightarrow> vblock e blk \<Longrightarrow> mapped e blk \<Longrightarrow> set (ptrs e blk) \<subseteq> vtaken e"
  using busy_owned by (fastforce simp: owned_def)

lemma busy_apart: "busy e d X \<Longrightarrow> vblock e blk \<Longrightarrow> mapped e blk \<Longrightarrow> vblock e blk' \<Longrightarrow> mapped e blk' \<Longrightarrow> blk \<noteq> blk' \<Longrightarrow>
    set (ptrs e blk) \<inter> set (ptrs e blk') = {}"
  using busy_owned by (fastforce simp: owned_def)

text \<open>An operation on behalf of \<open>blk\<close> leaves the others busy, or idle, as they are.\<close>

lemma busy_keeps:
  assumes "busy e d X" "keeps {blk} Y e e'" "vblock e blk" "owned e' blk (ncar e)" "\<And>b. b \<in> Y \<Longrightarrow> mapped e blk \<and> b \<in> set (ptrs e blk)"
  shows "busy e' d (insert blk X)"
proof -
  note k = keepsD [OF assms(2)] and vol = busyD(1) [OF assms(1)]
  have same: "ptrs e' b = ptrs e b" "mapped e' b = mapped e b" if "vblock e b" "b \<noteq> blk" for b
    using keeps_ptrs [OF assms(2) that(1)] keeps_mapped [OF assms(2) that(1) _ vol] that(2) by simp_all
  have apart: "set (ptrs e b) \<inter> Y = {}" if "vblock e b" "b \<noteq> blk" "mapped e b" for b
    using busy_apart [OF assms(1) that(1,3) assms(3)] assms(5) that(2) by blast
  have but: "holds_but e d (insert blk X)" using busyD(2) [OF assms(1)] unfolding holds_but_def by blast
  have "holds_but e' d (insert blk X)"
    by (rule keeps_holds [OF but keeps_mono [OF assms(2)]]) (use apart in auto)
  moreover have "owned e' b (ncar e')" if b: "b \<in> X" "b \<noteq> blk" for b
  proof -
    have o: "vblock e b" "owned e b (ncar e)" using busyD(3) [OF assms(1) b(1)] by simp_all
    then have "mapped e b" using owned_mapped [OF vol o(2)] volD(5) [OF vol] by simp
    then have blk: "set (ptrs e' blk) \<inter> set (ptrs e' b) = {}"
      using assms(4) o(1) b(2) same k(2,9) by (auto simp: owned_def)
    have "set (ptrs e b) \<inter> set (ptrs e' b') = {}" if "vblock e b'" "mapped e' b'" "b' \<noteq> b" for b'
    proof (cases "b' = blk")
      case True
      then show ?thesis using blk same(1) [OF o(1) b(2)] by auto
    next
      case False
      then show ?thesis using o(2) same [OF that(1)] that by (auto simp: owned_def)
    qed
    then show ?thesis using o(2) same [OF o(1) b(2)] k(2,5,9) by (auto simp: owned_def)
  qed
  ultimately show ?thesis using assms(3,4) k(2,9) busyD(3) [OF assms(1)] unfolding busy_def by auto
qed

lemma busy_insert:
  assumes "busy e d X" "blk \<in> X" "stored e blk D"
  shows "busy e (d(blk \<mapsto> D)) (X - {blk})"
proof -
  note vol = busyD(1) [OF assms(1)]
  have o: "vblock e blk" "owned e blk (ncar e)" using busyD(3) [OF assms(1,2)] by simp_all
  have m: "mapped e blk" using owned_mapped [OF vol o(2)] volD(5) [OF vol] by simp
  have at: "holds_at e (d(blk \<mapsto> D)) b" if "vblock e b" "b \<notin> X - {blk}" for b
    using busyD(4) [OF assms(1) that(1)] that(2) m assms(3) by (cases "b = blk") (auto simp: holds_at_def)
  have pl: "distinct (ptrs e b) \<and> set (ptrs e b) \<subseteq> vtaken e" if "vblock e b" "mapped e b" for b
    using busy_owned [OF assms(1) that] by (simp add: owned_def)
  have "holds_but e (d(blk \<mapsto> D)) (X - {blk})"
    unfolding holds_but_def using vol at pl busy_apart [OF assms(1)] by blast
  then show ?thesis using busyD(3) [OF assms(1)] by (simp add: busy_def)
qed

lemma busy_keeps0:
  assumes "busy e d X" "keeps {} {} e e'"
  shows "busy e' d X"
proof -
  have k: "keeps A B e e'" for A B using keeps_mono [OF assms(2)] by simp
  have "holds_but e' d X" by (rule keeps_holds [OF busyD(2) [OF assms(1)] k [of X "{}"]]) simp
  moreover have "vblock e' blk \<and> owned e' blk (ncar e')" if "blk \<in> X" for blk
    using busyD(3) [OF assms(1) that] owned_keeps [OF k busyD(1) [OF assms(1)], of blk "ncar e"]
      keeps_ptrs [OF assms(2), of blk] keepsD(2,9) [OF assms(2)] by simp
  ultimately show ?thesis by (simp add: busy_def)
qed

section \<open>Carrier blocks for a write\<close>

text \<open>The carrier blocks a virtual block has.\<close>

definition homes :: "engine \<Rightarrow> u32 \<Rightarrow> u32 set" where
  "homes e blk = (if mapped e blk then set (ptrs e blk) else {})"

text \<open>\<open>acquires n fs v k\<close>: the next \<open>n\<close> calls of \<open>acquire_block\<close> give blocks. \<open>room e\<close>: there is room for one more
  block, whatever memory and random bytes are used before the carrier blocks are drawn.\<close>

fun acquires :: "nat \<Rightarrow> afs_passive_fs \<Rightarrow> afs_allocation_vector \<Rightarrow> kernel \<Rightarrow> bool" where
  "acquires 0 fs v k \<longleftrightarrow> True"
| "acquires (Suc n) fs v k \<longleftrightarrow>
     (case acquire_block fs v k of None \<Rightarrow> False | Some (b, v, k) \<Rightarrow> b \<noteq> AFS_INVALID_BLOCK \<and> acquires n fs v k)"

definition room :: "engine \<Rightarrow> bool" where
  "room e \<longleftrightarrow> (\<forall>k. quiet (e_k e) k \<longrightarrow> acquires (ncar e) (vfs e) (vector (e_ctx e)) k)"

text \<open>\<open>acquired\<close>: allocation vector and kernel after the draws. \<open>rooms n m fs v \<rho>\<close>: there is room for \<open>n\<close> times \<open>m\<close> blocks, wherever in the stream
  \<open>\<rho>\<close> of random bytes the draws for each \<open>m\<close> of them start.\<close>

fun acquired :: "nat \<Rightarrow> afs_passive_fs \<Rightarrow> afs_allocation_vector \<Rightarrow> kernel \<Rightarrow> afs_allocation_vector \<times> kernel" where
  "acquired 0 fs v k = (v, k)"
| "acquired (Suc n) fs v k = (case acquire_block fs v k of None \<Rightarrow> (v, k) | Some (b, v, k) \<Rightarrow> acquired n fs v k)"

fun rooms :: "nat \<Rightarrow> nat \<Rightarrow> afs_passive_fs \<Rightarrow> afs_allocation_vector \<Rightarrow> (nat \<Rightarrow> u8) \<Rightarrow> bool" where
  "rooms 0 m fs v \<rho> \<longleftrightarrow> True"
| "rooms (Suc n) m fs v \<rho> \<longleftrightarrow> (\<forall>k. k_rand k = \<rho> \<longrightarrow> acquires m fs v k \<and> rooms n m fs (fst (acquired m fs v k)) \<rho>)"

definition room_for :: "nat \<Rightarrow> engine \<Rightarrow> bool" where
  "room_for n e \<longleftrightarrow> rooms n (ncar e) (vfs e) (vector (e_ctx e)) (k_rand (e_k e))"

lemma room_for_room: "room_for (Suc n) e \<Longrightarrow> room e"
  by (auto simp: room_for_def room_def quiet_def)

text \<open>The carrier blocks of every other block are taken.\<close>

definition others_taken :: "engine \<Rightarrow> u32 \<Rightarrow> bool" where
  "others_taken e blk \<longleftrightarrow> (\<forall>blk'. vblock e blk' \<and> mapped e blk' \<and> blk' \<noteq> blk \<longrightarrow> set (ptrs e blk') \<subseteq> vtaken e)"

lemma others_takenI: "holds_but e d {blk} \<Longrightarrow> others_taken e blk"
  by (auto simp: holds_but_def others_taken_def)

lemma owned_0 [simp]: "owned e blk 0"
  by (simp add: owned_def)

lemma assign_place:
  assumes "vol e" "vblock e blk" "i < ncar e" "owned e blk i" "others_taken e blk"
    and "acquire_block (vfs e) (vector (e_ctx e)) (e_k e) = Some (b, v, k)" "b \<noteq> AFS_INVALID_BLOCK"
  shows "\<exists>e2. put_ptr (e\<lparr>e_ctx := (e_ctx e)\<lparr>vector := v\<rparr>, e_k := k\<rparr>) (epos e blk) i b = Some e2 \<and> keeps {blk} {} e e2 \<and>
    e_k e2 = k \<and> vector (e_ctx e2) = v \<and> owned e2 blk (Suc i) \<and> others_taken e2 blk \<and>
    (\<forall>j < ncar e. eptr e2 blk j = (if j = i then b else eptr e blk j))"
proof -
  let ?e1 = "e\<lparr>e_ctx := (e_ctx e)\<lparr>vector := v\<rparr>, e_k := k\<rparr>"
  note acq = keeps_acquire(1) [OF assms(1,6,7), of "{blk}" "{}"] keeps_acquire(2,3) [OF assms(1,6,7)]
  note k1 = keepsD [OF acq(1)]
  have e1: "eptr ?e1 = eptr e" "esum ?e1 = esum e" "epos ?e1 = epos e"
    by (simp_all add: fun_eq_iff eptr_def esum_def epos_def)
  obtain m where m: "put_ptr ?e1 (epos e blk) i b = Some (put_map m ?e1)" "length m = length (vmap ?e1)"
      "\<forall>blk' j. vblock ?e1 blk' \<and> j < ncar ?e1 \<longrightarrow> eptr (put_map m ?e1) blk' j = (if blk' = blk \<and> j = i then b else eptr ?e1 blk' j) \<and>
        esum (put_map m ?e1) blk' j = esum ?e1 blk' j"
    using put_ptr_effect [OF k1(1), of blk i b] assms(2,3) e1(3) k1(9) by auto
  let ?e2 = "put_map m ?e1"
  have ptr: "eptr ?e2 blk' j = (if blk' = blk \<and> j = i then b else eptr e blk' j)" if "vblock e blk'" "j < ncar e" for blk' j
    using m(3) that e1(1) k1(9) by simp
  have "keeps {blk} {} ?e1 ?e2" using m(2,3) by (intro keeps_put_map [OF k1(1)]) auto
  then have keep: "keeps {blk} {} e ?e2" using acq(1) keeps_trans by blast
  have other: "ptrs ?e2 blk' = ptrs e blk' \<and> mapped ?e2 blk' = mapped e blk'" if "vblock e blk'" "blk' \<noteq> blk" for blk'
    using keeps_ptrs [OF keep that(1)] keeps_mapped [OF keep that(1) _ assms(1)] that(2) by simp
  have "take i (ptrs ?e2 blk) = take i (ptrs e blk)"
    using assms(2,3) ptr by (intro nth_equalityI) simp_all
  then have take: "take (Suc i) (ptrs ?e2 blk) = take i (ptrs e blk) @ [b]"
    using assms(2,3) ptr by (simp add: take_Suc_conv_app_nth)
  have tk: "vtaken ?e2 = taken_blocks (vfs e) v" by simp
  have pl: "distinct (take i (ptrs e blk))" "set (take i (ptrs e blk)) \<subseteq> vtaken e"
    "\<And>blk'. vblock e blk' \<Longrightarrow> mapped e blk' \<Longrightarrow> blk' \<noteq> blk \<Longrightarrow> set (take i (ptrs e blk)) \<inter> set (ptrs e blk') = {}"
    using assms(4) by (simp_all add: owned_def)
  have sub: "vtaken e \<subseteq> vtaken ?e2" using keepsD(5) [OF keep] .
  have "owned ?e2 blk (Suc i)" unfolding owned_def
  proof (intro conjI allI impI)
    show "distinct (take (Suc i) (ptrs ?e2 blk))" using take pl(1,2) acq(2) by auto
    show "set (take (Suc i) (ptrs ?e2 blk)) \<subseteq> vtaken ?e2" using take pl(2) sub acq(3) tk by auto
    fix blk' assume "vblock ?e2 blk' \<and> mapped ?e2 blk' \<and> blk' \<noteq> blk"
    then have b': "vblock e blk'" "mapped e blk'" "blk' \<noteq> blk" "ptrs ?e2 blk' = ptrs e blk'"
      using other [of blk'] k1(9) by auto
    then have "b \<notin> set (ptrs e blk')" using assms(5) acq(2) by (auto simp: others_taken_def)
    then show "set (take (Suc i) (ptrs ?e2 blk)) \<inter> set (ptrs ?e2 blk') = {}" using take pl(3) [OF b'(1-3)] b'(4) by auto
  qed
  moreover have "others_taken ?e2 blk"
    using assms(5) other sub k1(9) by (fastforce simp: others_taken_def)
  ultimately show ?thesis using m(1) keep ptr assms(2) by (intro exI [of _ ?e2]) simp
qed

lemma assign_fresh:
  assumes "vol e" "vblock e blk" "map_entry req = epos e blk" "length (block_nums req) = 8" "i + n = ncar e"
    and "acquires n (vfs e) (vector (e_ctx e)) (e_k e)" "owned e blk i" "others_taken e blk" "\<forall>j < i. block_nums req ! j = eptr e blk j"
    and "T \<subseteq> vtaken e" "\<forall>j < i. eptr e blk j \<notin> T"
  shows "\<exists>ns e'. assign_blocks False n i req e = Some (0, req\<lparr>block_nums := ns\<rparr>, e') \<and> length ns = 8 \<and> keeps {blk} {} e e' \<and>
    owned e' blk (ncar e) \<and> (\<forall>j < ncar e. ns ! j = eptr e' blk j) \<and> (\<forall>j < ncar e. eptr e' blk j \<notin> T) \<and>
    vector (e_ctx e') = fst (acquired n (vfs e) (vector (e_ctx e)) (e_k e))"
  using assms
proof (induction n arbitrary: i req e)
  case 0
  then show ?case by (intro exI [of _ "block_nums req"] exI [of _ e]) (auto intro: keeps_refl)
next
  case (Suc n)
  obtain b v k where acq: "acquire_block (vfs e) (vector (e_ctx e)) (e_k e) = Some (b, v, k)" "b \<noteq> AFS_INVALID_BLOCK" "acquires n (vfs e) v k"
    using Suc.prems(6) by (auto split: option.splits)
  have i: "i < ncar e" using Suc.prems(5) by simp
  obtain e2 where e2: "put_ptr (e\<lparr>e_ctx := (e_ctx e)\<lparr>vector := v\<rparr>, e_k := k\<rparr>) (epos e blk) i b = Some e2" "keeps {blk} {} e e2"
      "e_k e2 = k" "vector (e_ctx e2) = v" "owned e2 blk (Suc i)" "others_taken e2 blk"
      "\<forall>j < ncar e. eptr e2 blk j = (if j = i then b else eptr e blk j)"
    using assign_place [OF Suc.prems(1,2) i Suc.prems(7,8) acq(1,2)] by blast
  note k2 = keepsD [OF e2(2)]
  define r2 where "r2 = req\<lparr>block_nums := (block_nums req)[i := b]\<rparr>"
  have i8: "i < 8" using i volD(6) [OF Suc.prems(1)] by simp
  have nums: "\<forall>j < Suc i. block_nums r2 ! j = eptr e2 blk j"
    using Suc.prems(4,9) e2(7) i i8 by (auto simp: r2_def nth_list_update less_Suc_eq)
  have "b \<notin> T" using keeps_acquire(2) [OF Suc.prems(1) acq(1,2)] Suc.prems(10) by blast
  then have new: "\<forall>j < Suc i. eptr e2 blk j \<notin> T" using e2(7) i Suc.prems(11) by (auto simp: less_Suc_eq)
  have T: "T \<subseteq> vtaken e2" using Suc.prems(10) k2(5) by (rule subset_trans)
  have "\<exists>ns e'. assign_blocks False n (Suc i) r2 e2 = Some (0, r2\<lparr>block_nums := ns\<rparr>, e') \<and> length ns = 8 \<and> keeps {blk} {} e2 e' \<and>
      owned e' blk (ncar e2) \<and> (\<forall>j < ncar e2. ns ! j = eptr e' blk j) \<and> (\<forall>j < ncar e2. eptr e' blk j \<notin> T) \<and>
      vector (e_ctx e') = fst (acquired n (vfs e2) (vector (e_ctx e2)) (e_k e2))"
  proof (rule Suc.IH [OF k2(1) _ _ _ _ _ e2(5,6) nums T new])
    show "acquires n (vfs e2) (vector (e_ctx e2)) (e_k e2)" using acq(3) e2(3,4) k2(3) by simp
  qed (use Suc.prems k2 in \<open>simp_all add: r2_def\<close>)
  then obtain ns e' where ns: "assign_blocks False n (Suc i) r2 e2 = Some (0, r2\<lparr>block_nums := ns\<rparr>, e')" "length ns = 8" "keeps {blk} {} e2 e'"
      "owned e' blk (ncar e)" "\<forall>j < ncar e. ns ! j = eptr e' blk j" "\<forall>j < ncar e. eptr e' blk j \<notin> T"
      "vector (e_ctx e') = fst (acquired n (vfs e) v k)" using k2(2,3) e2(3,4) by auto
  have "assign_blocks False (Suc n) i req e = Some (0, r2\<lparr>block_nums := ns\<rparr>, e')"
    using acq(1,2) e2(1) ns(1) i8 Suc.prems(3,4) by (simp add: acquire_def put_block_num_def r2_def)
  then show ?case using ns acq(1) keeps_trans [OF e2(2) ns(3)] by (intro exI [of _ ns] exI [of _ e']) (simp add: r2_def)
qed

lemma assign_same:
  assumes "vol e" "vblock e blk" "map_entry req = epos e blk" "length (block_nums req) = 8" "i + n = ncar e"
    and "\<forall>j < ncar e. eptr e blk j \<noteq> AFS_INVALID_BLOCK" "\<forall>j < i. block_nums req ! j = eptr e blk j"
  shows "\<exists>ns e'. assign_blocks True n i req e = Some (0, req\<lparr>block_nums := ns\<rparr>, e') \<and> length ns = 8 \<and> keeps {} {} e e' \<and>
    (\<forall>j < ncar e. ns ! j = eptr e' blk j) \<and> vector (e_ctx e') = vector (e_ctx e)"
  using assms
proof (induction n arbitrary: i req e)
  case 0
  then show ?case by (intro exI [of _ "block_nums req"] exI [of _ e]) (auto intro: keeps_refl)
next
  case (Suc n)
  have i: "i < ncar e" using Suc.prems(5) by simp
  let ?b = "eptr e blk i"
  obtain m where m: "put_ptr e (epos e blk) i ?b = Some (put_map m e)" "length m = length (vmap e)"
      "\<forall>blk' j. vblock e blk' \<and> j < ncar e \<longrightarrow> eptr (put_map m e) blk' j = (if blk' = blk \<and> j = i then ?b else eptr e blk' j) \<and>
        esum (put_map m e) blk' j = esum e blk' j"
    using put_ptr_effect [OF Suc.prems(1,2) i, of ?b] by blast
  let ?e2 = "put_map m e"
  have k: "keeps {} {} e ?e2" using m(3) by (intro keeps_put_map [OF Suc.prems(1) m(2)]) auto
  note k2 = keepsD [OF k]
  define r2 where "r2 = req\<lparr>block_nums := (block_nums req)[i := ?b]\<rparr>"
  have i8: "i < 8" using i volD(6) [OF Suc.prems(1)] by simp
  have ptr: "eptr ?e2 blk j = eptr e blk j" if "j < ncar e" for j using k2(6) [OF Suc.prems(2) _ that] by simp
  have "\<exists>ns e'. assign_blocks True n (Suc i) r2 ?e2 = Some (0, r2\<lparr>block_nums := ns\<rparr>, e') \<and> length ns = 8 \<and> keeps {} {} ?e2 e' \<and>
      (\<forall>j < ncar ?e2. ns ! j = eptr e' blk j) \<and> vector (e_ctx e') = vector (e_ctx ?e2)"
  proof (rule Suc.IH [OF k2(1)])
    show "\<forall>j < Suc i. block_nums r2 ! j = eptr ?e2 blk j"
      using Suc.prems(4,7) ptr i i8 by (auto simp: r2_def nth_list_update less_Suc_eq)
    show "\<forall>j < ncar ?e2. eptr ?e2 blk j \<noteq> AFS_INVALID_BLOCK" using Suc.prems(6) ptr by simp
  qed (use Suc.prems k2 in \<open>simp_all add: r2_def\<close>)
  then obtain ns e' where ns: "assign_blocks True n (Suc i) r2 ?e2 = Some (0, r2\<lparr>block_nums := ns\<rparr>, e')" "length ns = 8" "keeps {} {} ?e2 e'"
      "\<forall>j < ncar e. ns ! j = eptr e' blk j" "vector (e_ctx e') = vector (e_ctx e)" by auto
  have "assign_blocks True (Suc n) i req e = Some (0, r2\<lparr>block_nums := ns\<rparr>, e')"
    using m(1) ns(1) i8 Suc.prems(3,4,6) i get_ptr_eptr [OF Suc.prems(1,2) i] by (simp add: put_block_num_def r2_def)
  then show ?case using ns keeps_trans [OF k ns(3)] by (intro exI [of _ ns] exI [of _ e']) (simp add: r2_def)
qed

end
