(* ===== verification/Afs_Bio.thy ===== *)
theory Afs_Bio
  imports Afs_Dispatch
begin

text \<open>
  The bytes a bio carries: its payload is the first \<open>bi_size\<close> bytes of its segments. The loops over segments
  copy exactly the payload, and \<open>afs_map\<close> trims a bio to its first block.
\<close>

section \<open>The bytes of a bio\<close>

definition seg_bytes :: "bio_vec \<Rightarrow> bytes" where
  "seg_bytes bv = sub (bv_page bv) (unat (bv_offset bv)) (unat (bv_len bv))"

definition segs_ok :: "bio_vec list \<Rightarrow> bool" where
  "segs_ok bvs \<longleftrightarrow> (\<forall>bv \<in> set bvs. unat (bv_offset bv) + unat (bv_len bv) \<le> length (bv_page bv))"

definition segs_size :: "bio_vec list \<Rightarrow> nat" where
  "segs_size bvs = (\<Sum>bv\<leftarrow>bvs. unat (bv_len bv))"

definition payload :: "bio \<Rightarrow> bytes" where
  "payload b = take (unat (bi_size b)) (concat (map seg_bytes (bi_io_vec b)))"

lemma length_seg_bytes: "unat (bv_offset bv) + unat (bv_len bv) \<le> length (bv_page bv) \<Longrightarrow> length (seg_bytes bv) = unat (bv_len bv)"
  by (simp add: seg_bytes_def)

lemma length_segs: "segs_ok bvs \<Longrightarrow> length (concat (map seg_bytes bvs)) = segs_size bvs"
  by (induction bvs) (simp_all add: segs_ok_def segs_size_def length_seg_bytes)

lemma blit_blit_next:
  "off + length xs + length ys \<le> length d \<Longrightarrow> blit (blit d off xs) (off + length xs) ys = blit d off (xs @ ys)"
  by (simp add: blit_def ac_simps)

lemma seg_in_copies:
  assumes "segs_ok bvs" "unat todo \<le> segs_size bvs" "unat rsize = unat so + unat todo" "base + unat rsize \<le> length data"
  shows "seg_in data base rsize so todo bvs =
    Some (blit data (base + unat so) (take (unat todo) (concat (map seg_bytes bvs))))"
  using assms
proof (induction bvs arbitrary: data so todo)
  case Nil
  then show ?case by (simp add: segs_size_def blit_def)
next
  case (Cons bv bvs)
  show ?case
  proof (cases "todo = 0")
    case True
    then show ?thesis by (simp add: blit_def)
  next
    case False
    define len where "len = min (bv_len bv) todo"
    have len: "unat len = min (unat (bv_len bv)) (unat todo)" "len \<le> todo"
      by (auto simp: len_def min_def word_le_nat_alt)
    have rest: "rsize - so = todo"
    proof (rule unsigned_word_eqI)
      have "so \<le> rsize" using Cons.prems(3) by (simp add: word_le_nat_alt)
      then show "unat (rsize - so) = unat todo" using Cons.prems(3) by (simp add: unat_sub)
    qed
    have todo: "unat (todo - len) = unat todo - unat len" using len(2) by (simp add: unat_sub)
    have "unat rsize < 2 ^ LENGTH(32)" by (rule unsigned_less)
    then have "unat so + unat len < 2 ^ 32"
      using Cons.prems(3) len(1) by simp
    then have so: "unat (so + len) = unat so + unat len" by (simp add: unat_word_ariths)
    have bv: "unat (bv_offset bv) + unat (bv_len bv) \<le> length (bv_page bv)" "segs_ok bvs"
      using Cons.prems(1) by (simp_all add: segs_ok_def)
    define src where "src = sub (bv_page bv) (unat (bv_offset bv)) (unat len)"
    have src: "length src = unat len" "src = take (unat len) (seg_bytes bv)"
      using bv(1) len(1) by (simp_all add: src_def seg_bytes_def sub_def)
    let ?d = "blit data (base + unat so) src"
    have room: "base + unat so + unat len \<le> length data" using Cons.prems(3,4) len(1) by simp
    have in_page: "unat (bv_offset bv) + unat len \<le> length (bv_page bv)" using bv(1) len(1) by simp
    have IH: "seg_in ?d base rsize (so + len) (todo - len) bvs =
        Some (blit ?d (base + unat (so + len)) (take (unat (todo - len)) (concat (map seg_bytes bvs))))"
    proof (rule Cons.IH [OF bv(2)])
      show "unat (todo - len) \<le> segs_size bvs" using Cons.prems(2) todo len(1) by (auto simp: segs_size_def)
      show "unat rsize = unat (so + len) + unat (todo - len)" using Cons.prems(3) so todo len(1) by simp
      show "base + unat rsize \<le> length ?d" using Cons.prems(4) room src(1) by simp
    qed
    have run: "seg_in data base rsize so todo (bv # bvs) = seg_in ?d base rsize (so + len) (todo - len) bvs"
      using False rest len(2) in_page room src(1)
      by (simp add: len_def [symmetric] Let_def peek_def poke_def src_def [symmetric])
    have total: "length (concat (map seg_bytes bvs)) = segs_size bvs" using bv(2) by (rule length_segs)
    have split: "take (unat todo) (concat (map seg_bytes (bv # bvs))) = src @ take (unat todo - unat len) (concat (map seg_bytes bvs))"
      using src(2) len(1) length_seg_bytes [OF bv(1)] by (auto simp: min_def)
    have "unat todo - unat len \<le> segs_size bvs" using Cons.prems(2) len(1) by (auto simp: segs_size_def)
    then have "blit ?d (base + unat so + unat len) (take (unat todo - unat len) (concat (map seg_bytes bvs))) =
        blit data (base + unat so) (src @ take (unat todo - unat len) (concat (map seg_bytes bvs)))"
      using Cons.prems(3,4) len(1) src(1) total
      by (intro blit_blit_next [of "base + unat so" src _ data, unfolded src(1)]) simp
    then show ?thesis using run IH so todo split by (simp add: add.assoc)
  qed
qed

lemma seg_out_copies:
  assumes "segs_ok bvs" "unat todo \<le> segs_size bvs" "unat rsize = unat so + unat todo" "base + unat rsize \<le> length data"
  shows "\<exists>bvs'. seg_out data base rsize so todo bvs = Some bvs' \<and> map bv_len bvs' = map bv_len bvs \<and>
    take (unat todo) (concat (map seg_bytes bvs')) = sub data (base + unat so) (unat todo)"
  using assms
proof (induction bvs arbitrary: so todo)
  case Nil
  then show ?case by (simp add: segs_size_def sub_def)
next
  case (Cons bv bvs)
  show ?case
  proof (cases "todo = 0")
    case True
    then show ?thesis by (simp add: sub_def)
  next
    case False
    define len where "len = min (bv_len bv) todo"
    have len: "unat len = min (unat (bv_len bv)) (unat todo)" "len \<le> todo"
      by (auto simp: len_def min_def word_le_nat_alt)
    have rest: "rsize - so = todo"
    proof (rule unsigned_word_eqI)
      have "so \<le> rsize" using Cons.prems(3) by (simp add: word_le_nat_alt)
      then show "unat (rsize - so) = unat todo" using Cons.prems(3) by (simp add: unat_sub)
    qed
    have todo: "unat (todo - len) = unat todo - unat len" using len(2) by (simp add: unat_sub)
    have "unat rsize < 2 ^ LENGTH(32)" by (rule unsigned_less)
    then have "unat so + unat len < 2 ^ 32"
      using Cons.prems(3) len(1) by simp
    then have so: "unat (so + len) = unat so + unat len" by (simp add: unat_word_ariths)
    have bv: "unat (bv_offset bv) + unat (bv_len bv) \<le> length (bv_page bv)" "segs_ok bvs"
      using Cons.prems(1) by (simp_all add: segs_ok_def)
    obtain bvs' where IH: "seg_out data base rsize (so + len) (todo - len) bvs = Some bvs'" "map bv_len bvs' = map bv_len bvs"
        "take (unat (todo - len)) (concat (map seg_bytes bvs')) = sub data (base + unat (so + len)) (unat (todo - len))"
    proof -
      have "\<exists>bvs'. seg_out data base rsize (so + len) (todo - len) bvs = Some bvs' \<and> map bv_len bvs' = map bv_len bvs \<and>
        take (unat (todo - len)) (concat (map seg_bytes bvs')) = sub data (base + unat (so + len)) (unat (todo - len))"
      proof (rule Cons.IH [OF bv(2)])
        show "unat (todo - len) \<le> segs_size bvs" using Cons.prems(2) todo len(1) by (auto simp: segs_size_def)
        show "unat rsize = unat (so + len) + unat (todo - len)" using Cons.prems(3) so todo len(1) by simp
      qed (rule Cons.prems(4))
      then show ?thesis using that by blast
    qed
    define src where "src = sub data (base + unat so) (unat len)"
    have room: "base + unat so + unat len \<le> length data" using Cons.prems(3,4) len(1) by simp
    have src: "length src = unat len" using room by (simp add: src_def)
    have in_page: "unat (bv_offset bv) + unat len \<le> length (bv_page bv)" using bv(1) len(1) by simp
    define bv' where "bv' = bv\<lparr>bv_page := blit (bv_page bv) (unat (bv_offset bv)) src\<rparr>"
    have run: "seg_out data base rsize so todo (bv # bvs) = Some (bv' # bvs')"
      using False rest len(2) room src in_page IH(1)
      by (simp add: len_def [symmetric] Let_def peek_def poke_def src_def [symmetric] bv'_def)
    have bytes: "take (unat len) (seg_bytes bv') = src" "length (seg_bytes bv') = unat (bv_len bv)"
    proof -
      have "sub (blit (bv_page bv) (unat (bv_offset bv)) src) (unat (bv_offset bv)) (unat len) = src"
        using in_page src by (intro sub_blit_same_len) simp_all
      then show "take (unat len) (seg_bytes bv') = src"
        using len(1) by (simp add: bv'_def seg_bytes_def sub_def min_def)
      show "length (seg_bytes bv') = unat (bv_len bv)" using bv(1) src in_page by (simp add: bv'_def seg_bytes_def)
    qed
    have "take (unat todo) (concat (map seg_bytes (bv' # bvs'))) = src @ take (unat todo - unat len) (concat (map seg_bytes bvs'))"
      using bytes len(1) by (auto simp: min_def)
    also have "\<dots> = sub data (base + unat so) (unat todo)"
    proof -
      have "sub data (base + unat so) (unat len) @ sub data (base + unat so + unat len) (unat todo - unat len) =
          sub data (base + unat so) (unat len + (unat todo - unat len))"
        unfolding sub_def by (simp only: take_add drop_drop) (simp add: add.commute)
      then show ?thesis using IH(3) so todo len(1) by (simp add: src_def add.assoc)
    qed
    finally show ?thesis using run IH(2) by (simp add: bv'_def)
  qed
qed

text \<open>A bio as the block layer makes it: whole sectors, at least one and at most the segments hold.\<close>

definition bio_ok :: "bio \<Rightarrow> bool" where
  "bio_ok b \<longleftrightarrow> segs_ok (bi_io_vec b) \<and> unat (bi_size b) \<le> segs_size (bi_io_vec b) \<and> 512 dvd unat (bi_size b) \<and> 0 < bi_size b"

definition bio_base :: "bio \<Rightarrow> nat" where
  "bio_base b = 512 * unat (bi_sector b mod 8)"

lemma unat_bio_sectors: "unat (bio_sectors b) = unat (bi_size b) div 512"
  by (simp add: bio_sectors_def drop_bit_eq_div unat_div_distrib)

lemma unat_sectors_bytes: "unat (n :: u32) \<le> 8 \<Longrightarrow> unat (push_bit 9 n) = 512 * unat n"
  by (simp add: push_bit_eq_mult unat_word_ariths)

lemma trim_bio_ok:
  assumes "bio_ok b"
  shows "bio_ok (trim_bio b)" "bio_base (trim_bio b) = bio_base b" "bio_op (trim_bio b) = bio_op b"
    "bi_sector (trim_bio b) = bi_sector b" "bio_base b + unat (bi_size (trim_bio b)) \<le> 4096"
    "bio_sectors (trim_bio b) * AFS_SECTOR_SIZE = bi_size (trim_bio b)"
proof -
  define so where "so = unat (bi_sector b mod 8)"
  have so: "so < 8"
  proof -
    have "bi_sector b mod 8 < 8" by (simp add: word_mod_less_divisor)
    then show ?thesis by (simp add: so_def word_less_nat_alt)
  qed
  have mx: "unat (AFS_SECTORS_PER_BLOCK - ucast (bi_sector b mod 8)) = 8 - so"
  proof -
    have u: "unat (ucast (bi_sector b mod 8) :: u32) = so" using so by (simp add: so_def unsigned_ucast_eq take_bit_nat_eq_self)
    then have "(ucast (bi_sector b mod 8) :: u32) \<le> 8" using so by (simp add: word_le_nat_alt)
    then show ?thesis using u by (simp add: AFS_SECTORS_PER_BLOCK_def unat_sub)
  qed
  obtain s where s: "unat (bi_size b) = 512 * s" using assms by (auto simp: bio_ok_def)
  then have sec: "unat (bio_sectors b) = s" by (simp add: unat_bio_sectors)
  define t where "t = (if s > 8 - so then 8 - so else s)"
  have size: "unat (bi_size (trim_bio b)) = 512 * t"
  proof (cases "s > 8 - so")
    case True
    have "unat (push_bit 9 (AFS_SECTORS_PER_BLOCK - ucast (bi_sector b mod 8))) = 512 * (8 - so)"
      using unat_sectors_bytes [of "AFS_SECTORS_PER_BLOCK - ucast (bi_sector b mod 8)"] mx by simp
    then show ?thesis
      using True mx sec by (simp add: trim_bio_def t_def dm_accept_partial_bio_def word_less_nat_alt Let_def)
  next
    case False
    then show ?thesis using mx sec s by (simp add: trim_bio_def t_def word_less_nat_alt Let_def)
  qed
  show same: "bi_sector (trim_bio b) = bi_sector b" "bio_op (trim_bio b) = bio_op b"
    by (simp_all add: trim_bio_def dm_accept_partial_bio_def Let_def)
  then show "bio_base (trim_bio b) = bio_base b" by (simp add: bio_base_def)
  have "bi_io_vec (trim_bio b) = bi_io_vec b" by (simp add: trim_bio_def dm_accept_partial_bio_def Let_def)
  moreover have "0 < s" using assms s by (cases s) (auto simp: bio_ok_def word_gt_0 unat_eq_0)
  then have "0 < t" "t \<le> s" using so by (auto simp: t_def)
  ultimately show "bio_ok (trim_bio b)"
    using assms size s by (auto simp: bio_ok_def word_gt_0_no word_less_nat_alt)
  have "so + t \<le> 8" using so by (auto simp: t_def)
  then show "bio_base b + unat (bi_size (trim_bio b)) \<le> 4096" using size by (simp add: bio_base_def so_def)
  show "bio_sectors (trim_bio b) * AFS_SECTOR_SIZE = bi_size (trim_bio b)"
  proof (rule unsigned_word_eqI)
    have "unat (bio_sectors (trim_bio b)) = t" using size by (simp add: unat_bio_sectors)
    then show "unat (bio_sectors (trim_bio b) * AFS_SECTOR_SIZE) = unat (bi_size (trim_bio b))"
      using size \<open>so + t \<le> 8\<close> by (simp add: AFS_SECTOR_SIZE_def unat_word_ariths)
  qed
qed

text \<open>Copying between the data block of a request and the bio it was made for.\<close>

definition bio_req :: "bio \<Rightarrow> afs_map_request \<Rightarrow> bool" where
  "bio_req b req \<longleftrightarrow> bio_ok b \<and> bio_base b + unat (bi_size b) \<le> 4096 \<and> length (data_block req) = 4096 \<and>
     req_base req = bio_base b \<and> request_size req = bi_size b"

lemma length_payload: "bio_ok b \<Longrightarrow> length (payload b) = unat (bi_size b)"
  by (simp add: payload_def length_segs bio_ok_def)

lemma bio_take_ok:
  assumes "bio_req b req"
  shows "bio_take req b = Some (blit (data_block req) (bio_base b) (payload b))"
    "length (blit (data_block req) (bio_base b) (payload b)) = 4096"
  using assms seg_in_copies [of "bi_io_vec b" "bi_size b" "request_size req" 0 "bio_base b" "data_block req"]
  by (simp_all add: bio_req_def bio_take_def bio_ok_def payload_def length_segs)

lemma bio_fill_ok:
  assumes "bio_req b req"
  shows "\<exists>bvs. bio_fill req b = Some (b\<lparr>bi_io_vec := bvs\<rparr>) \<and>
    payload (b\<lparr>bi_io_vec := bvs\<rparr>) = sub (data_block req) (bio_base b) (unat (bi_size b))"
  using assms seg_out_copies [of "bi_io_vec b" "bi_size b" "request_size req" 0 "bio_base b" "data_block req"]
  by (auto simp: bio_req_def bio_fill_def bio_ok_def payload_def)

end
