(* ===== verification/Afs_Disk.thy ===== *)
theory Afs_Disk
  imports Afs_Contents Afs_Bio Afs_Mount
begin

text \<open>
  The engine as a disk: a write and a read of a block, with the completions of their carrier bios in any order,
  are a write and a read of the abstract disk that the volume holds.
\<close>

section \<open>A write\<close>

lemma encode_step:
  assumes "vol e" "vblock e blk" "rq_ok (ncar e) req" "map_entry req = epos e blk" "req_iv req = take 16 (passphrase_hash (e_ctx e))"
    and "tables_ok c"
  shows "\<exists>shares e'. encode_block c req e = Some (put_carriers shares req, e') \<and> pages_ok (ncar e) shares \<and>
    packed (vnonce e) (data_block req) shares \<and> keeps {} {} e e' \<and> quiet (e_k e) (e_k e') \<and> vector (e_ctx e') = vector (e_ctx e)"
proof -
  note v = volD [OF assms(1)]
  obtain diff where diff: "get_difference e (epos e blk) = Some diff" "length diff = 32" using get_difference_ok [OF assms(1,2)] by blast
  have car: "carriers e req = Some (rq_pages (ncar e) req)" using carriers_pages [OF assms(3) v(6)] .
  have data: "length (data_block req) = 4096" using assms(3) by (simp add: rq_ok_def)
  obtain diff' shares k where enc: "encode_aont_package c diff (data_block req) 4096 (rq_pages (ncar e) req) 2 (ncar e - 2) (vnonce e) (e_k e) =
      Some (0, diff', shares, k)" "length diff' = 32" "pages_ok (ncar e) shares" "packed (vnonce e) (data_block req) shares"
    using encode_pages [OF assms(6) v(8) data diff(2) v(5,6) rq_pages_ok [OF assms(3)]] by blast
  let ?e1 = "e\<lparr>e_k := k\<rparr>"
  have q: "quiet (e_k e) k" using encode_aont_quiet [OF enc(1)] .
  have k1: "keeps {} {} e ?e1" using keeps_kernel [OF assms(1) q] .
  have vol1: "vol ?e1" using keepsD(1) [OF k1] .
  obtain m where m: "map_put ?e1 (diff_pos ?e1 (epos e blk)) diff' = Some (put_map m ?e1)" "length m = length (vmap ?e1)"
      "\<forall>blk' j. vblock ?e1 blk' \<and> j < ncar ?e1 \<longrightarrow> eptr (put_map m ?e1) blk' j = eptr ?e1 blk' j \<and> esum (put_map m ?e1) blk' j = esum ?e1 blk' j"
    using put_difference_effect [OF vol1, of blk diff'] assms(2) enc(2) by auto
  have k2: "keeps {} {} ?e1 (put_map m ?e1)" using m(3) by (intro keeps_put_map [OF vol1 m(2)]) auto
  have "req_encoding_type req = AONT_RS" using assms(3) by (simp add: rq_ok_def)
  moreover have "diff_pos e = diff_pos ?e1" by (simp add: fun_eq_iff diff_pos_def)
  ultimately have "encode_block c req e = Some (put_carriers shares req, put_map m ?e1)"
    using car diff(1) enc(1) m(1) assms(4,5) v(5) by (simp add: encode_block_def AONT_RS_def SHAMIR_def)
  then show ?thesis
    using enc(3,4) keeps_trans [OF k1 k2] q by (intro exI [of _ shares] exI [of _ "put_map m ?e1"]) simp
qed

text \<open>A write to an allocated block goes to its carrier blocks; otherwise new ones are drawn.\<close>

lemma assign_ok:
  assumes "busy e d X" "vblock e blk" "map_entry req = epos e blk" "length (block_nums req) = 8"
    and "\<not> mapped e blk \<Longrightarrow> acquires (ncar e) (vfs e) (vector (e_ctx e)) (e_k e)"
  shows "\<exists>ns e'. assign_blocks (mapped e blk) (ncar e) 0 req e = Some (0, req\<lparr>block_nums := ns\<rparr>, e') \<and> length ns = 8 \<and>
    keeps {blk} {} e e' \<and> owned e' blk (ncar e) \<and> (\<forall>j < ncar e. ns ! j = eptr e' blk j) \<and> set (ptrs e' blk) \<inter> vtaken e = homes e blk \<and>
    vector (e_ctx e') = (if mapped e blk then vector (e_ctx e) else fst (acquired (ncar e) (vfs e) (vector (e_ctx e)) (e_k e)))"
proof (cases "mapped e blk")
  case True
  note vol = busyD(1) [OF assms(1)]
  have pl: "owned e blk (ncar e)" using busy_owned [OF assms(1,2) True] .
  then have sub: "set (ptrs e blk) \<subseteq> vtaken e" by (simp add: owned_def)
  then have "eptr e blk j \<in> vtaken e" if "j < ncar e" for j using nth_mem [of j "ptrs e blk"] that by auto
  then have "\<forall>j < ncar e. eptr e blk j \<noteq> AFS_INVALID_BLOCK" using vtaken_fits [OF vol] by blast
  then obtain ns e' where a: "assign_blocks True (ncar e) 0 req e = Some (0, req\<lparr>block_nums := ns\<rparr>, e')" "length ns = 8" "keeps {} {} e e'"
      "\<forall>j < ncar e. ns ! j = eptr e' blk j" "vector (e_ctx e') = vector (e_ctx e)" using assign_same [OF vol assms(2-4), of 0 "ncar e"] by auto
  have k: "keeps {blk} {} e e'" using keeps_mono [OF a(3)] by blast
  have same: "ptrs e' blk = ptrs e blk" using keeps_ptrs [OF a(3) assms(2)] by simp
  then have "owned e' blk (ncar e)" using owned_keeps k vol assms(2) pl by blast
  then show ?thesis using a True k same sub by (auto simp: homes_def)
next
  case False
  note vol = busyD(1) [OF assms(1)]
  have "others_taken e blk" using busy_taken [OF assms(1)] by (simp add: others_taken_def)
  then obtain ns e' where a: "assign_blocks False (ncar e) 0 req e = Some (0, req\<lparr>block_nums := ns\<rparr>, e')" "length ns = 8" "keeps {blk} {} e e'"
      "owned e' blk (ncar e)" "\<forall>j < ncar e. ns ! j = eptr e' blk j" "\<forall>j < ncar e. eptr e' blk j \<notin> vtaken e"
      "vector (e_ctx e') = fst (acquired (ncar e) (vfs e) (vector (e_ctx e)) (e_k e))"
    using assign_fresh [of e blk req 0 "ncar e" "vtaken e"] False assms vol by auto
  have "set (ptrs e' blk) \<inter> vtaken e = {}" using a(6) keepsD(2) [OF a(3)] by (auto simp: ptrs_def)
  then show ?thesis using a False by (auto simp: homes_def)
qed

lemma write_pages_ok:
  assumes "vol e" "rq_ok (ncar e) req"
  shows "\<exists>k. write_pages req (ncar e) e =
    Some (0, req\<lparr>bios_pending := ncar e\<rparr>, e\<lparr>e_k := k\<rparr>, [WriteIO (req\<lparr>bios_pending := ncar e\<rparr>) [0..<ncar e]]) \<and> quiet (e_k e) k"
proof -
  note v = volD [OF assms(1)]
  obtain p k where k: "kmalloc (8 * ncar e) (e_k e) = (Some p, k)" using kmalloc_alloc_ok v(8) by blast
  then show ?thesis
    using carriers_pages [OF assms(2) v(6)] v(5) kmalloc_quiet [OF k] by (intro exI [of _ k]) (simp add: write_pages_def Let_def)
qed

text \<open>A write whose carrier bios \<open>pend\<close> are under way: the carrier blocks are assigned, the pages hold the package, and
  those written are on the device. The blocks \<open>X\<close> are being written, this one among them.\<close>

definition writes :: "engine \<Rightarrow> u32 \<Rightarrow> bytes \<Rightarrow> afs_map_request \<Rightarrow> nat list \<Rightarrow> bool" where
  "writes e blk D req pend \<longleftrightarrow> rq_ok (ncar e) req \<and>
     map_entry req = epos e blk \<and> (\<forall>j < ncar e. block_nums req ! j = eptr e blk j) \<and> length D = 4096 \<and>
     packed (vnonce e) D (rq_pages (ncar e) req) \<and> bios_pending req = length pend \<and> pend \<noteq> [] \<and> distinct pend \<and>
     set pend \<subseteq> {..<ncar e} \<and> (\<forall>j < ncar e. j \<notin> set pend \<longrightarrow> vpage e (eptr e blk j) = rq_pages (ncar e) req ! j)"

definition writing :: "engine \<Rightarrow> (u32 \<Rightarrow> bytes option) \<Rightarrow> u32 set \<Rightarrow> u32 \<Rightarrow> bytes \<Rightarrow> afs_map_request \<Rightarrow> nat list \<Rightarrow> bool" where
  "writing e d X blk D req pend \<longleftrightarrow> busy e d X \<and> blk \<in> X \<and> writes e blk D req pend"

lemma start_write:
  assumes "busy e d X" "vblock e blk" "rq_ok (ncar e) req" "req_block req = blk" "req_iv req = take 16 (passphrase_hash (e_ctx e))"
    and "req_bio req = Bio b" "bio_req b req" "bio_op b = REQ_OP_WRITE" "mapped e blk \<or> room e" "tables_ok c"
  shows "\<exists>req' e'. afs_flightq c req e = Some (e', [WriteIO req' [0..<ncar e]]) \<and>
    writing e' d (insert blk X) blk (blit (data_block req) (bio_base b) (payload b)) req' [0..<ncar e] \<and> req_bio req' = Bio b \<and>
    e_ended e' = e_ended e \<and> keeps {blk} {} e e' \<and> set (ptrs e' blk) \<inter> vtaken e = homes e blk \<and>
    (if mapped e blk then vector (e_ctx e') = vector (e_ctx e)
     else \<exists>k. quiet (e_k e) k \<and> vector (e_ctx e') = fst (acquired (ncar e) (vfs e) (vector (e_ctx e)) k))"
proof -
  let ?D = "blit (data_block req) (bio_base b) (payload b)"
  have vol: "vol e" using busyD(1) [OF assms(1)] .
  note v = volD [OF vol]
  define r0 where "r0 = req\<lparr>req_state := REQ_STATE_FLIGHT, map_entry := epos e blk\<rparr>"
  have r0: "rq_ok (ncar e) (r0\<lparr>data_block := ?D\<rparr>)" using assms(3) bio_take_ok(2) [OF assms(7)] by (simp add: rq_ok_def r0_def)
  have take: "bio_take r0 b = Some ?D" using bio_take_ok(1) [OF assms(7)] by (simp add: bio_take_def req_base_def r0_def)
  obtain es where es: "number_shares (ncar e) (r0\<lparr>data_block := ?D\<rparr>) = Some (r0\<lparr>data_block := ?D, req_erasures := es\<rparr>)" "length es = 8"
    using number_shares_ok [OF r0 v(6)] by auto
  define r1 where "r1 = r0\<lparr>data_block := ?D, req_erasures := es\<rparr>"
  have r1: "rq_ok (ncar e) r1" using r0 es(2) by (simp add: r1_def rq_ok_def)
  obtain shares e1 where enc: "encode_block c r1 e = Some (put_carriers shares r1, e1)" "pages_ok (ncar e) shares"
      "packed (vnonce e) ?D shares" "keeps {} {} e e1" "quiet (e_k e) (e_k e1)" "vector (e_ctx e1) = vector (e_ctx e)"
    using encode_step [OF vol assms(2) r1, of c] assms(5,10) by (auto simp: r1_def r0_def)
  note k1 = keepsD [OF enc(4)]
  define r2 where "r2 = put_carriers shares r1"
  have r2: "rq_ok (ncar e) r2" "rq_pages (ncar e) r2 = shares" using put_carriers_ok [OF r1 enc(2) v(6)] by (simp_all add: r2_def)
  have f2: "map_entry r2 = epos e1 blk" "length (block_nums r2) = 8" using k1(10) r2(1) by (simp_all add: r2_def r1_def r0_def put_carriers_def rq_ok_def)
  have busy1: "busy e1 d X" using busy_keeps0 [OF assms(1) enc(4)] .
  have map1: "mapped e1 blk = mapped e blk" using keeps_mapped [OF enc(4) assms(2) _ vol] by simp
  have vb1: "vblock e1 blk" using assms(2) k1(9) by simp
  have "acquires (ncar e1) (vfs e1) (vector (e_ctx e1)) (e_k e1)" if "\<not> mapped e blk"
    using that assms(9) enc(5,6) k1(2,3) by (simp add: room_def)
  note fresh = this
  have eqs: "ncar e1 = ncar e" "vfs e1 = vfs e" "vector (e_ctx e1) = vector (e_ctx e)" using k1(2,3) enc(6) by simp_all
  obtain ns e2 where asg: "assign_blocks (mapped e blk) (ncar e1) 0 r2 e1 = Some (0, r2\<lparr>block_nums := ns\<rparr>, e2)" "length ns = 8"
      "keeps {blk} {} e1 e2" "owned e2 blk (ncar e)" "\<forall>j < ncar e. ns ! j = eptr e2 blk j"
      "set (ptrs e2 blk) \<inter> vtaken e1 = homes e1 blk"
      "vector (e_ctx e2) = (if mapped e blk then vector (e_ctx e) else fst (acquired (ncar e) (vfs e) (vector (e_ctx e)) (e_k e1)))"
    using assign_ok [OF busy1 vb1 f2, unfolded map1 eqs] fresh [unfolded eqs] unfolding eqs by blast
  note k2 = keepsD [OF asg(3)]
  have n2: "ncar e2 = ncar e" using k1(2) k2(2) by simp
  define r3 where "r3 = r2\<lparr>block_nums := ns, bios_pending := ncar e\<rparr>"
  have "rq_ok (ncar e2) (r2\<lparr>block_nums := ns\<rparr>)" using r2(1) asg(2) n2 by (simp add: rq_ok_def)
  from write_pages_ok [OF k2(1) this] obtain k3
    where wr: "write_pages (r2\<lparr>block_nums := ns\<rparr>) (ncar e2) e2 = Some (0, r3, e2\<lparr>e_k := k3\<rparr>, [WriteIO r3 [0..<ncar e]])"
      and q3: "quiet (e_k e2) k3"
    using n2 by (auto simp: r3_def)
  have "get_ptr e (map_entry r0) 0 = Some (eptr e blk 0)" using get_ptr_eptr [OF vol assms(2)] v(5) by (simp add: r0_def)
  then have "afs_write_request c (req\<lparr>req_state := REQ_STATE_FLIGHT\<rparr>) b e = Some (0, r3, e2\<lparr>e_k := k3\<rparr>, [WriteIO r3 [0..<ncar e]])"
    using take es(1) enc(1) asg(1) wr assms(4) get_map_entry_epos [OF vol assms(2)]
    by (simp add: afs_write_request_def Let_def r0_def [symmetric] r1_def [symmetric] r2_def [symmetric] mapped_def)
  then have run: "afs_flightq c req e = Some (e2\<lparr>e_k := k3\<rparr>, [WriteIO r3 [0..<ncar e]])"
    using assms(6,8) by (simp add: afs_flightq_def)
  have bio: "req_bio r3 = Bio b" using assms(6) by (simp add: r3_def r2_def r1_def r0_def put_carriers_def)
  have ended: "e_ended e2 = e_ended e"
    using encode_block_frame [OF enc(1)] assign_blocks_frame [OF asg(1)] by (auto dest!: frame_ended)
  have busy2: "busy e2 d (insert blk X)" using busy_keeps [OF busy1 asg(3) vb1] asg(4) k1(2) by simp
  have k3: "keeps A B e2 (e2\<lparr>e_k := k3\<rparr>)" for A B using keeps_kernel [OF k2(1) q3] .
  have "busy (e2\<lparr>e_k := k3\<rparr>) d (insert blk X)" using busy_keeps0 [OF busy2 k3] .
  moreover have "rq_ok (ncar e) r3" "rq_pages (ncar e) r3 = shares" using r2 asg(2) by (simp_all add: r3_def rq_ok_def rq_pages_def)
  moreover have "map_entry r3 = epos e2 blk" using f2(1) k2(10) by (simp add: r3_def)
  ultimately have "writing (e2\<lparr>e_k := k3\<rparr>) d (insert blk X) blk ?D r3 [0..<ncar e]"
    using n2 k1(4) k2(4,9) vb1 asg(5) bio_take_ok(2) [OF assms(7)] enc(3) v(5) unfolding writing_def writes_def by (auto simp: r3_def)
  moreover have "keeps {blk} {} e (e2\<lparr>e_k := k3\<rparr>)"
    using keeps_mono [OF enc(4), of "{blk}" "{}"] keeps_trans [OF _ keeps_trans [OF asg(3) k3], of e] by blast
  moreover have "set (ptrs (e2\<lparr>e_k := k3\<rparr>) blk) \<inter> vtaken e = homes e blk"
  proof -
    have "vtaken e1 = vtaken e" "ptrs e1 blk = ptrs e blk" "ptrs (e2\<lparr>e_k := k3\<rparr>) blk = ptrs e2 blk"
      using enc(6) k1(3) keeps_ptrs [OF enc(4) assms(2)] by (simp_all add: ptrs_def)
    then show ?thesis using asg(6) map1 by (simp add: homes_def)
  qed
  moreover have "if mapped e blk then vector (e_ctx e2) = vector (e_ctx e)
      else \<exists>k. quiet (e_k e) k \<and> vector (e_ctx e2) = fst (acquired (ncar e) (vfs e) (vector (e_ctx e)) k)"
    using asg(7) enc(5) by (cases "mapped e blk") auto
  ultimately show ?thesis using run bio ended by (intro exI [of _ r3] exI [of _ "e2\<lparr>e_k := k3\<rparr>"]) simp
qed

lemma CityHash128_page: "length m = 4096 \<Longrightarrow> \<exists>h. CityHash128 m 0 4096 = Some h"
  using agreeD [OF agree_CityHash128 [OF window_embed [of "[]" m "[]"]]] by auto

lemma store_checksums_ok:
  assumes "vol e" "vblock e blk" "rq_ok (ncar e) req" "map_entry req = epos e blk" "i + n = ncar e"
  shows "\<exists>e'. store_checksums n i req e = Some e' \<and> keeps {blk} {} e e' \<and> e_k e' = e_k e \<and> ptrs e' blk = ptrs e blk \<and>
    (\<forall>j. i \<le> j \<and> j < ncar e \<longrightarrow> cityhash32_to_16 (rq_pages (ncar e) req ! j) 4096 = Some (esum e' blk j)) \<and>
    (\<forall>j < i. esum e' blk j = esum e blk j)"
  using assms
proof (induction n arbitrary: i e)
  case 0
  then show ?case by (intro exI [of _ e]) (auto intro: keeps_refl)
next
  case (Suc n)
  have i: "i < ncar e" using Suc.prems(5) by simp
  have page: "carrier_blocks req ! i = Some (rq_pages (ncar e) req ! i)" using rq_page [OF Suc.prems(3) i] .
  have "length (rq_pages (ncar e) req ! i) = 4096" using pages_okD(1) [OF rq_pages_ok [OF Suc.prems(3)] i] .
  then obtain c where c: "cityhash32_to_16 (rq_pages (ncar e) req ! i) 4096 = Some c" using cityhash32_to_16_total by blast
  obtain m where m: "put_checksum e (epos e blk) i c = Some (put_map m e)" "length m = length (vmap e)"
      "\<forall>blk' j. vblock e blk' \<and> j < ncar e \<longrightarrow> eptr (put_map m e) blk' j = eptr e blk' j \<and>
        esum (put_map m e) blk' j = (if blk' = blk \<and> j = i then c else esum e blk' j)"
    using put_checksum_effect [OF Suc.prems(1,2) i, of c] by blast
  let ?e1 = "put_map m e"
  have k: "keeps {blk} {} e ?e1" using m(3) by (intro keeps_put_map [OF Suc.prems(1) m(2)]) auto
  note k1 = keepsD [OF k]
  have "\<exists>e'. store_checksums n (Suc i) req ?e1 = Some e' \<and> keeps {blk} {} ?e1 e' \<and> e_k e' = e_k ?e1 \<and> ptrs e' blk = ptrs ?e1 blk \<and>
      (\<forall>j. Suc i \<le> j \<and> j < ncar ?e1 \<longrightarrow> cityhash32_to_16 (rq_pages (ncar ?e1) req ! j) 4096 = Some (esum e' blk j)) \<and>
      (\<forall>j < Suc i. esum e' blk j = esum ?e1 blk j)"
    by (rule Suc.IH [OF k1(1)]) (use Suc.prems k1 in simp_all)
  then obtain e' where e': "store_checksums n (Suc i) req ?e1 = Some e'" "keeps {blk} {} ?e1 e'" "e_k e' = e_k e" "ptrs e' blk = ptrs ?e1 blk"
      "\<forall>j. Suc i \<le> j \<and> j < ncar e \<longrightarrow> cityhash32_to_16 (rq_pages (ncar e) req ! j) 4096 = Some (esum e' blk j)"
      "\<forall>j < Suc i. esum e' blk j = esum ?e1 blk j" by auto
  have "esum e' blk i = c" "\<forall>j < i. esum e' blk j = esum e blk j" using e'(6) m(3) Suc.prems(2) i by simp_all
  moreover have "ptrs ?e1 blk = ptrs e blk" using m(3) Suc.prems(2) by (simp add: ptrs_def)
  moreover have "store_checksums (Suc n) i req e = Some e'" using page c m(1) e'(1) Suc.prems(4) by simp
  moreover have "cityhash32_to_16 (rq_pages (ncar e) req ! j) 4096 = Some (esum e' blk j)" if "i \<le> j" "j < ncar e" for j
    using e'(5) c calculation(1) that by (cases "j = i") auto
  ultimately show ?case
    using e'(3,4) keeps_trans [OF k e'(2)] by (intro exI [of _ e']) auto
qed

lemma store_checksums_vector: "store_checksums n i req e = Some e' \<Longrightarrow> vector (e_ctx e') = vector (e_ctx e)"
proof (induction n arbitrary: i e)
  case (Suc n)
  then show ?case by (fastforce simp: put_checksum_def map_put_def split: bind_splits)
qed simp

lemma set_remove1_less: "distinct xs \<Longrightarrow> j \<notin> set (remove1 i xs) \<longleftrightarrow> j \<notin> set xs \<or> j = i"
  by (auto simp: set_remove1_eq)

lemma write_done_page:
  assumes "writing e d X blk D req pend" "i \<in> set pend"
  shows "\<exists>k. (\<forall>page. carrier_blocks req ! i = Some page \<longrightarrow>
      submit_bio_wait True (carrier_sector e (block_nums req ! i)) AFS_BLOCK_SIZE page (e_k e) = (page, k)) \<and>
    busy (e\<lparr>e_k := k\<rparr>) d X \<and> keeps {blk} (set (ptrs e blk)) e (e\<lparr>e_k := k\<rparr>) \<and>
    (\<forall>j < ncar e. j \<notin> set (remove1 i pend) \<longrightarrow> get_page (voff e) k (eptr e blk j) = rq_pages (ncar e) req ! j)"
proof -
  note w = assms(1) [unfolded writing_def writes_def]
  have vol: "vol e" and own: "vblock e blk" "owned e blk (ncar e)" using w busyD by blast+
  have mapped: "mapped e blk" using owned_mapped [OF vol own(2)] volD(5) [OF vol] by simp
  let ?b = "eptr e blk i" and ?p = "rq_pages (ncar e) req ! i"
  let ?k = "put_page (voff e) (tick_io (e_k e)) ?b ?p"
  have i: "i < ncar e" using w assms(2) by auto
  have pl: "distinct (ptrs e blk)" "set (ptrs e blk) \<subseteq> vtaken e" using own by (auto simp: owned_def)
  then have b: "?b \<in> vtaken e" using nth_mem [of i "ptrs e blk"] i by auto
  have "rq_ok (ncar e) req" using w by simp
  note page = rq_page [OF this i] and len = pages_okD(1) [OF rq_pages_ok [OF this] i]
  note k = keeps_put_page(1) [OF vol b len, of "{blk}"] and same = keeps_put_page(2) [OF vol b len]
  have "submit_bio_wait True (carrier_sector e ?b) AFS_BLOCK_SIZE ?p (e_k e) = (?p, ?k)"
    using carrier_write vtaken_fits [OF vol b] volD(7) [OF vol] by blast
  then have io: "\<forall>page. carrier_blocks req ! i = Some page \<longrightarrow>
      submit_bio_wait True (carrier_sector e (block_nums req ! i)) AFS_BLOCK_SIZE page (e_k e) = (page, ?k)"
    using page w i by simp
  have bp: "?b \<in> set (ptrs e blk)" using nth_mem [of i "ptrs e blk"] i by simp
  have "owned (e\<lparr>e_k := ?k\<rparr>) blk (ncar e)" using own by (intro owned_keeps [OF k vol]) (auto simp: ptrs_def)
  then have "busy (e\<lparr>e_k := ?k\<rparr>) d (insert blk X)"
    using w by (intro busy_keeps [OF _ k own(1)]) (use bp mapped in auto)
  then have "busy (e\<lparr>e_k := ?k\<rparr>) d X" using w by (simp add: insert_absorb)
  moreover have "get_page (voff e) ?k (eptr e blk j) = rq_pages (ncar e) req ! j"
    if "j < ncar e" "j \<notin> set (remove1 i pend)" for j
  proof (cases "j = i")
    case True
    then show ?thesis using same by simp
  next
    case False
    then have "eptr e blk j \<noteq> ?b" using nth_eq_iff_index_eq [OF pl(1), of j i] that(1) i by simp
    moreover have "eptr e blk j \<in> vtaken e" using nth_mem [of j "ptrs e blk"] pl(2) that(1) by auto
    ultimately have "get_page (voff e) ?k (eptr e blk j) = vpage e (eptr e blk j)" using keepsD(8) [OF k] by simp
    then show ?thesis using w that False set_remove1_less by auto
  qed
  moreover have "keeps {blk} (set (ptrs e blk)) e (e\<lparr>e_k := ?k\<rparr>)" using bp keeps_mono [OF k] by simp
  ultimately show ?thesis using io by (intro exI [of _ ?k]) simp
qed

lemma write_done_ok:
  assumes "writing e d X blk D req pend" "i \<in> set pend" "req_bio req = Bio b"
  shows "\<exists>e' ws. write_done req pend i e = Some (e', ws) \<and> keeps {blk} (set (ptrs e blk)) e e' \<and> ptrs e' blk = ptrs e blk \<and>
    vector (e_ctx e') = vector (e_ctx e) \<and>
    (if ws = [] then busy e' (d(blk \<mapsto> D)) (X - {blk}) \<and> e_ended e' = e_ended e @ [b]
     else \<exists>req' pend'. ws = [WriteIO req' pend'] \<and> writing e' d X blk D req' pend' \<and> req_bio req' = Bio b \<and> e_ended e' = e_ended e)"
proof -
  note w = assms(1) [unfolded writing_def writes_def]
  have own: "vblock e blk" "owned e blk (ncar e)" using w busyD by blast+
  obtain k where k: "\<forall>page. carrier_blocks req ! i = Some page \<longrightarrow>
      submit_bio_wait True (carrier_sector e (block_nums req ! i)) AFS_BLOCK_SIZE page (e_k e) = (page, k)"
      "busy (e\<lparr>e_k := k\<rparr>) d X"
      "\<forall>j < ncar e. j \<notin> set (remove1 i pend) \<longrightarrow> get_page (voff e) k (eptr e blk j) = rq_pages (ncar e) req ! j"
      "keeps {blk} (set (ptrs e blk)) e (e\<lparr>e_k := k\<rparr>)"
    using write_done_page [OF assms(1,2)] by blast
  let ?e = "e\<lparr>e_k := k\<rparr>" and ?pend = "remove1 i pend"
  define r where "r = req\<lparr>bios_pending := bios_pending req - 1\<rparr>"
  have i: "i < ncar e" using w assms(2) by auto
  have rq: "rq_ok (ncar e) r" "rq_pages (ncar e) r = rq_pages (ncar e) req" using w by (auto simp: r_def rq_ok_def rq_pages_def)
  obtain page where page: "carrier_blocks req ! i = Some page" using w i rq_page by blast
  have run: "write_done req pend i e = afs_write_endio req ?pend ?e" using page k(1) by (simp add: write_done_def)
  have pend: "bios_pending r = length ?pend" using w assms(2) by (simp add: r_def length_remove1)
  show ?thesis
  proof (cases "?pend = []")
    case False
    then have "write_done req pend i e = Some (?e, [WriteIO r ?pend])"
      using run pend unfolding afs_write_endio_def Let_def r_def [symmetric] by simp
    moreover have "writing ?e d X blk D r ?pend"
      unfolding writing_def writes_def using w k(2,3) rq pend False set_remove1_subset [of i pend] by (auto simp: r_def)
    moreover have "ptrs ?e blk = ptrs e blk" by (simp add: ptrs_def)
    ultimately show ?thesis using assms(3) k(4) by (auto simp: r_def)
  next
    case True
    note vol = busyD(1) [OF k(2)]
    obtain h where h: "CityHash128 (data_block r) 0 4096 = Some h" using CityHash128_page [of "data_block r"] rq(1) by (auto simp: rq_ok_def)
    have "\<exists>e'. store_checksums (ncar ?e) 0 r ?e = Some e' \<and> keeps {blk} {} ?e e' \<and> e_k e' = e_k ?e \<and> ptrs e' blk = ptrs ?e blk \<and>
        (\<forall>j. 0 \<le> j \<and> j < ncar ?e \<longrightarrow> cityhash32_to_16 (rq_pages (ncar ?e) r ! j) 4096 = Some (esum e' blk j)) \<and>
        (\<forall>j < 0. esum e' blk j = esum ?e blk j)"
      using w own(1) rq(1) by (intro store_checksums_ok [OF vol]) (auto simp: r_def)
    then obtain e2 where e2: "store_checksums (ncar e) 0 r ?e = Some e2" "keeps {blk} {} ?e e2" "e_k e2 = k" "ptrs e2 blk = ptrs e blk"
        "\<forall>j < ncar e. cityhash32_to_16 (rq_pages (ncar e) req ! j) 4096 = Some (esum e2 blk j)"
      using rq(2) by (auto simp: ptrs_def)
    note k2 = keepsD [OF e2(2)]
    have ptr: "eptr e2 blk j = eptr e blk j" if "j < ncar e" for j
      using e2(4) nth_ptrs [of j e2 blk] nth_ptrs [of j e blk] that k2(2) by simp
    have pages: "vpage e2 (eptr e2 blk j) = rq_pages (ncar e) req ! j" if "j < ncar e" for j
      using ptr [OF that] k(3) True e2(3) k2(3) that by simp
    have "owned e2 blk (ncar ?e)"
      using own(1) w e2(4) busyD(3) [OF k(2)] by (intro owned_keeps [OF e2(2) vol]) (simp_all add: ptrs_def)
    then have "busy e2 d (insert blk X)" using own(1) by (intro busy_keeps [OF k(2) e2(2)]) simp_all
    then have busy2: "busy e2 d X" using w by (simp add: insert_absorb)
    have "map (vpage e2) (ptrs e2 blk) = rq_pages (ncar e) req"
      using pages k2(2) by (intro nth_equalityI) (auto simp: rq_pages_def)
    then have "stored e2 blk D" using w pages e2(5) k2(2,4) by (simp add: stored_def)
    then have "busy e2 (d(blk \<mapsto> D)) (X - {blk})" using w by (intro busy_insert [OF busy2]) simp_all
    then have "busy (bio_endio b e2) (d(blk \<mapsto> D)) (X - {blk})" using busy_keeps0 keeps_endio [OF k2(1)] by blast
    moreover have "e_ended e2 = e_ended e" using store_checksums_frame [OF e2(1)] by (simp add: frame_def)
    moreover have "afs_req_clean r e2 = Some (bio_endio b e2)"
      using assms(3) rq(1) by (simp add: afs_req_clean_def r_def free_encoder_def rq_ok_def)
    then have "write_done req pend i e = Some (bio_endio b e2, [])"
      using run pend True h e2(1) unfolding afs_write_endio_def Let_def r_def [symmetric] by simp
    moreover have "keeps {blk} (set (ptrs e blk)) e (bio_endio b e2)"
      using k(4) keeps_trans [OF keeps_mono [OF e2(2)] keeps_endio [OF k2(1)], of "{blk}" "set (ptrs e blk)" b] keeps_trans by blast
    moreover have "ptrs (bio_endio b e2) blk = ptrs e blk" using e2(4) by (simp add: ptrs_def)
    moreover have "vector (e_ctx e2) = vector (e_ctx e)" using store_checksums_vector [OF e2(1)] by simp
    ultimately show ?thesis by simp
  qed
qed

section \<open>A read\<close>

lemma load_block_nums_ok:
  assumes "vol e" "vblock e blk" "rq_ok (ncar e) req" "map_entry req = epos e blk" "i + n = ncar e" "\<forall>j < i. block_nums req ! j = eptr e blk j"
  shows "\<exists>ns es. load_block_nums n i req e = Some (req\<lparr>block_nums := ns, req_erasures := es\<rparr>) \<and> length ns = 8 \<and> length es = 8 \<and>
    (\<forall>j < ncar e. ns ! j = eptr e blk j)"
  using assms
proof (induction n arbitrary: i req)
  case 0
  then show ?case by (intro exI [of _ "block_nums req"] exI [of _ "req_erasures req"]) (auto simp: rq_ok_def)
next
  case (Suc n)
  have i: "i < ncar e" "i < 8" using Suc.prems(5) volD(6) [OF Suc.prems(1)] by simp_all
  define r where "r = req\<lparr>block_nums := (block_nums req)[i := eptr e blk i], req_erasures := (req_erasures req)[i := of_nat (48 + i)]\<rparr>"
  have rq: "rq_ok (ncar e) r" using Suc.prems(3) by (simp add: rq_ok_def r_def)
  have nums: "\<forall>j < Suc i. block_nums r ! j = eptr e blk j"
    using Suc.prems(3,6) i by (auto simp: r_def rq_ok_def nth_list_update less_Suc_eq)
  have "\<exists>ns es. load_block_nums n (Suc i) r e = Some (r\<lparr>block_nums := ns, req_erasures := es\<rparr>) \<and> length ns = 8 \<and> length es = 8 \<and>
      (\<forall>j < ncar e. ns ! j = eptr e blk j)"
    by (rule Suc.IH [OF Suc.prems(1,2) rq _ _ nums]) (use Suc.prems(4,5) in \<open>simp_all add: r_def\<close>)
  moreover have "load_block_nums (Suc n) i req e = load_block_nums n (Suc i) r e"
    using get_ptr_eptr [OF Suc.prems(1,2) i(1)] Suc.prems(3,4) i by (simp add: put_block_num_def r_def rq_ok_def)
  ultimately show ?case by (auto simp: r_def)
qed

lemma check_carriers_ok:
  assumes "vol e" "vblock e blk" "rq_ok (ncar e) req" "map_entry req = epos e blk" "i + n = ncar e"
    and "\<forall>j < ncar e. cityhash32_to_16 (rq_pages (ncar e) req ! j) 4096 = Some (esum e blk j)"
  shows "check_carriers n i req e = Some req"
  using assms(5)
proof (induction n arbitrary: i)
  case (Suc n)
  then have i: "i < ncar e" by simp
  show ?case
    using rq_page [OF assms(3) i] assms(4,6) i get_checksum_esum [OF assms(1,2) i] Suc by simp
qed simp

lemma decode_step:
  assumes "vol e" "vblock e blk" "rq_ok (ncar e) req" "map_entry req = epos e blk" "req_iv req = take 16 (passphrase_hash (e_ctx e))"
    and "packed (vnonce e) D (rq_pages (ncar e) req)" "length D = 4096"
  shows "\<exists>shares e'. decode_block c req e = Some ((put_carriers shares req)\<lparr>data_block := D\<rparr>, e') \<and> still e e'"
proof -
  note v = volD [OF assms(1)]
  obtain diff where diff: "get_difference e (epos e blk) = Some diff" "length diff = 32" using get_difference_ok [OF assms(1,2)] by blast
  have car: "carriers e req = Some (rq_pages (ncar e) req)" using carriers_pages [OF assms(3) v(6)] .
  have data: "length (data_block req) = 4096" using assms(3) by (simp add: rq_ok_def)
  obtain diff' shares k where dec: "decode_aont_package c diff (data_block req) 4096 (rq_pages (ncar e) req) 2 (ncar e - 2) (vnonce e) [] (e_k e) =
      Some (0, diff', D, shares, k)" "length diff' = 32"
    using decode_pages [OF v(8) data diff(2) v(5,6) rq_pages_ok [OF assms(3)] assms(6,7)] by blast
  let ?e1 = "e\<lparr>e_k := k\<rparr>"
  have k1: "still e ?e1" using still_kernel [OF assms(1) decode_aont_quiet [OF dec(1)]] .
  then have vol1: "vol ?e1" by (simp add: still_def keeps_def)
  obtain m where m: "map_put ?e1 (diff_pos ?e1 (epos e blk)) diff' = Some (put_map m ?e1)" "length m = length (vmap ?e1)"
      "\<forall>blk' j. vblock ?e1 blk' \<and> j < ncar ?e1 \<longrightarrow> eptr (put_map m ?e1) blk' j = eptr ?e1 blk' j \<and> esum (put_map m ?e1) blk' j = esum ?e1 blk' j"
    using put_difference_effect [OF vol1, of blk diff'] assms(2) dec(2) by auto
  have "keeps {} {} ?e1 (put_map m ?e1)" using m(3) by (intro keeps_put_map [OF vol1 m(2)]) auto
  then have k2: "still ?e1 (put_map m ?e1)" by (simp add: still_def)
  have "req_encoding_type req = AONT_RS" "num_erasures req = 0" using assms(3) by (simp_all add: rq_ok_def)
  moreover have "diff_pos e = diff_pos ?e1" by (simp add: fun_eq_iff diff_pos_def)
  ultimately have "decode_block c req e = Some ((put_carriers shares req)\<lparr>data_block := D\<rparr>, put_map m ?e1)"
    using car diff(1) dec(1) m(1) assms(4,5) v(5) by (simp add: decode_block_def AONT_RS_def SHAMIR_def)
  then show ?thesis using still_trans [OF k1 k2] by (intro exI [of _ shares] exI [of _ "put_map m ?e1"]) simp
qed

text \<open>A read whose carrier bios \<open>pend\<close> are under way: the others have brought their pages.\<close>

definition fetching :: "engine \<Rightarrow> (u32 \<Rightarrow> bytes option) \<Rightarrow> u32 \<Rightarrow> bio \<Rightarrow> afs_map_request \<Rightarrow> nat list \<Rightarrow> bool" where
  "fetching e d blk b req pend \<longleftrightarrow> vol e \<and> readable_at e d blk \<and> vblock e blk \<and> mapped e blk \<and> rq_ok (ncar e) req \<and>
     map_entry req = epos e blk \<and> req_iv req = take 16 (passphrase_hash (e_ctx e)) \<and> rebuild_flag req = 0 \<and>
     (\<forall>j < ncar e. block_nums req ! j = eptr e blk j) \<and> bios_pending req = length pend \<and> distinct pend \<and>
     set pend \<subseteq> {..<ncar e} \<and> (\<forall>j < ncar e. j \<notin> set pend \<longrightarrow> rq_pages (ncar e) req ! j = vpage e (eptr e blk j)) \<and>
     req_bio req = Bio b \<and> bio_req b req"

definition reads_back :: "bio \<Rightarrow> bytes option \<Rightarrow> bio \<Rightarrow> bool" where
  "reads_back b D b' \<longleftrightarrow> bio_id b' = bio_id b \<and>
     payload b' = sub (case D of None \<Rightarrow> replicate 4096 0 | Some D \<Rightarrow> D) (bio_base b) (unat (bi_size b))"

lemma start_read:
  assumes "vol e" "readable_at e d blk" "vblock e blk" "rq_ok (ncar e) req" "req_block req = blk" "req_iv req = take 16 (passphrase_hash (e_ctx e))"
    and "rebuild_flag req = 0" "req_bio req = Bio b" "bio_req b req" "bio_op b = REQ_OP_READ"
  shows "\<exists>e' ws. afs_flightq c req e = Some (e', ws) \<and> still e e' \<and>
    (if ws = [] then (\<exists>b'. e_ended e' = e_ended e @ [b'] \<and> reads_back b (d blk) b')
     else \<exists>req' pend. ws = [ReadIO req' pend] \<and> pend \<noteq> [] \<and> fetching e' d blk b req' pend \<and> e_ended e' = e_ended e)"
proof -
  note vol = assms(1)
  note v = volD [OF vol]
  define r0 where "r0 = req\<lparr>req_state := REQ_STATE_FLIGHT, map_entry := epos e blk\<rparr>"
  have ptr: "get_ptr e (map_entry r0) 0 = Some (eptr e blk 0)" using get_ptr_eptr [OF vol assms(3)] v(5) by (simp add: r0_def)
  have rq: "rq_ok (ncar e) r0" using assms(4) by (simp add: rq_ok_def r0_def)
  have r0: "afs_get_map_entry (vcfg e) (req_block req) = epos e blk" using get_map_entry_epos [OF vol assms(3)] assms(5) by simp
  show ?thesis
  proof (cases "mapped e blk")
    case False
    let ?r = "r0\<lparr>data_block := replicate 4096 0\<rparr>"
    have "bio_req b ?r" using assms(9) by (simp add: bio_req_def r0_def req_base_def)
    then obtain bvs where fill: "bio_fill ?r b = Some (b\<lparr>bi_io_vec := bvs\<rparr>)"
        "payload (b\<lparr>bi_io_vec := bvs\<rparr>) = sub (replicate 4096 0) (bio_base b) (unat (bi_size b))"
      using bio_fill_ok by force
    let ?b = "b\<lparr>bi_io_vec := bvs\<rparr>"
    have clean: "afs_req_clean (?r\<lparr>req_bio := Bio ?b\<rparr>) e = Some (bio_endio ?b e)"
      using rq by (simp add: afs_req_clean_def free_encoder_def rq_ok_def)
    have "afs_read_request (req\<lparr>req_state := REQ_STATE_FLIGHT\<rparr>) e = Some (0, ?r, bio_endio ?b e, [])"
      using ptr fill(1) clean False assms(8) r0
      by (simp add: afs_read_request_def Let_def mapped_def r0_def [symmetric])
    then have "afs_flightq c req e = Some (bio_endio ?b e, [])" using assms(8,10) by (simp add: afs_flightq_def)
    moreover have "d blk = None" using assms(2) False by (auto simp: readable_at_def holds_at_def split: option.splits)
    ultimately show ?thesis using fill(2) still_endio [OF vol, of ?b] by (auto simp: reads_back_def bio_id_def)
  next
    case True
    obtain ns es where ld: "load_block_nums (ncar e) 0 r0 e = Some (r0\<lparr>block_nums := ns, req_erasures := es\<rparr>)" "length ns = 8" "length es = 8"
        "\<forall>j < ncar e. ns ! j = eptr e blk j"
      using load_block_nums_ok [OF vol assms(3) rq, of 0 "ncar e"] by (auto simp: r0_def)
    define r1 where "r1 = r0\<lparr>block_nums := ns, req_erasures := es\<rparr>"
    define r2 where "r2 = r1\<lparr>bios_pending := ncar e\<rparr>"
    have rq1: "rq_ok (ncar e) r1" using rq ld(2,3) by (simp add: r1_def rq_ok_def)
    obtain p k where km: "kmalloc (8 * ncar e) (e_k e) = (Some p, k)" using kmalloc_alloc_ok v(8) by blast
    have rd: "read_pages r1 (ncar e) e = Some (0, r2, e\<lparr>e_k := k\<rparr>, [ReadIO r2 [0..<ncar e]])"
      using km carriers_pages [OF rq1 v(6)] v(5) by (simp add: read_pages_def r2_def Let_def)
    have "start_reads r0 e = Some (0, r2, e\<lparr>e_k := k\<rparr>, [ReadIO r2 [0..<ncar e]])"
      using rq ld(1) rd by (simp add: start_reads_def rq_ok_def AONT_RS_def SHAMIR_def r1_def [symmetric])
    then have "afs_read_request (req\<lparr>req_state := REQ_STATE_FLIGHT\<rparr>) e = Some (0, r2, e\<lparr>e_k := k\<rparr>, [ReadIO r2 [0..<ncar e]])"
      using ptr True assms(8) r0 by (simp add: afs_read_request_def Let_def mapped_def r0_def [symmetric])
    then have run: "afs_flightq c req e = Some (e\<lparr>e_k := k\<rparr>, [ReadIO r2 [0..<ncar e]])" using assms(8,10) by (simp add: afs_flightq_def)
    have still: "still e (e\<lparr>e_k := k\<rparr>)" using still_kernel [OF vol kmalloc_quiet [OF km]] .
    then have "vol (e\<lparr>e_k := k\<rparr>)" "readable_at (e\<lparr>e_k := k\<rparr>) d blk"
      using still_readable_at [OF assms(2) still vol assms(3)] still by (simp_all add: still_def keeps_def)
    moreover have "rq_ok (ncar e) r2" "bio_req b r2" "req_bio r2 = Bio b"
      using rq1 assms(8,9) by (simp_all add: r2_def r1_def r0_def rq_ok_def bio_req_def req_base_def)
    moreover have "mapped (e\<lparr>e_k := k\<rparr>) blk" using True by (simp add: mapped_def)
    ultimately have "fetching (e\<lparr>e_k := k\<rparr>) d blk b r2 [0..<ncar e]"
      using assms(3,6,7) ld(4) unfolding fetching_def by (auto simp: r2_def r1_def r0_def)
    then show ?thesis using run v(5) still by auto
  qed
qed

lemma read_done_ok:
  assumes "fetching e d blk b req pend" "i \<in> set pend"
  shows "\<exists>e' req'. read_done req pend i e = Some (e', if remove1 i pend = [] then [Crypto req'] else [ReadIO req' (remove1 i pend)]) \<and>
    fetching e' d blk b req' (remove1 i pend) \<and> e_ended e' = e_ended e \<and> still e e'"
proof -
  note f = assms(1) [unfolded fetching_def]
  have vol: "vol e" using f by simp
  have i: "i < ncar e" using f assms(2) by auto
  let ?b = "eptr e blk i" and ?pend = "remove1 i pend" and ?k = "tick_io (e_k e)"
  have fits: "block_fits (voff e) ?b" using readable_at_fits f i by blast
  have rq: "rq_ok (ncar e) req" using f by simp
  have page: "carrier_blocks req ! i = Some (rq_pages (ncar e) req ! i)" using rq_page [OF rq i] .
  have len: "length (rq_pages (ncar e) req ! i) = 4096" using pages_okD(1) [OF rq_pages_ok [OF rq] i] .
  define r where "r = req\<lparr>carrier_blocks := (carrier_blocks req)[i := Some (vpage e ?b)], bios_pending := length ?pend\<rparr>"
  have io: "submit_bio_wait False (carrier_sector e (block_nums req ! i)) AFS_BLOCK_SIZE (rq_pages (ncar e) req ! i) (e_k e) = (vpage e ?b, ?k)"
    using carrier_read [OF fits volD(7) [OF vol] len] f i by simp
  have pend: "bios_pending req - 1 = length ?pend" using f assms(2) by (simp add: length_remove1)
  have run: "read_done req pend i e = Some (e\<lparr>e_k := ?k\<rparr>, if ?pend = [] then [Crypto r] else [ReadIO r ?pend])"
    using page io pend by (auto simp: read_done_def afs_read_endio_def Let_def r_def)
  have i8: "i < length (carrier_blocks req)" using rq i volD(6) [OF vol] by (simp add: rq_ok_def)
  have rq': "rq_ok (ncar e) r" using rq i8 by (auto simp: r_def rq_ok_def nth_list_update)
  have pages: "rq_pages (ncar e) r ! j = (if j = i then vpage e ?b else rq_pages (ncar e) req ! j)" if "j < ncar e" for j
    using that i8 by (simp add: rq_pages_def r_def nth_list_update)
  have vol': "vol (e\<lparr>e_k := ?k\<rparr>)" using vol by (auto simp: vol_def)
  then have still: "still e (e\<lparr>e_k := ?k\<rparr>)" by (simp add: still_def keeps_def same_instance_def) (simp add: tick_io_def)
  then have hold: "readable_at (e\<lparr>e_k := ?k\<rparr>) d blk" using still_readable_at f by blast
  have "fetching (e\<lparr>e_k := ?k\<rparr>) d blk b r ?pend"
    unfolding fetching_def using f vol' hold rq' pages set_remove1_subset [of i pend]
    by (auto simp: r_def mapped_def bio_req_def req_base_def set_remove1_eq)
  then show ?thesis using run still by auto
qed

lemma crypto_ok:
  assumes "fetching e d blk b req []"
  shows "\<exists>e'. afs_cryptoq c req e = Some (e', []) \<and> still e e' \<and> (\<exists>b'. e_ended e' = e_ended e @ [b'] \<and> reads_back b (d blk) b')"
proof -
  note f = assms [unfolded fetching_def]
  have vol: "vol e" using f by simp
  obtain D where D: "d blk = Some D" "stored e blk D" using f by (auto simp: readable_at_def holds_at_def split: option.splits)
  have rq: "rq_ok (ncar e) req" using f by simp
  have pages: "rq_pages (ncar e) req = map (vpage e) (ptrs e blk)"
    using f pages_okD(2) [OF rq_pages_ok [OF rq]] by (intro nth_equalityI) simp_all
  have chk: "check_carriers (ncar e) 0 req e = Some req"
    using f D(2) by (intro check_carriers_ok [OF vol]) (auto simp: stored_def)
  obtain shares e1 where dec: "decode_block c req e = Some ((put_carriers shares req)\<lparr>data_block := D\<rparr>, e1)" "still e e1"
    using decode_step [OF vol, of blk req D c] f D(2) pages by (auto simp: stored_def)
  define r where "r = (put_carriers shares req)\<lparr>data_block := D\<rparr>"
  have "bio_req b r" using f D(2) by (auto simp: r_def bio_req_def put_carriers_def req_base_def stored_def)
  then obtain bvs where fill: "bio_fill r b = Some (b\<lparr>bi_io_vec := bvs\<rparr>)"
      "payload (b\<lparr>bi_io_vec := bvs\<rparr>) = sub D (bio_base b) (unat (bi_size b))"
    using bio_fill_ok by (force simp: r_def)
  let ?b = "b\<lparr>bi_io_vec := bvs\<rparr>"
  have fields: "req_bio r = Bio b" "rebuild_flag r = 0" "encoder r = None" using f rq by (simp_all add: r_def put_carriers_def rq_ok_def)
  have "afs_req_clean (r\<lparr>req_bio := Bio ?b\<rparr>) e1 = Some (bio_endio ?b e1)"
    using fields by (simp add: afs_req_clean_def free_encoder_def)
  then have "afs_read_decode c req e = Some (0, bio_endio ?b e1, [])"
    using chk dec(1) fill(1) fields by (simp add: afs_read_decode_def r_def [symmetric] Let_def)
  then have run: "afs_cryptoq c req e = Some (bio_endio ?b e1, [])" by (simp add: afs_cryptoq_def)
  have "vol e1" using dec(2) by (simp add: still_def keeps_def)
  then have "still e (bio_endio ?b e1)" using still_trans [OF dec(2) still_endio] by blast
  moreover have "e_ended e1 = e_ended e" using decode_block_frame [OF dec(1)] by (auto dest: frame_ended)
  moreover have "reads_back b (d blk) ?b" using fill(2) D(1) by (simp add: reads_back_def bio_id_def)
  ultimately show ?thesis using run by auto
qed

section \<open>Runs\<close>

text \<open>\<open>delivers c s P\<close>: some run from \<open>s\<close> finishes, no run gets stuck with work left, and every finished run ends in a
  state with \<open>P\<close>.\<close>

definition delivers :: "gf_ctx \<Rightarrow> engine \<times> work list \<Rightarrow> (engine \<Rightarrow> bool) \<Rightarrow> bool" where
  "delivers c s P \<longleftrightarrow> (\<exists>e. afs_steps c s (e, [])) \<and>
     (\<forall>t. afs_steps c s t \<longrightarrow> (if snd t = [] then P (fst t) else \<exists>u. afs_step c t u))"

lemma deliversI:
  assumes "I s" "\<And>t u. I t \<Longrightarrow> afs_step c t u \<Longrightarrow> I u" "\<And>t. I t \<Longrightarrow> snd t \<noteq> [] \<Longrightarrow> \<exists>u. afs_step c t u"
    and "\<And>e. I (e, []) \<Longrightarrow> P e"
  shows "delivers c s P"
proof -
  have "I t" if "afs_steps c s t" for t using afs_run.run_keeps [OF that, of I] assms(1,2) by blast
  moreover obtain t where "afs_steps c s t" "snd t = []" using afs_run.run_ends [of I s c "\<lambda>t. snd t = []"] assms(1-3) by blast
  then have "\<exists>e. afs_steps c s (e, [])" by (metis prod.collapse)
  ultimately show ?thesis unfolding delivers_def using assms(3,4) by (metis prod.collapse)
qed

lemma afs_step_single: "afs_step c (e, [w]) t \<longleftrightarrow> (\<exists>i. run_work c w i e = Some t)"
proof
  show "\<exists>i. run_work c w i e = Some t" if "afs_step c (e, [w]) t"
    using that by (cases rule: afs_step.cases) (auto simp: Cons_eq_append_conv append_eq_Cons_conv)
  show "afs_step c (e, [w]) t" if "\<exists>i. run_work c w i e = Some t"
  proof -
    from that obtain i where "run_work c w i e = Some t" by blast
    then have "run_work c w i e = Some (fst t, snd t)" by simp
    from afs_step_run [OF this, of "[]" "[]"] show ?thesis by simp
  qed
qed

lemma no_step: "\<not> afs_step c (e, []) t"
  by (auto elim: afs_step_elim)

text \<open>The stages of a write to the carrier blocks \<open>ps\<close> and of a read, started on \<open>e0\<close>.\<close>

fun write_stage :: "engine \<Rightarrow> u32 list \<Rightarrow> (u32 \<Rightarrow> bytes option) \<Rightarrow> u32 \<Rightarrow> bytes \<Rightarrow> bio \<Rightarrow> bio list \<Rightarrow> engine \<times> work list \<Rightarrow> bool" where
  "write_stage e0 ps d blk D b L (e, [WriteIO req pend]) \<longleftrightarrow> writing e d {blk} blk D req pend \<and> req_bio req = Bio b \<and> e_ended e = L \<and>
     keeps {blk} (set ps) e0 e \<and> ptrs e blk = ps"
| "write_stage e0 ps d blk D b L (e, []) \<longleftrightarrow> holds e (d(blk \<mapsto> D)) \<and> e_ended e = L @ [b] \<and> keeps {blk} (set ps) e0 e \<and> ptrs e blk = ps"
| "write_stage e0 ps d blk D b L _ \<longleftrightarrow> False"

fun read_stage :: "engine \<Rightarrow> (u32 \<Rightarrow> bytes option) \<Rightarrow> u32 \<Rightarrow> bio \<Rightarrow> bio list \<Rightarrow> engine \<times> work list \<Rightarrow> bool" where
  "read_stage e0 d blk b L (e, [ReadIO req pend]) \<longleftrightarrow> pend \<noteq> [] \<and> fetching e d blk b req pend \<and> e_ended e = L \<and> still e0 e"
| "read_stage e0 d blk b L (e, [Crypto req]) \<longleftrightarrow> fetching e d blk b req [] \<and> e_ended e = L \<and> still e0 e"
| "read_stage e0 d blk b L (e, []) \<longleftrightarrow> still e0 e \<and> (\<exists>b'. e_ended e = L @ [b'] \<and> reads_back b (d blk) b')"
| "read_stage e0 d blk b L _ \<longleftrightarrow> False"

lemma write_stage_cases:
  assumes "write_stage e0 ps d blk D b L t"
  obtains (io) e req pend where "t = (e, [WriteIO req pend])" "writing e d {blk} blk D req pend" "req_bio req = Bio b" "e_ended e = L"
      "keeps {blk} (set ps) e0 e" "ptrs e blk = ps"
  | (fin) e where "t = (e, [])"
  using assms by (cases "(e0, ps, d, blk, D, b, L, t)" rule: write_stage.cases) auto

lemma read_stage_cases:
  assumes "read_stage e0 d blk b L t"
  obtains (io) e req pend where "t = (e, [ReadIO req pend])" "pend \<noteq> []" "fetching e d blk b req pend" "e_ended e = L" "still e0 e"
  | (crypto) e req where "t = (e, [Crypto req])" "fetching e d blk b req []" "e_ended e = L" "still e0 e"
  | (fin) e where "t = (e, [])"
  using assms by (cases "(e0, d, blk, b, L, t)" rule: read_stage.cases) auto

lemma write_stage_step:
  assumes "write_stage e0 ps d blk D b L t"
  shows "afs_step c t u \<Longrightarrow> write_stage e0 ps d blk D b L u" "snd t \<noteq> [] \<Longrightarrow> \<exists>u. afs_step c t u"
proof -
  have "(afs_step c t u \<longrightarrow> write_stage e0 ps d blk D b L u) \<and> (snd t \<noteq> [] \<longrightarrow> (\<exists>u. afs_step c t u))"
    using assms
  proof (cases rule: write_stage_cases)
    case (io e req pend)
    have ok: "\<exists>u. write_done req pend i e = Some u \<and> write_stage e0 ps d blk D b L u" if i: "i \<in> set pend" for i
    proof -
      obtain e' ws where w: "write_done req pend i e = Some (e', ws)" "keeps {blk} (set ps) e e'" "ptrs e' blk = ps"
          "if ws = [] then holds e' (d(blk \<mapsto> D)) \<and> e_ended e' = e_ended e @ [b]
           else \<exists>req' pend'. ws = [WriteIO req' pend'] \<and> writing e' d {blk} blk D req' pend' \<and> req_bio req' = Bio b \<and> e_ended e' = e_ended e"
        using write_done_ok [OF io(2) i io(3), unfolded Diff_cancel busy_idle io(6)] by blast
      then show ?thesis using keeps_trans [OF io(5) w(2)] io(4) by (auto split: if_splits)
    qed
    moreover have "hd pend \<in> set pend" using io(2) by (simp add: writing_def writes_def)
    ultimately show ?thesis using io(1) by (fastforce simp: afs_step_single split: if_splits)
  qed (simp add: no_step)
  then show "afs_step c t u \<Longrightarrow> write_stage e0 ps d blk D b L u" "snd t \<noteq> [] \<Longrightarrow> \<exists>u. afs_step c t u" by blast+
qed

lemma read_stage_step:
  assumes "read_stage e0 d blk b L t"
  shows "afs_step c t u \<Longrightarrow> read_stage e0 d blk b L u" "snd t \<noteq> [] \<Longrightarrow> \<exists>u. afs_step c t u"
proof -
  have "(afs_step c t u \<longrightarrow> read_stage e0 d blk b L u) \<and> (snd t \<noteq> [] \<longrightarrow> (\<exists>u. afs_step c t u))"
    using assms
  proof (cases rule: read_stage_cases)
    case (io e req pend)
    have ok: "\<exists>u. read_done req pend i e = Some u \<and> read_stage e0 d blk b L u" if "i \<in> set pend" for i
      using read_done_ok [OF io(3) that] io(4) still_trans [OF io(5)] by (auto split: if_splits)
    moreover have "hd pend \<in> set pend" using io(2) by simp
    ultimately show ?thesis using io(1) by (fastforce simp: afs_step_single split: if_splits)
  next
    case (crypto e req)
    have "\<exists>u. afs_cryptoq c req e = Some u \<and> read_stage e0 d blk b L u"
      using crypto_ok [OF crypto(2), of c] crypto(3) still_trans [OF crypto(4)] by fastforce
    then show ?thesis using crypto(1) by (auto simp: afs_step_single)
  qed (simp add: no_step)
  then show "afs_step c t u \<Longrightarrow> read_stage e0 d blk b L u" "snd t \<noteq> [] \<Longrightarrow> \<exists>u. afs_step c t u" by blast+
qed

lemma delivers_flight:
  assumes "afs_flightq c req e = Some s" "delivers c s P"
  shows "delivers c (e, [Flight req]) P"
proof -
  have step: "afs_step c (e, [Flight req]) t \<longleftrightarrow> t = s" for t using assms(1) by (auto simp: afs_step_single)
  have "if snd t = [] then P (fst t) else \<exists>u. afs_step c t u" if "afs_steps c (e, [Flight req]) t" for t
    using that
  proof (cases rule: converse_rtranclpE)
    case base
    then show ?thesis using step by auto
  next
    case (step u)
    then have "afs_steps c s t" using \<open>\<And>t. afs_step c (e, [Flight req]) t \<longleftrightarrow> t = s\<close> by simp
    then show ?thesis using assms(2) unfolding delivers_def by blast
  qed
  moreover obtain e' where "afs_steps c s (e', [])" using assms(2) by (auto simp: delivers_def)
  then have "afs_steps c (e, [Flight req]) (e', [])" using step converse_rtranclp_into_rtranclp by metis
  ultimately show ?thesis unfolding delivers_def by blast
qed

lemma delivers_mono: "delivers c s P \<Longrightarrow> (\<And>e. P e \<Longrightarrow> Q e) \<Longrightarrow> delivers c s Q"
  by (simp add: delivers_def del: split_paired_All split_paired_Ex)

section \<open>Reads and writes\<close>

definition bio_blk :: "bio \<Rightarrow> u32" where
  "bio_blk b = ucast (bi_sector b div 8)"

text \<open>The contents of memory that the next allocation returns.\<close>

definition fresh_block :: "engine \<Rightarrow> bytes" where
  "fresh_block e = map (k_junk (e_k e) (k_allocs (e_k e))) [0..<4096]"

lemma map_bio_request:
  assumes "vol e" "bio_ok b" "bio_op b = REQ_OP_READ \<or> bio_op b = REQ_OP_WRITE"
  shows "\<exists>req k. afs_map_bio b e = Some (DM_MAPIO_SUBMITTED, e\<lparr>e_k := k\<rparr>, [Flight req]) \<and> quiet (e_k e) k \<and>
    rq_ok (ncar e) req \<and> req_block req = bio_blk b \<and> req_iv req = take 16 (passphrase_hash (e_ctx e)) \<and> rebuild_flag req = 0 \<and>
    req_bio req = Bio (trim_bio b) \<and> bio_req (trim_bio b) req \<and> data_block req = fresh_block e"
proof -
  note tr = trim_bio_ok [OF assms(2)]
  obtain req k where req: "init_request (e_ctx e) (e_k e) = Some (Some req, k)" "quiet (e_k e) k" "rq_ok (ncar e) req"
      "req_iv req = take 16 (passphrase_hash (e_ctx e))" "rebuild_flag req = 0" "data_block req = fresh_block e"
    using init_request_ok [OF assms(1)] by (auto simp: fresh_block_def)
  define r where "r = req\<lparr>req_bio := Bio (clone_bio (trim_bio b)), req_block := ucast (bi_sector (trim_bio b) div 8),
    req_sector_offset := ucast (bi_sector (trim_bio b) mod 8), request_size := bio_sectors (trim_bio b) * AFS_SECTOR_SIZE\<rparr>"
  have "afs_map_bio b e = Some (DM_MAPIO_SUBMITTED, e\<lparr>e_k := k\<rparr>, [Flight r])"
    using req(1) assms(3) tr(3) by (auto simp: afs_map_bio_def Let_def r_def)
  moreover have "req_base r = bio_base (trim_bio b)"
  proof -
    have m: "unat (bi_sector b mod 8) < 8" using word_mod_less_divisor [of 8 "bi_sector b"] by (simp add: word_less_nat_alt)
    then have "unat (ucast (bi_sector b mod 8) :: u32) = unat (bi_sector b mod 8)" by (simp add: unsigned_ucast_eq take_bit_nat_eq_self)
    then show ?thesis using m tr(4) by (simp add: r_def req_base_def bio_base_def AFS_SECTOR_SIZE_def unat_word_ariths)
  qed
  then have "bio_req (trim_bio b) r"
    using tr(1,2,5,6) req(3) by (simp add: bio_req_def r_def rq_ok_def)
  ultimately show ?thesis
    using req(2-6) tr(4) by (intro exI [of _ r] exI [of _ k]) (simp add: r_def clone_bio_def bio_blk_def rq_ok_def)
qed

lemma write_run:
  assumes "holds e d" "bio_ok b" "bio_op b = REQ_OP_WRITE" "vblock e (bio_blk b)" "d (bio_blk b) \<noteq> None \<or> room e" "tables_ok c"
  shows "\<exists>e1 ws. afs_map_bio b e = Some (DM_MAPIO_SUBMITTED, e1, ws) \<and>
    delivers c (e1, ws) (\<lambda>e'. e_ended e' = e_ended e @ [trim_bio b] \<and>
      holds e' (d(bio_blk b \<mapsto> blit (fresh_block e) (bio_base b) (payload (trim_bio b)))) \<and>
      keeps {bio_blk b} (homes e (bio_blk b)) e e' \<and> set (ptrs e' (bio_blk b)) \<inter> vtaken e = homes e (bio_blk b))"
proof -
  note tr = trim_bio_ok [OF assms(2)]
  have vol: "vol e" using assms(1) by (simp add: holds_but_def)
  obtain req k where req: "afs_map_bio b e = Some (DM_MAPIO_SUBMITTED, e\<lparr>e_k := k\<rparr>, [Flight req])" "quiet (e_k e) k"
      "rq_ok (ncar e) req" "req_block req = bio_blk b" "req_iv req = take 16 (passphrase_hash (e_ctx e))"
      "req_bio req = Bio (trim_bio b)" "bio_req (trim_bio b) req" "data_block req = fresh_block e"
    using map_bio_request [OF vol assms(2)] assms(3) by blast
  let ?D = "blit (fresh_block e) (bio_base b) (payload (trim_bio b))" and ?e = "e\<lparr>e_k := k\<rparr>" and ?blk = "bio_blk b"
  have still: "still e ?e" using still_kernel [OF vol req(2)] .
  have hold: "holds ?e d" using still_holds [OF assms(1) still] .
  have "mapped ?e ?blk \<or> room ?e"
    using assms(5) busyD(4) [of e d "{}" ?blk] assms(1,4) req(2) quiet_trans by (auto simp: holds_at_def mapped_def room_def)
  then obtain req' e' where fl: "afs_flightq c req ?e = Some (e', [WriteIO req' [0..<ncar e]])"
      "writing e' d {?blk} ?blk ?D req' [0..<ncar e]" "req_bio req' = Bio (trim_bio b)" "e_ended e' = e_ended e"
      "keeps {?blk} {} ?e e'" "set (ptrs e' ?blk) \<inter> vtaken e = homes ?e ?blk"
    using start_write [of ?e d "{}", OF _ _ _ req(4) _ req(6,7), of c] hold assms(3,4,6) req(3,5,8) tr(2,3) by auto
  let ?ps = "ptrs e' ?blk"
  have "keeps {?blk} (set ?ps) e ?e" using still keeps_mono [of "{}" "{}" e ?e] by (simp add: still_def)
  then have keep: "keeps {?blk} (set ?ps) e e'" using keeps_trans keeps_mono [OF fl(5)] by blast
  have homes: "homes ?e ?blk = homes e ?blk" by (simp add: homes_def mapped_def ptrs_def)
  have dl: "delivers c (e', [WriteIO req' [0..<ncar e]]) (\<lambda>e'. e_ended e' = e_ended e @ [trim_bio b] \<and> holds e' (d(?blk \<mapsto> ?D)) \<and>
      keeps {?blk} (homes e ?blk) e e' \<and> set (ptrs e' ?blk) \<inter> vtaken e = homes e ?blk)"
  proof (rule deliversI [of "write_stage e ?ps d ?blk ?D (trim_bio b) (e_ended e)"])
    show "write_stage e ?ps d ?blk ?D (trim_bio b) (e_ended e) (e', [WriteIO req' [0..<ncar e]])" using fl(2-4) keep by simp
  qed (use write_stage_step fl(6) homes keeps_taken in auto)
  show ?thesis using req(1) delivers_flight [OF fl(1) dl] by blast
qed

lemma read_run:
  assumes "readable e d" "bio_ok b" "bio_op b = REQ_OP_READ" "vblock e (bio_blk b)"
  shows "\<exists>e1 ws. afs_map_bio b e = Some (DM_MAPIO_SUBMITTED, e1, ws) \<and>
    delivers c (e1, ws) (\<lambda>e'. still e e' \<and> (\<exists>b'. e_ended e' = e_ended e @ [b'] \<and> reads_back (trim_bio b) (d (bio_blk b)) b'))"
proof -
  note tr = trim_bio_ok [OF assms(2)]
  have vol: "vol e" using readableD(1) [OF assms(1)] .
  obtain req k where req: "afs_map_bio b e = Some (DM_MAPIO_SUBMITTED, e\<lparr>e_k := k\<rparr>, [Flight req])" "quiet (e_k e) k"
      "rq_ok (ncar e) req" "req_block req = bio_blk b" "req_iv req = take 16 (passphrase_hash (e_ctx e))" "rebuild_flag req = 0"
      "req_bio req = Bio (trim_bio b)" "bio_req (trim_bio b) req"
    using map_bio_request [OF vol assms(2)] assms(3) by blast
  let ?e = "e\<lparr>e_k := k\<rparr>"
  have still: "still e ?e" using still_kernel [OF vol req(2)] .
  have read: "readable ?e d" using still_readable [OF assms(1) still] .
  obtain s where fl: "afs_flightq c req ?e = Some s" "read_stage e d (bio_blk b) (trim_bio b) (e_ended e) s"
    using start_read [of ?e d "bio_blk b", OF _ _ _ _ req(4) _ req(6-8), of c] readableD [OF read] assms(3,4) req(3,5) tr(3) still_trans [OF still] by (auto split: if_splits)
  have dl: "delivers c s (\<lambda>e'. still e e' \<and> (\<exists>b'. e_ended e' = e_ended e @ [b'] \<and> reads_back (trim_bio b) (d (bio_blk b)) b'))"
    using fl(2) read_stage_step by (intro deliversI [of "read_stage e d (bio_blk b) (trim_bio b) (e_ended e)"]) auto
  show ?thesis using req(1) delivers_flight [OF fl(1) dl] by auto
qed

section \<open>A volume in use\<close>

text \<open>An empty volume of one block on four free blocks.\<close>

definition disk_fs :: afs_passive_fs where
  "disk_fs = \<lparr>block_list = [2, 3, 5, 7], list_len = 4, sectors_per_block = 8, total_blocks = 16, data_start_off = 0, blocks_in_tuple = 1\<rparr>"

definition disk_engine :: engine where
  "disk_engine = \<lparr>e_ctx = (demo_ctx (demo_config\<lparr>num_carrier_blocks := 3, map_entry_sz := 58, num_blocks := 1\<rparr>) (replicate 58 0xff))
       \<lparr>passive_fs := disk_fs, vector := vector mount_ctx, encoding_type := AONT_RS, passphrase_hash := replicate 32 0\<rparr>,
     e_k = demo_kernel, e_flight_eq = Leaf, e_rebuild_eq = Leaf, e_ended = []\<rparr>"

definition disk_bio :: "req_op \<Rightarrow> bio" where
  "disk_bio rq = \<lparr>bio_op = rq, bi_sector = 0, bi_size = 4096, bi_io_vec = [\<lparr>bv_page = replicate 4096 7, bv_len = 4096, bv_offset = 0\<rparr>]\<rparr>"

lemma disk_bio_facts:
  "bio_ok (disk_bio rq)" "trim_bio (disk_bio rq) = disk_bio rq" "bio_blk (disk_bio rq) = 0" "bio_base (disk_bio rq) = 0"
  "payload (disk_bio rq) = replicate 4096 7" "bio_op (disk_bio rq) = rq"
proof -
  have "drop_bit 9 (4096 :: u32) = 8" by code_simp
  then show "trim_bio (disk_bio rq) = disk_bio rq"
    by (simp add: trim_bio_def disk_bio_def bio_sectors_def AFS_SECTORS_PER_BLOCK_def)
qed (simp_all add: disk_bio_def bio_ok_def segs_ok_def segs_size_def bio_blk_def bio_base_def payload_def seg_bytes_def sub_def)

lemma le_word_mod_4: "(le_word (b # bs) :: u32) mod 4 = ucast b mod 4"
proof -
  have "take_bit 2 (le_word (b # bs) :: u32) = take_bit 2 (ucast b)"
    by (rule bit_word_eqI) (auto simp: bit_simps)
  then show ?thesis by (simp add: take_bit_eq_mod)
qed

lemma disk_draw: "draw disk_fs (demo_kernel\<lparr>k_allocs := a, k_rpos := r\<rparr>) n = of_nat ((r div 4 + n) mod 4)"
proof -
  have "draw disk_fs (demo_kernel\<lparr>k_allocs := a, k_rpos := r\<rparr>) n = ucast (of_nat ((r + 4 * n) div 4) :: u8) mod 4"
    by (simp add: draw_def disk_fs_def demo_kernel_def upt_rec le_word_mod_4 del: le_word.simps)
  also have "(ucast (of_nat m :: u8) :: u32) mod 4 = of_nat (m mod 4)" for m
  proof (rule unsigned_word_eqI)
    show "unat ((ucast (of_nat m :: u8) :: u32) mod 4) = unat (of_nat (m mod 4) :: u32)"
      by (simp add: unat_mod_distrib unat_ucast_up unsigned_of_nat take_bit_eq_mod mod_mod_cancel)
  qed
  finally show ?thesis by (simp add: div_add1_eq)
qed

lemma disk_fields [simp]:
  "vcfg disk_engine = demo_config\<lparr>num_carrier_blocks := 3, map_entry_sz := 58, num_blocks := 1\<rparr>" "vfs disk_engine = disk_fs"
  "vector (e_ctx disk_engine) = vector mount_ctx" "e_k disk_engine = demo_kernel" "afs_map (e_ctx disk_engine) = Some (replicate 58 0xff)"
  "encoding_type (e_ctx disk_engine) = AONT_RS" "passphrase_hash (e_ctx disk_engine) = replicate 32 0"
  by (simp_all add: disk_engine_def demo_ctx_def)

lemma disk_vol: "vol disk_engine"
  using mount_vector(1) unfolding vol_def
  by (simp add: demo_config_def disk_fs_def demo_kernel_def io_ok_def alloc_ok_def block_fits_def AFS_INVALID_BLOCK_def)

lemma disk_holds: "holds disk_engine (\<lambda>_. None)"
proof -
  have "(le_word (replicate 4 0xff) :: u32) = AFS_INVALID_BLOCK" by code_simp
  moreover have "sub (replicate 58 (0xff :: u8)) 0 4 = replicate 4 0xff" by (simp add: sub_def)
  ultimately have "\<not> mapped disk_engine 0" by (simp add: mapped_def eptr_def epos_def)
  moreover have "blk = 0" if "vblock disk_engine blk" for blk
    using that by (simp add: vblock_def demo_config_def word_less_1)
  ultimately have "\<not> mapped disk_engine blk" if "vblock disk_engine blk" for blk
    using that by blast
  then show ?thesis using disk_vol by (auto simp: holds_but_def holds_at_def)
qed

lemma acquire_first:
  assumes "open_vector v" "fs_wf fs" "\<not> taken v (draw fs k 0)"
  shows "acquire_block fs v k = Some (block_list fs ! unat (draw fs k 0), snd (allocation_set v (draw fs k 0)), after_draws 1 k)"
proof -
  have ne: "list_len fs \<noteq> 0" using assms(2) by (simp add: fs_wf_def)
  have "unat (draw fs k 0) < length (block_list fs)"
    using draw_less [OF ne, of k 0] assms(2) by (auto simp: fs_wf_def word_less_nat_alt)
  then show ?thesis
    using assms(1,3) by (simp add: acquire_block_def random_block_index_draw [OF ne], subst acquire_loop.simps)
      (simp add: allocation_set_eq open_vector_def block_list_at_def)
qed

lemma draws_differ:
  assumes "m < n" "n < m + 4"
  shows "(of_nat ((q + m) mod 4) :: u32) \<noteq> of_nat ((q + n) mod 4)"
proof
  assume "(of_nat ((q + m) mod 4) :: u32) = of_nat ((q + n) mod 4)"
  then have "unat (of_nat ((q + m) mod 4) :: u32) = unat (of_nat ((q + n) mod 4) :: u32)" by (rule arg_cong)
  moreover have "unat (of_nat (x mod 4) :: u32) = x mod 4" for x
    using mod_less_divisor [of 4 x] by (simp add: unsigned_of_nat take_bit_nat_eq_self)
  ultimately have "(q + m) mod 4 = (q + n) mod 4" by simp
  then show False using assms by presburger
qed

text \<open>Draws that hit free indices give their blocks.\<close>

lemma acquires_draws:
  assumes "open_vector v" "fs_wf fs" "\<And>n. n < m \<Longrightarrow> \<not> taken v (draw fs k n)" "inj_on (draw fs k) {..<m}"
    and "\<And>b. b \<in> set (block_list fs) \<Longrightarrow> b \<noteq> AFS_INVALID_BLOCK"
  shows "acquires m fs v k"
  using assms(1,3,4)
proof (induction m arbitrary: v k)
  case (Suc m)
  let ?v = "snd (allocation_set v (draw fs k 0))"
  have ne: "list_len fs \<noteq> 0" using assms(2) by (simp add: fs_wf_def)
  have "unat (draw fs k 0) < length (block_list fs)"
    using draw_less [OF ne, of k 0] assms(2) by (auto simp: fs_wf_def word_less_nat_alt)
  then have valid: "block_list fs ! unat (draw fs k 0) \<noteq> AFS_INVALID_BLOCK" using assms(5) nth_mem by blast
  note v = open_vector_set [OF Suc.prems(1), of "draw fs k 0"]
  have "acquires m fs ?v (after_draws 1 k)"
  proof (rule Suc.IH [OF v(1)])
    show "\<not> taken ?v (draw fs (after_draws 1 k) n)" if "n < m" for n
    proof -
      have "draw fs k (Suc n) \<noteq> draw fs k 0" using inj_onD [OF Suc.prems(3), of "Suc n" 0] that by auto
      then show ?thesis using v(2) Suc.prems(2) [of "Suc n"] that by simp
    qed
    show "inj_on (draw fs (after_draws 1 k)) {..<m}"
    proof (rule inj_onI)
      fix x y assume "x \<in> {..<m}" "y \<in> {..<m}" "draw fs (after_draws 1 k) x = draw fs (after_draws 1 k) y"
      then show "x = y" using inj_onD [OF Suc.prems(3), of "Suc x" "Suc y"] by simp
    qed
  qed
  moreover have "acquire_block fs v k = Some (block_list fs ! unat (draw fs k 0), ?v, after_draws 1 k)"
    using acquire_first [OF Suc.prems(1) assms(2)] Suc.prems(2) [of 0] by simp
  ultimately show ?case using valid by simp
qed simp

lemma disk_room: "room disk_engine"
  unfolding room_def
proof (intro allI impI)
  fix k assume "quiet (e_k disk_engine) k"
  then obtain a r where k: "k = demo_kernel\<lparr>k_allocs := a, k_rpos := r\<rparr>" by (auto simp: quiet_def)
  have "inj_on (draw disk_fs k) {..<3}"
  proof (rule inj_onI)
    fix x y :: nat assume "x \<in> {..<3}" "y \<in> {..<3}" "draw disk_fs k x = draw disk_fs k y"
    then show "x = y"
      using draws_differ [of x y "r div 4"] draws_differ [of y x "r div 4"] unfolding k disk_draw by (cases x y rule: linorder_cases) simp_all
  qed
  moreover have "fs_wf disk_fs" by (simp add: fs_wf_def disk_fs_def)
  ultimately have "acquires 3 disk_fs (vector mount_ctx) k"
    using volD(12) [OF disk_vol] by (intro acquires_draws [OF mount_vector(1)]) (auto simp: mount_vector(2))
  moreover have "ncar disk_engine = 3" by simp
  ultimately show "acquires (ncar disk_engine) (vfs disk_engine) (vector (e_ctx disk_engine)) k" by (simp only: disk_fields)
qed

lemma disk_facts:
  "vblock disk_engine 0" "e_ended disk_engine = []" "blit (fresh_block disk_engine) 0 (replicate 4096 7) = replicate 4096 7"
proof -
  show "vblock disk_engine 0" by (simp add: vblock_def demo_config_def)
qed (simp_all add: disk_engine_def blit_def fresh_block_def)

text \<open>The empty volume after a write.\<close>

lemma disk_written: "\<exists>e. holds e [0 \<mapsto> replicate 4096 7] \<and> vcfg e = vcfg disk_engine \<and> e_ended e = [disk_bio REQ_OP_WRITE]"
proof -
  obtain e1 ws where w: "delivers gf_ctx_zero (e1, ws) (\<lambda>e'. e_ended e' = [disk_bio REQ_OP_WRITE] \<and> holds e' [0 \<mapsto> replicate 4096 7] \<and>
      keeps {0} (homes disk_engine 0) disk_engine e' \<and> set (ptrs e' 0) \<inter> vtaken disk_engine = homes disk_engine 0)"
    using write_run [OF disk_holds disk_bio_facts(1), of REQ_OP_WRITE gf_ctx_zero] disk_room disk_facts
    by (auto simp: disk_bio_facts tables_ok_def simp del: disk_fields)
  have d: "delivers gf_ctx_zero (e1, ws) (\<lambda>e'. (e_ended e' = [disk_bio REQ_OP_WRITE] \<and> holds e' [0 \<mapsto> replicate 4096 7]) \<and> vcfg e' = vcfg disk_engine)"
    by (rule delivers_mono [OF w]) (simp add: keeps_def del: disk_fields)
  then obtain e where "afs_steps gf_ctx_zero (e1, ws) (e, [])" unfolding delivers_def by blast
  then have "(e_ended e = [disk_bio REQ_OP_WRITE] \<and> holds e [0 \<mapsto> replicate 4096 7]) \<and> vcfg e = vcfg disk_engine"
    using d unfolding delivers_def by (metis fst_conv snd_conv)
  then show ?thesis by blast
qed

section \<open>Properties\<close>

text \<open>C5: A write refines a write of the abstract disk: on a volume that holds \<open>d\<close>, with room for the block or the
  block already allocated, \<open>afs_map\<close> accepts a write, and its run ends, in every order of completions, with
  the bio handed back and the block holding the payload of the bio at its offset, over uninitialised memory: the old contents of
  the block are not read. All other blocks are as before, and of the taken blocks of the device only the carrier blocks of this
  block are written.\<close>

theorem write_refines:
  assumes "holds e d" "bio_ok b" "bio_op b = REQ_OP_WRITE" "vblock e (bio_blk b)" "d (bio_blk b) \<noteq> None \<or> room e" "tables_ok c"
  shows "\<exists>e1 ws. afs_map_bio b e = Some (DM_MAPIO_SUBMITTED, e1, ws) \<and>
    delivers c (e1, ws) (\<lambda>e'. e_ended e' = e_ended e @ [trim_bio b] \<and>
      holds e' (d(bio_blk b \<mapsto> blit (fresh_block e) (bio_base b) (payload (trim_bio b)))) \<and>
      keeps {bio_blk b} (homes e (bio_blk b)) e e')"
proof -
  obtain e1 ws where w: "afs_map_bio b e = Some (DM_MAPIO_SUBMITTED, e1, ws)"
      "delivers c (e1, ws) (\<lambda>e'. e_ended e' = e_ended e @ [trim_bio b] \<and>
        holds e' (d(bio_blk b \<mapsto> blit (fresh_block e) (bio_base b) (payload (trim_bio b)))) \<and>
        keeps {bio_blk b} (homes e (bio_blk b)) e e' \<and> set (ptrs e' (bio_blk b)) \<inter> vtaken e = homes e (bio_blk b))"
    using write_run [OF assms] by blast
  have "delivers c (e1, ws) (\<lambda>e'. e_ended e' = e_ended e @ [trim_bio b] \<and>
      holds e' (d(bio_blk b \<mapsto> blit (fresh_block e) (bio_base b) (payload (trim_bio b)))) \<and> keeps {bio_blk b} (homes e (bio_blk b)) e e')"
    by (rule delivers_mono [OF w(2)]) simp
  then show ?thesis using w(1) by (intro exI conjI)
qed

theorem write_refines_witness:
  "\<exists>e1 ws. afs_map_bio (disk_bio REQ_OP_WRITE) disk_engine = Some (DM_MAPIO_SUBMITTED, e1, ws) \<and>
    delivers gf_ctx_zero (e1, ws) (\<lambda>e'. e_ended e' = [disk_bio REQ_OP_WRITE] \<and> holds e' [0 \<mapsto> replicate 4096 7] \<and>
      keeps {0} (homes disk_engine 0) disk_engine e')"
  using write_refines [OF disk_holds disk_bio_facts(1), of REQ_OP_WRITE gf_ctx_zero] disk_room disk_facts
  by (simp add: disk_bio_facts tables_ok_def del: disk_fields)

text \<open>C6: A read refines a read of the abstract disk: on a volume that reads as \<open>d\<close>, \<open>afs_map\<close> accepts a read, and its run
  ends, in every order of completions, with the bio handed back, its segments filled with the bytes of the block
  (zeros if it is not allocated) at its offset. The map, the allocation and the device are as before, so the volume still reads as \<open>d\<close>.
  A volume that holds \<open>d\<close> reads as \<open>d\<close>, and so does one that was mounted.\<close>

theorem read_refines:
  assumes "readable e d" "bio_ok b" "bio_op b = REQ_OP_READ" "vblock e (bio_blk b)"
  shows "\<exists>e1 ws. afs_map_bio b e = Some (DM_MAPIO_SUBMITTED, e1, ws) \<and>
    delivers c (e1, ws) (\<lambda>e'. still e e' \<and> readable e' d \<and>
      (\<exists>b'. e_ended e' = e_ended e @ [b'] \<and> reads_back (trim_bio b) (d (bio_blk b)) b'))"
proof -
  obtain e1 ws where r: "afs_map_bio b e = Some (DM_MAPIO_SUBMITTED, e1, ws)"
      "delivers c (e1, ws) (\<lambda>e'. still e e' \<and> (\<exists>b'. e_ended e' = e_ended e @ [b'] \<and> reads_back (trim_bio b) (d (bio_blk b)) b'))"
    using read_run [OF assms] by blast
  have "delivers c (e1, ws) (\<lambda>e'. still e e' \<and> readable e' d \<and>
      (\<exists>b'. e_ended e' = e_ended e @ [b'] \<and> reads_back (trim_bio b) (d (bio_blk b)) b'))"
    by (rule delivers_mono [OF r(2)]) (simp add: still_readable [OF assms(1)])
  then show ?thesis using r(1) by (intro exI conjI)
qed

theorem read_refines_witness:
  "\<exists>e e1 ws. afs_map_bio (disk_bio REQ_OP_READ) e = Some (DM_MAPIO_SUBMITTED, e1, ws) \<and>
    delivers gf_ctx_zero (e1, ws) (\<lambda>e'. \<exists>b'. e_ended e' = [disk_bio REQ_OP_WRITE, b'] \<and> payload b' = replicate 4096 7)"
proof -
  obtain e where e: "holds e [0 \<mapsto> replicate 4096 7]" "vcfg e = vcfg disk_engine" "e_ended e = [disk_bio REQ_OP_WRITE]"
    using disk_written by blast
  have vb: "vblock e (bio_blk (disk_bio REQ_OP_READ))" using disk_facts(1) e(2) by (simp add: vblock_def disk_bio_facts(3))
  have size: "unat (bi_size (disk_bio rq)) = 4096" for rq by (simp add: disk_bio_def)
  obtain e1 ws where r: "afs_map_bio (disk_bio REQ_OP_READ) e = Some (DM_MAPIO_SUBMITTED, e1, ws)"
      "delivers gf_ctx_zero (e1, ws) (\<lambda>e'. still e e' \<and> readable e' [0 \<mapsto> replicate 4096 7] \<and>
        (\<exists>b'. e_ended e' = [disk_bio REQ_OP_WRITE] @ [b'] \<and> reads_back (disk_bio REQ_OP_READ) (Some (replicate 4096 7)) b'))"
    using read_refines [OF holds_readable [OF e(1)] disk_bio_facts(1) disk_bio_facts(6) vb, of gf_ctx_zero] e(3)
    by (auto simp: disk_bio_facts simp del: disk_fields)
  have "delivers gf_ctx_zero (e1, ws) (\<lambda>e'. \<exists>b'. e_ended e' = [disk_bio REQ_OP_WRITE, b'] \<and> payload b' = replicate 4096 7)"
    by (rule delivers_mono [OF r(2)]) (auto simp: reads_back_def disk_bio_facts size sub_def)
  then show ?thesis using r(1) by blast
qed

end
