(* ===== verification/Afs_Fat32.thy ===== *)
theory Afs_Fat32
  imports Afs_Map
begin

text \<open>
  Detection of a FAT32 passive file system, \<open>src/src/modules/dm_afs_fat32.c\<close>: the boot sector, the
  file allocation table, and the list of free clusters that it gives to the allocator. A result \<open>None\<close> is a
  fault (a null pointer or an access outside a buffer). The results of \<open>kmalloc\<close> and \<open>vmalloc\<close> are tested
  with \<open>IS_ERR\<close>, which a null pointer passes, so a failed allocation is a fault as well. The flag \<open>used_vmalloc\<close> of
  \<open>read_page\<close> only selects how the page structure of a buffer is found.
\<close>

section \<open>Structures\<close>

text \<open>The volume, without its counters of files, which nothing uses, and the pointer to the freed table.\<close>

record fat_volume =
  v_empty_clusters :: "u32 list"
  v_num_data_clusters :: u32
  v_data_start_off :: u64
  v_oem_name :: bytes
  v_num_empty_clusters :: u32
  v_bytes_sector :: u16
  v_sector_order :: u16
  v_sec_cluster :: u8
  v_sec_cluster_order :: u8
  v_cluster_order :: u16
  v_reserved :: u16
  v_tables :: u8
  v_root_entries :: u16
  v_media_desc :: u8
  v_total_sec :: u32
  v_sec_fat :: u32
  v_sec_track :: u16
  v_num_heads :: u16
  v_hidden_sec :: u32
  v_driv_desc :: u16
  v_version :: u16
  v_root_dir_start :: u32
  v_fs_info_sec :: u16
  v_alt_boot_sec :: u16
  v_phys_driv_num :: u8
  v_ext_boot_sig :: u8
  v_vol_id :: u32
  v_volume_label :: bytes
  v_fs_type :: bytes

record fat32_ebpb =
  eb_sec_fat :: u32
  eb_drive_desc :: u16
  eb_version :: u16
  eb_root_start_clust :: u32
  eb_fs_info_sec :: u16
  eb_alt_boot_sec :: u16

record nonfat32_ebpb =
  nb_physical_drive_num :: u8
  nb_extended_boot_sig :: u8
  nb_volume_id :: u32
  nb_volume_label :: bytes
  nb_fs_type :: bytes

record fat_boot_sector =
  bs_oem_name :: bytes
  bs_bytes_sec :: u16
  bs_sec_cluster :: u8
  bs_res_sec :: u16
  bs_num_tables :: u8
  bs_max_root_ent :: u16
  bs_total_sectors :: u16
  bs_media_desc :: u8
  bs_sec_fat :: u16
  bs_sec_track :: u16
  bs_num_heads :: u16
  bs_hidden_sec :: u32
  bs_total_sec_32 :: u32
  bs_fat32_ebpb :: fat32_ebpb
  bs_nonfat32_ebpb :: nonfat32_ebpb

text \<open>The layout on disk. The two extended blocks share their place; \<open>bs_nonfat32_ebpb\<close> is the member of the
  union at offset 36, not the one behind the FAT32 block.\<close>

definition fat32_ebpb_of :: "bytes \<Rightarrow> fat32_ebpb" where
  "fat32_ebpb_of d = \<lparr>eb_sec_fat = le_word (sub d 36 4), eb_drive_desc = le_word (sub d 40 2), eb_version = le_word (sub d 42 2),
     eb_root_start_clust = le_word (sub d 44 4), eb_fs_info_sec = le_word (sub d 48 2), eb_alt_boot_sec = le_word (sub d 50 2)\<rparr>"

definition nonfat32_ebpb_of :: "bytes \<Rightarrow> nonfat32_ebpb" where
  "nonfat32_ebpb_of d = \<lparr>nb_physical_drive_num = d ! 36, nb_extended_boot_sig = d ! 38, nb_volume_id = le_word (sub d 39 4),
     nb_volume_label = sub d 43 11, nb_fs_type = sub d 54 8\<rparr>"

definition boot_sector_of :: "bytes \<Rightarrow> fat_boot_sector" where
  "boot_sector_of d = \<lparr>bs_oem_name = sub d 3 8, bs_bytes_sec = le_word (sub d 11 2), bs_sec_cluster = d ! 13,
     bs_res_sec = le_word (sub d 14 2), bs_num_tables = d ! 16, bs_max_root_ent = le_word (sub d 17 2),
     bs_total_sectors = le_word (sub d 19 2), bs_media_desc = d ! 21, bs_sec_fat = le_word (sub d 22 2),
     bs_sec_track = le_word (sub d 24 2), bs_num_heads = le_word (sub d 26 2), bs_hidden_sec = le_word (sub d 28 4),
     bs_total_sec_32 = le_word (sub d 32 4), bs_fat32_ebpb = fat32_ebpb_of d, bs_nonfat32_ebpb = nonfat32_ebpb_of d\<rparr>"

section \<open>Operations\<close>

text \<open>The instruction \<open>bsr\<close>: the position of the highest bit. It is undefined at 0; every caller rejects 0
  before it uses the result.\<close>

definition bsr :: "u64 \<Rightarrow> u64" where
  "bsr n = of_nat (last (0 # filter (bit n) [0..<64]))"

definition is_power_of_2 :: "u64 \<Rightarrow> bool" where
  "is_power_of_2 n \<longleftrightarrow> n \<noteq> 0 \<and> n AND (n - 1) = 0"

definition fat_read_dos_2_0_bpb :: "fat_volume \<Rightarrow> fat_boot_sector \<Rightarrow> int \<times> fat_volume" where
  "fat_read_dos_2_0_bpb vol boot_sec =
     (let vol = vol\<lparr>v_bytes_sector := bs_bytes_sec boot_sec\<rparr>;
          vol = vol\<lparr>v_sector_order := ucast (bsr (ucast (v_bytes_sector vol)))\<rparr> in
      if \<not> (is_power_of_2 (ucast (v_bytes_sector vol)) \<and> v_sector_order vol \<ge> 5 \<and> v_sector_order vol \<le> 12) then (-1, vol)
      else
        (let vol = vol\<lparr>v_sec_cluster := bs_sec_cluster boot_sec\<rparr>;
             vol = vol\<lparr>v_sec_cluster_order := ucast (bsr (ucast (v_sec_cluster vol)))\<rparr> in
         if \<not> (is_power_of_2 (ucast (v_sec_cluster vol)) \<and> v_sec_cluster_order vol \<le> 7) then (-1, vol)
         else
           (let vol = vol\<lparr>v_cluster_order := v_sector_order vol + ucast (v_sec_cluster_order vol),
                          v_reserved := bs_res_sec boot_sec, v_tables := bs_num_tables boot_sec\<rparr> in
            if \<not> (v_tables vol = 1 \<or> v_tables vol = 2) then (-1, vol)
            else (0, vol\<lparr>v_root_entries := bs_max_root_ent boot_sec, v_total_sec := ucast (bs_total_sectors boot_sec),
                         v_media_desc := bs_media_desc boot_sec, v_sec_fat := ucast (bs_sec_fat boot_sec)\<rparr>))))"

definition fat_read_dos_3_31_bpb :: "fat_volume \<Rightarrow> fat_boot_sector \<Rightarrow> int \<times> fat_volume" where
  "fat_read_dos_3_31_bpb vol boot_sec =
     (let vol = vol\<lparr>v_sec_track := bs_sec_track boot_sec, v_num_heads := bs_num_heads boot_sec, v_hidden_sec := bs_hidden_sec boot_sec\<rparr>
      in (0, if v_total_sec vol = 0 then vol\<lparr>v_total_sec := bs_total_sec_32 boot_sec\<rparr> else vol))"

definition fat_read_nonfat32_ebpb :: "fat_volume \<Rightarrow> nonfat32_ebpb \<Rightarrow> int \<times> fat_volume" where
  "fat_read_nonfat32_ebpb vol ebpb =
     (0, vol\<lparr>v_phys_driv_num := nb_physical_drive_num ebpb, v_ext_boot_sig := nb_extended_boot_sig ebpb, v_vol_id := nb_volume_id ebpb,
             v_volume_label := blit (v_volume_label vol) 0 (nb_volume_label ebpb), v_fs_type := blit (v_fs_type vol) 0 (nb_fs_type ebpb)\<rparr>)"

definition fat_read_fat32_ebpb :: "fat_volume \<Rightarrow> fat32_ebpb \<Rightarrow> int \<times> fat_volume" where
  "fat_read_fat32_ebpb vol ebpb =
     (let vol = (if eb_sec_fat ebpb \<noteq> 0 then vol\<lparr>v_sec_fat := eb_sec_fat ebpb\<rparr> else vol);
          n = unat (v_sector_order vol) in
      if eb_sec_fat ebpb \<noteq> 0 \<and> drop_bit n (push_bit n (ucast (v_sec_fat vol) :: u64)) \<noteq> ucast (v_sec_fat vol) then (-1, vol)
      else
        (let vol = vol\<lparr>v_driv_desc := eb_drive_desc ebpb, v_version := eb_version ebpb\<rparr> in
         if v_version vol \<noteq> 0 then (-1, vol)
         else
           (let vol = vol\<lparr>v_root_dir_start := eb_root_start_clust ebpb\<rparr> in
            if v_root_dir_start vol = 0 then (-1, vol)
            else
              (let vol = vol\<lparr>v_fs_info_sec := eb_fs_info_sec ebpb, v_alt_boot_sec := eb_alt_boot_sec ebpb\<rparr>;
                   vol = (if v_fs_info_sec vol = 0xffff then vol\<lparr>v_fs_info_sec := 0\<rparr> else vol)
               in if v_fs_info_sec vol \<noteq> 0 \<and> v_sector_order vol < 9 then (-1, vol) else (0, vol)))))"

text \<open>\<open>data\<close> is the first page of the device. The boot sector is copied before it is read.\<close>

definition read_boot_sector :: "fat_volume \<Rightarrow> bytes \<Rightarrow> kernel \<Rightarrow> (int \<times> fat_volume \<times> kernel) option" where
  "read_boot_sector vol data k = (case kmalloc 512 k of
       (None, k) \<Rightarrow> None
     | (Some boot, k) \<Rightarrow> do {
         src \<leftarrow> peek data 0 512;
         boot \<leftarrow> poke boot 0 src;
         let boot_sec = boot_sector_of boot;
         let vol = vol\<lparr>v_oem_name := blit (v_oem_name vol) 0 (bs_oem_name boot_sec)\<rparr>;
         let (ret, vol) = fat_read_dos_2_0_bpb vol boot_sec;
         if ret \<noteq> 0 then Some (-1, vol, k)
         else do {
           let (ret, vol) = fat_read_dos_3_31_bpb vol boot_sec;
           if ret \<noteq> 0 then Some (-1, vol, k)
           else do {
             let (ret, vol) = fat_read_fat32_ebpb vol (bs_fat32_ebpb boot_sec);
             if ret \<noteq> 0 then Some (-1, vol, k)
             else do {
               let (ret, vol) = fat_read_nonfat32_ebpb vol (bs_nonfat32_ebpb boot_sec);
               let num_data_sectors = v_total_sec vol - ucast (v_reserved vol) - v_sec_fat vol * ucast (v_tables vol)
                 - drop_bit (unat (v_sector_order vol)) (push_bit 5 (ucast (v_root_entries vol)));
               if v_sec_cluster vol = 0 then None
               else Some (0, vol\<lparr>v_num_data_clusters := num_data_sectors div ucast (v_sec_cluster vol)\<rparr>, k) } } } })"

text \<open>The pages of the table, read one by one; the index \<open>i * 4096\<close> is a signed 32-bit product.\<close>

fun fat_pages :: "nat \<Rightarrow> nat \<Rightarrow> u32 \<Rightarrow> bytes \<Rightarrow> bytes \<Rightarrow> kernel \<Rightarrow> (bytes \<times> bytes \<times> kernel) option" where
  "fat_pages 0 i first reader fat_data k = Some (reader, fat_data, k)"
| "fat_pages (Suc n) i first reader fat_data k =
     (if 2 ^ 31 \<le> i * 4096 then None
      else do {
        (ret, reader, k) \<leftarrow> read_page True reader (first + of_nat i) 0 True k;
        fat_data \<leftarrow> poke fat_data (i * 4096) (take 4096 reader);
        fat_pages n (Suc i) first reader fat_data k })"

text \<open>The scan of the table: the numbers of the entries that are 0.\<close>

fun fat_scan :: "nat \<Rightarrow> nat \<Rightarrow> bytes \<Rightarrow> u32 list \<Rightarrow> nat \<Rightarrow> (u32 list \<times> nat) option" where
  "fat_scan 0 i p empty_clusters cluster_number = Some (empty_clusters, cluster_number)"
| "fat_scan (Suc n) i p empty_clusters cluster_number = do {
     e \<leftarrow> peek p (4 * i) 4;
     if (le_word e :: u32) = 0 then
       (if cluster_number < length empty_clusters
        then fat_scan n (Suc i) p (empty_clusters[cluster_number := of_nat i]) (Suc cluster_number)
        else None)
     else fat_scan n (Suc i) p empty_clusters cluster_number }"

definition fat_offset :: "fat_volume \<Rightarrow> u64" where
  "fat_offset vol = push_bit (unat (v_sector_order vol)) (ucast (v_reserved vol))"

definition fat_aligned_offset :: "fat_volume \<Rightarrow> u64" where
  "fat_aligned_offset vol = fat_offset vol AND 0xFFFFF000"

definition fat_size_bytes :: "fat_volume \<Rightarrow> u64" where
  "fat_size_bytes vol = ucast (v_sec_fat vol * ucast (v_bytes_sector vol))"

definition fat_aligned_size_bytes :: "fat_volume \<Rightarrow> u64" where
  "fat_aligned_size_bytes vol = fat_size_bytes vol + (fat_offset vol - fat_aligned_offset vol)"

definition fat_page_number :: "fat_volume \<Rightarrow> u32" where
  "fat_page_number vol = ucast (fat_aligned_size_bytes vol div 4096 + 1)"

definition fat_map :: "fat_volume \<Rightarrow> kernel \<Rightarrow> (int \<times> fat_volume \<times> kernel) option" where
  "fat_map vol k = do {
     let (reader, k) = kmalloc 4096 k;
     let vol = vol\<lparr>v_data_start_off := ucast (ucast (v_tables vol) * v_sec_fat vol + ucast (v_reserved vol))\<rparr>;
     (fat_data, k) \<leftarrow>
       (if fat_aligned_offset vol + fat_aligned_size_bytes vol > 4096 then
          (case vmalloc (unat (fat_page_number vol * AFS_BLOCK_SIZE)) k of (fat_data, k) \<Rightarrow> do {
             reader \<leftarrow> reader;
             fat_data \<leftarrow> fat_data;
             (reader, fat_data, k) \<leftarrow>
               fat_pages (unat (fat_page_number vol)) 0 (ucast (fat_aligned_offset vol div 4096)) reader fat_data k;
             Some (fat_data, k) })
        else Some ([], k));
     (case vmalloc (unat (fat_size_bytes vol)) k of (mem, k) \<Rightarrow>
        if mem = None \<and> fat_size_bytes vol \<noteq> 0 then None
        else do {
          let empty_clusters = replicate (unat (fat_size_bytes vol) div 4) 0;
          (empty_clusters, cluster_number) \<leftarrow> fat_scan (unat (v_num_data_clusters vol)) 0 fat_data empty_clusters 0;
          Some (0, vol\<lparr>v_empty_clusters := empty_clusters, v_num_empty_clusters := of_nat cluster_number\<rparr>, k) }) }"

text \<open>The memory of the volume is not cleared; every field that is read is set before.\<close>

definition raw_volume :: "(nat \<Rightarrow> u8) \<Rightarrow> fat_volume" where
  "raw_volume junk = \<lparr>v_empty_clusters = [], v_num_data_clusters = le_word (map junk [16..<20]), v_data_start_off = le_word (map junk [24..<32]),
     v_oem_name = map junk [48..<57], v_num_empty_clusters = le_word (map junk [60..<64]), v_bytes_sector = le_word (map junk [64..<66]),
     v_sector_order = le_word (map junk [66..<68]), v_sec_cluster = junk 68, v_sec_cluster_order = junk 69,
     v_cluster_order = le_word (map junk [70..<72]), v_reserved = le_word (map junk [72..<74]), v_tables = junk 74,
     v_root_entries = le_word (map junk [76..<78]), v_media_desc = junk 78, v_total_sec = le_word (map junk [80..<84]),
     v_sec_fat = le_word (map junk [84..<88]), v_sec_track = le_word (map junk [88..<90]), v_num_heads = le_word (map junk [90..<92]),
     v_hidden_sec = le_word (map junk [92..<96]), v_driv_desc = le_word (map junk [96..<98]), v_version = le_word (map junk [98..<100]),
     v_root_dir_start = le_word (map junk [100..<104]), v_fs_info_sec = le_word (map junk [104..<106]),
     v_alt_boot_sec = le_word (map junk [106..<108]), v_phys_driv_num = junk 108, v_ext_boot_sig = junk 109,
     v_vol_id = le_word (map junk [112..<116]), v_volume_label = map junk [116..<128], v_fs_type = map junk [128..<137]\<rparr>"

text \<open>\<open>fs\<close> is never null. Blocks of a tuple are not set.\<close>

definition afs_fat32_detect :: "bytes \<Rightarrow> afs_passive_fs \<Rightarrow> kernel \<Rightarrow> (bool \<times> afs_passive_fs \<times> kernel) option" where
  "afs_fat32_detect data fs k =
     (let junk = k_junk k (k_allocs k) in
      case kmalloc 144 k of
        (None, k) \<Rightarrow> None
      | (Some _, k) \<Rightarrow> do {
          (ret, vol, k) \<leftarrow> read_boot_sector (raw_volume junk) data k;
          if ret \<noteq> 0 then Some (False, fs, k)
          else do {
            (ret, vol, k) \<leftarrow> fat_map vol k;
            if ret \<noteq> 0 then Some (False, fs, k)
            else do {
              let vol = vol\<lparr>v_data_start_off := ucast (ucast (v_tables vol) * v_sec_fat vol + ucast (v_reserved vol))\<rparr>;
              Some (True, fs\<lparr>total_blocks := v_num_data_clusters vol, sectors_per_block := v_sec_cluster vol,
                block_list := v_empty_clusters vol, list_len := v_num_empty_clusters vol,
                data_start_off := ucast (v_data_start_off vol)\<rparr>, k) } } })"

section \<open>The free list\<close>

text \<open>Entry \<open>i\<close> of a table in memory.\<close>

definition fat_entry :: "bytes \<Rightarrow> nat \<Rightarrow> u32" where
  "fat_entry p i = le_word (sub p (4 * i) 4)"

definition free_entries :: "bytes \<Rightarrow> nat \<Rightarrow> nat \<Rightarrow> nat list" where
  "free_entries p i n = filter (\<lambda>j. fat_entry p j = 0) [i..<i + n]"

lemma fat_scan_spec:
  assumes "fat_scan n i p out c = Some (out', c')" "c \<le> length out"
  shows "c' = c + length (free_entries p i n) \<and> length out' = length out \<and> c' \<le> length out \<and>
    take c' out' = take c out @ map of_nat (free_entries p i n)"
  using assms
proof (induction n arbitrary: i out c)
  case 0
  then show ?case by (simp add: free_entries_def)
next
  case (Suc n)
  have rec: "free_entries p i (Suc n) = (if fat_entry p i = 0 then i # free_entries p (Suc i) n else free_entries p (Suc i) n)"
    using upt_conv_Cons [of i "i + Suc n"] by (simp add: free_entries_def del: upt_Suc)
  show ?case
  proof (cases "fat_entry p i = 0")
    case True
    then have lt: "c < length out" and step: "fat_scan n (Suc i) p (out[c := of_nat i]) (Suc c) = Some (out', c')"
      using Suc.prems(1) by (auto simp: fat_entry_def peek_def split: if_splits bind_splits)
    have "take (Suc c) (out[c := of_nat i]) = take c out @ [of_nat i]" using lt by (simp add: take_Suc_conv_app_nth)
    then show ?thesis using Suc.IH [OF step] lt rec True by auto
  next
    case False
    then have "fat_scan n (Suc i) p out c = Some (out', c')"
      using Suc.prems(1) by (auto simp: fat_entry_def peek_def split: if_splits bind_splits)
    then show ?thesis using Suc.IH Suc.prems(2) rec False by simp
  qed
qed

lemma fat_pages_ok:
  assumes "io_ok k" "length reader = 4096" "length fat_data = 4096 * (i + n)" "unat first + i + n \<le> 2 ^ 19"
  shows "\<exists>reader' k'. fat_pages n i first reader fat_data k =
      Some (reader', take (4096 * i) fat_data @ dev_read k (4096 * (unat first + i)) (4096 * n), k') \<and>
    k_dev k' = k_dev k \<and> k_alloc k' = k_alloc k \<and> length reader' = 4096"
  using assms
proof (induction n arbitrary: i reader fat_data k)
  case 0
  then show ?case by (simp add: dev_read_def)
next
  case (Suc n)
  have u: "unat (first + of_nat i) = unat first + i"
    using Suc.prems(4) by (simp add: unat_word_ariths unsigned_of_nat take_bit_nat_eq_self)
  then have fits: "block_fits 0 (first + of_nat i)" using Suc.prems(4) by (simp add: block_fits_def)
  have rd: "read_page True reader (first + of_nat i) 0 True k = Some (0, get_page 0 k (first + of_nat i), tick_io (tick_alloc True k))"
    using Suc.prems(1,2) by (intro read_page_eq) (simp_all add: io_okD)
  have page: "get_page 0 k (first + of_nat i) = dev_read k (4096 * (unat first + i)) 4096"
    using block_addr_eq [OF fits] u by (simp add: get_page_def)
  let ?k = "tick_io (tick_alloc True k)" and ?d = "blit fat_data (4096 * i) (dev_read k (4096 * (unat first + i)) 4096)"
  have "\<exists>reader' k'. fat_pages n (Suc i) first (get_page 0 k (first + of_nat i)) ?d ?k =
      Some (reader', take (4096 * Suc i) ?d @ dev_read ?k (4096 * (unat first + Suc i)) (4096 * n), k') \<and>
    k_dev k' = k_dev ?k \<and> k_alloc k' = k_alloc ?k \<and> length reader' = 4096"
    using Suc.prems by (intro Suc.IH) simp_all
  moreover have "take (4096 * Suc i) ?d = take (4096 * i) fat_data @ dev_read k (4096 * (unat first + i)) 4096"
    using Suc.prems(3) by (simp add: blit_def)
  moreover have "dev_read k (4096 * (unat first + i)) 4096 @ dev_read ?k (4096 * (unat first + Suc i)) (4096 * n) =
      dev_read k (4096 * (unat first + i)) (4096 * Suc n)"
  proof -
    have "[0..<4096 * Suc n] = [0..<4096] @ map (\<lambda>i. i + 4096) [0..<4096 * n]"
      using upt_add_eq_append [of 0 4096 "4096 * n"] map_add_upt [of 4096 "4096 * n"] by (simp add: add.commute)
    then show ?thesis by (simp add: dev_read_def o_def algebra_simps)
  qed
  ultimately show ?case
    using rd page Suc.prems(3,4) by (auto simp: poke_def mult.commute)
qed

text \<open>The geometry of a table that fits its memory: entries for every data cluster, and a table below \<open>2^31\<close> bytes.\<close>

definition fat_geom :: "fat_volume \<Rightarrow> bool" where
  "fat_geom vol \<longleftrightarrow> unat (fat_offset vol) + unat (fat_size_bytes vol) < 2 ^ 31 - 4096 \<and> 4096 < unat (fat_aligned_offset vol) + unat (fat_size_bytes vol) \<and>
     fat_size_bytes vol \<noteq> 0 \<and> 4 * unat (v_num_data_clusters vol) \<le> unat (fat_size_bytes vol)"

lemma unat_page_start:
  assumes "unat (x :: u64) < 2 ^ 32"
  shows "unat (x AND 0xFFFFF000) = 4096 * (unat x div 4096)"
proof -
  have m: "(0xFFFFF000 :: u64) = push_bit 12 (mask 20)" by code_simp
  have "unat (take_bit 32 x) = unat x" using assms by (simp add: unsigned_take_bit_eq take_bit_nat_eq_self)
  then have x: "take_bit 32 x = x" by (rule unsigned_word_eqI)
  have "x AND 0xFFFFF000 = push_bit 12 (drop_bit 12 x)"
  proof (rule bit_word_eqI)
    fix n assume "n < LENGTH(64)"
    have "bit x n \<longleftrightarrow> n < 32 \<and> bit x n" using x by (metis bit_take_bit_iff)
    then show "bit (x AND 0xFFFFF000) n = bit (push_bit 12 (drop_bit 12 x)) n"
      unfolding m by (auto simp: bit_and_iff bit_push_bit_iff bit_mask_iff bit_drop_bit_eq)
  qed
  moreover have "unat (push_bit 12 (drop_bit 12 x)) = 4096 * (unat x div 4096)"
    using assms by (simp add: push_bit_eq_mult drop_bit_eq_div unat_word_ariths unat_div_distrib)
  ultimately show ?thesis by simp
qed

lemma fat_geomD:
  assumes "fat_geom vol"
  shows "fat_aligned_offset vol \<le> fat_offset vol" "4096 dvd unat (fat_aligned_offset vol)" "unat (fat_offset vol) < unat (fat_aligned_offset vol) + 4096"
    "unat (fat_aligned_size_bytes vol) = unat (fat_size_bytes vol) + (unat (fat_offset vol) - unat (fat_aligned_offset vol))"
    "unat (fat_page_number vol) = unat (fat_aligned_size_bytes vol) div 4096 + 1"
proof -
  have small: "unat (fat_offset vol) < 2 ^ 32" using assms by (simp add: fat_geom_def)
  then have al: "unat (fat_aligned_offset vol) = 4096 * (unat (fat_offset vol) div 4096)"
    by (simp add: fat_aligned_offset_def unat_page_start)
  then show le: "fat_aligned_offset vol \<le> fat_offset vol" by (simp add: word_le_nat_alt)
  show "4096 dvd unat (fat_aligned_offset vol)" "unat (fat_offset vol) < unat (fat_aligned_offset vol) + 4096"
    using al by auto
  show sz: "unat (fat_aligned_size_bytes vol) = unat (fat_size_bytes vol) + (unat (fat_offset vol) - unat (fat_aligned_offset vol))"
  proof -
    have "unat (fat_size_bytes vol) + (unat (fat_offset vol) - unat (fat_aligned_offset vol)) < 18446744073709551616"
      using assms by (auto simp: fat_geom_def)
    then show ?thesis using le by (simp add: fat_aligned_size_bytes_def unat_word_ariths unat_sub)
  qed
  have small: "unat (fat_aligned_size_bytes vol) < 2147483648" using sz assms by (auto simp: fat_geom_def)
  then have "unat (fat_aligned_size_bytes vol) div 4096 < 524288" by simp
  moreover from this have "unat (fat_aligned_size_bytes vol div 4096 + 1) = unat (fat_aligned_size_bytes vol) div 4096 + 1"
    by (simp add: unat_word_ariths unat_div_distrib)
  ultimately show "unat (fat_page_number vol) = unat (fat_aligned_size_bytes vol) div 4096 + 1"
    by (simp add: fat_page_number_def unsigned_ucast_eq take_bit_nat_eq_self)
qed

lemma fat_scan_total:
  assumes "4 * (i + n) \<le> length p" "c + n \<le> length out"
  shows "\<exists>out' c'. fat_scan n i p out c = Some (out', c')"
  using assms
proof (induction n arbitrary: i out c)
  case (Suc n)
  then show ?case by (simp add: peek_def)
qed simp

text \<open>Entry \<open>i\<close> of the table that starts at byte \<open>a\<close> of the device.\<close>

definition dev_entry :: "kernel \<Rightarrow> nat \<Rightarrow> nat \<Rightarrow> u32" where
  "dev_entry k a i = le_word (dev_read k (a + 4 * i) 4)"

lemma fat_entry_dev: "4 * i + 4 \<le> n \<Longrightarrow> fat_entry (dev_read k a n) i = dev_entry k a i"
  unfolding fat_entry_def dev_entry_def dev_read_def
  by (intro arg_cong [of _ _ le_word] nth_equalityI) (simp_all add: add.assoc)

text \<open>The free list as the device has it.\<close>

definition dev_free :: "kernel \<Rightarrow> nat \<Rightarrow> nat \<Rightarrow> nat list" where
  "dev_free k a n = filter (\<lambda>i. dev_entry k a i = 0) [0..<n]"

lemma fat_bounds:
  assumes "fat_geom vol"
  defines "pages \<equiv> unat (fat_page_number vol)" and "first \<equiv> unat (ucast (fat_aligned_offset vol div 4096) :: u32)"
  shows "unat (fat_aligned_offset vol) = 4096 * first" "0 < pages" "first + pages \<le> 2 ^ 19"
    "unat (fat_page_number vol * AFS_BLOCK_SIZE) = 4096 * pages" "unat (fat_size_bytes vol) \<le> 4096 * pages"
    "fat_aligned_offset vol + fat_aligned_size_bytes vol > 4096"
proof -
  note g = fat_geomD [OF assms(1)]
  have geom: "unat (fat_offset vol) + unat (fat_size_bytes vol) < 2147479552" "4096 < unat (fat_aligned_offset vol) + unat (fat_size_bytes vol)"
    using assms(1) by (simp_all add: fat_geom_def)
  have sum: "unat (fat_aligned_offset vol) + unat (fat_aligned_size_bytes vol) = unat (fat_offset vol) + unat (fat_size_bytes vol)"
    using g(1,4) by (simp add: word_le_nat_alt)
  obtain q where q: "unat (fat_aligned_offset vol) = 4096 * q" using g(2) by auto
  have pg: "pages = unat (fat_aligned_size_bytes vol) div 4096 + 1" using g(5) by (simp add: pages_def)
  have bound: "q + pages \<le> 2 ^ 19" using sum geom(1) q pg by simp
  have "unat (fat_aligned_offset vol div 4096) = q" using q by (simp add: unat_div_distrib)
  then have "first = q" using bound by (simp add: first_def unsigned_ucast_eq take_bit_nat_eq_self)
  then show "unat (fat_aligned_offset vol) = 4096 * first" "first + pages \<le> 2 ^ 19" using q bound by simp_all
  show "0 < pages" using pg by simp
  show "unat (fat_page_number vol * AFS_BLOCK_SIZE) = 4096 * pages"
    using bound by (simp add: pages_def AFS_BLOCK_SIZE_def unat_word_ariths)
  show "unat (fat_size_bytes vol) \<le> 4096 * pages" using g(4) pg by simp
  show "fat_aligned_offset vol + fat_aligned_size_bytes vol > 4096"
    using sum geom g(4) by (simp add: word_less_nat_alt unat_word_ariths)
qed

lemma fat_table_ok:
  assumes "fat_geom vol" "alloc_ok k" "io_ok k" "length reader = 4096"
  defines "n \<equiv> 4096 * unat (fat_page_number vol)"
  shows "\<exists>mem k1 reader' k'. vmalloc (unat (fat_page_number vol * AFS_BLOCK_SIZE)) k = (Some mem, k1) \<and>
    fat_pages (unat (fat_page_number vol)) 0 (ucast (fat_aligned_offset vol div 4096)) reader mem k1 =
      Some (reader', dev_read k (unat (fat_aligned_offset vol)) n, k') \<and> alloc_ok k'"
proof -
  note b = fat_bounds [OF assms(1)]
  obtain mem where mem: "vmalloc n k = (Some mem, k\<lparr>k_allocs := Suc (k_allocs k)\<rparr>)" "length mem = n"
    using vmalloc_ok [OF assms(2), of n] b(2) by (simp add: uninit_def n_def)
  let ?k1 = "k\<lparr>k_allocs := Suc (k_allocs k)\<rparr>" and ?first = "ucast (fat_aligned_offset vol div 4096) :: u32"
  have "\<exists>reader' k'. fat_pages (unat (fat_page_number vol)) 0 ?first reader mem ?k1 =
      Some (reader', take (4096 * 0) mem @ dev_read ?k1 (4096 * (unat ?first + 0)) (4096 * unat (fat_page_number vol)), k') \<and>
    k_dev k' = k_dev ?k1 \<and> k_alloc k' = k_alloc ?k1 \<and> length reader' = 4096"
    using assms(3,4) mem(2) b(3) by (intro fat_pages_ok) (simp_all add: io_ok_def n_def)
  then obtain reader' k3 where rd: "fat_pages (unat (fat_page_number vol)) 0 ?first reader mem ?k1 =
      Some (reader', dev_read k (unat (fat_aligned_offset vol)) n, k3)" "k_alloc k3 = k_alloc k"
    using b(1) by (auto simp: dev_read_def n_def)
  have "alloc_ok k3" using assms(2) rd(2) by (simp add: alloc_ok_def)
  then show ?thesis using mem(1) rd(1) b(4) by (auto simp: n_def)
qed

lemma fat_map_ok:
  assumes "fat_geom vol" "alloc_ok k" "io_ok k"
  shows "\<exists>ec c k'. fat_map vol k = Some (0, vol\<lparr>v_data_start_off := ucast (ucast (v_tables vol) * v_sec_fat vol + ucast (v_reserved vol)),
      v_empty_clusters := ec, v_num_empty_clusters := of_nat c\<rparr>, k') \<and>
    c \<le> length ec \<and> c < 2 ^ 32 \<and>
    take c ec = map of_nat (dev_free k (unat (fat_aligned_offset vol)) (unat (v_num_data_clusters vol)))"
proof -
  define vol1 where "vol1 = vol\<lparr>v_data_start_off := ucast (ucast (v_tables vol) * v_sec_fat vol + ucast (v_reserved vol))\<rparr>"
  have same: "fat_aligned_offset vol1 = fat_aligned_offset vol" "fat_aligned_size_bytes vol1 = fat_aligned_size_bytes vol"
    "fat_size_bytes vol1 = fat_size_bytes vol" "fat_page_number vol1 = fat_page_number vol" "v_num_data_clusters vol1 = v_num_data_clusters vol"
    by (simp_all add: vol1_def fat_aligned_offset_def fat_aligned_size_bytes_def fat_size_bytes_def fat_page_number_def fat_offset_def)
  note b = fat_bounds [OF assms(1)]
  define al where "al = unat (fat_aligned_offset vol)"
  define n where "n = unat (v_num_data_clusters vol)"
  have geom: "fat_size_bytes vol \<noteq> 0" "4 * n \<le> unat (fat_size_bytes vol)" "unat (fat_size_bytes vol) < 2 ^ 31"
    using assms(1) by (auto simp: fat_geom_def n_def)
  obtain reader where reader: "kmalloc 4096 k = (Some reader, k\<lparr>k_allocs := Suc (k_allocs k)\<rparr>)" "length reader = 4096"
    using kmalloc_alloc_ok [OF assms(2), of 4096] by simp
  let ?k1 = "k\<lparr>k_allocs := Suc (k_allocs k)\<rparr>" and ?N = "4096 * unat (fat_page_number vol)"
  have "alloc_ok ?k1" "io_ok ?k1" using assms(2,3) by (simp_all add: alloc_ok_def io_ok_def)
  then obtain mem k2 reader' k3 where rd: "vmalloc (unat (fat_page_number vol * AFS_BLOCK_SIZE)) ?k1 = (Some mem, k2)"
      "fat_pages (unat (fat_page_number vol)) 0 (ucast (fat_aligned_offset vol div 4096)) reader mem k2 = Some (reader', dev_read k al ?N, k3)" "alloc_ok k3"
    using fat_table_ok [OF assms(1) _ _ reader(2), of ?k1] by (auto simp: dev_read_def al_def)
  obtain mem2 k4 where mem2: "vmalloc (unat (fat_size_bytes vol)) k3 = (Some mem2, k4)"
    using vmalloc_ok [OF rd(3)] geom(1) by (metis unat_gt_0)
  have "n \<le> unat (fat_size_bytes vol) div 4" using geom(2) by linarith
  then obtain ec c where scan: "fat_scan n 0 (dev_read k al ?N) (replicate (unat (fat_size_bytes vol) div 4) 0) 0 = Some (ec, c)"
    using fat_scan_total [of 0 n "dev_read k al ?N" 0 "replicate (unat (fat_size_bytes vol) div 4) 0"] geom(2) b(5) by auto
  note spec = fat_scan_spec [OF scan]
  have "free_entries (dev_read k al ?N) 0 n = dev_free k al n"
    using geom(2) b(5) by (auto simp: free_entries_def dev_free_def fat_entry_dev intro!: filter_cong)
  moreover have "fat_map vol k = Some (0, vol1\<lparr>v_empty_clusters := ec, v_num_empty_clusters := of_nat c\<rparr>, k4)"
    using reader(1) rd(1,2) mem2 scan b(6) by (simp add: fat_map_def vol1_def [symmetric] same Let_def n_def [symmetric])
  moreover have "c \<le> unat (fat_size_bytes vol) div 4" using spec by simp
  then have "c < 2 ^ 32" using geom(3) by simp
  ultimately show ?thesis
    using spec by (intro exI [of _ ec] exI [of _ c] exI [of _ k4]) (auto simp: vol1_def al_def n_def)
qed

lemma dev_read_alloc: "k_dev k' = k_dev k \<Longrightarrow> dev_free k' = dev_free k"
  by (simp add: fun_eq_iff dev_free_def dev_entry_def dev_read_def)

lemma read_boot_sector_kernel:
  assumes "read_boot_sector vol data k = Some (ret, vol', k')"
  shows "k' = k\<lparr>k_allocs := Suc (k_allocs k)\<rparr>"
proof (cases "kmalloc 512 k")
  case (Pair p k1)
  then have "k1 = k\<lparr>k_allocs := Suc (k_allocs k)\<rparr>" by (auto simp: kmalloc_def)
  moreover have "k' = k1"
    using assms Pair by (auto simp: read_boot_sector_def Let_def split: option.splits bind_splits if_splits prod.splits)
  ultimately show ?thesis by simp
qed

text \<open>What a detection that succeeds reports.\<close>

lemma fat32_detect_ok:
  assumes "alloc_ok k" "io_ok k" "fat_geom vol"
    and "read_boot_sector (raw_volume (k_junk k (k_allocs k))) data (snd (kmalloc 144 k)) = Some (0, vol, k1)"
  shows "\<exists>ec c k'. afs_fat32_detect data fs k = Some (True, fs\<lparr>total_blocks := v_num_data_clusters vol, sectors_per_block := v_sec_cluster vol,
      block_list := ec, list_len := of_nat c, data_start_off := ucast (v_tables vol) * v_sec_fat vol + ucast (v_reserved vol)\<rparr>, k') \<and>
    c \<le> length ec \<and> c < 2 ^ 32 \<and>
    take c ec = map of_nat (dev_free k (unat (fat_aligned_offset vol)) (unat (v_num_data_clusters vol)))"
proof -
  obtain p where m: "kmalloc 144 k = (Some p, k\<lparr>k_allocs := Suc (k_allocs k)\<rparr>)" using kmalloc_alloc_ok [OF assms(1), of 144] by simp
  have k1: "k1 = k\<lparr>k_allocs := Suc (Suc (k_allocs k))\<rparr>" using read_boot_sector_kernel [OF assms(4)] m by simp
  then have "alloc_ok k1" "io_ok k1" using assms(1,2) by (simp_all add: alloc_ok_def io_ok_def)
  then obtain ec c k' where f: "fat_map vol k1 = Some (0, vol\<lparr>v_data_start_off := ucast (ucast (v_tables vol) * v_sec_fat vol + ucast (v_reserved vol)),
      v_empty_clusters := ec, v_num_empty_clusters := of_nat c\<rparr>, k')" "c \<le> length ec" "c < 2 ^ 32"
      "take c ec = map of_nat (dev_free k1 (unat (fat_aligned_offset vol)) (unat (v_num_data_clusters vol)))"
    using fat_map_ok [OF assms(3)] by blast
  have "dev_free k1 = dev_free k" using k1 by (intro dev_read_alloc) simp
  moreover have "ucast (ucast x :: u64) = (x :: u32)" for x by (rule bit_word_eqI) (simp add: bit_ucast_iff)
  ultimately show ?thesis
    using m f assms(4) by (intro exI [of _ ec] exI [of _ c] exI [of _ k']) (simp add: afs_fat32_detect_def)
qed

text \<open>Where a cluster lies, as the FAT file system has it: data clusters are numbered from 2.\<close>

definition cluster_addr :: "fat_volume \<Rightarrow> nat \<Rightarrow> nat" where
  "cluster_addr vol c = unat (v_bytes_sector vol) *
     (unat (v_reserved vol) + unat (v_tables vol) * unat (v_sec_fat vol) + (c - 2) * unat (v_sec_cluster vol))"

lemma block_is_cluster:
  assumes "v_bytes_sector vol = 512" "v_sec_cluster vol = 8" "unat b + 2 < 2 ^ 20"
    and "unat (v_tables vol) * unat (v_sec_fat vol) + unat (v_reserved vol) + 8 * unat b < 2 ^ 32"
  shows "block_addr (ucast (v_tables vol) * v_sec_fat vol + ucast (v_reserved vol)) b = cluster_addr vol (unat b + 2)"
proof -
  let ?off = "ucast (v_tables vol) * v_sec_fat vol + ucast (v_reserved vol) :: u32"
  have off: "unat ?off = unat (v_tables vol) * unat (v_sec_fat vol) + unat (v_reserved vol)"
    using assms(4) by (simp add: unat_word_ariths unat_ucast_up)
  then have "block_fits ?off b" using assms(3,4) by (simp add: block_fits_def)
  moreover have "unat (v_bytes_sector vol) = 512" "unat (v_sec_cluster vol) = 8" using assms(1,2) by simp_all
  ultimately show ?thesis using off by (simp add: block_addr_eq cluster_addr_def algebra_simps)
qed

text \<open>Where the first table lies by the boot sector: behind the reserved sectors. The code computes the place with the order of the sector
  size, and rounds it down to a page.\<close>

definition fat_table :: "fat_volume \<Rightarrow> nat" where
  "fat_table vol = unat (v_reserved vol) * unat (v_bytes_sector vol)"

lemma bsr_bounds:
  assumes "n \<noteq> 0"
  shows "bit n (unat (bsr n))" "unat n < 2 ^ Suc (unat (bsr n))"
proof -
  let ?xs = "filter (bit n) [0..<64]" and ?m = "last (0 # filter (bit n) [0..<64])"
  have "n = 0" if "\<And>i. \<not> bit n i" using that by (intro bit_word_eqI) simp
  then obtain i where "bit n i" using assms by blast
  then have "i \<in> set ?xs" using bit_imp_le_length [of n i] by simp
  then have ne: "?xs \<noteq> []" by (metis empty_iff empty_set)
  then have "?m \<in> set ?xs" by (metis last_ConsR last_in_set)
  then have m: "bit n ?m" "?m < 64" by simp_all
  then have u: "unat (bsr n) = ?m" by (simp add: bsr_def unsigned_of_nat take_bit_nat_eq_self)
  then show "bit n (unat (bsr n))" using m(1) by simp
  have sorted: "x \<le> ?m" if "x \<in> set ?xs" for x
  proof -
    define ys where "ys = butlast ?xs"
    have xs: "?xs = ys @ [?m]" using ne by (simp add: ys_def)
    have "sorted ?xs" by (intro sorted_wrt_filter) simp
    then have "sorted (ys @ [?m])" by (subst (asm) xs)
    moreover have "x \<in> set (ys @ [?m])" using that by (subst (asm) xs)
    ultimately show ?thesis by (auto simp: sorted_append)
  qed
  have "take_bit (Suc ?m) n = n"
  proof (rule bit_word_eqI)
    fix j assume "j < LENGTH(64)"
    then have "bit n j \<Longrightarrow> j \<le> ?m" using sorted [of j] by simp
    then show "bit (take_bit (Suc ?m) n) j = bit n j" by (auto simp: bit_take_bit_iff)
  qed
  then have "take_bit (Suc ?m) (unat n) = unat n" by (metis unsigned_take_bit_eq)
  then show "unat n < 2 ^ Suc (unat (bsr n))" using u by (metis take_bit_nat_less_exp)
qed

lemma power_of_2_bsr:
  assumes "is_power_of_2 n"
  shows "unat n = 2 ^ unat (bsr n)"
proof (rule ccontr)
  let ?m = "unat (bsr n)"
  assume ne: "unat n \<noteq> 2 ^ ?m"
  have n: "n \<noteq> 0" "n AND (n - 1) = 0" using assms by (simp_all add: is_power_of_2_def)
  note b = bsr_bounds [OF n(1)]
  have "odd (unat n div 2 ^ ?m)" using b(1) by (simp add: bit_unsigned_iff flip: bit_iff_odd)
  then have "2 ^ ?m \<le> unat n" by (metis div_less even_zero not_less)
  then have "2 ^ ?m \<le> unat n - 1" "unat n - 1 < 2 ^ ?m * 2" using ne b(2) by simp_all
  then have "(unat n - 1) div 2 ^ ?m = 1" by (intro div_nat_eqI) simp_all
  moreover have "unat (n - 1) = unat n - 1" using n(1) by (simp add: unat_minus_one)
  ultimately have "bit (unat (n - 1)) ?m" by (simp add: bit_iff_odd)
  then have "bit (n - 1) ?m" by (simp add: bit_unsigned_iff)
  then have "bit (n AND (n - 1)) ?m" using b(1) by (simp add: bit_and_iff)
  then show False using n(2) by simp
qed

lemma boot_sector_order:
  assumes "read_boot_sector vol0 data k0 = Some (0, vol, k1)"
  shows "unat (v_bytes_sector vol) = 2 ^ unat (v_sector_order vol)" "unat (v_sector_order vol) \<le> 12"
proof -
  obtain vol1 vol2 boot_sec where v: "fat_read_dos_2_0_bpb vol1 boot_sec = (0, vol2)" "v_bytes_sector vol = v_bytes_sector vol2"
      "v_sector_order vol = v_sector_order vol2"
    using assms
    by (auto simp: read_boot_sector_def Let_def fat_read_dos_3_31_bpb_def fat_read_fat32_ebpb_def fat_read_nonfat32_ebpb_def
        split: prod.splits option.splits bind_splits if_splits)
  have b: "is_power_of_2 (ucast (v_bytes_sector vol2))" "v_sector_order vol2 = ucast (bsr (ucast (v_bytes_sector vol2)))"
      "v_sector_order vol2 \<le> 12"
    using v(1) by (auto simp: fat_read_dos_2_0_bpb_def Let_def split: if_splits)
  let ?n = "ucast (v_bytes_sector vol2) :: u64"
  have "?n \<noteq> 0" using b(1) by (simp add: is_power_of_2_def)
  then have "unat (bsr ?n) < 64" using bsr_bounds(1) [of ?n] bit_imp_le_length [of ?n] by simp
  then have "unat (v_sector_order vol2) = unat (bsr ?n)" using b(2) by (simp add: unsigned_ucast_eq take_bit_nat_eq_self)
  moreover have "unat ?n = unat (v_bytes_sector vol2)" by (simp add: unat_ucast_up)
  ultimately show "unat (v_bytes_sector vol) = 2 ^ unat (v_sector_order vol)"
    using power_of_2_bsr [OF b(1)] v(2,3) by simp
  show "unat (v_sector_order vol) \<le> 12" using b(3) v(3) by (simp add: word_le_nat_alt)
qed

lemma fat_table_aligned:
  assumes "read_boot_sector vol0 data k0 = Some (0, vol, k1)" "4096 dvd fat_table vol"
  shows "unat (fat_aligned_offset vol) = fat_table vol"
proof -
  note o = boot_sector_order [OF assms(1)]
  have r: "unat (v_reserved vol) < 65536" using unsigned_less [of "v_reserved vol"] by simp
  have "(2 :: nat) ^ unat (v_sector_order vol) \<le> 2 ^ 12" using o(2) by (intro power_increasing) simp_all
  then have "unat (v_reserved vol) * 2 ^ unat (v_sector_order vol) \<le> 65536 * 2 ^ 12" using r by (intro mult_le_mono) simp_all
  then have small: "fat_table vol < 2 ^ 32" using o(1) by (simp add: fat_table_def)
  have "unat (fat_offset vol) = take_bit 64 (push_bit (unat (v_sector_order vol)) (unat (v_reserved vol)))"
    by (simp add: fat_offset_def unsigned_push_bit_eq unat_ucast_up)
  also have "\<dots> = take_bit 64 (fat_table vol)" using o(1) by (simp add: fat_table_def push_bit_eq_mult)
  finally have off: "unat (fat_offset vol) = fat_table vol" "fat_table vol < 2 ^ 32" using small by (simp_all add: take_bit_nat_eq_self)
  then show ?thesis using assms(2) by (simp add: fat_aligned_offset_def unat_page_start)
qed

text \<open>A small volume: 10 clusters of 4096 bytes behind 32 reserved sectors and two tables of 8 sectors; the
  entries 0, 1, 2 and 5 are in use.\<close>

definition fat_boot :: bytes where
  "fat_boot = [0xEB, 0x58, 0x90, 0x6D, 0x6B, 0x66, 0x73, 0x2E, 0x66, 0x61, 0x74, 0, 2, 8, 32, 0, 2, 0, 0, 0, 0, 0xF8, 0, 0,
     32, 0, 64, 0, 0, 0, 0, 0, 128, 0, 0, 0, 8, 0, 0, 0, 0, 0, 0, 0, 2, 0, 0, 0, 1, 0, 6, 0] @ replicate 460 0"

definition fat_kernel :: kernel where
  "fat_kernel = demo_kernel\<lparr>k_dev := (\<lambda>a. if a < 512 then fat_boot ! a
     else if a \<in> {16384..<16396} \<or> a \<in> {16404..<16408} then 0xFF else 0)\<rparr>"

lemma fat_demo_boot:
  "\<exists>vol k1. read_boot_sector (raw_volume (k_junk fat_kernel (k_allocs fat_kernel))) fat_boot (snd (kmalloc 144 fat_kernel)) = Some (0, vol, k1) \<and>
     v_bytes_sector vol = 512 \<and> v_sec_cluster vol = 8 \<and> v_reserved vol = 32 \<and> v_tables vol = 2 \<and> v_sec_fat vol = 8 \<and>
     v_sector_order vol = 9 \<and> v_num_data_clusters vol = 10"
proof -
  have "case read_boot_sector (raw_volume (k_junk fat_kernel (k_allocs fat_kernel))) fat_boot (snd (kmalloc 144 fat_kernel)) of
      None \<Rightarrow> False | Some (ret, vol, k1) \<Rightarrow> ret = 0 \<and> v_bytes_sector vol = 512 \<and> v_sec_cluster vol = 8 \<and> v_reserved vol = 32 \<and>
        v_tables vol = 2 \<and> v_sec_fat vol = 8 \<and> v_sector_order vol = 9 \<and> v_num_data_clusters vol = 10"
    by code_simp
  then show ?thesis by (auto split: option.splits)
qed

definition fat_fs :: afs_passive_fs where
  "fat_fs = \<lparr>block_list = [], list_len = 0, sectors_per_block = 0, total_blocks = 0, data_start_off = 0, blocks_in_tuple = 0\<rparr>"

lemma fat_kernel_ok: "alloc_ok fat_kernel" "io_ok fat_kernel"
  by (simp_all add: fat_kernel_def demo_kernel_def alloc_ok_def io_ok_def)

lemma fat_demo_offset:
  assumes "v_reserved vol = 32" "v_sector_order vol = 9"
  shows "fat_offset vol = 16384" "fat_aligned_offset vol = 16384"
proof -
  have "push_bit 9 (32 :: u64) = 16384" "(16384 :: u64) AND 0xFFFFF000 = 16384" by code_simp+
  then show "fat_offset vol = 16384" "fat_aligned_offset vol = 16384" using assms by (simp_all add: fat_aligned_offset_def fat_offset_def)
qed

lemma fat_demo_geom:
  assumes "v_bytes_sector vol = 512" "v_reserved vol = 32" "v_tables vol = 2" "v_sec_fat vol = 8" "v_sector_order vol = 9" "v_num_data_clusters vol = 10"
  shows "fat_geom vol"
  using assms fat_demo_offset [OF assms(2,5)] by (simp add: fat_geom_def fat_size_bytes_def)

lemma fat_demo_entry: "dev_entry fat_kernel 16384 i = (if i < 3 \<or> i = 5 then 0xFFFFFFFF else 0)"
proof -
  have "k_dev fat_kernel (16384 + 4 * i + j) = (if i < 3 \<or> i = 5 then 0xFF else 0)" if "j < 4" for j
    using that by (auto simp: fat_kernel_def)
  then have "dev_read fat_kernel (16384 + 4 * i) 4 = replicate 4 (if i < 3 \<or> i = 5 then 0xFF else 0)"
    by (intro nth_equalityI) (simp_all add: dev_read_def)
  moreover have "(le_word (replicate 4 0xFF) :: u32) = 0xFFFFFFFF" "(le_word (replicate 4 0) :: u32) = 0" by code_simp+
  ultimately show ?thesis by (simp add: dev_entry_def)
qed

lemma fat_demo_free: "map of_nat (dev_free fat_kernel 16384 10) = ([3, 4, 6, 7, 8, 9] :: u32 list)"
  by (simp add: dev_free_def fat_demo_entry upt_rec)

section \<open>Properties\<close>



text \<open>C31: The free list is off by two clusters: entry \<open>i\<close> of the table describes cluster \<open>i\<close>, but block \<open>i\<close> of the
  list lies where cluster \<open>i + 2\<close> lies. So whenever entry \<open>i\<close> is free, block \<open>i\<close> is handed out, also when cluster
  \<open>i + 2\<close>, which it overwrites, belongs to a file.\<close>

theorem fat32_hands_out_used_cluster:
  assumes "alloc_ok k" "io_ok k" "fat_geom vol" "v_bytes_sector vol = 512" "v_sec_cluster vol = 8"
    and "read_boot_sector (raw_volume (k_junk k (k_allocs k))) data (snd (kmalloc 144 k)) = Some (0, vol, k1)"
    and "i + 2 < unat (v_num_data_clusters vol)" "i + 2 < 2 ^ 20"
    and "unat (v_tables vol) * unat (v_sec_fat vol) + unat (v_reserved vol) + 8 * i < 2 ^ 32"
    and "4096 dvd fat_table vol" "dev_entry k (fat_table vol) i = 0" "dev_entry k (fat_table vol) (i + 2) \<noteq> 0"
  shows "\<exists>fs' k'. afs_fat32_detect data fs k = Some (True, fs', k') \<and> of_nat i \<in> set (take (unat (list_len fs')) (block_list fs')) \<and>
    block_addr (data_start_off fs') (of_nat i) = cluster_addr vol (i + 2)"
proof -
  obtain ec c k' where d: "afs_fat32_detect data fs k = Some (True, fs\<lparr>total_blocks := v_num_data_clusters vol, sectors_per_block := v_sec_cluster vol,
      block_list := ec, list_len := of_nat c, data_start_off := ucast (v_tables vol) * v_sec_fat vol + ucast (v_reserved vol)\<rparr>, k')"
      "c < 2 ^ 32" "take c ec = map of_nat (dev_free k (fat_table vol) (unat (v_num_data_clusters vol)))"
    using fat32_detect_ok [OF assms(1-3,6), of fs] fat_table_aligned [OF assms(6,10)] by auto
  have i: "unat (of_nat i :: u32) = i" using assms(8) by (simp add: unsigned_of_nat take_bit_nat_eq_self)
  have "i \<in> set (dev_free k (fat_table vol) (unat (v_num_data_clusters vol)))"
    using assms(7,11) by (simp add: dev_free_def)
  then have "of_nat i \<in> set (take c ec)" using d(3) by simp
  moreover have "unat (of_nat c :: u32) = c" using d(2) by (simp add: unsigned_of_nat take_bit_nat_eq_self)
  ultimately show ?thesis
    using d(1) block_is_cluster [OF assms(4,5), of "of_nat i"] assms(8,9) i by simp
qed

theorem fat32_hands_out_used_cluster_witness:
  "\<exists>vol fs' k'. afs_fat32_detect fat_boot fat_fs fat_kernel = Some (True, fs', k') \<and> 3 \<in> set (take (unat (list_len fs')) (block_list fs')) \<and>
    block_addr (data_start_off fs') 3 = cluster_addr vol 5 \<and> dev_entry fat_kernel 16384 5 \<noteq> 0"
proof -
  obtain vol k1 where v: "read_boot_sector (raw_volume (k_junk fat_kernel (k_allocs fat_kernel))) fat_boot (snd (kmalloc 144 fat_kernel)) = Some (0, vol, k1)"
      "v_bytes_sector vol = 512" "v_sec_cluster vol = 8" "v_reserved vol = 32" "v_tables vol = 2" "v_sec_fat vol = 8" "v_sector_order vol = 9" "v_num_data_clusters vol = 10"
    using fat_demo_boot by blast
  show ?thesis
    using fat32_hands_out_used_cluster [OF fat_kernel_ok fat_demo_geom [OF v(2,4-8)] v(2,3,1), of 3 fat_fs] fat_demo_entry v(2,4-6,8)
    by (auto intro!: exI [of _ vol] simp: fat_table_def)
qed

end
