(* ===== verification/Afs_Passive.thy ===== *)
theory Afs_Passive
  imports Afs_Map
begin

text \<open>
  What the detections of passive file systems share: reading and allocating leave the device and the behaviour of the
  kernel as they are, and a buffer that was read from the device is put together from its parts.
\<close>

text \<open>Reading and allocating leave the device alone.\<close>

definition idle :: "kernel \<Rightarrow> kernel \<Rightarrow> bool" where
  "idle k k' \<longleftrightarrow> k_dev k' = k_dev k \<and> k_io k' = k_io k \<and> k_alloc k' = k_alloc k"

lemma idle_refl [simp]: "idle k k" and idle_trans [trans]: "idle k k1 \<Longrightarrow> idle k1 k2 \<Longrightarrow> idle k k2"
  by (simp_all add: idle_def)

lemma idleD: "idle k k' \<Longrightarrow> io_ok k' = io_ok k" "idle k k' \<Longrightarrow> alloc_ok k' = alloc_ok k" "idle k k' \<Longrightarrow> dev_read k' = dev_read k"
  by (simp_all add: idle_def io_ok_def alloc_ok_def fun_eq_iff dev_read_def)

lemma idle_tick [simp]: "idle k (k\<lparr>k_allocs := a\<rparr>)" "idle k (tick_io (tick_alloc al k))" "idle k (tick_io k)"
  by (simp_all add: idle_def tick_io_def tick_alloc_def)

lemma vmalloc_idle: "alloc_ok k \<Longrightarrow> 0 < n \<Longrightarrow> \<exists>p k'. vmalloc n k = (Some p, k') \<and> length p = n \<and> idle k k'"
  by (auto simp: vmalloc_ok uninit_def)

lemma sub_dev_read: "off + n \<le> len \<Longrightarrow> sub (dev_read k a len) off n = dev_read k (a + off) n"
  by (intro nth_equalityI) (simp_all add: dev_read_def add.assoc)

lemma dev_read_append: "dev_read k a m @ dev_read k (a + m) n = dev_read k a (m + n)"
  by (intro nth_equalityI) (auto simp: dev_read_def nth_append)

lemma unat_of_nat_64: "j < 2 ^ 64 \<Longrightarrow> unat (of_nat j :: u64) = j"
  by (simp add: unsigned_of_nat take_bit_nat_eq_self)

end
