(* ===== verification/Afs_Ext4.thy ===== *)
theory Afs_Ext4
  imports Afs_Passive
begin

text \<open>
  Detection of an EXT4 passive file system, \<open>src/src/modules/dm_afs_ext4.c\<close>: the super block, the group
  descriptors, the block bitmap of each group, and the list of free blocks that is made of them. A result \<open>None\<close>
  is a fault (a null pointer, an access outside a buffer, a division by zero, an undefined shift). Allocations are tested with
  \<open>IS_ERR\<close>, which a null pointer passes. The printing functions have no effect and are left out, as are the fields of the
  super block that only they use; the variable \<open>is_64bit\<close>, which is set and never cleared, is passed along.
\<close>

section \<open>Structures\<close>

definition EXT4_GROUP0_PAD :: nat where "EXT4_GROUP0_PAD = 1024"
definition EXT4_INCOMPAT_64BIT :: u32 where "EXT4_INCOMPAT_64BIT = 0x80"
definition EXT4_RO_COMPAT_SPARSE_SUPER :: u32 where "EXT4_RO_COMPAT_SPARSE_SUPER = 0x1"

definition lo_hi_64 :: "u32 \<Rightarrow> u32 \<Rightarrow> u64" where
  "lo_hi_64 lo hi = push_bit 32 (ucast hi) OR ucast lo"

record ext4_superblock =
  s_blocks_count_lo :: u32
  s_free_blocks_count_lo :: u32
  s_first_data_block :: u32
  s_log_blk_sz :: u32
  s_log_cluster_size :: u32
  s_blocks_per_group :: u32
  s_magic :: u16
  s_feature_incompat :: u32
  s_feature_ro_compat :: u32
  s_reserved_gdt_blocks :: u16
  s_desc_size :: u16

definition superblock_of :: "bytes \<Rightarrow> ext4_superblock" where
  "superblock_of d = \<lparr>s_blocks_count_lo = le_word (sub d 4 4), s_free_blocks_count_lo = le_word (sub d 12 4),
     s_first_data_block = le_word (sub d 20 4), s_log_blk_sz = le_word (sub d 24 4), s_log_cluster_size = le_word (sub d 28 4),
     s_blocks_per_group = le_word (sub d 32 4), s_magic = le_word (sub d 56 2), s_feature_incompat = le_word (sub d 96 4),
     s_feature_ro_compat = le_word (sub d 100 4), s_reserved_gdt_blocks = le_word (sub d 206 2), s_desc_size = le_word (sub d 254 2)\<rparr>"

text \<open>A group descriptor is the buffer that holds it; of its fields the detection reads the two halves of the
  number of the block bitmap.\<close>

type_synonym ext4_group_desc = bytes

definition bg_block_bitmap_lo :: "ext4_group_desc \<Rightarrow> u32 option" where
  "bg_block_bitmap_lo gd = do { b \<leftarrow> peek gd 0 4; Some (le_word b) }"

definition bg_block_bitmap_hi :: "ext4_group_desc \<Rightarrow> u32 option" where
  "bg_block_bitmap_hi gd = do { b \<leftarrow> peek gd 32 4; Some (le_word b) }"

record ext4_disk =
  first_data_block :: u32
  block_count :: u64
  free_block_count :: u32
  reserved_gdt_blocks :: u16
  blk_sz :: u64
  cluster_size :: u64
  num_grp_descs :: u64
  grp_desc_sz :: u16
  blks_per_grp :: u32
  is_sparse_super :: bool
  gd_arr :: "ext4_group_desc list"

section \<open>Operations\<close>

definition new_superblock :: "kernel \<Rightarrow> bytes option \<times> kernel" where
  "new_superblock k = kmalloc 1024 k"

definition new_group_desc :: "bool \<Rightarrow> ext4_superblock \<Rightarrow> kernel \<Rightarrow> ext4_group_desc option \<times> kernel" where
  "new_group_desc is_64bit sb k = (if is_64bit then kmalloc (unat (s_desc_size sb)) k else kmalloc 32 k)"

text \<open>When a descriptor cannot be allocated, the loop that frees the array also frees its entries that were not yet
  set, which is a fault unless the last one failed: the outer \<open>None\<close>. The inner \<open>None\<close> is the null result.\<close>

fun new_gds :: "bool \<Rightarrow> ext4_superblock \<Rightarrow> nat \<Rightarrow> kernel \<Rightarrow> (ext4_group_desc list option \<times> kernel) option" where
  "new_gds is_64bit sb 0 k = Some (Some [], k)"
| "new_gds is_64bit sb (Suc n) k = (case new_group_desc is_64bit sb k of
       (None, k) \<Rightarrow> if n = 0 then Some (None, k) else None
     | (Some gd, k) \<Rightarrow> do {
         (gds, k) \<leftarrow> new_gds is_64bit sb n k;
         Some (map_option (\<lambda>gds. gd # gds) gds, k) })"

definition new_group_desc_arr :: "bool \<Rightarrow> ext4_superblock \<Rightarrow> u64 \<Rightarrow> kernel \<Rightarrow> (ext4_group_desc list option \<times> kernel) option" where
  "new_group_desc_arr is_64bit sb num k =
     (case vmalloc (unat (num * 64)) k of
        (None, k) \<Rightarrow> if num = 0 then Some (None, k) else None
      | (Some _, k) \<Rightarrow> new_gds is_64bit sb (unat num) k)"

definition shl1 :: "u32 \<Rightarrow> u64 option" where
  "shl1 n = (if n < 31 then Some (push_bit (unat n) 1) else None)"

definition new_disk :: "bool \<Rightarrow> ext4_superblock \<Rightarrow> kernel \<Rightarrow> (ext4_disk option \<times> kernel) option" where
  "new_disk is_64bit sb k = (case vmalloc 88 k of
       (None, k) \<Rightarrow> None
     | (Some _, k) \<Rightarrow> do {
         blk \<leftarrow> shl1 (10 + s_log_blk_sz sb);
         cluster \<leftarrow> shl1 (10 + s_log_cluster_size sb);
         if s_blocks_per_group sb = 0 then None
         else do {
           let num = (if s_free_blocks_count_lo sb mod s_blocks_per_group sb = 0
             then ucast (s_blocks_count_lo sb div s_blocks_per_group sb)
             else ucast (s_blocks_count_lo sb div s_blocks_per_group sb + 1));
           (arr, k) \<leftarrow> new_group_desc_arr is_64bit sb num k;
           Some (map_option (\<lambda>arr. \<lparr>first_data_block = s_first_data_block sb, block_count = ucast (s_blocks_count_lo sb),
             free_block_count = s_free_blocks_count_lo sb, reserved_gdt_blocks = s_reserved_gdt_blocks sb, blk_sz = blk,
             cluster_size = cluster, num_grp_descs = num, grp_desc_sz = (if is_64bit then s_desc_size sb else 32),
             blks_per_grp = s_blocks_per_group sb,
             is_sparse_super = (s_feature_ro_compat sb AND EXT4_RO_COMPAT_SPARSE_SUPER \<noteq> 0), gd_arr = arr\<rparr>) arr, k) } })"

definition read_superblock :: "bytes \<Rightarrow> bytes \<Rightarrow> bool \<Rightarrow> (int \<times> ext4_superblock \<times> bool) option" where
  "read_superblock mem data is_64bit = do {
     src \<leftarrow> peek data EXT4_GROUP0_PAD 1024;
     mem \<leftarrow> poke mem 0 src;
     let sb = superblock_of mem;
     if s_magic sb \<noteq> 0xEF53 then Some (1, sb, is_64bit)
     else Some (0, sb, if s_feature_incompat sb AND EXT4_INCOMPAT_64BIT \<noteq> 0 then True else is_64bit) }"

definition zero_page :: bytes where "zero_page = replicate 4096 0"

lemma length_zero_page [simp]: "length zero_page = 4096" by (simp add: zero_page_def)

text \<open>The descriptors of one page; each is a new allocation.\<close>

fun copy_gds :: "bool \<Rightarrow> ext4_superblock \<Rightarrow> nat \<Rightarrow> bytes \<Rightarrow> nat \<Rightarrow> nat \<Rightarrow> nat \<Rightarrow> ext4_group_desc list \<Rightarrow> kernel \<Rightarrow>
    (ext4_group_desc list \<times> kernel) option" where
  "copy_gds is_64bit sb sz buf 0 j base arr k = Some (arr, k)"
| "copy_gds is_64bit sb sz buf (Suc n) j base arr k = (case new_group_desc is_64bit sb k of
       (None, k) \<Rightarrow> None
     | (Some gd, k) \<Rightarrow> do {
         src \<leftarrow> peek buf (sz * j) sz;
         gd \<leftarrow> poke gd 0 src;
         if j + base < length arr then copy_gds is_64bit sb sz buf n (Suc j) base (arr[j + base := gd]) k else None })"

fun gd_pages :: "bool \<Rightarrow> ext4_superblock \<Rightarrow> nat \<Rightarrow> nat \<Rightarrow> nat \<Rightarrow> nat \<Rightarrow> u32 \<Rightarrow> bytes \<Rightarrow> ext4_group_desc list \<Rightarrow> kernel \<Rightarrow>
    (u32 \<times> bytes \<times> ext4_group_desc list \<times> kernel) option" where
  "gd_pages is_64bit sb sz per 0 i sector_offset buf arr k = Some (sector_offset, buf, arr, k)"
| "gd_pages is_64bit sb sz per (Suc n) i sector_offset buf arr k = do {
     (ret, buf, k) \<leftarrow> read_page True (zero_page) 0 sector_offset True k;
     (arr, k) \<leftarrow> copy_gds is_64bit sb sz buf per 0 (i * per) arr k;
     gd_pages is_64bit sb sz per n (Suc i) (sector_offset + AFS_SECTORS_PER_BLOCK) buf arr k }"

definition read_group_descs :: "bool \<Rightarrow> ext4_superblock \<Rightarrow> ext4_disk \<Rightarrow> kernel \<Rightarrow> (int \<times> ext4_disk \<times> kernel) option" where
  "read_group_descs is_64bit sb disk k = (case vmalloc 4096 k of
       (None, k) \<Rightarrow> None
     | (Some buf, k) \<Rightarrow>
         if grp_desc_sz disk = 0 \<or> blk_sz disk = 0 then None
         else do {
           let sz = ucast (grp_desc_sz disk);
           let num_gds_per_blk = blk_sz disk div sz;
           let gd_blks = (num_grp_descs disk * sz) div blk_sz disk;
           let rem_gds = (num_grp_descs disk * sz) mod blk_sz disk div sz;
           (sector_offset, buf, arr, k) \<leftarrow>
             gd_pages is_64bit sb (unat sz) (unat num_gds_per_blk) (unat gd_blks) 0 AFS_SECTORS_PER_BLOCK buf (gd_arr disk) k;
           (ret, buf, k) \<leftarrow> read_page True (zero_page) 0 sector_offset True k;
           (arr, k) \<leftarrow> copy_gds is_64bit sb (unat sz) buf (unat rem_gds) 0 (unat (gd_blks * num_gds_per_blk)) arr k;
           Some (0, disk\<lparr>gd_arr := arr\<rparr>, k) })"

text \<open>The loop of \<open>is_pow_n\<close> divides as long as it can; every caller has \<open>n > 1\<close>.\<close>

function pow_loop :: "nat \<Rightarrow> nat \<Rightarrow> nat" where
  "pow_loop num n = (if 0 < num \<and> 1 < n \<and> num mod n = 0 then pow_loop (num div n) n else num)"
  by auto
termination by (relation "measure fst") auto

declare pow_loop.simps [simp del]

definition is_pow_n :: "u64 \<Rightarrow> nat \<Rightarrow> bool" where
  "is_pow_n num n \<longleftrightarrow> (if num = 0 then False else pow_loop (unat num) n = 1)"

fun set_bits :: "nat \<Rightarrow> nat \<Rightarrow> bit_vector_t option \<Rightarrow> bit_vector_t option" where
  "set_bits 0 j bvec = bvec"
| "set_bits (Suc n) j bvec = set_bits n (Suc j) (snd (bit_vector_set bvec (of_nat j)))"

fun copy_bitmap :: "nat \<Rightarrow> nat \<Rightarrow> bytes \<Rightarrow> bit_vector_t option \<Rightarrow> bit_vector_t option option" where
  "copy_bitmap 0 i buf bvec = Some bvec"
| "copy_bitmap (Suc n) i buf bvec =
     (if i div 8 < length buf
      then copy_bitmap n (Suc i) buf (if bit (buf ! (i div 8)) (i mod 8) then snd (bit_vector_set bvec (of_nat i)) else bvec)
      else None)"

text \<open>How many blocks the descriptors of all groups take.\<close>

definition gdt_blocks :: "ext4_disk \<Rightarrow> u64" where
  "gdt_blocks disk =
     (let sz = ucast (grp_desc_sz disk); total = num_grp_descs disk * sz; gd_blks = total div blk_sz disk
      in if total mod blk_sz disk div sz \<noteq> 0 then gd_blks + 1 else gd_blks)"

definition has_backups :: "u64 \<Rightarrow> bool" where
  "has_backups grp_num \<longleftrightarrow> grp_num = 0 \<or> is_pow_n grp_num 3 \<or> is_pow_n grp_num 5 \<or> is_pow_n grp_num 7"

definition read_bitmap :: "bool \<Rightarrow> ext4_disk \<Rightarrow> ext4_group_desc \<Rightarrow> u64 \<Rightarrow> bit_vector_t option \<Rightarrow> kernel \<Rightarrow>
    (int \<times> bit_vector_t option \<times> kernel) option" where
  "read_bitmap is_64bit disk gd grp_num bvec k = (case vmalloc 4096 k of
       (None, k) \<Rightarrow> None
     | (Some _, k) \<Rightarrow> do {
         block_bmap \<leftarrow> (if is_64bit then do { lo \<leftarrow> bg_block_bitmap_lo gd; hi \<leftarrow> bg_block_bitmap_hi gd; Some (lo_hi_64 lo hi) }
           else do { lo \<leftarrow> bg_block_bitmap_lo gd; Some (ucast lo) });
         (ret, buf, k) \<leftarrow> read_page True (zero_page) 0 (ucast (block_bmap * 8)) True k;
         bvec \<leftarrow> copy_bitmap (unat (blks_per_grp disk)) 0 buf bvec;
         let bvec = (if is_sparse_super disk \<and> has_backups grp_num then
             (let bvec = snd (bit_vector_set bvec 0);
                  bvec = set_bits (unat (gdt_blocks disk)) 1 bvec
              in set_bits (unat (reserved_gdt_blocks disk)) (1 + unat (gdt_blocks disk)) bvec)
           else bvec);
         Some (0, bvec, k) })"

text \<open>The free blocks of group \<open>i\<close> are appended to the list, which has room for as many blocks as the super block
  counts as free and is not checked; the bit vector is cleared on the way.\<close>

fun list_free :: "ext4_disk \<Rightarrow> u32 \<Rightarrow> nat \<Rightarrow> nat \<Rightarrow> bit_vector_t option \<Rightarrow> u32 list \<Rightarrow> nat \<Rightarrow> (bit_vector_t option \<times> u32 list \<times> nat) option" where
  "list_free disk i 0 j bvec bl k = Some (bvec, bl, k)"
| "list_free disk i (Suc n) j bvec bl k = do {
     let cleared = snd (bit_vector_clear bvec (of_nat j));
     let blk = (ucast (blks_per_grp disk * i) :: u64) + ucast (of_nat j + first_data_block disk);
     if bit_vector_get bvec (of_nat j) = 0 \<and> blk \<le> 0xFFFFFFFF then
       (if k < length bl then list_free disk i n (Suc j) cleared (bl[k := ucast blk]) (Suc k) else None)
     else list_free disk i n (Suc j) cleared bl k }"

text \<open>\<open>i\<close> is a 32-bit counter.\<close>

fun scan_groups :: "bool \<Rightarrow> ext4_disk \<Rightarrow> nat \<Rightarrow> nat \<Rightarrow> bit_vector_t option \<Rightarrow> u32 list \<Rightarrow> nat \<Rightarrow> kernel \<Rightarrow>
    (int \<times> u32 list \<times> nat \<times> kernel) option" where
  "scan_groups is_64bit disk 0 i bvec bl n k = Some (0, bl, n, k)"
| "scan_groups is_64bit disk (Suc m) i bvec bl n k =
     (if i < length (gd_arr disk) then do {
        (status, bvec, k) \<leftarrow> read_bitmap is_64bit disk (gd_arr disk ! i) (of_nat i) bvec k;
        if status \<noteq> 0 then Some (1, bl, n, k)
        else do {
          (bvec, bl, n) \<leftarrow> list_free disk (of_nat i) (unat (blks_per_grp disk)) 0 bvec bl n;
          scan_groups is_64bit disk m (Suc i) bvec bl n k } }
      else None)"

definition read_bitmaps :: "bool \<Rightarrow> ext4_disk \<Rightarrow> afs_passive_fs \<Rightarrow> kernel \<Rightarrow> (int \<times> afs_passive_fs \<times> kernel) option" where
  "read_bitmaps is_64bit disk fs k =
     (case bit_vector_create (ucast (blks_per_grp disk)) k of
        (None, k) \<Rightarrow> Some (1, fs, k)
      | (Some bvec, k) \<Rightarrow>
          (case vmalloc (4 * unat (free_block_count disk)) k of
             (None, k) \<Rightarrow> Some (1, fs, k)
           | (Some mem, k) \<Rightarrow> do {
               (status, list, n, k) \<leftarrow>
                 scan_groups is_64bit disk (unat (num_grp_descs disk)) 0 (Some bvec) (u32s (unat (free_block_count disk)) mem) 0 k;
               if status \<noteq> 0 then Some (1, fs, k)
               else do {
                 let fs = fs\<lparr>list_len := of_nat n\<rparr>;
                 (case vmalloc (4 * unat (list_len fs)) k of
                    (None, k) \<Rightarrow> Some (1, fs\<lparr>block_list := []\<rparr>, k)
                  | (Some _, k) \<Rightarrow> Some (0, fs\<lparr>block_list := list\<rparr>, k)) } }))"

text \<open>A device with the magic number is reported as EXT4, also when reading it fails.\<close>

definition afs_ext4_detect :: "bytes \<Rightarrow> afs_passive_fs \<Rightarrow> bool \<Rightarrow> kernel \<Rightarrow> (bool \<times> afs_passive_fs \<times> bool \<times> kernel) option" where
  "afs_ext4_detect data fs is_64bit k = (case new_superblock k of
       (None, k) \<Rightarrow> Some (False, fs, is_64bit, k)
     | (Some mem, k) \<Rightarrow> do {
         (status, sb, is_64bit) \<leftarrow> read_superblock mem data is_64bit;
         if status \<noteq> 0 then Some (False, fs, is_64bit, k)
         else do {
           (disk, k) \<leftarrow> new_disk is_64bit sb k;
           case disk of
             None \<Rightarrow> Some (True, fs, is_64bit, k)
           | Some disk \<Rightarrow> do {
               (status, disk, k) \<leftarrow> read_group_descs is_64bit sb disk k;
               if status \<noteq> 0 then Some (True, fs, is_64bit, k)
               else do {
                 (status, fs, k) \<leftarrow> read_bitmaps is_64bit disk fs k;
                 Some (True, fs, is_64bit, k) } } } })"

section \<open>What the steps do on a sound volume\<close>

lemma new_group_desc_ok: "alloc_ok k \<Longrightarrow> \<exists>gd k'. new_group_desc False sb k = (Some gd, k') \<and> length gd = 32 \<and> idle k k'"
  by (auto simp: new_group_desc_def kmalloc_alloc_ok)

lemma new_gds_ok:
  assumes "alloc_ok k"
  shows "\<exists>gds k'. new_gds False sb n k = Some (Some gds, k') \<and> length gds = n \<and> idle k k'"
  using assms
proof (induction n arbitrary: k)
  case (Suc n)
  obtain gd k1 where gd: "new_group_desc False sb k = (Some gd, k1)" "idle k k1" using new_group_desc_ok [OF Suc.prems] by blast
  then obtain gds k' where "new_gds False sb n k1 = Some (Some gds, k')" "length gds = n" "idle k1 k'"
    using Suc.IH Suc.prems idleD(2) by blast
  moreover from this have "idle k k'" using idle_trans [OF gd(2)] by blast
  ultimately show ?case using gd(1) by simp
qed simp

lemma read_sector_page:
  assumes "io_ok k"
  shows "read_page True (zero_page) 0 s True k = Some (0, dev_read k (512 * unat s) 4096, tick_io (tick_alloc True k))"
  using read_page_eq [of "zero_page" True k 0 s True] assms
  by (simp add: io_okD get_page_def block_addr_def)

lemma copy_gds_ok:
  assumes "alloc_ok k" "base + j + n \<le> length arr" "32 * (j + n) \<le> length buf"
  shows "\<exists>arr' k'. copy_gds False sb 32 buf n j base arr k = Some (arr', k') \<and> length arr' = length arr \<and> idle k k' \<and>
    (\<forall>g < length arr. arr' ! g = (if base + j \<le> g \<and> g < base + j + n then sub buf (32 * (g - base)) 32 else arr ! g))"
  using assms
proof (induction n arbitrary: j arr k)
  case (Suc n)
  obtain gd k1 where gd: "new_group_desc False sb k = (Some gd, k1)" "length gd = 32" "idle k k1" using new_group_desc_ok [OF Suc.prems(1)] by blast
  have src: "length (sub buf (32 * j) 32) = 32" using Suc.prems(3) by simp
  let ?arr = "arr[j + base := sub buf (32 * j) 32]"
  have "alloc_ok k1" using gd(3) Suc.prems(1) idleD(2) by blast
  then obtain arr' k' where r: "copy_gds False sb 32 buf n (Suc j) base ?arr k1 = Some (arr', k')" "length arr' = length arr" "idle k1 k'"
      "\<forall>g < length arr. arr' ! g = (if base + Suc j \<le> g \<and> g < base + Suc j + n then sub buf (32 * (g - base)) 32 else ?arr ! g)"
    using Suc.IH [of k1 "Suc j" ?arr] Suc.prems by auto
  have "blit gd 0 (sub buf (32 * j) 32) = sub buf (32 * j) 32" using gd(2) src by (simp add: blit_def)
  then have "copy_gds False sb 32 buf (Suc n) j base arr k = Some (arr', k')"
    using gd(1,2) src r(1) Suc.prems(2,3) by (simp add: peek_def poke_def add.commute)
  moreover have "arr' ! g = (if base + j \<le> g \<and> g < base + j + Suc n then sub buf (32 * (g - base)) 32 else arr ! g)" if "g < length arr" for g
    using r(4) that by (cases "g = j + base") (auto simp: nth_list_update)
  ultimately show ?case using r(2,3) gd(3) idle_trans by blast
qed auto

lemma gd_page_entry:
  assumes "i * 128 \<le> g" "g < i * 128 + 128"
  shows "sub (dev_read k (4096 + 4096 * i) 4096) (32 * (g - i * 128)) 32 = dev_read k (4096 + 32 * g) 32"
proof -
  obtain h where h: "g = i * 128 + h" using assms(1) le_Suc_ex by blast
  then have "32 * h + 32 \<le> 4096" using assms(2) by simp
  moreover have "4096 + 4096 * i + 32 * h = 4096 + 32 * g" using h by simp
  ultimately show ?thesis using h by (simp only: sub_dev_read diff_add_inverse)
qed

text \<open>The descriptors of the first \<open>n\<close> pages are the bytes behind the first page of the device.\<close>

definition gds_read :: "kernel \<Rightarrow> nat \<Rightarrow> nat \<Rightarrow> ext4_group_desc list \<Rightarrow> ext4_group_desc list \<Rightarrow> bool" where
  "gds_read k lo hi arr arr' \<longleftrightarrow> length arr' = length arr \<and>
     (\<forall>g < length arr. arr' ! g = (if lo \<le> g \<and> g < hi then dev_read k (4096 + 32 * g) 32 else arr ! g))"

lemma gds_read_trans: "gds_read k lo m arr arr1 \<Longrightarrow> gds_read k m hi arr1 arr2 \<Longrightarrow> lo \<le> m \<Longrightarrow> m \<le> hi \<Longrightarrow> gds_read k lo hi arr arr2"
  by (auto simp: gds_read_def)

lemma gds_read_idle: "idle k k1 \<Longrightarrow> gds_read k1 lo hi arr arr' = gds_read k lo hi arr arr'"
  by (simp add: gds_read_def idleD(3))

lemma gd_page_ok:
  assumes "alloc_ok k" "io_ok k" "i * 128 + n \<le> length arr" "n \<le> 128" "unat so = 8 + 8 * i"
  shows "\<exists>buf arr' k' k1. read_page True zero_page 0 so True k = Some (0, buf, k1) \<and>
    copy_gds False sb 32 buf n 0 (i * 128) arr k1 = Some (arr', k') \<and> gds_read k (i * 128) (i * 128 + n) arr arr' \<and> idle k k'"
proof -
  let ?buf = "dev_read k (4096 + 4096 * i) 4096" and ?k = "tick_io (tick_alloc True k)"
  have rd: "read_page True zero_page 0 so True k = Some (0, ?buf, ?k)"
    using read_sector_page [OF assms(2), of so] assms(5) by simp
  have "alloc_ok ?k" using assms(1) by simp
  then obtain arr1 k1 where c: "copy_gds False sb 32 ?buf n 0 (i * 128) arr ?k = Some (arr1, k1)" "length arr1 = length arr" "idle ?k k1"
      "\<forall>g < length arr. arr1 ! g = (if i * 128 + 0 \<le> g \<and> g < i * 128 + 0 + n then sub ?buf (32 * (g - i * 128)) 32 else arr ! g)"
    using copy_gds_ok [of ?k "i * 128" 0 n arr ?buf sb] assms(3,4) by auto
  have "idle k k1" using c(3) idle_trans [of k ?k k1] by simp
  moreover have "gds_read k (i * 128) (i * 128 + n) arr arr1"
    using c(2,4) assms(4) by (auto simp: gds_read_def gd_page_entry)
  ultimately show ?thesis using rd c(1) by blast
qed

lemma gd_pages_ok:
  assumes "alloc_ok k" "io_ok k" "(i + n) * 128 \<le> length arr" "8 + 8 * (i + n) < 2 ^ 32" "unat so = 8 + 8 * i"
  shows "\<exists>so' buf' arr' k'. gd_pages False sb 32 128 n i so buf arr k = Some (so', buf', arr', k') \<and> unat so' = 8 + 8 * (i + n) \<and>
    gds_read k (i * 128) ((i + n) * 128) arr arr' \<and> idle k k'"
  using assms
proof (induction n arbitrary: i so buf arr k)
  case 0
  then show ?case by (auto simp: gds_read_def)
next
  case (Suc n)
  obtain buf1 arr1 k0 k1 where c: "read_page True zero_page 0 so True k = Some (0, buf1, k0)"
      "copy_gds False sb 32 buf1 128 0 (i * 128) arr k0 = Some (arr1, k1)" "gds_read k (i * 128) (i * 128 + 128) arr arr1" "idle k k1"
    using gd_page_ok [OF Suc.prems(1,2), of i 128 arr so sb] Suc.prems(3,5) by auto
  have so: "unat (so + AFS_SECTORS_PER_BLOCK) = 8 + 8 * Suc i"
    using Suc.prems(4,5) by (simp add: AFS_SECTORS_PER_BLOCK_def unat_word_ariths)
  have len: "length arr1 = length arr" using c(3) by (simp add: gds_read_def)
  have "alloc_ok k1" "io_ok k1" "(Suc i + n) * 128 \<le> length arr1" "8 + 8 * (Suc i + n) < 2 ^ 32"
    using Suc.prems idleD(1,2) [OF c(4)] len by simp_all
  from Suc.IH [OF this so, of buf1] obtain so' buf' arr' k' where
      r: "gd_pages False sb 32 128 n (Suc i) (so + AFS_SECTORS_PER_BLOCK) buf1 arr1 k1 = Some (so', buf', arr', k')"
      "unat so' = 8 + 8 * (Suc i + n)" "gds_read k1 (Suc i * 128) ((Suc i + n) * 128) arr1 arr'" "idle k1 k'" by blast
  have "gds_read k (i * 128) ((Suc i + n) * 128) arr arr'"
  proof (rule gds_read_trans)
    show "gds_read k (i * 128) (Suc i * 128) arr arr1" using c(3) by (simp add: add.commute)
    show "gds_read k (Suc i * 128) ((Suc i + n) * 128) arr1 arr'" using r(3) gds_read_idle [OF c(4)] by blast
  qed simp_all
  moreover have "gd_pages False sb 32 128 (Suc n) i so buf arr k = Some (so', buf', arr', k')" using c(1,2) r(1) by simp
  moreover have "idle k k'" using c(4) r(4) by (rule idle_trans)
  ultimately show ?case using r(2) by (metis add_Suc add_Suc_right)
qed

text \<open>A volume that the detection can read: blocks of 4096 bytes, 32-byte descriptors, at most 32768 blocks in a
  group, and block numbers within 32 bits.\<close>

definition ext4_geom :: "ext4_disk \<Rightarrow> bool" where
  "ext4_geom disk \<longleftrightarrow> blk_sz disk = 4096 \<and> grp_desc_sz disk = 32 \<and> 0 < blks_per_grp disk \<and> blks_per_grp disk \<le> 32768 \<and>
     0 < num_grp_descs disk \<and> unat (num_grp_descs disk) < 2 ^ 20 \<and>
     unat (first_data_block disk) + unat (num_grp_descs disk) * unat (blks_per_grp disk) < 2 ^ 32"

lemma read_group_descs_ok:
  assumes "alloc_ok k" "io_ok k" "ext4_geom disk" "length (gd_arr disk) = unat (num_grp_descs disk)"
  shows "\<exists>k'. read_group_descs False sb disk k =
      Some (0, disk\<lparr>gd_arr := map (\<lambda>g. dev_read k (4096 + 32 * g) 32) [0..<unat (num_grp_descs disk)]\<rparr>, k') \<and> idle k k'"
proof -
  define G where "G = unat (num_grp_descs disk)"
  note g = assms(3) [unfolded ext4_geom_def]
  have G: "G < 2 ^ 20" "length (gd_arr disk) = G" using g assms(4) by (simp_all add: G_def)
  have sz: "(ucast (grp_desc_sz disk) :: u64) = 32" "blk_sz disk = 4096" using g by simp_all
  have per: "unat ((4096 :: u64) div 32) = 128" by simp
  have prod: "unat (num_grp_descs disk * 32) = 32 * G" using G(1) by (simp add: G_def unat_word_ariths)
  have blks: "unat (num_grp_descs disk * 32 div 4096) = G div 128" "unat (num_grp_descs disk * 32 mod 4096 div 32) = G mod 128"
  proof -
    show "unat (num_grp_descs disk * 32 div 4096) = G div 128"
      using prod div_mult_mult1 [of 32 G 128] by (simp add: unat_div_distrib)
    show "unat (num_grp_descs disk * 32 mod 4096 div 32) = G mod 128"
      using prod mult_mod_right [of 32 G 128] by (simp add: unat_div_distrib unat_mod_distrib)
  qed
  have base: "unat (num_grp_descs disk * 32 div 4096 * (4096 div 32)) = 128 * (G div 128)"
    using blks(1) G(1) by (simp add: unat_word_ariths)
  obtain buf k1 where buf: "vmalloc 4096 k = (Some buf, k1)" "idle k k1" using vmalloc_idle [OF assms(1), of 4096] by auto
  have ok1: "alloc_ok k1" "io_ok k1" using idleD(1,2) [OF buf(2)] assms(1,2) by simp_all
  have rng: "(0 + G div 128) * 128 \<le> length (gd_arr disk)" "8 + 8 * (0 + G div 128) < 2 ^ 32" "unat AFS_SECTORS_PER_BLOCK = 8 + 8 * 0"
    using G by (simp_all add: AFS_SECTORS_PER_BLOCK_def)
  obtain so buf2 arr2 k2 where p: "gd_pages False sb 32 128 (G div 128) 0 AFS_SECTORS_PER_BLOCK buf (gd_arr disk) k1 = Some (so, buf2, arr2, k2)"
      "unat so = 8 + 8 * (G div 128)" "gds_read k1 (0 * 128) ((0 + G div 128) * 128) (gd_arr disk) arr2" "idle k1 k2"
    using gd_pages_ok [OF ok1 rng, of sb buf] by auto
  have idle2: "idle k k2" using buf(2) p(4) by (rule idle_trans)
  have ok2: "alloc_ok k2" "io_ok k2" using idleD(1,2) [OF idle2] assms(1,2) by simp_all
  have len: "length arr2 = G" using p(3) G(2) by (simp add: gds_read_def)
  then have "G div 128 * 128 + G mod 128 \<le> length arr2" by simp
  from gd_page_ok [OF ok2 this _ p(2), of sb] obtain buf3 arr3 k0 k3 where c: "read_page True zero_page 0 so True k2 = Some (0, buf3, k0)"
      "copy_gds False sb 32 buf3 (G mod 128) 0 (G div 128 * 128) arr2 k0 = Some (arr3, k3)"
      "gds_read k2 (G div 128 * 128) (G div 128 * 128 + G mod 128) arr2 arr3" "idle k2 k3" by auto
  have "gds_read k 0 G (gd_arr disk) arr3"
  proof (rule gds_read_trans)
    show "gds_read k 0 (G div 128 * 128) (gd_arr disk) arr2" using p(3) gds_read_idle [OF buf(2)] by simp
    show "gds_read k (G div 128 * 128) G arr2 arr3" using c(3) gds_read_idle [OF idle2] by simp
  qed simp_all
  then have "arr3 = map (\<lambda>g. dev_read k (4096 + 32 * g) 32) [0..<G]"
    using G(2) by (intro nth_equalityI) (simp_all add: gds_read_def)
  moreover have "read_group_descs False sb disk k = Some (0, disk\<lparr>gd_arr := arr3\<rparr>, k3)"
  proof -
    have s: "grp_desc_sz disk \<noteq> 0" "blk_sz disk \<noteq> 0" using g by simp_all
    show ?thesis
      unfolding read_group_descs_def buf(1) Let_def sz per base [unfolded mult.commute [of 128]] blks
      using s p(1) c(1,2) by (simp add: blks base per mult.commute)
  qed
  moreover have "idle k k3" using idle2 c(4) by (rule idle_trans)
  ultimately show ?thesis by (auto simp: G_def)
qed

section \<open>Bitmaps\<close>

text \<open>A vector for \<open>B\<close> blocks whose set bits are those of \<open>P\<close>.\<close>

definition bits_are :: "bit_vector_t option \<Rightarrow> nat \<Rightarrow> (nat \<Rightarrow> bool) \<Rightarrow> bool" where
  "bits_are v B P \<longleftrightarrow> B < 2 ^ 32 \<and> bv_ok v \<and> (\<forall>j. bv_accepts v j \<longleftrightarrow> unat j \<le> B) \<and> (\<forall>j < B. bit_vector_get v (of_nat j) = 1 \<longleftrightarrow> P j)"

lemma of_nat_eq_64: "i < 2 ^ 64 \<Longrightarrow> j < 2 ^ 64 \<Longrightarrow> (of_nat i :: u64) = of_nat j \<longleftrightarrow> i = j"
  by (metis unat_of_nat_64)

lemma bits_are_accepts: "bits_are v B P \<Longrightarrow> j \<le> B \<Longrightarrow> bv_accepts v (of_nat j)"
  by (simp add: bits_are_def unat_of_nat_64)

lemma bit_vector_get_01: "bv_accepts v i \<Longrightarrow> bit_vector_get v i = 0 \<or> bit_vector_get v i = 1"
  by (auto simp: bv_accepts_def bit_vector_get_def split: option.splits)

lemma bits_are_get: "bits_are v B P \<Longrightarrow> j < B \<Longrightarrow> bit_vector_get v (of_nat j) = (if P j then 1 else 0)"
  using bits_are_accepts [of v B P j] bit_vector_get_01 [of v "of_nat j"] by (auto simp: bits_are_def)

lemma bits_are_set:
  assumes "bits_are v B P" "i < 2 ^ 64"
  shows "bits_are (snd (bit_vector_set v (of_nat i))) B (\<lambda>j. j = i \<or> P j)"
proof (cases "i \<le> B")
  case True
  then have "bit_vector_get (snd (bit_vector_set v (of_nat i))) (of_nat j) = 1 \<longleftrightarrow> j = i \<or> P j" if "j < B" for j
    using that bits_are_accepts [OF assms(1)] assms of_nat_eq_64 [of i j] by (auto simp: bv.member_enter bits_are_def)
  then show ?thesis using assms by (simp add: bits_are_def bv.invar_enter bv.accepts_enter)
next
  case False
  then have "\<not> bv_accepts v (of_nat i)" using assms by (simp add: bits_are_def unat_of_nat_64)
  then show ?thesis using assms False by (auto simp: bv.enter_rejected bits_are_def)
qed

lemma bits_are_clear:
  assumes "bits_are v B P" "i < B"
  shows "bits_are (snd (bit_vector_clear v (of_nat i))) B (\<lambda>j. j \<noteq> i \<and> P j)"
proof -
  have "bit_vector_get (snd (bit_vector_clear v (of_nat i))) (of_nat j) = 1 \<longleftrightarrow> j \<noteq> i \<and> P j" if "j < B" for j
    using that bits_are_accepts [OF assms(1)] assms of_nat_eq_64 [of i j] by (auto simp: bv.member_leave bits_are_def)
  then show ?thesis using assms by (simp add: bits_are_def bv.invar_leave bv.accepts_leave)
qed

lemma bits_are_cong: "bits_are v B P \<Longrightarrow> (\<And>j. j < B \<Longrightarrow> P j = Q j) \<Longrightarrow> bits_are v B Q"
  by (simp add: bits_are_def)

lemma set_bits_ok:
  assumes "bits_are v B P" "j + n < 2 ^ 64"
  shows "bits_are (set_bits n j v) B (\<lambda>i. j \<le> i \<and> i < j + n \<or> P i)"
  using assms
proof (induction n arbitrary: j v P)
  case 0
  then show ?case by (auto elim: bits_are_cong)
next
  case (Suc n)
  have "bits_are (snd (bit_vector_set v (of_nat j))) B (\<lambda>i. i = j \<or> P i)" using Suc.prems by (intro bits_are_set) auto
  from Suc.IH [OF this, of "Suc j"] Suc.prems(2) show ?case by (auto elim: bits_are_cong)
qed

lemma copy_bitmap_ok:
  assumes "bits_are v B P" "i + n \<le> 8 * length buf" "i + n < 2 ^ 64"
  shows "\<exists>v'. copy_bitmap n i buf v = Some v' \<and> bits_are v' B (\<lambda>j. i \<le> j \<and> j < i + n \<and> bit (buf ! (j div 8)) (j mod 8) \<or> P j)"
  using assms
proof (induction n arbitrary: i v P)
  case 0
  then show ?case by (auto elim: bits_are_cong)
next
  case (Suc n)
  let ?v = "if bit (buf ! (i div 8)) (i mod 8) then snd (bit_vector_set v (of_nat i)) else v"
  have "bits_are ?v B (\<lambda>j. j = i \<and> bit (buf ! (i div 8)) (i mod 8) \<or> P j)"
    using Suc.prems(1,3) bits_are_set [OF Suc.prems(1), of i] by (auto elim: bits_are_cong)
  from Suc.IH [OF this, of "Suc i"] Suc.prems(2,3) obtain v' where r: "copy_bitmap n (Suc i) buf ?v = Some v'"
      "bits_are v' B (\<lambda>j. Suc i \<le> j \<and> j < Suc i + n \<and> bit (buf ! (j div 8)) (j mod 8) \<or> (j = i \<and> bit (buf ! (i div 8)) (i mod 8) \<or> P j))" by auto
  moreover have "i div 8 < length buf" using Suc.prems(2) by linarith
  moreover have "bits_are v' B (\<lambda>j. i \<le> j \<and> j < i + Suc n \<and> bit (buf ! (j div 8)) (j mod 8) \<or> P j)"
    using r(2) by (rule bits_are_cong) (metis Suc_leI add_Suc_right add_Suc le_eq_less_or_eq less_add_Suc1 Suc_le_lessD)
  ultimately show ?case by simp
qed

text \<open>Block \<open>j\<close> of group \<open>g\<close>, and whether the file system has it in use: the bitmap says so, or the group has copies of the
  super block and of the descriptors at its start.\<close>

definition bitmap_addr :: "kernel \<Rightarrow> nat \<Rightarrow> nat" where
  "bitmap_addr k g = 512 * unat (le_word (dev_read k (4096 + 32 * g) 4) * 8 :: u32)"

definition ext4_used :: "ext4_disk \<Rightarrow> kernel \<Rightarrow> nat \<Rightarrow> nat \<Rightarrow> bool" where
  "ext4_used disk k g j \<longleftrightarrow> bit (k_dev k (bitmap_addr k g + j div 8)) (j mod 8) \<or>
     is_sparse_super disk \<and> has_backups (of_nat g) \<and> j < 1 + unat (gdt_blocks disk) + unat (reserved_gdt_blocks disk)"

definition group_blocks :: "ext4_disk \<Rightarrow> nat \<Rightarrow> (nat \<Rightarrow> bool) \<Rightarrow> nat \<Rightarrow> u32 list" where
  "group_blocks disk g P j = map (\<lambda>j. of_nat (unat (first_data_block disk) + g * unat (blks_per_grp disk) + j))
     (filter (\<lambda>j. \<not> P j) [j..<unat (blks_per_grp disk)])"

lemma take_put: "k < length bl \<Longrightarrow> take (Suc k) (bl[k := x]) = take k bl @ [x]"
  by (simp add: take_Suc_conv_app_nth)

lemma list_free_ok:
  assumes "bits_are v (unat (blks_per_grp disk)) P" "j + n = unat (blks_per_grp disk)"
    and "unat (first_data_block disk) + Suc g * unat (blks_per_grp disk) < 2 ^ 32" "k + length (group_blocks disk g P j) \<le> length bl"
  shows "\<exists>v' bl'. list_free disk (of_nat g) n j v bl k = Some (v', bl', k + length (group_blocks disk g P j)) \<and>
    bits_are v' (unat (blks_per_grp disk)) (\<lambda>i. i < j \<and> P i) \<and> length bl' = length bl \<and>
    take (k + length (group_blocks disk g P j)) bl' = take k bl @ group_blocks disk g P j"
  using assms
proof (induction n arbitrary: j v P k bl)
  case 0
  then have "bits_are v (unat (blks_per_grp disk)) (\<lambda>i. i < j \<and> P i)" by (auto elim: bits_are_cong)
  then show ?case using 0 by (simp add: group_blocks_def)
next
  case (Suc n)
  define B where "B = unat (blks_per_grp disk)"
  define blk where "blk = (ucast (blks_per_grp disk * of_nat g) :: u64) + ucast (of_nat j + first_data_block disk)"
  let ?b = "unat (first_data_block disk) + g * B + j"
  have j: "j < B" using Suc.prems(2) by (simp add: B_def)
  have lim: "?b < 2 ^ 32" using Suc.prems(3) j by (simp add: B_def)
  have blk: "unat blk = ?b" "blk \<le> 0xFFFFFFFF"
  proof -
    have "unat (blks_per_grp disk * of_nat g) = g * B" if "g < 2 ^ 32"
      using lim that by (simp add: B_def unat_word_ariths unsigned_of_nat take_bit_nat_eq_self mult.commute)
    moreover have "g \<le> g * B" using j by (cases B) simp_all
    then have "g < 2 ^ 32" using lim by linarith
    moreover have "unat (of_nat j + first_data_block disk) = j + unat (first_data_block disk)"
      using lim by (simp add: unat_word_ariths unsigned_of_nat take_bit_nat_eq_self)
    ultimately show "unat blk = ?b" using lim by (simp add: blk_def unat_word_ariths unsigned_ucast_eq take_bit_nat_eq_self)
    then show "blk \<le> 0xFFFFFFFF" using lim by (simp add: word_le_nat_alt)
  qed
  have word: "(ucast blk :: u32) = of_nat ?b" 
    using blk(1) lim by (simp add: word_unat_eq_iff unsigned_ucast_eq unsigned_of_nat take_bit_nat_eq_self del: of_nat_add of_nat_mult)
  let ?v = "snd (bit_vector_clear v (of_nat j))"
  have clr: "bits_are ?v B (\<lambda>i. i \<noteq> j \<and> P i)" using bits_are_clear [OF Suc.prems(1) [folded B_def] j] .
  have up: "[j..<B] = j # [Suc j..<B]" using j by (rule upt_conv_Cons)
  have same: "group_blocks disk g (\<lambda>i. i \<noteq> j \<and> P i) (Suc j) = group_blocks disk g P (Suc j)"
    unfolding group_blocks_def by (intro arg_cong [of _ _ "map _"] filter_cong) auto
  have get: "bit_vector_get v (of_nat j) = (if P j then 1 else 0)" using bits_are_get [OF Suc.prems(1)] j by (simp add: B_def)
  have keep: "bits_are v' B (\<lambda>i. i < j \<and> P i)" if "bits_are v' B (\<lambda>i. i < Suc j \<and> i \<noteq> j \<and> P i)" for v'
    using that by (rule bits_are_cong) auto
  show ?case
  proof (cases "P j")
    case True
    then have gb: "group_blocks disk g P j = group_blocks disk g P (Suc j)" using up by (simp add: group_blocks_def B_def)
    show ?thesis
      using Suc.IH [OF clr [unfolded B_def], of "Suc j" k bl] Suc.prems(2-4) get True keep by (auto simp: same gb B_def [symmetric])
  next
    case False
    then have gb: "group_blocks disk g P j = of_nat ?b # group_blocks disk g P (Suc j)" using up by (simp add: group_blocks_def B_def)
    then have k: "k < length bl" using Suc.prems(4) by simp
    show ?thesis
      using Suc.IH [OF clr [unfolded B_def], of "Suc j" "Suc k" "bl[k := of_nat ?b]"] Suc.prems(2-4) get False keep k blk(2) word
      by (auto simp: same gb B_def [symmetric] take_put blk_def [symmetric])
  qed
qed

lemma gdt_blocks_eq:
  assumes "ext4_geom disk"
  shows "unat (gdt_blocks disk) = (unat (num_grp_descs disk) + 127) div 128"
proof -
  define G where "G = unat (num_grp_descs disk)"
  have g: "blk_sz disk = 4096" "(ucast (grp_desc_sz disk) :: u64) = 32" "G < 2 ^ 20" using assms by (simp_all add: ext4_geom_def G_def)
  have prod: "unat (num_grp_descs disk * 32) = 32 * G" using g(3) by (simp add: G_def unat_word_ariths)
  have d: "unat (num_grp_descs disk * 32 div 4096) = G div 128"
    using prod div_mult_mult1 [of 32 G 128] by (simp add: unat_div_distrib)
  have "unat (num_grp_descs disk * 32 mod 4096 div 32) = G mod 128"
    using prod mult_mod_right [of 32 G 128] by (simp add: unat_div_distrib unat_mod_distrib)
  then have "num_grp_descs disk * 32 mod 4096 div 32 = 0 \<longleftrightarrow> G mod 128 = 0" by (simp only: word_unat_eq_iff unat_0)
  moreover have "G div 128 + 1 < 2 ^ 64" using g(3) by simp
  then have "unat (num_grp_descs disk * 32 div 4096 + 1) = G div 128 + 1" using d by (simp add: unat_word_ariths)
  ultimately have "unat (gdt_blocks disk) = (if G mod 128 = 0 then G div 128 else G div 128 + 1)"
    using d by (simp add: gdt_blocks_def Let_def g)
  also have "\<dots> = (G + 127) div 128"
  proof -
    obtain q r where "G = 128 * q + r" "r < 128" by (metis mult_div_mod_eq mod_less_divisor zero_less_numeral)
    then show ?thesis by (cases "r = 0") simp_all
  qed
  finally show ?thesis by (simp add: G_def)
qed

lemma bitmap_lo: "length gd = 32 \<Longrightarrow> bg_block_bitmap_lo gd = Some (le_word (take 4 gd))"
  by (simp add: bg_block_bitmap_lo_def peek_def sub_def)

lemma bitmap_sector: "(ucast ((ucast lo :: u64) * 8) :: u32) = lo * 8"
proof -
  have "(ucast lo :: u64) * 8 = push_bit 3 (ucast lo)" "lo * 8 = push_bit 3 lo" by (simp_all add: push_bit_eq_mult)
  then show ?thesis by (auto intro!: bit_word_eqI simp: bit_ucast_iff bit_push_bit_iff)
qed

lemma read_bitmap_ok:
  assumes "alloc_ok k" "io_ok k" "ext4_geom disk" "bits_are v (unat (blks_per_grp disk)) (\<lambda>_. False)"
  shows "\<exists>v' k'. read_bitmap False disk (dev_read k (4096 + 32 * g) 32) (of_nat g) v k = Some (0, v', k') \<and>
    bits_are v' (unat (blks_per_grp disk)) (ext4_used disk k g) \<and> idle k k'"
proof -
  define B where "B = unat (blks_per_grp disk)"
  let ?gd = "dev_read k (4096 + 32 * g) 32" and ?buf = "dev_read k (bitmap_addr k g) 4096"
  have "B \<le> 32768" using assms(3) by (simp add: ext4_geom_def B_def word_le_nat_alt)
  obtain mem k1 where mem: "vmalloc 4096 k = (Some mem, k1)" "idle k k1" using vmalloc_idle [OF assms(1), of 4096] by auto
  have dev: "dev_read k1 = dev_read k" "io_ok k1" using idleD(1,3) [OF mem(2)] assms(2) by simp_all
  have "take 4 ?gd = dev_read k (4096 + 32 * g) 4" using sub_dev_read [of 0 4 32 k "4096 + 32 * g"] by (simp add: sub_def)
  then have lo: "bg_block_bitmap_lo ?gd = Some (le_word (dev_read k (4096 + 32 * g) 4))" using bitmap_lo [of ?gd] by simp
  have rd: "read_page True zero_page 0 (le_word (dev_read k (4096 + 32 * g) 4) * 8) True k1 = Some (0, ?buf, tick_io (tick_alloc True k1))"
    using read_sector_page [OF dev(2)] by (simp add: dev(1) bitmap_addr_def)
  obtain v1 where v1: "copy_bitmap B 0 ?buf v = Some v1" "bits_are v1 B (\<lambda>j. 0 \<le> j \<and> j < 0 + B \<and> bit (?buf ! (j div 8)) (j mod 8) \<or> False)"
    using copy_bitmap_ok [OF assms(4), of 0 B ?buf] \<open>B \<le> 32768\<close> by (auto simp: B_def)
  have v1': "bits_are v1 B (\<lambda>j. bit (k_dev k (bitmap_addr k g + j div 8)) (j mod 8))"
  proof (rule bits_are_cong [OF v1(2)])
    fix j assume "j < B"
    then have "j div 8 < 4096" using \<open>B \<le> 32768\<close> by linarith
    then show "(0 \<le> j \<and> j < 0 + B \<and> bit (?buf ! (j div 8)) (j mod 8) \<or> False) = bit (k_dev k (bitmap_addr k g + j div 8)) (j mod 8)"
      using \<open>j < B\<close> by (simp add: dev_read_def)
  qed
  define R where "R = 1 + unat (gdt_blocks disk)"
  have "unat (num_grp_descs disk) < 2 ^ 20" using assms(3) by (simp add: ext4_geom_def)
  then have R: "R < 2 ^ 20 + 2" using gdt_blocks_eq [OF assms(3)] unfolding R_def by simp
  have res: "unat (reserved_gdt_blocks disk) < 2 ^ 16" using unsigned_less [of "reserved_gdt_blocks disk", where ?'a = nat] by simp
  let ?v2 = "set_bits (unat (reserved_gdt_blocks disk)) R (set_bits (unat (gdt_blocks disk)) 1 (snd (bit_vector_set v1 0)))"
  have "bits_are (snd (bit_vector_set v1 (of_nat 0))) B (\<lambda>j. j = 0 \<or> bit (k_dev k (bitmap_addr k g + j div 8)) (j mod 8))"
    using v1' by (rule bits_are_set) simp
  from set_bits_ok [OF set_bits_ok [OF this, of 1 "unat (gdt_blocks disk)"], of R "unat (reserved_gdt_blocks disk)"]
  have v2: "bits_are ?v2 B (\<lambda>j. R \<le> j \<and> j < R + unat (reserved_gdt_blocks disk) \<or> 1 \<le> j \<and> j < 1 + unat (gdt_blocks disk) \<or> j = 0 \<or>
      bit (k_dev k (bitmap_addr k g + j div 8)) (j mod 8))"
    using R res by (simp add: R_def)
  let ?v = "if is_sparse_super disk \<and> has_backups (of_nat g) then ?v2 else v1"
  have "bits_are ?v B (ext4_used disk k g)"
  proof (cases "is_sparse_super disk \<and> has_backups (of_nat g)")
    case True
    then show ?thesis using v2 by (auto simp: ext4_used_def R_def elim!: bits_are_cong)
  next
    case False
    then show ?thesis using v1' by (auto simp: ext4_used_def elim!: bits_are_cong)
  qed
  moreover have "read_bitmap False disk ?gd (of_nat g) v k = Some (0, ?v, tick_io (tick_alloc True k1))"
    using mem(1) lo rd v1(1) by (simp add: read_bitmap_def bitmap_sector B_def [symmetric] Let_def R_def)
  moreover have "idle k (tick_io (tick_alloc True k1))" using mem(2) idle_tick(2) idle_trans by blast
  ultimately show ?thesis unfolding B_def by blast
qed

section \<open>The whole scan\<close>

text \<open>The free blocks of \<open>m\<close> groups from group \<open>i\<close> on.\<close>

definition ext4_free :: "ext4_disk \<Rightarrow> kernel \<Rightarrow> nat \<Rightarrow> nat \<Rightarrow> u32 list" where
  "ext4_free disk k i m = concat (map (\<lambda>g. group_blocks disk g (ext4_used disk k g) 0) [i..<i + m])"

lemma ext4_free_Suc: "ext4_free disk k i (Suc m) = group_blocks disk i (ext4_used disk k i) 0 @ ext4_free disk k (Suc i) m"
  by (simp add: ext4_free_def upt_conv_Cons del: upt_Suc)

lemma ext4_used_idle: "idle k k' \<Longrightarrow> ext4_used disk k' = ext4_used disk k"
  by (simp add: fun_eq_iff ext4_used_def bitmap_addr_def idleD(3)) (simp add: idle_def)

lemma ext4_free_idle: "idle k k' \<Longrightarrow> ext4_free disk k' i m = ext4_free disk k i m"
  by (simp add: ext4_free_def ext4_used_idle)

lemma scan_groups_ok:
  assumes "alloc_ok k" "io_ok k" "ext4_geom disk" "bits_are v (unat (blks_per_grp disk)) (\<lambda>_. False)"
    and "gd_arr disk = map (\<lambda>g. dev_read k (4096 + 32 * g) 32) [0..<unat (num_grp_descs disk)]" "i + m = unat (num_grp_descs disk)"
    and "n + length (ext4_free disk k i m) \<le> length bl"
  shows "\<exists>bl' k'. scan_groups False disk m i v bl n k = Some (0, bl', n + length (ext4_free disk k i m), k') \<and> length bl' = length bl \<and>
    take (n + length (ext4_free disk k i m)) bl' = take n bl @ ext4_free disk k i m \<and> idle k k'"
  using assms
proof (induction m arbitrary: i v bl n k)
  case 0
  then show ?case by (simp add: ext4_free_def)
next
  case (Suc m)
  let ?gb = "group_blocks disk i (ext4_used disk k i) 0"
  have i: "i < unat (num_grp_descs disk)" using Suc.prems(6) by simp
  obtain v1 k1 where rb: "read_bitmap False disk (dev_read k (4096 + 32 * i) 32) (of_nat i) v k = Some (0, v1, k1)"
      "bits_are v1 (unat (blks_per_grp disk)) (ext4_used disk k i)" "idle k k1"
    using read_bitmap_ok [OF Suc.prems(1-4), of i] by blast
  have "Suc i * unat (blks_per_grp disk) \<le> unat (num_grp_descs disk) * unat (blks_per_grp disk)" using i by (intro mult_le_mono1) simp
  then have room: "unat (first_data_block disk) + Suc i * unat (blks_per_grp disk) < 2 ^ 32"
    using Suc.prems(3) unfolding ext4_geom_def by linarith
  have "n + length ?gb \<le> length bl" using Suc.prems(7) by (simp add: ext4_free_Suc)
  from list_free_ok [OF rb(2) _ room this] obtain v2 bl2 where lf: "list_free disk (of_nat i) (unat (blks_per_grp disk)) 0 v1 bl n = Some (v2, bl2, n + length ?gb)"
      "bits_are v2 (unat (blks_per_grp disk)) (\<lambda>_. False)" "length bl2 = length bl" "take (n + length ?gb) bl2 = take n bl @ ?gb"
    by auto
  have "alloc_ok k1" "io_ok k1" using idleD(1,2) [OF rb(3)] Suc.prems(1,2) by simp_all
  with Suc.IH [of k1 v2 "Suc i" "n + length ?gb" bl2] lf(2,3) Suc.prems(3,5-7)
  obtain bl' k' where "scan_groups False disk m (Suc i) v2 bl2 (n + length ?gb) k1 = Some (0, bl', n + length ?gb + length (ext4_free disk k (Suc i) m), k')"
      "length bl' = length bl" "take (n + length ?gb + length (ext4_free disk k (Suc i) m)) bl' = take (n + length ?gb) bl2 @ ext4_free disk k (Suc i) m" "idle k1 k'"
    by (auto simp: ext4_free_Suc idleD(3) [OF rb(3)] ext4_free_idle [OF rb(3)])
  moreover have "idle k k'" using rb(3) \<open>idle k1 k'\<close> by (rule idle_trans)
  ultimately show ?case
    using i rb(1) lf(1,4) Suc.prems(5) by (intro exI [of _ bl'] exI [of _ k']) (simp add: ext4_free_Suc add.assoc)
qed

text \<open>What \<open>new_disk\<close> makes of the super block.\<close>

definition ext4_summary :: "ext4_superblock \<Rightarrow> ext4_disk" where
  "ext4_summary sb = \<lparr>first_data_block = s_first_data_block sb, block_count = ucast (s_blocks_count_lo sb),
     free_block_count = s_free_blocks_count_lo sb, reserved_gdt_blocks = s_reserved_gdt_blocks sb, blk_sz = 4096,
     cluster_size = push_bit (unat (10 + s_log_cluster_size sb)) 1,
     num_grp_descs = ucast (s_blocks_count_lo sb div s_blocks_per_group sb + (if s_free_blocks_count_lo sb mod s_blocks_per_group sb = 0 then 0 else 1)),
     grp_desc_sz = 32, blks_per_grp = s_blocks_per_group sb, is_sparse_super = (s_feature_ro_compat sb AND 1 \<noteq> 0), gd_arr = []\<rparr>"

lemma gd_arr_indep:
  "ext4_geom (disk\<lparr>gd_arr := arr\<rparr>) = ext4_geom disk" "ext4_free (disk\<lparr>gd_arr := arr\<rparr>) k i m = ext4_free disk k i m"
  by (simp_all add: ext4_geom_def ext4_free_def group_blocks_def ext4_used_def gdt_blocks_def)

lemma new_disk_ok:
  assumes "alloc_ok k" "s_log_blk_sz sb = 2" "10 + s_log_cluster_size sb < 31" "ext4_geom (ext4_summary sb)"
  shows "\<exists>arr k'. new_disk False sb k = Some (Some ((ext4_summary sb)\<lparr>gd_arr := arr\<rparr>), k') \<and>
    length arr = unat (num_grp_descs (ext4_summary sb)) \<and> idle k k'"
proof -
  define num where "num = num_grp_descs (ext4_summary sb)"
  have g: "0 < s_blocks_per_group sb" "0 < unat num" "unat num < 2 ^ 20"
    using assms(4) by (simp_all add: ext4_geom_def ext4_summary_def num_def word_less_nat_alt)
  obtain m0 k1 where m0: "vmalloc 88 k = (Some m0, k1)" "idle k k1" using vmalloc_idle [OF assms(1), of 88] by auto
  have "unat (num * 64) = 64 * unat num" using g(3) by (simp add: unat_word_ariths)
  then obtain m1 k2 where m1: "vmalloc (unat (num * 64)) k1 = (Some m1, k2)" "idle k1 k2"
    using vmalloc_idle [of k1 "unat (num * 64)"] idleD(2) [OF m0(2)] assms(1) g(2) by auto
  have idle2: "idle k k2" using m0(2) m1(2) by (rule idle_trans)
  obtain arr k3 where a: "new_gds False sb (unat num) k2 = Some (Some arr, k3)" "length arr = unat num" "idle k2 k3"
    using new_gds_ok [of k2] idleD(2) [OF idle2] assms(1) by blast
  have "new_group_desc_arr False sb num k1 = Some (Some arr, k3)" using m1(1) a(1) by (simp add: new_group_desc_arr_def)
  moreover have "shl1 (10 + s_log_blk_sz sb) = Some 4096"
    using assms(2) by (simp add: shl1_def)
  moreover have "shl1 (10 + s_log_cluster_size sb) = Some (push_bit (unat (10 + s_log_cluster_size sb)) 1)"
    using assms(3) by (simp add: shl1_def)
  moreover have "num = (if s_free_blocks_count_lo sb mod s_blocks_per_group sb = 0 then ucast (s_blocks_count_lo sb div s_blocks_per_group sb)
      else ucast (s_blocks_count_lo sb div s_blocks_per_group sb + 1))" by (simp add: num_def ext4_summary_def)
  ultimately have "new_disk False sb k = Some (Some ((ext4_summary sb)\<lparr>gd_arr := arr\<rparr>), k3)"
    using m0(1) g(1) by (auto simp: new_disk_def Let_def ext4_summary_def num_def EXT4_RO_COMPAT_SPARSE_SUPER_def)
  moreover have "idle k k3" using idle2 a(3) by (rule idle_trans)
  ultimately show ?thesis using a(2) by (auto simp: num_def)
qed

lemma bit_vector_create_ok:
  assumes "alloc_ok k" "unat (B :: u32) \<le> 32768"
  shows "\<exists>v k'. bit_vector_create (ucast B) k = (Some v, k') \<and> bits_are (Some v) (unat B) (\<lambda>_. False) \<and> idle k k'"
proof -
  obtain a k1 where a: "kmalloc 24 k = (Some a, k1)" "idle k k1" using kmalloc_alloc_ok [OF assms(1), of 24] by auto
  then obtain b k2 where b: "kmalloc (unat (BIT_VECTOR_BITS_TO_BYTES (ucast B))) k1 = (Some b, k2)" "idle k1 k2"
    using kmalloc_alloc_ok [of k1] idleD(2) [OF a(2)] assms(1) by auto
  then obtain v where v: "bit_vector_create (ucast B) k = (Some v, k2)" using a(1) by (simp add: bit_vector_create_def)
  then have f: "fst (bit_vector_create (ucast B) k) = Some v" by simp
  have B: "unat (ucast B :: u64) = unat B" by (simp add: unat_ucast_up)
  have "bits_are (Some v) (unat B) (\<lambda>_. False)"
    using bit_vector_create_result [OF f] bit_vector_create_empty [OF f] assms(2)
    by (auto simp: bits_are_def bv_ok_def bv_accepts_def word_le_nat_alt B unat_of_nat_64)
  moreover have "idle k k2" using a(2) b(2) by (rule idle_trans)
  ultimately show ?thesis using v by blast
qed

lemma read_bitmaps_ok:
  assumes "alloc_ok k" "io_ok k" "ext4_geom disk" "0 < free_block_count disk"
    and "gd_arr disk = map (\<lambda>g. dev_read k (4096 + 32 * g) 32) [0..<unat (num_grp_descs disk)]"
    and "length (ext4_free disk k 0 (unat (num_grp_descs disk))) \<le> unat (free_block_count disk)"
  shows "\<exists>status fs' k'. read_bitmaps False disk fs k = Some (status, fs', k') \<and>
    unat (list_len fs') = length (ext4_free disk k 0 (unat (num_grp_descs disk))) \<and>
    take (unat (list_len fs')) (block_list fs') = ext4_free disk k 0 (unat (num_grp_descs disk))"
proof -
  let ?L = "ext4_free disk k 0 (unat (num_grp_descs disk))" and ?F = "unat (free_block_count disk)"
  have B: "unat (blks_per_grp disk) \<le> 32768" using assms(3) by (simp add: ext4_geom_def word_le_nat_alt)
  obtain v k1 where v: "bit_vector_create (ucast (blks_per_grp disk)) k = (Some v, k1)"
      "bits_are (Some v) (unat (blks_per_grp disk)) (\<lambda>_. False)" "idle k k1" using bit_vector_create_ok [OF assms(1) B] by blast
  have ok1: "alloc_ok k1" using idleD(2) [OF v(3)] assms(1) by simp
  have F: "0 < ?F" using assms(4) by (simp add: word_less_nat_alt)
  obtain mem k2 where m: "vmalloc (4 * ?F) k1 = (Some mem, k2)" "idle k1 k2" using vmalloc_idle [OF ok1, of "4 * ?F"] F by auto
  have idle2: "idle k k2" using v(3) m(2) by (rule idle_trans)
  have ok2: "alloc_ok k2" "io_ok k2" using idleD(1,2) [OF idle2] assms(1,2) by simp_all
  have L: "ext4_free disk k2 0 (unat (num_grp_descs disk)) = ?L" using idle2 by (rule ext4_free_idle)
  from scan_groups_ok [OF ok2 assms(3) v(2), of 0 "unat (num_grp_descs disk)" 0 "u32s ?F mem"] assms(5,6)
  obtain bl k3 where s: "scan_groups False disk (unat (num_grp_descs disk)) 0 (Some v) (u32s ?F mem) 0 k2 = Some (0, bl, length ?L, k3)"
      "take (length ?L) bl = ?L" "idle k2 k3"
    by (auto simp: L idleD(3) [OF idle2])
  have "alloc_ok k3" using idleD(2) [OF s(3)] ok2 by simp
  have n: "unat (of_nat (length ?L) :: u32) = length ?L"
    using assms(6) unsigned_less [of "free_block_count disk", where ?'a = nat] by (simp add: unsigned_of_nat take_bit_nat_eq_self)
  show ?thesis
  proof (cases "?L = []")
    case True
    then show ?thesis using v(1) m(1) s(1) by (cases "vmalloc 0 k3"; cases "fst (vmalloc 0 k3)") (simp_all add: read_bitmaps_def Let_def)
  next
    case False
    then obtain m2 k4 where "vmalloc (4 * length ?L) k3 = (Some m2, k4)" using vmalloc_idle [OF \<open>alloc_ok k3\<close>, of "4 * length ?L"] by auto
    then show ?thesis using v(1) m(1) s(1,2) n by (simp add: read_bitmaps_def)
  qed
qed

lemma read_superblock_ok:
  assumes "length mem = 1024" "2048 \<le> length data" "s_magic (superblock_of (sub data 1024 1024)) = 0xEF53"
    and "s_feature_incompat (superblock_of (sub data 1024 1024)) AND 0x80 = 0"
  shows "read_superblock mem data False = Some (0, superblock_of (sub data 1024 1024), False)"
proof -
  have "length (sub data 1024 1024) = 1024" using assms(2) by simp
  then have "poke mem 0 (sub data 1024 1024) = Some (sub data 1024 1024)" using assms(1) by (simp add: poke_def blit_def)
  then show ?thesis using assms by (simp add: read_superblock_def peek_def EXT4_GROUP0_PAD_def EXT4_INCOMPAT_64BIT_def Let_def)
qed

text \<open>The number of groups is rounded up by the count of free blocks instead of the count of all blocks. So a volume of
  whole groups gets one group too many, and the last group of another may be lost. As the file system has it, the number
  of groups is that of the blocks, rounded up to whole groups.\<close>

definition ext4_groups :: "ext4_superblock \<Rightarrow> nat" where
  "ext4_groups sb = (unat (s_blocks_count_lo sb) - unat (s_first_data_block sb) + unat (s_blocks_per_group sb) - 1) div unat (s_blocks_per_group sb)"

definition ext4_volume :: "ext4_superblock \<Rightarrow> ext4_disk" where
  "ext4_volume sb = (ext4_summary sb)\<lparr>num_grp_descs := of_nat (ext4_groups sb)\<rparr>"

lemma ext4_groups_eq:
  assumes "s_first_data_block sb = 0" "s_blocks_per_group sb \<noteq> 0"
  shows "ext4_groups sb = unat (s_blocks_count_lo sb) div unat (s_blocks_per_group sb) +
    (if unat (s_blocks_per_group sb) dvd unat (s_blocks_count_lo sb) then 0 else 1)"
proof -
  let ?b = "unat (s_blocks_count_lo sb)" and ?p = "unat (s_blocks_per_group sb)"
  have p: "0 < ?p" using assms(2) by (simp add: unat_gt_0)
  have "?b + ?p - 1 = ?b div ?p * ?p + (?b mod ?p + ?p - 1)" using p div_mult_mod_eq [of ?b ?p] by linarith
  also have "\<dots> div ?p = ?b div ?p + (?b mod ?p + ?p - 1) div ?p" using p by (simp only: div_mult_self3 less_numeral_extra(3) neq0_conv)
  finally have "(?b + ?p - 1) div ?p = ?b div ?p + (?b mod ?p + ?p - 1) div ?p" .
  moreover have "(?b mod ?p + ?p - 1) div ?p = (if ?b mod ?p = 0 then 0 else 1)"
    using p mod_less_divisor [OF p, of ?b] by (auto intro!: div_nat_eqI)
  ultimately show ?thesis using assms(1) by (simp add: ext4_groups_def dvd_eq_mod_eq_0)
qed

lemma ext4_group_count:
  assumes "s_blocks_count_lo sb div s_blocks_per_group sb < 0xFFFFFFFF"
  shows "unat (num_grp_descs (ext4_summary sb)) = unat (s_blocks_count_lo sb) div unat (s_blocks_per_group sb) +
    (if unat (s_free_blocks_count_lo sb) mod unat (s_blocks_per_group sb) = 0 then 0 else 1)"
proof -
  let ?q = "s_blocks_count_lo sb div s_blocks_per_group sb" and ?r = "s_free_blocks_count_lo sb mod s_blocks_per_group sb"
  have "?r = 0 \<longleftrightarrow> unat (s_free_blocks_count_lo sb) mod unat (s_blocks_per_group sb) = 0"
    by (simp only: word_unat_eq_iff unat_mod_distrib unat_0)
  moreover have "unat ?q < 4294967295" using assms by (simp add: word_less_nat_alt)
  then have "unat (?q + 1) = unat ?q + 1" by (simp add: unat_word_ariths)
  ultimately show ?thesis by (simp add: ext4_summary_def unat_ucast_up unat_div_distrib)
qed

lemma ext4_summary_volume:
  assumes "s_first_data_block sb = 0" "ext4_geom (ext4_volume sb)"
    and "unat (s_blocks_per_group sb) dvd unat (s_blocks_count_lo sb) \<longleftrightarrow> unat (s_blocks_per_group sb) dvd unat (s_free_blocks_count_lo sb)"
  shows "ext4_summary sb = ext4_volume sb" "unat (num_grp_descs (ext4_volume sb)) = ext4_groups sb"
proof -
  let ?b = "unat (s_blocks_count_lo sb)" and ?p = "unat (s_blocks_per_group sb)"
  have p: "s_blocks_per_group sb \<noteq> 0" using assms(2) by (auto simp: ext4_geom_def ext4_volume_def ext4_summary_def)
  note g = ext4_groups_eq [OF assms(1) p]
  have "?b < 2 ^ 32" using unsigned_less [of "s_blocks_count_lo sb", where ?'a = nat] by simp
  then have "?b div ?p < 2 ^ 32" using div_le_dividend le_less_trans by blast
  then have "ext4_groups sb < 2 ^ 64" using g by simp
  then show u: "unat (num_grp_descs (ext4_volume sb)) = ext4_groups sb"
    by (simp add: ext4_volume_def unsigned_of_nat take_bit_nat_eq_self)
  then have small: "ext4_groups sb < 2 ^ 20" using assms(2) by (simp add: ext4_geom_def)
  then have "s_blocks_count_lo sb div s_blocks_per_group sb < 0xFFFFFFFF"
    using g by (simp add: word_less_nat_alt unat_div_distrib split: if_splits)
  then have "unat (num_grp_descs (ext4_summary sb)) = ext4_groups sb"
    using ext4_group_count g assms(3) by (simp add: dvd_eq_mod_eq_0)
  then have "num_grp_descs (ext4_summary sb) = num_grp_descs (ext4_volume sb)" using u by (simp only: word_unat_eq_iff)
  then show "ext4_summary sb = ext4_volume sb" by (simp add: ext4_volume_def)
qed

text \<open>A small volume: two groups of 8 blocks; the bitmaps, at block 2 and at block 3, have blocks 0 to 4 and 6 of the first and blocks 0 and 1 of
  the second group in use.\<close>

definition ext4_byte :: "nat \<Rightarrow> u8" where
  "ext4_byte a = (if a = 1028 then 16 else if a = 1036 then 8 else if a = 1048 then 2 else if a = 1052 then 2 else if a = 1056 then 8
     else if a = 1080 then 0x53 else if a = 1081 then 0xEF else if a = 4096 then 2 else if a = 4128 then 3
     else if a = 8192 then 0x5F else if a = 12288 then 3 else 0)"

definition ext4_kernel :: kernel where "ext4_kernel = demo_kernel\<lparr>k_dev := ext4_byte\<rparr>"

definition ext4_data :: bytes where "ext4_data = map ext4_byte [0..<4096]"

definition ext4_fs :: afs_passive_fs where
  "ext4_fs = \<lparr>block_list = [], list_len = 0, sectors_per_block = 0, total_blocks = 0, data_start_off = 0, blocks_in_tuple = 0\<rparr>"

definition ext4_sb :: ext4_superblock where
  "ext4_sb = \<lparr>s_blocks_count_lo = 16, s_free_blocks_count_lo = 8, s_first_data_block = 0, s_log_blk_sz = 2, s_log_cluster_size = 2,
     s_blocks_per_group = 8, s_magic = 0xEF53, s_feature_incompat = 0, s_feature_ro_compat = 0, s_reserved_gdt_blocks = 0, s_desc_size = 0\<rparr>"

lemma ext4_demo_sub: "off + n \<le> 1024 \<Longrightarrow> sub (sub ext4_data 1024 1024) off n = map ext4_byte [1024 + off..<1024 + off + n]"
  by (intro nth_equalityI) (simp_all add: ext4_data_def add.assoc)

lemma ext4_demo_sb: "superblock_of (sub ext4_data 1024 1024) = ext4_sb"
  by (simp add: superblock_of_def ext4_sb_def ext4_demo_sub upt_rec ext4_byte_def)

lemma ext4_demo_geom: "ext4_geom (ext4_summary ext4_sb)" "num_grp_descs (ext4_summary ext4_sb) = 2"
  by (simp_all add: ext4_geom_def ext4_summary_def ext4_sb_def)

lemma ext4_demo_volume: "ext4_groups ext4_sb = 2" "ext4_volume ext4_sb = ext4_summary ext4_sb"
  by (simp_all add: ext4_volume_def ext4_groups_def) (simp_all add: ext4_summary_def ext4_sb_def)

lemma ext4_demo_bitmap: "bitmap_addr ext4_kernel 0 = 8192" "bitmap_addr ext4_kernel 1 = 12288"
  by (simp_all add: bitmap_addr_def dev_read_def ext4_kernel_def upt_rec ext4_byte_def)

lemma ext4_demo_used:
  "j < 8 \<Longrightarrow> ext4_used (ext4_summary ext4_sb) ext4_kernel 0 j \<longleftrightarrow> bit (0x5F :: u8) j"
  "j < 8 \<Longrightarrow> ext4_used (ext4_summary ext4_sb) ext4_kernel 1 j \<longleftrightarrow> bit (3 :: u8) j"
proof -
  have "k_dev ext4_kernel 8192 = 0x5F" "k_dev ext4_kernel 12288 = 3" "\<not> is_sparse_super (ext4_summary ext4_sb)"
    by (simp_all add: ext4_kernel_def ext4_byte_def ext4_summary_def ext4_sb_def)
  then show "j < 8 \<Longrightarrow> ext4_used (ext4_summary ext4_sb) ext4_kernel 0 j \<longleftrightarrow> bit (0x5F :: u8) j"
    "j < 8 \<Longrightarrow> ext4_used (ext4_summary ext4_sb) ext4_kernel 1 j \<longleftrightarrow> bit (3 :: u8) j"
    by (simp_all add: ext4_used_def ext4_demo_bitmap del: One_nat_def)
qed

lemma ext4_demo_free: "ext4_free (ext4_summary ext4_sb) ext4_kernel 0 2 = [5, 7, 10, 11, 12, 13, 14, 15]"
proof -
  have f: "first_data_block (ext4_summary ext4_sb) = 0" "blks_per_grp (ext4_summary ext4_sb) = 8" by (simp_all add: ext4_summary_def ext4_sb_def)
  have "filter (\<lambda>j. \<not> ext4_used (ext4_summary ext4_sb) ext4_kernel 0 j) [0..<8] = filter (\<lambda>j. \<not> bit (0x5F :: u8) j) [0..<8]"
    "filter (\<lambda>j. \<not> ext4_used (ext4_summary ext4_sb) ext4_kernel 1 j) [0..<8] = filter (\<lambda>j. \<not> bit (3 :: u8) j) [0..<8]"
    by (intro filter_cong; simp add: ext4_demo_used del: One_nat_def)+
  moreover have "filter (\<lambda>j. \<not> bit (0x5F :: u8) j) [0..<8] = [5, 7]"
    "filter (\<lambda>j. \<not> bit (3 :: u8) j) [0..<8] = [2, 3, 4, 5, 6, 7]" by code_simp+
  moreover have "[0..<0 + 2] = [0, 1 :: nat]" by (simp add: upt_rec)
  ultimately show ?thesis unfolding ext4_free_def by (simp add: group_blocks_def f)
qed

section \<open>Properties\<close>



text \<open>C33: The number of groups is wrong when the free blocks and all blocks disagree about whole groups: a volume of whole groups whose free blocks are
  not a multiple of the group size gets a group behind its end, and a volume with a last group that is not full, whose free
  blocks are such a multiple, loses that group.\<close>

theorem ext4_group_count_wrong:
  assumes "new_disk is_64bit sb k = Some (Some disk, k')" "s_first_data_block sb = 0"
    "s_blocks_count_lo sb div s_blocks_per_group sb < 0xFFFFFFFF"
  shows "(unat (s_blocks_per_group sb) dvd unat (s_blocks_count_lo sb) \<and> \<not> unat (s_blocks_per_group sb) dvd unat (s_free_blocks_count_lo sb) \<longrightarrow>
      unat (num_grp_descs disk) = ext4_groups sb + 1) \<and>
    (\<not> unat (s_blocks_per_group sb) dvd unat (s_blocks_count_lo sb) \<and> unat (s_blocks_per_group sb) dvd unat (s_free_blocks_count_lo sb) \<longrightarrow>
      unat (num_grp_descs disk) + 1 = ext4_groups sb)"
proof -
  have d: "s_blocks_per_group sb \<noteq> 0" "num_grp_descs disk = num_grp_descs (ext4_summary sb)"
    using assms(1) by (auto simp: new_disk_def Let_def ext4_summary_def split: prod.splits option.splits bind_splits if_splits)
  then show ?thesis
    using ext4_group_count [OF assms(3)] ext4_groups_eq [OF assms(2) d(1)] by (auto simp: dvd_eq_mod_eq_0)
qed

theorem ext4_group_count_wrong_witness:
  "\<exists>disk k'. new_disk False (ext4_sb\<lparr>s_free_blocks_count_lo := 7\<rparr>) demo_kernel = Some (Some disk, k') \<and>
     unat (num_grp_descs disk) = ext4_groups (ext4_sb\<lparr>s_free_blocks_count_lo := 7\<rparr>) + 1"
proof -
  let ?sb = "ext4_sb\<lparr>s_free_blocks_count_lo := 7\<rparr>"
  have "alloc_ok demo_kernel" by (simp add: demo_kernel_def alloc_ok_def)
  moreover have "ext4_geom (ext4_summary ?sb)" "s_log_blk_sz ?sb = 2" "10 + s_log_cluster_size ?sb < 31"
    by (simp_all add: ext4_geom_def ext4_summary_def ext4_sb_def)
  ultimately obtain disk k' where d: "new_disk False ?sb demo_kernel = Some (Some disk, k')" using new_disk_ok by blast
  have "unat (s_blocks_per_group ?sb) dvd unat (s_blocks_count_lo ?sb) \<and> \<not> unat (s_blocks_per_group ?sb) dvd unat (s_free_blocks_count_lo ?sb)"
    "s_first_data_block ?sb = 0" "s_blocks_count_lo ?sb div s_blocks_per_group ?sb < 0xFFFFFFFF"
    by (simp_all add: ext4_sb_def)
  then show ?thesis using ext4_group_count_wrong [OF d] d by blast
qed

end
