(* ===== verification/Afs_Ntfs.thy ===== *)
theory Afs_Ntfs
  imports Afs_Passive
begin

text \<open>
  Detection of an NTFS passive file system, \<open>src/src/modules/dm_afs_ntfs.c\<close>, and the stub
  \<open>src/src/modules/dm_afs_shadow.c\<close>: the boot sector, the twelve metafile records, the file with the bitmap of the
  clusters, and the list of free blocks. A result \<open>None\<close> is a fault (a null pointer, an access outside a buffer, a
  division by zero, an undefined shift) or a loop that does not end. \<open>vmalloc\<close> hands out whole pages, which the
  reads of whole clusters rely on.
\<close>

section \<open>Structures\<close>

record ntfs_boot_sector =
  nt_oem_id :: bytes
  nt_bytes_per_sector :: u16
  nt_sectors_per_cluster :: u8
  nt_table_count :: u8
  nt_root_entry_count :: u16
  nt_bpb_sector_count :: u16
  nt_sectors_per_table :: u16
  nt_sector_count_64 :: u64
  nt_master_file_table_cluster :: u64
  nt_master_file_table_mirror_cluster :: u64
  nt_clusters_per_record :: u8

definition ntfs_boot_sector_of :: "bytes \<Rightarrow> ntfs_boot_sector" where
  "ntfs_boot_sector_of d = \<lparr>nt_oem_id = sub d 3 8, nt_bytes_per_sector = le_word (sub d 11 2), nt_sectors_per_cluster = d ! 13,
     nt_table_count = d ! 16, nt_root_entry_count = le_word (sub d 17 2), nt_bpb_sector_count = le_word (sub d 19 2),
     nt_sectors_per_table = le_word (sub d 22 2), nt_sector_count_64 = le_word (sub d 40 8),
     nt_master_file_table_cluster = le_word (sub d 48 8), nt_master_file_table_mirror_cluster = le_word (sub d 56 8),
     nt_clusters_per_record = d ! 64\<rparr>"

text \<open>A metafile is the offset of its record in the buffer of records, \<open>None\<close> as long as it is not set.\<close>

record ntfs_volume =
  nv_bytes_per_sector :: u16
  nv_sector_count :: u64
  nv_cluster_count :: u64
  nv_sectors_per_cluster :: u8
  nv_bytes_per_cluster :: u64
  nv_mft_cluster :: u64
  nv_mft_mirror_cluster :: u64
  nv_mft_record_size :: u32
  nv_afs_blocks_per_cluster :: u8
  nv_mft_records_per_cluster :: u8
  nv_num_afs_blocks :: u32
  nv_afs_sectors_per_cluster :: u8
  nv_empty_blocks :: "u32 list"
  nv_num_empty_afs_blocks :: u32
  nv_data_start_off :: u64
  nv_metafiles :: "nat option list"

text \<open>The fields of a record and of an attribute that are read, by their offsets.\<close>

definition mft_offset_to_first_attribute :: "bytes \<Rightarrow> nat \<Rightarrow> u16 option" where
  "mft_offset_to_first_attribute rs a = do { b \<leftarrow> peek rs (a + 20) 2; Some (le_word b) }"

definition mft_allocated_size_of_record :: "bytes \<Rightarrow> nat \<Rightarrow> u32 option" where
  "mft_allocated_size_of_record rs a = do { b \<leftarrow> peek rs (a + 28) 4; Some (le_word b) }"

definition attr_type_id :: "bytes \<Rightarrow> nat \<Rightarrow> u32 option" where
  "attr_type_id rs a = do { b \<leftarrow> peek rs a 4; Some (le_word b) }"

definition attr_length :: "bytes \<Rightarrow> nat \<Rightarrow> u32 option" where
  "attr_length rs a = do { b \<leftarrow> peek rs (a + 4) 4; Some (le_word b) }"

definition attr_nonresident_flag :: "bytes \<Rightarrow> nat \<Rightarrow> u8 option" where
  "attr_nonresident_flag rs a = do { b \<leftarrow> peek rs (a + 8) 1; Some (le_word b) }"

definition attr_start_vcn_runlist :: "bytes \<Rightarrow> nat \<Rightarrow> u64 option" where
  "attr_start_vcn_runlist rs a = do { b \<leftarrow> peek rs (a + 16) 8; Some (le_word b) }"

definition attr_offset_to_runlist :: "bytes \<Rightarrow> nat \<Rightarrow> u16 option" where
  "attr_offset_to_runlist rs a = do { b \<leftarrow> peek rs (a + 32) 2; Some (le_word b) }"

definition attr_content_actual_size :: "bytes \<Rightarrow> nat \<Rightarrow> u64 option" where
  "attr_content_actual_size rs a = do { b \<leftarrow> peek rs (a + 48) 8; Some (le_word b) }"

definition metafile_bitmap :: nat where "metafile_bitmap = 6"
definition ATTR_DATA :: u32 where "ATTR_DATA = 0x80"
definition ATTRS_DONE :: u32 where "ATTRS_DONE = 0xFFFFFFFF"
definition ntfs_magic :: bytes where "ntfs_magic = [78, 84, 70, 83, 32, 32, 32, 32]"

section \<open>Operations\<close>

definition is_ntfs_magic_value :: "bytes \<Rightarrow> bool" where
  "is_ntfs_magic_value oem_name \<longleftrightarrow> take 8 oem_name = ntfs_magic"

definition ntfs_read_boot_sector :: "ntfs_volume \<Rightarrow> bytes \<Rightarrow> (int \<times> ntfs_volume) option" where
  "ntfs_read_boot_sector vol data =
     (let boot_sector = ntfs_boot_sector_of data; oem_name = blit (replicate 9 0) 0 (nt_oem_id boot_sector) in
      if \<not> is_ntfs_magic_value oem_name then Some (1, vol)
      else if nt_table_count boot_sector \<noteq> 0 then Some (1, vol)
      else if nt_root_entry_count boot_sector \<noteq> 0 then Some (1, vol)
      else if nt_bpb_sector_count boot_sector \<noteq> 0 then Some (1, vol)
      else if nt_sectors_per_table boot_sector \<noteq> 0 then Some (1, vol)
      else
        (let vol = vol\<lparr>nv_sector_count := nt_sector_count_64 boot_sector, nv_bytes_per_sector := nt_bytes_per_sector boot_sector,
               nv_sectors_per_cluster := nt_sectors_per_cluster boot_sector\<rparr>;
             vol = vol\<lparr>nv_bytes_per_cluster := ucast (nv_bytes_per_sector vol) * ucast (nv_sectors_per_cluster vol),
               nv_mft_cluster := nt_master_file_table_cluster boot_sector,
               nv_mft_mirror_cluster := nt_master_file_table_mirror_cluster boot_sector\<rparr> in
         if nv_sectors_per_cluster vol = 0 then None
         else
           (let vol = vol\<lparr>nv_cluster_count := nv_sector_count vol div ucast (nv_sectors_per_cluster vol)\<rparr>;
                vol = (if nt_clusters_per_record boot_sector > 0
                  then vol\<lparr>nv_mft_record_size := ucast (nv_bytes_per_cluster vol * ucast (nt_clusters_per_record boot_sector))\<rparr>
                  else vol\<lparr>nv_mft_record_size := 1\<rparr>) in
            if nv_bytes_per_cluster vol mod 4096 \<noteq> 0 then Some (1, vol)
            else if nv_mft_record_size vol = 0 then None
            else
              (let vol = vol\<lparr>nv_afs_sectors_per_cluster := ucast (nv_bytes_per_cluster vol div 512),
                    nv_afs_blocks_per_cluster := ucast (nv_bytes_per_cluster vol div 4096),
                    nv_mft_records_per_cluster := ucast (nv_bytes_per_cluster vol div ucast (nv_mft_record_size vol))\<rparr>
               in Some (0, vol\<lparr>nv_num_afs_blocks := ucast (nv_cluster_count vol * ucast (nv_afs_blocks_per_cluster vol))\<rparr>)))))"

text \<open>The offset into the page and the number of the block both advance by 4096, so the loop is left after its first round.\<close>

fun cluster_loop :: "nat \<Rightarrow> nat \<Rightarrow> bytes \<Rightarrow> nat \<Rightarrow> u32 \<Rightarrow> bool \<Rightarrow> kernel \<Rightarrow> (int \<times> bytes \<times> kernel) option" where
  "cluster_loop 0 block_offset buf off block_num used_vmalloc k = Some (0, buf, k)"
| "cluster_loop (Suc n) block_offset buf off block_num used_vmalloc k = do {
     page \<leftarrow> peek buf (off + block_offset) 4096;
     (ret, page, k) \<leftarrow> read_page ((off + block_offset) mod 4096 = 0) page (block_num + of_nat block_offset) 0 used_vmalloc k;
     buf \<leftarrow> poke buf (off + block_offset) page;
     if ret \<noteq> 0 then Some (ret, buf, k)
     else cluster_loop n (block_offset + 4096) buf off block_num used_vmalloc k }"

definition read_ntfs_cluster :: "bytes \<Rightarrow> nat \<Rightarrow> ntfs_volume \<Rightarrow> u64 \<Rightarrow> bool \<Rightarrow> kernel \<Rightarrow> (int \<times> bytes \<times> kernel) option" where
  "read_ntfs_cluster buf off vol cluster_number used_vmalloc k =
     cluster_loop ((unat (nv_afs_blocks_per_cluster vol) + 4095) div 4096) 0 buf off
       (ucast (cluster_number * ucast (nv_afs_blocks_per_cluster vol))) used_vmalloc k"

definition read_mft_records :: "bytes \<Rightarrow> nat \<Rightarrow> ntfs_volume \<Rightarrow> u32 \<Rightarrow> bool \<Rightarrow> kernel \<Rightarrow> (int \<times> bytes \<times> kernel) option" where
  "read_mft_records records off vol number used_vmalloc k =
     (let n = ucast (nv_mft_records_per_cluster vol) in
      if n = 0 then None
      else if number mod n \<noteq> 0 then Some (1, records, k)
      else read_ntfs_cluster records off vol (nv_mft_cluster vol + ucast (number div n)) used_vmalloc k)"

text \<open>The clusters of one run; the flag says that the reading is to stop.\<close>

fun read_run :: "nat \<Rightarrow> u64 \<Rightarrow> ntfs_volume \<Rightarrow> bytes \<Rightarrow> nat \<Rightarrow> nat \<Rightarrow> u64 \<Rightarrow> kernel \<Rightarrow> (bool \<times> bytes \<times> nat \<times> kernel) option" where
  "read_run 0 cluster vol mem off amt_written amt_to_read k = Some (False, mem, amt_written, k)"
| "read_run (Suc n) cluster vol mem off amt_written amt_to_read k = do {
     (ret, mem, k) \<leftarrow> read_ntfs_cluster mem (off + amt_written) vol cluster True k;
     let amt_written = amt_written + unat (nv_bytes_per_cluster vol);
     if unat amt_to_read \<le> amt_written then Some (True, mem, amt_written, k)
     else read_run n (cluster + 1) vol mem off amt_written amt_to_read k }"

text \<open>A run starts with an octet whose halves are the sizes of its two fields. A field of eight bytes or more needs a shift by
  64 or more, which is undefined.\<close>

definition run_field :: "bytes \<Rightarrow> nat \<Rightarrow> nat \<Rightarrow> u64 option" where
  "run_field rs a n = (if 8 \<le> n then None else do { b \<leftarrow> peek rs a 8; Some (le_word b AND mask (8 * n)) })"

partial_function (option) read_runs ::
  "ntfs_volume \<Rightarrow> bytes \<Rightarrow> nat \<Rightarrow> bytes \<Rightarrow> nat \<Rightarrow> nat \<Rightarrow> u64 \<Rightarrow> kernel \<Rightarrow> (bytes \<times> nat \<times> kernel) option" where
  "read_runs vol rs i mem off amt_written amt_to_read k = do {
     b \<leftarrow> peek rs i 1;
     let field_sizes = (le_word b :: u8);
     if field_sizes = 0 then Some (mem, amt_written, k)
     else do {
       let offset_size_bytes = unat (drop_bit 4 field_sizes AND 0xF);
       let length_size_bytes = unat (field_sizes AND 0xF);
       len \<leftarrow> run_field rs (i + 1) length_size_bytes;
       offset \<leftarrow> run_field rs (i + 1 + length_size_bytes) offset_size_bytes;
       (stop, mem, amt_written, k) \<leftarrow> read_run (unat len) offset vol mem off amt_written amt_to_read k;
       if stop then Some (mem, amt_written, k)
       else read_runs vol rs (i + 1 + length_size_bytes + offset_size_bytes) mem off amt_written amt_to_read k } }"

definition read_nonresident_data ::
  "ntfs_volume \<Rightarrow> bytes \<Rightarrow> nat \<Rightarrow> bytes \<Rightarrow> nat \<Rightarrow> u64 \<Rightarrow> kernel \<Rightarrow> (nat \<times> bytes \<times> kernel) option" where
  "read_nonresident_data vol mem off rs attr max_n k = do {
     actual \<leftarrow> attr_content_actual_size rs attr;
     let amt_to_read = (if max_n < actual then max_n else actual);
     runlist \<leftarrow> attr_offset_to_runlist rs attr;
     _ \<leftarrow> peek rs (attr + unat runlist) 1;
     start \<leftarrow> attr_start_vcn_runlist rs attr;
     if start \<noteq> 0 then Some (0, mem, k)
     else do {
       (mem, amt_written, k) \<leftarrow> read_runs vol rs (attr + unat runlist) mem off 0 amt_to_read k;
       Some (amt_written, mem, k) } }"

text \<open>\<open>record_offset\<close> is compared as an unsigned number of 32 bits, and the length of an attribute, which is added to it, may
  make it wrap, so that the loop need not end.\<close>

partial_function (option) read_attrs ::
  "ntfs_volume \<Rightarrow> bytes \<Rightarrow> nat \<Rightarrow> nat \<Rightarrow> bytes \<Rightarrow> nat \<Rightarrow> u32 \<Rightarrow> kernel \<Rightarrow> (nat \<times> bytes \<times> kernel) option" where
  "read_attrs vol mem max_bytes header rs buffer_offset record_offset k =
     (if \<not> record_offset < nv_mft_record_size vol then Some (buffer_offset, mem, k)
      else do {
        let a = header + unat record_offset;
        type_id \<leftarrow> attr_type_id rs a;
        (stop, buffer_offset, mem, k) \<leftarrow>
          (if type_id = ATTR_DATA then do {
             flag \<leftarrow> attr_nonresident_flag rs a;
             if flag = 0 then do {
               len \<leftarrow> attr_length rs a;
               let rest = int max_bytes - int buffer_offset;
               let amount = (if rest < int (unat len) then rest else int (unat len));
               if amount < 0 then Some (True, buffer_offset, mem, k)
               else do {
                 src \<leftarrow> peek rs (a + 14) (nat amount);
                 mem \<leftarrow> poke mem buffer_offset src;
                 Some (False, buffer_offset + nat amount, mem, k) } }
             else do {
               (n, mem, k) \<leftarrow> read_nonresident_data vol mem buffer_offset rs a (of_int (int max_bytes - int buffer_offset)) k;
               Some (False, buffer_offset + n, mem, k) } }
           else Some (type_id = ATTRS_DONE, buffer_offset, mem, k));
        if stop then Some (buffer_offset, mem, k)
        else do {
          len \<leftarrow> attr_length rs a;
          if len = 0 then Some (buffer_offset, mem, k)
          else read_attrs vol mem max_bytes header rs buffer_offset (record_offset + len) k } })"

definition ntfs_read_file :: "ntfs_volume \<Rightarrow> bytes \<Rightarrow> nat \<Rightarrow> nat \<Rightarrow> bytes \<Rightarrow> kernel \<Rightarrow> (nat \<times> bytes \<times> kernel) option" where
  "ntfs_read_file vol mem max_bytes header rs k = do {
     first \<leftarrow> mft_offset_to_first_attribute rs header;
     read_attrs vol mem max_bytes header rs 0 (ucast first) k }"

text \<open>The number of bits set in a byte.\<close>

definition hweight8 :: "u8 \<Rightarrow> nat" where
  "hweight8 b = length (filter (bit b) [0..<8])"

definition unused_clusters :: "bytes \<Rightarrow> nat" where
  "unused_clusters bitmap = sum_list (map (\<lambda>b. 8 - hweight8 b) bitmap)"

text \<open>The three loops that fill the list. The flag is false when the list would be overrun.\<close>

fun put_blocks :: "nat \<Rightarrow> nat \<Rightarrow> nat \<Rightarrow> nat \<Rightarrow> u32 list \<Rightarrow> nat \<Rightarrow> bool \<times> u32 list \<times> nat" where
  "put_blocks 0 block_num cluster per el idx = (True, el, idx)"
| "put_blocks (Suc n) block_num cluster per el idx =
     (if length el \<le> idx then (False, el, idx)
      else put_blocks n (Suc block_num) cluster per (el[idx := of_nat (cluster * per + block_num)]) (Suc idx))"

fun put_bits :: "nat \<Rightarrow> nat \<Rightarrow> u8 \<Rightarrow> nat \<Rightarrow> nat \<Rightarrow> u32 list \<Rightarrow> nat \<Rightarrow> bool \<times> u32 list \<times> nat" where
  "put_bits 0 bpos b i per el idx = (True, el, idx)"
| "put_bits (Suc n) bpos b i per el idx =
     (if bit b bpos then put_bits n (Suc bpos) b i per el idx
      else (case put_blocks per 0 (i * 8 + bpos) per el idx of
          (False, el, idx) \<Rightarrow> (False, el, idx)
        | (True, el, idx) \<Rightarrow> put_bits n (Suc bpos) b i per el idx))"

fun put_bytes :: "bytes \<Rightarrow> nat \<Rightarrow> nat \<Rightarrow> u32 list \<Rightarrow> nat \<Rightarrow> bool \<times> u32 list \<times> nat" where
  "put_bytes [] i per el idx = (True, el, idx)"
| "put_bytes (b # bs) i per el idx =
     (case put_bits 8 0 b i per el idx of
          (False, el, idx) \<Rightarrow> (False, el, idx)
        | (True, el, idx) \<Rightarrow> put_bytes bs (Suc i) per el idx)"

definition round_pages :: "nat \<Rightarrow> nat" where
  "round_pages n = (n + 4095) div 4096 * 4096"

text \<open>The number of empty blocks that is reported is the number of unused clusters.\<close>

definition extract_bitmap :: "ntfs_volume \<Rightarrow> bytes \<Rightarrow> kernel \<Rightarrow> (int \<times> ntfs_volume \<times> kernel) option" where
  "extract_bitmap vol records k =
     (let max_n = unat (nv_cluster_count vol div 8) in
      case vmalloc (round_pages max_n) k of (bitmap, k) \<Rightarrow> do {
        let vol = vol\<lparr>nv_data_start_off := 0\<rparr>;
        header \<leftarrow> nv_metafiles vol ! metafile_bitmap;
        (n, bitmap, k) \<leftarrow> ntfs_read_file vol (case bitmap of None \<Rightarrow> [] | Some b \<Rightarrow> b) max_n header records k;
        if n = 0 then Some (1, vol, k)
        else if length bitmap < n then None
        else do {
          let total_unused_clusters = unused_clusters (take n bitmap);
          let per = unat (nv_afs_blocks_per_cluster vol);
          (case vmalloc (4 * total_unused_clusters * per) k of
             (None, k) \<Rightarrow> Some (1, vol, k)
           | (Some mem, k) \<Rightarrow>
               (case put_bytes (take n bitmap) 0 per (u32s (total_unused_clusters * per) mem) 0 of
                  (False, _) \<Rightarrow> Some (1, vol, k)
                | (True, empty_blocks, _) \<Rightarrow>
                    Some (0, vol\<lparr>nv_empty_blocks := empty_blocks, nv_num_empty_afs_blocks := of_nat total_unused_clusters\<rparr>, k))) } })"

fun set_metafiles :: "nat \<Rightarrow> nat \<Rightarrow> nat \<Rightarrow> nat \<Rightarrow> nat \<Rightarrow> nat option list \<Rightarrow> nat option list option" where
  "set_metafiles 0 i mft_number record_cluster size_of metafiles = Some metafiles"
| "set_metafiles (Suc n) i mft_number record_cluster size_of metafiles =
     (if mft_number + i < length metafiles
      then set_metafiles n (Suc i) mft_number record_cluster size_of (metafiles[mft_number + i := Some (record_cluster + i * size_of)])
      else None)"

text \<open>\<open>mft_number\<close> runs from 0 to 11 in steps of \<open>mft_records_per_cluster\<close>, which is not 0 when a record was read.\<close>

partial_function (option) read_metafiles :: "nat \<Rightarrow> ntfs_volume \<Rightarrow> bytes \<Rightarrow> kernel \<Rightarrow> (ntfs_volume \<times> bytes \<times> kernel) option" where
  "read_metafiles mft_number vol records k =
     (if \<not> mft_number < 12 then Some (vol, records, k)
      else do {
        let record_cluster = mft_number * unat (nv_mft_record_size vol);
        (ret, records, k) \<leftarrow> read_mft_records records record_cluster vol (of_nat mft_number) True k;
        metafiles \<leftarrow> set_metafiles (unat (nv_mft_records_per_cluster vol)) 0 mft_number record_cluster
          (unat (nv_mft_record_size vol)) (nv_metafiles vol);
        read_metafiles (mft_number + unat (nv_mft_records_per_cluster vol)) (vol\<lparr>nv_metafiles := metafiles\<rparr>) records k })"

definition ntfs_map :: "ntfs_volume \<Rightarrow> kernel \<Rightarrow> (int \<times> ntfs_volume \<times> kernel) option" where
  "ntfs_map vol k = (case vmalloc (round_pages (unat (12 * nv_mft_record_size vol))) k of (records, k) \<Rightarrow> do {
     (vol, records, k) \<leftarrow> read_metafiles 0 vol (case records of None \<Rightarrow> [] | Some r \<Rightarrow> r) k;
     mft \<leftarrow> nv_metafiles vol ! 0;
     alloc_size \<leftarrow> mft_allocated_size_of_record records mft;
     if alloc_size \<noteq> nv_mft_record_size vol then Some (1, vol, k)
     else do {
       (ret, vol, k) \<leftarrow> extract_bitmap vol records k;
       Some (if ret \<noteq> 0 then 1 else 0, vol, k) } })"

text \<open>The volume is a variable of the function; nothing of it is read before it is set.\<close>

definition ntfs_volume0 :: ntfs_volume where
  "ntfs_volume0 = \<lparr>nv_bytes_per_sector = 0, nv_sector_count = 0, nv_cluster_count = 0, nv_sectors_per_cluster = 0, nv_bytes_per_cluster = 0,
     nv_mft_cluster = 0, nv_mft_mirror_cluster = 0, nv_mft_record_size = 0, nv_afs_blocks_per_cluster = 0, nv_mft_records_per_cluster = 0,
     nv_num_afs_blocks = 0, nv_afs_sectors_per_cluster = 0, nv_empty_blocks = [], nv_num_empty_afs_blocks = 0, nv_data_start_off = 0,
     nv_metafiles = replicate 12 None\<rparr>"

definition afs_ntfs_detect :: "bytes \<Rightarrow> afs_passive_fs \<Rightarrow> kernel \<Rightarrow> (bool \<times> afs_passive_fs \<times> kernel) option" where
  "afs_ntfs_detect data fs k = do {
     (ret, vol) \<leftarrow> ntfs_read_boot_sector ntfs_volume0 data;
     if ret \<noteq> 0 then Some (False, fs, k)
     else do {
       (ret, vol, k) \<leftarrow> ntfs_map vol k;
       if ret \<noteq> 0 then Some (False, fs, k)
       else Some (True, fs\<lparr>total_blocks := nv_num_afs_blocks vol, sectors_per_block := ucast (AFS_BLOCK_SIZE div AFS_SECTOR_SIZE),
         block_list := nv_empty_blocks vol, list_len := nv_num_empty_afs_blocks vol, data_start_off := ucast (nv_data_start_off vol)\<rparr>, k) } }"

definition afs_shadow_detect :: "bytes \<Rightarrow> afs_passive_fs \<Rightarrow> kernel \<Rightarrow> (bool \<times> afs_passive_fs \<times> kernel) option" where
  "afs_shadow_detect data fs k = Some (False, fs, k)"

section \<open>The list of free blocks\<close>

text \<open>Filling a list appends at an index and keeps the length.\<close>

definition appended :: "u32 list \<Rightarrow> nat \<Rightarrow> u32 list \<Rightarrow> bool \<times> u32 list \<times> nat \<Rightarrow> bool" where
  "appended el idx xs r \<longleftrightarrow> fst r \<and> snd (snd r) = idx + length xs \<and> length (fst (snd r)) = length el \<and>
     take (idx + length xs) (fst (snd r)) = take idx el @ xs"

lemma appended_Nil [simp]: "appended el idx [] (True, el, idx)"
  by (simp add: appended_def)

lemma appended_trans:
  "appended el idx xs (True, el', idx') \<Longrightarrow> appended el' idx' ys r \<Longrightarrow> appended el idx (xs @ ys) r"
  by (simp add: appended_def add.assoc)

lemma appended_put: "idx < length el \<Longrightarrow> appended el idx [x] (True, el[idx := x], Suc idx)"
  by (simp add: appended_def take_Suc_conv_app_nth)

definition cluster_blocks :: "nat \<Rightarrow> nat \<Rightarrow> u32 list" where
  "cluster_blocks per c = map (\<lambda>b. of_nat (c * per + b)) [0..<per]"

lemma length_cluster_blocks [simp]: "length (concat (map (cluster_blocks per) cs)) = per * length cs"
  by (induction cs) (simp_all add: cluster_blocks_def)

lemma put_blocks_appended:
  "idx + n \<le> length el \<Longrightarrow> appended el idx (map (\<lambda>b. of_nat (c * per + b)) [bn..<bn + n]) (put_blocks n bn c per el idx)"
proof (induction n arbitrary: bn el idx)
  case (Suc n)
  let ?x = "of_nat (c * per + bn) :: u32"
  have "appended el idx ([?x] @ map (\<lambda>b. of_nat (c * per + b)) [Suc bn..<Suc bn + n]) (put_blocks n (Suc bn) c per (el[idx := ?x]) (Suc idx))"
    using Suc.prems by (intro appended_trans [OF appended_put] Suc.IH) simp_all
  then show ?case using Suc.prems by (simp add: upt_conv_Cons del: upt_Suc)
qed simp

lemma put_cluster_appended: "idx + per \<le> length el \<Longrightarrow> appended el idx (cluster_blocks per c) (put_blocks per 0 c per el idx)"
  using put_blocks_appended [of idx per el c per 0] by (simp add: cluster_blocks_def)

definition byte_free :: "u8 \<Rightarrow> nat \<Rightarrow> nat \<Rightarrow> nat list" where
  "byte_free b i bpos = map (\<lambda>j. i * 8 + j) (filter (\<lambda>j. \<not> bit b j) [bpos..<8])"

lemma put_bits_appended:
  "bpos + n = 8 \<Longrightarrow> idx + per * length (byte_free b i bpos) \<le> length el \<Longrightarrow>
     appended el idx (concat (map (cluster_blocks per) (byte_free b i bpos))) (put_bits n bpos b i per el idx)"
proof (induction n arbitrary: bpos el idx)
  case 0
  then show ?case by (simp add: byte_free_def)
next
  case (Suc n)
  have up: "[bpos..<8] = bpos # [Suc bpos..<8]" using Suc.prems(1) by (intro upt_conv_Cons) simp
  show ?case
  proof (cases "bit b bpos")
    case True
    then have "byte_free b i bpos = byte_free b i (Suc bpos)" using up by (simp add: byte_free_def)
    then show ?thesis using Suc True by simp
  next
    case False
    then have bf: "byte_free b i bpos = (i * 8 + bpos) # byte_free b i (Suc bpos)" using up by (simp add: byte_free_def)
    then have room: "idx + per \<le> length el" using Suc.prems(2) by simp
    obtain el' idx' where p: "put_blocks per 0 (i * 8 + bpos) per el idx = (True, el', idx')"
      using put_cluster_appended [OF room, of "i * 8 + bpos"] by (cases "put_blocks per 0 (i * 8 + bpos) per el idx") (auto simp: appended_def)
    note a = put_cluster_appended [OF room, of "i * 8 + bpos", unfolded p]
    have "appended el' idx' (concat (map (cluster_blocks per) (byte_free b i (Suc bpos)))) (put_bits n (Suc bpos) b i per el' idx')"
      using Suc.prems bf a by (intro Suc.IH) (simp_all add: appended_def cluster_blocks_def)
    then have "appended el idx (cluster_blocks per (i * 8 + bpos) @ concat (map (cluster_blocks per) (byte_free b i (Suc bpos)))) (put_bits n (Suc bpos) b i per el' idx')"
      using a appended_trans by blast
    then show ?thesis using p False bf by simp
  qed
qed

fun free_from :: "bytes \<Rightarrow> nat \<Rightarrow> nat list" where
  "free_from [] i = []"
| "free_from (b # bs) i = byte_free b i 0 @ free_from bs (Suc i)"

lemma put_bytes_appended:
  "idx + per * length (free_from bs i) \<le> length el \<Longrightarrow>
     appended el idx (concat (map (cluster_blocks per) (free_from bs i))) (put_bytes bs i per el idx)"
proof (induction bs arbitrary: i el idx)
  case (Cons b bs)
  have room: "idx + per * length (byte_free b i 0) \<le> length el" using Cons.prems by (simp add: distrib_left)
  obtain el' idx' where p: "put_bits 8 0 b i per el idx = (True, el', idx')"
    using put_bits_appended [OF _ room, of 8] by (cases "put_bits 8 0 b i per el idx") (auto simp: appended_def)
  have a: "appended el idx (concat (map (cluster_blocks per) (byte_free b i 0))) (True, el', idx')"
    using put_bits_appended [OF _ room, of 8] p by simp
  have "appended el' idx' (concat (map (cluster_blocks per) (free_from bs (Suc i)))) (put_bytes bs (Suc i) per el' idx')"
    using Cons.prems a by (intro Cons.IH) (simp add: appended_def distrib_left)
  with a have "appended el idx (concat (map (cluster_blocks per) (byte_free b i 0)) @ concat (map (cluster_blocks per) (free_from bs (Suc i))))
      (put_bytes bs (Suc i) per el' idx')" by (rule appended_trans)
  then show ?case using p by simp
qed simp

text \<open>The clusters a bitmap leaves unused.\<close>

definition ntfs_free :: "bytes \<Rightarrow> nat list" where
  "ntfs_free bs = filter (\<lambda>c. \<not> bit (bs ! (c div 8)) (c mod 8)) [0..<8 * length bs]"

lemma free_from_eq: "free_from bs i = map (\<lambda>c. 8 * i + c) (ntfs_free bs)"
proof (induction bs arbitrary: i)
  case (Cons b bs)
  have "[0..<8 * length (b # bs)] = [0..<8] @ map (\<lambda>c. c + 8) [0..<8 * length bs]"
    by (simp add: map_add_upt upt_add_eq_append [of 0 8, simplified, symmetric] add.commute)
  moreover have "filter (\<lambda>c. \<not> bit ((b # bs) ! (c div 8)) (c mod 8)) [0..<8] = filter (\<lambda>j. \<not> bit b j) [0..<8]"
    by (intro filter_cong) auto
  moreover have "(c + 8) div 8 = Suc (c div 8)" "(c + 8) mod 8 = c mod 8" for c :: nat by simp_all
  ultimately show ?case by (simp add: Cons byte_free_def ntfs_free_def filter_map comp_def add.commute add.left_commute)
qed (simp add: ntfs_free_def)

lemma unused_clusters_eq: "unused_clusters bs = length (ntfs_free bs)"
proof -
  have "8 - hweight8 b = length (byte_free b i 0)" for b i
    using sum_length_filter_compl [of "bit b" "[0..<8]"] by (simp add: hweight8_def byte_free_def)
  then have "unused_clusters bs = length (free_from bs i)" for bs i
    by (induction bs arbitrary: i) (simp_all add: unused_clusters_def)
  from this [of bs 0] show ?thesis by (simp add: free_from_eq)
qed

lemma put_bytes_all:
  "\<exists>el'. put_bytes bs 0 per (u32s (unused_clusters bs * per) mem) 0 = (True, el', unused_clusters bs * per) \<and>
     el' = concat (map (cluster_blocks per) (ntfs_free bs))"
proof -
  have "map ((+) 0) xs = xs" for xs :: "nat list" by (simp add: map_idI)
  then have f: "free_from bs 0 = ntfs_free bs" by (simp add: free_from_eq)
  have "appended (u32s (unused_clusters bs * per) mem) 0 (concat (map (cluster_blocks per) (ntfs_free bs)))
      (put_bytes bs 0 per (u32s (unused_clusters bs * per) mem) 0)"
    using put_bytes_appended [of 0 per bs 0 "u32s (unused_clusters bs * per) mem"] f by (simp add: unused_clusters_eq)
  then show ?thesis
    by (cases "put_bytes bs 0 per (u32s (unused_clusters bs * per) mem) 0") (auto simp: appended_def unused_clusters_eq mult.commute)
qed

section \<open>Reading\<close>

text \<open>Volumes whose clusters and records are pages, which are the ones that the code reads.\<close>

definition page_clusters :: "ntfs_volume \<Rightarrow> bool" where
  "page_clusters vol \<longleftrightarrow> nv_bytes_per_cluster vol = 4096 \<and> nv_afs_blocks_per_cluster vol = 1 \<and> nv_mft_records_per_cluster vol = 1 \<and>
     nv_mft_record_size vol = 4096"

lemma read_ntfs_cluster_ok:
  assumes "io_ok k" "page_clusters vol" "unat c < 2 ^ 20" "off mod 4096 = 0" "off + 4096 \<le> length mem"
  shows "read_ntfs_cluster mem off vol c True k = Some (0, blit mem off (dev_read k (4096 * unat c) 4096), tick_io (tick_alloc True k))"
proof -
  let ?b = "ucast c :: u32"
  have b: "unat ?b = unat c" using assms(3) by (simp add: unsigned_ucast_eq take_bit_nat_eq_self)
  then have "block_fits 0 ?b" using assms(3) by (simp add: block_fits_def)
  then have page: "get_page 0 k ?b = dev_read k (4096 * unat c) 4096" using b by (simp add: get_page_def block_addr_eq)
  have rd: "read_page True (sub mem off 4096) ?b 0 True k = Some (0, dev_read k (4096 * unat c) 4096, tick_io (tick_alloc True k))"
    using read_page_eq [of "sub mem off 4096" True k ?b 0 True] assms(1,5) page by (simp add: io_okD)
  have one: "cluster_loop (Suc 0) 0 mem off ?b True k = Some (0, blit mem off (dev_read k (4096 * unat c) 4096), tick_io (tick_alloc True k))"
    using rd assms(4,5) by (simp add: peek_def poke_def)
  have "(unat (nv_afs_blocks_per_cluster vol) + 4095) div 4096 = Suc 0" "c * ucast (nv_afs_blocks_per_cluster vol) = c"
    using assms(2) by (simp_all add: page_clusters_def)
  then show ?thesis using one by (simp add: read_ntfs_cluster_def)
qed

text \<open>The twelve records.\<close>

lemma set_metafile_ok:
  "n < 12 \<Longrightarrow> set_metafiles 1 0 n r s (map (\<lambda>i. Some (4096 * i)) [0..<n] @ replicate (12 - n) None) =
     Some (map (\<lambda>i. Some (4096 * i)) [0..<n] @ (Some r # replicate (11 - n) None))"
proof -
  assume n: "n < 12"
  then have r: "replicate (12 - n) (None :: nat option) = None # replicate (11 - n) None"
  proof -
    have "12 - n = Suc (11 - n)" using n by simp
    then show ?thesis by simp
  qed
  show ?thesis unfolding r using n by (simp add: list_update_append)
qed

lemma read_metafiles_ok:
  assumes "io_ok k" "page_clusters vol" "unat (nv_mft_cluster vol) + 12 < 2 ^ 20" "length rs = 49152" "n \<le> 12"
    and "take (4096 * n) rs = dev_read k (4096 * unat (nv_mft_cluster vol)) (4096 * n)"
    and "nv_metafiles vol = map (\<lambda>i. Some (4096 * i)) [0..<n] @ replicate (12 - n) None"
  shows "\<exists>k'. read_metafiles n vol rs k = Some (vol\<lparr>nv_metafiles := map (\<lambda>i. Some (4096 * i)) [0..<12]\<rparr>,
      dev_read k (4096 * unat (nv_mft_cluster vol)) 49152, k') \<and> idle k k'"
  using assms
proof (induction "12 - n" arbitrary: n vol rs k)
  case 0
  then have n: "n = 12" by simp
  then show ?case using 0 by (simp add: read_metafiles.simps [of 12])
next
  case (Suc d)
  have n: "n < 12" using Suc.hyps(2) by simp
  let ?c = "nv_mft_cluster vol + of_nat n" and ?k = "tick_io (tick_alloc True k)"
  have c: "unat ?c = unat (nv_mft_cluster vol) + n" using Suc.prems(3) n by (simp add: unat_word_ariths unat_of_nat_64)
  let ?page = "dev_read k (4096 * unat ?c) 4096"
  let ?rs = "blit rs (4096 * n) ?page" and ?vol = "vol\<lparr>nv_metafiles := map (\<lambda>i. Some (4096 * i)) [0..<Suc n] @ replicate (12 - Suc n) None\<rparr>"
  have "ucast (of_nat n :: u32) = (of_nat n :: u64)" using n by (simp add: word_unat_eq_iff unsigned_ucast_eq unsigned_of_nat take_bit_nat_eq_self)
  moreover have "read_ntfs_cluster rs (4096 * n) vol ?c True k = Some (0, ?rs, ?k)"
    using Suc.prems(1-4) n c by (intro read_ntfs_cluster_ok) simp_all
  ultimately have rd: "read_mft_records rs (4096 * n) vol (of_nat n) True k = Some (0, ?rs, ?k)"
    using Suc.prems(2) by (simp add: read_mft_records_def page_clusters_def Let_def)
  have set: "set_metafiles 1 0 n (4096 * n) 4096 (nv_metafiles vol) = Some (nv_metafiles ?vol)"
    using set_metafile_ok [OF n, of "4096 * n"] Suc.prems(7) n by simp
  have "take (4096 * Suc n) ?rs = take (4096 * n) rs @ ?page" using Suc.prems(4) n by (simp add: blit_def)
  also have "\<dots> = dev_read k (4096 * unat (nv_mft_cluster vol)) (4096 * n) @ dev_read k (4096 * unat (nv_mft_cluster vol) + 4096 * n) 4096"
    using Suc.prems(6) c by (simp add: algebra_simps)
  also have "\<dots> = dev_read k (4096 * unat (nv_mft_cluster vol)) (4096 * n + 4096)" by (rule dev_read_append)
  finally have tk: "take (4096 * Suc n) ?rs = dev_read ?k (4096 * unat (nv_mft_cluster ?vol)) (4096 * Suc n)"
    by (simp add: idleD(3) [OF idle_tick(2)] add.commute)
  have step: "read_metafiles n vol rs k = read_metafiles (Suc n) ?vol ?rs ?k"
    using n rd set Suc.prems(2) by (subst read_metafiles.simps) (simp add: page_clusters_def mult.commute Let_def)
  have "\<exists>k'. read_metafiles (Suc n) ?vol ?rs ?k = Some (?vol\<lparr>nv_metafiles := map (\<lambda>i. Some (4096 * i)) [0..<12]\<rparr>,
      dev_read ?k (4096 * unat (nv_mft_cluster ?vol)) 49152, k') \<and> idle ?k k'"
    using Suc.hyps(2) Suc.prems(1-4) n tk by (intro Suc.hyps(1)) (simp_all add: page_clusters_def)
  then show ?case using step idle_trans [OF idle_tick(2)] by (auto simp: idleD(3) [OF idle_tick(2)])
qed

text \<open>A run of clusters is read until the amount is reached; whole clusters are stored.\<close>

lemma read_run_ok:
  assumes "io_ok k" "page_clusters vol" "unat c + m < 2 ^ 20" "w mod 4096 = 0" "w + 4096 * m \<le> length mem"
    and "0 < m" "m \<le> n" "unat amt \<le> w + 4096 * m" "w + 4096 * (m - 1) < unat amt \<or> m = 1"
  shows "\<exists>k'. read_run n c vol mem 0 w amt k =
      Some (True, take w mem @ dev_read k (4096 * unat c) (4096 * m) @ drop (w + 4096 * m) mem, w + 4096 * m, k') \<and> idle k k'"
  using assms
proof (induction m arbitrary: n c w mem k)
  case (Suc m)
  obtain n' where n: "n = Suc n'" using Suc.prems(7) by (cases n) simp_all
  let ?k = "tick_io (tick_alloc True k)" and ?p = "dev_read k (4096 * unat c) 4096"
  let ?mem = "blit mem w ?p"
  have bpc: "unat (nv_bytes_per_cluster vol) = 4096" using Suc.prems(2) by (simp add: page_clusters_def)
  have rd: "read_ntfs_cluster mem (0 + w) vol c True k = Some (0, ?mem, ?k)"
    using Suc.prems by (simp only: add_0) (intro read_ntfs_cluster_ok; simp)
  have mem: "?mem = take w mem @ ?p @ drop (w + 4096) mem" by (simp add: blit_def dev_read_def)
  show ?case
  proof (cases "m = 0")
    case True
    then show ?thesis using n rd bpc Suc.prems(8) mem by simp
  next
    case False
    then obtain m' where m': "m = Suc m'" by (cases m) simp_all
    have more: "\<not> unat amt \<le> w + 4096" using Suc.prems(9) m' by simp
    have c: "unat (c + 1) = unat c + 1" using Suc.prems(3) by (simp add: unat_word_ariths)
    have "\<exists>k'. read_run n' (c + 1) vol ?mem 0 (w + 4096) amt ?k =
        Some (True, take (w + 4096) ?mem @ dev_read ?k (4096 * unat (c + 1)) (4096 * m) @ drop (w + 4096 + 4096 * m) ?mem, w + 4096 + 4096 * m, k') \<and> idle ?k k'"
      using Suc.prems n c m' by (intro Suc.IH) simp_all
    moreover have "take (w + 4096) ?mem = take w mem @ ?p" using Suc.prems(5) by (simp add: blit_def dev_read_def)
    moreover have "drop (w + 4096 + 4096 * m) ?mem = drop (w + 4096 * Suc m) mem"
      using Suc.prems(5) unfolding mem by (simp add: dev_read_def add.commute [of "4096 * m"] add.assoc)
    moreover have "?p @ dev_read ?k (4096 * unat (c + 1)) (4096 * m) = dev_read k (4096 * unat c) (4096 * Suc m)"
      using dev_read_append [of k "4096 * unat c" 4096 "4096 * m"] c by (simp add: idleD(3) [OF idle_tick(2)] add.commute)
    ultimately show ?thesis using n rd bpc more idle_trans [OF idle_tick(2)] by (auto simp: Let_def)
  qed
qed simp

text \<open>The first run of a list.\<close>

definition first_run :: "bytes \<Rightarrow> nat \<Rightarrow> (u64 \<times> u64) option" where
  "first_run rs i = do {
     b \<leftarrow> peek rs i 1;
     let field_sizes = (le_word b :: u8);
     if field_sizes = 0 then None
     else do {
       len \<leftarrow> run_field rs (i + 1) (unat (field_sizes AND 0xF));
       offset \<leftarrow> run_field rs (i + 1 + unat (field_sizes AND 0xF)) (unat (drop_bit 4 field_sizes AND 0xF));
       Some (len, offset) } }"

lemma read_runs_ok:
  assumes "io_ok k" "page_clusters vol" "first_run rs i = Some (len, c)" "unat c + m < 2 ^ 20" "4096 * m \<le> length mem"
    and "0 < m" "m \<le> unat len" "unat amt \<le> 4096 * m" "4096 * (m - 1) < unat amt \<or> m = 1"
  shows "\<exists>k'. read_runs vol rs i mem 0 0 amt k = Some (dev_read k (4096 * unat c) (4096 * m) @ drop (4096 * m) mem, 4096 * m, k') \<and> idle k k'"
proof -
  obtain k' where r: "read_run (unat len) c vol mem 0 0 amt k = Some (True, dev_read k (4096 * unat c) (4096 * m) @ drop (4096 * m) mem, 4096 * m, k')" "idle k k'"
    using read_run_ok [OF assms(1,2,4) _ _ assms(6,7), of 0 mem amt] assms(5,8,9) by auto
  obtain b where b: "peek rs i 1 = Some b" "(le_word b :: u8) \<noteq> 0"
      "run_field rs (i + 1) (unat ((le_word b :: u8) AND 0xF)) = Some len"
      "run_field rs (i + 1 + unat ((le_word b :: u8) AND 0xF)) (unat (drop_bit 4 (le_word b :: u8) AND 0xF)) = Some c"
    using assms(3) by (auto simp: first_run_def Let_def split: bind_splits if_splits)
  have "read_runs vol rs i mem 0 0 amt k = Some (dev_read k (4096 * unat c) (4096 * m) @ drop (4096 * m) mem, 4096 * m, k')"
    using b r(1) by (subst read_runs.simps) (simp add: Let_def)
  then show ?thesis using r(2) by blast
qed

text \<open>Attributes that hold no data are passed over.\<close>

inductive skips :: "u32 \<Rightarrow> bytes \<Rightarrow> nat \<Rightarrow> u32 \<Rightarrow> u32 \<Rightarrow> bool" for sz rs h where
  skip_refl: "skips sz rs h a a"
| skip_step: "a < sz \<Longrightarrow> attr_type_id rs (h + unat a) = Some t \<Longrightarrow> t \<noteq> ATTR_DATA \<Longrightarrow> t \<noteq> ATTRS_DONE \<Longrightarrow>
    attr_length rs (h + unat a) = Some len \<Longrightarrow> len \<noteq> 0 \<Longrightarrow> skips sz rs h (a + len) b \<Longrightarrow> skips sz rs h a b"

lemma read_attrs_skips: "skips (nv_mft_record_size vol) rs h a b \<Longrightarrow> read_attrs vol mem n h rs i a k = read_attrs vol mem n h rs i b k"
proof (induction rule: skips.induct)
  case (skip_step a t len b)
  then have "read_attrs vol mem n h rs i a k = read_attrs vol mem n h rs i (a + len) k"
    by (subst read_attrs.simps) (simp add: Let_def)
  then show ?case using skip_step.IH by simp
qed simp

definition attrs_end :: "u32 \<Rightarrow> bytes \<Rightarrow> nat \<Rightarrow> u32 \<Rightarrow> bool" where
  "attrs_end sz rs h a \<longleftrightarrow> \<not> a < sz \<or> attr_type_id rs (h + unat a) = Some ATTRS_DONE"

lemma read_attrs_end: "attrs_end (nv_mft_record_size vol) rs h a \<Longrightarrow> read_attrs vol mem n h rs i a k = Some (i, mem, k)"
  by (subst read_attrs.simps) (auto simp: attrs_end_def Let_def ATTR_DATA_def ATTRS_DONE_def)

text \<open>A record whose first data attribute is not resident, has its data in the run of \<open>len\<close> clusters from \<open>c\<close> on, and is
  followed by no other data.\<close>

definition data_attr :: "bytes \<Rightarrow> nat \<Rightarrow> u64 \<Rightarrow> u64 \<Rightarrow> u64 \<Rightarrow> bool" where
  "data_attr rs a actual len c \<longleftrightarrow> attr_type_id rs a = Some ATTR_DATA \<and> attr_nonresident_flag rs a = Some 1 \<and>
     attr_content_actual_size rs a = Some actual \<and> attr_start_vcn_runlist rs a = Some 0 \<and>
     (case attr_offset_to_runlist rs a of None \<Rightarrow> False | Some r \<Rightarrow> first_run rs (a + unat r) = Some (len, c))"

definition data_record :: "u32 \<Rightarrow> bytes \<Rightarrow> nat \<Rightarrow> u64 \<Rightarrow> u64 \<Rightarrow> u64 \<Rightarrow> bool" where
  "data_record sz rs h actual len c \<longleftrightarrow> (\<exists>first a n d. mft_offset_to_first_attribute rs h = Some first \<and>
     skips sz rs h (ucast first) a \<and> a < sz \<and> data_attr rs (h + unat a) actual len c \<and>
     attr_length rs (h + unat a) = Some n \<and> n \<noteq> 0 \<and> skips sz rs h (a + n) d \<and> attrs_end sz rs h d)"

lemma first_run_peek: "first_run rs i = Some x \<Longrightarrow> \<exists>b. peek rs i 1 = Some b"
  by (auto simp: first_run_def split: bind_splits)

text \<open>How many clusters the reading of \<open>n\<close> bytes takes.\<close>

definition clusters_of :: "nat \<Rightarrow> nat" where
  "clusters_of n = (if n = 0 then 1 else (n + 4095) div 4096)"

lemma clusters_of: "0 < clusters_of n" "n \<le> 4096 * clusters_of n" "4096 * (clusters_of n - 1) < n \<or> clusters_of n = 1"
proof -
  show "0 < clusters_of n" by (simp add: clusters_of_def div_greater_zero_iff)
  show "n \<le> 4096 * clusters_of n" by (auto simp: clusters_of_def)
  show "4096 * (clusters_of n - 1) < n \<or> clusters_of n = 1" by (auto simp: clusters_of_def)
qed

lemma ntfs_read_file_ok:
  assumes "io_ok k" "page_clusters vol" "data_record (nv_mft_record_size vol) rs h actual len c"
    and "unat c + m < 2 ^ 20" "4096 * m \<le> length mem" "m \<le> unat len"
    and "m = clusters_of (min n (unat actual))" "n < 2 ^ 61"
  shows "\<exists>k'. ntfs_read_file vol mem n h rs k = Some (4096 * m, dev_read k (4096 * unat c) (4096 * m) @ drop (4096 * m) mem, k') \<and> idle k k'"
proof -
  obtain first a l d where r: "mft_offset_to_first_attribute rs h = Some first" "skips (nv_mft_record_size vol) rs h (ucast first) a" "a < nv_mft_record_size vol"
      "data_attr rs (h + unat a) actual len c" "attr_length rs (h + unat a) = Some l" "l \<noteq> 0" "skips (nv_mft_record_size vol) rs h (a + l) d" "attrs_end (nv_mft_record_size vol) rs h d"
    using assms(3) by (auto simp: data_record_def)
  let ?a = "h + unat a"
  define N where "N = (of_int (int n - int 0) :: u64)"
  have n: "unat N = n" using assms(8) by (simp add: N_def unat_of_nat_64)
  define amt where "amt = (if N < actual then N else actual)"
  have amt: "unat amt = min n (unat actual)" using n by (auto simp: amt_def word_less_nat_alt min_def)
  obtain ro where ro: "attr_offset_to_runlist rs ?a = Some ro" "first_run rs (?a + unat ro) = Some (len, c)"
    using r(4) by (auto simp: data_attr_def split: option.splits)
  obtain b where b: "peek rs (?a + unat ro) 1 = Some b" using first_run_peek [OF ro(2)] by blast
  obtain k' where rr: "read_runs vol rs (?a + unat ro) mem 0 0 amt k = Some (dev_read k (4096 * unat c) (4096 * m) @ drop (4096 * m) mem, 4096 * m, k')" "idle k k'"
  proof -
    have "0 < m" "unat amt \<le> 4096 * m" "4096 * (m - 1) < unat amt \<or> m = 1"
      using clusters_of [of "min n (unat actual)"] unfolding amt assms(7) by simp_all
    from read_runs_ok [OF assms(1,2) ro(2) assms(4,5) this(1) assms(6) this(2,3)] that show ?thesis by blast
  qed
  have nr: "read_nonresident_data vol mem 0 rs ?a N k = Some (4096 * m, dev_read k (4096 * unat c) (4096 * m) @ drop (4096 * m) mem, k')"
    using r(4) ro(1) b rr(1) by (simp add: read_nonresident_data_def data_attr_def Let_def amt_def [symmetric])
  have "read_attrs vol mem n h rs 0 (ucast first) k = read_attrs vol mem n h rs 0 a k" using r(2) by (rule read_attrs_skips)
  also have "\<dots> = read_attrs vol (dev_read k (4096 * unat c) (4096 * m) @ drop (4096 * m) mem) n h rs (4096 * m) (a + l) k'"
    using r(3-6) nr [unfolded N_def] by (subst read_attrs.simps) (simp add: data_attr_def Let_def)
  also have "\<dots> = Some (4096 * m, dev_read k (4096 * unat c) (4096 * m) @ drop (4096 * m) mem, k')"
    using read_attrs_skips [OF r(7)] read_attrs_end [OF r(8)] by simp
  finally show ?thesis using r(1) rr(2) by (simp add: ntfs_read_file_def)
qed

lemma extract_bitmap_ok:
  assumes "alloc_ok k" "io_ok k" "page_clusters vol" "nv_metafiles vol ! 6 = Some h" "data_record 4096 rs h actual len c"
    and "8 \<le> nv_cluster_count vol" "unat c + m < 2 ^ 20" "m \<le> unat len" "m = clusters_of (min (unat (nv_cluster_count vol div 8)) (unat actual))"
    and "ntfs_free (dev_read k (4096 * unat c) (4096 * m)) \<noteq> []"
  shows "\<exists>k'. extract_bitmap vol rs k = Some (0, vol\<lparr>nv_data_start_off := 0,
      nv_empty_blocks := map of_nat (ntfs_free (dev_read k (4096 * unat c) (4096 * m))),
      nv_num_empty_afs_blocks := of_nat (length (ntfs_free (dev_read k (4096 * unat c) (4096 * m))))\<rparr>, k')"
proof -
  let ?vol = "vol\<lparr>nv_data_start_off := 0\<rparr>" and ?bm = "dev_read k (4096 * unat c) (4096 * m)" and ?n = "unat (nv_cluster_count vol div 8)"
  have n: "0 < ?n" "?n < 2 ^ 61"
    using assms(6) unsigned_less [of "nv_cluster_count vol", where ?'a = nat] by (simp_all add: unat_div_distrib word_le_nat_alt)
  have m: "0 < m" "4096 * m \<le> round_pages ?n"
    using clusters_of(1) assms(9) n(1) div_le_mono [of "min ?n (unat actual) + 4095" "?n + 4095" 4096]
    by (auto simp: round_pages_def clusters_of_def Suc_le_eq div_greater_zero_iff)
  obtain mem k1 where mem: "vmalloc (round_pages ?n) k = (Some mem, k1)" "length mem = round_pages ?n" "idle k k1"
    using vmalloc_idle [OF assms(1), of "round_pages ?n"] m by auto
  have ok1: "alloc_ok k1" "io_ok k1" "dev_read k1 = dev_read k" using idleD [OF mem(3)] assms(1,2) by simp_all
  have pc: "page_clusters ?vol" using assms(3) by (simp add: page_clusters_def)
  have rm: "4096 * m \<le> length mem" using m(2) mem(2) by simp
  obtain k2 where rf: "ntfs_read_file ?vol mem ?n h rs k1 = Some (4096 * m, ?bm @ drop (4096 * m) mem, k2)" "idle k1 k2"
    using ntfs_read_file_ok [OF ok1(2) pc _ assms(7) rm assms(8,9) n(2)] ok1(3) pc assms(5) by (auto simp: page_clusters_def)
  have ok2: "alloc_ok k2" using idleD(2) [OF rf(2)] ok1(1) by simp
  have tk: "take (4096 * m) (?bm @ drop (4096 * m) mem) = ?bm" by (simp add: dev_read_def)
  obtain mem2 k3 where mem2: "vmalloc (4 * unused_clusters ?bm) k2 = (Some mem2, k3)"
    using vmalloc_idle [OF ok2, of "4 * unused_clusters ?bm"] assms(10) by (auto simp: unused_clusters_eq)
  have per: "unat (nv_afs_blocks_per_cluster vol) = 1" using assms(3) by (simp add: page_clusters_def)
  have cb: "concat (map (cluster_blocks 1) xs) = map of_nat xs" for xs by (induction xs) (simp_all add: cluster_blocks_def)
  have "put_bytes ?bm 0 1 (u32s (unused_clusters ?bm) mem2) 0 = (True, map of_nat (ntfs_free ?bm), unused_clusters ?bm)"
    using put_bytes_all [of ?bm 1 mem2] cb by simp
  moreover have "length (?bm @ drop (4096 * m) mem) = length mem" using rm by (simp add: dev_read_def)
  ultimately have "extract_bitmap vol rs k = Some (0, ?vol\<lparr>nv_empty_blocks := map of_nat (ntfs_free ?bm),
      nv_num_empty_afs_blocks := of_nat (unused_clusters ?bm)\<rparr>, k3)"
    using mem(1) assms(4) rf(1) tk mem2 per m(1) rm
    by (simp add: extract_bitmap_def metafile_bitmap_def Let_def del: of_nat_0)
  then show ?thesis by (simp add: unused_clusters_eq)
qed

text \<open>The checks of the boot sector.\<close>

definition ntfs_checks :: "ntfs_boot_sector \<Rightarrow> bool" where
  "ntfs_checks bs \<longleftrightarrow> nt_oem_id bs = ntfs_magic \<and> nt_table_count bs = 0 \<and> nt_root_entry_count bs = 0 \<and> nt_bpb_sector_count bs = 0 \<and>
     nt_sectors_per_table bs = 0"

lemma magic_found: "nt_oem_id bs = ntfs_magic \<Longrightarrow> is_ntfs_magic_value (blit (replicate 9 0) 0 (nt_oem_id bs))"
  by (simp add: is_ntfs_magic_value_def ntfs_magic_def blit_def)

lemma cluster_bytes: "unat ((ucast (b :: u16) :: u64) * ucast (s :: u8)) = unat b * unat s" "unat b * unat s < 16777216"
proof -
  have "unat b \<le> 65535" "unat s \<le> 255" using unsigned_less [of b, where ?'a = nat] unsigned_less [of s, where ?'a = nat] by simp_all
  then have "unat b * unat s \<le> 65535 * 255" by (rule mult_le_mono)
  then show "unat b * unat s < 16777216" "unat ((ucast b :: u64) * ucast s) = unat b * unat s" by (simp_all add: unat_word_ariths unat_ucast_up)
qed

lemma ntfs_boot_ok:
  assumes "ntfs_checks bs" "bs = ntfs_boot_sector_of data" "unat (nt_bytes_per_sector bs) * unat (nt_sectors_per_cluster bs) = 4096" "nt_clusters_per_record bs = 1"
  shows "\<exists>vol. ntfs_read_boot_sector ntfs_volume0 data = Some (0, vol) \<and> page_clusters vol \<and> nv_mft_cluster vol = nt_master_file_table_cluster bs \<and>
    nv_cluster_count vol = nt_sector_count_64 bs div ucast (nt_sectors_per_cluster bs) \<and> nv_metafiles vol = replicate 12 None"
proof -
  have "unat ((ucast (nt_bytes_per_sector bs) :: u64) * ucast (nt_sectors_per_cluster bs)) = unat (4096 :: u64)"
    using assms(3) by (simp add: cluster_bytes)
  then have bpc: "(ucast (nt_bytes_per_sector bs) :: u64) * ucast (nt_sectors_per_cluster bs) = 4096" by (rule unsigned_word_eqI)
  have "nt_sectors_per_cluster bs \<noteq> 0" using assms(3) by auto
  then show ?thesis
    using assms(1,4) magic_found [of bs] unfolding ntfs_read_boot_sector_def assms(2) [symmetric]
    by (simp add: ntfs_checks_def bpc Let_def page_clusters_def ntfs_volume0_def)
qed

text \<open>With records that are not one cluster each, no record is counted per cluster.\<close>

lemma ntfs_no_records:
  assumes "ntfs_checks bs" "bs = ntfs_boot_sector_of data" "(unat (nt_bytes_per_sector bs) * unat (nt_sectors_per_cluster bs)) mod 4096 = 0"
    and "nt_clusters_per_record bs \<noteq> 1"
  shows "ntfs_read_boot_sector ntfs_volume0 data = None \<or>
    (\<exists>vol. ntfs_read_boot_sector ntfs_volume0 data = Some (0, vol) \<and> nv_mft_records_per_cluster vol = 0)"
proof -
  define bpc where "bpc = (ucast (nt_bytes_per_sector bs) :: u64) * ucast (nt_sectors_per_cluster bs)"
  define r where "r = nt_clusters_per_record bs"
  define sz where "sz = (if r > 0 then ucast (bpc * ucast r) else 1 :: u32)"
  have b: "unat bpc < 16777216" "unat bpc mod 4096 = 0" using cluster_bytes assms(3) by (simp_all add: bpc_def)
  have "(ucast (bpc div ucast sz) :: u8) = 0" if "sz \<noteq> 0"
  proof (cases "r > 0")
    case True
    then have r: "1 < unat r" using assms(4) by (metis One_nat_def Suc_lessI neq0_conv r_def unat_1 unat_gt_0 unsigned_word_eqI word_neq_0_conv)
    have "unat r \<le> 255" using unsigned_less [of r, where ?'a = nat] by simp
    then have le: "unat bpc * unat r \<le> 16777215 * 255" using b(1) by (intro mult_le_mono) simp_all
    then have "unat (bpc * ucast r) = unat bpc * unat r" by (simp add: unat_word_ariths unat_ucast_up)
    then have "unat sz = unat bpc * unat r"
      using True le by (simp add: sz_def unsigned_ucast_eq take_bit_nat_eq_self)
    then have "unat bpc < unat sz" using r that by (metis mult.right_neutral mult_0 nat_mult_less_cancel_disj neq0_conv unat_0 unsigned_word_eqI)
    then have "bpc div ucast sz = 0" by (simp add: word_unat_eq_iff unat_div_distrib unat_ucast_up)
    then show ?thesis by simp
  next
    case False
    then have "sz = 1" by (simp add: sz_def)
    moreover obtain q where q: "unat bpc = 4096 * q" using b(2) by (auto simp: mod_eq_0_iff_dvd)
    have "256 dvd 4096 * q" by (rule dvd_mult2) simp
    then have "(ucast bpc :: u8) = 0" using q by (simp add: word_unat_eq_iff unsigned_ucast_eq take_bit_eq_mod)
    ultimately show ?thesis by simp
  qed
  moreover have "bpc mod 4096 = 0" using b(2) by (simp add: word_unat_eq_iff unat_mod_distrib)
  ultimately show ?thesis
    using assms(1) magic_found [of bs] unfolding ntfs_read_boot_sector_def assms(2) [symmetric]
    by (cases "r > 0") (simp_all add: ntfs_checks_def Let_def bpc_def [symmetric] r_def [symmetric] sz_def ntfs_volume0_def)
qed

lemma ntfs_map_fault:
  assumes "nv_mft_records_per_cluster vol = 0"
  shows "ntfs_map vol k = None"
proof -
  have "read_metafiles 0 vol rs k = None" for rs k
    using assms by (subst read_metafiles.simps) (simp add: read_mft_records_def)
  then show ?thesis by (simp add: ntfs_map_def split: prod.splits)
qed

lemma ntfs_map_ok:
  assumes "alloc_ok k" "io_ok k" "page_clusters vol" "nv_metafiles vol = replicate 12 None" "unat (nv_mft_cluster vol) + 12 < 2 ^ 20"
    and "rs = dev_read k (4096 * unat (nv_mft_cluster vol)) 49152" "mft_allocated_size_of_record rs 0 = Some 4096" "data_record 4096 rs 24576 actual len c"
    and "8 \<le> nv_cluster_count vol" "m = clusters_of (min (unat (nv_cluster_count vol div 8)) (unat actual))" "m \<le> unat len" "unat c + m < 2 ^ 20"
    and "bm = dev_read k (4096 * unat c) (4096 * m)" "ntfs_free bm \<noteq> []"
  shows "\<exists>vol' k'. ntfs_map vol k = Some (0, vol', k') \<and> nv_empty_blocks vol' = map of_nat (ntfs_free bm) \<and>
    nv_num_empty_afs_blocks vol' = of_nat (length (ntfs_free bm)) \<and> nv_data_start_off vol' = 0"
proof -
  have sz: "nv_mft_record_size vol = 4096" using assms(3) by (simp add: page_clusters_def)
  then have rp: "round_pages (unat (12 * nv_mft_record_size vol)) = 49152" by (simp add: round_pages_def)
  obtain mem k1 where mem: "vmalloc 49152 k = (Some mem, k1)" "length mem = 49152" "idle k k1" using vmalloc_idle [OF assms(1), of 49152] by auto
  have ok1: "io_ok k1" "dev_read k1 = dev_read k" using idleD(1,3) [OF mem(3)] assms(2) by simp_all
  let ?vol = "vol\<lparr>nv_metafiles := map (\<lambda>i. Some (4096 * i)) [0..<12]\<rparr>"
  have z: "take (4096 * 0) mem = dev_read k1 (4096 * unat (nv_mft_cluster vol)) (4096 * 0)"
    "nv_metafiles vol = map (\<lambda>i. Some (4096 * i)) [0..<0] @ replicate (12 - 0) None" using assms(4) by (simp_all add: dev_read_def)
  obtain k2 where rm: "read_metafiles 0 vol mem k1 = Some (?vol, rs, k2)" "idle k1 k2"
    using read_metafiles_ok [OF ok1(1) assms(3,5) mem(2) _ z] assms(6) ok1(2) by auto
  have idle2: "idle k k2" using mem(3) rm(2) by (rule idle_trans)
  have ok2: "alloc_ok k2" "io_ok k2" "dev_read k2 = dev_read k" using idleD [OF idle2] assms(1,2) by simp_all
  have "\<exists>k'. extract_bitmap ?vol rs k2 = Some (0, ?vol\<lparr>nv_data_start_off := 0,
      nv_empty_blocks := map of_nat (ntfs_free (dev_read k2 (4096 * unat c) (4096 * m))),
      nv_num_empty_afs_blocks := of_nat (length (ntfs_free (dev_read k2 (4096 * unat c) (4096 * m))))\<rparr>, k')"
    by (rule extract_bitmap_ok [OF ok2(1,2) _ _ assms(8) _ assms(12,11)])
      (use assms(3,9,10,13,14) ok2(3) in \<open>simp_all add: page_clusters_def\<close>)
  then obtain k3 where "extract_bitmap ?vol rs k2 = Some (0, ?vol\<lparr>nv_data_start_off := 0, nv_empty_blocks := map of_nat (ntfs_free bm),
      nv_num_empty_afs_blocks := of_nat (length (ntfs_free bm))\<rparr>, k3)" using ok2(3) assms(13) by auto
  then show ?thesis unfolding ntfs_map_def rp using mem(1) rm(1) assms(7) sz by simp
qed

text \<open>A small volume: 32768 clusters of 8 sectors, the records in cluster 4 and following, the bitmap in cluster 3, which leaves the clusters
  24 to 31 free.\<close>

definition ntfs_byte :: "nat \<Rightarrow> u8" where
  "ntfs_byte a = (if a \<in> {3..<11} then ntfs_magic ! (a - 3) else if a = 12 then 2 else if a = 13 then 8 else if a = 42 then 4 else if a = 48 then 4
     else if a = 64 then 1 else if 12288 \<le> a \<and> a < 16384 then (if a = 12291 then 0 else 0xFF) else if a = 16413 then 0x10 else if a = 40980 then 48
     else if a = 41008 then 0x80 else if a = 41012 then 72 else if a = 41016 then 1 else if a = 41040 then 64 else if a = 41057 then 0x10
     else if a = 41072 then 0x11 else if a = 41073 then 1 else if a = 41074 then 3 else if 41080 \<le> a \<and> a < 41084 then 0xFF else 0)"

definition ntfs_kernel :: kernel where "ntfs_kernel = demo_kernel\<lparr>k_dev := ntfs_byte\<rparr>"

definition ntfs_fs :: afs_passive_fs where
  "ntfs_fs = \<lparr>block_list = [], list_len = 0, sectors_per_block = 0, total_blocks = 0, data_start_off = 0, blocks_in_tuple = 0\<rparr>"

definition ntfs_data :: bytes where "ntfs_data = map ntfs_byte [0..<512]"

definition ntfs_bs :: ntfs_boot_sector where
  "ntfs_bs = \<lparr>nt_oem_id = ntfs_magic, nt_bytes_per_sector = 512, nt_sectors_per_cluster = 8, nt_table_count = 0, nt_root_entry_count = 0,
     nt_bpb_sector_count = 0, nt_sectors_per_table = 0, nt_sector_count_64 = 262144, nt_master_file_table_cluster = 4,
     nt_master_file_table_mirror_cluster = 0, nt_clusters_per_record = 1\<rparr>"

lemma ntfs_demo_boot: "ntfs_boot_sector_of ntfs_data = ntfs_bs"
proof -
  have s: "sub ntfs_data off n = map ntfs_byte [off..<off + n]" if "off + n \<le> 512" for off n
    using that by (intro nth_equalityI) (simp_all add: ntfs_data_def)
  have n: "ntfs_data ! i = ntfs_byte i" if "i < 512" for i using that by (simp add: ntfs_data_def)
  show ?thesis by (simp add: ntfs_boot_sector_of_def ntfs_bs_def s n upt_rec ntfs_byte_def ntfs_magic_def)
qed

lemma peek_dev_read: "off + n \<le> len \<Longrightarrow> peek (dev_read k a len) off n = Some (dev_read k (a + off) n)"
  by (simp add: peek_def sub_dev_read)

definition ntfs_rs :: bytes where "ntfs_rs = dev_read ntfs_kernel 16384 49152"

lemma ntfs_demo_peek: "off + n \<le> 49152 \<Longrightarrow> peek ntfs_rs off n = Some (map ntfs_byte [16384 + off..<16384 + off + n])"
  unfolding ntfs_rs_def by (simp add: peek_dev_read) (intro nth_equalityI; simp add: dev_read_def ntfs_kernel_def)

lemmas ntfs_demo_simps = attr_type_id_def attr_length_def attr_nonresident_flag_def attr_start_vcn_runlist_def attr_offset_to_runlist_def
  attr_content_actual_size_def mft_offset_to_first_attribute_def mft_allocated_size_of_record_def ntfs_demo_peek upt_rec ntfs_byte_def

lemma ntfs_demo_record: "data_record 4096 ntfs_rs 24576 4096 1 3"
proof -
  have "first_run ntfs_rs 24688 = Some (1, 3)"
    by (simp add: first_run_def run_field_def ntfs_demo_simps mask_eq_exp_minus_1)
  then have "data_attr ntfs_rs 24624 4096 1 3" by (simp add: data_attr_def ATTR_DATA_def ntfs_demo_simps)
  moreover have "mft_offset_to_first_attribute ntfs_rs 24576 = Some 48" "attr_length ntfs_rs 24624 = Some 72" "attr_type_id ntfs_rs 24696 = Some ATTRS_DONE"
    by (simp_all add: ntfs_demo_simps ATTRS_DONE_def)
  ultimately show ?thesis
    unfolding data_record_def
    by (intro exI [of _ 48] exI [of _ 48] exI [of _ 72] exI [of _ 120]) (simp add: skip_refl attrs_end_def)
qed

lemma filter_upt_range: "a \<le> b \<Longrightarrow> b \<le> n \<Longrightarrow> filter (\<lambda>c. a \<le> c \<and> c < b) [0..<n] = [a..<b]"
proof -
  assume "a \<le> b" "b \<le> n"
  then have "[0..<n] = [0..<a] @ [a..<b] @ [b..<n]" 
    using upt_add_eq_append [of 0 a "n - a"] upt_add_eq_append [of a b "n - b"] by simp
  then show ?thesis by (simp add: filter_empty_conv filter_id_conv)
qed

lemma ntfs_demo_free: "ntfs_free (dev_read ntfs_kernel 12288 4096) = [24..<32]"
proof -
  have "\<not> bit (dev_read ntfs_kernel 12288 4096 ! (c div 8)) (c mod 8) \<longleftrightarrow> 24 \<le> c \<and> c < 32" if "c < 32768" for c
  proof -
    have q: "c div 8 < 4096" "c mod 8 < 8" using that by auto
    then have "dev_read ntfs_kernel 12288 4096 ! (c div 8) = (if c div 8 = 3 then 0 else 0xFF)"
      by (auto simp: dev_read_def ntfs_kernel_def ntfs_byte_def)
    moreover have "bit (0xFF :: u8) j" if "j < 8" for j
    proof -
      have "(0xFF :: u8) = mask 8" by (simp add: mask_eq_exp_minus_1)
      then show ?thesis using that by (simp only: bit_mask_iff) simp
    qed
    ultimately show ?thesis using q(2) by auto
  qed
  moreover have "length (dev_read ntfs_kernel 12288 4096) = 4096" by simp
  ultimately have "ntfs_free (dev_read ntfs_kernel 12288 4096) = filter (\<lambda>c. 24 \<le> c \<and> c < 32) [0..<32768]"
    unfolding ntfs_free_def by (intro filter_cong) (simp_all del: upt_rec_numeral)
  also have "\<dots> = [24..<32]" by (rule filter_upt_range) simp_all
  finally show ?thesis .
qed

section \<open>Properties\<close>

text \<open>C34: On an NTFS volume whose clusters and records are pages and whose bitmap file lies in one run, the detection succeeds, and
  the free list is exactly the clusters whose bit is clear in the clusters of the bitmap that were read, in ascending order. These
  bits may go beyond the clusters of the volume: whole clusters of the bitmap count.\<close>

theorem ntfs_free_list:
  assumes "alloc_ok k" "io_ok k" "bs = ntfs_boot_sector_of data" "ntfs_checks bs"
    and "unat (nt_bytes_per_sector bs) * unat (nt_sectors_per_cluster bs) = 4096" "nt_clusters_per_record bs = 1"
    and "unat (nt_master_file_table_cluster bs) + 12 < 2 ^ 20" "rs = dev_read k (4096 * unat (nt_master_file_table_cluster bs)) 49152"
    and "mft_allocated_size_of_record rs 0 = Some 4096" "data_record 4096 rs 24576 actual len c"
    and "n = nt_sector_count_64 bs div ucast (nt_sectors_per_cluster bs)" "8 \<le> n" "m = clusters_of (min (unat (n div 8)) (unat actual))"
    and "m \<le> unat len" "unat c + m < 2 ^ 20" "bm = dev_read k (4096 * unat c) (4096 * m)" "ntfs_free bm \<noteq> []"
  shows "\<exists>fs' k'. afs_ntfs_detect data fs k = Some (True, fs', k') \<and> block_list fs' = map of_nat (ntfs_free bm) \<and>
    list_len fs' = of_nat (length (ntfs_free bm)) \<and> sectors_per_block fs' = 8 \<and> data_start_off fs' = 0"
proof -
  obtain vol where v: "ntfs_read_boot_sector ntfs_volume0 data = Some (0, vol)" "page_clusters vol" "nv_mft_cluster vol = nt_master_file_table_cluster bs"
      "nv_cluster_count vol = n" "nv_metafiles vol = replicate 12 None"
    using ntfs_boot_ok [OF assms(4,3,5,6)] assms(11) by auto
  obtain vol' k' where "ntfs_map vol k = Some (0, vol', k')" "nv_empty_blocks vol' = map of_nat (ntfs_free bm)"
      "nv_num_empty_afs_blocks vol' = of_nat (length (ntfs_free bm))" "nv_data_start_off vol' = 0"
    using ntfs_map_ok [OF assms(1,2) v(2,5), of rs actual len c m bm] assms(7-17) v(3,4) by auto
  then show ?thesis using v(1) by (simp add: afs_ntfs_detect_def AFS_BLOCK_SIZE_def AFS_SECTOR_SIZE_def)
qed

theorem ntfs_free_list_witness:
  "\<exists>fs' k'. afs_ntfs_detect ntfs_data ntfs_fs ntfs_kernel = Some (True, fs', k') \<and> block_list fs' = [24, 25, 26, 27, 28, 29, 30, 31] \<and>
    list_len fs' = 8"
proof -
  have ok: "alloc_ok ntfs_kernel" "io_ok ntfs_kernel" by (simp_all add: ntfs_kernel_def demo_kernel_def alloc_ok_def io_ok_def)
  have bs: "ntfs_checks ntfs_bs" "unat (nt_bytes_per_sector ntfs_bs) * unat (nt_sectors_per_cluster ntfs_bs) = 4096" "nt_clusters_per_record ntfs_bs = 1"
    "unat (nt_master_file_table_cluster ntfs_bs) + 12 < 2 ^ 20" "ntfs_rs = dev_read ntfs_kernel (4096 * unat (nt_master_file_table_cluster ntfs_bs)) 49152"
    "32768 = nt_sector_count_64 ntfs_bs div ucast (nt_sectors_per_cluster ntfs_bs)"
    by (simp_all add: ntfs_bs_def ntfs_checks_def ntfs_rs_def)
  have sz: "mft_allocated_size_of_record ntfs_rs 0 = Some 4096" by (simp add: ntfs_demo_simps)
  have m: "1 = clusters_of (min (unat (32768 div 8 :: u64)) (unat (4096 :: u64)))" by (simp add: clusters_of_def)
  have bm: "dev_read ntfs_kernel 12288 4096 = dev_read ntfs_kernel (4096 * unat (3 :: u64)) (4096 * 1)" by simp
  have "\<exists>fs' k'. afs_ntfs_detect ntfs_data ntfs_fs ntfs_kernel = Some (True, fs', k') \<and> block_list fs' = map of_nat (ntfs_free (dev_read ntfs_kernel 12288 4096)) \<and>
      list_len fs' = of_nat (length (ntfs_free (dev_read ntfs_kernel 12288 4096))) \<and> sectors_per_block fs' = 8 \<and> data_start_off fs' = 0"
    by (rule ntfs_free_list [OF ok ntfs_demo_boot [symmetric] bs(1-5) sz ntfs_demo_record bs(6) _ m _ _ bm])
      (simp_all add: ntfs_demo_free)
  then show ?thesis by (auto simp: ntfs_demo_free)
qed

text \<open>The size of a record is read as an unsigned number: for every volume whose records are not one cluster each, and in particular
  for those that give the size as a negative power of two, as volumes with records of 1024 bytes do, the detection divides by zero.\<close>

theorem ntfs_record_size_fault:
  assumes "bs = ntfs_boot_sector_of data" "ntfs_checks bs"
    and "(unat (nt_bytes_per_sector bs) * unat (nt_sectors_per_cluster bs)) mod 4096 = 0" "nt_clusters_per_record bs \<noteq> 1"
  shows "afs_ntfs_detect data fs k = None"
  using ntfs_no_records [OF assms(2,1,3,4)] ntfs_map_fault by (auto simp: afs_ntfs_detect_def)

theorem ntfs_record_size_fault_witness: "afs_ntfs_detect (ntfs_data[64 := 0xF6]) ntfs_fs ntfs_kernel = None"
proof -
  have d: "ntfs_boot_sector_of (ntfs_data[64 := 0xF6]) = (ntfs_boot_sector_of ntfs_data)\<lparr>nt_clusters_per_record := 0xF6\<rparr>"
  proof -
    have "sub (ntfs_data[64 := 0xF6]) off n = sub ntfs_data off n" if "off + n \<le> 64" for off n
      using that by (simp add: sub_def drop_update_swap)
    moreover have "length ntfs_data = 512" by (simp add: ntfs_data_def)
    ultimately show ?thesis by (simp add: ntfs_boot_sector_of_def)
  qed
  show ?thesis
    by (rule ntfs_record_size_fault [OF refl]) (simp_all add: d ntfs_demo_boot ntfs_bs_def ntfs_checks_def)
qed

end
