(* ===== verification/Afs_Target.thy ===== *)
theory Afs_Target
  imports Afs_Disk Afs_Fat32 Afs_Ext4 Afs_Ntfs Afs_Mount
begin

text \<open>
  The life cycle of the target, \<open>src/src/dm_afs.c\<close>: the arguments, the detection of the passive file system, the
  constructor and the destructor. The kernel's \<open>kstrtou8\<close> and \<open>dm_get_device\<close> are parameters: the number a
  string stands for, if it does, and the size in sectors of the device with a name, or an error. Creating work
  queues has no effect on the model; its failure is a null pointer, which the tests with \<open>IS_ERR\<close> let pass.
  A result \<open>None\<close> is a fault or a call that does not return.
\<close>

section \<open>Arguments\<close>

definition PASSIVE_DEV_SZ :: nat where "PASSIVE_DEV_SZ = 32"
definition TYPE_CREATE :: u8 where "TYPE_CREATE = 0"
definition TYPE_MOUNT :: u8 where "TYPE_MOUNT = 1"
definition TYPE_SHADOW :: u8 where "TYPE_SHADOW = 2"
definition AFS_MIN_SIZE :: u64 where "AFS_MIN_SIZE = 65536"

definition zero_args :: afs_args where
  "zero_args = \<lparr>passphrase = replicate PASSPHRASE_SZ 0, shadow_passphrase = replicate PASSPHRASE_SZ 0,
     passive_dev = replicate PASSIVE_DEV_SZ 0, entropy_dir = replicate ENTROPY_DIR_SZ 0, instance_type = 0\<rparr>"

text \<open>An argument is a string without its final NUL.\<close>

definition c_string :: "string \<Rightarrow> bytes" where
  "c_string s = map of_char s"

definition str_put :: "bytes \<Rightarrow> nat \<Rightarrow> bytes \<Rightarrow> bytes" where
  "str_put dst n src = blit dst 0 (strncpy (n - 1) src)"

fun parse_opts :: "bytes list \<Rightarrow> afs_args \<Rightarrow> bool \<times> afs_args" where
  "parse_opts [] a = (True, a)"
| "parse_opts (o1 # opts) a =
     (if o1 = c_string ''--entropy'' then
        (case opts of [] \<Rightarrow> (False, a) | v # opts \<Rightarrow> parse_opts opts (a\<lparr>entropy_dir := str_put (entropy_dir a) ENTROPY_DIR_SZ v\<rparr>))
      else if o1 = c_string ''--shadow_passphrase'' then
        (case opts of [] \<Rightarrow> (False, a) | v # opts \<Rightarrow> parse_opts opts (a\<lparr>shadow_passphrase := str_put (shadow_passphrase a) PASSPHRASE_SZ v\<rparr>))
      else (False, a))"

definition args_sensible :: "afs_args \<Rightarrow> bool" where
  "args_sensible a \<longleftrightarrow>
     (if instance_type a = TYPE_CREATE then entropy_dir a ! 0 \<noteq> 0 \<and> shadow_passphrase a ! 0 = 0
      else if instance_type a = TYPE_MOUNT then entropy_dir a ! 0 = 0 \<and> shadow_passphrase a ! 0 = 0
      else if instance_type a = TYPE_SHADOW then entropy_dir a ! 0 \<noteq> 0 \<and> shadow_passphrase a ! 0 \<noteq> 0
      else False)"

definition parse_afs_args :: "(bytes \<Rightarrow> u8 option) \<Rightarrow> afs_args \<Rightarrow> bytes list \<Rightarrow> int \<times> afs_args" where
  "parse_afs_args kstrtou8 a argv = (case argv of
       type_arg # pass # disk # opts \<Rightarrow>
         (let a = zero_args in
          case kstrtou8 type_arg of
            None \<Rightarrow> (- EINVAL, a)
          | Some t \<Rightarrow>
              (let a = a\<lparr>instance_type := t\<rparr>;
                   a = a\<lparr>passphrase := str_put (passphrase a) PASSPHRASE_SZ pass\<rparr>;
                   a = a\<lparr>passive_dev := str_put (passive_dev a) PASSIVE_DEV_SZ disk\<rparr>
               in case parse_opts opts a of
                    (False, a) \<Rightarrow> (- EINVAL, a)
                  | (True, a) \<Rightarrow> if args_sensible a then (0, a) else (- EINVAL, a)))
     | _ \<Rightarrow> (- EINVAL, a))"

section \<open>Detection\<close>

definition FS_FAT32 :: int where "FS_FAT32 = 0"
definition FS_EXT4 :: int where "FS_EXT4 = 1"
definition FS_NTFS :: int where "FS_NTFS = 2"
definition FS_SHADOW :: int where "FS_SHADOW = 3"
definition FS_ERR :: int where "FS_ERR = - 1"

definition detect_fs :: "afs_passive_fs \<Rightarrow> bool \<Rightarrow> kernel \<Rightarrow> (int \<times> afs_passive_fs \<times> bool \<times> kernel) option" where
  "detect_fs fs is_64bit k = (case kmalloc 4096 k of
       (None, k) \<Rightarrow> Some (FS_ERR, fs, is_64bit, k)
     | (Some page, k) \<Rightarrow> do {
         (ret, page, k) \<leftarrow> read_page True page 0 0 False k;
         if ret \<noteq> 0 then Some (FS_ERR, fs, is_64bit, k)
         else do {
           (found, fs, k) \<leftarrow> afs_fat32_detect page fs k;
           if found then Some (FS_FAT32, fs, is_64bit, k)
           else do {
             (found, fs, is_64bit, k) \<leftarrow> afs_ext4_detect page fs is_64bit k;
             if found then Some (FS_EXT4, fs, is_64bit, k)
             else do {
               (found, fs, k) \<leftarrow> afs_ntfs_detect page fs k;
               if found then Some (FS_NTFS, fs, is_64bit, k)
               else do {
                 (found, fs, k) \<leftarrow> afs_shadow_detect page fs k;
                 Some (if found then FS_SHADOW else FS_ERR, fs, is_64bit, k) } } } } })"

section \<open>Construction and destruction\<close>

text \<open>The private data, cleared.\<close>

definition zero_fs :: afs_passive_fs where
  "zero_fs = \<lparr>block_list = [], list_len = 0, sectors_per_block = 0, total_blocks = 0, data_start_off = 0, blocks_in_tuple = 0\<rparr>"

definition zero_private :: afs_private where
  "zero_private = \<lparr>config = \<lparr>num_carrier_blocks = 0, cfg_threshold = 0, num_entropy_blocks = 0, map_entry_sz = 0, unused_space_per_block = 0,
       num_map_entries_per_block = 0, num_blocks = 0, num_map_blocks = 0, num_ptr_blocks = 0, instance_size = 0, bdev_size = 0\<rparr>,
     super_block = sb_of_bytes (replicate 4096 0), passive_fs = zero_fs, args = zero_args, vector = None, afs_map = None,
     afs_map_blocks = None, passphrase_hash = replicate 32 0, afs_ptr_blocks = [], encoding_type = 0\<rparr>"

text \<open>The instance of its type, once device, free list and allocation vector are there.\<close>

definition open_instance :: "afs_private \<Rightarrow> kernel \<Rightarrow> (int \<times> afs_private \<times> kernel) option" where
  "open_instance ctx k =
     (if instance_type (args ctx) = TYPE_CREATE then do {
        cfg \<leftarrow> build_configuration (config ctx) 4 1;
        write_super_block (ctx\<lparr>config := cfg\<rparr>) k }
      else if instance_type (args ctx) = TYPE_MOUNT then find_super_block ctx k
      else Some (0, ctx, k))"

text \<open>The engine on a context, before it has any work.\<close>

definition started :: "afs_private \<Rightarrow> kernel \<Rightarrow> engine" where
  "started ctx k = \<lparr>e_ctx = ctx, e_k = k, e_flight_eq = afs_eq_init, e_rebuild_eq = afs_eq_init, e_ended = []\<rparr>"

lemma started_simps [simp]: "e_ctx (started ctx k) = ctx" "e_k (started ctx k) = k" "e_ended (started ctx k) = []"
  by (simp_all add: started_def)

text \<open>The constructor from the allocation vector on. A result carries the code; with code 0 the engine with its work, which after a mount is
  the rebuild of every block.\<close>

definition start_instance :: "afs_private \<Rightarrow> kernel \<Rightarrow> (int \<times> (engine \<times> work list) option \<times> kernel) option" where
  "start_instance ctx k = do {
     (ret, ctx, k) \<leftarrow> open_instance ctx k;
     if ret \<noteq> 0 then Some (ret, None, k)
     else do {
       let e = started ctx k;
       (e, ws) \<leftarrow> (if instance_type (args ctx) = TYPE_MOUNT then afs_rebuild e else Some (e, []));
       Some (0, Some (e, ws), e_k e) } }"

definition afs_ctr ::
  "(bytes \<Rightarrow> u8 option) \<Rightarrow> (bytes \<Rightarrow> int + u64) \<Rightarrow> u64 \<Rightarrow> bytes list \<Rightarrow> bool \<Rightarrow> kernel \<Rightarrow>
     (int \<times> (engine \<times> work list) option \<times> bool \<times> kernel) option" where
  "afs_ctr kstrtou8 dm_get_device len argv is_64bit k =
     (if \<not> len * ucast AFS_SECTOR_SIZE \<ge> AFS_MIN_SIZE then Some (- EINVAL, None, is_64bit, k)
      else
        (case kmalloc 8192 k of
           (None, k) \<Rightarrow> Some (- ENOMEM, None, is_64bit, k)
         | (Some _, k) \<Rightarrow>
             (let ctx = zero_private\<lparr>config := (config zero_private)\<lparr>instance_size := len * ucast AFS_SECTOR_SIZE\<rparr>\<rparr>;
                  (ret, a) = parse_afs_args kstrtou8 (args ctx) argv;
                  ctx = ctx\<lparr>args := a\<rparr>;
                  (h, k) = sha3_256 (passphrase a) k in
              if h = None then None
              else if ret \<noteq> 0 then Some (ret, None, is_64bit, k)
              else
                (let ctx = ctx\<lparr>passphrase_hash := the h, encoding_type := AONT_RS\<rparr> in
                 case dm_get_device (passive_dev a) of
                   Inl err \<Rightarrow> Some (err, None, is_64bit, k)
                 | Inr sectors \<Rightarrow> do {
                     let ctx = ctx\<lparr>config := (config ctx)\<lparr>bdev_size := sectors\<rparr>\<rparr>;
                     (detected_fs, fs, is_64bit, k) \<leftarrow> detect_fs (passive_fs ctx) is_64bit k;
                     let ctx = ctx\<lparr>passive_fs := fs\<rparr>;
                     if detected_fs = FS_SHADOW then Some (- ENXIO, None, is_64bit, k)
                     else
                       (case bit_vector_create 0xFFFFFFFF k of
                          (None, k) \<Rightarrow> Some (- ENOMEM, None, is_64bit, k)
                        | (Some v, k) \<Rightarrow> do {
                            let ctx = ctx\<lparr>vector := snd (allocation_set (Some v) AFS_INVALID_BLOCK)\<rparr>;
                            (ret, r, k) \<leftarrow> start_instance ctx k;
                            Some (ret, r, is_64bit, k) }) }))))"

text \<open>The destructor waits as long as both queues hold requests; then it writes the map.\<close>

definition afs_dtr :: "engine \<Rightarrow> kernel option" where
  "afs_dtr e =
     (if \<not> afs_eq_empty (e_flight_eq e) \<and> \<not> afs_eq_empty (e_rebuild_eq e) then None
      else do {
        (err, ctx, k) \<leftarrow> afs_create_map_blocks (e_ctx e) (e_k e);
        if err \<noteq> 0 then Some k
        else do {
          (err, ctx, k) \<leftarrow> write_map_blocks ctx True k;
          Some k } })"

section \<open>Arguments are well formed\<close>

text \<open>Every string fits its array and ends with a NUL.\<close>

definition str_ok :: "nat \<Rightarrow> bytes \<Rightarrow> bool" where
  "str_ok n s \<longleftrightarrow> length s = n \<and> s ! (n - 1) = 0"

definition args_ok :: "afs_args \<Rightarrow> bool" where
  "args_ok a \<longleftrightarrow> str_ok 64 (passphrase a) \<and> str_ok 64 (shadow_passphrase a) \<and> str_ok 32 (passive_dev a) \<and> str_ok 64 (entropy_dir a)"

lemma str_put_eq: "str_ok n dst \<Longrightarrow> 0 < n \<Longrightarrow> str_put dst n src = strncpy (n - 1) src @ [0]"
  by (intro nth_equalityI) (auto simp: str_put_def str_ok_def blit_def length_strncpy nth_append)

lemma str_put_ok: "str_ok n dst \<Longrightarrow> 0 < n \<Longrightarrow> str_ok n (str_put dst n src)"
  by (simp add: str_put_eq) (simp add: str_ok_def nth_append length_strncpy)

lemma zero_args_ok: "args_ok zero_args"
  by (simp add: args_ok_def zero_args_def str_ok_def PASSPHRASE_SZ_def PASSIVE_DEV_SZ_def ENTROPY_DIR_SZ_def)

lemma parse_opts_ok:
  "parse_opts opts a = (r, a') \<Longrightarrow> args_ok a \<Longrightarrow> args_ok a' \<and> passphrase a' = passphrase a \<and> passive_dev a' = passive_dev a \<and>
     instance_type a' = instance_type a"
proof (induction opts a rule: parse_opts.induct)
  case (2 o1 opts a)
  then show ?case
    by (auto simp: args_ok_def str_put_ok ENTROPY_DIR_SZ_def PASSPHRASE_SZ_def split: if_splits list.splits)
qed simp

section \<open>A device without a file system\<close>

definition no_fs :: "bytes \<Rightarrow> bool" where
  "no_fs page \<longleftrightarrow> \<not> is_power_of_2 (ucast (bs_bytes_sec (boot_sector_of page))) \<and> s_magic (superblock_of (sub page 1024 1024)) \<noteq> 0xEF53 \<and>
     nt_oem_id (ntfs_boot_sector_of page) \<noteq> ntfs_magic"

lemma fat32_none:
  assumes "alloc_ok k" "length page = 4096" "\<not> is_power_of_2 (ucast (bs_bytes_sec (boot_sector_of page)))"
  shows "\<exists>k'. afs_fat32_detect page fs k = Some (False, fs, k') \<and> idle k k'"
proof -
  let ?k1 = "k\<lparr>k_allocs := Suc (k_allocs k)\<rparr>" and ?k2 = "k\<lparr>k_allocs := Suc (Suc (k_allocs k))\<rparr>"
  obtain p where p: "kmalloc 144 k = (Some p, ?k1)" using kmalloc_alloc_ok [OF assms(1), of 144] by simp
  have "alloc_ok ?k1" using assms(1) by simp
  then obtain boot where b: "kmalloc 512 ?k1 = (Some boot, ?k2)" "length boot = 512" using kmalloc_alloc_ok [of ?k1 512] by simp
  have pk: "peek page 0 512 = Some (take 512 page)" using assms(2) by (simp add: peek_def sub_def)
  have pp: "poke boot 0 (take 512 page) = Some (take 512 page)" using assms(2) b(2) by (simp add: poke_def blit_def)
  have "bs_bytes_sec (boot_sector_of (take 512 page)) = bs_bytes_sec (boot_sector_of page)"
    by (simp add: boot_sector_of_def sub_def drop_take min_def)
  then have "\<not> is_power_of_2 (ucast (bs_bytes_sec (boot_sector_of (take 512 page))))" using assms(3) by simp
  then obtain vol' where "read_boot_sector (raw_volume (k_junk k (k_allocs k))) page ?k1 = Some (-1, vol', ?k2)"
    using b(1) pk pp by (simp add: read_boot_sector_def fat_read_dos_2_0_bpb_def Let_def)
  then show ?thesis using p by (simp add: afs_fat32_detect_def)
qed

lemma ext4_none:
  assumes "alloc_ok k" "length page = 4096" "s_magic (superblock_of (sub page 1024 1024)) \<noteq> 0xEF53"
  shows "\<exists>k'. afs_ext4_detect page fs b k = Some (False, fs, b, k') \<and> idle k k'"
proof -
  obtain mem where m: "kmalloc 1024 k = (Some mem, k\<lparr>k_allocs := Suc (k_allocs k)\<rparr>)" "length mem = 1024"
    using kmalloc_alloc_ok [OF assms(1), of 1024] by simp
  have "poke mem 0 (sub page 1024 1024) = Some (sub page 1024 1024)" using assms(2) m(2) by (simp add: poke_def blit_def)
  then have "read_superblock mem page b = Some (1, superblock_of (sub page 1024 1024), b)"
    using assms(2,3) by (simp add: read_superblock_def peek_def EXT4_GROUP0_PAD_def Let_def)
  then show ?thesis using m(1) by (simp add: afs_ext4_detect_def new_superblock_def)
qed

lemma ntfs_none:
  assumes "length page = 4096" "nt_oem_id (ntfs_boot_sector_of page) \<noteq> ntfs_magic"
  shows "afs_ntfs_detect page fs k = Some (False, fs, k)"
proof -
  have "length (nt_oem_id (ntfs_boot_sector_of page)) = 8" using assms(1) by (simp add: ntfs_boot_sector_of_def)
  then have "\<not> is_ntfs_magic_value (blit (replicate 9 0) 0 (nt_oem_id (ntfs_boot_sector_of page)))"
    using assms(2) by (simp add: is_ntfs_magic_value_def blit_def)
  then show ?thesis by (simp add: afs_ntfs_detect_def ntfs_read_boot_sector_def Let_def)
qed

lemma detect_none:
  assumes "alloc_ok k" "io_ok k" "no_fs (dev_read k 0 4096)"
  shows "\<exists>k'. detect_fs fs b k = Some (FS_ERR, fs, b, k') \<and> idle k k'"
proof -
  let ?p = "dev_read k 0 4096" and ?k1 = "k\<lparr>k_allocs := Suc (k_allocs k)\<rparr>"
  let ?k2 = "tick_io (tick_alloc True ?k1)"
  obtain page where page: "kmalloc 4096 k = (Some page, ?k1)" "length page = 4096" using kmalloc_alloc_ok [OF assms(1), of 4096] by simp
  have fits: "block_fits 0 0" by (simp add: block_fits_def)
  have "get_page 0 ?k1 0 = ?p" by (simp add: get_page_def block_addr_eq [OF fits] dev_read_def)
  then have rd: "read_page True page 0 0 False ?k1 = Some (0, ?p, ?k2)"
    using read_page_eq [of page True ?k1 0 0 False] page(2) assms(2) by (simp add: io_ok_def)
  have i2: "idle k ?k2" using idle_trans [OF idle_tick(1) idle_tick(2)] .
  have ok2: "alloc_ok ?k2" using idleD(2) [OF i2] assms(1) by simp
  obtain k3 where f: "afs_fat32_detect ?p fs ?k2 = Some (False, fs, k3)" "idle ?k2 k3"
    using fat32_none [OF ok2, of ?p fs] assms(3) by (auto simp: no_fs_def)
  have ok3: "alloc_ok k3" using idleD(2) [OF f(2)] ok2 by simp
  obtain k4 where e: "afs_ext4_detect ?p fs b k3 = Some (False, fs, b, k4)" "idle k3 k4"
    using ext4_none [OF ok3, of ?p fs b] assms(3) by (auto simp: no_fs_def)
  have n: "afs_ntfs_detect ?p fs k4 = Some (False, fs, k4)" using ntfs_none [of ?p] assms(3) by (simp add: no_fs_def)
  have "detect_fs fs b k = Some (FS_ERR, fs, b, k4)"
    using page(1) rd f(1) e(1) n by (simp add: detect_fs_def afs_shadow_detect_def)
  moreover have "idle k k4" using i2 f(2) e(2) idle_trans by blast
  ultimately show ?thesis by blast
qed

text \<open>The search for the place of the super block does not end on an empty free list.\<close>

lemma place_loop_empty:
  assumes "block_list fs = []" "list_len fs = 0"
  shows "place_loop fs d h b k = None"
proof -
  have "s32 (uint ((0 :: u32) - 1)) = - 1" by code_simp
  then have none: "binary_search [] v 0 = Some (- 1)" for v
    unfolding binary_search_def by (simp only: Let_def) (simp add: binary_search_loop.simps)
  have "fs' \<noteq> fs" if "place_loop fs' d h b k = Some r" for fs' r
  proof (rule place_loop.raw_induct [where P = "\<lambda>fs' d h b k r. fs' \<noteq> fs", OF _ that])
    fix loop fs' d h b k r
    assume IH: "\<And>fs' d h b k r. loop fs' d h b k = Some r \<Longrightarrow> fs' \<noteq> fs"
      and step: "(case binary_search (block_list fs') b (list_len fs') of None \<Rightarrow> None
        | Some r \<Rightarrow> if r = - 1 then (case rehash h k of (h, k) \<Rightarrow> loop fs' d h (digest_block h d) k) else Some (h, b, k)) = Some r"
    obtain h' k' where "rehash h k = (h', k')" by fastforce
    then show "fs' \<noteq> fs" using step assms none IH [of fs' d h' "digest_block h' d" k' r] by auto
  qed
  then show ?thesis by (metis not_None_eq)
qed

lemma write_super_block_empty: "block_list (passive_fs ctx) = [] \<Longrightarrow> list_len (passive_fs ctx) = 0 \<Longrightarrow> write_super_block ctx k = None"
  by (simp add: write_super_block_def Let_def place_loop_empty split: prod.splits)

lemma sha3_idle: "alloc_ok k \<Longrightarrow> \<exists>h k'. sha3_256 m k = (Some h, k') \<and> idle k k'"
  using sha3_256_digest [of k m] sha3_256_quiet [of m k] by (auto simp: idle_def quiet_def)

section \<open>Properties\<close>

text \<open>C39: Accepted arguments are well formed: every string fits its array and ends with a NUL (a longer one is cut), passphrase and
  device are those given, the type is one of the three, and the entropy directory and the shadow passphrase are given
  exactly for the types that need them.\<close>

theorem parse_args_wf:
  assumes "parse_afs_args kstrtou8 a0 argv = (0, a)"
  shows "args_ok a \<and> 3 \<le> length argv \<and> passphrase a = strncpy 63 (argv ! 1) @ [0] \<and> passive_dev a = strncpy 31 (argv ! 2) @ [0] \<and>
    kstrtou8 (argv ! 0) = Some (instance_type a) \<and> instance_type a \<in> {TYPE_CREATE, TYPE_MOUNT, TYPE_SHADOW} \<and>
    (entropy_dir a ! 0 \<noteq> 0 \<longleftrightarrow> instance_type a \<noteq> TYPE_MOUNT) \<and> (shadow_passphrase a ! 0 \<noteq> 0 \<longleftrightarrow> instance_type a = TYPE_SHADOW)"
proof -
  obtain t p d opts where argv: "argv = t # p # d # opts"
    using assms by (auto simp: parse_afs_args_def EINVAL_def split: list.splits)
  obtain ty where ty: "kstrtou8 t = Some ty" using assms argv by (cases "kstrtou8 t") (auto simp: parse_afs_args_def EINVAL_def)
  let ?a = "zero_args\<lparr>instance_type := ty, passphrase := str_put (passphrase zero_args) PASSPHRASE_SZ p,
    passive_dev := str_put (passive_dev zero_args) PASSIVE_DEV_SZ d\<rparr>"
  obtain r a' where po: "parse_opts opts ?a = (r, a')" by fastforce
  then have a: "r" "a = a'" "args_sensible a"
    using assms argv ty by (auto simp: parse_afs_args_def Let_def EINVAL_def split: bool.splits if_splits)
  have z: "str_ok 64 (passphrase zero_args)" "str_ok 32 (passive_dev zero_args)" using zero_args_ok by (simp_all add: args_ok_def)
  then have "args_ok ?a" using zero_args_ok str_put_ok by (simp add: args_ok_def PASSPHRASE_SZ_def PASSIVE_DEV_SZ_def)
  from parse_opts_ok [OF po this] have o: "args_ok a" "passphrase a = str_put (passphrase zero_args) 64 p"
    "passive_dev a = str_put (passive_dev zero_args) 32 d" "instance_type a = ty"
    using a(2) by (simp_all add: PASSPHRASE_SZ_def PASSIVE_DEV_SZ_def)
  have "instance_type a \<in> {TYPE_CREATE, TYPE_MOUNT, TYPE_SHADOW}"
      "entropy_dir a ! 0 \<noteq> 0 \<longleftrightarrow> instance_type a \<noteq> TYPE_MOUNT" "shadow_passphrase a ! 0 \<noteq> 0 \<longleftrightarrow> instance_type a = TYPE_SHADOW"
    using a(3) by (auto simp: args_sensible_def TYPE_CREATE_def TYPE_MOUNT_def TYPE_SHADOW_def split: if_splits)
  then show ?thesis using o argv ty z by (simp add: str_put_eq)
qed

text \<open>C40: On a device on which no file system is recognised the constructor goes on with an empty free list, and the creation of an
  instance never returns.\<close>

theorem ctr_create_without_fs_hangs:
  assumes "alloc_ok k" "io_ok k" "no_fs (dev_read k 0 4096)" "AFS_MIN_SIZE \<le> len * 512"
    and "parse_afs_args kstrtou8 zero_args argv = (0, a)" "instance_type a = TYPE_CREATE" "dm_get_device (passive_dev a) = Inr sectors"
  shows "afs_ctr kstrtou8 dm_get_device len argv is_64bit k = None"
proof -
  let ?k1 = "k\<lparr>k_allocs := Suc (k_allocs k)\<rparr>"
  obtain p where p: "kmalloc 8192 k = (Some p, ?k1)" using kmalloc_alloc_ok [OF assms(1), of 8192] by simp
  obtain h k2 where h: "sha3_256 (passphrase a) ?k1 = (Some h, k2)" "idle ?k1 k2" using sha3_idle [of ?k1 "passphrase a"] assms(1) by auto
  have i2: "idle k k2" using idle_tick(1) h(2) by (rule idle_trans)
  have ok2: "alloc_ok k2" "io_ok k2" "dev_read k2 = dev_read k" using idleD [OF i2] assms(1,2) by simp_all
  obtain k3 where d: "detect_fs zero_fs is_64bit k2 = Some (FS_ERR, zero_fs, is_64bit, k3)" "idle k2 k3"
    using detect_none [OF ok2(1,2), of zero_fs is_64bit] ok2(3) assms(3) by auto
  have ok3: "alloc_ok k3" using idleD(2) [OF d(2)] ok2(1) by simp
  obtain v k4 where v: "bit_vector_create 0xFFFFFFFF k3 = (Some v, k4)"
    using ok3 by (simp add: bit_vector_create_def kmalloc_alloc_ok)
  have "start_instance ctx k4 = None" if "args ctx = a" "passive_fs ctx = zero_fs" for ctx
    using that assms(6) by (auto simp: start_instance_def open_instance_def write_super_block_empty zero_fs_def split: bind_splits)
  then show ?thesis
    using p h(1) d(1) v assms(4-7)
    by (simp add: afs_ctr_def zero_private_def AFS_SECTOR_SIZE_def FS_ERR_def FS_SHADOW_def not_le)
qed

text \<open>Arguments for an instance, and a parser of its type.\<close>

definition demo_argv :: "bytes list" where
  "demo_argv = map c_string [''0'', ''secret'', ''/dev/sdb1'', ''--entropy'', ''/home'']"

definition demo_kstrtou8 :: "bytes \<Rightarrow> u8 option" where
  "demo_kstrtou8 s = (if s = c_string ''0'' then Some 0 else if s = c_string ''1'' then Some 1 else None)"

lemma demo_argv_parsed: "fst (parse_afs_args demo_kstrtou8 zero_args demo_argv) = 0"
  "instance_type (snd (parse_afs_args demo_kstrtou8 zero_args demo_argv)) = TYPE_CREATE"
  by code_simp+

theorem parse_args_wf_witness:
  "args_ok (snd (parse_afs_args demo_kstrtou8 zero_args demo_argv)) \<and>
     passphrase (snd (parse_afs_args demo_kstrtou8 zero_args demo_argv)) = strncpy 63 (c_string ''secret'') @ [0]"
  using parse_args_wf [of demo_kstrtou8 zero_args demo_argv "snd (parse_afs_args demo_kstrtou8 zero_args demo_argv)"] demo_argv_parsed(1)
  by (cases "parse_afs_args demo_kstrtou8 zero_args demo_argv") (simp add: demo_argv_def)

lemma zero_page_no_fs: "no_fs (dev_read demo_kernel 0 4096)"
proof -
  have z: "dev_read demo_kernel 0 4096 = replicate 4096 0" by (intro nth_equalityI) (simp_all add: dev_read_def demo_kernel_def)
  have s: "sub (replicate 4096 (0 :: u8)) off n = replicate n 0" if "off + n \<le> 4096" for off n using that by (simp add: sub_def min_def)
  have r: "sub (replicate 1024 (0 :: u8)) off n = replicate n 0" if "off + n \<le> 1024" for off n using that by (simp add: sub_def min_def)
  have m: "replicate 8 (0 :: u8) \<noteq> [78, 84, 70, 83, 32, 32, 32, 32]" by code_simp
  have w: "(le_word (replicate n 0) :: 'a::len word) = 0" for n by (induction n) simp_all
  show ?thesis
    by (simp add: no_fs_def z s r w boot_sector_of_def superblock_of_def ntfs_boot_sector_of_def is_power_of_2_def ntfs_magic_def m)
qed

theorem ctr_create_without_fs_hangs_witness: "afs_ctr demo_kstrtou8 (\<lambda>_. Inr 2097152) 128 demo_argv False demo_kernel = None"
proof -
  let ?a = "snd (parse_afs_args demo_kstrtou8 zero_args demo_argv)"
  have "parse_afs_args demo_kstrtou8 zero_args demo_argv = (0, ?a)" using demo_argv_parsed(1) by (metis prod.collapse)
  then show ?thesis
    using demo_kernel_ok zero_page_no_fs demo_argv_parsed(2)
    by (intro ctr_create_without_fs_hangs [where a = ?a and sectors = 2097152]) (simp_all add: AFS_MIN_SIZE_def)
qed

end
