(* ===== verification/Afs_Rebuild.thy ===== *)
theory Afs_Rebuild
  imports Afs_Target
begin

text \<open>
  What a mount starts: \<open>afs_rebuild\<close> (\<open>src/src/dm_afs.c\<close>) queues a request for every block. Its requests have no bio, so the
  request of a block that is allocated reads the carrier blocks and then faults in the decoder; none of them changes the map, the
  allocation vector or the device.
\<close>

section \<open>Requests without a bio\<close>

definition no_bio :: "afs_map_request \<Rightarrow> bool" where
  "no_bio req \<longleftrightarrow> (\<forall>b. req_bio req \<noteq> Bio b) \<and> encoder req = None \<and> req_encoding_type req = AONT_RS"

text \<open>The work that comes from a rebuild request.\<close>

fun rebuild_work :: "work \<Rightarrow> bool" where
  "rebuild_work (Flight req) = False"
| "rebuild_work (WriteIO req pend) = False"
| "rebuild_work (Rebuild req) = no_bio req"
| "rebuild_work (ReadIO req pend) = no_bio req"
| "rebuild_work (Crypto req) = no_bio req"

text \<open>Steps that leave the instance and the device alone.\<close>

definition unmoved :: "engine \<Rightarrow> engine \<Rightarrow> bool" where
  "unmoved e e' \<longleftrightarrow> e_ctx e' = e_ctx e \<and> e_ended e' = e_ended e \<and> e_flight_eq e' = e_flight_eq e \<and> idle (e_k e) (e_k e')"

lemma unmoved_refl [simp]: "unmoved e e"
  by (simp add: unmoved_def)

lemma unmoved_trans [trans]: "unmoved e e1 \<Longrightarrow> unmoved e1 e2 \<Longrightarrow> unmoved e e2"
  by (auto simp: unmoved_def intro: idle_trans)

lemma unmoved_k [simp]: "unmoved e (e\<lparr>e_k := k\<rparr>) \<longleftrightarrow> idle (e_k e) k"
  by (simp add: unmoved_def)

lemma unmoved_vol: "unmoved e e' \<Longrightarrow> vol e' = vol e" "unmoved e e' \<Longrightarrow> vblock e' = vblock e" "unmoved e e' \<Longrightarrow> mapped e' = mapped e"
  by (auto simp: unmoved_def fun_eq_iff vol_def vblock_def mapped_def eptr_def epos_def dest: idleD)

lemma unmoved_readable:
  assumes "unmoved e e'" "readable e d"
  shows "readable e' d"
proof -
  have ctx: "e_ctx e' = e_ctx e" and idle: "idle (e_k e) (e_k e')" using assms(1) by (simp_all add: unmoved_def)
  have k: "io_ok (e_k e') = io_ok (e_k e)" "alloc_ok (e_k e') = alloc_ok (e_k e)" using idleD [OF idle] by simp_all
  have "k_dev (e_k e') = k_dev (e_k e)" using idle by (simp add: idle_def)
  from get_page_dev_cong [OF this] have page: "vpage e' b = vpage e b" for b using ctx by simp
  have same: "vol e' = vol e" "vblock e' = vblock e" "mapped e' = mapped e" "ptrs e' = ptrs e" "eptr e' = eptr e" "esum e' = esum e"
    using ctx k by (simp_all add: fun_eq_iff vol_def vblock_def mapped_def ptrs_def eptr_def esum_def epos_def)
  have "stored e' = stored e" using same ctx page by (simp add: fun_eq_iff stored_def)
  then have "holds_at e' = holds_at e" using same by (intro ext) (simp add: holds_at_def split: option.split)
  then show ?thesis using assms(2) same ctx by (simp add: readable_def readable_at_def)
qed

section \<open>Their steps\<close>

lemma load_block_nums_no_bio:
  "load_block_nums n i req e = Some req' \<Longrightarrow> no_bio req' = no_bio req \<and> req_block req' = req_block req"
proof (induction n arbitrary: i req)
  case (Suc n)
  then show ?case by (fastforce simp: put_block_num_def no_bio_def split: bind_splits if_splits)
qed simp

lemma kmalloc_idle: "kmalloc n k = (p, k') \<Longrightarrow> idle k k'"
  by (auto simp: kmalloc_def idle_def split: if_splits)

lemma read_pages_no_bio:
  assumes "read_pages req n e = Some (ret, req', e', ws)" "no_bio req" "0 < n"
  shows "ret = 0" "unmoved e e'" "\<exists>r pend. ws = [ReadIO r pend] \<and> no_bio r \<and> req_block r = req_block req"
  using assms by (auto simp: read_pages_def Let_def no_bio_def kmalloc_idle split: prod.splits option.splits bind_splits)

lemma start_reads_no_bio:
  assumes "start_reads req e = Some (ret, req', e', ws)" "no_bio req" "0 < ncar e"
  shows "ret = 0" "unmoved e e'" "\<exists>r pend. ws = [ReadIO r pend] \<and> no_bio r \<and> req_block r = req_block req"
proof -
  have "req_encoding_type req \<noteq> SHAMIR" using assms(2) by (simp add: no_bio_def AONT_RS_def SHAMIR_def)
  then obtain r1 ret1 where r: "load_block_nums (ncar e) 0 req e = Some r1" "read_pages r1 (ncar e) e = Some (ret1, req', e', ws)"
      "ret = (if ret1 \<noteq> 0 then - EIO else 0)"
    using assms(1) by (auto simp: start_reads_def split: bind_splits)
  have "no_bio r1" "req_block r1 = req_block req" using load_block_nums_no_bio [OF r(1)] assms(2) by simp_all
  then show "ret = 0" "unmoved e e'" "\<exists>r pend. ws = [ReadIO r pend] \<and> no_bio r \<and> req_block r = req_block req"
    using read_pages_no_bio [OF r(2) _ assms(3)] r(3) by simp_all
qed

lemma afs_req_clean_no_bio: "afs_req_clean req e = Some e' \<Longrightarrow> no_bio req \<Longrightarrow> e' = e"
  by (auto simp: afs_req_clean_def no_bio_def free_encoder_def split: bio_ptr.splits)

lemma crypto_faults:
  assumes "no_bio req"
  shows "afs_cryptoq g req e = None"
proof -
  have "req_bio r2 \<noteq> Bio b" if "check_carriers (ncar e) 0 req e = Some r1" "decode_block g r1 e = Some (r2, e2)" for r1 r2 e2 b
    using check_carriers_bio [OF that(1)] decode_block_frame [OF that(2)] assms by (simp add: no_bio_def)
  then have "afs_read_decode g req e = None"
    by (auto simp: afs_read_decode_def split: bind_splits bio_ptr.splits)
  then show ?thesis by (simp add: afs_cryptoq_def)
qed

lemma rebuild_step:
  assumes "run_work g w i e = Some (e', ws)" "rebuild_work w" "vol e"
  shows "unmoved e e'" "\<forall>w' \<in> set ws. rebuild_work w'"
    "vblock e (req_block (work_req w)) \<Longrightarrow> mapped e (req_block (work_req w)) \<Longrightarrow>
      \<exists>w' \<in> set ws. req_block (work_req w') = req_block (work_req w)"
proof -
  have n: "0 < ncar e" using volD(5) [OF assms(3)] by simp
  have "unmoved e e' \<and> (\<forall>w' \<in> set ws. rebuild_work w') \<and>
      (vblock e (req_block (work_req w)) \<and> mapped e (req_block (work_req w)) \<longrightarrow> (\<exists>w' \<in> set ws. req_block (work_req w') = req_block (work_req w)))"
  proof (cases w)
    case (Rebuild req)
    let ?r = "req\<lparr>req_state := REQ_STATE_FLIGHT, map_entry := afs_get_map_entry (vcfg e) (req_block req)\<rparr>"
    have nb: "no_bio ?r" "req_block ?r = req_block req" using assms(2) Rebuild by (simp_all add: no_bio_def)
    obtain ret r1 e1 where r: "afs_rebuild_request (req\<lparr>req_state := REQ_STATE_FLIGHT\<rparr>) e = Some (ret, r1, e1, ws)"
        "if ret = 0 then e' = e1 else afs_req_clean r1 e1 = Some e'"
      using assms(1) Rebuild by (auto simp: afs_rebuildq_def split: bind_splits if_splits)
    obtain b0 where b0: "get_ptr e (map_entry ?r) 0 = Some b0"
      using r(1) by (auto simp: afs_rebuild_request_def Let_def split: bind_splits)
    show ?thesis
    proof (cases "b0 = AFS_INVALID_BLOCK")
      case True
      then have c: "afs_req_clean ?r e = Some e1" "ret = 0" "ws = []"
        using r(1) b0 by (auto simp: afs_rebuild_request_def Let_def split: bind_splits)
      have "\<not> mapped e (req_block req)" if "vblock e (req_block req)"
        using get_ptr_eptr [OF assms(3) that, of 0] n True b0 by (simp add: mapped_def get_map_entry_epos [OF assms(3) that])
      then show ?thesis using afs_req_clean_no_bio [OF c(1) nb(1)] c(2,3) r(2) Rebuild by auto
    next
      case False
      then have "start_reads ?r e = Some (ret, r1, e1, ws)" using r(1) b0 by (simp add: afs_rebuild_request_def Let_def)
      from start_reads_no_bio [OF this nb(1) n] show ?thesis using r(2) Rebuild nb(2) by auto
    qed
  next
    case (ReadIO req pend)
    obtain page where p: "carrier_blocks req ! i = Some page" "read_done req pend i e = Some (e', ws)"
      using assms(1) ReadIO by (auto simp: read_done_def split: if_splits bind_splits)
    obtain page' k where s: "submit_bio_wait False (carrier_sector e (block_nums req ! i)) AFS_BLOCK_SIZE page (e_k e) = (page', k)" by fastforce
    have "idle (e_k e) k" using s by (auto simp: submit_bio_wait_def Let_def idle_def split: if_splits)
    then show ?thesis using p s assms(2) ReadIO by (auto simp: read_done_def afs_read_endio_def no_bio_def Let_def split: if_splits)
  next
    case (Crypto req)
    then show ?thesis using assms(1,2) crypto_faults by simp
  qed (use assms(2) in simp_all)
  then show "unmoved e e'" "\<forall>w' \<in> set ws. rebuild_work w'"
    "vblock e (req_block (work_req w)) \<Longrightarrow> mapped e (req_block (work_req w)) \<Longrightarrow>
      \<exists>w' \<in> set ws. req_block (work_req w') = req_block (work_req w)" by blast+
qed

section \<open>The constructor after a mount\<close>

lemma get_carriers_bio: "get_carriers n i req k = Some (req', k') \<Longrightarrow> req_bio req' = req_bio req"
proof (induction n arbitrary: i req k)
  case (Suc n)
  then show ?case by (fastforce split: if_splits prod.splits)
qed simp

lemma init_request_no_bio: "init_request ctx k = Some (Some req, k') \<Longrightarrow> req_bio req \<noteq> Bio b"
  by (auto simp: init_request_def raw_request_def Let_def split: prod.splits option.splits bind_splits if_splits dest!: get_carriers_bio)

lemma rebuild_loop_ok:
  assumes "vol e"
  shows "\<exists>e' ws. rebuild_loop n i e = Some (e', ws) \<and> unmoved e e' \<and> (\<forall>w \<in> set ws. rebuild_work w) \<and>
    map (\<lambda>w. req_block (work_req w)) ws = map of_nat [i..<i + n]"
  using assms
proof (induction n arbitrary: i e)
  case (Suc n)
  obtain req k where r: "init_request (e_ctx e) (e_k e) = Some (Some req, k)" "quiet (e_k e) k" "rq_ok (ncar e) req"
    using init_request_ok [OF Suc.prems] by blast
  have "idle (e_k e) k" using r(2) by (auto simp: quiet_def idle_def)
  then have um: "unmoved e (e\<lparr>e_k := k\<rparr>)" by simp
  have "vol (e\<lparr>e_k := k\<rparr>)" using Suc.prems unmoved_vol(1) [OF um] by simp
  from Suc.IH [OF this, of "Suc i"] obtain e' ws where IH: "rebuild_loop n (Suc i) (e\<lparr>e_k := k\<rparr>) = Some (e', ws)"
      "unmoved (e\<lparr>e_k := k\<rparr>) e'" "\<forall>w \<in> set ws. rebuild_work w" "map (\<lambda>w. req_block (work_req w)) ws = map of_nat [Suc i..<Suc i + n]"
    by blast
  have "no_bio req" using r(3) init_request_no_bio [OF r(1)] by (simp add: no_bio_def rq_ok_def)
  then have "rebuild_work (Rebuild (req\<lparr>req_block := of_nat i, req_sector_offset := 0, request_size := AFS_BLOCK_SIZE\<rparr>))"
    by (simp add: no_bio_def)
  moreover have "[i..<i + Suc n] = i # [Suc i..<Suc i + n]" by (simp add: upt_conv_Cons)
  ultimately show ?case using r(1) IH unmoved_trans [OF um IH(2)] by (simp del: upt_Suc)
qed simp

text \<open>All that work can do to a volume that has been mounted from \<open>e0\<close>.\<close>

definition rebuilds :: "engine \<Rightarrow> engine \<times> work list \<Rightarrow> bool" where
  "rebuilds e0 = (\<lambda>(e, us). unmoved e0 e \<and> (\<forall>w \<in> set us. rebuild_work w) \<and>
     (\<forall>blk. vblock e0 blk \<and> mapped e0 blk \<longrightarrow> (\<exists>w \<in> set us. req_block (work_req w) = blk)))"

lemma rebuilds_step:
  assumes "afs_step g s t" "rebuilds e0 s" "vol e0"
  shows "rebuilds e0 t"
  using assms(1)
proof (cases rule: afs_step.cases)
  case (afs_step_run w i e e' ws us vs)
  have um: "unmoved e0 e" and rw: "rebuild_work w" using assms(2) afs_step_run(1) by (auto simp: rebuilds_def)
  note same = unmoved_vol [OF um]
  note step = rebuild_step [OF afs_step_run(3) rw]
  have "unmoved e0 e'" using um step(1) same assms(3) unmoved_trans by blast
  moreover have "\<exists>w' \<in> set (us @ ws @ vs). req_block (work_req w') = blk" if "vblock e0 blk" "mapped e0 blk" for blk
  proof -
    have "\<forall>blk. vblock e0 blk \<and> mapped e0 blk \<longrightarrow> (\<exists>w0 \<in> set (us @ w # vs). req_block (work_req w0) = blk)"
      using assms(2) unfolding afs_step_run(1) rebuilds_def by blast
    then obtain w0 where "w0 \<in> set (us @ w # vs)" "req_block (work_req w0) = blk" using \<open>vblock e0 blk\<close> \<open>mapped e0 blk\<close> by blast
    then show ?thesis using step(3) same assms(3) that by (cases "w0 = w") auto
  qed
  ultimately show ?thesis using step(2) same assms(2,3) afs_step_run(1,2) by (auto simp: rebuilds_def)
qed

lemma rebuilds_steps:
  assumes "afs_steps g s t" "rebuilds e0 s" "vol e0"
  shows "rebuilds e0 t"
  using assms by (induction rule: rtranclp_induct) (auto dest: rebuilds_step)

lemma afs_rebuild_ok:
  assumes "vol e"
  shows "\<exists>e' ws. afs_rebuild e = Some (e', ws) \<and> rebuilds e (e', ws)"
proof -
  obtain e' ws where r: "rebuild_loop (cnb (vcfg e)) 0 e = Some (e', ws)" "unmoved e e'" "\<forall>w \<in> set ws. rebuild_work w"
      "map (\<lambda>w. req_block (work_req w)) ws = map of_nat [0..<cnb (vcfg e)]"
    using rebuild_loop_ok [OF assms, of "cnb (vcfg e)" 0] by auto
  have "\<exists>w \<in> set ws. req_block (work_req w) = blk" if "vblock e blk" for blk
  proof -
    have "unat blk \<in> set [0..<cnb (vcfg e)]" using that by (simp add: vblock_def word_less_nat_alt)
    then have "of_nat (unat blk) \<in> (of_nat ` set [0..<cnb (vcfg e)] :: u32 set)" by (rule imageI)
    then have "blk \<in> set (map (\<lambda>w. req_block (work_req w)) ws)" unfolding r(4) by simp
    then show ?thesis by auto
  qed
  then show ?thesis using r by (auto simp: afs_rebuild_def rebuilds_def)
qed

text \<open>\<open>mounts_with g ctx k d\<close>: the constructor succeeds on the context \<open>ctx\<close>. In every state that the rebuild requests it queues can
  reach, the volume reads as \<open>d\<close>; the request of a block that \<open>d\<close> holds is never done with, and its decoding faults.\<close>

definition mounts_with :: "gf_ctx \<Rightarrow> afs_private \<Rightarrow> kernel \<Rightarrow> (u32 \<Rightarrow> bytes option) \<Rightarrow> bool" where
  "mounts_with g ctx k d \<longleftrightarrow> (\<exists>e ws k2. start_instance ctx k = Some (0, Some (e, ws), k2) \<and>
     (\<forall>e' us. afs_steps g (e, ws) (e', us) \<longrightarrow> readable e' d \<and>
        (\<forall>blk. vblock e' blk \<and> d blk \<noteq> None \<longrightarrow> (\<exists>w \<in> set us. req_block (work_req w) = blk)) \<and>
        (\<forall>req. Crypto req \<in> set us \<longrightarrow> afs_cryptoq g req e' = None)))"

lemma mounts_withI:
  assumes "find_super_block ctx k = Some (0, ctx2, k2)" "args ctx2 = args ctx" "instance_type (args ctx) = TYPE_MOUNT"
    and "readable (started ctx2 k2) d"
  shows "mounts_with g ctx k d"
proof -
  let ?e0 = "started ctx2 k2"
  have vol: "vol ?e0" using assms(4) by (simp add: readable_def)
  obtain e ws where r: "afs_rebuild ?e0 = Some (e, ws)" "rebuilds ?e0 (e, ws)" using afs_rebuild_ok [OF vol] by blast
  have "TYPE_MOUNT \<noteq> TYPE_CREATE" by (simp add: TYPE_MOUNT_def TYPE_CREATE_def)
  then have "start_instance ctx k = Some (0, Some (e, ws), e_k e)"
    using assms(1-3) r(1) by (simp add: start_instance_def open_instance_def)
  moreover have "readable e' d \<and> (\<forall>blk. vblock e' blk \<and> d blk \<noteq> None \<longrightarrow> (\<exists>w \<in> set us. req_block (work_req w) = blk)) \<and>
      (\<forall>req. Crypto req \<in> set us \<longrightarrow> afs_cryptoq g req e' = None)" if "afs_steps g (e, ws) (e', us)" for e' us
  proof -
    have "rebuilds ?e0 (e', us)" using rebuilds_steps [OF that r(2) vol] .
    then have s: "unmoved ?e0 e'" "\<forall>w \<in> set us. rebuild_work w"
        "\<And>blk. vblock ?e0 blk \<Longrightarrow> mapped ?e0 blk \<Longrightarrow> \<exists>w \<in> set us. req_block (work_req w) = blk"
      by (auto simp: rebuilds_def)
    have "mapped ?e0 blk" if "vblock ?e0 blk" "d blk \<noteq> None" for blk
      using assms(4) that by (auto simp: readable_def readable_at_def holds_at_def)
    then show ?thesis
      using unmoved_readable [OF s(1) assms(4)] s(2,3) crypto_faults unmoved_vol(2) [OF s(1)] by fastforce
  qed
  ultimately show ?thesis unfolding mounts_with_def by blast
qed

end
