(* ===== verification/Afs_Remount.thy ===== *)
theory Afs_Remount
  imports Afs_Rebuild
begin

text \<open>
  The life of a volume across mounts: an instance in use is \<open>anchored\<close>, its super block and its map blocks are where a
  mount looks for them and no carrier block is among them. Creation anchors it and writes keep it anchored; the destructor
  flushes the map, and the constructor of a mount with the same passphrase finds a volume with the same contents, which the rebuild
  requests it queues leave alone.
\<close>

section \<open>Anchored volumes\<close>

definition map_homes :: "engine \<Rightarrow> u32 set" where
  "map_homes e = set (take (cnm (vcfg e)) (sb_map_block_ptrs (super_block (e_ctx e))))"

text \<open>The super block is found from the passphrase in block \<open>c\<close>.\<close>

definition placed_at :: "engine \<Rightarrow> u32 \<Rightarrow> bool" where
  "placed_at e c \<longleftrightarrow>
     (let dsize = ucast (bdev_size (vcfg e) div 8); h = k_sha1 (e_k e) (take 64 (passphrase (args (e_ctx e)))) in
      dsize \<noteq> 0 \<and>
      (\<exists>h' b k0 k2. place_loop (vfs e) dsize h (digest_block h dsize) k0 = Some (h', b, k2) \<and>
         k_sha1 k0 = k_sha1 (e_k e) \<and> alloc_ok k0 \<and> block_list_at (vfs e) b = Some c))"

definition anchored :: "engine \<Rightarrow> u32 \<Rightarrow> bool" where
  "anchored e c \<longleftrightarrow> placed_at e c \<and> vpage e c = sb_bytes (super_block (e_ctx e)) \<and> laid_out (e_ctx e) c \<and>
     sealed (e_k e) (super_block (e_ctx e)) \<and> sb_instance_size (super_block (e_ctx e)) = instance_size (vcfg e) \<and>
     cfg_ok (vcfg e) \<and> 0 < num_blocks (vcfg e) \<and> num_map_blocks (vcfg e) \<le> 975 \<and> digests_ok (e_k e) \<and>
     (\<forall>blk. vblock e blk \<and> mapped e blk \<longrightarrow> set (ptrs e blk) \<inter> insert c (map_homes e) = {})"

lemma laid_outD:
  assumes "laid_out (e_ctx e) c"
  shows "distinct (take (cnm (vcfg e)) (sb_map_block_ptrs (super_block (e_ctx e))))" "insert c (map_homes e) \<subseteq> vtaken e" "c \<notin> map_homes e"
    "open_vector (vector (e_ctx e))"
  using assms by (auto simp: laid_out_def Let_def map_homes_def)

lemma anchored_cfg:
  assumes "anchored e c"
  shows "map_geom (vcfg e)" "num_ptr_blocks (vcfg e) = 0" "cnm (vcfg e) \<le> 975" "length (sb_map_block_ptrs (super_block (e_ctx e))) = 975"
proof -
  have "0 < cnb (vcfg e)" and le: "cnm (vcfg e) \<le> 975" using assms by (simp_all add: anchored_def word_less_nat_alt word_le_nat_alt)
  then show "map_geom (vcfg e)" "num_ptr_blocks (vcfg e) = 0" "cnm (vcfg e) \<le> 975"
    using map_geomI [of "vcfg e"] assms by (auto simp: anchored_def)
  show "length (sb_map_block_ptrs (super_block (e_ctx e))) = 975" using assms by (simp add: anchored_def sealed_def sb_ok_def)
qed

section \<open>Writes keep a volume anchored\<close>

lemma anchored_keeps:
  assumes "anchored e c" "keeps {blk} (homes e blk) e e'" "vol e" "vblock e blk" "set (ptrs e' blk) \<inter> vtaken e = homes e blk"
  shows "anchored e' c"
proof -
  note k = keepsD [OF assms(2)] and a = assms(1) [unfolded anchored_def]
  have inst: "super_block (e_ctx e') = super_block (e_ctx e)" "args (e_ctx e') = args (e_ctx e)" "k_sha1 (e_k e') = k_sha1 (e_k e)"
      "k_sha256 (e_k e') = k_sha256 (e_k e)" "k_sha512 (e_k e') = k_sha512 (e_k e)"
    using k(11) by (simp_all add: same_instance_def)
  have lo: "laid_out (e_ctx e) c" using a by simp
  note l = laid_outD [OF lo]
  have own: "homes e blk \<inter> insert c (map_homes e) = {}" using a assms(4) by (auto simp: homes_def)
  then have page: "vpage e' c = vpage e c" using k(8) [of c] l(2) by blast
  have mh: "map_homes e' = map_homes e" using k(2) inst(1) by (simp add: map_homes_def)
  have "set (ptrs e' b) \<inter> insert c (map_homes e) = {}" if b: "vblock e b" "mapped e' b" for b
  proof (cases "b = blk")
    case True
    then show ?thesis using assms(5) own l(2) by blast
  next
    case False
    then have "mapped e b" "ptrs e' b = ptrs e b"
      using keeps_mapped [OF assms(2) b(1) _ assms(3)] keeps_ptrs [OF assms(2) b(1)] b(2) by simp_all
    then show ?thesis using a b(1) by auto
  qed
  then have apart: "\<forall>b. vblock e' b \<and> mapped e' b \<longrightarrow> set (ptrs e' b) \<inter> insert c (map_homes e') = {}" using k(9) mh by simp
  have "laid_out (e_ctx e') c"
    using lo k(2,3,5) inst(1) volD(13) [OF k(1)] by (auto simp: laid_out_def Let_def)
  moreover have "sealed (e_k e') (super_block (e_ctx e'))" "digests_ok (e_k e')" using a inst by (simp_all add: sealed_def digests_ok_def)
  moreover have "placed_at e' c" using a k(2,3) inst by (simp add: placed_at_def Let_def)
  ultimately show ?thesis using a k(2) inst(1) page apart by (simp add: anchored_def)
qed

section \<open>The destructor\<close>

lemma dtr_flushes:
  assumes "vol e" "anchored e c" "afs_eq_empty (e_flight_eq e) \<or> afs_eq_empty (e_rebuild_eq e)"
  shows "\<exists>k'. afs_dtr e = Some k' \<and> created (e_ctx e) (e_k e) (e_ctx e) k' (vmap e) \<and>
    (\<forall>b \<in> vtaken e - map_homes e. get_page (voff e) k' b = vpage e b)"
proof -
  let ?ctx = "e_ctx e" and ?cfg = "vcfg e" and ?off = "voff e" and ?ptrs = "sb_map_block_ptrs (super_block (e_ctx e))"
  let ?img = "map_image (k_sha512 (e_k e)) ?cfg (vmap e)" and ?k1 = "(e_k e)\<lparr>k_allocs := Suc (k_allocs (e_k e)) + 2 * cnm ?cfg\<rparr>"
  note v = volD [OF assms(1)] and g = anchored_cfg [OF assms(2)] and a = assms(2) [unfolded anchored_def]
  have lo: "laid_out ?ctx c" using a by simp
  note l = laid_outD [OF lo]
  have map: "afs_map ?ctx = Some (vmap e)" using v(1) by auto
  have sha: "length (k_sha512 (e_k e) d) = 64" for d using a by (simp add: digests_ok_def)
  have img: "length (?img i) = 4096" for i using g(1) v(2) sha by (intro length_map_image)
  define mb where "mb = concat (map ?img [0..<cnm ?cfg])"
  have mb: "length mb = 4096 * cnm ?cfg" using length_concat_pages [of "map ?img [0..<cnm ?cfg]" 4096] img by (auto simp: mb_def)
  define ps where "ps = map (\<lambda>j. (?ptrs ! j, sub mb (4096 * j) 4096)) [0..<cnm ?cfg]"
  define k' where "k' = put_pages ?off ?k1 ps"
  have "afs_create_map_blocks ?ctx (e_k e) = Some (0, ?ctx\<lparr>afs_map_blocks := Some mb\<rparr>, ?k1)"
    unfolding mb_def using a g v map by (intro afs_create_map_blocks_eq) simp_all
  moreover have "write_map_blocks (?ctx\<lparr>afs_map_blocks := Some mb\<rparr>) True ?k1 = Some (0, ?ctx\<lparr>afs_map_blocks := Some mb\<rparr>, k')"
    using write_map_blocks_update [of ?k1 "?ctx\<lparr>afs_map_blocks := Some mb\<rparr>" mb] v(7) g mb by (simp add: k'_def ps_def io_ok_def)
  ultimately have run: "afs_dtr e = Some k'" using assms(3) by (auto simp: afs_dtr_def)
  have fst: "map fst ps = take (cnm ?cfg) ?ptrs" using g(3,4) by (intro nth_equalityI) (auto simp: ps_def)
  have homes: "fst ` set ps = map_homes e" using arg_cong [OF fst, of set] by (simp add: map_homes_def)
  have fits: "block_fits ?off b" if "b \<in> vtaken e" for b using vtaken_fits [OF assms(1) that] by simp
  have ok: "\<forall>(b, p) \<in> set ps. block_fits ?off b \<and> length p = 4096"
  proof (clarify)
    fix b p assume "(b, p) \<in> set ps"
    then have "b \<in> map_homes e" "length p = 4096" using homes mb by (force, auto simp: ps_def)
    then show "block_fits ?off b \<and> length p = 4096" using fits l(2) by blast
  qed
  have img_page: "get_page ?off k' (?ptrs ! j) = ?img j" if "j < cnm ?cfg" for j
  proof -
    have "(?ptrs ! j, sub mb (4096 * j) 4096) \<in> set ps" using that by (auto simp: ps_def)
    then have "get_page ?off k' (?ptrs ! j) = sub mb (4096 * j) 4096"
      unfolding k'_def using ok l(1) fst by (intro get_put_pages) simp_all
    also have "\<dots> = ?img j" using sub_concat_pages [of "map ?img [0..<cnm ?cfg]" 4096 j] img that by (auto simp: mb_def)
    finally show ?thesis .
  qed
  have other: "get_page ?off k' b = vpage e b" if "b \<in> vtaken e" "b \<notin> map_homes e" for b
  proof -
    have "get_page ?off k' b = get_page ?off (dev.wr_all ?off ?k1 ps) b" unfolding k'_def by (rule get_page_dev_cong) (rule put_pages_dev [OF refl])
    also have "\<dots> = get_page ?off ?k1 b" using ok fits [OF that(1)] that(2) homes by (intro dev.rd_wr_all_other) auto
    also have "\<dots> = vpage e b" by (rule get_page_dev_cong) simp
    finally show ?thesis .
  qed
  have sbp: "get_page ?off k' c = sb_bytes (super_block ?ctx)" using other [of c] l(2,3) a by auto
  have "io_ok ?k1" using v(7) by (simp add: io_ok_def)
  then have fr: "io_ok k'" "alloc_ok k'" "k_sha1 k' = k_sha1 (e_k e)" "k_sha256 k' = k_sha256 (e_k e)" "k_sha512 k' = k_sha512 (e_k e)"
    using v(8) by (simp_all add: k'_def)
  have "placed_at e c" using a by simp
  then have "created ?ctx (e_k e) ?ctx k' (vmap e)"
    unfolding created_def placed_at_def Let_def using a lo map img_page fr sbp by (simp only: refl) blast
  then show ?thesis using run other by blast
qed

section \<open>Mounting again\<close>

text \<open>A context that a mount starts from: the same passphrase, device and size.\<close>

definition remounts :: "engine \<Rightarrow> afs_private \<Rightarrow> bool" where
  "remounts e ctx' \<longleftrightarrow> passphrase (args ctx') = passphrase (args (e_ctx e)) \<and> passphrase_hash ctx' = passphrase_hash (e_ctx e) \<and>
     passive_fs ctx' = vfs e \<and> build_configuration (config ctx') 4 1 = Some (vcfg e) \<and> bdev_size (config ctx') = bdev_size (vcfg e) \<and>
     instance_size (config ctx') = instance_size (vcfg e) \<and> sb_ok (super_block ctx') \<and> encoding_type ctx' = AONT_RS \<and>
     open_vector (vector ctx') \<and> instance_type (args ctx') = TYPE_MOUNT"

lemma readable_again:
  assumes "holds e d" "anchored e c" "config ctx = vcfg e" "afs_map ctx = Some (vmap e)" "passive_fs ctx = vfs e"
    and "passphrase_hash ctx = passphrase_hash (e_ctx e)" "encoding_type ctx = AONT_RS" "io_ok k" "alloc_ok k" "open_vector (vector ctx)"
    and "\<forall>b \<in> vtaken e - map_homes e. get_page (voff e) k b = vpage e b"
  shows "readable (started ctx k) d"
proof -
  let ?e = "started ctx k"
  have vol: "vol e" using assms(1) by (simp add: holds_but_def)
  have same: "eptr ?e = eptr e" "esum ?e = esum e" "vblock ?e = vblock e" "ptrs ?e = ptrs e" "mapped ?e = mapped e"
    using assms(3,4) by (simp_all add: fun_eq_iff eptr_def esum_def epos_def vblock_def ptrs_def mapped_def)
  have vol': "vol ?e" using vol assms(3-10) by (auto simp: vol_def)
  have at: "holds_at ?e d blk" if blk: "vblock e blk" for blk
  proof (cases "mapped e blk")
    case False
    then show ?thesis using holdsD(2) [OF assms(1) blk] same(5) by (auto simp: holds_at_def split: option.splits)
  next
    case True
    have "set (ptrs e blk) \<subseteq> vtaken e" using holdsD(3) [OF assms(1) blk True] by (simp add: owned_def)
    moreover have "set (ptrs e blk) \<inter> insert c (map_homes e) = {}" using assms(2) blk True by (auto simp: anchored_def)
    ultimately have page: "get_page (voff e) k b = vpage e b" if "b \<in> set (ptrs e blk)" for b using assms(11) that by blast
    have "map (get_page (voff e) k) (ptrs e blk) = map (vpage e) (ptrs e blk)" using page by (intro map_cong) auto
    from arg_cong [OF this] have "packed n D (map (get_page (voff e) k) (ptrs e blk)) = packed n D (map (vpage e) (ptrs e blk))" for n D .
    moreover have "vpage ?e (eptr e blk i) = vpage e (eptr e blk i)" if "i < ncar e" for i
      using page [of "eptr e blk i"] nth_mem [of i "ptrs e blk"] that assms(5) by simp
    ultimately have "stored ?e blk D = stored e blk D" for D using same assms(3,5,6) by (simp add: stored_def)
    then show ?thesis using holdsD(2) [OF assms(1) blk] same(5) by (simp add: holds_at_def split: option.splits)
  qed
  have "set (ptrs e blk) \<subseteq> set (block_list (vfs e))" if "vblock e blk" "mapped e blk" for blk
    using holds_readable [OF assms(1)] that by (simp add: readable_def readable_at_def)
  then show ?thesis using vol' at same assms(5) by (simp add: readable_def readable_at_def)
qed

lemma remount_run:
  assumes "holds e d" "anchored e c" "afs_eq_empty (e_flight_eq e) \<or> afs_eq_empty (e_rebuild_eq e)"
  shows "\<exists>k'. afs_dtr e = Some k' \<and> (\<forall>ctx'. remounts e ctx' \<longrightarrow> mounts_with g ctx' k' d)"
proof -
  have vol: "vol e" using assms(1) by (simp add: holds_but_def)
  obtain k' where k': "afs_dtr e = Some k'" "created (e_ctx e) (e_k e) (e_ctx e) k' (vmap e)"
      "\<forall>b \<in> vtaken e - map_homes e. get_page (voff e) k' b = vpage e b"
    using dtr_flushes [OF vol assms(2,3)] by blast
  note c = anchored_cfg [OF assms(2)]
  have dig: "digests_ok (e_k e)" using assms(2) by (simp add: anchored_def)
  have "mounts_with g ctx' k' d" if re: "remounts e ctx'" for ctx'
  proof -
    note r = re [unfolded remounts_def]
    obtain ctx2 k2 where f: "find_super_block ctx' k' = Some (0, ctx2, k2)" "config ctx2 = vcfg e" "afs_map ctx2 = Some (vmap e)"
        "passive_fs ctx2 = vfs e" "passphrase_hash ctx2 = passphrase_hash (e_ctx e)" "encoding_type ctx2 = AONT_RS"
        "k_dev k2 = k_dev k'" "io_ok k2" "alloc_ok k2" "open_vector (vector ctx2)"
        "args ctx2 = args ctx'"
      using find_super_block_created [OF k'(2) dig c(1,3,2) volD(2) [OF vol], of ctx'] r by auto
    have "\<forall>b \<in> vtaken e - map_homes e. get_page (voff e) k2 b = vpage e b" using k'(3) get_page_dev_cong [OF f(7)] by simp
    then have "readable (started ctx2 k2) d" using readable_again [OF assms(1,2) f(2-6,8-10)] by blast
    then show ?thesis using r by (intro mounts_withI [OF f(1,11)]) simp
  qed
  then show ?thesis using k'(1) by blast
qed

text \<open>No block of a new map is allocated.\<close>

lemma new_entry:
  assumes "i < n" "0 < c"
  shows "(le_word (sub (concat (replicate n (invalid_entry c))) (i * (40 + 6 * c)) 4) :: u32) = AFS_INVALID_BLOCK"
proof -
  let ?m = "concat (replicate n (invalid_entry c))" and ?sz = "40 + 6 * c"
  have entry: "sub ?m (?sz * i) ?sz = invalid_entry c"
    using assms(1) sub_concat_pages [of "replicate n (invalid_entry c)" ?sz i] by auto
  have "sub ?m (i * ?sz) 4 = take 4 (sub ?m (?sz * i) ?sz)" by (simp add: sub_def min_def mult.commute)
  also have "\<dots> = le_bytes 4 AFS_INVALID_BLOCK"
    unfolding entry using assms(2) by (cases c) (simp_all add: invalid_entry_def invalid_tuple_def tuple_bytes_def)
  finally show ?thesis by (simp add: le_word_le_bytes)
qed

lemma created_anchored:
  assumes "write_super_block ctx k = Some (0, ctx1, k1)"
    and cfg: "cfg_ok (config ctx)" "0 < num_blocks (config ctx)" "num_map_blocks (config ctx) \<le> 975"
      "3 \<le> unat (num_carrier_blocks (config ctx))" "unat (num_carrier_blocks (config ctx)) \<le> 8"
    and kernel: "io_ok k" "alloc_ok k" "digests_ok k"
    and fs: "distinct (block_list (passive_fs ctx))"
      "\<forall>c \<in> set (block_list (passive_fs ctx)). block_fits (data_start_off (passive_fs ctx)) c \<and> c \<noteq> AFS_INVALID_BLOCK"
    and ctx: "sb_ok (super_block ctx)" "open_vector (vector ctx)" "encoding_type ctx = AONT_RS" "length (passphrase_hash ctx) = 32"
  shows "holds (started ctx1 k1) (\<lambda>_. None)" "\<exists>c. anchored (started ctx1 k1) c"
proof -
  let ?cfg = "config ctx" and ?n = "unat (num_carrier_blocks (config ctx))" and ?e = "started ctx1 k1"
  let ?amap = "concat (replicate (cnb ?cfg) (invalid_entry ?n))"
  have small: "cnm ?cfg \<le> 975" "0 < cnb ?cfg" using cfg by (simp_all add: word_le_nat_alt word_less_nat_alt)
  note g = map_geomI [OF cfg(1) small(2,1)]
  have fits: "\<forall>c \<in> set (block_list (passive_fs ctx)). block_fits (data_start_off (passive_fs ctx)) c" using fs(2) by blast
  have made: "created ctx k ctx1 k1 ?amap"
    by (rule write_super_block_created [OF assms(1) g(1) small(1) g(2) kernel ctx(1,2) fs(1) fits])
  note m = made [unfolded created_def Let_def]
  have fields: "config ctx1 = ?cfg" "passive_fs ctx1 = passive_fs ctx" "args ctx1 = args ctx" "passphrase_hash ctx1 = passphrase_hash ctx"
      "encoding_type ctx1 = encoding_type ctx" "afs_map ctx1 = Some ?amap" using m by simp_all
  have kern: "io_ok k1" "alloc_ok k1" "k_sha1 k1 = k_sha1 k" "k_sha256 k1 = k_sha256 k" "k_sha512 k1 = k_sha512 k" using m by simp_all
  obtain h' b c k0 k2 where c: "place_loop (passive_fs ctx) (ucast (bdev_size ?cfg div 8)) (k_sha1 k (take 64 (passphrase (args ctx))))
        (digest_block (k_sha1 k (take 64 (passphrase (args ctx)))) (ucast (bdev_size ?cfg div 8))) k0 = Some (h', b, k2)"
      "k_sha1 k0 = k_sha1 k" "alloc_ok k0" "block_list_at (passive_fs ctx) b = Some c"
      "get_page (data_start_off (passive_fs ctx)) k1 c = sb_bytes (super_block ctx1)" "laid_out ctx1 c"
    using m by blast
  have "(ucast (bdev_size ?cfg div 8) :: u32) \<noteq> 0" using m by blast
  then have place: "placed_at ?e c" unfolding placed_at_def Let_def using c(1-4) fields kern(3) by auto
  have csz: "csz ?cfg = 40 + 6 * ?n" using cfg(1) by (simp add: cfg_ok_def)
  have len: "length ?amap = cnb ?cfg * csz ?cfg" using map_geomD(8) [OF g(1)] by (simp add: length_concat sum_list_replicate)
  have "cnb ?cfg * csz ?cfg < 2 ^ 32" using g(1) by (simp add: map_geom_def)
  then have vol: "vol ?e"
    using fields kern len csz cfg(4,5) fs ctx(3,4) laid_outD(4) [of ?e c] c(6) by (auto simp: vol_def)
  have un: "\<not> mapped ?e blk" if "vblock ?e blk" for blk
    using new_entry [of "unat blk" "cnb ?cfg" ?n] that fields csz cfg(4) by (simp add: mapped_def eptr_def epos_def vblock_def word_less_nat_alt)
  then show "holds ?e (\<lambda>_. None)" using vol by (auto simp: holds_but_def holds_at_def)
  have sl: "sealed k1 (super_block ctx1)" "sb_instance_size (super_block ctx1) = instance_size ?cfg" "digests_ok k1"
    using m kern kernel(3) by (simp_all add: sealed_def digests_ok_def)
  have "anchored ?e c"
    unfolding anchored_def using place c(5,6) un sl fields cfg(1-3) by auto
  then show "\<exists>c. anchored ?e c" by blast
qed

section \<open>Room on a cyclic free list\<close>

text \<open>When the draws run through the indices of the free list in turn, a block is found as long as one is free.\<close>

lemma acquire_loop_finds:
  assumes "open_vector v" "fs_wf fs" "\<not> taken v (draw fs k m)" "draw fs k m \<noteq> c" "\<And>j. j < m \<Longrightarrow> taken v (draw fs k j) \<and> draw fs k j \<noteq> c"
    and "taken v bn"
  shows "acquire_loop fs c bn v k =
    Some (block_list fs ! unat (draw fs k m), snd (allocation_set v (draw fs k m)), after_draws (Suc m) k)"
  using assms(3-6)
proof (induction m arbitrary: bn k)
  have ne: "list_len fs \<noteq> 0" using assms(2) by (simp add: fs_wf_def)
  case 0
  have len: "unat (draw fs k 0) < length (block_list fs)"
    using draw_less [OF ne, of k 0] assms(2) by (auto simp: fs_wf_def word_less_nat_alt)
  have "acquire_loop fs c (draw fs k 0) v (after_draws 1 k) =
      Some (block_list fs ! unat (draw fs k 0), snd (allocation_set v (draw fs k 0)), after_draws 1 k)"
    using 0 assms(1) len by (subst acquire_loop.simps) (simp add: allocation_set_eq open_vector_def block_list_at_def)
  then show ?case
    using 0 by (subst acquire_loop.simps) (simp add: allocation_set_eq random_block_index_draw [OF ne])
next
  have ne: "list_len fs \<noteq> 0" using assms(2) by (simp add: fs_wf_def)
  case (Suc m)
  have "acquire_loop fs c (draw fs k 0) v (after_draws 1 k) =
      Some (block_list fs ! unat (draw fs (after_draws 1 k) m), snd (allocation_set v (draw fs (after_draws 1 k) m)),
        after_draws (Suc m) (after_draws 1 k))"
  proof (rule Suc.IH)
    show "taken v (draw fs k 0)" using Suc.prems(3) [of 0] by simp
    show "taken v (draw fs (after_draws 1 k) j) \<and> draw fs (after_draws 1 k) j \<noteq> c" if "j < m" for j
      using Suc.prems(3) [of "Suc j"] that by simp
  qed (use Suc.prems in simp_all)
  moreover have "after_draws (Suc m) (after_draws 1 k) = after_draws (Suc (Suc m)) k" by (simp add: after_draws_def)
  ultimately show ?case
    using Suc.prems(3) [of 0] Suc.prems(4) by (subst acquire_loop.simps) (simp add: allocation_set_eq random_block_index_draw [OF ne])
qed

definition cyclic :: "afs_passive_fs \<Rightarrow> kernel \<Rightarrow> bool" where
  "cyclic fs k \<longleftrightarrow> (\<exists>q. \<forall>n. draw fs k n = of_nat ((q + n) mod unat (list_len fs)))"

lemma cyclic_after: "cyclic fs k \<Longrightarrow> cyclic fs (after_draws m k)"
  unfolding cyclic_def draw_after by (metis add.assoc)

lemma acquire_cyclic:
  assumes "open_vector v" "fs_wf fs" "cyclic fs k" "i < list_len fs" "\<not> taken v i"
  shows "\<exists>j m. j < list_len fs \<and> \<not> taken v j \<and>
    acquire_block fs v k = Some (block_list fs ! unat j, snd (allocation_set v j), after_draws m k)"
proof -
  let ?N = "unat (list_len fs)"
  have ne: "list_len fs \<noteq> 0" using assms(2) by (simp add: fs_wf_def)
  have N: "0 < ?N" using ne by (simp add: unat_gt_0)
  obtain q where q: "\<And>n. draw fs k n = of_nat ((q + n) mod ?N)" using assms(3) by (auto simp: cyclic_def)
  have i: "unat i < ?N" using assms(4) by (simp add: word_less_nat_alt)
  define n0 where "n0 = (unat i + (?N - q mod ?N)) mod ?N"
  have "(q + n0) mod ?N = (q mod ?N + (unat i + (?N - q mod ?N))) mod ?N" by (simp add: n0_def mod_simps)
  also have "q mod ?N + (unat i + (?N - q mod ?N)) = unat i + ?N" using mod_less_divisor [OF N, of q] by simp
  finally have "draw fs k n0 = i" using i by (simp add: q)
  then have ex: "\<not> taken v (draw fs k n0)" "n0 < ?N" using assms(5) N by (simp_all add: n0_def)
  define m where "m = (LEAST n. \<not> taken v (draw fs k n))"
  have m: "\<not> taken v (draw fs k m)" unfolding m_def using ex(1) by (rule LeastI)
  have "m \<le> n0" unfolding m_def using ex(1) by (rule Least_le)
  then have less: "m < ?N" using ex(2) by simp
  have before: "taken v (draw fs k j)" if "j < m" for j using not_less_Least [OF that [unfolded m_def]] by simp
  have far: "draw fs k j \<noteq> draw fs k 0" if "0 < j" "j \<le> m" for j
  proof
    assume "draw fs k j = draw fs k 0"
    then have "(of_nat ((q + j) mod ?N) :: u32) = of_nat (q mod ?N)" by (simp add: q)
    moreover have "unat (of_nat (x mod ?N) :: u32) = x mod ?N" for x
    proof -
      have "?N < 2 ^ LENGTH(32)" by (rule unsigned_less)
      then show ?thesis using mod_less_divisor [OF N, of x] by (simp add: unsigned_of_nat take_bit_nat_eq_self)
    qed
    ultimately have "(q + j) mod ?N = (q + 0) mod ?N" by (metis add.right_neutral)
    then have "?N dvd j" using mod_eq_dvd_iff_nat [of q "q + j" ?N] by simp
    then show False using that less by (auto dest: dvd_imp_le)
  qed
  have first: "acquire_block fs v k = acquire_loop fs (draw fs k 0) (draw fs k 0) v (after_draws 1 k)"
    by (simp add: acquire_block_def random_block_index_draw [OF ne])
  show ?thesis
  proof (cases m)
    case 0
    then show ?thesis using acquire_first [OF assms(1,2)] m draw_less [OF ne] by blast
  next
    case (Suc m')
    have "acquire_loop fs (draw fs k 0) (draw fs k 0) v (after_draws 1 k) =
        Some (block_list fs ! unat (draw fs (after_draws 1 k) m'), snd (allocation_set v (draw fs (after_draws 1 k) m')),
          after_draws (Suc m') (after_draws 1 k))"
      using m before far Suc by (intro acquire_loop_finds [OF assms(1,2)]) auto
    moreover have "after_draws (Suc m') (after_draws 1 k) = after_draws (Suc m) k" using Suc by (simp add: after_draws_def)
    ultimately show ?thesis using m first draw_less [OF ne, of k m] Suc by auto
  qed
qed

lemma acquires_cyclic:
  assumes "open_vector v" "fs_wf fs" "cyclic fs k" "n \<le> card {i. i < list_len fs \<and> \<not> taken v i}"
    and "\<And>b. b \<in> set (block_list fs) \<Longrightarrow> b \<noteq> AFS_INVALID_BLOCK"
  shows "acquires n fs v k"
  using assms(1,3,4)
proof (induction n arbitrary: v k)
  case (Suc n)
  let ?F = "\<lambda>v. {i. i < list_len fs \<and> \<not> taken v i}"
  have "?F v \<noteq> {}"
  proof
    assume "?F v = {}"
    then have "card (?F v) = 0" by (simp only: card.empty)
    then show False using Suc.prems(3) by linarith
  qed
  then obtain i where "i < list_len fs" "\<not> taken v i" by blast
  then obtain j m where j: "j < list_len fs" "\<not> taken v j"
      "acquire_block fs v k = Some (block_list fs ! unat j, snd (allocation_set v j), after_draws m k)"
    using acquire_cyclic [OF Suc.prems(1) assms(2) Suc.prems(2)] by blast
  note o = open_vector_set [OF Suc.prems(1), of j]
  have "?F (snd (allocation_set v j)) = ?F v - {j}" using o(2) by auto
  moreover have "card (?F v - {j}) = card (?F v) - 1" using j(1,2) by (intro card_Diff_singleton) simp
  ultimately have "n \<le> card (?F (snd (allocation_set v j)))" using Suc.prems(3) by simp
  then have "acquires n fs (snd (allocation_set v j)) (after_draws m k)"
    by (rule Suc.IH [OF o(1) cyclic_after [OF Suc.prems(2)]])
  moreover have "unat j < length (block_list fs)" using j(1) assms(2) by (auto simp: fs_wf_def word_less_nat_alt)
  then have "block_list fs ! unat j \<noteq> AFS_INVALID_BLOCK" using assms(5) nth_mem by blast
  ultimately show ?case using j(3) by simp
qed simp

text \<open>The instance created on eight free blocks has room for a block.\<close>

lemma le_word_mod_8: "(le_word (b # bs) :: u32) mod 8 = ucast b mod 8"
proof -
  have "take_bit 3 (le_word (b # bs) :: u32) = take_bit 3 (ucast b)" by (rule bit_word_eqI) (auto simp: bit_simps)
  then show ?thesis by (simp add: take_bit_eq_mod)
qed

lemma mount_cyclic:
  assumes "k_rand k = k_rand demo_kernel"
  shows "cyclic mount_fs k"
proof -
  have "draw mount_fs k n = of_nat ((k_rpos k div 4 + n) mod 8)" for n
  proof -
    have "draw mount_fs k n = ucast (of_nat ((k_rpos k + 4 * n) div 4) :: u8) mod 8"
      using assms by (simp add: draw_def mount_fs_def demo_kernel_def upt_rec le_word_mod_8 del: le_word.simps)
    also have "(ucast (of_nat m :: u8) :: u32) mod 8 = of_nat (m mod 8)" for m
    proof (rule unsigned_word_eqI)
      show "unat ((ucast (of_nat m :: u8) :: u32) mod 8) = unat (of_nat (m mod 8) :: u32)"
        by (simp add: unat_mod_distrib unat_ucast_up unsigned_of_nat take_bit_eq_mod mod_mod_cancel)
    qed
    finally show ?thesis by (simp add: div_add1_eq)
  qed
  then show ?thesis unfolding cyclic_def by (intro exI [of _ "k_rpos k div 4"]) (simp add: mount_fs_def)
qed

section \<open>Properties\<close>

text \<open>C2: A volume survives the destructor and the constructor of a mount: on an anchored volume that holds \<open>d\<close>, with no requests queued, the
  destructor flushes the map, and the constructor, on a context with the same passphrase, size and free list, finds and reads it again and
  returns 0. It has queued a rebuild request for every block: whatever these do, in any order, the volume reads as \<open>d\<close>, but none of
  those for a block that is allocated is ever done with: having no bio, they fault after the carrier blocks are read.\<close>

theorem volume_survives_remount:
  assumes "holds e d" "anchored e c" "afs_eq_empty (e_flight_eq e) \<or> afs_eq_empty (e_rebuild_eq e)"
  shows "\<exists>k'. afs_dtr e = Some k' \<and> (\<forall>ctx'. remounts e ctx' \<longrightarrow> mounts_with g ctx' k' d)"
  using assms by (rule remount_run)

text \<open>C1: A written block survives a remount: on an anchored volume that holds \<open>d\<close>, with room for the block or the block allocated,
  a write is accepted, its run ends in every order of completions, and after every such run the destructor succeeds and the
  constructor of a mount gives a volume that reads as \<open>d\<close> with, in the block of the write, its payload in the uninitialised memory of the
  request (a write of a part of the block keeps nothing of the rest). The rebuild requests that the constructor queues do
  not change this, but fault for every allocated block, as in the property before.\<close>

theorem write_survives_remount:
  assumes "holds e d" "anchored e c" "afs_eq_empty (e_flight_eq e) \<or> afs_eq_empty (e_rebuild_eq e)"
    and "bio_ok b" "bio_op b = REQ_OP_WRITE" "vblock e (bio_blk b)" "d (bio_blk b) \<noteq> None \<or> room e" "tables_ok g"
  shows "\<exists>e1 ws. afs_map_bio b e = Some (DM_MAPIO_SUBMITTED, e1, ws) \<and>
    delivers g (e1, ws) (\<lambda>e'. \<exists>k'. afs_dtr e' = Some k' \<and> (\<forall>ctx'. remounts e ctx' \<longrightarrow>
      mounts_with g ctx' k' (d(bio_blk b \<mapsto> blit (fresh_block e) (bio_base b) (payload (trim_bio b))))))"
proof -
  let ?blk = "bio_blk b" and ?D = "blit (fresh_block e) (bio_base b) (payload (trim_bio b))"
  obtain e1 ws where w: "afs_map_bio b e = Some (DM_MAPIO_SUBMITTED, e1, ws)"
      "delivers g (e1, ws) (\<lambda>e'. e_ended e' = e_ended e @ [trim_bio b] \<and> holds e' (d(?blk \<mapsto> ?D)) \<and>
        keeps {?blk} (homes e ?blk) e e' \<and> set (ptrs e' ?blk) \<inter> vtaken e = homes e ?blk)"
    using write_run [OF assms(1,4-8)] by blast
  have vol: "vol e" using assms(1) by (simp add: holds_but_def)
  have "delivers g (e1, ws) (\<lambda>e'. \<exists>k'. afs_dtr e' = Some k' \<and> (\<forall>ctx'. remounts e ctx' \<longrightarrow> mounts_with g ctx' k' (d(?blk \<mapsto> ?D))))"
  proof (rule delivers_mono [OF w(2)])
    fix e' assume e': "e_ended e' = e_ended e @ [trim_bio b] \<and> holds e' (d(?blk \<mapsto> ?D)) \<and>
        keeps {?blk} (homes e ?blk) e e' \<and> set (ptrs e' ?blk) \<inter> vtaken e = homes e ?blk"
    then have keep: "keeps {?blk} (homes e ?blk) e e'" by simp
    have "anchored e' c" using anchored_keeps [OF assms(2) keep vol assms(6)] e' by simp
    moreover have "remounts e' ctx' = remounts e ctx'" for ctx'
      using keepsD(2-4,11) [OF keep] by (simp add: remounts_def same_instance_def)
    moreover have "afs_eq_empty (e_flight_eq e') \<or> afs_eq_empty (e_rebuild_eq e')"
      using assms(3) keepsD(11) [OF keep] by (simp add: same_instance_def)
    ultimately show "\<exists>k'. afs_dtr e' = Some k' \<and> (\<forall>ctx'. remounts e ctx' \<longrightarrow> mounts_with g ctx' k' (d(?blk \<mapsto> ?D)))"
      using remount_run [of e' "d(?blk \<mapsto> ?D)" c g] e' by simp
  qed
  then show ?thesis using w(1) by (intro exI conjI)
qed

text \<open>C3: Creation gives an empty volume that is anchored, so the two properties above apply to it and to all that is written to it.\<close>

theorem creation_anchors:
  assumes "write_super_block ctx k = Some (0, ctx1, k1)"
    and "cfg_ok (config ctx)" "0 < num_blocks (config ctx)" "num_map_blocks (config ctx) \<le> 975"
      "3 \<le> unat (num_carrier_blocks (config ctx))" "unat (num_carrier_blocks (config ctx)) \<le> 8"
    and "io_ok k" "alloc_ok k" "digests_ok k"
    and "distinct (block_list (passive_fs ctx))"
      "\<forall>c \<in> set (block_list (passive_fs ctx)). block_fits (data_start_off (passive_fs ctx)) c \<and> c \<noteq> AFS_INVALID_BLOCK"
    and "sb_ok (super_block ctx)" "open_vector (vector ctx)" "encoding_type ctx = AONT_RS" "length (passphrase_hash ctx) = 32"
  shows "holds (started ctx1 k1) (\<lambda>_. None) \<and> (\<exists>c. anchored (started ctx1 k1) c)"
  using created_anchored [OF assms] by blast

section \<open>A volume across mounts\<close>

lemma mount_ctx_ready:
  "cfg_ok (config mount_ctx)" "0 < num_blocks (config mount_ctx)" "num_map_blocks (config mount_ctx) \<le> 975"
  "3 \<le> unat (num_carrier_blocks (config mount_ctx))" "unat (num_carrier_blocks (config mount_ctx)) \<le> 8"
  "distinct (block_list (passive_fs mount_ctx))"
  "\<forall>c \<in> set (block_list (passive_fs mount_ctx)). block_fits (data_start_off (passive_fs mount_ctx)) c \<and> c \<noteq> AFS_INVALID_BLOCK"
  "encoding_type mount_ctx = AONT_RS" "length (passphrase_hash mount_ctx) = 32"
  using demo_cfg_ok
  by (simp_all add: demo_geom_def mount_fs_def block_fits_def AFS_INVALID_BLOCK_def mount_ctx_def demo_ctx_def AONT_RS_def)

theorem creation_anchors_witness:
  "\<exists>ctx1 k1. write_super_block mount_ctx demo_kernel = Some (0, ctx1, k1) \<and> holds (started ctx1 k1) (\<lambda>_. None) \<and>
     (\<exists>c. anchored (started ctx1 k1) c)"
proof -
  obtain ctx1 k1 where run: "write_super_block mount_ctx demo_kernel = Some (0, ctx1, k1)" using mount_created by blast
  have "holds (started ctx1 k1) (\<lambda>_. None) \<and> (\<exists>c. anchored (started ctx1 k1) c)"
    using creation_anchors [OF run mount_ctx_ready(1-5) demo_kernel_ok mount_ctx_ready(6,7) _ mount_vector(1) mount_ctx_ready(8,9)] by simp
  then show ?thesis using run by blast
qed

text \<open>The context of the next mount.\<close>

definition again_ctx :: afs_private where
  "again_ctx = mount_ctx\<lparr>args := (args mount_ctx)\<lparr>instance_type := TYPE_MOUNT\<rparr>\<rparr>"

lemma mount_volume:
  "\<exists>e c. holds e (\<lambda>_. None) \<and> anchored e c \<and> room_for 1 e \<and> vcfg e = demo_geom 16 1 0 \<and> remounts e again_ctx \<and> e_flight_eq e = Leaf"
proof -
  obtain ctx1 k1 where run: "write_super_block mount_ctx demo_kernel = Some (0, ctx1, k1)"
    and k1: "k_rand k1 = k_rand demo_kernel" and v: "\<forall>j. taken (vector ctx1) j \<longleftrightarrow> j = 0 \<or> j = 1" using mount_created by blast
  let ?e = "started ctx1 k1"
  have h: "holds ?e (\<lambda>_. None)" and "\<exists>c. anchored ?e c"
    using created_anchored [OF run mount_ctx_ready(1-5) demo_kernel_ok mount_ctx_ready(6,7) _ mount_vector(1) mount_ctx_ready(8,9)] by simp_all
  then obtain c where c: "anchored ?e c" by blast
  have g: "0 < cnb (config mount_ctx)" "cnm (config mount_ctx) \<le> 975" by (simp_all add: demo_geom_def)
  note g' = map_geomI [OF mount_ctx_ready(1) g]
  have fits: "\<forall>c \<in> set (block_list (passive_fs mount_ctx)). block_fits (data_start_off (passive_fs mount_ctx)) c"
    using mount_ctx_ready(7) by blast
  have "created mount_ctx demo_kernel ctx1 k1 (concat (replicate (cnb (config mount_ctx)) (invalid_entry (unat (num_carrier_blocks (config mount_ctx))))))"
    by (rule write_super_block_created [OF run g'(1) g(2) g'(2) demo_kernel_ok mount_ctx_fields(3) mount_vector(1) mount_ctx_ready(6) fits])
  then have f: "config ctx1 = config mount_ctx" "passive_fs ctx1 = mount_fs" "args ctx1 = args mount_ctx"
      "passphrase_hash ctx1 = passphrase_hash mount_ctx" "encoding_type ctx1 = encoding_type mount_ctx"
    by (simp_all add: created_def Let_def)
  have vol: "vol ?e" using h by (simp add: holds_but_def)
  have "acquires (ncar ?e) (vfs ?e) (vector (e_ctx ?e)) k" if "k_rand k = k_rand (e_k ?e)" for k
  proof -
    have cyc: "cyclic mount_fs k" using k1 that by (intro mount_cyclic) simp
    have "{2, 3, 4, 5, 6, 7} \<subseteq> {i. i < list_len mount_fs \<and> \<not> taken (vector ctx1) i}" using v by (simp add: mount_fs_def)
    then have "card {2, 3, 4, 5, 6, 7 :: u32} \<le> card {i. i < list_len mount_fs \<and> \<not> taken (vector ctx1) i}" by (intro card_mono) simp_all
    then have "acquires 4 mount_fs (vector ctx1) k"
      using volD(12,13) [OF vol] f(2) by (intro acquires_cyclic [OF _ _ cyc]) (auto simp: fs_wf_def mount_fs_def)
    then show ?thesis using f by (simp add: demo_geom_def)
  qed
  then have "room_for 1 ?e" by (simp add: room_for_def)
  moreover have "remounts ?e again_ctx"
  proof -
    have "build_configuration (demo_geom 16 1 0) 4 1 = Some (demo_geom 16 1 0)" by code_simp
    then show ?thesis using f mount_ctx_ready(8) mount_vector(1) by (simp add: remounts_def again_ctx_def)
  qed
  ultimately show ?thesis using h c f(1) by (intro exI [of _ ?e] exI [of _ c]) (simp add: started_def afs_eq_init_def)
qed

theorem volume_survives_remount_witness:
  "\<exists>e k'. afs_dtr e = Some k' \<and> mounts_with gf_ctx_zero again_ctx k' (\<lambda>_. None)"
proof -
  obtain e c where e: "holds e (\<lambda>_. None)" "anchored e c" "remounts e again_ctx" "e_flight_eq e = Leaf" using mount_volume by blast
  have "afs_eq_empty (e_flight_eq e) \<or> afs_eq_empty (e_rebuild_eq e)" using e(4) by (simp add: afs_eq_empty_def afs_eq_empty_unsafe_def)
  then show ?thesis using volume_survives_remount [OF e(1,2)] e(3) by blast
qed

theorem write_survives_remount_witness:
  "\<exists>e e1 ws. afs_map_bio (disk_bio REQ_OP_WRITE) e = Some (DM_MAPIO_SUBMITTED, e1, ws) \<and>
    delivers gf_ctx_zero (e1, ws) (\<lambda>e'. \<exists>k'. afs_dtr e' = Some k' \<and> mounts_with gf_ctx_zero again_ctx k' [0 \<mapsto> replicate 4096 7])"
proof -
  obtain e c where e: "holds e (\<lambda>_. None)" "anchored e c" "room e" "vcfg e = demo_geom 16 1 0" "remounts e again_ctx" "e_flight_eq e = Leaf"
    using mount_volume room_for_room by auto
  have q: "afs_eq_empty (e_flight_eq e) \<or> afs_eq_empty (e_rebuild_eq e)" using e(6) by (simp add: afs_eq_empty_def afs_eq_empty_unsafe_def)
  have vb: "vblock e (bio_blk (disk_bio REQ_OP_WRITE))" using e(4) by (simp add: vblock_def disk_bio_facts demo_geom_def)
  have D: "blit (fresh_block e) 0 (replicate 4096 7) = replicate 4096 7" by (simp add: blit_def fresh_block_def)
  have "tables_ok gf_ctx_zero" by (simp add: tables_ok_def)
  then obtain e1 ws where w: "afs_map_bio (disk_bio REQ_OP_WRITE) e = Some (DM_MAPIO_SUBMITTED, e1, ws)"
      "delivers gf_ctx_zero (e1, ws) (\<lambda>e'. \<exists>k'. afs_dtr e' = Some k' \<and> (\<forall>ctx'. remounts e ctx' \<longrightarrow>
        mounts_with gf_ctx_zero ctx' k' [0 \<mapsto> replicate 4096 7]))"
    using write_survives_remount [OF e(1,2) q disk_bio_facts(1) disk_bio_facts(6) vb, of gf_ctx_zero] e(3) by (auto simp: disk_bio_facts D)
  have "delivers gf_ctx_zero (e1, ws) (\<lambda>e'. \<exists>k'. afs_dtr e' = Some k' \<and> mounts_with gf_ctx_zero again_ctx k' [0 \<mapsto> replicate 4096 7])"
    by (rule delivers_mono [OF w(2)]) (use e(5) in blast)
  then show ?thesis using w(1) by blast
qed

end
