(* ===== verification/Afs_Concurrent.thy ===== *)
theory Afs_Concurrent
  imports Afs_Remount
begin

text \<open>
  Many requests at a time: bios arrive while the work items and the completions of earlier ones run, in any order. Requests
  that do not touch a block another one writes do not disturb each other: every run ends with all bios answered, reads
  with the contents before, writes in the contents after.
\<close>

section \<open>The machine with arrivals\<close>

inductive afs_serves :: "gf_ctx \<Rightarrow> bio list \<times> engine \<times> work list \<Rightarrow> bio list \<times> engine \<times> work list \<Rightarrow> bool" for c where
  afs_serves_map: "afs_map_bio b e = Some (ret, e', ws') \<Longrightarrow> afs_serves c (b # bs, e, ws) (bs, e', ws @ ws')"
| afs_serves_work: "afs_step c (e, ws) (e', ws') \<Longrightarrow> afs_serves c (bs, e, ws) (bs, e', ws')"

inductive_cases afs_serves_elim: "afs_serves c s t"

definition serve_left :: "bio list \<times> engine \<times> work list \<Rightarrow> nat" where
  "serve_left s = (case s of (bs, e, ws) \<Rightarrow> work_left (e, ws) + length bs * (2 * ncar e + 5))"

lemma afs_step_ncar:
  assumes "afs_step c (e, ws) (e', ws')"
  shows "ncar e' = ncar e"
  using assms run_work_progress by (cases rule: afs_step.cases) (fastforce simp: progress_def)

lemma afs_map_bio_left:
  assumes "afs_map_bio b e = Some (ret, e', ws)"
  shows "ncar e' = ncar e" "work_left (e', ws) \<le> 2 * ncar e + 4"
  using assms by (auto simp: afs_map_bio_def Let_def bio_endio_def work_left_def split: bind_splits option.splits if_splits)

interpretation serving: bounded_machine "afs_serves c" serve_left for c
proof
  show "serve_left t < serve_left s" if "afs_serves c s t" for s t
    using that
  proof (cases rule: afs_serves.cases)
    case (afs_serves_map b e ret e' ws' bs ws)
    then show ?thesis using afs_map_bio_left [OF afs_serves_map(3)] by (simp add: serve_left_def work_left_def)
  next
    case (afs_serves_work e ws e' ws' bs)
    then show ?thesis using afs_run.decreases [OF afs_serves_work(3)] afs_step_ncar [OF afs_serves_work(3)] by (simp add: serve_left_def)
  qed
qed

text \<open>\<open>always_ends\<close>: no run from \<open>s\<close> is infinite, and one that cannot go on is in a state with \<open>P\<close>.\<close>

definition always_ends :: "('s \<Rightarrow> 's \<Rightarrow> bool) \<Rightarrow> 's \<Rightarrow> ('s \<Rightarrow> bool) \<Rightarrow> bool" where
  "always_ends step s P \<longleftrightarrow> (\<forall>f. f 0 = s \<longrightarrow> (\<exists>i. \<not> step (f i) (f (Suc i)))) \<and> (\<forall>t. step\<^sup>*\<^sup>* s t \<and> (\<nexists>u. step t u) \<longrightarrow> P t)"

lemma always_ends_mono: "always_ends step s P \<Longrightarrow> (\<And>t. P t \<Longrightarrow> Q t) \<Longrightarrow> always_ends step s Q"
  unfolding always_ends_def by blast

context bounded_machine
begin

lemma always_endsI:
  assumes "I s" "\<And>t u. I t \<Longrightarrow> step t u \<Longrightarrow> I u" "\<And>t. I t \<Longrightarrow> (\<exists>u. step t u) \<or> P t"
  shows "always_ends step s P"
proof -
  have "\<exists>i. \<not> step (f i) (f (Suc i))" for f
  proof (rule ccontr)
    assume "\<nexists>i. \<not> step (f i) (f (Suc i))"
    then have "cost (f (Suc i)) < cost (f i)" for i using decreases by blast
    then show False using wf_no_infinite_down_chainE [OF wf_measure [of cost], of f] by auto
  qed
  moreover have "P t" if "step\<^sup>*\<^sup>* s t" "\<nexists>u. step t u" for t
    using run_keeps [OF that(1), of I] assms that(2) by blast
  ultimately show ?thesis unfolding always_ends_def by blast
qed

end

section \<open>Requests under way\<close>

text \<open>A work item that serves the bio \<open>b\<close>, on a volume that reads as \<open>d\<close> where nothing is written.\<close>

definition rw_bio :: "engine \<Rightarrow> bio \<Rightarrow> bool" where
  "rw_bio e b \<longleftrightarrow> (bio_op b = REQ_OP_READ \<or> bio_op b = REQ_OP_WRITE) \<and> vblock e (bio_blk b)"

fun item_ok :: "engine \<Rightarrow> (u32 \<Rightarrow> bytes option) \<Rightarrow> work \<Rightarrow> bio \<Rightarrow> bool" where
  "item_ok e d (Flight req) b \<longleftrightarrow> rq_ok (ncar e) req \<and> req_block req = bio_blk b \<and> req_iv req = take 16 (passphrase_hash (e_ctx e)) \<and>
     rebuild_flag req = 0 \<and> req_bio req = Bio b \<and> bio_req b req"
| "item_ok e d (ReadIO req pend) b \<longleftrightarrow> bio_op b = REQ_OP_READ \<and> pend \<noteq> [] \<and> fetching e d (bio_blk b) b req pend"
| "item_ok e d (Crypto req) b \<longleftrightarrow> bio_op b = REQ_OP_READ \<and> fetching e d (bio_blk b) b req []"
| "item_ok e d (WriteIO req pend) b \<longleftrightarrow> bio_op b = REQ_OP_WRITE \<and> req_bio req = Bio b \<and>
     (\<exists>junk. length junk = 4096 \<and> writes e (bio_blk b) (blit junk (bio_base b) (payload b)) req pend)"
| "item_ok e d (Rebuild req) b \<longleftrightarrow> False"

definition wblks :: "(work \<times> bio) list \<Rightarrow> u32 set" where
  "wblks its = {bio_blk b | b. \<exists>req pend. (WriteIO req pend, b) \<in> set its}"

lemma wblks_simps [simp]:
  "wblks [] = {}" "wblks (its @ its') = wblks its \<union> wblks its'" "wblks ((WriteIO req pend, b) # its) = insert (bio_blk b) (wblks its)"
  "wblks ((Flight req, b) # its) = wblks its" "wblks ((ReadIO req pend, b) # its) = wblks its" "wblks ((Crypto req, b) # its) = wblks its"
  by (auto simp: wblks_def)

text \<open>What other requests do leaves an item alone.\<close>

lemma fetching_mapped: "fetching e d blk b req pend \<Longrightarrow> mapped e blk"
  by (simp add: fetching_def)

lemma fetching_keeps:
  assumes "fetching e d blk b req pend" "keeps X Y e e'" "blk \<notin> X" "\<And>p. p \<in> set (ptrs e blk) \<Longrightarrow> vpage e' p = vpage e p" "d' blk = d blk"
  shows "fetching e' d' blk b req pend"
proof -
  note f = assms(1) [unfolded fetching_def] and k = keepsD [OF assms(2)]
  have vb: "vblock e blk" and vol: "vol e" using f by simp_all
  have "readable_at e' d blk" using f assms(3,4) by (intro readable_at_keeps [OF _ assms(2)]) auto
  then have "readable_at e' d' blk" using assms(5) by (simp add: readable_at_def holds_at_def)
  moreover have ptr: "eptr e' blk j = eptr e blk j" if "j < ncar e" for j using k(6) [OF vb assms(3) that] .
  moreover have "vpage e' (eptr e blk j) = vpage e (eptr e blk j)" if "j < ncar e" for j
    using assms(4) nth_mem [of j "ptrs e blk"] that by simp
  moreover have "mapped e' blk" using f keeps_mapped [OF assms(2) vb assms(3) vol] by simp
  ultimately show ?thesis using f k(1,2,4,9,10) by (simp add: fetching_def)
qed

lemma writes_keeps:
  assumes "writes e blk D req pend" "keeps X Y e e'" "vblock e blk" "blk \<notin> X" "\<And>p. p \<in> set (ptrs e blk) \<Longrightarrow> vpage e' p = vpage e p"
  shows "writes e' blk D req pend"
proof -
  note w = assms(1) [unfolded writes_def] and k = keepsD [OF assms(2)]
  have "eptr e' blk j = eptr e blk j" if "j < ncar e" for j using k(6) [OF assms(3,4) that] .
  moreover have "vpage e' (eptr e blk j) = vpage e (eptr e blk j)" if "j < ncar e" for j
    using assms(5) nth_mem [of j "ptrs e blk"] that by simp
  ultimately show ?thesis using w k(2,4,10) by (simp add: writes_def)
qed

lemma item_keeps:
  assumes "item_ok e d w b" "keeps X Y e e'" "rw_bio e b" "bio_blk b \<notin> X" "d' (bio_blk b) = d (bio_blk b)"
    and "\<And>p. mapped e (bio_blk b) \<Longrightarrow> p \<in> set (ptrs e (bio_blk b)) \<Longrightarrow> vpage e' p = vpage e p"
    and "\<And>req pend. w = WriteIO req pend \<Longrightarrow> mapped e (bio_blk b)"
  shows "item_ok e' d' w b"
proof (cases w)
  case (Flight req)
  then show ?thesis using assms(1) keepsD(2,4) [OF assms(2)] by simp
next
  case (WriteIO req pend)
  then show ?thesis using assms writes_keeps [OF _ assms(2)] by (auto simp: rw_bio_def)
next
  case (ReadIO req pend)
  then show ?thesis using assms(1,4-6) fetching_mapped by (auto intro!: fetching_keeps [OF _ assms(2)])
next
  case (Crypto req)
  then show ?thesis using assms(1,4-6) fetching_mapped by (auto intro!: fetching_keeps [OF _ assms(2)])
qed (use assms(1) in simp)

section \<open>The invariant\<close>

text \<open>No bio touches a block that another one writes.\<close>

definition apart :: "bio multiset \<Rightarrow> bool" where
  "apart M \<longleftrightarrow> (\<forall>x y. {#x, y#} \<subseteq># image_mset (\<lambda>b. (bio_blk b, bio_op b)) M \<and> fst x = fst y \<longrightarrow> snd x = REQ_OP_READ)"

lemma apart_add:
  assumes "apart (add_mset b M)" "c \<in># M" "bio_blk c = bio_blk b"
  shows "bio_op b = REQ_OP_READ" "bio_op c = REQ_OP_READ"
proof -
  let ?f = "\<lambda>b. (bio_blk b, bio_op b)"
  obtain N where "M = add_mset c N" using assms(2) by (metis multi_member_split)
  then have "{#?f b, ?f c#} \<subseteq># image_mset ?f (add_mset b M)" "{#?f c, ?f b#} \<subseteq># image_mset ?f (add_mset b M)"
    by (simp_all add: add_mset_commute)
  moreover have "snd x = REQ_OP_READ" if "{#x, y#} \<subseteq># image_mset ?f (add_mset b M)" "fst x = fst y" for x y
    using assms(1) that unfolding apart_def by blast
  ultimately show "bio_op b = REQ_OP_READ" "bio_op c = REQ_OP_READ" using assms(3) by fastforce+
qed

text \<open>The answer to a bio: a read has the contents \<open>d0\<close> before, a write is in the contents \<open>d\<close> after, over uninitialised memory.\<close>

definition answers :: "(u32 \<Rightarrow> bytes option) \<Rightarrow> (u32 \<Rightarrow> bytes option) \<Rightarrow> bio \<Rightarrow> bio \<Rightarrow> bool" where
  "answers d0 d b b' \<longleftrightarrow>
     (if bio_op b = REQ_OP_READ then reads_back b (d0 (bio_blk b)) b'
      else b' = b \<and> (\<exists>junk. length junk = 4096 \<and> d (bio_blk b) = Some (blit junk (bio_base b) (payload b))))"

text \<open>The writes that still have to draw carrier blocks.\<close>

definition fresh :: "engine \<Rightarrow> bio \<Rightarrow> bool" where
  "fresh e b \<longleftrightarrow> bio_op b = REQ_OP_WRITE \<and> \<not> mapped e (bio_blk b)"

definition waiting :: "bio list \<Rightarrow> (work \<times> bio) list \<Rightarrow> bio list" where
  "waiting bs its = map trim_bio bs @ map snd (filter (\<lambda>(w, b). \<exists>req. w = Flight req) its)"

text \<open>\<open>served d0 L M bs e its d fin\<close>: of the bios \<open>M\<close>, \<open>bs\<close> are still to come, the items \<open>its\<close> are under way, and those of \<open>fin\<close> were
  handed back with their answers; \<open>L\<close> are the bios handed back before.\<close>

definition served :: "(u32 \<Rightarrow> bytes option) \<Rightarrow> bio list \<Rightarrow> bio multiset \<Rightarrow> bio list \<Rightarrow> engine \<Rightarrow> (work \<times> bio) list \<Rightarrow>
    (u32 \<Rightarrow> bytes option) \<Rightarrow> (bio \<times> bio) list \<Rightarrow> bool" where
  "served d0 L M bs e its d fin \<longleftrightarrow> busy e d (wblks its) \<and> (\<forall>(w, b) \<in> set its. item_ok e d w b) \<and> (\<forall>b \<in># M. rw_bio e b) \<and>
     (\<forall>b \<in> set bs. bio_ok b) \<and> e_ended e = L @ map snd fin \<and>
     mset (map fst fin) + mset (map snd its) + mset (map trim_bio bs) = M \<and> (\<forall>(b, b') \<in> set fin. answers d0 d b b') \<and>
     (\<forall>blk. (\<forall>b \<in># M. bio_op b = REQ_OP_WRITE \<longrightarrow> bio_blk b \<noteq> blk) \<longrightarrow> d blk = d0 blk) \<and>
     room_for (length (filter (fresh e) (waiting bs its))) e"

lemma servedD:
  assumes "served d0 L M bs e (us @ (w, b) # vs) d fin"
  shows "busy e d (wblks (us @ (w, b) # vs))" "item_ok e d w b" "rw_bio e b"
    "M = add_mset b (mset (map fst fin) + mset (map snd (us @ vs)) + mset (map trim_bio bs))"
    "\<And>w' b'. (w', b') \<in> set (us @ vs) \<Longrightarrow> item_ok e d w' b'" "\<And>b'. b' \<in># M \<Longrightarrow> rw_bio e b'"
    "e_ended e = L @ map snd fin" "\<And>b b'. (b, b') \<in> set fin \<Longrightarrow> answers d0 d b b'"
    "room_for (length (filter (fresh e) (waiting bs (us @ (w, b) # vs)))) e"
proof -
  show M: "M = add_mset b (mset (map fst fin) + mset (map snd (us @ vs)) + mset (map trim_bio bs))"
    using assms by (auto simp: served_def)
  have rw: "\<forall>b \<in># M. rw_bio e b" using assms unfolding served_def by blast
  then show "rw_bio e b'" if "b' \<in># M" for b' using that by blast
  show "rw_bio e b" using rw M by simp
qed (use assms in \<open>auto simp: served_def\<close>)

lemma wblks_mem: "(WriteIO req pend, b) \<in> set its \<Longrightarrow> bio_blk b \<in> wblks its"
  by (auto simp: wblks_def)

lemma busy_mapped: "busy e d X \<Longrightarrow> blk \<in> X \<Longrightarrow> mapped e blk"
  using busyD(1,3) [of e d X] owned_mapped [of e blk "ncar e"] volD(5) [of e] by auto

text \<open>What a step for the bio \<open>b\<close> changes: nothing if it is a read, the entry of its block and its carrier blocks if it is a write.\<close>

definition touches :: "engine \<Rightarrow> bio \<Rightarrow> u32 set \<Rightarrow> u32 set \<Rightarrow> bool" where
  "touches e b X Y \<longleftrightarrow> (if bio_op b = REQ_OP_READ then X = {} \<and> Y = {}
     else X = {bio_blk b} \<and> (\<forall>p \<in> Y. mapped e (bio_blk b) \<and> p \<in> set (ptrs e (bio_blk b))))"

lemma touches_apart:
  assumes "apart (add_mset b M)" "c \<in># M" "touches e b X Y" "keeps X Y e e'" "busy e d A" "rw_bio e b" "rw_bio e c"
  shows "bio_blk c \<notin> X" "mapped e (bio_blk c) \<Longrightarrow> p \<in> set (ptrs e (bio_blk c)) \<Longrightarrow> vpage e' p = vpage e p" "fresh e' c = fresh e c"
proof -
  show X: "bio_blk c \<notin> X"
    using apart_add [OF assms(1,2)] assms(3) by (auto simp: touches_def split: if_splits)
  show "vpage e' p = vpage e p" if "mapped e (bio_blk c)" "p \<in> set (ptrs e (bio_blk c))"
  proof -
    have "p \<in> vtaken e" using busy_taken [OF assms(5) _ that(1)] that(2) assms(7) by (auto simp: rw_bio_def)
    moreover have "p \<notin> Y"
      using apart_add [OF assms(1,2)] assms(3,6,7) busy_apart [OF assms(5) _ that(1), of "bio_blk b"] that(2)
      by (auto simp: touches_def rw_bio_def split: if_splits)
    ultimately show ?thesis using keepsD(8) [OF assms(4)] by blast
  qed
  show "fresh e' c = fresh e c"
    using keeps_mapped [OF assms(4) _ X busyD(1) [OF assms(5)]] assms(7) by (simp add: fresh_def rw_bio_def)
qed

lemma served_step:
  assumes "served d0 L M bs e (us @ (w, b) # vs) d fin" "apart M" "keeps X Y e e'" "touches e b X Y"
    and "busy e' d' (wblks (us @ new @ vs))" "\<And>blk. blk \<noteq> bio_blk b \<or> bio_op b = REQ_OP_READ \<Longrightarrow> d' blk = d blk"
    and "\<And>w' b'. (w', b') \<in> set new \<Longrightarrow> item_ok e' d' w' b' \<and> (\<forall>req. w' \<noteq> Flight req)" "e_ended e' = e_ended e @ map snd ans"
    and "map snd new @ map fst ans = [b]" "\<And>b b'. (b, b') \<in> set ans \<Longrightarrow> answers d0 d' b b'"
    and "room_for (length (filter (fresh e) (waiting bs (us @ vs)))) e'"
  shows "served d0 L M bs e' (us @ new @ vs) d' (fin @ ans)"
proof -
  note s = servedD [OF assms(1)]
  let ?N = "mset (map fst fin) + mset (map snd (us @ vs)) + mset (map trim_bio bs)"
  note ap = touches_apart [OF assms(2) [unfolded s(4)] _ assms(4,3) s(1,3) s(6)]
  have N: "c \<in># M" if "c \<in># ?N" for c using that s(4) by simp
  have diff: "d' (bio_blk c) = d (bio_blk c)" if "c \<in># ?N" for c
    using assms(6) apart_add [OF assms(2) [unfolded s(4)] that] by blast
  have others: "item_ok e' d' w' c" if "(w', c) \<in> set (us @ vs)" for w' c
  proof (rule item_keeps [OF s(5) [OF that] assms(3)])
    have c: "c \<in># ?N" using that by force
    note N = N [OF c]
    show "rw_bio e c" using s(6) N .
    show "bio_blk c \<notin> X" using ap(1) [OF c N] .
    show "d' (bio_blk c) = d (bio_blk c)" using diff [OF c] .
    show "vpage e' p = vpage e p" if "mapped e (bio_blk c)" "p \<in> set (ptrs e (bio_blk c))" for p using ap(2) [OF c N that] .
    show "mapped e (bio_blk c)" if "w' = WriteIO req pend" for req pend
      using busy_mapped [OF s(1)] wblks_mem that \<open>(w', c) \<in> set (us @ vs)\<close> by fastforce
  qed
  have "answers d0 d' c c'" if "(c, c') \<in> set fin" for c c'
  proof -
    have "c \<in># ?N" using that by force
    then show ?thesis using diff s(8) [OF that] by (simp add: answers_def)
  qed
  moreover have "M = mset (map fst (fin @ ans)) + mset (map snd (us @ new @ vs)) + mset (map trim_bio bs)"
  proof -
    have "mset (map snd new @ map fst ans) = {#b#}" using assms(9) by simp
    then show ?thesis using s(4) by (simp add: ac_simps)
  qed
  moreover have "waiting bs (us @ new @ vs) = waiting bs (us @ vs)"
    using assms(7) by (auto simp: waiting_def filter_empty_conv)
  moreover have "filter (fresh e') (waiting bs (us @ vs)) = filter (fresh e) (waiting bs (us @ vs))"
  proof (rule filter_cong [OF refl])
    fix c assume "c \<in> set (waiting bs (us @ vs))"
    then have "c \<in># ?N" by (force simp: waiting_def)
    then show "fresh e' c = fresh e c" using ap(3) N by blast
  qed
  moreover have "d' blk = d0 blk" if "\<forall>b \<in># M. bio_op b = REQ_OP_WRITE \<longrightarrow> bio_blk b \<noteq> blk" for blk
  proof -
    have "d blk = d0 blk" using assms(1) that unfolding served_def by blast
    moreover have "blk \<noteq> bio_blk b \<or> bio_op b = REQ_OP_READ" using that s(3,4) by (auto simp: rw_bio_def)
    ultimately show ?thesis using assms(6) by simp
  qed
  moreover have "\<forall>c \<in># M. rw_bio e' c" using s(6) keepsD(9) [OF assms(3)] by (simp add: rw_bio_def)
  moreover have "\<forall>b \<in> set bs. bio_ok b" using assms(1) by (simp add: served_def)
  moreover have "\<forall>(w', c) \<in> set (us @ new @ vs). item_ok e' d' w' c" using others assms(7) by auto
  moreover have "\<forall>(c, c') \<in> set (fin @ ans). answers d0 d' c c'" using calculation(1) assms(10) by auto
  ultimately show ?thesis using assms(5,8,11) s(7) unfolding served_def by simp
qed

text \<open>The room that is left.\<close>

lemma waiting_less:
  "length (filter (fresh e) (waiting bs (us @ (w, b) # vs))) =
     length (filter (fresh e) (waiting bs (us @ vs))) + (if (\<exists>req. w = Flight req) \<and> fresh e b then 1 else 0)"
  by (auto simp: waiting_def)

lemma room_for_still:
  "room_for n e \<Longrightarrow> keeps X Y e e' \<Longrightarrow> vector (e_ctx e') = vector (e_ctx e) \<Longrightarrow> room_for n e'"
  using keepsD(2,3,11) [of X Y e e'] by (simp add: room_for_def same_instance_def)

lemma room_for_drawn:
  assumes "room_for (Suc n) e" "keeps X Y e e'" "quiet (e_k e) k" "vector (e_ctx e') = fst (acquired (ncar e) (vfs e) (vector (e_ctx e)) k)"
  shows "room_for n e'"
proof -
  have "k_rand k = k_rand (e_k e)" using assms(3) by (auto simp: quiet_def)
  then show ?thesis using assms(1,4) keepsD(2,3,11) [OF assms(2)] by (simp add: room_for_def same_instance_def)
qed

section \<open>Steps\<close>

lemma served_wblks:
  assumes "served d0 L M bs e (us @ (w, b) # vs) d fin" "apart M"
  shows "bio_blk b \<notin> wblks (us @ vs)"
proof
  note s = servedD [OF assms(1)]
  assume "bio_blk b \<in> wblks (us @ vs)"
  then obtain c req pend where c: "bio_blk b = bio_blk c" "(WriteIO req pend, c) \<in> set (us @ vs)" unfolding wblks_def by blast
  have w: "bio_op c = REQ_OP_WRITE" using s(5) [OF c(2)] by simp
  have "c \<in> snd ` set (us @ vs)" using imageI [OF c(2), of snd] by simp
  then have "c \<in># mset (map snd (us @ vs))" by (simp only: set_map set_mset_mset)
  then have "c \<in># mset (map fst fin) + mset (map snd (us @ vs)) + mset (map trim_bio bs)" by (simp only: union_iff simp_thms)
  from apart_add(2) [OF assms(2) [unfolded s(4)] this c(1) [symmetric]] show False using w by simp
qed

lemma served_read_same:
  assumes "served d0 L M bs e (us @ (w, b) # vs) d fin" "apart M" "bio_op b = REQ_OP_READ"
  shows "d (bio_blk b) = d0 (bio_blk b)"
proof -
  note s = servedD [OF assms(1)]
  have "bio_blk c \<noteq> bio_blk b" if "c \<in># M" "bio_op c = REQ_OP_WRITE" for c
    using apart_add(2) [OF assms(2) [unfolded s(4)], of c] that assms(3) s(4) by auto
  then show ?thesis using assms(1) unfolding served_def by blast
qed

text \<open>A step of a read goes on with another item, or hands the bio back.\<close>

lemma served_read:
  assumes "served d0 L M bs e (us @ (w, b) # vs) d fin" "apart M" "bio_op b = REQ_OP_READ" "still e e'" "wblks [(w, b)] = {}"
    and "if ws = [] then \<exists>b'. e_ended e' = e_ended e @ [b'] \<and> reads_back b (d (bio_blk b)) b'
      else \<exists>w'. ws = [w'] \<and> item_ok e' d w' b \<and> wblks [(w', b)] = {} \<and> (\<forall>req. w' \<noteq> Flight req) \<and> e_ended e' = e_ended e"
  shows "\<exists>new ans. ws = map fst new \<and> served d0 L M bs e' (us @ new @ vs) d (fin @ ans)"
proof -
  note s = servedD [OF assms(1)]
  have keep: "keeps {} {} e e'" and vec: "vector (e_ctx e') = vector (e_ctx e)" using assms(4) by (simp_all add: still_def)
  have tch: "touches e b {} {}" using assms(3) by (simp add: touches_def)
  have "wblks (us @ (w, b) # vs) = wblks us \<union> wblks vs" using assms(5) by (auto simp: wblks_def)
  then have busy: "busy e' d (wblks us \<union> wblks vs)" using busy_keeps0 [OF s(1) keep] by simp
  have "\<not> fresh e b" using assms(3) by (simp add: fresh_def)
  then have room: "room_for (length (filter (fresh e) (waiting bs (us @ vs)))) e'"
    using room_for_still [OF s(9) keep vec] by (simp add: waiting_less)
  show ?thesis
  proof (cases "ws = []")
    case True
    then obtain b' where b': "e_ended e' = e_ended e @ [b']" "reads_back b (d (bio_blk b)) b'" using assms(6) by auto
    then have "answers d0 d b b'" using served_read_same [OF assms(1-3)] assms(3) by (simp add: answers_def)
    then have "served d0 L M bs e' (us @ [] @ vs) d (fin @ [(b, b')])"
      by (intro served_step [OF assms(1,2) keep tch]) (use busy room b'(1) in simp_all)
    then show ?thesis using True by (intro exI [of _ "[]"] exI [of _ "[(b, b')]"]) simp
  next
    case False
    then obtain w' where w': "ws = [w']" "item_ok e' d w' b" "wblks [(w', b)] = {}" "\<forall>req. w' \<noteq> Flight req" "e_ended e' = e_ended e"
      using assms(6) by auto
    then have "wblks (us @ [(w', b)] @ vs) = wblks us \<union> wblks vs" by (simp only: wblks_simps) simp
    then have "served d0 L M bs e' (us @ [(w', b)] @ vs) d (fin @ [])"
      by (intro served_step [OF assms(1,2) keep tch]) (use busy room w' in auto)
    then show ?thesis using w'(1) by (intro exI [of _ "[(w', b)]"] exI [of _ "[]"]) simp
  qed
qed

lemma served_write_start:
  assumes "served d0 L M bs e (us @ (Flight req, b) # vs) d fin" "apart M" "bio_op b = REQ_OP_WRITE" "tables_ok c"
  shows "\<exists>e' new ans. afs_flightq c req e = Some (e', map fst new) \<and> served d0 L M bs e' (us @ new @ vs) d (fin @ ans)"
proof -
  note s = servedD [OF assms(1)]
  let ?blk = "bio_blk b" and ?n = "length (filter (fresh e) (waiting bs (us @ vs)))"
  have room: "if mapped e ?blk then room_for ?n e else room_for (Suc ?n) e"
    using s(9) assms(3) unfolding waiting_less by (cases "mapped e ?blk") (simp_all add: fresh_def)
  then have "mapped e ?blk \<or> room e" using room_for_room by (cases "mapped e ?blk") auto
  moreover have "vblock e ?blk" using s(3) by (simp add: rw_bio_def)
  moreover have "busy e d (wblks (us @ vs))" using s(1) by simp
  moreover have it: "rq_ok (ncar e) req" "req_block req = ?blk" "req_iv req = take 16 (passphrase_hash (e_ctx e))" "req_bio req = Bio b" "bio_req b req"
    using s(2) by simp_all
  ultimately obtain req' e' where w: "afs_flightq c req e = Some (e', [WriteIO req' [0..<ncar e]])"
      "writing e' d (insert ?blk (wblks (us @ vs))) ?blk (blit (data_block req) (bio_base b) (payload b)) req' [0..<ncar e]"
      "req_bio req' = Bio b" "e_ended e' = e_ended e" "keeps {?blk} {} e e'"
      "if mapped e ?blk then vector (e_ctx e') = vector (e_ctx e)
       else \<exists>k. quiet (e_k e) k \<and> vector (e_ctx e') = fst (acquired (ncar e) (vfs e) (vector (e_ctx e)) k)"
    using start_write [of e d "wblks (us @ vs)" ?blk req b c] assms(3,4) by blast
  have "length (data_block req) = 4096" using it(1) by (simp add: rq_ok_def)
  then have item: "item_ok e' d (WriteIO req' [0..<ncar e]) b" using w(2,3) assms(3) by (auto simp: writing_def)
  have tch: "touches e b {?blk} {}" using assms(3) by (simp add: touches_def)
  have "busy e' d (wblks (us @ [(WriteIO req' [0..<ncar e], b)] @ vs))" using w(2) by (simp add: writing_def)
  moreover have "room_for ?n e'"
    using room room_for_still [OF _ w(5)] room_for_drawn [OF _ w(5)] w(6) by (auto split: if_splits)
  ultimately have "served d0 L M bs e' (us @ [(WriteIO req' [0..<ncar e], b)] @ vs) d (fin @ [])"
    by (intro served_step [OF assms(1,2) w(5) tch]) (use item w(4) in auto)
  then show ?thesis using w(1) by (intro exI [of _ e'] exI [of _ "[(WriteIO req' [0..<ncar e], b)]"] exI [of _ "[]"]) simp
qed

lemma served_write_done:
  assumes "served d0 L M bs e (us @ (WriteIO req pend, b) # vs) d fin" "apart M" "i \<in> set pend"
  shows "\<exists>e' new d' ans. write_done req pend i e = Some (e', map fst new) \<and> served d0 L M bs e' (us @ new @ vs) d' (fin @ ans)"
proof -
  note s = servedD [OF assms(1)]
  let ?blk = "bio_blk b" and ?X = "insert (bio_blk b) (wblks (us @ vs))"
  have bio: "bio_op b = REQ_OP_WRITE" "req_bio req = Bio b" using s(2) by simp_all
  have busy: "busy e d ?X" using s(1) by simp
  obtain junk where junk: "length junk = 4096" "writes e ?blk (blit junk (bio_base b) (payload b)) req pend" using s(2) by auto
  let ?D = "blit junk (bio_base b) (payload b)"
  have "writing e d ?X ?blk ?D req pend" using busy junk(2) by (simp add: writing_def)
  then obtain e' ws where w: "write_done req pend i e = Some (e', ws)" "keeps {?blk} (set (ptrs e ?blk)) e e'" "vector (e_ctx e') = vector (e_ctx e)"
      "if ws = [] then busy e' (d(?blk \<mapsto> ?D)) (?X - {?blk}) \<and> e_ended e' = e_ended e @ [b]
       else \<exists>req' pend'. ws = [WriteIO req' pend'] \<and> writing e' d ?X ?blk ?D req' pend' \<and> req_bio req' = Bio b \<and> e_ended e' = e_ended e"
    using write_done_ok [OF _ assms(3) bio(2)] by blast
  have "mapped e ?blk" using busy_mapped [OF busy] by simp
  then have tch: "touches e b {?blk} (set (ptrs e ?blk))" using bio(1) by (simp add: touches_def)
  have room: "room_for (length (filter (fresh e) (waiting bs (us @ vs)))) e'"
    using room_for_still [OF s(9) w(2,3)] by (simp add: waiting_less)
  show ?thesis
  proof (cases "ws = []")
    case True
    have "?X - {?blk} = wblks (us @ [] @ vs)" using served_wblks [OF assms(1,2)] by auto
    then have "busy e' (d(?blk \<mapsto> ?D)) (wblks (us @ [] @ vs))" "e_ended e' = e_ended e @ [b]" using w(4) True by simp_all
    moreover have "answers d0 (d(?blk \<mapsto> ?D)) b b" using bio(1) junk(1) by (auto simp: answers_def)
    ultimately have "served d0 L M bs e' (us @ [] @ vs) (d(?blk \<mapsto> ?D)) (fin @ [(b, b)])"
      by (intro served_step [OF assms(1,2) w(2) tch]) (use room bio(1) in auto)
    then show ?thesis using w(1) True by (intro exI [of _ e'] exI [of _ "[]"] exI [of _ "d(?blk \<mapsto> ?D)"] exI [of _ "[(b, b)]"]) simp
  next
    case False
    then obtain req' pend' where q: "ws = [WriteIO req' pend']" "writing e' d ?X ?blk ?D req' pend'" "req_bio req' = Bio b" "e_ended e' = e_ended e"
      using w(4) by auto
    have "item_ok e' d (WriteIO req' pend') b" using q(2,3) junk(1) bio(1) by (auto simp: writing_def)
    moreover have "busy e' d (wblks (us @ [(WriteIO req' pend', b)] @ vs))" using q(2) by (simp add: writing_def)
    ultimately have "served d0 L M bs e' (us @ [(WriteIO req' pend', b)] @ vs) d (fin @ [])"
      by (intro served_step [OF assms(1,2) w(2) tch]) (use room q(4) in auto)
    then show ?thesis using w(1) q(1) by (intro exI [of _ e'] exI [of _ "[(WriteIO req' pend', b)]"] exI [of _ d] exI [of _ "[]"]) simp
  qed
qed

text \<open>Every item under way can make its next step, and does.\<close>

fun ready :: "work \<Rightarrow> nat \<Rightarrow> bool" where
  "ready (ReadIO req pend) i \<longleftrightarrow> i \<in> set pend"
| "ready (WriteIO req pend) i \<longleftrightarrow> i \<in> set pend"
| "ready w i \<longleftrightarrow> True"

lemma run_work_ready: "run_work c w i e = Some s \<Longrightarrow> ready w i"
  by (cases "(c, w, i, e)" rule: run_work.cases) (auto split: if_splits)

lemma item_ready: "item_ok e d w b \<Longrightarrow> \<exists>i. ready w i"
  by (cases "(e, d, w, b)" rule: item_ok.cases) (auto simp: writes_def neq_Nil_conv)

lemma served_flight_read:
  assumes "served d0 L M bs e (us @ (Flight req, b) # vs) d fin" "apart M" "bio_op b = REQ_OP_READ"
  shows "\<exists>e' new ans. afs_flightq c req e = Some (e', map fst new) \<and> served d0 L M bs e' (us @ new @ vs) d (fin @ ans)"
proof -
  note s = servedD [OF assms(1)]
  have vb: "vblock e (bio_blk b)" using s(3) by (simp add: rw_bio_def)
  have busy: "busy e d (wblks (us @ vs))" using s(1) by simp
  have "set (ptrs e (bio_blk b)) \<subseteq> set (block_list (vfs e))" if "mapped e (bio_blk b)"
    using busy_taken [OF busy vb that] block_list_at_set by (fastforce simp: taken_blocks_def)
  then have "readable_at e d (bio_blk b)"
    using busyD(4) [OF busy vb] served_wblks [OF assms(1,2)] by (simp add: readable_at_def)
  then obtain e' ws where r: "afs_flightq c req e = Some (e', ws)" "still e e'"
      "if ws = [] then \<exists>b'. e_ended e' = e_ended e @ [b'] \<and> reads_back b (d (bio_blk b)) b'
       else \<exists>req' pend. ws = [ReadIO req' pend] \<and> pend \<noteq> [] \<and> fetching e' d (bio_blk b) b req' pend \<and> e_ended e' = e_ended e"
    using start_read [of e d "bio_blk b" req b c] vb busyD(1) [OF busy] s(2) assms(3) by auto
  have "\<exists>new ans. ws = map fst new \<and> served d0 L M bs e' (us @ new @ vs) d (fin @ ans)"
    by (rule served_read [OF assms r(2)]) (use r(3) assms(3) in \<open>auto split: if_splits\<close>)
  then show ?thesis using r(1) by blast
qed

lemma served_run:
  assumes "served d0 L M bs e (us @ (w, b) # vs) d fin" "apart M" "tables_ok c" "ready w i"
  shows "\<exists>e' new d' ans. run_work c w i e = Some (e', map fst new) \<and> served d0 L M bs e' (us @ new @ vs) d' (fin @ ans)"
proof (cases w)
  case (Flight req)
  then show ?thesis
    using served_flight_read [of d0 L M bs e us req b vs d fin c] served_write_start [of d0 L M bs e us req b vs d fin c] assms servedD(3) [OF assms(1)]
    by (fastforce simp: rw_bio_def)
next
  case (WriteIO req pend)
  then show ?thesis using served_write_done [of d0 L M bs e us req pend b vs d fin i] assms by simp
next
  case (ReadIO req pend)
  have f: "bio_op b = REQ_OP_READ" "fetching e d (bio_blk b) b req pend" using servedD(2) [OF assms(1)] ReadIO by simp_all
  obtain e' req' where r: "read_done req pend i e = Some (e', if remove1 i pend = [] then [Crypto req'] else [ReadIO req' (remove1 i pend)])"
      "fetching e' d (bio_blk b) b req' (remove1 i pend)" "e_ended e' = e_ended e" "still e e'"
    using read_done_ok [OF f(2), of i] assms(4) unfolding ReadIO ready.simps by blast
  have "\<exists>new ans. (if remove1 i pend = [] then [Crypto req'] else [ReadIO req' (remove1 i pend)]) = map fst new \<and>
      served d0 L M bs e' (us @ new @ vs) d (fin @ ans)"
    by (rule served_read [OF assms(1,2) f(1) r(4)]) (use ReadIO r(2,3) f(1) in auto)
  then obtain new ans where n: "read_done req pend i e = Some (e', map fst new)" "served d0 L M bs e' (us @ new @ vs) d (fin @ ans)"
    using r(1) by metis
  have "run_work c w i e = read_done req pend i e" using assms(4) ReadIO by simp
  then show ?thesis using n by (intro exI conjI) (simp, assumption)
next
  case (Crypto req)
  have f: "bio_op b = REQ_OP_READ" "fetching e d (bio_blk b) b req []" using servedD(2) [OF assms(1)] Crypto by simp_all
  obtain e' where r: "afs_cryptoq c req e = Some (e', [])" "still e e'" "\<exists>b'. e_ended e' = e_ended e @ [b'] \<and> reads_back b (d (bio_blk b)) b'"
    using crypto_ok [OF f(2)] by blast
  have "\<exists>new ans. [] = map fst new \<and> served d0 L M bs e' (us @ new @ vs) d (fin @ ans)"
    by (rule served_read [OF assms(1,2) f(1) r(2)]) (use Crypto r(3) in auto)
  then show ?thesis using r(1) Crypto by auto
qed (use servedD(2) [OF assms(1)] in simp)

text \<open>A bio that arrives becomes a request, whatever is under way.\<close>

lemma trim_bio_blk: "bio_ok b \<Longrightarrow> bio_blk (trim_bio b) = bio_blk b"
  using trim_bio_ok(4) by (simp add: bio_blk_def)

lemma served_map:
  assumes "served d0 L M (b # bs) e its d fin"
  shows "\<exists>req k. afs_map_bio b e = Some (DM_MAPIO_SUBMITTED, e\<lparr>e_k := k\<rparr>, [Flight req]) \<and>
    served d0 L M bs (e\<lparr>e_k := k\<rparr>) (its @ [(Flight req, trim_bio b)]) d fin"
proof -
  note s = assms [unfolded served_def]
  have busy: "busy e d (wblks its)" and ok: "bio_ok b" and M: "M = mset (map fst fin) + mset (map snd its) + mset (map trim_bio (b # bs))"
    and rw: "\<forall>b \<in># M. rw_bio e b" and room: "room_for (length (filter (fresh e) (waiting (b # bs) its))) e" using s by auto
  note vol = busyD(1) [OF busy] and tr = trim_bio_ok [OF ok]
  have rwb: "rw_bio e (trim_bio b)" using rw M by simp
  then obtain req k where req: "afs_map_bio b e = Some (DM_MAPIO_SUBMITTED, e\<lparr>e_k := k\<rparr>, [Flight req])" "quiet (e_k e) k"
      "rq_ok (ncar e) req" "req_block req = bio_blk b" "req_iv req = take 16 (passphrase_hash (e_ctx e))" "rebuild_flag req = 0"
      "req_bio req = Bio (trim_bio b)" "bio_req (trim_bio b) req"
    using map_bio_request [OF vol ok] tr(3) by (auto simp: rw_bio_def)
  let ?e = "e\<lparr>e_k := k\<rparr>" and ?its = "its @ [(Flight req, trim_bio b)]"
  have still: "still e ?e" using still_kernel [OF vol req(2)] .
  then have keep: "keeps {} {} e ?e" by (simp add: still_def)
  have "item_ok ?e d (Flight req) (trim_bio b)" using req trim_bio_blk [OF ok] by simp
  moreover have "item_ok ?e d w c" if "(w, c) \<in> set its" for w c
  proof (rule item_keeps [OF _ keep])
    show "item_ok e d w c" using s that by blast
    have "c \<in># mset (map snd its)" using imageI [OF that, of snd] by simp
    then show "rw_bio e c" using rw M by simp
    show "mapped e (bio_blk c)" if "w = WriteIO req pend" for req pend
      using busy_mapped [OF busy wblks_mem] \<open>(w, c) \<in> set its\<close> that by blast
    show "vpage ?e p = vpage e p" for p using req(2) by (auto simp: quiet_def intro: get_page_dev_cong)
  qed simp_all
  moreover have "busy ?e d (wblks ?its)" using busy_keeps0 [OF busy keep] by simp
  moreover have "mset (waiting bs ?its) = mset (waiting (b # bs) its)" by (simp add: waiting_def)
  then have "length (filter (fresh e) (waiting bs ?its)) = length (filter (fresh e) (waiting (b # bs) its))" by (metis mset_filter size_mset)
  moreover have "fresh ?e = fresh e" by (simp add: fun_eq_iff fresh_def mapped_def)
  moreover have "room_for n ?e" if "room_for n e" for n using room_for_still [OF that keep] by simp
  ultimately have "served d0 L M bs ?e ?its d fin"
    using s room keepsD(9) [OF keep] unfolding served_def rw_bio_def by (auto simp: ac_simps)
  then show ?thesis using req(1) by blast
qed

definition in_service :: "(u32 \<Rightarrow> bytes option) \<Rightarrow> bio list \<Rightarrow> bio multiset \<Rightarrow> bio list \<times> engine \<times> work list \<Rightarrow> bool" where
  "in_service d0 L M s \<longleftrightarrow> (\<exists>its d fin. snd (snd s) = map fst its \<and> served d0 L M (fst s) (fst (snd s)) its d fin)"

lemma in_service_step:
  assumes "in_service d0 L M s" "apart M" "tables_ok c" "afs_serves c s t"
  shows "in_service d0 L M t"
  using assms(4)
proof (cases rule: afs_serves.cases)
  case (afs_serves_map b e ret e' ws' bs ws)
  then obtain its d fin where s: "ws = map fst its" "served d0 L M (b # bs) e its d fin" using assms(1) by (auto simp: in_service_def)
  then obtain req k where "afs_map_bio b e = Some (DM_MAPIO_SUBMITTED, e\<lparr>e_k := k\<rparr>, [Flight req])"
      "served d0 L M bs (e\<lparr>e_k := k\<rparr>) (its @ [(Flight req, trim_bio b)]) d fin" using served_map by blast
  then show ?thesis
    using afs_serves_map s(1) unfolding in_service_def by (intro exI [of _ "its @ [(Flight req, trim_bio b)]"]) auto
next
  case (afs_serves_work e ws e' ws' bs)
  then obtain its d fin where s: "ws = map fst its" "served d0 L M bs e its d fin" using assms(1) by (auto simp: in_service_def)
  from afs_serves_work(3) obtain us w vs i new where r: "ws = us @ w # vs" "ws' = us @ new @ vs" "run_work c w i e = Some (e', new)"
    by (cases rule: afs_step.cases) auto
  then obtain us' b vs' where its: "its = us' @ (w, b) # vs'" "us = map fst us'" "vs = map fst vs'"
    using s(1) by (auto simp: map_eq_append_conv map_eq_Cons_conv)
  obtain e2 new' d' ans where "run_work c w i e = Some (e2, map fst new')" "served d0 L M bs e2 (us' @ new' @ vs') d' (fin @ ans)"
    using served_run [OF s(2) [unfolded its(1)] assms(2,3) run_work_ready [OF r(3)]] by blast
  then show ?thesis
    using r(2,3) its(2,3) afs_serves_work(2) unfolding in_service_def by (intro exI [of _ "us' @ new' @ vs'"]) auto
qed

lemma in_service_goes:
  assumes "in_service d0 L M s" "apart M" "tables_ok c" "fst s \<noteq> [] \<or> snd (snd s) \<noteq> []"
  shows "\<exists>t. afs_serves c s t"
proof -
  obtain bs e ws where [simp]: "s = (bs, e, ws)" by (cases s)
  obtain its d fin where sv: "ws = map fst its" "served d0 L M bs e its d fin" using assms(1) by (auto simp: in_service_def)
  show ?thesis
  proof (cases bs)
    case (Cons b bs')
    then show ?thesis using served_map sv(2) afs_serves_map by (metis \<open>s = (bs, e, ws)\<close>)
  next
    case Nil
    then obtain w b its' where its: "its = [] @ (w, b) # its'" using assms(4) sv(1) by (cases its) auto
    obtain i where "ready w i" using item_ready servedD(2) [OF sv(2) [unfolded its]] by blast
    then obtain e' new where "run_work c w i e = Some (e', new)"
      using served_run [OF sv(2) [unfolded its] assms(2,3)] by blast
    from afs_step_run [OF this, of "[]" "map fst its'"] have "afs_step c (e, ws) (e', new @ map fst its')" using its sv(1) by simp
    from afs_serves_work [OF this, of bs] show ?thesis by auto
  qed
qed

section \<open>Properties\<close>

text \<open>The same for a list of bios.\<close>

definition independent :: "bio list \<Rightarrow> bool" where
  "independent bs \<longleftrightarrow> sorted_wrt (\<lambda>b c. bio_blk b \<noteq> bio_blk c \<or> bio_op b = REQ_OP_READ \<and> bio_op c = REQ_OP_READ) bs"

lemma apart_insert:
  assumes "apart M" "\<And>c. c \<in># M \<Longrightarrow> bio_blk b \<noteq> bio_blk c \<or> bio_op b = REQ_OP_READ \<and> bio_op c = REQ_OP_READ"
  shows "apart (add_mset b M)"
  unfolding apart_def
proof (intro allI impI)
  let ?f = "\<lambda>b. (bio_blk b, bio_op b)"
  fix x y assume "{#x, y#} \<subseteq># image_mset ?f (add_mset b M) \<and> fst x = fst y"
  then have s: "{#x, y#} \<subseteq># add_mset (?f b) (image_mset ?f M)" "fst x = fst y" by simp_all
  consider "x = ?f b" | "y = ?f b" | "?f b \<notin># {#x, y#}" by auto
  then show "snd x = REQ_OP_READ"
  proof cases
    case 1
    then have "y \<in># image_mset ?f M" using s(1) by simp
    then show ?thesis using assms(2) s(2) 1 by auto
  next
    case 2
    then have "x \<in># image_mset ?f M" using s(1) by (simp add: add_mset_commute)
    then show ?thesis using assms(2) s(2) 2 by auto
  next
    case 3
    have "count {#x, y#} z \<le> count (image_mset ?f M) z" for z
      using 3 mset_subset_eq_count [OF s(1), of z] by (cases "z = ?f b") auto
    then have "{#x, y#} \<subseteq># image_mset ?f M" by (rule mset_subset_eqI)
    then show ?thesis using assms(1) s(2) unfolding apart_def by blast
  qed
qed

lemma independent_apart: "independent bs \<Longrightarrow> \<forall>b \<in> set bs. bio_ok b \<Longrightarrow> apart (mset (map trim_bio bs))"
proof (induction bs)
  case (Cons b bs)
  have tr: "bio_blk (trim_bio c) = bio_blk c" "bio_op (trim_bio c) = bio_op c" if "c \<in> set (b # bs)" for c
    using Cons.prems(2) that trim_bio_blk trim_bio_ok(3) by blast+
  have "bio_blk (trim_bio b) \<noteq> bio_blk c \<or> bio_op (trim_bio b) = REQ_OP_READ \<and> bio_op c = REQ_OP_READ" if "c \<in># mset (map trim_bio bs)" for c
  proof -
    from that obtain c' where c: "c' \<in> set bs" "c = trim_bio c'" by auto
    then show ?thesis using Cons.prems(1) tr [of b] tr [of c'] by (auto simp: independent_def)
  qed
  moreover have "apart (mset (map trim_bio bs))" using Cons by (simp add: independent_def)
  ultimately have "apart (add_mset (trim_bio b) (mset (map trim_bio bs)))" by (intro apart_insert)
  then show ?case by simp
qed (simp add: apart_def)

text \<open>C4: Concurrent requests are all served. A list of reads and writes arrives at a volume that holds \<open>d\<close>, while the work items and the completions of
  the earlier ones run, in any interleaving; no bio touches a block that another one writes, and there is room for the writes
  to blocks that are not allocated. Then no run goes on for ever, and a run that cannot go on has served everything: every bio
  was handed back once, the reads with the contents of their block; the volume holds \<open>d'\<close>, in which a written block has the payload of its
  write at the place of the bio and nothing of its old contents: what lies beside the payload is uninitialised
  memory of the request, since the code does not read the old block first as its comment says. The blocks that nobody wrote are
  as before.\<close>

theorem concurrent_requests_served:
  assumes "holds e d" "\<forall>b \<in> set bs. bio_ok b \<and> rw_bio e b" "independent bs"
    and "room_for (length (filter (\<lambda>b. bio_op b = REQ_OP_WRITE \<and> d (bio_blk b) = None) bs)) e" "tables_ok c"
  shows "always_ends (afs_serves c) (bs, e, []) (\<lambda>(bs', e', ws'). bs' = [] \<and> ws' = [] \<and>
    (\<exists>d' fin. holds e' d' \<and> e_ended e' = e_ended e @ map snd fin \<and> mset (map fst fin) = mset (map trim_bio bs) \<and>
      (\<forall>(b, b') \<in> set fin. answers d d' b b') \<and>
      (\<forall>blk. (\<forall>b \<in> set bs. bio_op b = REQ_OP_WRITE \<longrightarrow> bio_blk b \<noteq> blk) \<longrightarrow> d' blk = d blk)))"
proof -
  let ?M = "mset (map trim_bio bs)" and ?L = "e_ended e"
  have tr: "bio_op (trim_bio b) = bio_op b" "bio_blk (trim_bio b) = bio_blk b" if "b \<in> set bs" for b
    using assms(2) trim_bio_ok(3) trim_bio_blk that by blast+
  have ap: "apart ?M" using independent_apart [OF assms(3)] assms(2) by blast
  have "mapped e (bio_blk b) \<longleftrightarrow> d (bio_blk b) \<noteq> None" if "b \<in> set bs" for b
    using busyD(4) [of e d "{}" "bio_blk b"] assms(1,2) that by (auto simp: rw_bio_def holds_at_def split: option.splits)
  then have "length (filter (fresh e) (waiting bs [])) = length (filter (\<lambda>b. bio_op b = REQ_OP_WRITE \<and> d (bio_blk b) = None) bs)"
    using tr by (auto simp: waiting_def filter_map comp_def fresh_def intro!: arg_cong [where f = length] filter_cong)
  then have "served d ?L ?M bs e [] d []"
    using assms(1,2,4) tr by (auto simp: served_def rw_bio_def)
  then have init: "in_service d ?L ?M (bs, e, [])" by (auto simp: in_service_def)
  have final: "\<exists>d' fin. holds e' d' \<and> e_ended e' = ?L @ map snd fin \<and> mset (map fst fin) = ?M \<and> (\<forall>(b, b') \<in> set fin. answers d d' b b') \<and>
      (\<forall>blk. (\<forall>b \<in> set bs. bio_op b = REQ_OP_WRITE \<longrightarrow> bio_blk b \<noteq> blk) \<longrightarrow> d' blk = d blk)" if "in_service d ?L ?M ([], e', [])" for e'
  proof -
    from that obtain d' fin where s: "served d ?L ?M [] e' [] d' fin" by (auto simp: in_service_def)
    have "d' blk = d blk" if "\<forall>b \<in> set bs. bio_op b = REQ_OP_WRITE \<longrightarrow> bio_blk b \<noteq> blk" for blk
    proof -
      have "\<forall>b \<in># ?M. bio_op b = REQ_OP_WRITE \<longrightarrow> bio_blk b \<noteq> blk" using that tr by auto
      then show ?thesis using s unfolding served_def by blast
    qed
    moreover have "holds e' d'" "e_ended e' = ?L @ map snd fin" "mset (map fst fin) = ?M" "\<forall>(b, b') \<in> set fin. answers d d' b b'"
      using s by (simp_all add: served_def)
    ultimately show ?thesis by blast
  qed
  show ?thesis
  proof (rule serving.always_endsI [of "in_service d ?L ?M"])
    fix t assume t: "in_service d ?L ?M t"
    show "(\<exists>u. afs_serves c t u) \<or> (case t of (bs', e', ws') \<Rightarrow> bs' = [] \<and> ws' = [] \<and>
      (\<exists>d' fin. holds e' d' \<and> e_ended e' = ?L @ map snd fin \<and> mset (map fst fin) = ?M \<and> (\<forall>(b, b') \<in> set fin. answers d d' b b') \<and>
        (\<forall>blk. (\<forall>b \<in> set bs. bio_op b = REQ_OP_WRITE \<longrightarrow> bio_blk b \<noteq> blk) \<longrightarrow> d' blk = d blk)))"
    proof (cases "fst t = [] \<and> snd (snd t) = []")
      case True
      then obtain e' where "t = ([], e', [])" by (cases t) auto
      then show ?thesis using final t by simp
    next
      case False
      then show ?thesis using in_service_goes [OF t ap assms(5)] by blast
    qed
  qed (use init in_service_step ap assms(5) in blast)+
qed

text \<open>A write of block 0 and a read of block 1 of a new volume.\<close>

definition next_bio :: bio where
  "next_bio = (disk_bio REQ_OP_READ)\<lparr>bi_sector := 8\<rparr>"

lemma next_bio_facts: "bio_ok next_bio" "bio_blk next_bio = 1" "bio_op next_bio = REQ_OP_READ"
  using disk_bio_facts(1,6) by (simp_all add: next_bio_def bio_ok_def bio_blk_def)

theorem concurrent_requests_served_witness:
  "\<exists>e. always_ends (afs_serves gf_ctx_zero) ([disk_bio REQ_OP_WRITE, next_bio], e, []) (\<lambda>(bs', e', ws'). bs' = [] \<and> ws' = [] \<and>
     (\<exists>d'. holds e' d' \<and> d' 0 = Some (replicate 4096 7) \<and> length (e_ended e') = length (e_ended e) + 2))"
proof -
  obtain e c where e: "holds e (\<lambda>_. None)" "room_for 1 e" "vcfg e = demo_geom 16 1 0" using mount_volume by blast
  let ?bs = "[disk_bio REQ_OP_WRITE, next_bio]"
  have rw: "rw_bio e (disk_bio REQ_OP_WRITE)" "rw_bio e next_bio"
    using e(3) by (simp_all add: rw_bio_def disk_bio_facts next_bio_facts vblock_def demo_geom_def)
  have "independent ?bs" by (simp add: independent_def disk_bio_facts(3) next_bio_facts(2))
  moreover have "tables_ok gf_ctx_zero" by (simp add: tables_ok_def)
  ultimately have all: "always_ends (afs_serves gf_ctx_zero) (?bs, e, []) (\<lambda>(bs', e', ws'). bs' = [] \<and> ws' = [] \<and>
    (\<exists>d' fin. holds e' d' \<and> e_ended e' = e_ended e @ map snd fin \<and> mset (map fst fin) = mset (map trim_bio ?bs) \<and>
      (\<forall>(b, b') \<in> set fin. answers (\<lambda>_. None) d' b b') \<and>
      (\<forall>blk. (\<forall>b \<in> set ?bs. bio_op b = REQ_OP_WRITE \<longrightarrow> bio_blk b \<noteq> blk) \<longrightarrow> d' blk = None)))"
    using concurrent_requests_served [OF e(1), of ?bs gf_ctx_zero] rw e(2) by (simp add: disk_bio_facts(1,6) next_bio_facts)
  have fin: "d' 0 = Some (replicate 4096 7) \<and> length fin = 2"
    if "mset (map fst fin) = mset (map trim_bio ?bs)" "\<forall>(b, b') \<in> set fin. answers (\<lambda>_. None) d' b b'" for d' :: "u32 \<Rightarrow> bytes option" and fin
  proof -
    have "disk_bio REQ_OP_WRITE \<in># mset (map fst fin)" using that(1) by (simp add: disk_bio_facts)
    then have "\<exists>b'. answers (\<lambda>_. None) d' (disk_bio REQ_OP_WRITE) b'" using that(2) by fastforce
    then obtain junk where "length junk = 4096" "d' 0 = Some (blit junk 0 (replicate 4096 7))" by (auto simp: answers_def disk_bio_facts)
    moreover have "length fin = 2" using mset_eq_length [OF that(1)] by simp
    ultimately show ?thesis by (simp add: blit_def)
  qed
  have "always_ends (afs_serves gf_ctx_zero) (?bs, e, []) (\<lambda>(bs', e', ws'). bs' = [] \<and> ws' = [] \<and>
     (\<exists>d'. holds e' d' \<and> d' 0 = Some (replicate 4096 7) \<and> length (e_ended e') = length (e_ended e) + 2))"
  proof (rule always_ends_mono [OF all], clarify)
    fix e' d' fin assume "holds e' d'" "e_ended e' = e_ended e @ map snd fin" "mset (map fst fin) = mset (map trim_bio ?bs)"
      "\<forall>(b, b') \<in> set fin. answers (\<lambda>_. None) d' b b'"
    then show "[] = [] \<and> [] = [] \<and> (\<exists>d'. holds e' d' \<and> d' 0 = Some (replicate 4096 7) \<and> length (e_ended e') = length (e_ended e) + 2)"
      using fin by (intro conjI exI [of _ d']) auto
  qed
  then show ?thesis by blast
qed

end
