(* ===== verification/Afs_Entropy.thy ===== *)
theory Afs_Entropy
  imports Afs_Prelude "HOL-Library.Monad_Syntax"
begin

text \<open>
  The entropy source, \<open>src/src/dm_afs_entropy.c\<close>: the files of a directory, a hash table of them keyed by a hash of
  their names, and blocks drawn from them. What the kernel does is a parameter: the listing of a directory, the size
  and the reading of a file, and the hash functions of its hash tables. A result \<open>None\<close> is a fault.
\<close>

section \<open>Data\<close>

text \<open>The services of the kernel. \<open>vfs_list\<close> gives the names in a directory and \<open>vfs_size\<close> the size of a file, if they can be
  opened; \<open>vfs_read\<close> reads from an offset, with the code and the bytes that were read.\<close>

record vfs_env =
  hash_64_generic :: "u64 \<Rightarrow> nat"
  hash_min :: "u64 \<Rightarrow> nat"
  vfs_list :: "bytes \<Rightarrow> bytes list option"
  vfs_size :: "bytes \<Rightarrow> u64 option"
  vfs_read :: "bytes \<Rightarrow> u64 \<Rightarrow> nat \<Rightarrow> (int \<times> bytes) option"

record entropy_hash_entry =
  ent_key :: u64
  ent_filename :: bytes
  ent_file_size :: u64

type_synonym hash_table = "nat \<Rightarrow> entropy_hash_entry list"

text \<open>The global context with the hash table. A string is the bytes before its NUL; an entry of the list that was not stored is \<open>None\<close>.\<close>

record entropy_context =
  number_of_files :: u32
  directory_name :: bytes
  directory_name_length :: u64
  file_list :: "bytes option list"
  dm_afs_ht :: hash_table

definition BLOCK_LENGTH :: u32 where "BLOCK_LENGTH = 4096"
definition FILE_LIST_SIZE :: nat where "FILE_LIST_SIZE = 1024"

definition ent_context :: entropy_context where
  "ent_context = \<lparr>number_of_files = 0, directory_name = [], directory_name_length = 0, file_list = [], dm_afs_ht = (\<lambda>_. [])\<rparr>"

section \<open>Strings\<close>

definition cstr :: "bytes \<Rightarrow> bytes" where
  "cstr s = takeWhile (\<lambda>c. c \<noteq> 0) s"

definition strlcpy :: "bytes \<Rightarrow> nat \<Rightarrow> bytes" where
  "strlcpy src n = take (n - 1) (cstr src)"

definition strlcat :: "bytes \<Rightarrow> bytes \<Rightarrow> nat \<Rightarrow> bytes" where
  "strlcat dst src n = dst @ take (n - 1 - length dst) (cstr src)"

definition djb2_hash :: "bytes \<Rightarrow> u64" where
  "djb2_hash str = foldl (\<lambda>hash c. (push_bit 5 hash + hash) + ucast c) 5381 (cstr str)"

section \<open>The hash table\<close>

definition hash_add_64 :: "(u64 \<Rightarrow> nat) \<Rightarrow> entropy_hash_entry \<Rightarrow> hash_table \<Rightarrow> hash_table" where
  "hash_add_64 h entry ht = ht(h (ent_key entry) := entry # ht (h (ent_key entry)))"

definition hash_lookup :: "(u64 \<Rightarrow> nat) \<Rightarrow> u64 \<Rightarrow> hash_table \<Rightarrow> entropy_hash_entry option" where
  "hash_lookup h filename_hash ht = find (\<lambda>entry. filename_hash = ent_key entry) (ht (h filename_hash))"

definition retrieve_file_data :: "vfs_env \<Rightarrow> u64 \<Rightarrow> entropy_context \<Rightarrow> entropy_hash_entry option" where
  "retrieve_file_data E filename_hash st = hash_lookup (hash_min E) filename_hash (dm_afs_ht st)"

definition insert_entropy_ht :: "vfs_env \<Rightarrow> bytes option \<Rightarrow> entropy_context \<Rightarrow> kernel \<Rightarrow> (int \<times> entropy_context \<times> kernel) option" where
  "insert_entropy_ht E fname st k =
     (let (entry, k) = kmalloc 40 k in
      case fname of
        None \<Rightarrow> Some (-1, st, k)
      | Some filename \<Rightarrow>
          if entry = None then None
          else do {
            sz \<leftarrow> vfs_size E filename;
            let entry = \<lparr>ent_key = djb2_hash filename, ent_filename = filename, ent_file_size = sz\<rparr>;
            Some (0, st\<lparr>dm_afs_ht := hash_add_64 (hash_64_generic E) entry (dm_afs_ht st)\<rparr>, k) })"

section \<open>Scanning a directory\<close>

definition dm_afs_filldir :: "vfs_env \<Rightarrow> bytes \<Rightarrow> entropy_context \<Rightarrow> kernel \<Rightarrow> (entropy_context \<times> kernel) option" where
  "dm_afs_filldir E name st k =
     (if unat (number_of_files st) < FILE_LIST_SIZE then
        (let full_path_size = unat (of_nat (length name) + directory_name_length st + 2 :: u64);
             (mem, k) = kmalloc full_path_size k;
             i = unat (number_of_files st) in
         if mem = None \<or> length (file_list st) \<le> i then None
         else
           (let path = strlcpy (directory_name st) full_path_size;
                path = strlcat path [47] full_path_size;
                path = strlcat path name full_path_size;
                st = st\<lparr>file_list := (file_list st)[i := Some path]\<rparr>
            in do {
              (ret, st, k) \<leftarrow> insert_entropy_ht E (file_list st ! i) st k;
              Some (st\<lparr>number_of_files := number_of_files st + 1\<rparr>, k) }))
      else Some (st, k))"

fun iterate_dir :: "vfs_env \<Rightarrow> bytes list \<Rightarrow> entropy_context \<Rightarrow> kernel \<Rightarrow> (entropy_context \<times> kernel) option" where
  "iterate_dir E [] st k = Some (st, k)"
| "iterate_dir E (name # names) st k = do {
     (st, k) \<leftarrow> dm_afs_filldir E name st k;
     iterate_dir E names st k }"

text \<open>A directory that cannot be opened gives an error pointer, which is not null and is used.\<close>

definition scan_directory :: "vfs_env \<Rightarrow> bytes \<Rightarrow> entropy_context \<Rightarrow> kernel \<Rightarrow> (entropy_context \<times> kernel) option" where
  "scan_directory E dir st k = do {
     names \<leftarrow> vfs_list E (cstr dir);
     iterate_dir E names st k }"

definition build_entropy_ht :: "vfs_env \<Rightarrow> bytes \<Rightarrow> u64 \<Rightarrow> entropy_context \<Rightarrow> kernel \<Rightarrow> (entropy_context \<times> kernel) option" where
  "build_entropy_ht E dir name_length st k =
     (let (mem, k) = kmalloc (8 * FILE_LIST_SIZE) k;
          st = st\<lparr>file_list := (if mem = None then [] else replicate FILE_LIST_SIZE None)\<rparr>;
          (mem, k) = kmalloc (unat (name_length + 1)) k in
      if mem = None then None
      else
        (let st = st\<lparr>directory_name := strlcpy dir (unat (name_length + 1))\<rparr>;
             st = st\<lparr>directory_name_length := name_length\<rparr>;
             st = st\<lparr>dm_afs_ht := (\<lambda>_. [])\<rparr>
         in scan_directory E dir st k))"

section \<open>Entropy blocks\<close>

definition read_entropy :: "vfs_env \<Rightarrow> u64 \<Rightarrow> u32 \<Rightarrow> bytes \<Rightarrow> entropy_context \<Rightarrow> (int \<times> bytes) option" where
  "read_entropy E filename_hash block_pointer block st =
     (let offset = ucast (block_pointer * BLOCK_LENGTH) :: u64 in
      case retrieve_file_data E filename_hash st of
        None \<Rightarrow> Some (-1, block)
      | Some entry \<Rightarrow> do {
          (ret, data) \<leftarrow> vfs_read E (ent_filename entry) offset 4096;
          Some (ret, blit block 0 data) })"

text \<open>The draws are \<open>int\<close>; the first is reduced as unsigned, since the count is, the second after it is extended with its sign.\<close>

definition allocate_entropy :: "vfs_env \<Rightarrow> bytes \<Rightarrow> entropy_context \<Rightarrow> kernel \<Rightarrow> (u64 \<times> u32 \<times> bytes \<times> kernel) option" where
  "allocate_entropy E entropy_block st k =
     (let (r1, k) = get_random_bytes 4 k;
          (r2, k) = get_random_bytes 4 k;
          file_index = le_word r1 :: u32;
          block_index = le_word r2 :: u32 in
      if number_of_files st = 0 then None
      else do {
        let file_index = file_index mod number_of_files st;
        name \<leftarrow> (if unat file_index < length (file_list st) then file_list st ! unat file_index else None);
        entry \<leftarrow> retrieve_file_data E (djb2_hash name) st;
        if ent_file_size entry = 0 then None
        else do {
          let block_index = (ucast ((scast block_index mod ent_file_size entry) div ucast BLOCK_LENGTH) :: u32);
          (ret, entropy_block) \<leftarrow> read_entropy E (ent_key entry) block_index entropy_block st;
          Some (ent_key entry, block_index, entropy_block, k) } })"

section \<open>The table finds what was entered last\<close>

locale key_table =
  fixes add :: "'e \<Rightarrow> 't \<Rightarrow> 't" and look :: "'k \<Rightarrow> 't \<Rightarrow> 'e option" and key :: "'e \<Rightarrow> 'k"
  assumes look_add_same: "look (key e) (add e t) = Some e"
    and look_add_other: "k \<noteq> key e \<Longrightarrow> look k (add e t) = look k t"
begin

lemma look_fold: "look k (fold add es t) = (case find (\<lambda>e. key e = k) (rev es) of None \<Rightarrow> look k t | Some e \<Rightarrow> Some e)"
proof (induction es rule: rev_induct)
  case (snoc e es)
  then show ?case by (cases "key e = k") (auto simp: look_add_same look_add_other)
qed simp

lemma look_fold_mem:
  assumes "e \<in> set es"
  shows "\<exists>e' \<in> set es. look (key e) (fold add es t) = Some e' \<and> key e' = key e"
proof (cases "find (\<lambda>e'. key e' = key e) (rev es)")
  case None
  then show ?thesis using assms by (auto simp: find_None_iff)
next
  case (Some e')
  then have "e' \<in> set (rev es)" "key e' = key e" unfolding find_Some_iff by (metis nth_mem)+
  then show ?thesis using Some by (intro bexI [of _ e']) (simp_all add: look_fold)
qed

lemma look_fold_inj:
  assumes "e \<in> set es" "inj_on key (set es)"
  shows "look (key e) (fold add es t) = Some e"
  using look_fold_mem [OF assms(1), of t] assms by (auto dest: inj_onD)

end

interpretation ht: key_table "hash_add_64 h" "hash_lookup h" ent_key for h
  by unfold_locales (auto simp: hash_add_64_def hash_lookup_def)

section \<open>A built table\<close>

text \<open>What a directory has to offer: a listing, every file of which can be examined.\<close>

definition path :: "bytes \<Rightarrow> bytes \<Rightarrow> bytes" where
  "path dir name = dir @ 47 # name"

definition listed :: "vfs_env \<Rightarrow> bytes \<Rightarrow> bytes list \<Rightarrow> bool" where
  "listed E dir names \<longleftrightarrow> vfs_list E dir = Some names \<and>
     (\<forall>name \<in> set names. 0 \<notin> set name \<and> length name < 256 \<and> vfs_size E (path dir name) \<noteq> None)"

definition entry_of :: "vfs_env \<Rightarrow> bytes \<Rightarrow> entropy_hash_entry" where
  "entry_of E p = \<lparr>ent_key = djb2_hash p, ent_filename = p, ent_file_size = the (vfs_size E p)\<rparr>"

lemma cstr_id [simp]: "0 \<notin> set s \<Longrightarrow> cstr s = s"
  by (auto simp: cstr_def takeWhile_eq_all_conv)

text \<open>The state after the names \<open>ns\<close> were entered by a context that counted \<open>m\<close> files before: the slots of those were never stored.\<close>

definition holding :: "vfs_env \<Rightarrow> bytes \<Rightarrow> nat \<Rightarrow> bytes list \<Rightarrow> entropy_context \<Rightarrow> bool" where
  "holding E dir m ns st \<longleftrightarrow> m + length ns \<le> 1024 \<and> number_of_files st = of_nat (m + length ns) \<and> directory_name st = dir \<and>
     directory_name_length st = of_nat (length dir) \<and>
     file_list st = replicate m None @ map (Some \<circ> path dir) ns @ replicate (1024 - m - length ns) None \<and>
     dm_afs_ht st = fold (hash_add_64 (hash_64_generic E)) (map (entry_of E \<circ> path dir) ns) (\<lambda>_. [])"

lemma holding_number: "holding E dir m ns st \<Longrightarrow> unat (number_of_files st) = m + length ns"
  by (auto simp: holding_def unat_word_ariths unsigned_of_nat take_bit_nat_eq_self simp flip: of_nat_add)

lemma filldir_enters:
  assumes "holding E dir m ns st" "m + length ns < 1024" "alloc_ok k" "0 \<notin> set dir" "0 \<notin> set name" "length dir < 2 ^ 32" "length name < 256"
    and "vfs_size E (path dir name) \<noteq> None"
  shows "\<exists>st'. dm_afs_filldir E name st k = Some (st', k\<lparr>k_allocs := k_allocs k + 2\<rparr>) \<and> holding E dir m (ns @ [name]) st'"
proof -
  note h = assms(1) [unfolded holding_def] and n = holding_number [OF assms(1)]
  let ?i = "m + length ns" and ?fl = "file_list st" and ?size = "length name + length dir + 2"
  have full: "unat (of_nat (length name) + directory_name_length st + 2 :: u64) = ?size"
    using h assms(6,7) by (simp add: unat_word_ariths unsigned_of_nat take_bit_nat_eq_self)
  have c47: "cstr [47] = [47]" by (simp add: cstr_def)
  have p: "strlcat (strlcat (strlcpy dir ?size) [47] ?size) name ?size = path dir name"
    using assms(4,5) by (simp add: strlcat_def strlcpy_def path_def c47)
  have len: "length ?fl = 1024" using h by simp
  have "1024 - m - length ns = Suc (1023 - m - length ns)" using assms(2) by simp
  then have "?fl[?i := Some (path dir name)] = replicate m None @ map (Some \<circ> path dir) (ns @ [name]) @ replicate (1024 - m - length (ns @ [name])) None"
    using h by (simp add: list_update_append)
  moreover have "?fl[?i := Some (path dir name)] ! ?i = Some (path dir name)" using len assms(2) by simp
  ultimately show ?thesis
    using h assms(2,3,8) n full p len
    by (auto simp: dm_afs_filldir_def insert_entropy_ht_def kmalloc_alloc_ok FILE_LIST_SIZE_def holding_def entry_of_def Let_def)
qed

lemma iterate_dir_enters:
  assumes "holding E dir m ns st" "alloc_ok k" "0 \<notin> set dir" "length dir < 2 ^ 32"
    and "\<forall>name \<in> set names. 0 \<notin> set name \<and> length name < 256 \<and> vfs_size E (path dir name) \<noteq> None"
  shows "\<exists>st' k'. iterate_dir E names st k = Some (st', k') \<and> holding E dir m (take (1024 - m) (ns @ names)) st'"
  using assms(1,2,5)
proof (induction names arbitrary: ns st k)
  case Nil
  have "length ns \<le> 1024 - m" using Nil.prems(1) unfolding holding_def by linarith
  then have "take (1024 - m) ns = ns" by simp
  then show ?case using Nil.prems(1) by simp
next
  case (Cons name names)
  show ?case
  proof (cases "m + length ns < 1024")
    case True
    then obtain st1 where st1: "dm_afs_filldir E name st k = Some (st1, k\<lparr>k_allocs := k_allocs k + 2\<rparr>)" "holding E dir m (ns @ [name]) st1"
      using filldir_enters [OF Cons.prems(1) _ Cons.prems(2) assms(3)] Cons.prems(3) assms(4) by auto
    have "\<exists>st' k'. iterate_dir E names st1 (k\<lparr>k_allocs := k_allocs k + 2\<rparr>) = Some (st', k') \<and> holding E dir m (take (1024 - m) ((ns @ [name]) @ names)) st'"
      by (rule Cons.IH [OF st1(2)]) (use Cons.prems in simp_all)
    then show ?thesis using st1(1) by simp
  next
    case False
    then have "dm_afs_filldir E name st k = Some (st, k)"
      using holding_number [OF Cons.prems(1)] by (simp add: dm_afs_filldir_def FILE_LIST_SIZE_def)
    moreover have "take (1024 - m) (ns @ name # names) = take (1024 - m) (ns @ names)"
      using False Cons.prems(1) by (simp add: holding_def)
    moreover have "\<exists>st' k'. iterate_dir E names st k = Some (st', k') \<and> holding E dir m (take (1024 - m) (ns @ names)) st'"
      by (rule Cons.IH [OF Cons.prems(1)]) (use Cons.prems in simp_all)
    ultimately show ?thesis by simp
  qed
qed

lemma build_holding:
  assumes "alloc_ok k" "number_of_files st = of_nat m" "m \<le> 1024" "0 \<notin> set dir" "length dir < 2 ^ 32" "listed E dir names"
  shows "\<exists>st' k'. build_entropy_ht E dir (of_nat (length dir)) st k = Some (st', k') \<and> holding E dir m (take (1024 - m) names) st'"
proof -
  let ?st = "st\<lparr>file_list := replicate FILE_LIST_SIZE None, directory_name := dir, directory_name_length := of_nat (length dir), dm_afs_ht := \<lambda>_. []\<rparr>"
  let ?k = "k\<lparr>k_allocs := k_allocs k + 2\<rparr>"
  have len: "unat (of_nat (length dir) + 1 :: u64) = length dir + 1"
    using assms(5) by (simp add: unat_word_ariths unsigned_of_nat take_bit_nat_eq_self)
  have "strlcpy dir (length dir + 1) = dir" using assms(4) by (simp add: strlcpy_def)
  then have "build_entropy_ht E dir (of_nat (length dir)) st k = iterate_dir E names ?st ?k"
    using assms(1,4,6) len by (simp add: build_entropy_ht_def kmalloc_alloc_ok scan_directory_def listed_def Let_def)
  moreover have "holding E dir m [] ?st"
    using assms(2,3) by (simp add: holding_def FILE_LIST_SIZE_def flip: replicate_add)
  then have "\<exists>st' k'. iterate_dir E names ?st ?k = Some (st', k') \<and> holding E dir m (take (1024 - m) ([] @ names)) st'"
    using assms(1,4-6) by (intro iterate_dir_enters) (simp_all add: listed_def)
  ultimately show ?thesis by simp
qed

text \<open>Lookups in a table that was built.\<close>

lemma holding_lookup:
  assumes "holding E dir m ns st" "hash_min E = hash_64_generic E" "name \<in> set ns"
  shows "\<exists>name' \<in> set ns. retrieve_file_data E (djb2_hash (path dir name)) st = Some (entry_of E (path dir name')) \<and>
    djb2_hash (path dir name') = djb2_hash (path dir name)"
proof -
  let ?es = "map (entry_of E \<circ> path dir) ns"
  have "entry_of E (path dir name) \<in> set ?es" using assms(3) by simp
  from ht.look_fold_mem [OF this, of "hash_64_generic E" "\<lambda>_. []"] assms(1,2)
  show ?thesis by (auto simp: holding_def retrieve_file_data_def entry_of_def)
qed

section \<open>Properties\<close>

text \<open>C36: Building the table enters every name that the listing of the directory yields, up to 1024, whatever it names: also sub-directories and the
  entries \<open>.\<close> and \<open>..\<close>, although the header says that directories are disregarded. In a fresh context, on a directory
  whose names can be examined, \<open>build_entropy_ht\<close> succeeds, counts and lists the full path of each name in order, and a
  lookup of the hash of a path finds an entry with that hash, the path and the size of a listed name, that name itself when no
  two paths have the same hash.\<close>

theorem entropy_table_complete:
  assumes "alloc_ok k" "number_of_files st = 0" "0 \<notin> set dir" "length dir < 2 ^ 32" "listed E dir names" "hash_min E = hash_64_generic E"
  shows "\<exists>st' k'. build_entropy_ht E dir (of_nat (length dir)) st k = Some (st', k') \<and>
    (let ns = take 1024 names in unat (number_of_files st') = length ns \<and> take (length ns) (file_list st') = map (Some \<circ> path dir) ns \<and>
     (\<forall>name \<in> set ns. \<exists>name' \<in> set ns.
        retrieve_file_data E (djb2_hash (path dir name)) st' = Some (entry_of E (path dir name')) \<and>
        djb2_hash (path dir name') = djb2_hash (path dir name) \<and>
        (inj_on (djb2_hash \<circ> path dir) (set ns) \<longrightarrow> name' = name)))"
proof -
  let ?ns = "take 1024 names"
  obtain st' k' where b: "build_entropy_ht E dir (of_nat (length dir)) st k = Some (st', k')" "holding E dir 0 ?ns st'"
    using build_holding [OF assms(1) _ _ assms(3-5), of st 0] assms(2) by auto
  have "take (length ?ns) (file_list st') = map (Some \<circ> path dir) ?ns" using b(2) by (simp add: holding_def)
  moreover have "\<exists>name' \<in> set ?ns. retrieve_file_data E (djb2_hash (path dir name)) st' = Some (entry_of E (path dir name')) \<and>
      djb2_hash (path dir name') = djb2_hash (path dir name) \<and> (inj_on (djb2_hash \<circ> path dir) (set ?ns) \<longrightarrow> name' = name)"
    if nm: "name \<in> set ?ns" for name
  proof -
    obtain name' where n': "name' \<in> set ?ns" "retrieve_file_data E (djb2_hash (path dir name)) st' = Some (entry_of E (path dir name'))"
        "djb2_hash (path dir name') = djb2_hash (path dir name)"
      using holding_lookup [OF b(2) assms(6) nm] by blast
    then have "name' = name" if "inj_on (djb2_hash \<circ> path dir) (set ?ns)" using inj_onD [OF that, of name' name] nm by simp
    then show ?thesis using n' by (intro bexI [of _ name']) blast+
  qed
  ultimately show ?thesis using b(1) holding_number [OF b(2)] by (intro exI [of _ st'] exI [of _ k']) (simp add: Let_def)
qed

text \<open>Files whose blocks can be addressed and read.\<close>

definition source_ok :: "vfs_env \<Rightarrow> bytes \<Rightarrow> bool" where
  "source_ok E p \<longleftrightarrow> (\<exists>sz. vfs_size E p = Some sz \<and> sz \<noteq> 0 \<and> unat sz \<le> 2 ^ 32 \<and>
     (\<forall>off. off < sz \<longrightarrow> (\<exists>ret data. vfs_read E p off 4096 = Some (ret, data) \<and> length data \<le> 4096)))"

lemma block_in_file:
  fixes sz x :: u64
  assumes "sz \<noteq> 0" "unat sz \<le> 2 ^ 32" "b = (ucast ((x mod sz) div 4096) :: u32)"
  shows "4096 * unat b < unat sz" "unat (ucast (b * BLOCK_LENGTH) :: u64) = 4096 * unat b"
proof -
  have m: "unat (x mod sz) < unat sz" using assms(1) by (simp add: unat_mod_distrib unat_gt_0)
  have "unat ((x mod sz) div 4096) = unat (x mod sz) div 4096" by (simp add: unat_div_distrib)
  moreover have "unat (x mod sz) div 4096 < 2 ^ 20" using m assms(2) by simp
  ultimately have b: "unat b = unat (x mod sz) div 4096"
    unfolding assms(3) by (simp add: unsigned_ucast_eq take_bit_nat_eq_self)
  then show "4096 * unat b < unat sz" using m by (metis le_less_trans times_div_less_eq_dividend)
  have "unat b < 2 ^ 20" using b \<open>unat (x mod sz) div 4096 < 2 ^ 20\<close> by simp
  then have "unat (b * 4096) = unat b * 4096" by (simp add: unat_word_ariths)
  then show "unat (ucast (b * BLOCK_LENGTH) :: u64) = 4096 * unat b" by (simp add: BLOCK_LENGTH_def unat_ucast_u32)
qed

text \<open>C35: An entropy block can be read again: with a table built from a directory of readable files that are not empty and at most 4 GiB long,
  \<open>allocate_entropy\<close> succeeds, names a listed file by its hash and a block within the file, and delivers the bytes of the file there;
  \<open>read_entropy\<close>, given that hash and block, delivers the same bytes into any buffer.\<close>

theorem entropy_block_rereads:
  assumes "alloc_ok k0" "number_of_files st0 = 0" "0 \<notin> set dir" "length dir < 2 ^ 32" "listed E dir names" "hash_min E = hash_64_generic E"
    and "build_entropy_ht E dir (of_nat (length dir)) st0 k0 = Some (st, k1)" "names \<noteq> []"
    and "\<forall>name \<in> set names. source_ok E (path dir name)"
  shows "\<exists>name h b ret data k'. name \<in> set (take 1024 names) \<and> allocate_entropy E block st k = Some (h, b, blit block 0 data, k') \<and>
    h = djb2_hash (path dir name) \<and> 4096 * unat b < unat (the (vfs_size E (path dir name))) \<and>
    vfs_read E (path dir name) (of_nat (4096 * unat b)) 4096 = Some (ret, data) \<and>
    (\<forall>block'. read_entropy E h b block' st = Some (ret, blit block' 0 data))"
proof -
  let ?ns = "take 1024 names"
  have hold: "holding E dir 0 ?ns st" using build_holding [OF assms(1) _ _ assms(3-5), of st0 0] assms(2,7) by auto
  note n = holding_number [OF hold]
  obtain r1 k2 r2 k' where r: "get_random_bytes 4 k = (r1, k2)" "get_random_bytes 4 k2 = (r2, k')" by fastforce
  define i where "i = unat ((le_word r1 :: u32) mod number_of_files st)"
  have nz: "number_of_files st \<noteq> 0" using n assms(8) by (auto simp: min_def split: if_splits)
  have "i = unat (le_word r1 :: u32) mod length ?ns" using n by (simp add: i_def unat_mod_distrib)
  moreover have "0 < length ?ns" using assms(8) by simp
  ultimately have i: "i < length ?ns" by (simp only: mod_less_divisor)
  then have name: "file_list st ! i = Some (path dir (?ns ! i))" "i < length (file_list st)" using hold by (simp_all add: holding_def nth_append)
  have "?ns ! i \<in> set ?ns" using nth_mem [OF i] .
  then obtain name where e: "name \<in> set ?ns" "retrieve_file_data E (djb2_hash (path dir (?ns ! i))) st = Some (entry_of E (path dir name))"
      "djb2_hash (path dir name) = djb2_hash (path dir (?ns ! i))"
    using holding_lookup [OF hold assms(6)] by blast
  let ?p = "path dir name"
  have "source_ok E ?p" using assms(9) e(1) in_set_takeD by metis
  then obtain sz where sz: "vfs_size E ?p = Some sz" "sz \<noteq> 0" "unat sz \<le> 2 ^ 32"
      and rd: "\<And>off. off < sz \<Longrightarrow> \<exists>ret data. vfs_read E ?p off 4096 = Some (ret, data) \<and> length data \<le> 4096"
    by (auto simp: source_ok_def)
  define b where "b = (ucast ((scast (le_word r2 :: u32) mod sz) div 4096) :: u32)"
  note b = block_in_file [OF sz(2,3) b_def]
  have "(ucast (b * BLOCK_LENGTH) :: u64) < sz" using b by (simp add: word_less_nat_alt)
  then obtain ret data where data: "vfs_read E ?p (ucast (b * BLOCK_LENGTH)) 4096 = Some (ret, data)" using rd by blast
  have ent: "ent_key (entry_of E ?p) = djb2_hash ?p" "ent_filename (entry_of E ?p) = ?p" "ent_file_size (entry_of E ?p) = sz"
    using sz(1) by (simp_all add: entry_of_def)
  have read: "read_entropy E (djb2_hash ?p) b block' st = Some (ret, blit block' 0 data)" for block'
    using e(2,3) ent(2) data by (simp add: read_entropy_def)
  have "allocate_entropy E block st k = Some (djb2_hash ?p, b, blit block 0 data, k')"
    using r nz name e(2) ent sz(2) read [of block] by (simp add: allocate_entropy_def Let_def i_def [symmetric] b_def [symmetric] BLOCK_LENGTH_def)
  moreover have "vfs_read E ?p (of_nat (4096 * unat b)) 4096 = Some (ret, data)" using data unfolding b(2) [symmetric] by simp
  ultimately show ?thesis using e(1) read b(1) sz(1) by (intro exI conjI allI) (assumption | simp)+
qed

text \<open>C37: A second build is not usable: \<open>number_of_files\<close> is never reset, so a context that counted \<open>m\<close> files before counts them on,
  while their slots in the new list were never stored, and drawing one of them is a fault.\<close>

theorem entropy_second_build:
  assumes "alloc_ok k" "number_of_files st = of_nat m" "m \<le> 1024" "0 \<notin> set dir" "length dir < 2 ^ 32" "listed E dir names"
  shows "\<exists>st' k'. build_entropy_ht E dir (of_nat (length dir)) st k = Some (st', k') \<and>
    unat (number_of_files st') = min 1024 (m + length names) \<and>
    (\<forall>k. unat ((le_word (fst (get_random_bytes 4 k)) :: u32) mod number_of_files st') < m \<longrightarrow> allocate_entropy E block st' k = None)"
proof -
  let ?ns = "take (1024 - m) names"
  obtain st' k' where b: "build_entropy_ht E dir (of_nat (length dir)) st k = Some (st', k')" "holding E dir m ?ns st'"
    using build_holding [OF assms] by blast
  have none: "file_list st' ! i = None" if "i < m" for i using b(2) that by (simp add: holding_def nth_append)
  have "allocate_entropy E block st' k = None" if "unat ((le_word (fst (get_random_bytes 4 k)) :: u32) mod number_of_files st') < m" for k
  proof -
    obtain r1 k2 r2 k3 where r: "get_random_bytes 4 k = (r1, k2)" "get_random_bytes 4 k2 = (r2, k3)" by fastforce
    then have "file_list st' ! unat ((le_word r1 :: u32) mod number_of_files st') = None" using none that by simp
    then show ?thesis using r by (simp add: allocate_entropy_def Let_def)
  qed
  then show ?thesis using b(1) holding_number [OF b(2)] assms(3) by (intro exI [of _ st'] exI [of _ k']) auto
qed

section \<open>A directory\<close>

text \<open>Two files of two blocks in a directory.\<close>

definition demo_dir :: bytes where "demo_dir = [47, 101]"

definition demo_env :: vfs_env where
  "demo_env = \<lparr>hash_64_generic = (\<lambda>v. unat v mod 65536), hash_min = (\<lambda>v. unat v mod 65536),
     vfs_list = (\<lambda>d. if d = demo_dir then Some [[97], [98]] else None), vfs_size = (\<lambda>_. Some 8192),
     vfs_read = (\<lambda>p off n. Some (int n, replicate n (last p)))\<rparr>"

lemma demo_env_ok: "listed demo_env demo_dir [[97], [98]]" "hash_min demo_env = hash_64_generic demo_env" "0 \<notin> set demo_dir" "length demo_dir < 2 ^ 32"
  by (simp_all add: listed_def demo_env_def demo_dir_def)

lemma demo_alloc: "alloc_ok demo_kernel"
  by (simp add: alloc_ok_def demo_kernel_def)

lemma ent_context_new: "number_of_files ent_context = 0"
  by (simp add: ent_context_def)

theorem entropy_table_complete_witness:
  "\<exists>st k. build_entropy_ht demo_env demo_dir 2 ent_context demo_kernel = Some (st, k) \<and> unat (number_of_files st) = 2 \<and>
     (\<exists>name' \<in> {[97], [98]}. retrieve_file_data demo_env (djb2_hash (path demo_dir [98])) st = Some (entry_of demo_env (path demo_dir name')))"
proof -
  have len: "(of_nat (length demo_dir) :: u64) = 2" by (simp add: demo_dir_def)
  have ns: "take 1024 [[97], [98 :: u8]] = [[97], [98]]" "set [[97], [98 :: u8]] = {[97], [98]}" by simp_all
  obtain st k where b: "build_entropy_ht demo_env demo_dir 2 ent_context demo_kernel = Some (st, k)" "unat (number_of_files st) = length [[97], [98 :: u8]]"
      "\<forall>name \<in> {[97], [98]}. \<exists>name' \<in> {[97], [98]}.
        retrieve_file_data demo_env (djb2_hash (path demo_dir name)) st = Some (entry_of demo_env (path demo_dir name'))"
    using entropy_table_complete [OF demo_alloc ent_context_new demo_env_ok(3,4,1,2), unfolded Let_def ns len] by blast
  have "unat (number_of_files st) = 2" using b(2) by simp
  moreover have "\<exists>name' \<in> {[97], [98]}. retrieve_file_data demo_env (djb2_hash (path demo_dir [98])) st = Some (entry_of demo_env (path demo_dir name'))"
    using b(3) by (rule bspec) simp
  ultimately show ?thesis using b(1) by (intro exI conjI)
qed

theorem entropy_block_rereads_witness:
  "\<exists>st k1 h b data k'. build_entropy_ht demo_env demo_dir 2 ent_context demo_kernel = Some (st, k1) \<and>
     allocate_entropy demo_env (replicate 4096 0) st k1 = Some (h, b, blit (replicate 4096 0) 0 data, k') \<and> unat b < 2 \<and>
     (\<exists>ret. read_entropy demo_env h b (replicate 4096 1) st = Some (ret, blit (replicate 4096 1) 0 data))"
proof -
  have len: "(of_nat (length demo_dir) :: u64) = 2" by (simp add: demo_dir_def)
  obtain st k1 where b: "build_entropy_ht demo_env demo_dir (of_nat (length demo_dir)) ent_context demo_kernel = Some (st, k1)"
    using build_holding [OF demo_alloc _ _ demo_env_ok(3,4,1), of ent_context 0] ent_context_new by auto
  have src: "\<forall>name \<in> set [[97], [98]]. source_ok demo_env (path demo_dir name)" by (simp add: source_ok_def demo_env_def)
  have sz: "the (vfs_size demo_env p) = 8192" for p by (simp add: demo_env_def)
  obtain name h bn ret data k' where a: "allocate_entropy demo_env (replicate 4096 0) st k1 = Some (h, bn, blit (replicate 4096 0) 0 data, k')"
      "4096 * unat bn < unat (the (vfs_size demo_env (path demo_dir name)))" "\<forall>block'. read_entropy demo_env h bn block' st = Some (ret, blit block' 0 data)"
    using entropy_block_rereads [OF demo_alloc ent_context_new demo_env_ok(3,4,1,2) b _ src, of "replicate 4096 0" k1] by blast
  have "unat bn < 2" using a(2) by (simp add: sz)
  then show ?thesis using b a(1,3) unfolding len by blast
qed

theorem entropy_second_build_witness:
  "\<exists>st k. build_entropy_ht demo_env demo_dir 2 (ent_context\<lparr>number_of_files := 2\<rparr>) demo_kernel = Some (st, k) \<and> unat (number_of_files st) = 4 \<and>
     allocate_entropy demo_env (replicate 4096 0) st demo_kernel = None"
proof -
  have "(of_nat (length demo_dir) :: u64) = 2" by (simp add: demo_dir_def)
  then obtain st k where b: "build_entropy_ht demo_env demo_dir 2 (ent_context\<lparr>number_of_files := 2\<rparr>) demo_kernel = Some (st, k)" "unat (number_of_files st) = 4"
      "\<forall>k. unat ((le_word (fst (get_random_bytes 4 k)) :: u32) mod number_of_files st) < 2 \<longrightarrow> allocate_entropy demo_env (replicate 4096 0) st k = None"
    using entropy_second_build [OF demo_alloc _ _ demo_env_ok(3,4,1), of "ent_context\<lparr>number_of_files := 2\<rparr>" 2 "replicate 4096 0"] by auto
  have "fst (get_random_bytes 4 demo_kernel) = [0, 0, 0, 0]" by code_simp
  then show ?thesis using b by (intro exI [of _ st] exI [of _ k]) simp
qed

end
