(* ===== verification/Afs_Rs.thy ===== *)
theory Afs_Rs
  imports Afs_Gfshare "HOL-Library.Monad_Syntax"
begin

text \<open>
  The Reed-Solomon library \<open>src/src/lib/rs.c\<close>: the tables of GF(256), the generator polynomial, the systematic encoder, the
  layout of blocks in code words, and the first loop of the decoder. The field is that of \<open>Afs_Gfshare\<close>. The library
  is not linked into the module. A value of type \<open>gf\<close> is an \<open>int\<close>; a result \<open>None\<close> is a fault.
\<close>

section \<open>Tables\<close>

type_synonym gf = int

definition MM :: nat where "MM = 8"
definition NN :: nat where "NN = 255"
definition B0 :: gf where "B0 = 1"
definition A0 :: gf where "A0 = 255"
definition Pp :: "gf list" where "Pp = [1, 0, 1, 1, 1, 0, 0, 0, 1]"

record rs_ctx =
  Alpha_to :: "gf list"
  Index_of :: "gf list"
  Gg :: "gf list"

lemma gf_and_NN: "(y :: int) AND int NN = y mod 256"
proof -
  have "(mask 8 :: int) = 255" by (simp add: mask_eq_exp_minus_1)
  then have "y AND 255 = take_bit 8 y" using take_bit_eq_mask [of 8 y] by metis
  then show ?thesis by (simp add: NN_def take_bit_eq_mod)
qed

lemma gf_fold: "drop_bit MM y + (y AND int NN) = y div 256 + (y :: int) mod 256"
  unfolding gf_and_NN by (simp add: MM_def drop_bit_eq_div)

definition rs_globals :: rs_ctx where
  "rs_globals = \<lparr>Alpha_to = replicate (NN + 1) 0, Index_of = replicate (NN + 1) 0, Gg = []\<rparr>"

function modnn :: "int \<Rightarrow> gf" where
  "modnn x = (if int NN \<le> x then (let x = x - int NN in modnn (drop_bit MM x + (x AND int NN))) else x)"
  by auto

termination
proof (relation "measure nat")
  fix x y :: int assume x: "int NN \<le> x" "y = x - int NN"
  then have y: "0 \<le> y div 256" "y = 256 * (y div 256) + y mod 256" by (simp_all add: pos_imp_zdiv_nonneg_iff)
  then have "y div 256 + y mod 256 \<le> y" by linarith
  then show "(drop_bit MM y + (y AND int NN), x) \<in> measure nat" unfolding gf_fold using x by (simp add: NN_def)
qed simp

declare modnn.simps [simp del]

definition gf_low :: "nat \<Rightarrow> int \<times> gf list \<times> gf list \<Rightarrow> int \<times> gf list \<times> gf list" where
  "gf_low i = (\<lambda>(msk, A, I).
     (let A = A[i := msk];
          I = I[nat (A ! i) := int i];
          A = (if Pp ! i \<noteq> 0 then A[MM := A ! MM XOR msk] else A)
      in (push_bit 1 msk, A, I)))"

definition gf_high :: "int \<Rightarrow> nat \<Rightarrow> gf list \<times> gf list \<Rightarrow> gf list \<times> gf list" where
  "gf_high msk i = (\<lambda>(A, I).
     (let A = A[i := (if msk \<le> A ! (i - 1) then A ! MM XOR push_bit 1 (A ! (i - 1) XOR msk) else push_bit 1 (A ! (i - 1)))]
      in (A, I[nat (A ! i) := int i])))"

definition generate_gf :: "rs_ctx \<Rightarrow> rs_ctx" where
  "generate_gf c =
     (let (msk, A, I) = fold gf_low [0..<MM] (1, (Alpha_to c)[MM := 0], Index_of c);
          I = I[nat (A ! MM) := int MM];
          msk = drop_bit 1 msk;
          (A, I) = fold (gf_high msk) [MM + 1..<NN] (A, I);
          I = I[0 := A0];
          A = A[NN := 0]
      in c\<lparr>Alpha_to := A, Index_of := I\<rparr>)"

section \<open>The generator polynomial\<close>

fun poly_inner :: "rs_ctx \<Rightarrow> nat \<Rightarrow> nat \<Rightarrow> gf list \<Rightarrow> gf list" where
  "poly_inner c i 0 g = g"
| "poly_inner c i (Suc j) g = poly_inner c i j
     (g[Suc j := (if g ! Suc j \<noteq> 0 then g ! j XOR Alpha_to c ! nat (modnn (Index_of c ! nat (g ! Suc j) + B0 + int i - 1)) else g ! j)])"

definition poly_step :: "rs_ctx \<Rightarrow> nat \<Rightarrow> gf list \<Rightarrow> gf list" where
  "poly_step c i g =
     (let g = g[i := 1];
          g = poly_inner c i (i - 1) g
      in g[0 := Alpha_to c ! nat (modnn (Index_of c ! nat (g ! 0) + B0 + int i - 1))])"

definition gen_poly :: "nat \<Rightarrow> rs_ctx \<Rightarrow> rs_ctx" where
  "gen_poly kk c =
     (let g = (Gg c)[0 := Alpha_to c ! nat B0];
          g = g[1 := 1];
          g = fold (poly_step c) [2..<NN - kk + 1] g
      in c\<lparr>Gg := map (\<lambda>v. Index_of c ! nat v) g\<rparr>)"

text \<open>With \<open>kk\<close> from 255 on, \<open>Gg\<close> has no entry 1.\<close>

definition init_rs :: "nat \<Rightarrow> rs_ctx \<Rightarrow> kernel \<Rightarrow> (rs_ctx \<times> kernel) option" where
  "init_rs kk c k =
     (if NN \<le> kk then None
      else (case kmalloc (4 * (NN - kk + 1)) k of
              (None, k) \<Rightarrow> None
            | (Some mem, k) \<Rightarrow>
                (let c = c\<lparr>Gg := map (\<lambda>i. sint (le_word (sub mem (4 * i) 4) :: u32)) [0..<NN - kk + 1]\<rparr>;
                     c = generate_gf c
                 in Some (gen_poly kk c, k))))"

section \<open>The encoder\<close>

text \<open>\<open>feedback\<close> is a logarithm; both inner loops run downwards.\<close>

fun shift_feedback :: "rs_ctx \<Rightarrow> gf \<Rightarrow> nat \<Rightarrow> bytes \<Rightarrow> bytes" where
  "shift_feedback c feedback 0 bb = bb"
| "shift_feedback c feedback (Suc j) bb = shift_feedback c feedback j
     (bb[Suc j := (if Gg c ! Suc j \<noteq> A0 then bb ! j XOR word_of_int (Alpha_to c ! nat (modnn (Gg c ! Suc j + feedback))) else bb ! j)])"

fun shift_zero :: "nat \<Rightarrow> bytes \<Rightarrow> bytes" where
  "shift_zero 0 bb = bb"
| "shift_zero (Suc j) bb = shift_zero j (bb[Suc j := bb ! j])"

definition encode_symbol :: "rs_ctx \<Rightarrow> nat \<Rightarrow> u8 \<Rightarrow> bytes \<Rightarrow> bytes" where
  "encode_symbol c kk x bb =
     (let feedback = Index_of c ! unat (x XOR bb ! (NN - kk - 1)) in
      if feedback \<noteq> A0 then (shift_feedback c feedback (NN - kk - 1) bb)[0 := word_of_int (Alpha_to c ! nat (modnn (Gg c ! 0 + feedback)))]
      else (shift_zero (NN - kk - 1) bb)[0 := 0])"

definition encode_rs :: "rs_ctx \<Rightarrow> bytes \<Rightarrow> nat \<Rightarrow> bytes" where
  "encode_rs c data kk = fold (encode_symbol c kk) (rev (take kk data)) (replicate (NN - kk) 0)"

section \<open>Blocks and code words\<close>

record rs_config =
  num_data :: u32
  num_entropy :: u32
  num_carrier :: u32
  polynomial_deg :: u32
  rs_k :: u32
  rs_n :: u32
  rs_total_blocks :: u32
  encode_blocks :: u32
  block_portion :: u32
  rs_padding :: u32
  rs_block_size :: u32
  final_padding :: u32

definition initialize :: "rs_config \<Rightarrow> u32 \<Rightarrow> u32 \<Rightarrow> u32 \<Rightarrow> rs_ctx \<Rightarrow> kernel \<Rightarrow> (rs_config \<times> rs_ctx \<times> kernel) option" where
  "initialize configuration nd ne nc c k =
     (let total = nd + ne + nc in
      if total = 0 then None
      else
        (let portion = 255 div total in
         if portion = 0 then None
         else
           (let configuration = configuration\<lparr>rs_total_blocks := total, num_data := nd, num_entropy := ne, num_carrier := nc,
                  rs_padding := 255 mod total, block_portion := portion, rs_n := total * portion, rs_k := portion * (nd + ne),
                  rs_block_size := 4096, encode_blocks := 4096 div portion, final_padding := 4096 mod portion\<rparr>;
                configuration = (if 4096 mod portion \<noteq> 0 then configuration\<lparr>encode_blocks := encode_blocks configuration + 1\<rparr> else configuration)
            in do {
              (c, k) \<leftarrow> init_rs (unat (rs_k configuration)) c k;
              Some (configuration, c, k) })))"

text \<open>The loops over \<open>memcpy\<close>: \<open>n\<close> bytes at \<open>off\<close> of each block, and the place \<open>count\<close> in the buffer.\<close>

fun put_parts :: "nat \<Rightarrow> nat \<Rightarrow> bytes list \<Rightarrow> nat \<Rightarrow> bytes \<Rightarrow> (nat \<times> bytes) option" where
  "put_parts n off [] count buf = Some (count, buf)"
| "put_parts n off (b # bs) count buf =
     (if off + n \<le> length b \<and> count + n \<le> length buf then put_parts n off bs (count + n) (blit buf count (sub b off n)) else None)"

fun get_parts :: "nat \<Rightarrow> nat \<Rightarrow> bytes list \<Rightarrow> nat \<Rightarrow> bytes \<Rightarrow> bytes list option" where
  "get_parts n off [] count buf = Some []"
| "get_parts n off (b # bs) count buf =
     (if off + n \<le> length b \<and> count + n \<le> length buf
      then do { bs \<leftarrow> get_parts n off bs (count + n) buf; Some (blit b off (sub buf count n) # bs) }
      else None)"

text \<open>One code word. For the last one, the parity is taken from \<open>k\<close> on.\<close>

definition encode_part :: "bool \<Rightarrow> rs_ctx \<Rightarrow> rs_config \<Rightarrow> nat \<Rightarrow> nat \<Rightarrow> bytes list \<Rightarrow> bytes list \<Rightarrow> bytes list \<Rightarrow> bytes list option" where
  "encode_part final c info n off data entropy carrier = do {
     (count, buf) \<leftarrow> put_parts n off data 0 (replicate 255 0);
     (count, buf) \<leftarrow> put_parts n off entropy count buf;
     let kk = unat (rs_k info);
     let buf = blit buf kk (encode_rs c buf kk);
     get_parts n off carrier (if final then kk else count) buf }"

fun encode_loop :: "nat \<Rightarrow> nat \<Rightarrow> rs_ctx \<Rightarrow> rs_config \<Rightarrow> bytes list \<Rightarrow> bytes list \<Rightarrow> bytes list \<Rightarrow> bytes list option" where
  "encode_loop 0 off c info data entropy carrier = Some carrier"
| "encode_loop (Suc m) off c info data entropy carrier = do {
     carrier \<leftarrow> encode_part False c info (unat (block_portion info)) off data entropy carrier;
     encode_loop m (off + unat (block_portion info)) c info data entropy carrier }"

definition encode :: "rs_ctx \<Rightarrow> rs_config \<Rightarrow> bytes list \<Rightarrow> bytes list \<Rightarrow> bytes list \<Rightarrow> kernel \<Rightarrow> (bytes list \<times> kernel) option" where
  "encode c info data entropy carrier k =
     (case kmalloc 255 k of
        (None, k) \<Rightarrow> None
      | (Some _, k) \<Rightarrow>
          if length data = unat (num_data info) \<and> length entropy = unat (num_entropy info) \<and> length carrier = unat (num_carrier info) then
            (let m = unat (encode_blocks info - 1); portion = unat (block_portion info) in do {
              carrier \<leftarrow> encode_loop m 0 c info data entropy carrier;
              carrier \<leftarrow> encode_part True c info (unat (final_padding info)) (m * portion) data entropy carrier;
              Some (carrier, k) })
          else None)"

section \<open>The decoder\<close>

text \<open>The first loop of \<open>eras_dec_rs\<close>, from \<open>NN - 1\<close> down. How it is left is a value: \<open>Done\<close> by its condition, or
  \<open>Out_of_bounds i\<close> by an access to \<open>data[i]\<close> or \<open>recd[i]\<close> outside of the arrays; a loop that does not end is \<open>None\<close>.
  The condition \<open>i >= 0\<close> compares unsigned numbers.\<close>

datatype 'a loop_exit = Done 'a | Out_of_bounds u32

partial_function (option) recd_loop :: "rs_ctx \<Rightarrow> bytes \<Rightarrow> u32 \<Rightarrow> gf list \<Rightarrow> gf list loop_exit option" where
  "recd_loop c data i recd =
     (if i \<ge> 0
      then if unat i < length data \<and> unat i < length recd
           then recd_loop c data (i - 1) (recd[unat i := Index_of c ! unat (data ! unat i)])
           else Some (Out_of_bounds i)
      else Some (Done recd))"

text \<open>Without memory, \<open>recd\<close> is null: its first access is out of bounds.\<close>

definition eras_dec_recd :: "rs_ctx \<Rightarrow> bytes \<Rightarrow> kernel \<Rightarrow> gf list loop_exit option" where
  "eras_dec_recd c data k =
     (case kmalloc (4 * NN) k of
        (None, k) \<Rightarrow> recd_loop c data (of_nat NN - 1) []
      | (Some mem, k) \<Rightarrow> recd_loop c data (of_nat NN - 1) (map (\<lambda>i. sint (le_word (sub mem (4 * i) 4) :: u32)) [0..<NN]))"

text \<open>The syndromes of a received word that is in index form.\<close>

definition recd_of :: "rs_ctx \<Rightarrow> bytes \<Rightarrow> gf list" where
  "recd_of c data = map (\<lambda>x. Index_of c ! unat x) data"

definition syndrome :: "rs_ctx \<Rightarrow> gf list \<Rightarrow> nat \<Rightarrow> gf" where
  "syndrome c recd i = foldl (\<lambda>tmp j. if recd ! j \<noteq> A0 then tmp XOR Alpha_to c ! nat (modnn (recd ! j + (B0 + int i - 1) * int j)) else tmp) 0 [0..<NN]"

section \<open>The field\<close>

lemma modnn_mod: "0 \<le> x \<Longrightarrow> modnn x = x mod 255"
proof (induction x rule: modnn.induct)
  case (1 x)
  show ?case
  proof (cases "int NN \<le> x")
    case True
    let ?y = "x - int NN"
    have y: "0 \<le> ?y div 256 + ?y mod 256" "?y = 256 * (?y div 256) + ?y mod 256" using True by (simp_all add: pos_imp_zdiv_nonneg_iff)
    then have "modnn x = (?y div 256 + ?y mod 256) mod 255"
      using 1(1) [OF True refl] True by (subst modnn.simps) (simp add: gf_fold Let_def)
    also have "\<dots> = ((?y div 256 + ?y mod 256) + 255 * (?y div 256 + 1)) mod 255" by (simp only: mod_mult_self2)
    also have "(?y div 256 + ?y mod 256) + 255 * (?y div 256 + 1) = x" using y(2) by (simp add: NN_def algebra_simps)
    finally show ?thesis .
  next
    case False
    then show ?thesis using 1 by (subst modnn.simps) (simp add: NN_def)
  qed
qed

lemma pw_inj: "i < 255 \<Longrightarrow> j < 255 \<Longrightarrow> gs.pw i = gs.pw j \<Longrightarrow> i = j"
proof -
  have "exps ! 85 \<noteq> 1" "exps ! 51 \<noteq> 1" "exps ! 15 \<noteq> 1" by (simp_all add: exps_def)
  then have "gs.pw 85 \<noteq> 1" "gs.pw 51 \<noteq> 1" "gs.pw 15 \<noteq> 1" using exps_pw by simp_all
  then have "inj_on (\<lambda>n. (xtime 0x1d ^^ n) 1) {..<255}" using gs.pw_255 by (intro xtime_powers_inj) (simp_all add: gs.pw_def)
  then show "i < 255 \<Longrightarrow> j < 255 \<Longrightarrow> gs.pw i = gs.pw j \<Longrightarrow> i = j" by (simp add: gs.pw_def inj_on_def)
qed

lemma pw_Suc: "gs.pw (Suc i) = xtime 0x1d (gs.pw i)"
  by (simp add: gs.pw_def)

lemma xtime_gf: "(if 128 \<le> uint a then 29 XOR push_bit 1 (uint a XOR 128) else push_bit 1 (uint a)) = uint (xtime 0x1d a)"
proof -
  let ?P = "\<lambda>a :: u8. (if 128 \<le> uint a then 29 XOR push_bit 1 (uint a XOR 128) else push_bit 1 (uint a)) = uint (xtime 0x1d a)"
  have "list_all ?P (map of_nat [0..<256])" by code_simp
  then have all: "?P (of_nat n)" if "n < 256" for n using that unfolding list_all_length by force
  have "(of_nat (unat a) :: u8) = a" by simp
  then show ?thesis using all [OF unat_u8 [of a]] by (simp only:)
qed

definition rs_powers :: "nat \<Rightarrow> gf list \<Rightarrow> gf list \<Rightarrow> bool" where
  "rs_powers n A I \<longleftrightarrow> length A = 256 \<and> length I = 256 \<and> (\<forall>i < n. A ! i = uint (gs.pw i) \<and> I ! unat (gs.pw i) = int i)"

lemma powers_Suc:
  assumes "rs_powers n A I" "n < 255"
  shows "rs_powers (Suc n) (A[n := uint (gs.pw n)]) (I[unat (gs.pw n) := int n])"
proof -
  have "unat (gs.pw n) \<noteq> unat (gs.pw i)" if "i < n" for i
    using pw_inj [of i n] that assms(2) by (auto simp: word_unat_eq_iff)
  then show ?thesis using assms unat_u8 [of "gs.pw n"] by (auto simp: rs_powers_def less_Suc_eq)
qed

lemma pw_low: "i < 8 \<Longrightarrow> uint (gs.pw i) = 2 ^ i"
proof -
  have "list_all (\<lambda>i. uint (exps ! i) = 2 ^ i) [0, 1, 2, 3, 4, 5, 6, 7]" by (simp add: exps_def)
  moreover assume "i < 8"
  then have "i \<in> set [0, 1, 2, 3, 4, 5, 6, 7]" by (simp, arith)
  ultimately have "uint (exps ! i) = 2 ^ i" unfolding list_all_iff by blast
  then show ?thesis using exps_pw [of i] \<open>i < 8\<close> by simp
qed

lemma low_powers:
  assumes "length A = 256" "length I = 256" "n \<le> 8"
  shows "\<exists>A' I'. fold gf_low [0..<n] (1, A[MM := 0], I) = (2 ^ n, A', I') \<and> rs_powers n A' I' \<and>
    A' ! 8 = foldl (\<lambda>x i. if Pp ! i \<noteq> 0 then x XOR 2 ^ i else x) 0 [0..<n]"
  using assms(3)
proof (induction n)
  case 0
  then show ?case using assms(1,2) by (simp add: rs_powers_def MM_def)
next
  case (Suc n)
  then obtain A' I' where s: "fold gf_low [0..<n] (1, A[MM := 0], I) = (2 ^ n, A', I')" "rs_powers n A' I'"
      "A' ! 8 = foldl (\<lambda>x i. if Pp ! i \<noteq> 0 then x XOR 2 ^ i else x) 0 [0..<n]" by auto
  let ?A = "A'[n := 2 ^ n]" and ?I = "I'[nat (2 ^ n) := int n]"
  have "nat (2 ^ n) = unat (gs.pw n)" using pw_low [of n] nat_uint_eq [of "gs.pw n"] Suc.prems by simp
  then have p: "rs_powers (Suc n) ?A ?I" using powers_Suc [OF s(2)] pw_low [of n] Suc.prems by simp
  have len: "length A' = 256" using s(2) by (simp add: rs_powers_def)
  have "gf_low n (2 ^ n, A', I') = (2 ^ Suc n, if Pp ! n \<noteq> 0 then ?A[8 := ?A ! 8 XOR 2 ^ n] else ?A, ?I)"
    using len Suc.prems by (simp add: gf_low_def Let_def MM_def push_bit_eq_mult)
  moreover have "rs_powers (Suc n) (?A[8 := x]) ?I" for x using p Suc.prems by (auto simp: rs_powers_def)
  ultimately show ?case using s(1,3) p len Suc.prems by simp
qed

lemma high_powers:
  assumes "rs_powers 9 A I" "A ! 8 = 29" "9 \<le> n" "n \<le> 255"
  shows "\<exists>A' I'. fold (gf_high 128) [9..<n] (A, I) = (A', I') \<and> rs_powers n A' I'"
  using assms(3,4)
proof (induction n rule: nat_induct_at_least)
  case base
  then show ?case using assms(1) by simp
next
  case (Suc n)
  then obtain A' I' where s: "fold (gf_high 128) [9..<n] (A, I) = (A', I')" "rs_powers n A' I'" by auto
  have A: "A' ! 8 = uint (gs.pw 8)" "A' ! (n - 1) = uint (gs.pw (n - 1))" "length A' = 256" using s(2) Suc by (simp_all add: rs_powers_def)
  have 8: "uint (gs.pw 8) = 29" using assms(1,2) by (simp add: rs_powers_def)
  have "gs.pw n = xtime 0x1d (gs.pw (n - 1))" using pw_Suc [of "n - 1"] Suc.hyps by simp
  then have "gf_high 128 n (A', I') = (A'[n := uint (gs.pw n)], I'[unat (gs.pw n) := int n])"
    unfolding gf_high_def prod.case Let_def MM_def A(1,2) 8 xtime_gf using A(3) Suc.prems by (simp add: nat_uint_eq)
  then show ?case using s powers_Suc [OF s(2)] Suc by simp
qed

text \<open>The tables after \<open>generate_gf\<close>.\<close>

definition rs_tables :: "rs_ctx \<Rightarrow> bool" where
  "rs_tables c \<longleftrightarrow> rs_powers 255 (Alpha_to c) (Index_of c) \<and> Alpha_to c ! 255 = 0 \<and> Index_of c ! 0 = 255"

lemma generate_gf_tables:
  assumes "length (Alpha_to c) = 256" "length (Index_of c) = 256"
  shows "rs_tables (generate_gf c)" "Gg (generate_gf c) = Gg c"
proof -
  have eval: "foldl (\<lambda>x i. if Pp ! i \<noteq> 0 then x XOR 2 ^ i else x) 0 [0..<8] = (29 :: int)" by code_simp
  obtain A I where l: "fold gf_low [0..<MM] (1, (Alpha_to c)[MM := 0], Index_of c) = (256, A, I)" "rs_powers 8 A I" "A ! 8 = 29"
    using low_powers [OF assms, of 8] eval by (auto simp: MM_def)
  have "exps ! 8 = 29" by (simp add: exps_def)
  then have 8: "gs.pw 8 = 29" using exps_pw [of 8] by simp
  have "A[8 := 29] = A" using l(3) by (metis list_update_id)
  then have "rs_powers 9 A (I[29 := 8])" using powers_Suc [OF l(2)] 8 by simp
  then obtain A' I' where h: "fold (gf_high 128) [9..<255] (A, I[29 := 8]) = (A', I')" "rs_powers 255 A' I'"
    using high_powers [of A "I[29 := 8]" 255] l(3) by auto
  have g: "generate_gf c = c\<lparr>Alpha_to := A'[255 := 0], Index_of := I'[0 := A0]\<rparr>"
    using l h by (simp add: generate_gf_def MM_def NN_def)
  have "unat (gs.pw i) \<noteq> 0" for i using gs.pw_nonzero [of i] by (simp add: unat_eq_zero)
  then show "rs_tables (generate_gf c)" using h(2) by (auto simp: g rs_tables_def rs_powers_def A0_def nth_list_update)
  show "Gg (generate_gf c) = Gg c" by (simp add: g)
qed

section \<open>The field of the tables\<close>

abbreviation alpha :: "nat \<Rightarrow> gfe" where "alpha n \<equiv> Gfe (gs.pw n)"

lemma gfe_double [simp]: "(a :: gfe) + a = 0"
  by (simp add: plus_gfe_def)

lemma gfe_cancel [simp]: "(a :: gfe) + (a + b) = b"
  using add.assoc [of a a b] by simp

lemma alpha_power: "alpha i ^ j = alpha (i * j)"
proof (induction j)
  case 0
  then show ?case by (simp add: gs.pw_def one_gfe_def)
next
  case (Suc j)
  have "alpha i ^ Suc j = alpha i * alpha (i * j)" using Suc by simp
  also have "\<dots> = alpha (i * Suc j)" using Gfe_pw_add [of i "i * j"] by simp
  finally show ?case .
qed

lemma alpha_255: "alpha i ^ 255 = 1"
  unfolding alpha_power using gs.pw_mult_255 [of i] by (simp add: mult.commute one_gfe_def)

lemma alpha_nonzero: "alpha i \<noteq> 0"
  using gs.pw_nonzero by simp

lemma alpha_inj: "i < 255 \<Longrightarrow> j < 255 \<Longrightarrow> alpha i = alpha j \<Longrightarrow> i = j"
  using pw_inj by (simp add: Gfe_inject)

lemma Alpha_modnn:
  assumes "rs_tables c" "0 \<le> x"
  shows "Alpha_to c ! nat (modnn x) = uint (gs.pw (nat x))"
proof -
  have "modnn x = int (nat x mod 255)" using modnn_mod [OF assms(2)] assms(2) by (simp add: zmod_int)
  then show ?thesis using assms(1) by (simp add: rs_tables_def rs_powers_def gs.pw_mod)
qed

lemma Index_nonzero:
  assumes "rs_tables c" "a \<noteq> 0"
  shows "\<exists>l < 255. Index_of c ! unat a = int l \<and> gs.pw l = a"
proof -
  let ?l = "unat (logs ! unat a)"
  have l: "?l < 255" "gs.pw ?l = a" using logs_255 gs.pw_lg [OF assms(2)] by simp_all
  moreover have "\<forall>i < 255. Index_of c ! unat (gs.pw i) = int i" using assms(1) by (simp add: rs_tables_def rs_powers_def)
  then have "Index_of c ! unat (gs.pw ?l) = int ?l" using l(1) by blast
  ultimately show ?thesis by (intro exI [of _ ?l]) simp
qed

lemma Index_zero: "rs_tables c \<Longrightarrow> Index_of c ! unat (a :: u8) = A0 \<longleftrightarrow> a = 0"
  using Index_nonzero [of c a] by (cases "a = 0") (auto simp: rs_tables_def A0_def)

text \<open>A product by way of the tables.\<close>

lemma Alpha_product:
  assumes "rs_tables c" "a \<noteq> 0"
  shows "Alpha_to c ! nat (modnn (Index_of c ! unat a + int n)) = uint (byte_of (Gfe a * alpha n))"
proof -
  obtain l where l: "Index_of c ! unat a = int l" "gs.pw l = a" using Index_nonzero [OF assms] by blast
  have "nat (int l + int n) = l + n" by simp
  then show ?thesis using Alpha_modnn [OF assms(1), of "int l + int n"] l Gfe_pw_add [of l n] by (metis Gfe_inverse UNIV_I of_nat_0_le_iff of_nat_add)
qed

section \<open>Loops that run downwards\<close>

fun down :: "(nat \<Rightarrow> 'a \<Rightarrow> 'a \<Rightarrow> 'a) \<Rightarrow> nat \<Rightarrow> 'a list \<Rightarrow> 'a list" where
  "down f 0 xs = xs"
| "down f (Suc j) xs = down f j (xs[Suc j := f (Suc j) (xs ! j) (xs ! Suc j)])"

lemma down_nth:
  assumes "m < length xs"
  shows "length (down f m xs) = length xs" "j < length xs \<Longrightarrow> down f m xs ! j = (if 1 \<le> j \<and> j \<le> m then f j (xs ! (j - 1)) (xs ! j) else xs ! j)"
proof -
  have "length (down f m xs) = length xs \<and> (\<forall>j < length xs. down f m xs ! j = (if 1 \<le> j \<and> j \<le> m then f j (xs ! (j - 1)) (xs ! j) else xs ! j))"
    using assms
  proof (induction m arbitrary: xs)
    case (Suc m)
    then show ?case by (auto simp: nth_list_update le_Suc_eq)
  qed simp
  then show "length (down f m xs) = length xs" "j < length xs \<Longrightarrow> down f m xs ! j = (if 1 \<le> j \<and> j \<le> m then f j (xs ! (j - 1)) (xs ! j) else xs ! j)"
    by blast+
qed

lemma poly_inner_down:
  "poly_inner c i m g = down (\<lambda>_ a b. if b \<noteq> 0 then a XOR Alpha_to c ! nat (modnn (Index_of c ! nat b + B0 + int i - 1)) else a) m g"
  by (induction m arbitrary: g) simp_all

lemma shift_feedback_down:
  "shift_feedback c fb m bb = down (\<lambda>j a b. if Gg c ! j \<noteq> A0 then a XOR word_of_int (Alpha_to c ! nat (modnn (Gg c ! j + fb))) else a) m bb"
  by (induction m arbitrary: bb) simp_all

lemma shift_zero_down: "shift_zero m bb = down (\<lambda>_ a b. a) m bb"
  by (induction m arbitrary: bb) simp_all

section \<open>The generator polynomial has the rs_powers of alpha as roots\<close>

text \<open>The value of a polynomial with \<open>n\<close> coefficients.\<close>

definition pval :: "(nat \<Rightarrow> u8) \<Rightarrow> nat \<Rightarrow> gfe \<Rightarrow> gfe" where
  "pval b n x = (\<Sum>j<n. Gfe (b j) * x ^ j)"

lemma pval_Suc: "pval b (Suc n) x = pval b n x + Gfe (b n) * x ^ n"
  by (simp add: pval_def)

lemma pval_shift: "pval (\<lambda>j. if j = 0 then 0 else b (j - 1)) (Suc n) x = x * pval b n x"
  unfolding pval_def by (simp add: sum.lessThan_Suc_shift sum_distrib_left algebra_simps del: sum.lessThan_Suc)

lemma pval_add: "(\<And>j. j < n \<Longrightarrow> Gfe (b j) = Gfe (b1 j) + y * Gfe (b2 j)) \<Longrightarrow> pval b n x = pval b1 n x + y * pval b2 n x"
  by (simp add: pval_def sum.distrib sum_distrib_left algebra_simps)

lemma pval_cong: "(\<And>j. j < n \<Longrightarrow> b j = b' j) \<Longrightarrow> pval b n x = pval b' n x"
  by (simp add: pval_def)

text \<open>The first \<open>i\<close> factors are multiplied.\<close>

definition factors :: "nat \<Rightarrow> (nat \<Rightarrow> u8) \<Rightarrow> bool" where
  "factors i b \<longleftrightarrow> b i = 1 \<and> b 0 \<noteq> 0 \<and> (\<forall>x. pval b (Suc i) x = (\<Prod>m\<in>{1..i}. x + alpha m))"

lemma factors_step:
  assumes "factors n b" "i = Suc n" "1 \<le> n"
    and "\<And>j. Gfe (b' j) = (if j = 0 then Gfe (b 0) * alpha i else if j < i then Gfe (b (j - 1)) + Gfe (b j) * alpha i else 1)"
  shows "factors i b'"
proof -
  have b: "b n = 1" "b 0 \<noteq> 0" "\<And>x. pval b i x = (\<Prod>m\<in>{1..n}. x + alpha m)" using assms(1,2) by (simp_all add: factors_def)
  let ?lo = "\<lambda>j. if j < i then b j else 0"
  have "Gfe (b' j) = Gfe (if j = 0 then 0 else b (j - 1)) + alpha i * Gfe (?lo j)" if "j < Suc i" for j
    using assms(2-4) b(1) that by (cases "j = i") (auto simp: one_gfe_def mult.commute)
  then have "pval b' (Suc i) x = pval (\<lambda>j. if j = 0 then 0 else b (j - 1)) (Suc i) x + alpha i * pval ?lo (Suc i) x" for x
    by (rule pval_add)
  moreover have "pval ?lo (Suc i) x = pval b i x" for x using pval_cong [of i ?lo b x] by (simp add: pval_Suc)
  ultimately have "pval b' (Suc i) x = (\<Prod>m\<in>{1..i}. x + alpha m)" for x
    using b(3) assms(2) by (simp add: pval_shift algebra_simps prod.nat_ivl_Suc')
  moreover have "b' i = 1" using assms(2) assms(4) [of i] by (simp add: one_gfe_def Gfe_inject)
  moreover have "Gfe (b' 0) \<noteq> 0" using assms(4) [of 0] b(2) alpha_nonzero by simp
  ultimately show ?thesis by (simp add: factors_def)
qed

definition poly_upto :: "nat \<Rightarrow> gf list \<Rightarrow> (nat \<Rightarrow> u8) \<Rightarrow> bool" where
  "poly_upto i g b \<longleftrightarrow> i < length g \<and> (\<forall>j \<le> i. g ! j = uint (b j)) \<and> factors i b"

lemma Alpha_mul:
  assumes "rs_tables c"
  shows "(if uint a \<noteq> 0 then x XOR Alpha_to c ! nat (modnn (Index_of c ! nat (uint a) + B0 + int i - 1)) else x) = x XOR uint (byte_of (Gfe a * alpha i))"
proof (cases "a = 0")
  case True
  have "byte_of 0 = 0" using Gfe_inverse [of 0] by simp
  then show ?thesis using True by simp
next
  case False
  have "Index_of c ! nat (uint a) + B0 + int i - 1 = Index_of c ! unat a + int i" by (simp add: B0_def nat_uint_eq)
  then show ?thesis using Alpha_product [OF assms False, of i] False by (simp add: unsigned_eq_0_iff)
qed

lemma poly_step_upto:
  assumes "rs_tables c" "poly_upto n g b" "i = Suc n" "1 \<le> n" "i < length g"
  shows "\<exists>b'. poly_upto i (poly_step c i g) b' \<and> length (poly_step c i g) = length g"
proof -
  note p = assms(2) [unfolded poly_upto_def]
  define b' where "b' j = (if j = 0 then byte_of (Gfe (b 0) * alpha i) else if j < i then b (j - 1) XOR byte_of (Gfe (b j) * alpha i) else 1)" for j
  let ?g1 = "g[i := 1]"
  let ?g2 = "poly_inner c i (i - 1) ?g1"
  have g1: "?g1 ! j = uint (b j)" if "j < i" for j using p assms(3,5) that by simp
  have len: "length ?g2 = length g" using down_nth(1) [of "i - 1" ?g1] assms(5) by (simp add: poly_inner_down)
  have g2: "?g2 ! j = (if 1 \<le> j \<and> j < i then uint (b (j - 1)) XOR uint (byte_of (Gfe (b j) * alpha i)) else ?g1 ! j)" if "j \<le> i" for j
  proof (cases "1 \<le> j \<and> j < i")
    case True
    then have "j - 1 < i" "j \<le> i - 1" "j < length ?g1" "i - 1 < length ?g1" using assms(5) by auto
    then have "?g2 ! j = (if uint (b j) \<noteq> 0 then uint (b (j - 1)) XOR Alpha_to c ! nat (modnn (Index_of c ! nat (uint (b j)) + B0 + int i - 1)) else uint (b (j - 1)))"
      using True g1 down_nth(2) [of "i - 1" ?g1 j] by (simp add: poly_inner_down)
    also have "\<dots> = uint (b (j - 1)) XOR uint (byte_of (Gfe (b j) * alpha i))" by (rule Alpha_mul [OF assms(1)])
    finally show ?thesis using True by simp
  next
    case False
    then have "\<not> (1 \<le> j \<and> j \<le> i - 1)" "j < length ?g1" "i - 1 < length ?g1" using assms(3-5) that by auto
    then have "?g2 ! j = ?g1 ! j" unfolding poly_inner_down by (subst down_nth(2)) auto
    then show ?thesis using False by auto
  qed
  have "?g2 ! 0 = uint (b 0)" using g2 [of 0] g1 assms(3) by simp
  then have zero: "Alpha_to c ! nat (modnn (Index_of c ! nat (?g2 ! 0) + B0 + int i - 1)) = uint (b' 0)"
    using Alpha_product [OF assms(1), of "b 0" i] p by (simp add: factors_def b'_def B0_def nat_uint_eq)
  have "poly_step c i g ! j = uint (b' j)" if "j \<le> i" for j
  proof (cases "j = 0")
    case True
    have "0 < length ?g2" using len assms(5) by linarith
    then show ?thesis using zero True by (simp add: poly_step_def Let_def)
  next
    case False
    then have "poly_step c i g ! j = ?g2 ! j" by (simp add: poly_step_def Let_def)
    moreover have "?g2 ! j = uint (b' j)"
    proof (cases "j < i")
      case True
      then show ?thesis using g2 [OF that] False by (simp add: b'_def unsigned_xor_eq)
    next
      case ge: False
      then have "j = i" using that by simp
      then show ?thesis using g2 [OF that] assms(3,5) by (simp add: b'_def)
    qed
    ultimately show ?thesis by simp
  qed
  moreover have "factors i b'"
  proof (rule factors_step [OF _ assms(3,4)])
    show "factors n b" using p by simp
    show "Gfe (b' j) = (if j = 0 then Gfe (b 0) * alpha i else if j < i then Gfe (b (j - 1)) + Gfe (b j) * alpha i else 1)" for j
      unfolding b'_def one_gfe_def by (simp only: Gfe_xor(1) byte_of_inverse if_distrib [of Gfe])
  qed
  moreover have "length (poly_step c i g) = length g" using len by (simp add: poly_step_def Let_def)
  ultimately show ?thesis using assms(5) unfolding poly_upto_def by (intro exI [of _ b']) simp
qed

lemma poly_steps_upto:
  assumes "rs_tables c" "poly_upto 1 g b" "1 \<le> i" "i < length g"
  shows "\<exists>b'. poly_upto i (fold (poly_step c) [2..<Suc i] g) b' \<and> length (fold (poly_step c) [2..<Suc i] g) = length g"
  using assms(3,4)
proof (induction i rule: nat_induct_at_least)
  case base
  then show ?case using assms(2) by auto
next
  case (Suc i)
  then obtain b' where b': "poly_upto i (fold (poly_step c) [2..<Suc i] g) b'" "length (fold (poly_step c) [2..<Suc i] g) = length g" by auto
  then show ?case using poly_step_upto [OF assms(1) b'(1)] Suc by auto
qed

text \<open>After \<open>init_rs\<close> the generator polynomial \<open>g\<close> of degree \<open>NN - kk\<close> is in index form.\<close>

definition rs_ready :: "rs_ctx \<Rightarrow> nat \<Rightarrow> (nat \<Rightarrow> u8) \<Rightarrow> bool" where
  "rs_ready c kk g \<longleftrightarrow> rs_tables c \<and> kk < NN \<and> factors (NN - kk) g \<and> (\<forall>j \<le> NN - kk. Gg c ! j = Index_of c ! unat (g j))"

lemma init_rs_ready:
  assumes "init_rs kk c k = Some (c', k')" "length (Alpha_to c) = 256" "length (Index_of c) = 256"
  shows "\<exists>g. rs_ready c' kk g"
proof -
  let ?r = "NN - kk"
  obtain mem where m: "kk < NN" "kmalloc (4 * (?r + 1)) k = (Some mem, k')"
      "c' = gen_poly kk (generate_gf (c\<lparr>Gg := map (\<lambda>i. sint (le_word (sub mem (4 * i) 4) :: u32)) [0..<?r + 1]\<rparr>))"
    using assms(1) by (auto simp: init_rs_def Let_def split: if_splits prod.splits option.splits)
  define c1 where "c1 = generate_gf (c\<lparr>Gg := map (\<lambda>i. sint (le_word (sub mem (4 * i) 4) :: u32)) [0..<?r + 1]\<rparr>)"
  have t: "rs_tables c1" "length (Gg c1) = ?r + 1" using generate_gf_tables assms(2,3) by (simp_all add: c1_def)
  define g where "g = (Gg c1)[0 := Alpha_to c1 ! nat B0, 1 := 1]"
  have r: "1 \<le> ?r" using m(1) by simp
  have "poly_upto 1 g (\<lambda>j. if j = 0 then gs.pw 1 else 1)"
  proof -
    have "Alpha_to c1 ! 1 = uint (gs.pw 1)" using t(1) by (simp add: rs_tables_def rs_powers_def)
    moreover have "pval (\<lambda>j. if j = 0 then gs.pw 1 else 1) (Suc 1) x = x + alpha 1" for x
      by (simp add: pval_def one_gfe_def [symmetric])
    ultimately show ?thesis
      using t(2) r gs.pw_nonzero by (auto simp: poly_upto_def g_def B0_def factors_def le_Suc_eq)
  qed
  then obtain b where b: "poly_upto ?r (fold (poly_step c1) [2..<Suc ?r] g) b" "length (fold (poly_step c1) [2..<Suc ?r] g) = length g"
    using poly_steps_upto [OF t(1) _ r, of g] t(2) by (auto simp: g_def)
  have c': "c' = c1\<lparr>Gg := map (\<lambda>v. Index_of c1 ! nat v) (fold (poly_step c1) [2..<Suc ?r] g)\<rparr>"
    unfolding m(3) [folded c1_def] gen_poly_def Let_def by (simp add: g_def del: upt_Suc)
  have "Gg c' ! j = Index_of c' ! unat (b j)" if "j \<le> ?r" for j
    using b that t(2) by (simp add: c' poly_upto_def g_def nat_uint_eq)
  then show ?thesis using t(1) m(1) b(1) unfolding rs_ready_def by (intro exI [of _ b]) (simp add: c' rs_tables_def poly_upto_def)
qed

section \<open>The encoder makes code words\<close>

lemma encode_symbol_nth:
  assumes "rs_ready c kk g" "length bb = NN - kk" "j < NN - kk"
  shows "Gfe (encode_symbol c kk x bb ! j) = Gfe (if j = 0 then 0 else bb ! (j - 1)) + Gfe (x XOR bb ! (NN - kk - 1)) * Gfe (g j)"
proof -
  let ?y = "x XOR bb ! (NN - kk - 1)" and ?m = "NN - kk - 1"
  have t: "rs_tables c" and Gg: "Gg c ! j = Index_of c ! unat (g j)" using assms(1,3) by (simp_all add: rs_ready_def)
  have m: "?m < length bb" "j < length bb" "j \<le> ?m" using assms(2,3) by auto
  show ?thesis
  proof (cases "?y = 0")
    case True
    have "encode_symbol c kk x bb = (shift_zero ?m bb)[0 := 0]" using True Index_zero [OF t, of ?y] by (simp add: encode_symbol_def Let_def)
    moreover have "(shift_zero ?m bb)[0 := 0] ! j = (if j = 0 then 0 else bb ! (j - 1))"
      using m down_nth(1) [OF m(1), of "\<lambda>_ a b. a"] down_nth(2) [OF m(1,2), of "\<lambda>_ a b. a"] by (cases "j = 0") (auto simp: shift_zero_down nth_list_update)
    ultimately show ?thesis using True by simp
  next
    case False
    obtain l where l: "Index_of c ! unat ?y = int l" "gs.pw l = ?y" "l < 255" using Index_nonzero [OF t False] by blast
    have gmul: "word_of_int (Alpha_to c ! nat (modnn (Gg c ! j + int l))) = byte_of (Gfe (g j) * Gfe ?y)" if "g j \<noteq> 0"
      using Alpha_product [OF t that, of l] l(2) by (simp add: Gg)
    have A0: "Gg c ! j = A0 \<longleftrightarrow> g j = 0" using Gg Index_zero [OF t, of "g j"] by simp
    have enc: "encode_symbol c kk x bb = (shift_feedback c (int l) ?m bb)[0 := word_of_int (Alpha_to c ! nat (modnn (Gg c ! 0 + int l)))]"
      using l(1,3) by (simp add: encode_symbol_def Let_def A0_def)
    show ?thesis
    proof (cases "j = 0")
      case True
      have "g 0 \<noteq> 0" using assms(1) by (simp add: rs_ready_def factors_def)
      moreover have "length (shift_feedback c (int l) ?m bb) = length bb" using down_nth(1) [OF m(1)] by (simp add: shift_feedback_down)
      then have "0 < length (shift_feedback c (int l) ?m bb)" using m(2) by linarith
      ultimately show ?thesis using enc gmul True by (simp add: mult.commute)
    next
      case j: False
      then have "encode_symbol c kk x bb ! j = (if Gg c ! j \<noteq> A0 then bb ! (j - 1) XOR word_of_int (Alpha_to c ! nat (modnn (Gg c ! j + int l))) else bb ! (j - 1))"
        using enc m down_nth(2) [OF m(1), of j] by (simp add: shift_feedback_down)
      then show ?thesis using j A0 gmul by (cases "g j = 0") (simp_all add: Gfe_xor(1) mult.commute)
    qed
  qed
qed

lemma length_encode_symbol [simp]: "length bb = NN - kk \<Longrightarrow> 0 < NN - kk \<Longrightarrow> length (encode_symbol c kk x bb) = NN - kk"
  using down_nth(1) [of "NN - kk - 1" bb] by (simp add: encode_symbol_def Let_def shift_feedback_down shift_zero_down)

lemma encode_symbol_pval:
  assumes "rs_ready c kk g" "length bb = NN - kk" "1 \<le> i" "i \<le> NN - kk"
  shows "pval (nth (encode_symbol c kk x bb)) (NN - kk) (alpha i) = alpha i * pval (nth bb) (NN - kk) (alpha i) + Gfe x * alpha i ^ (NN - kk)"
proof -
  obtain n where n: "NN - kk = Suc n" using assms(3,4) by (cases "NN - kk") auto
  let ?r = "NN - kk" and ?\<beta> = "alpha i" and ?y = "x XOR bb ! (NN - kk - 1)"
  have f: "factors ?r g" using assms(1) by (simp add: rs_ready_def)
  have root: "(\<Prod>m\<in>{1..?r}. ?\<beta> + alpha m) = 0" using assms(3,4) by (intro prod_zero bexI [of _ i]) auto
  have "g ?r = 1" "pval g (Suc ?r) ?\<beta> = 0" using f root unfolding factors_def by simp_all
  then have "pval g ?r ?\<beta> + ?\<beta> ^ ?r = 0" by (simp add: pval_Suc one_gfe_def [symmetric])
  then have g: "pval g ?r ?\<beta> = ?\<beta> ^ ?r" using gfe_cancel [of "?\<beta> ^ ?r" "pval g ?r ?\<beta>"] by (simp add: add.commute)
  have "pval (nth (encode_symbol c kk x bb)) ?r ?\<beta> = pval (\<lambda>j. if j = 0 then 0 else bb ! (j - 1)) ?r ?\<beta> + Gfe ?y * pval g ?r ?\<beta>"
    using encode_symbol_nth [OF assms(1,2)] by (intro pval_add) auto
  also have "pval (\<lambda>j. if j = 0 then 0 else bb ! (j - 1)) ?r ?\<beta> = ?\<beta> * pval (nth bb) n ?\<beta>"
    unfolding n by (rule pval_shift)
  also have "?\<beta> * pval (nth bb) n ?\<beta> = ?\<beta> * pval (nth bb) ?r ?\<beta> + Gfe (bb ! n) * ?\<beta> ^ ?r"
    unfolding n pval_Suc by (simp add: algebra_simps)
  also have "Gfe ?y = Gfe x + Gfe (bb ! n)" using n by (simp add: Gfe_xor(1))
  finally show ?thesis by (simp add: g algebra_simps)
qed

lemma pval_Cons: "pval (nth (x # xs)) (Suc n) y = Gfe x + y * pval (nth xs) n y"
  unfolding pval_def by (simp add: sum.lessThan_Suc_shift sum_distrib_left algebra_simps del: sum.lessThan_Suc)

lemma pval_append: "pval (nth (xs @ ys)) (length xs + n) x = pval (nth xs) (length xs) x + x ^ length xs * pval (nth ys) n x"
proof (induction xs)
  case Nil
  then show ?case by (simp add: pval_def)
next
  case (Cons a xs)
  then show ?case unfolding append_Cons list.size add_Suc_right add_0_right add_Suc pval_Cons by (simp add: algebra_simps)
qed

lemma encode_rs_pval:
  assumes "rs_ready c kk g" "kk \<le> length data"
  shows "length (encode_rs c data kk) = NN - kk"
    "1 \<le> i \<Longrightarrow> i \<le> NN - kk \<Longrightarrow>
      pval (nth (encode_rs c data kk)) (NN - kk) (alpha i) = alpha i ^ (NN - kk) * pval (nth (take kk data)) kk (alpha i)"
proof -
  let ?enc = "\<lambda>xs. fold (encode_symbol c kk) (rev xs) (replicate (NN - kk) 0)"
  have r: "0 < NN - kk" using assms(1) by (simp add: rs_ready_def)
  have *: "length (?enc xs) = NN - kk \<and> (1 \<le> i \<and> i \<le> NN - kk \<longrightarrow>
      pval (nth (?enc xs)) (NN - kk) (alpha i) = alpha i ^ (NN - kk) * pval (nth xs) (length xs) (alpha i))" for xs
  proof (induction xs)
    case Nil
    then show ?case by (simp add: pval_def)
  next
    case (Cons x xs)
    then show ?case using r encode_symbol_pval [OF assms(1), of "?enc xs" i x] by (auto simp: pval_Cons algebra_simps)
  qed
  show "length (encode_rs c data kk) = NN - kk" using * by (simp add: encode_rs_def)
  show "pval (nth (encode_rs c data kk)) (NN - kk) (alpha i) = alpha i ^ (NN - kk) * pval (nth (take kk data)) kk (alpha i)"
    if "1 \<le> i" "i \<le> NN - kk" using * [of "take kk data"] that assms(2) by (simp add: encode_rs_def)
qed

text \<open>The syndromes are the values at the rs_powers of alpha.\<close>

lemma byte_of_add: "byte_of (a + b) = byte_of a XOR byte_of b"
  by (simp add: plus_gfe_def)

lemma byte_of_0 [simp]: "byte_of 0 = 0"
  using Gfe_inverse [of 0] by simp

lemma syndrome_pval:
  assumes "rs_tables c" "length w = NN"
  shows "syndrome c (recd_of c w) i = uint (byte_of (pval (nth w) NN (alpha i)))"
proof -
  let ?f = "\<lambda>tmp j. if recd_of c w ! j \<noteq> A0 then tmp XOR Alpha_to c ! nat (modnn (recd_of c w ! j + (B0 + int i - 1) * int j)) else tmp"
  have "foldl ?f 0 [0..<n] = uint (byte_of (pval (nth w) n (alpha i)))" if "n \<le> NN" for n
    using that
  proof (induction n)
    case 0
    then show ?case by (simp add: pval_def)
  next
    case (Suc n)
    have rec: "recd_of c w ! n = Index_of c ! unat (w ! n)" using Suc.prems assms(2) by (simp add: recd_of_def)
    have IH: "foldl ?f 0 [0..<n] = uint (byte_of (pval (nth w) n (alpha i)))" using Suc by simp
    show ?case
    proof (cases "w ! n = 0")
      case True
      then show ?thesis using IH rec Index_zero [OF assms(1), of "w ! n"] by (simp add: pval_Suc)
    next
      case False
      have "Alpha_to c ! nat (modnn (recd_of c w ! n + (B0 + int i - 1) * int n)) = uint (byte_of (Gfe (w ! n) * alpha i ^ n))"
        using Alpha_product [OF assms(1) False, of "i * n"] rec by (simp add: alpha_power B0_def)
      then show ?thesis using IH rec Index_zero [OF assms(1), of "w ! n"] False by (simp add: pval_Suc byte_of_add unsigned_xor_eq)
    qed
  qed
  then show ?thesis by (simp add: syndrome_def)
qed

section \<open>Code words differ in many places\<close>

text \<open>Sums of rs_powers that vanish: with as many equations as points, all weights are zero.\<close>

lemma moments_prod:
  fixes D X :: "'i \<Rightarrow> 'a::field"
  assumes "\<And>i. 1 \<le> i \<Longrightarrow> i \<le> n \<Longrightarrow> (\<Sum>j\<in>S. D j * X j ^ i) = 0" "finite T" "1 \<le> i" "i + card T \<le> n"
  shows "(\<Sum>j\<in>S. D j * X j ^ i * (\<Prod>a\<in>T. X j - a)) = 0"
  using assms(2-4)
proof (induction T arbitrary: i rule: finite_induct)
  case empty
  then show ?case using assms(1) by simp
next
  case (insert a T)
  have "(\<Sum>j\<in>S. D j * X j ^ i * (\<Prod>a\<in>insert a T. X j - a)) =
      (\<Sum>j\<in>S. D j * X j ^ Suc i * (\<Prod>a\<in>T. X j - a)) - a * (\<Sum>j\<in>S. D j * X j ^ i * (\<Prod>a\<in>T. X j - a))"
    using insert.hyps by (simp add: sum_subtractf sum_distrib_left algebra_simps)
  then show ?case using insert.IH [of "Suc i"] insert.IH [of i] insert.prems insert.hyps by simp
qed

lemma moments_zero:
  fixes D X :: "'i \<Rightarrow> 'a::field"
  assumes "\<And>i. 1 \<le> i \<Longrightarrow> i \<le> n \<Longrightarrow> (\<Sum>j\<in>S. D j * X j ^ i) = 0" "finite S" "card S \<le> n" "inj_on X S" "k \<in> S" "X k \<noteq> 0"
  shows "D k = 0"
proof -
  let ?T = "X ` (S - {k})"
  have "card ?T = card S - 1" using assms(2,4,5) by (simp add: card_image inj_on_diff)
  moreover have "card S \<noteq> 0" using assms(2,5) by auto
  ultimately have "1 + card ?T \<le> n" using assms(3) by linarith
  then have "(\<Sum>j\<in>S. D j * X j ^ 1 * (\<Prod>a\<in>?T. X j - a)) = 0"
    using assms(2) by (intro moments_prod [OF assms(1)]) auto
  moreover have "(\<Sum>j\<in>S. D j * X j ^ 1 * (\<Prod>a\<in>?T. X j - a)) = D k * X k * (\<Prod>a\<in>?T. X k - a)"
  proof (subst sum.remove [OF assms(2,5)])
    have "(\<Prod>a\<in>?T. X j - a) = 0" if "j \<in> S - {k}" for j using that assms(2) by (intro prod_zero bexI [of _ "X j"]) auto
    then show "D k * X k ^ 1 * (\<Prod>a\<in>?T. X k - a) + (\<Sum>j\<in>S - {k}. D j * X j ^ 1 * (\<Prod>a\<in>?T. X j - a)) = D k * X k * (\<Prod>a\<in>?T. X k - a)" by simp
  qed
  moreover have "(\<Prod>a\<in>?T. X k - a) \<noteq> 0" using assms(2,4,5) by (auto simp: inj_on_def)
  ultimately show ?thesis using assms(6) by simp
qed

text \<open>A code word: all syndromes are zero.\<close>

definition rs_codeword :: "rs_ctx \<Rightarrow> nat \<Rightarrow> bytes \<Rightarrow> bool" where
  "rs_codeword c kk w \<longleftrightarrow> length w = NN \<and> (\<forall>i \<in> {1..NN - kk}. syndrome c (recd_of c w) i = 0)"

lemma codeword_pval:
  assumes "rs_tables c"
  shows "rs_codeword c kk w \<longleftrightarrow> length w = NN \<and> (\<forall>i. 1 \<le> i \<and> i \<le> NN - kk \<longrightarrow> pval (nth w) NN (alpha i) = 0)"
proof -
  have "uint (byte_of a) = 0 \<longleftrightarrow> a = 0" for a using gfe_eqI [of a 0] by (auto simp: unsigned_eq_0_iff)
  then show ?thesis using syndrome_pval [OF assms, of w] by (auto simp: rs_codeword_def)
qed

lemma encode_rs_codeword:
  assumes "rs_ready c kk g" "kk \<le> length data"
  shows "rs_codeword c kk (take kk data @ encode_rs c data kk)"
proof -
  have t: "rs_tables c" "kk < NN" using assms(1) by (simp_all add: rs_ready_def)
  have NN: "kk + (NN - kk) = NN" using t(2) by simp
  note enc = encode_rs_pval [OF assms]
  have "pval (nth (take kk data @ encode_rs c data kk)) NN (alpha i) = 0" if "1 \<le> i" "i \<le> NN - kk" for i
  proof -
    have "alpha i ^ kk * alpha i ^ (NN - kk) = 1" using alpha_255 [of i] NN by (simp add: NN_def flip: power_add)
    then have "alpha i ^ kk * pval (nth (encode_rs c data kk)) (NN - kk) (alpha i) = pval (nth (take kk data)) kk (alpha i)"
      unfolding enc(2) [OF that] by (simp flip: mult.assoc)
    then show ?thesis using pval_append [of "take kk data" "encode_rs c data kk" "NN - kk" "alpha i"] assms(2) NN by simp
  qed
  then show ?thesis using enc(1) assms(2) NN by (simp add: codeword_pval [OF t(1)])
qed

lemma codewords_equal:
  assumes "rs_tables c" "rs_codeword c kk v" "rs_codeword c kk w" "card {j. j < NN \<and> v ! j \<noteq> w ! j} \<le> NN - kk"
  shows "v = w"
proof -
  let ?S = "{j. j < NN \<and> v ! j \<noteq> w ! j}"
  have v: "length v = NN" "length w = NN" "\<And>i. 1 \<le> i \<Longrightarrow> i \<le> NN - kk \<Longrightarrow> pval (nth v) NN (alpha i) = 0 \<and> pval (nth w) NN (alpha i) = 0"
    using assms(2,3) by (simp_all add: codeword_pval [OF assms(1)])
  have sum: "(\<Sum>j\<in>?S. Gfe (v ! j XOR w ! j) * alpha j ^ i) = 0" if "1 \<le> i" "i \<le> NN - kk" for i
  proof -
    have "(\<Sum>j\<in>?S. Gfe (v ! j XOR w ! j) * alpha j ^ i) = (\<Sum>j<NN. Gfe (v ! j XOR w ! j) * alpha i ^ j)"
      by (rule sum.mono_neutral_cong_left) (auto simp: alpha_power mult.commute)
    also have "\<dots> = pval (nth v) NN (alpha i) + pval (nth w) NN (alpha i)"
      by (simp add: pval_def Gfe_xor(1) algebra_simps sum.distrib)
    finally show ?thesis using v(3) [OF that] by simp
  qed
  have inj: "inj_on (\<lambda>j. alpha j) ?S" by (rule inj_onI) (auto simp: NN_def dest: alpha_inj)
  have "Gfe (v ! k XOR w ! k) = 0" if "k \<in> ?S" for k
    using moments_zero [where S = ?S and D = "\<lambda>j. Gfe (v ! j XOR w ! j)", OF sum _ assms(4) inj that alpha_nonzero] by simp
  then have "?S = {}" by (auto simp: word_xor_eq_0)
  then show ?thesis using v(1,2) by (auto intro: nth_equalityI)
qed

section \<open>Blocks in code words\<close>

definition parts :: "nat \<Rightarrow> nat \<Rightarrow> bytes list \<Rightarrow> bytes" where
  "parts n off bs = concat (map (\<lambda>b. sub b off n) bs)"

lemma length_parts: "\<forall>b \<in> set bs. off + n \<le> length b \<Longrightarrow> length (parts n off bs) = length bs * n"
  by (induction bs) (simp_all add: parts_def)

lemma blit_blit: "a + length x + length y \<le> length buf \<Longrightarrow> blit (blit buf a x) (a + length x) y = blit buf a (x @ y)"
  by (simp add: blit_def ac_simps)

lemma put_parts_ok:
  assumes "\<forall>b \<in> set bs. off + n \<le> length b" "count + length bs * n \<le> length buf"
  shows "put_parts n off bs count buf = Some (count + length bs * n, blit buf count (parts n off bs))"
  using assms
proof (induction bs arbitrary: count buf)
  case Nil
  then show ?case by (simp add: parts_def blit_def)
next
  case (Cons b bs)
  have s: "length (sub b off n) = n" "length (parts n off bs) = length bs * n" using Cons.prems(1) length_parts by simp_all
  have "blit (blit buf count (sub b off n)) (count + n) (parts n off bs) = blit buf count (parts n off (b # bs))"
    using blit_blit [of count "sub b off n" "parts n off bs" buf] s Cons.prems(2) by (simp add: parts_def)
  then show ?case using Cons s by (simp add: ac_simps)
qed

lemma get_parts_ok:
  assumes "\<forall>b \<in> set bs. off + n \<le> length b" "count + length bs * n \<le> length buf"
  shows "\<exists>bs'. get_parts n off bs count buf = Some bs' \<and> length bs' = length bs \<and>
    (\<forall>j < length bs. bs' ! j = blit (bs ! j) off (sub buf (count + j * n) n))"
  using assms
proof (induction bs arbitrary: count)
  case (Cons b bs)
  then obtain bs' where bs': "get_parts n off bs (count + n) buf = Some bs'" "length bs' = length bs"
      "\<forall>j < length bs. bs' ! j = blit (bs ! j) off (sub buf (count + n + j * n) n)"
    using Cons.IH [of "count + n"] by (auto simp: add.assoc)
  then have "(blit b off (sub buf count n) # bs') ! j = blit ((b # bs) ! j) off (sub buf (count + j * n) n)" if "j < Suc (length bs)" for j
    using that by (cases j) (simp_all add: ac_simps)
  then show ?case using Cons.prems bs'(1,2) by auto
qed simp

text \<open>The \<open>n\<close> bytes at \<open>off\<close> of the blocks \<open>bs\<close>, with zeros up to \<open>kk\<close>, and of the carriers make a code word, as far as its parity is kept.\<close>

definition coded :: "rs_ctx \<Rightarrow> nat \<Rightarrow> nat \<Rightarrow> nat \<Rightarrow> bytes list \<Rightarrow> bytes list \<Rightarrow> bool" where
  "coded c kk n off bs carrier \<longleftrightarrow> (\<exists>par. rs_codeword c kk (parts n off bs @ replicate (kk - length bs * n) 0 @ par) \<and>
     (\<forall>j < length carrier. sub (carrier ! j) off n = sub par (j * n) n))"

definition in_place :: "rs_config \<Rightarrow> nat \<Rightarrow> nat \<Rightarrow> bytes list \<Rightarrow> bytes list \<Rightarrow> bool" where
  "in_place info n off bs carrier \<longleftrightarrow> (\<forall>b \<in> set bs \<union> set carrier. length b = 4096) \<and> off + n \<le> 4096 \<and>
     length bs * n \<le> unat (rs_k info) \<and> unat (rs_k info) + length carrier * n \<le> 255"

text \<open>Bytes that are not touched.\<close>

definition beside :: "nat \<Rightarrow> nat \<Rightarrow> bytes list \<Rightarrow> bytes list \<Rightarrow> bool" where
  "beside off n carrier carrier' \<longleftrightarrow> length carrier' = length carrier \<and> (\<forall>j < length carrier. length (carrier' ! j) = length (carrier ! j) \<and>
     (\<forall>a l. a + l \<le> length (carrier ! j) \<and> (a + l \<le> off \<or> off + n \<le> a) \<longrightarrow> sub (carrier' ! j) a l = sub (carrier ! j) a l))"

lemma encode_part_ok:
  assumes "rs_ready c (unat (rs_k info)) g" "in_place info n off (data @ entropy) carrier"
    and "final \<or> length (data @ entropy) * n = unat (rs_k info)"
  shows "\<exists>carrier'. encode_part final c info n off data entropy carrier = Some carrier' \<and> beside off n carrier carrier' \<and>
    coded c (unat (rs_k info)) n off (data @ entropy) carrier'"
proof -
  let ?kk = "unat (rs_k info)" and ?bs = "data @ entropy"
  note i = assms(2) [unfolded in_place_def]
  have len: "\<forall>b \<in> set ?bs. off + n \<le> length b" "\<forall>b \<in> set carrier. off + n \<le> length b" using i by auto
  have kk: "?kk < NN" using assms(1) by (simp add: rs_ready_def)
  have m: "length data * n + length entropy * n \<le> ?kk" using i by (simp add: algebra_simps)
  let ?P = "parts n off ?bs"
  have lenP: "length ?P = length ?bs * n" using length_parts [OF len(1)] .
  have lenD: "length (parts n off data) = length data * n" using len(1) by (intro length_parts) auto
  have PP: "?P = parts n off data @ parts n off entropy" by (simp add: parts_def)
  let ?buf = "blit (replicate 255 0) 0 ?P"
  have p1: "put_parts n off data 0 (replicate 255 0) = Some (length data * n, blit (replicate 255 0) 0 (parts n off data))"
    using put_parts_ok [of data off n 0 "replicate 255 0"] len(1) m kk by (auto simp: NN_def)
  have p2: "put_parts n off entropy (length data * n) (blit (replicate 255 0) 0 (parts n off data)) = Some (length ?bs * n, ?buf)"
    using put_parts_ok [of entropy off n "length data * n" "blit (replicate 255 0) 0 (parts n off data)"] len(1) m kk lenD lenP
      blit_blit [of 0 "parts n off data" "parts n off entropy" "replicate 255 0"] by (auto simp: NN_def PP algebra_simps)
  have lb: "length ?buf = 255" using lenP m kk by (simp add: NN_def algebra_simps)
  have tk: "take ?kk ?buf = ?P @ replicate (?kk - length ?bs * n) 0"
    using lenP m kk by (simp add: blit_def NN_def algebra_simps)
  let ?bb = "encode_rs c ?buf ?kk"
  have bb: "length ?bb = 255 - ?kk" "rs_codeword c ?kk (take ?kk ?buf @ ?bb)"
    using encode_rs_pval(1) [OF assms(1), of ?buf] encode_rs_codeword [OF assms(1), of ?buf] lb kk by (simp_all add: NN_def)
  let ?buf2 = "blit ?buf ?kk ?bb"
  have b2: "?buf2 = take ?kk ?buf @ ?bb" using lb bb(1) kk by (simp add: blit_def NN_def)
  have st: "(if final then ?kk else length ?bs * n) = ?kk" using assms(3) by auto
  have room: "?kk + length carrier * n \<le> length ?buf2" using i lb bb(1) kk by (simp add: b2 NN_def)
  obtain carrier' where car: "get_parts n off carrier (if final then ?kk else length ?bs * n) ?buf2 = Some carrier'" "length carrier' = length carrier"
      "\<forall>j < length carrier. carrier' ! j = blit (carrier ! j) off (sub ?buf2 (?kk + j * n) n)"
    using get_parts_ok [OF len(2) room] unfolding st by blast
  have sub: "sub ?buf2 (?kk + j * n) n = sub ?bb (j * n) n" for j
    unfolding b2 using lb kk by (simp add: sub_def NN_def)
  have "length (sub ?bb (j * n) n) = n" if "j < length carrier" for j
  proof -
    have "j * n + n \<le> length carrier * n" using that by (metis Suc_leI mult_Suc mult_le_mono1 add.commute)
    then have "j * n + n \<le> length ?bb" using i bb(1) by linarith
    then show ?thesis by (rule length_sub)
  qed
  moreover have "off + n \<le> length (carrier ! j)" if "j < length carrier" for j using len(2) that by simp
  ultimately have "beside off n carrier carrier'" "\<forall>j < length carrier'. sub (carrier' ! j) off n = sub ?bb (j * n) n"
    using car(2,3) sub by (auto simp: beside_def sub_blit_same_len intro!: sub_blit_disjoint)
  moreover have "rs_codeword c ?kk (?P @ replicate (?kk - length ?bs * n) 0 @ ?bb)" using bb(2) tk by simp
  ultimately have "beside off n carrier carrier' \<and> coded c ?kk n off ?bs carrier'" by (auto simp: coded_def)
  moreover have "encode_part final c info n off data entropy carrier = Some carrier'"
    using p1 p2 car(1) by (cases final) (simp_all add: encode_part_def Let_def)
  ultimately show ?thesis by blast
qed

lemma beside_trans:
  assumes "beside off n x y" "beside (off + n) m y z"
  shows "beside off (n + m) x z"
  using assms unfolding beside_def by (auto simp: add.assoc)

lemma coded_beside:
  assumes "coded c kk n off bs x" "beside off' m x y" "off + n \<le> off'" "\<forall>b \<in> set x. off + n \<le> length b"
  shows "coded c kk n off bs y"
  using assms unfolding coded_def beside_def by (metis nth_mem)

lemma in_place_beside: "in_place info n off bs x \<Longrightarrow> beside off' m x y \<Longrightarrow> in_place info n off bs y"
  unfolding in_place_def beside_def by (metis Un_iff in_set_conv_nth)

lemma encode_loop_ok:
  assumes "rs_ready c (unat (rs_k info)) g" "n = unat (block_portion info)" "length (data @ entropy) * n = unat (rs_k info)"
    and "in_place info n 0 (data @ entropy) carrier" "off + m * n \<le> 4096"
  shows "\<exists>carrier'. encode_loop m off c info data entropy carrier = Some carrier' \<and> beside off (m * n) carrier carrier' \<and>
    (\<forall>p < m. coded c (unat (rs_k info)) n (off + p * n) (data @ entropy) carrier')"
  using assms(4,5)
proof (induction m arbitrary: off carrier)
  case 0
  then show ?case by (simp add: beside_def)
next
  case (Suc m)
  have ip: "in_place info n off (data @ entropy) carrier" using Suc.prems by (simp add: in_place_def)
  obtain c1 where c1: "encode_part False c info n off data entropy carrier = Some c1" "beside off n carrier c1"
      "coded c (unat (rs_k info)) n off (data @ entropy) c1"
    using encode_part_ok [OF assms(1) ip] assms(3) by blast
  have ip1: "in_place info n 0 (data @ entropy) c1" using in_place_beside [OF Suc.prems(1) c1(2)] .
  obtain c2 where c2: "encode_loop m (off + n) c info data entropy c1 = Some c2" "beside (off + n) (m * n) c1 c2"
      "\<forall>p < m. coded c (unat (rs_k info)) n (off + n + p * n) (data @ entropy) c2"
    using Suc.IH [OF ip1, of "off + n"] Suc.prems(2) by (auto simp: algebra_simps)
  have "coded c (unat (rs_k info)) n off (data @ entropy) c2"
    using coded_beside [OF c1(3) c2(2)] ip1 Suc.prems(2) by (auto simp: in_place_def)
  then have "coded c (unat (rs_k info)) n (off + p * n) (data @ entropy) c2" if "p < Suc m" for p
    using c2(3) that by (cases p) (auto simp: algebra_simps)
  moreover have "beside off (Suc m * n) carrier c2" using beside_trans [OF c1(2) c2(2)] by simp
  ultimately show ?case using c1(1) c2(1) assms(2) by auto
qed

lemma initialize_facts:
  assumes "initialize cfg nd ne nc c0 k0 = Some (info, c, k1)" "unat nd + unat ne + unat nc \<le> 255"
  shows "0 < unat (block_portion info)" "(unat nd + unat ne + unat nc) * unat (block_portion info) \<le> 255"
    "unat (rs_k info) = (unat nd + unat ne) * unat (block_portion info)" "num_data info = nd" "num_entropy info = ne" "num_carrier info = nc"
    "unat (encode_blocks info) = 4096 div unat (block_portion info) + (if 4096 mod unat (block_portion info) = 0 then 0 else 1)"
    "unat (final_padding info) = 4096 mod unat (block_portion info)" "init_rs (unat (rs_k info)) c0 k0 = Some (c, k1)"
    "unat (block_portion info) \<le> 255"
proof -
  define p where "p = 255 div (nd + ne + nc)"
  have info: "block_portion info = p" "rs_k info = p * (nd + ne)" "num_data info = nd" "num_entropy info = ne" "num_carrier info = nc"
      "final_padding info = 4096 mod p" "encode_blocks info = (if 4096 mod p \<noteq> 0 then 4096 div p + 1 else 4096 div p)" "p \<noteq> 0"
      "init_rs (unat (p * (nd + ne))) c0 k0 = Some (c, k1)"
    using assms(1) by (auto simp: initialize_def Let_def p_def split: if_splits bind_splits)
  have sum: "unat (nd + ne) = unat nd + unat ne" "unat (nd + ne + nc) = unat nd + unat ne + unat nc"
    using assms(2) by (simp_all add: unat_word_ariths)
  have up: "unat p = 255 div (unat nd + unat ne + unat nc)" unfolding p_def using sum(2) by (simp add: unat_div_distrib)
  then show "unat (block_portion info) \<le> 255" using info(1) div_le_dividend by simp
  show pos: "0 < unat (block_portion info)" using info(1,8) by (simp add: unat_gt_0)
  show T: "(unat nd + unat ne + unat nc) * unat (block_portion info) \<le> 255" using info(1) up by simp
  have "unat p * (unat nd + unat ne) \<le> unat p * (unat nd + unat ne + unat nc)" by (intro mult_le_mono2) simp
  also have "\<dots> \<le> 255" using T info(1) by (simp add: mult.commute)
  finally have le: "unat p * (unat nd + unat ne) \<le> 255" .
  then show "unat (rs_k info) = (unat nd + unat ne) * unat (block_portion info)"
    using info(1,2) sum(1) by (simp add: unat_word_ariths mult.commute)
  have md: "unat (4096 mod p) = 4096 mod unat p" "unat (4096 div p) = 4096 div unat p" by (simp_all add: unat_mod_distrib unat_div_distrib)
  then show "unat (final_padding info) = 4096 mod unat (block_portion info)" using info(1,6) by simp
  have "4096 mod p = 0 \<longleftrightarrow> 4096 mod unat p = 0" using md(1) by (metis unat_eq_zero)
  moreover have "unat (4096 div p + 1) = 4096 div unat p + 1"
  proof -
    have "4096 div unat p < 4294967295" using div_le_dividend [of 4096 "unat p"] by linarith
    then show ?thesis using md(2) by (simp add: unat_word_ariths)
  qed
  ultimately show "unat (encode_blocks info) = 4096 div unat (block_portion info) + (if 4096 mod unat (block_portion info) = 0 then 0 else 1)"
    using info(1,7) md(2) by (auto split: if_splits)
qed (use assms(1) in \<open>auto simp: initialize_def Let_def split: if_splits bind_splits\<close>)

lemma in_place_less:
  assumes "in_place info n off bs x" "n' \<le> n" "off' + n' \<le> 4096"
  shows "in_place info n' off' bs x"
proof -
  have "length bs * n' \<le> length bs * n" "length x * n' \<le> length x * n" using assms(2) by simp_all
  then show ?thesis using assms(1,3) unfolding in_place_def by linarith
qed

lemma portion_ends:
  assumes "0 < n" "n \<le> 255" "u = 4096 div n + (if 4096 mod n = 0 then 0 else 1)" "f = 4096 mod (n :: nat)"
  shows "(u - 1) * n + f \<le> 4096" "n dvd 4096 \<Longrightarrow> f = 0 \<and> (u - 1) * n = 4096 - n" "f \<le> n" "1 \<le> u"
proof -
  have d: "4096 div n * n + 4096 mod n = 4096" "1 \<le> 4096 div n" using assms(1,2) div_le_mono2 [of n 255 4096] by simp_all
  show "n dvd 4096 \<Longrightarrow> f = 0 \<and> (u - 1) * n = 4096 - n" using d assms(3,4) by (auto simp: diff_mult_distrib)
  show "(u - 1) * n + f \<le> 4096" using d assms(3,4) by (auto simp: diff_mult_distrib)
  show "f \<le> n" using assms(1,4) by (simp add: less_imp_le)
  show "1 \<le> u" using d(2) assms(3) by simp
qed

section \<open>Properties\<close>

text \<open>C15: The encoder makes code words, and code words can be recovered: after \<open>init_rs\<close>, the data with the parity of \<open>encode_rs\<close> has all
  syndromes zero, and it is the only word with that property that agrees with it in \<open>kk\<close> of the 255 symbols, so
  \<open>NN - kk\<close> erasures at any known places can be made good.\<close>

theorem encode_rs_recoverable:
  assumes "init_rs kk c0 k = Some (c, k')" "length (Alpha_to c0) = 256" "length (Index_of c0) = 256" "length data = kk"
  shows "rs_codeword c kk (data @ encode_rs c data kk) \<and>
    (\<forall>w. rs_codeword c kk w \<and> card {j. j < NN \<and> w ! j \<noteq> (data @ encode_rs c data kk) ! j} \<le> NN - kk \<longrightarrow> w = data @ encode_rs c data kk)"
proof -
  obtain g where g: "rs_ready c kk g" using init_rs_ready [OF assms(1-3)] by blast
  have "rs_codeword c kk (data @ encode_rs c data kk)" using encode_rs_codeword [OF g, of data] assms(4) by simp
  then show ?thesis using codewords_equal [of c kk] g by (auto simp: rs_ready_def)
qed

text \<open>C19: \<open>encode\<close> spreads blocks over code words: with a configuration of at most 255 blocks, at least one of them a carrier, it succeeds, and the
  bytes of the data, entropy and carrier blocks at each place make a code word, as far as the carriers hold its parity. The places
  are of \<open>block_portion\<close> bytes, the last of \<open>final_padding\<close> bytes, which is 0 if the portion divides the block size: then
  the last portion of the carriers is not written at all, and the data there is lost.\<close>

theorem encode_codes_blocks:
  assumes "initialize cfg nd ne nc c0 k0 = Some (info, c, k1)" "length (Alpha_to c0) = 256" "length (Index_of c0) = 256"
    and "unat nd + unat ne + unat nc \<le> 255" "alloc_ok k" "\<forall>b \<in> set (data @ entropy @ carrier). length b = 4096"
    and "length data = unat nd" "length entropy = unat ne" "length carrier = unat nc"
  shows "\<exists>carrier' k'. encode c info data entropy carrier k = Some (carrier', k') \<and>
    (let n = unat (block_portion info); m = unat (encode_blocks info) - 1; kk = unat (rs_k info) in
     (\<forall>p < m. coded c kk n (p * n) (data @ entropy) carrier') \<and>
     coded c kk (unat (final_padding info)) (m * n) (data @ entropy) carrier' \<and>
     (n dvd 4096 \<longrightarrow> (\<forall>j < length carrier. sub (carrier' ! j) (4096 - n) n = sub (carrier ! j) (4096 - n) n)))"
proof -
  note i = initialize_facts [OF assms(1,4)]
  let ?n = "unat (block_portion info)" and ?m = "unat (encode_blocks info) - 1" and ?kk = "unat (rs_k info)" and ?f = "unat (final_padding info)"
  obtain g where g: "rs_ready c ?kk g" using init_rs_ready [OF i(9) assms(2,3)] by blast
  have bs: "length (data @ entropy) * ?n = ?kk" using i(3) assms(7,8) by simp
  note n = i(10,1)
  note ends = portion_ends [OF n(2,1) i(7,8)]
  have ip: "in_place info ?n 0 (data @ entropy) carrier"
    using assms(6,9) bs i(2,3) n(1) by (auto simp: in_place_def algebra_simps)
  obtain c1 where c1: "encode_loop ?m 0 c info data entropy carrier = Some c1" "beside 0 (?m * ?n) carrier c1"
      "\<forall>p < ?m. coded c ?kk ?n (0 + p * ?n) (data @ entropy) c1"
    using encode_loop_ok [OF g refl bs ip, of 0 ?m] ends(1) by auto
  have ip1: "in_place info ?n 0 (data @ entropy) c1" using in_place_beside [OF ip c1(2)] .
  have "in_place info ?f (?m * ?n) (data @ entropy) c1" using in_place_less [OF ip1 ends(3,1)] .
  then obtain c2 where c2: "encode_part True c info ?f (?m * ?n) data entropy c1 = Some c2" "beside (?m * ?n) ?f c1 c2"
      "coded c ?kk ?f (?m * ?n) (data @ entropy) c2"
    using encode_part_ok [OF g, of ?f] by blast
  have "coded c ?kk ?n (p * ?n) (data @ entropy) c2" if "p < ?m" for p
  proof (rule coded_beside [OF _ c2(2)])
    show "coded c ?kk ?n (p * ?n) (data @ entropy) c1" using c1(3) that by simp
    have "Suc p * ?n \<le> ?m * ?n" using that by (intro mult_le_mono1) simp
    then show le: "p * ?n + ?n \<le> ?m * ?n" by simp
    show "\<forall>b \<in> set c1. p * ?n + ?n \<le> length b" using ip1 le ends(1) by (auto simp: in_place_def)
  qed
  moreover have "unat (encode_blocks info - 1) = ?m" using ends(4) by (simp add: unat_sub word_le_nat_alt)
  then have "\<exists>k'. encode c info data entropy carrier k = Some (c2, k')"
    using c1(1) c2(1) i(4-6) assms(7-9) by (simp add: encode_def kmalloc_alloc_ok [OF assms(5)] Let_def)
  moreover have "sub (c2 ! j) (4096 - ?n) ?n = sub (carrier ! j) (4096 - ?n) ?n" if "?n dvd 4096" "j < length carrier" for j
  proof -
    have e: "?f = 0" "?m * ?n = 4096 - ?n" "length (carrier ! j) = 4096" "4096 - ?n + ?n \<le> 4096"
      using ends(2) [OF that(1)] assms(6) that(2) n(1) by simp_all
    have "sub (c1 ! j) (4096 - ?n) ?n = sub (carrier ! j) (4096 - ?n) ?n" "length c1 = length carrier" "length (c1 ! j) = 4096"
      using c1(2) that(2) e unfolding beside_def by auto
    then show ?thesis using c2(2) that(2) e unfolding beside_def by auto
  qed
  ultimately show ?thesis using c2(3) unfolding Let_def by blast
qed

text \<open>C20: The decoder runs off its arrays on every word: with memory for \<open>recd\<close>, the first loop of \<open>eras_dec_rs\<close> on a received word of \<open>NN\<close>
  symbols is not left by its condition, since the index is unsigned and \<open>i >= 0\<close> holds of 0 - 1 too: after index 0 it goes on with
  \<open>data[0xFFFFFFFF]\<close>, an access out of bounds.\<close>

theorem eras_dec_out_of_bounds:
  assumes "alloc_ok k" "length data = NN"
  shows "eras_dec_recd c data k = Some (Out_of_bounds 0xFFFFFFFF)"
proof -
  have wrap: "(0 :: u32) - 1 = 0xFFFFFFFF" "\<not> unat (0xFFFFFFFF :: u32) < NN" by (simp_all add: NN_def)
  have loop: "recd_loop c data i recd = Some (Out_of_bounds 0xFFFFFFFF)" if "length recd = NN" "unat i < NN" for i recd
    using that
  proof (induction "unat i" arbitrary: i recd)
    case 0
    then have "i = 0" by (simp add: unat_eq_zero)
    then show ?case
      using 0 assms(2) wrap by (subst recd_loop.simps, subst recd_loop.simps) (simp del: minus_diff_eq diff_0)
  next
    case (Suc n)
    then have "i \<noteq> 0" by auto
    then have "n = unat (i - 1)" using Suc.hyps(2) by (simp add: unat_minus_one)
    then show ?case using Suc assms(2) by (subst recd_loop.simps) simp
  qed
  have "unat (of_nat NN - 1 :: u32) < NN" by (simp add: NN_def)
  then show ?thesis using assms(1) by (simp add: eras_dec_recd_def kmalloc_alloc_ok loop)
qed

section \<open>Instances\<close>

lemma rs_globals_length: "length (Alpha_to rs_globals) = 256" "length (Index_of rs_globals) = 256"
  by (simp_all add: rs_globals_def NN_def)

lemma init_rs_ok: "alloc_ok k \<Longrightarrow> kk < NN \<Longrightarrow> \<exists>c k'. init_rs kk c0 k = Some (c, k')"
  by (simp add: init_rs_def kmalloc_alloc_ok Let_def)

theorem eras_dec_out_of_bounds_witness: "eras_dec_recd rs_globals (replicate 255 7) demo_kernel = Some (Out_of_bounds 0xFFFFFFFF)"
  by (rule eras_dec_out_of_bounds) (simp_all add: alloc_ok_def demo_kernel_def NN_def)

theorem encode_rs_recoverable_witness:
  "\<exists>c k'. init_rs 223 rs_globals demo_kernel = Some (c, k') \<and> rs_codeword c 223 (replicate 223 7 @ encode_rs c (replicate 223 7) 223)"
proof -
  have "alloc_ok demo_kernel" by (simp add: alloc_ok_def demo_kernel_def)
  then obtain c k' where i: "init_rs 223 rs_globals demo_kernel = Some (c, k')"
    using init_rs_ok [of demo_kernel 223 rs_globals] by (auto simp: NN_def)
  have "rs_codeword c 223 (replicate 223 7 @ encode_rs c (replicate 223 7) 223)"
    by (rule conjunct1 [OF encode_rs_recoverable [OF i rs_globals_length]]) (rule length_replicate)
  then show ?thesis using i by blast
qed

definition rs_config0 :: rs_config where
  "rs_config0 = \<lparr>num_data = 0, num_entropy = 0, num_carrier = 0, polynomial_deg = 0, rs_k = 0, rs_n = 0, rs_total_blocks = 0, encode_blocks = 0,
     block_portion = 0, rs_padding = 0, rs_block_size = 0, final_padding = 0\<rparr>"

theorem encode_codes_blocks_witness:
  "\<exists>info c k1 carrier' k'. initialize rs_config0 1 1 1 rs_globals demo_kernel = Some (info, c, k1) \<and>
     encode c info [replicate 4096 1] [replicate 4096 2] [replicate 4096 0] demo_kernel = Some (carrier', k') \<and>
     coded c 170 85 85 [replicate 4096 1, replicate 4096 2] carrier'"
proof -
  have al: "alloc_ok demo_kernel" by (simp add: alloc_ok_def demo_kernel_def)
  obtain c k1 where r: "init_rs 170 rs_globals demo_kernel = Some (c, k1)" using init_rs_ok [OF al, of 170 rs_globals] by (auto simp: NN_def)
  have "(255 :: u32) div 3 = 85" "(85 :: u32) * 2 = 170" "(4096 :: u32) div 85 + 1 = 49" "(4096 :: u32) mod 85 = 16" by code_simp+
  then obtain info where i: "initialize rs_config0 1 1 1 rs_globals demo_kernel = Some (info, c, k1)"
      "block_portion info = 85" "encode_blocks info = 49" "rs_k info = 170"
    using r by (auto simp: initialize_def Let_def rs_config0_def)
  let ?d = "[replicate 4096 1]" and ?e = "[replicate 4096 2]" and ?c = "[replicate 4096 0]"
  obtain carrier' k' where e: "encode c info ?d ?e ?c demo_kernel = Some (carrier', k')" "\<forall>p < 48. coded c 170 85 (p * 85) (?d @ ?e) carrier'"
    using encode_codes_blocks [OF i(1) rs_globals_length _ al, of ?d ?e ?c] i(2-4) by (auto simp: Let_def)
  have "coded c 170 85 (1 * 85) (?d @ ?e) carrier'" using e(2) by (rule allE [of _ 1]) simp
  then show ?thesis using i(1) e(1) by (intro exI conjI) simp_all
qed

end
