(* ===== verification/Spec2Isabelle.thy ===== *)
theory Spec2Isabelle
  imports Afs_Allocation Afs_Gfshare Afs_Aont Afs_Crypto Afs_Mount Afs_Disk Afs_Fat32 Afs_Ext4 Afs_Ntfs Afs_Target Afs_Concurrent Afs_Entropy Afs_Rs
begin

text \<open>
  \<^bold>\<open>Artifice, a verification development.\<close>

  Artifice is a device-mapper target for Linux that hides a volume in the free blocks of another file
  system. A virtual block is encoded into carrier blocks, by an all-or-nothing transform with
  Reed-Solomon parity or by Shamir secret sharing; the map from virtual blocks to carrier blocks, with
  checksums, is itself stored in free blocks that are found again from a passphrase.

  \<^bold>\<open>Parts and how they interact.\<close>
  \<^item> The target (\<open>src/src/dm_afs.c\<close>) turns a bio into a request and queues it; the engine
    (\<open>src/src/dm_afs_engine.c\<close>) serves it: it encodes or decodes the block, takes carrier blocks from
    the allocator, reads or writes them, and records them with their checksums in the map.
  \<^item> The metadata (\<open>src/src/dm_afs_metadata.c\<close>) creates the map, packs it into map blocks, writes map
    blocks, pointer blocks and super blocks, and finds and reads them on a mount.
  \<^item> The allocator (\<open>src/src/dm_afs_allocation.c\<close>) draws random free blocks, remembered in a bit vector
    (\<open>src/src/lib/bit_vector.c\<close>); block I/O is \<open>src/src/dm_afs_io.c\<close>.
  \<^item> The codecs and hashes are \<open>aont.c\<close>, \<open>cauchy_rs.c\<close>, \<open>libgfshare.c\<close>, \<open>speck.c\<close>, \<open>sha3.c\<close>
    and \<open>city.c\<close> in \<open>src/src/lib\<close>, and \<open>src/src/dm_afs_crypto.c\<close>.

  \<^bold>\<open>Theories.\<close> Each models the file of its name and states what makes it correct.
  \<^item> \<open>Afs_Prelude\<close>: words, buffers, little-endian layout, and the record \<open>kernel\<close> of everything the
    driver asks of the kernel: device bytes, outcome of each transfer and allocation, contents of fresh
    memory, random bytes, kernel digests. The theorems hold for each of its behaviours, or name the hypothesis
    (\<open>alloc_ok\<close>, \<open>io_ok\<close>, \<open>digests_ok\<close>) they need.
  \<^item> \<open>Afs_Bit_Vector\<close> with the interface \<open>bit_store\<close>, and \<open>Afs_Allocation\<close>: a block handed out was
    free and is taken afterwards; when the search for one ends, and when it gives up too early.
  \<^item> \<open>Afs_GF\<close>, \<open>Afs_Gf_Tables\<close>: the field GF(256) of Shamir's scheme and its log and exp tables.
    \<open>Afs_Gfshare\<close>: splitting and recombination, any threshold of shares gives the secret, and one share alone
    says nothing.
  \<^item> \<open>Afs_Cauchy_Tables\<close>, \<open>Afs_Cauchy_Mem\<close>, \<open>Afs_Cauchy\<close>: the field of the Cauchy code, the
    vectorised block operations against the bytewise ones, encoder and decoder with recovery from two erasures, given the tables of \<open>cauchy_init\<close>, which the module never calls.
  \<^item> \<open>Afs_Speck\<close>, \<open>Afs_Sha3\<close>, \<open>Afs_Aont\<close>: the cipher in counter mode, the sponge, and the transform, with
    the interface \<open>aont_cipher\<close>.
  \<^item> \<open>Afs_Crc_Tables\<close>, \<open>Afs_Crypto\<close>: CRC32 by slices, CRC16, the Speck digest. \<open>Afs_City\<close>: CityHash
    with checked loads.
  \<^item> \<open>Afs_Block_IO\<close>: pages on the device, with the interface \<open>page_store\<close>. \<open>Afs_Format\<close>: the on-disk
    structures and the configuration. \<open>Afs_Map\<close>, \<open>Afs_Super_Block\<close>, \<open>Afs_Mount\<close>: creation, flush and
    mount of an instance, and that what was created is what is mounted.
  \<^item> \<open>Afs_Engine_Queue\<close>, \<open>Afs_Engine\<close>: requests, queues, and the handlers of reads, writes and rebuilds.
    \<open>Afs_Dispatch\<close>: the work functions and the map function of the target, and the machine of work items and
    completions: there is no endless sequence of steps, and no bio is handed back twice. \<open>Afs_Volume\<close>: what the steps do to the map, the
    pages and the device of a volume in use.
  \<^item> \<open>Afs_Bio\<close>, \<open>Afs_Contents\<close>, \<open>Afs_Disk\<close>: the bytes of a bio, the abstract disk a volume holds, and that the
    engine implements reads and writes of it, one request at a time, in every order of completions, for the
    all-or-nothing transform. A block that is written in part keeps nothing of its old contents, which is how the
    code is and part of the theorem.
  \<^item> \<open>Afs_Passive\<close>, \<open>Afs_Fat32\<close>, \<open>Afs_Ext4\<close>, \<open>Afs_Ntfs\<close>: the detection of the passive file system and the free list it finds, against what
    the tables and bitmaps on the device say. \<open>Afs_Target\<close>: arguments, constructor and destructor of the target.
  \<^item> \<open>Afs_Rebuild\<close>: the rebuild requests that the constructor queues after a mount: they leave the volume alone, and fault for every
    block that is allocated. \<open>Afs_Remount\<close>: the life of a volume from creation over writes and the destructor to the constructor of
    the next mount; what was written is what the mounted volume reads.
  \<^item> \<open>Afs_Concurrent\<close>: many requests at a time, arriving while others run; those that do not touch a block another one writes are
    all served, in every interleaving.
  \<^item> \<open>Afs_Entropy\<close>: the files of the entropy directory, the hash table of their names with the interface \<open>key_table\<close>, and
    that a block drawn from them is found again.
  \<^item> \<open>Afs_Rs\<close>: the library \<open>rs.c\<close>, which the module does not link: tables, generator polynomial and encoder, whose code words are
    determined by any \<open>kk\<close> symbols, the layout of blocks in code words, and the first loop of the decoder, which runs out of its arrays.

  \<^bold>\<open>Conventions.\<close> Machine integers keep their width and wrap. A buffer is a list of bytes. A result \<open>None\<close>
  is a fault (null or wild pointer, access outside a buffer, division by zero) or a loop that does not end;
  error codes are integers as in the code. Locks are not modelled: an operation under a lock is one step.

  \<^bold>\<open>Bounds.\<close> Block numbers below \<open>2^20\<close> where bytes offsets are computed in 32 bits (\<open>block_fits\<close>; beyond, they
  wrap, which is a theorem of its own); at most 975 map blocks for the round trips of the map (the loop over
  pointer blocks is wrong, also a theorem); binary search up to \<open>2^30\<close> entries. Loops that may run for ever are
  partial functions into \<open>option\<close>; that they return is proved.

  \<^bold>\<open>Not modelled.\<close> The registration of the module; freeing memory; the ARM and AVX2 variants of the Reed-Solomon
  code, which are not compiled into the module; the decoder of \<open>src/src/lib/rs.c\<close> behind its first loop and the
  syndromes, which no call reaches; scripts, experiments and benchmarks.
\<close>

end
